(* ===== verification/RZ_Prelude.thy ===== *)
theory RZ_Prelude
  imports Main "HOL-Library.Word"
begin

text \<open>
  Shared vocabulary of the development: the machine types of the runtime (a
  \<^verbatim>\<open>uintptr_t\<close> or \<^verbatim>\<open>size_t\<close> is a 64-bit word, an \<^verbatim>\<open>int8_t\<close> shadow value and a byte of
  memory are 8-bit words, a \<^verbatim>\<open>const char *\<close> is an optional string), the reading of
  word operations as arithmetic on \<^typ>\<open>nat\<close> that carries every bounds proof, and the
  little-endian access to byte memory.
\<close>

unbundle bit_operations_syntax

section \<open>Machine types\<close>

type_synonym u64 = "64 word"
type_synonym i8 = "8 word"
type_synonym cstr = "string option"
type_synonym memory = "u64 \<Rightarrow> 8 word"

named_theorems unat_ops \<open>word operations read as natural-number arithmetic\<close>

section \<open>Word operations as natural numbers\<close>

lemma unat_bound64 [simp, intro]: "unat (a :: u64) < 18446744073709551616"
  using unsigned_less [of a] by simp

lemma unat_plus64:
  "unat (a :: u64) + unat b < 18446744073709551616 \<Longrightarrow> unat (a + b) = unat a + unat b"
  using unat_add_lem [of a b] by simp

lemma unat_minus64: "unat (b :: u64) \<le> unat a \<Longrightarrow> unat (a - b) = unat a - unat b"
  by (simp add: unat_sub word_le_nat_alt)

lemma unat_minus_wrap64:
  "unat (a :: u64) < unat b \<Longrightarrow> unat (a - b) = 18446744073709551616 + unat a - unat b"
  by (simp add: unat_sub_if_size word_size word_le_nat_alt)

lemma unat_and7 [unat_ops]: "unat ((a :: u64) AND 7) = unat a mod 8"
proof -
  have "a AND 7 = take_bit 3 a"
    by (simp add: take_bit_eq_mask mask_eq_exp_minus_1)
  then show ?thesis by (simp add: unsigned_take_bit_eq) (simp add: take_bit_eq_mod)
qed

lemma unat_drop3 [unat_ops]: "unat (drop_bit 3 (a :: u64)) = unat a div 8"
  by (simp only: unat_drop_bit_eq) (simp add: drop_bit_eq_div)

lemma and_not_eq_minus: "(a :: u64) AND NOT m = a - (a AND m)"
proof -
  have "(a AND m) + (a AND NOT m) = (a AND m) OR (a AND NOT m)"
    by (rule disjunctive_add) (simp add: bit_simps)
  also have "\<dots> = a" by (simp add: bit_eq_iff bit_simps) blast
  finally show ?thesis by (simp add: algebra_simps)
qed

lemma unat_and_not7 [unat_ops]: "unat ((a :: u64) AND NOT 7) = unat a div 8 * 8"
proof -
  have "unat (a AND NOT 7) = unat a - unat a mod 8"
    by (simp only: and_not_eq_minus) (simp add: unat_minus64 unat_and7)
  then show ?thesis by (simp add: minus_mod_eq_div_mult)
qed

lemma unat_and_m8 [unat_ops]: "unat ((a :: u64) AND - 8) = unat a div 8 * 8"
  using unat_and_not7 [of a] by simp

lemma ucast8_of_nat: "(ucast (a :: u64) :: 8 word) = of_nat (unat a)"
  by (simp add: word_unat_eq_iff unsigned_ucast_eq unsigned_of_nat)

text \<open>Counting 8-byte chunks.\<close>

lemma mod8_0E: "(n :: nat) mod 8 = 0 \<Longrightarrow> (\<And>k. n = 8 * k \<Longrightarrow> P) \<Longrightarrow> P"
  by (auto elim: dvdE)

lemma chunks_round: "(n :: nat) mod 8 = 0 \<Longrightarrow> (n + m * 8 + 7) div 8 = n div 8 + m"
  by (erule mod8_0E) simp

lemma chunks_partial:
  assumes "(n :: nat) mod 8 = 0" and "m mod 8 \<noteq> 0" and "n + m \<le> 8 * k"
  shows "n div 8 + m div 8 < k"
proof -
  have "n = 8 * (n div 8)" "m = 8 * (m div 8) + m mod 8" "0 < m mod 8"
    using assms by auto
  with assms(3) show ?thesis by linarith
qed

lemma chunk_region:
  assumes "(u :: nat) mod 8 = 0"
  shows "u \<le> x \<and> x < u + n \<longleftrightarrow>
    u div 8 \<le> x div 8 \<and> x div 8 < u div 8 + n div 8
    \<or> x div 8 = u div 8 + n div 8 \<and> x mod 8 < n mod 8"
proof -
  obtain k where u: "u = 8 * k" using assms by (rule mod8_0E)
  define c r m t where "c = x div 8" and "r = x mod 8" and "m = n div 8" and "t = n mod 8"
  have "x = 8 * c + r" "r < 8" "n = 8 * m + t" "t < 8"
    by (simp_all add: c_def r_def m_def t_def)
  then have "u \<le> x \<and> x < u + n \<longleftrightarrow> k \<le> c \<and> c < k + m \<or> c = k + m \<and> r < t"
    unfolding u by linarith
  then show ?thesis unfolding c_def r_def m_def t_def u by simp
qed

lemma chunk_span:
  assumes "(b :: nat) mod 8 = 0" and "b \<le> x" and "x < b + n"
  shows "b div 8 \<le> x div 8" and "x div 8 < (b + n + 7) div 8"
proof -
  show "b div 8 \<le> x div 8" using assms(2) by (rule div_le_mono)
  have "x + 8 \<le> b + n + 7" using assms(3) by linarith
  then have "(x + 8) div 8 \<le> (b + n + 7) div 8" by (rule div_le_mono)
  then show "x div 8 < (b + n + 7) div 8" by simp
qed

lemma chunk_last:
  assumes "(u :: nat) mod 8 = 0" and "n mod 8 \<noteq> 0" and "u + n \<le> t"
  shows "u div 8 + n div 8 < (t + 7) div 8"
proof -
  define a b r where "a = u div 8" and "b = n div 8" and "r = n mod 8"
  have "u = 8 * a" "n = 8 * b + r" "0 < r" using assms by (auto simp: a_def b_def r_def)
  then have "8 * (a + b + 1) \<le> t + 7" using assms(3) by simp
  then have "8 * (a + b + 1) div 8 \<le> (t + 7) div 8" by (rule div_le_mono)
  then show ?thesis by (simp add: a_def b_def)
qed

lemma chunks_le: "(u :: nat) + n \<le> t \<Longrightarrow> u div 8 + n div 8 \<le> (t + 7) div 8"
proof -
  assume "u + n \<le> t"
  moreover define a b where "a = u div 8" and "b = n div 8"
  moreover have "8 * a \<le> u" "8 * b \<le> n" by (simp_all add: a_def b_def)
  ultimately have "8 * (a + b) \<le> t + 7" by simp
  then have "8 * (a + b) div 8 \<le> (t + 7) div 8" by (rule div_le_mono)
  then show ?thesis by (simp add: a_def b_def)
qed

lemma outside_chunks:
  assumes "(b :: nat) \<le> u" and "u + n \<le> e" and "p \<longrightarrow> u + n < e" and "c < b \<or> e \<le> c"
  shows "\<not> (u \<le> c \<and> c < u + n)" and "\<not> (c = u + n \<and> p)" and "\<not> (b \<le> c \<and> c < e)"
  using assms by auto

lemma chunk_ceil:
  "(u :: nat) \<le> c \<and> c < u + (n + 7) div 8 \<longleftrightarrow>
    u \<le> c \<and> c < u + n div 8 \<or> c = u + n div 8 \<and> n mod 8 \<noteq> 0"
proof -
  define m r where "m = n div 8" and "r = n mod 8"
  then have n: "n = 8 * m + r" "r < 8" by simp_all
  have "(n + 7) div 8 = m + (r + 7) div 8"
    unfolding n(1) using div_mult_self1 [of 8 "r + 7" m] by (simp add: add.assoc)
  moreover have "(r + 7) div 8 = (if r = 0 then 0 else 1)" using n(2) by (simp add: div_nat_eqI)
  ultimately show ?thesis unfolding m_def [symmetric] r_def [symmetric] by auto
qed

text \<open>Masking with a power of two rounds down to a multiple of it.\<close>

lemma unat_and_mask: "k < 64 \<Longrightarrow> unat ((a :: u64) AND (2 ^ k - 1)) = unat a mod 2 ^ k"
proof -
  have "a AND (2 ^ k - 1) = take_bit k a"
    by (simp add: take_bit_eq_mask mask_eq_exp_minus_1)
  then show ?thesis by (simp add: unsigned_take_bit_eq) (simp add: take_bit_eq_mod)
qed

lemma unat_align_down: "k < 64 \<Longrightarrow> unat ((a :: u64) AND NOT (2 ^ k - 1)) = unat a div 2 ^ k * 2 ^ k"
proof -
  assume k: "k < 64"
  have "unat (a AND NOT (2 ^ k - 1)) = unat a - unat a mod 2 ^ k"
    by (simp only: and_not_eq_minus) (simp add: unat_minus64 unat_and_mask [OF k])
  then show ?thesis by (simp add: minus_mod_eq_div_mult)
qed

lemma unat_pow2:
  assumes "k < 64"
  shows "unat ((2 :: u64) ^ k) = 2 ^ k"
proof -
  have "(2 :: nat) ^ k < 2 ^ 64" using assms by (intro power_strict_increasing) auto
  moreover have "(2 :: u64) ^ k = of_nat (2 ^ k)" by simp
  ultimately show ?thesis by (simp only: unat_of_nat) simp
qed

lemma bit_unat: "bit (a :: u64) k \<longleftrightarrow> odd (unat a div 2 ^ k)"
proof -
  have "bit (unat a) k \<longleftrightarrow> bit a k"
    by (auto simp: bit_unsigned_iff dest: bit_imp_le_length)
  then show ?thesis by (simp add: bit_iff_odd)
qed

lemma between_powers_odd: "2 ^ k \<le> (n :: nat) \<Longrightarrow> n < 2 ^ (k + 1) \<Longrightarrow> odd (n div 2 ^ k)"
proof -
  assume "2 ^ k \<le> n" "n < 2 ^ (k + 1)"
  then have "n div 2 ^ k = 1" by (intro div_nat_eqI) simp_all
  then show ?thesis by simp
qed

lemma round_up_bounds:
  assumes "0 < (d :: nat)"
  shows "n \<le> (n + (d - 1)) div d * d" and "(n + (d - 1)) div d * d < n + d"
proof -
  have e: "n + (d - 1) = (n + (d - 1)) div d * d + (n + (d - 1)) mod d" by simp
  have "(n + (d - 1)) mod d < d" using assms by simp
  with e show "n \<le> (n + (d - 1)) div d * d" by linarith
  have "(n + (d - 1)) div d * d \<le> n + (d - 1)" by simp
  with assms show "(n + (d - 1)) div d * d < n + d" by linarith
qed

lemma chunks_before: "(b :: nat) mod 8 = 0 \<Longrightarrow> t \<le> b \<Longrightarrow> (t + 7) div 8 \<le> b div 8"
  by (erule mod8_0E) (use div_le_mono [of "t + 7" _ 8] in fastforce)

section \<open>Byte memory\<close>

text \<open>
  The application's memory is a function from addresses to bytes. Machine words are
  little endian on the platforms the runtime supports (x86-64 and arm64).
\<close>

fun load_le :: "nat \<Rightarrow> memory \<Rightarrow> u64 \<Rightarrow> nat" where
  "load_le 0 m a = 0"
| "load_le (Suc k) m a = unat (m a) + 256 * load_le k m (a + 1)"

fun store_le :: "nat \<Rightarrow> memory \<Rightarrow> u64 \<Rightarrow> nat \<Rightarrow> memory" where
  "store_le 0 m a n = m"
| "store_le (Suc k) m a n = (store_le k m (a + 1) (n div 256))(a := of_nat n)"

definition load64 :: "memory \<Rightarrow> u64 \<Rightarrow> u64" where
  "load64 m a = of_nat (load_le 8 m a)"

definition store64 :: "memory \<Rightarrow> u64 \<Rightarrow> u64 \<Rightarrow> memory" where
  "store64 m a w = store_le 8 m a (unat w)"

text \<open>
  \<open>in_span a n b\<close>: the address \<open>b\<close> is one of the \<open>n\<close> bytes that start at \<open>a\<close>, counted
  the way a pointer runs, around the end of the address space.
\<close>

definition in_span :: "u64 \<Rightarrow> nat \<Rightarrow> u64 \<Rightarrow> bool" where
  "in_span a n b \<longleftrightarrow> unat (b - a) < n"

lemma in_span_nowrap:
  assumes "unat a + n \<le> 18446744073709551616"
  shows "in_span a n b \<longleftrightarrow> unat a \<le> unat b \<and> unat b < unat a + n"
proof (cases "unat a \<le> unat b")
  case True
  then show ?thesis by (auto simp: in_span_def unat_minus64)
next
  case False
  then show ?thesis using assms by (auto simp: in_span_def unat_minus_wrap64)
qed

lemma in_span_Suc: "in_span a (Suc n) b \<longleftrightarrow> b = a \<or> in_span (a + 1) n b" if "n < 18446744073709551616"
proof (cases "b = a")
  case True
  then show ?thesis by (simp add: in_span_def)
next
  case False
  then have "unat (b - a) \<noteq> 0" by (simp add: unat_0_iff)
  then have "unat (b - a - 1) = unat (b - a) - 1" by (intro unat_minus_one) (simp add: unat_0_iff)
  then have "unat (b - (a + 1)) = unat (b - a) - 1" by (simp only: diff_diff_eq)
  with False \<open>unat (b - a) \<noteq> 0\<close> show ?thesis by (auto simp: in_span_def)
qed

lemma store_le_outside:
  "k \<le> 18446744073709551616 \<Longrightarrow> \<not> in_span a k b \<Longrightarrow> store_le k m a n b = m b"
proof (induction k arbitrary: a n)
  case 0
  then show ?case by simp
next
  case (Suc k)
  then show ?case by (simp add: in_span_Suc)
qed

lemma load_le_cong:
  "k \<le> 18446744073709551616 \<Longrightarrow> (\<And>b. in_span a k b \<Longrightarrow> m b = m' b) \<Longrightarrow> load_le k m a = load_le k m' a"
proof (induction k arbitrary: a)
  case 0
  then show ?case by simp
next
  case (Suc k)
  then have "load_le k m (a + 1) = load_le k m' (a + 1)"
    by (intro Suc.IH) (auto simp: in_span_Suc)
  with Suc.prems show ?case by (simp add: in_span_Suc)
qed

lemma load_store_le:
  "k \<le> 8 \<Longrightarrow> load_le k (store_le k m a n) a = n mod 256 ^ k"
proof (induction k arbitrary: a n)
  case 0
  then show ?case by simp
next
  case (Suc k)
  have "\<not> in_span (a + 1) k a"
  proof -
    have "a - (a + 1) = (- 1 :: u64)" by simp
    then have "unat (a - (a + 1)) = 18446744073709551615"
      by (simp add: unsigned_minus_1_eq_mask mask_eq_exp_minus_1)
    with Suc.prems show ?thesis by (simp add: in_span_def)
  qed
  then have "load_le k ((store_le k m (a + 1) (n div 256))(a := of_nat n)) (a + 1)
    = load_le k (store_le k m (a + 1) (n div 256)) (a + 1)"
    using Suc.prems by (intro load_le_cong) auto
  also have "\<dots> = n div 256 mod 256 ^ k" using Suc by simp
  finally show ?case
    by (simp only: load_le.simps store_le.simps fun_upd_same) (simp add: mod_mult2_eq unat_of_nat)
qed

lemma load_store64 [simp]: "load64 (store64 m a w) a = w"
proof -
  have "load_le 8 (store_le 8 m a (unat w)) a = unat w mod 256 ^ 8"
    by (rule load_store_le) simp
  also have "\<dots> = unat w" by simp
  finally show ?thesis by (simp add: load64_def store64_def)
qed

lemma store64_outside: "\<not> in_span a 8 b \<Longrightarrow> store64 m a w b = m b"
  by (simp add: store64_def store_le_outside)

lemma load64_cong: "(\<And>b. in_span a 8 b \<Longrightarrow> m b = m' b) \<Longrightarrow> load64 m a = load64 m' a"
  unfolding load64_def by (subst load_le_cong [of 8 a m m']) auto

text \<open>\<^verbatim>\<open>memset\<close> and \<^verbatim>\<open>memmove\<close> of the C library on this memory.\<close>

lemma unat_nat64: "k < 18446744073709551616 \<Longrightarrow> unat (of_nat k :: u64) = k"
  unfolding unat_of_nat by (rule mod_less) simp

definition mem_set :: "u64 \<Rightarrow> 8 word \<Rightarrow> u64 \<Rightarrow> memory \<Rightarrow> memory" where
  "mem_set dst c n m = (\<lambda>b. if in_span dst (unat n) b then c else m b)"

definition mem_move :: "u64 \<Rightarrow> u64 \<Rightarrow> u64 \<Rightarrow> memory \<Rightarrow> memory" where
  "mem_move dst src n m = (\<lambda>b. if in_span dst (unat n) b then m (src + (b - dst)) else m b)"

end
