(* ===== verification/RZ_State.thy ===== *)
theory RZ_State
  imports RZ_Prelude
begin

text \<open>
  The runtime's state (\<^verbatim>\<open>runtime/redzone_rt.c\<close>): the allocation table, the shadow
  reservation, the application's memory, the table lock with its re-entrancy counter, and
  the leak-report switch; what a call can end in; and the parts of the system the runtime
  calls out to.
\<close>

section \<open>Blocks and the state\<close>

record block =
  real_base :: u64
  total_size :: u64
  user_addr :: u64
  user_size :: u64
  freed :: bool
  alloc_file :: cstr
  alloc_line :: int

text \<open>
  \<open>shadow\<close> is \<open>None\<close> while \<^verbatim>\<open>__redzone_shadow_base\<close> is \<^verbatim>\<open>NULL\<close>, and otherwise the bytes
  behind that base, by index. \<open>blocks\<close> is \<^verbatim>\<open>g_blocks[0 .. g_count)\<close> and \<open>cap\<close> is \<^verbatim>\<open>g_cap\<close>.
\<close>

record rt =
  shadow :: "(u64 \<Rightarrow> i8) option"
  mem :: memory
  blocks :: "block list"
  cap :: u64
  lock_held :: bool
  in_runtime :: int
  leak_on :: bool

definition init_rt :: rt where
  "init_rt = \<lparr>shadow = None, mem = (\<lambda>_. 0), blocks = [], cap = 0, lock_held = False,
     in_runtime = 0, leak_on = True\<rparr>"

text \<open>
  What the operating system answers during one call of the runtime: the address
  \<^verbatim>\<open>rz_sys_malloc(n)\<close> returns (0 for \<^verbatim>\<open>NULL\<close>), whether growing the table with
  \<^verbatim>\<open>rz_sys_realloc\<close> succeeds, and whether the \<^verbatim>\<open>mmap\<close> of the shadow succeeds.
\<close>

record sys =
  sys_malloc :: "u64 \<Rightarrow> u64"
  sys_realloc_ok :: bool
  sys_mmap_ok :: bool

section \<open>How a call ends\<close>

text \<open>
  Every report ends in \<^verbatim>\<open>abort\<close>; it is kept as the reporting call with its arguments, which
  \<open>RZ_Report\<close> turns into the text written to stderr. \<open>ForeignPointer\<close> is the end of a call that gave the system
  allocator a pointer of another allocator.
\<close>

datatype report_call =
    ReportFree string u64
  | ReportBlock string u64 u64 bool cstr int block
  | ReportSimple string u64 u64 bool cstr int

datatype halt =
    ShadowReserveFailed
  | OutOfMemoryTracking
  | TableDeadlock
  | ForeignPointer
  | Report report_call

datatype 'a outcome = Done 'a | Halt halt

fun bindO :: "'a outcome \<Rightarrow> ('a \<Rightarrow> 'b outcome) \<Rightarrow> 'b outcome" where
  "bindO (Done x) f = f x"
| "bindO (Halt h) f = Halt h"

lemma bindO_Done_iff: "bindO m f = Done y \<longleftrightarrow> (\<exists>x. m = Done x \<and> f x = Done y)"
  by (cases m) auto

lemma bindO_Halt_iff: "bindO m f = Halt h \<longleftrightarrow> m = Halt h \<or> (\<exists>x. m = Done x \<and> f x = Halt h)"
  by (cases m) auto

lemma bindO_assoc: "bindO (bindO m f) g = bindO m (\<lambda>x. bindO (f x) g)"
  by (cases m) auto

section \<open>The table lock\<close>

text \<open>
  \<^verbatim>\<open>TABLE_LOCK\<close> takes a non-recursive mutex, so a thread that already holds it would wait
  for itself: that is \<open>Halt TableDeadlock\<close>.
\<close>

definition table_lock :: "rt \<Rightarrow> rt outcome" where
  "table_lock s =
     (if lock_held s then Halt TableDeadlock
      else Done (s\<lparr>lock_held := True, in_runtime := in_runtime s + 1\<rparr>))"

definition table_unlock :: "rt \<Rightarrow> rt" where
  "table_unlock s = s\<lparr>in_runtime := in_runtime s - 1, lock_held := False\<rparr>"

definition redzone_in_runtime :: "rt \<Rightarrow> int" where
  "redzone_in_runtime s = in_runtime s"

definition redzone_set_leak_report :: "bool \<Rightarrow> rt \<Rightarrow> rt" where
  "redzone_set_leak_report on s = s\<lparr>leak_on := on\<rparr>"

lemma table_lock_free [simp]:
  "\<not> lock_held s \<Longrightarrow> table_lock s = Done (s\<lparr>lock_held := True, in_runtime := in_runtime s + 1\<rparr>)"
  by (simp add: table_lock_def)

lemma table_unlock_lock [simp]:
  "\<not> lock_held s \<Longrightarrow> table_unlock (s\<lparr>lock_held := True, in_runtime := in_runtime s + 1\<rparr>) = s"
  by (simp add: table_unlock_def)

end
