(* ===== verification/RZ_Shadow.thy ===== *)
theory RZ_Shadow
  imports RZ_State
begin

text \<open>
  Shadow memory: one signed byte per aligned 8-byte chunk of application memory
  (\<^verbatim>\<open>shadow_init\<close>, \<^verbatim>\<open>shadow_ptr\<close>, \<^verbatim>\<open>shadow_load\<close>, \<^verbatim>\<open>set_shadow_byte\<close>, \<^verbatim>\<open>set_shadow_range\<close> and
  \<^verbatim>\<open>byte_poisoned\<close> of \<^verbatim>\<open>runtime/redzone_rt.c\<close>). The locale \<open>shadow_ops\<close> is what the guarding
  code relies on: reading after a range fill and after a single-byte write.
\<close>

section \<open>Constants\<close>

definition REDZONE_SIZE :: u64 where "REDZONE_SIZE = 16"

definition RZ_POISON :: i8 where "RZ_POISON = 0xFA"
definition STACK_RZ :: i8 where "STACK_RZ = 0xF1"
definition GLOBAL_RZ :: i8 where "GLOBAL_RZ = 0xF9"
definition FREED_POISON :: i8 where "FREED_POISON = 0xFD"

definition SHADOW_SCALE :: nat where "SHADOW_SCALE = 3"
definition SHADOW_LIMIT :: u64 where "SHADOW_LIMIT = push_bit 47 1"
definition SHADOW_BYTES :: u64 where "SHADOW_BYTES = drop_bit SHADOW_SCALE SHADOW_LIMIT"

lemma SHADOW_BYTES_eq [simp]: "SHADOW_BYTES = 17592186044416"
  by (simp add: SHADOW_BYTES_def SHADOW_LIMIT_def SHADOW_SCALE_def)

lemmas poison_codes = RZ_POISON_def STACK_RZ_def GLOBAL_RZ_def FREED_POISON_def

section \<open>The operations\<close>

definition shadow_init :: "sys \<Rightarrow> rt \<Rightarrow> rt outcome" where
  "shadow_init sys s =
     (if shadow s \<noteq> None then Done s
      else if sys_mmap_ok sys then Done (s\<lparr>shadow := Some (\<lambda>_. 0)\<rparr>)
      else Halt ShadowReserveFailed)"

definition shadow_ptr :: "sys \<Rightarrow> u64 \<Rightarrow> rt \<Rightarrow> (u64 option \<times> rt) outcome" where
  "shadow_ptr sys app s =
     bindO (if shadow s = None then shadow_init sys s else Done s) (\<lambda>s.
       let idx = drop_bit SHADOW_SCALE app in
       if idx \<ge> SHADOW_BYTES then Done (None, s) else Done (Some idx, s))"

text \<open>Reading and writing behind the base pointer, once it is reserved.\<close>

definition shadow_at :: "rt \<Rightarrow> u64 \<Rightarrow> i8" where
  "shadow_at s i = (case shadow s of None \<Rightarrow> 0 | Some f \<Rightarrow> f i)"

definition shadow_put :: "u64 \<Rightarrow> i8 \<Rightarrow> rt \<Rightarrow> rt" where
  "shadow_put i v s = s\<lparr>shadow := map_option (\<lambda>f. f(i := v)) (shadow s)\<rparr>"

definition shadow_memset :: "u64 \<Rightarrow> i8 \<Rightarrow> u64 \<Rightarrow> rt \<Rightarrow> rt" where
  "shadow_memset lo v n s =
     s\<lparr>shadow := map_option (\<lambda>f i. if in_span lo (unat n) i then v else f i) (shadow s)\<rparr>"

definition shadow_load :: "sys \<Rightarrow> u64 \<Rightarrow> rt \<Rightarrow> (i8 \<times> rt) outcome" where
  "shadow_load sys app s =
     bindO (shadow_ptr sys app s) (\<lambda>(p, s).
       Done (case p of None \<Rightarrow> 0 | Some i \<Rightarrow> shadow_at s i, s))"

definition set_shadow_byte :: "sys \<Rightarrow> u64 \<Rightarrow> i8 \<Rightarrow> rt \<Rightarrow> rt outcome" where
  "set_shadow_byte sys app val s =
     bindO (shadow_ptr sys app s) (\<lambda>(p, s).
       Done (case p of None \<Rightarrow> s | Some i \<Rightarrow> shadow_put i val s))"

definition set_shadow_range :: "sys \<Rightarrow> u64 \<Rightarrow> u64 \<Rightarrow> i8 \<Rightarrow> rt \<Rightarrow> rt outcome" where
  "set_shadow_range sys start len val s =
     (if len = 0 then Done s else
      bindO (if shadow s = None then shadow_init sys s else Done s) (\<lambda>s.
        let lo = drop_bit SHADOW_SCALE (start AND NOT 7);
            hi = drop_bit SHADOW_SCALE ((start + len + 7) AND NOT 7) in
        if lo \<ge> SHADOW_BYTES then Done s else
        let hi = (if hi > SHADOW_BYTES then SHADOW_BYTES else hi) in
        Done (shadow_memset lo val (hi - lo) s)))"

definition byte_poisoned :: "sys \<Rightarrow> u64 \<Rightarrow> rt \<Rightarrow> (bool \<times> rt) outcome" where
  "byte_poisoned sys app s =
     bindO (shadow_load sys app s) (\<lambda>(sv, s).
       if sv = 0 then Done (False, s)
       else if sint sv < 0 then Done (True, s)
       else Done (int (unat (app AND 7)) \<ge> sint sv, s))"

section \<open>Meaning of the shadow\<close>

text \<open>
  \<open>reserved\<close> holds from the startup constructor on. Under it every operation is total and
  is described by the pure \<open>shadow_val\<close> and \<open>poisoned\<close>.
\<close>

definition reserved :: "rt \<Rightarrow> bool" where
  "reserved s \<longleftrightarrow> shadow s \<noteq> None"

definition shadow_val :: "rt \<Rightarrow> u64 \<Rightarrow> i8" where
  "shadow_val s app = (if unat app < 140737488355328 then shadow_at s (drop_bit 3 app) else 0)"

definition byte_bad :: "i8 \<Rightarrow> nat \<Rightarrow> bool" where
  "byte_bad sv off = (if sv = 0 then False else if sint sv < 0 then True else int off \<ge> sint sv)"

definition poisoned :: "rt \<Rightarrow> u64 \<Rightarrow> bool" where
  "poisoned s app = byte_bad (shadow_val s app) (unat app mod 8)"

text \<open>What \<open>set_shadow_range\<close> and \<open>set_shadow_byte\<close> leave once the shadow is reserved.\<close>

definition fill :: "rt \<Rightarrow> u64 \<Rightarrow> u64 \<Rightarrow> i8 \<Rightarrow> rt" where
  "fill s start len val =
     (if len = 0 \<or> drop_bit 3 start \<ge> SHADOW_BYTES then s
      else shadow_memset (drop_bit 3 start) val
        (min SHADOW_BYTES (drop_bit 3 (start + len + 7)) - drop_bit 3 start) s)"

definition put :: "rt \<Rightarrow> u64 \<Rightarrow> i8 \<Rightarrow> rt" where
  "put s app val = (if drop_bit 3 app \<ge> SHADOW_BYTES then s else shadow_put (drop_bit 3 app) val s)"

lemma idx_limit: "drop_bit 3 (a :: u64) \<ge> SHADOW_BYTES \<longleftrightarrow> 140737488355328 \<le> unat a"
  by (auto simp: word_le_nat_alt unat_ops)

lemma limit_div8: "(n :: nat) < 140737488355328 \<longleftrightarrow> n div 8 < 17592186044416"
  by (simp add: div_less_iff_less_mult)

lemma drop3_round: "drop_bit 3 ((a :: u64) AND NOT 7) = drop_bit 3 a"
  by (simp only: word_unat_eq_iff unat_drop3 unat_and_not7)

section \<open>The operations on a reserved shadow\<close>

lemma reservedE: "reserved s \<Longrightarrow> (\<And>f. shadow s = Some f \<Longrightarrow> P) \<Longrightarrow> P"
  by (auto simp: reserved_def)

lemma shadow_init_reserved [simp]: "reserved s \<Longrightarrow> shadow_init sys s = Done s"
  by (simp add: shadow_init_def reserved_def)

lemma shadow_ptr_reserved:
  "reserved s \<Longrightarrow> shadow_ptr sys app s =
     Done (if unat app < 140737488355328 then Some (drop_bit 3 app) else None, s)"
  by (auto simp: shadow_ptr_def reserved_def SHADOW_SCALE_def idx_limit simp del: SHADOW_BYTES_eq)

lemma shadow_load_reserved [simp]: "reserved s \<Longrightarrow> shadow_load sys app s = Done (shadow_val s app, s)"
  by (simp add: shadow_load_def shadow_ptr_reserved shadow_val_def)

lemma set_shadow_byte_reserved [simp]: "reserved s \<Longrightarrow> set_shadow_byte sys app v s = Done (put s app v)"
  by (auto simp: set_shadow_byte_def shadow_ptr_reserved put_def idx_limit simp del: SHADOW_BYTES_eq)

lemma set_shadow_range_reserved [simp]:
  "reserved s \<Longrightarrow> set_shadow_range sys a n v s = Done (fill s a n v)"
  unfolding set_shadow_range_def SHADOW_SCALE_def drop3_round
  by (auto simp: fill_def reserved_def Let_def min_def simp del: SHADOW_BYTES_eq)

lemma byte_poisoned_reserved [simp]: "reserved s \<Longrightarrow> byte_poisoned sys app s = Done (poisoned s app, s)"
  by (simp add: byte_poisoned_def poisoned_def byte_bad_def unat_ops)

text \<open>Filling and writing change the shadow and nothing else.\<close>

lemma fill_fields [simp]:
  "mem (fill s a n v) = mem s" "blocks (fill s a n v) = blocks s" "cap (fill s a n v) = cap s"
  "lock_held (fill s a n v) = lock_held s" "in_runtime (fill s a n v) = in_runtime s"
  "leak_on (fill s a n v) = leak_on s" "reserved (fill s a n v) = reserved s"
  by (auto simp: fill_def shadow_memset_def reserved_def)

lemma put_fields [simp]:
  "mem (put s a v) = mem s" "blocks (put s a v) = blocks s" "cap (put s a v) = cap s"
  "lock_held (put s a v) = lock_held s" "in_runtime (put s a v) = in_runtime s"
  "leak_on (put s a v) = leak_on s" "reserved (put s a v) = reserved s"
  by (auto simp: put_def shadow_put_def reserved_def)

lemma fill_0 [simp]: "fill s a 0 v = s"
  by (simp add: fill_def)

lemma shadow_val_put:
  assumes "reserved s"
  shows "shadow_val (put s a v) x =
    (if unat x div 8 = unat a div 8 \<and> unat x < 140737488355328 then v else shadow_val s x)"
proof (cases "unat a < 140737488355328")
  case True
  have eq: "drop_bit 3 x = drop_bit 3 a \<longleftrightarrow> unat x div 8 = unat a div 8"
    by (simp only: word_unat_eq_iff unat_drop3)
  obtain f where f: "shadow s = Some f" using assms by (rule reservedE)
  have "put s a v = shadow_put (drop_bit 3 a) v s"
    using True by (simp add: put_def idx_limit del: SHADOW_BYTES_eq)
  then have at: "shadow_at (put s a v) i = (if i = drop_bit 3 a then v else shadow_at s i)" for i
    using f by (simp add: shadow_put_def shadow_at_def)
  show ?thesis unfolding shadow_val_def at eq by simp
next
  case False
  then have "\<not> (unat x div 8 = unat a div 8 \<and> unat x < 140737488355328)"
    by (auto simp: limit_div8)
  moreover have "put s a v = s" using False by (simp add: put_def idx_limit del: SHADOW_BYTES_eq)
  ultimately show ?thesis by auto
qed

lemma shadow_val_memset:
  "reserved s \<Longrightarrow> shadow_val (shadow_memset lo v n s) x =
    (if in_span lo (unat n) (drop_bit 3 x) \<and> unat x < 140737488355328 then v else shadow_val s x)"
  by (auto simp: shadow_memset_def shadow_val_def shadow_at_def reserved_def)

lemma shadow_val_fill:
  assumes r: "reserved s" and n: "0 < unat n" and w: "unat a + unat n + 7 < 18446744073709551616"
  shows "shadow_val (fill s a n v) x =
    (if unat a div 8 \<le> unat x div 8 \<and> unat x div 8 < (unat a + unat n + 7) div 8
        \<and> unat x < 140737488355328
     then v else shadow_val s x)"
proof (cases "140737488355328 \<le> unat a")
  case True
  then have "\<not> (unat a div 8 \<le> unat x div 8 \<and> unat x < 140737488355328)"
    by (auto simp: limit_div8 not_less [symmetric] simp del: not_less)
  moreover have "fill s a n v = s" using True by (simp add: fill_def idx_limit del: SHADOW_BYTES_eq)
  ultimately show ?thesis by auto
next
  case False
  let ?lo = "drop_bit 3 a" and ?h = "drop_bit 3 (a + n + 7)"
  let ?hi = "min SHADOW_BYTES ?h"
  have lo: "unat ?lo = unat a div 8" by (simp add: unat_ops)
  have "unat (a + n + 7) = unat a + unat n + 7" using w by (simp add: unat_plus64)
  then have h: "unat ?h = (unat a + unat n + 7) div 8" by (simp add: unat_ops)
  have hi: "unat ?hi = min 17592186044416 ((unat a + unat n + 7) div 8)"
    using h by (auto simp: min_def word_le_nat_alt)
  have le: "unat a div 8 \<le> unat ?hi" using False n unfolding hi by (auto simp: min_def)
  have len: "unat (?hi - ?lo) = unat ?hi - unat a div 8"
    using le by (simp only: lo unat_minus64)
  have "in_span ?lo (unat (?hi - ?lo)) (drop_bit 3 x) \<longleftrightarrow>
      unat a div 8 \<le> unat x div 8 \<and> unat x div 8 < unat ?hi"
    unfolding len using le less_imp_le [OF unat_bound64 [of ?hi]]
    by (subst in_span_nowrap) (simp_all add: lo unat_ops del: SHADOW_BYTES_eq)
  moreover have "unat x < 140737488355328 \<Longrightarrow>
      unat x div 8 < unat ?hi \<longleftrightarrow> unat x div 8 < (unat a + unat n + 7) div 8"
    unfolding hi by auto
  moreover have "n \<noteq> 0" "\<not> SHADOW_BYTES \<le> ?lo"
    using n False by (auto simp: idx_limit simp del: SHADOW_BYTES_eq)
  ultimately show ?thesis
    using r by (simp add: fill_def shadow_val_memset del: SHADOW_BYTES_eq) blast
qed

section \<open>Reading a shadow byte\<close>

lemma byte_bad_0 [simp]: "\<not> byte_bad 0 off"
  by (simp add: byte_bad_def)

lemma byte_bad_poison [simp]:
  "byte_bad RZ_POISON off" "byte_bad STACK_RZ off" "byte_bad GLOBAL_RZ off" "byte_bad FREED_POISON off"
  by (simp_all add: byte_bad_def poison_codes)

lemma byte_bad_partial:
  assumes "0 < r" and "r < 8"
  shows "byte_bad (of_nat r) off \<longleftrightarrow> r \<le> off"
proof -
  have "r \<in> {1, 2, 3, 4, 5, 6, 7}" using assms by auto
  then show ?thesis by (auto simp: byte_bad_def)
qed

lemma byte_bad_neg: "sint v < 0 \<Longrightarrow> byte_bad v off"
  by (auto simp: byte_bad_def)

lemma of_nat_partial_neq:
  assumes "0 < r" and "r < 8"
  shows "(of_nat r :: i8) \<noteq> 0" and "\<not> sint (of_nat r :: i8) < 0"
proof -
  have "r \<in> {1, 2, 3, 4, 5, 6, 7}" using assms by auto
  then show "(of_nat r :: i8) \<noteq> 0" and "\<not> sint (of_nat r :: i8) < 0" by auto
qed

section \<open>Carving the user region out of a red zone\<close>

text \<open>
  The step every allocation, stack slot and global repeats: whole chunks of the user
  region become 0, a partial last chunk gets the number of its bytes that are valid.
\<close>

definition carve_user :: "sys \<Rightarrow> u64 \<Rightarrow> u64 \<Rightarrow> rt \<Rightarrow> rt outcome" where
  "carve_user sys user sz s =
     (let aligned = sz AND NOT 7; rem = sz AND 7 in
      bindO (if aligned \<noteq> 0 then set_shadow_range sys user aligned 0 s else Done s) (\<lambda>s.
      if rem \<noteq> 0 then set_shadow_byte sys (user + aligned) (ucast rem) s else Done s))"

locale shadow_ops =
  fixes ok :: "'m \<Rightarrow> bool"
    and load :: "'m \<Rightarrow> u64 \<Rightarrow> i8"
    and fill :: "'m \<Rightarrow> u64 \<Rightarrow> u64 \<Rightarrow> i8 \<Rightarrow> 'm"
    and put :: "'m \<Rightarrow> u64 \<Rightarrow> i8 \<Rightarrow> 'm"
  assumes ok_fill: "ok m \<Longrightarrow> ok (fill m a n v)"
    and ok_put: "ok m \<Longrightarrow> ok (put m a v)"
    and load_fill_0: "fill m a 0 v = m"
    and load_fill: "ok m \<Longrightarrow> 0 < unat n \<Longrightarrow> unat a + unat n + 7 < 18446744073709551616 \<Longrightarrow>
      load (fill m a n v) x =
        (if unat a div 8 \<le> unat x div 8 \<and> unat x div 8 < (unat a + unat n + 7) div 8
            \<and> unat x < 140737488355328
         then v else load m x)"
    and load_put: "ok m \<Longrightarrow> load (put m a v) x =
        (if unat x div 8 = unat a div 8 \<and> unat x < 140737488355328 then v else load m x)"
begin

definition carved :: "'m \<Rightarrow> u64 \<Rightarrow> u64 \<Rightarrow> 'm" where
  "carved m user sz =
     (let m' = fill m user (sz AND NOT 7) 0 in
      if sz AND 7 \<noteq> 0 then put m' (user + (sz AND NOT 7)) (ucast (sz AND 7)) else m')"

definition guarded :: "'m \<Rightarrow> u64 \<Rightarrow> u64 \<Rightarrow> u64 \<Rightarrow> u64 \<Rightarrow> i8 \<Rightarrow> 'm" where
  "guarded m base tot user sz rz = carved (fill m base tot rz) user sz"

lemma ok_carved: "ok m \<Longrightarrow> ok (carved m user sz)"
  by (simp add: carved_def Let_def ok_fill ok_put)

lemma ok_guarded: "ok m \<Longrightarrow> ok (guarded m base tot user sz rz)"
  by (simp add: guarded_def ok_carved ok_fill)

lemma load_fill_whole:
  assumes ok: "ok m" and al: "unat user mod 8 = 0"
    and lim: "unat user + unat sz \<le> 140737488355328"
  shows "load (fill m user (sz AND NOT 7) 0) x =
    (if unat user div 8 \<le> unat x div 8 \<and> unat x div 8 < unat user div 8 + unat sz div 8 then 0
     else load m x)"
proof (cases "unat sz div 8 = 0")
  case True
  then have "sz AND NOT 7 = 0" by (simp only: word_unat_eq_iff unat_and_not7) simp
  then have "fill m user (sz AND NOT 7) 0 = m" by (simp only: load_fill_0)
  then show ?thesis using True by auto
next
  case False
  have e: "(unat user + unat sz div 8 * 8 + 7) div 8 = unat user div 8 + unat sz div 8"
    using al by (rule chunks_round)
  have b: "unat x < 140737488355328" if "unat x div 8 < unat user div 8 + unat sz div 8"
  proof -
    have "unat user div 8 + unat sz div 8 \<le> 17592186044416" using lim al by linarith
    with that show ?thesis by (simp add: limit_div8)
  qed
  show ?thesis
    using ok lim False b
    by (subst load_fill) (auto simp: unat_and_m8 e)
qed

lemma load_carved:
  assumes ok: "ok m" and al: "unat user mod 8 = 0"
    and lim: "unat user + unat sz \<le> 140737488355328"
  shows "load (carved m user sz) x =
    (if unat user div 8 \<le> unat x div 8 \<and> unat x div 8 < unat user div 8 + unat sz div 8 then 0
     else if unat x div 8 = unat user div 8 + unat sz div 8 \<and> unat sz mod 8 \<noteq> 0
       then of_nat (unat sz mod 8)
     else load m x)"
proof (cases "unat sz mod 8 = 0")
  case True
  then have "sz AND 7 = 0" by (simp only: word_unat_eq_iff unat_and7) simp
  then have "carved m user sz = fill m user (sz AND NOT 7) 0"
    by (simp only: carved_def Let_def) simp
  then show ?thesis using True by (simp only: load_fill_whole [OF ok al lim]) simp
next
  case False
  then have nz: "sz AND 7 \<noteq> 0" by (simp only: word_unat_eq_iff unat_and7) simp
  have "unat (user + (sz AND NOT 7)) = unat user + unat sz div 8 * 8"
    using lim by (subst unat_plus64) (auto simp: unat_and_m8)
  then have last: "unat (user + (sz AND NOT 7)) div 8 = unat user div 8 + unat sz div 8"
    by (simp only: div_mult_self1 [OF zero_neq_numeral [symmetric]] add.commute)
  have v: "(ucast (sz AND 7) :: i8) = of_nat (unat sz mod 8)"
    by (simp add: ucast8_of_nat unat_and7)
  have b: "unat x < 140737488355328" if "unat x div 8 = unat user div 8 + unat sz div 8"
  proof -
    have "unat user div 8 + unat sz div 8 < 17592186044416"
      using chunks_partial [OF al False] lim by simp
    with that show ?thesis by (simp add: limit_div8)
  qed
  have "carved m user sz = put (fill m user (sz AND NOT 7) 0) (user + (sz AND NOT 7)) (ucast (sz AND 7))"
    using nz by (simp only: carved_def Let_def if_True not_False_eq_True)
  then show ?thesis
    using False b
    by (simp only: load_put [OF ok_fill [OF ok]] last v load_fill_whole [OF ok al lim]) auto
qed

lemma load_guarded:
  assumes ok: "ok m" and al: "unat user mod 8 = 0" and t: "0 < unat tot"
    and lo: "unat base \<le> unat user" and hi: "unat user + unat sz \<le> unat base + unat tot"
    and lim: "unat base + unat tot \<le> 140737488355328"
  shows "load (guarded m base tot user sz rz) x =
    (if unat user div 8 \<le> unat x div 8 \<and> unat x div 8 < unat user div 8 + unat sz div 8 then 0
     else if unat x div 8 = unat user div 8 + unat sz div 8 \<and> unat sz mod 8 \<noteq> 0
       then of_nat (unat sz mod 8)
     else if unat base div 8 \<le> unat x div 8 \<and> unat x div 8 < (unat base + unat tot + 7) div 8 then rz
     else load m x)"
proof -
  have "(unat base + unat tot + 7) div 8 \<le> 17592186044416"
    using div_le_mono [of "unat base + unat tot + 7" "140737488355328 + 7" 8] lim by simp
  then have "load (fill m base tot rz) x =
      (if unat base div 8 \<le> unat x div 8 \<and> unat x div 8 < (unat base + unat tot + 7) div 8 then rz
       else load m x)"
    using ok t lim by (simp add: load_fill limit_div8)
  moreover have "unat user + unat sz \<le> 140737488355328" using hi lim by linarith
  ultimately show ?thesis
    unfolding guarded_def by (simp only: load_carved [OF ok_fill [OF ok] al])
qed

text \<open>
  The guarantee of the layout: inside the guarded bytes exactly the user region is
  addressable, to the byte; outside the chunks they touch nothing changes.
\<close>

lemma bad_guarded:
  assumes ok: "ok m" and al: "unat user mod 8 = 0" and bal: "unat base mod 8 = 0"
    and lo: "unat base \<le> unat user" and hi: "unat user + unat sz \<le> unat base + unat tot"
    and lim: "unat base + unat tot \<le> 140737488355328" and rz: "sint rz < 0"
    and x: "unat base \<le> unat x" "unat x < unat base + unat tot"
  shows "byte_bad (load (guarded m base tot user sz rz) x) (unat x mod 8) \<longleftrightarrow>
    \<not> (unat user \<le> unat x \<and> unat x < unat user + unat sz)"
proof -
  have t: "0 < unat tot" using x by linarith
  show ?thesis
    unfolding load_guarded [OF ok al t lo hi lim] chunk_region [OF al]
    using chunk_span [OF bal x] by (auto simp: byte_bad_partial byte_bad_neg [OF rz])
qed

lemma load_guarded_outside:
  assumes ok: "ok m" and al: "unat user mod 8 = 0" and bal: "unat base mod 8 = 0"
    and t: "0 < unat tot"
    and lo: "unat base \<le> unat user" and hi: "unat user + unat sz \<le> unat base + unat tot"
    and lim: "unat base + unat tot \<le> 140737488355328"
    and x: "unat x div 8 < unat base div 8 \<or> (unat base + unat tot + 7) div 8 \<le> unat x div 8"
  shows "load (guarded m base tot user sz rz) x = load m x"
proof -
  have last: "unat sz mod 8 \<noteq> 0 \<longrightarrow>
      unat user div 8 + unat sz div 8 < (unat base + unat tot + 7) div 8"
    using chunk_last [OF al _ hi] by blast
  note out = outside_chunks [OF div_le_mono [OF lo, of 8] chunks_le [OF hi] last x]
  show ?thesis
    unfolding load_guarded [OF ok al t lo hi lim] by (simp only: if_not_P [OF out(1)] if_not_P [OF out(2)] if_not_P [OF out(3)])
qed

end

text \<open>The runtime's shadow provides this interface.\<close>

interpretation so: shadow_ops reserved shadow_val fill put
  by unfold_locales (simp_all add: shadow_val_fill shadow_val_put)

lemma carve_user_reserved [simp]: "reserved s \<Longrightarrow> carve_user sys user sz s = Done (so.carved s user sz)"
  by (auto simp: carve_user_def so.carved_def Let_def)

lemma carved_fields [simp]:
  "mem (so.carved s user sz) = mem s" "blocks (so.carved s user sz) = blocks s"
  "cap (so.carved s user sz) = cap s" "lock_held (so.carved s user sz) = lock_held s"
  "in_runtime (so.carved s user sz) = in_runtime s" "leak_on (so.carved s user sz) = leak_on s"
  "reserved (so.carved s user sz) = reserved s"
  by (simp_all add: so.carved_def Let_def)

lemma guarded_fields [simp]:
  "mem (so.guarded s base tot user sz rz) = mem s" "blocks (so.guarded s base tot user sz rz) = blocks s"
  "cap (so.guarded s base tot user sz rz) = cap s"
  "lock_held (so.guarded s base tot user sz rz) = lock_held s"
  "in_runtime (so.guarded s base tot user sz rz) = in_runtime s"
  "leak_on (so.guarded s base tot user sz rz) = leak_on s"
  "reserved (so.guarded s base tot user sz rz) = reserved s"
  by (simp_all add: so.guarded_def)

end
