(* ===== verification/RZ_Table.thy ===== *)
theory RZ_Table
  imports RZ_Shadow
begin

text \<open>
  The allocation table of \<^verbatim>\<open>runtime/redzone_rt.c\<close>: recording a block (\<^verbatim>\<open>record_block\<close>), the
  linear scan by address (\<^verbatim>\<open>find_block\<close>), the constant-time back reference through the header
  in the left red zone (\<^verbatim>\<open>block_from_user_ptr\<close>) and the ownership queries of the interposer
  (\<^verbatim>\<open>__redzone_owns\<close>, \<^verbatim>\<open>__redzone_maybe_owns\<close>, \<^verbatim>\<open>__redzone_usable_size\<close>). A \<^verbatim>\<open>Block *\<close> is
  the index of the block in the table.
\<close>

definition RZ_HEADER_MAGIC :: u64 where "RZ_HEADER_MAGIC = 0x7265647A6F6E6521"
definition SIZEOF_HEADER :: u64 where "SIZEOF_HEADER = 16"

text \<open>The header's two words, \<^verbatim>\<open>magic\<close> at offset 0 and \<^verbatim>\<open>index\<close> at offset 8.\<close>

definition header_magic :: "memory \<Rightarrow> u64 \<Rightarrow> u64" where
  "header_magic m h = load64 m h"

definition header_index :: "memory \<Rightarrow> u64 \<Rightarrow> u64" where
  "header_index m h = load64 m (h + 8)"

definition write_header :: "u64 \<Rightarrow> u64 \<Rightarrow> memory \<Rightarrow> memory" where
  "write_header h idx m = store64 (store64 m h RZ_HEADER_MAGIC) (h + 8) idx"

fun find_block_in :: "block list \<Rightarrow> nat \<Rightarrow> u64 \<Rightarrow> nat option" where
  "find_block_in [] i addr = None"
| "find_block_in (b # bs) i addr =
     (if addr \<ge> real_base b \<and> addr < real_base b + total_size b then Some i
      else find_block_in bs (Suc i) addr)"

definition find_block :: "u64 \<Rightarrow> rt \<Rightarrow> nat option" where
  "find_block addr s = find_block_in (blocks s) 0 addr"

definition g_count :: "rt \<Rightarrow> u64" where
  "g_count s = of_nat (length (blocks s))"

definition record_block ::
  "sys \<Rightarrow> u64 \<Rightarrow> u64 \<Rightarrow> u64 \<Rightarrow> u64 \<Rightarrow> cstr \<Rightarrow> int \<Rightarrow> rt \<Rightarrow> (u64 \<times> rt) outcome" where
  "record_block sys base tot user usz file line s =
     bindO (if g_count s = cap s
            then let new_cap = (if cap s \<noteq> 0 then cap s * 2 else 64) in
                 if \<not> sys_realloc_ok sys then Halt OutOfMemoryTracking
                 else Done (s\<lparr>cap := new_cap\<rparr>)
            else Done s) (\<lambda>s.
       let idx = g_count s;
           b = \<lparr>real_base = base, total_size = tot, user_addr = user, user_size = usz,
                freed = False, alloc_file = file, alloc_line = line\<rparr> in
       Done (idx, s\<lparr>blocks := blocks s @ [b]\<rparr>))"

definition block_from_user_ptr :: "sys \<Rightarrow> u64 \<Rightarrow> rt \<Rightarrow> (nat option \<times> rt) outcome" where
  "block_from_user_ptr sys u s =
     (if u < SIZEOF_HEADER then Done (None, s) else
      bindO (shadow_load sys (u - 8) s) (\<lambda>(sv, s).
        if sv \<noteq> RZ_POISON then Done (None, s) else
        let h = u - SIZEOF_HEADER in
        if header_magic (mem s) h \<noteq> RZ_HEADER_MAGIC \<or> header_index (mem s) h \<ge> g_count s
        then Done (None, s) else
        let i = unat (header_index (mem s) h) in
        Done (if user_addr (blocks s ! i) = u then Some i else None, s)))"

definition redzone_owns :: "sys \<Rightarrow> u64 \<Rightarrow> rt \<Rightarrow> (bool \<times> rt) outcome" where
  "redzone_owns sys ptr s =
     (if ptr = 0 then Done (False, s) else
      bindO (table_lock s) (\<lambda>s.
      bindO (block_from_user_ptr sys ptr s) (\<lambda>(b, s).
        Done (b \<noteq> None, table_unlock s))))"

definition redzone_maybe_owns :: "sys \<Rightarrow> u64 \<Rightarrow> rt \<Rightarrow> (bool \<times> rt) outcome" where
  "redzone_maybe_owns sys u s =
     (if u < SIZEOF_HEADER then Done (False, s) else
      bindO (shadow_load sys (u - 8) s) (\<lambda>(sv, s). Done (sv = RZ_POISON, s)))"

definition redzone_usable_size :: "sys \<Rightarrow> u64 \<Rightarrow> rt \<Rightarrow> (u64 \<times> rt) outcome" where
  "redzone_usable_size sys ptr s =
     (if ptr = 0 then Done (0, s) else
      bindO (table_lock s) (\<lambda>s.
      bindO (block_from_user_ptr sys ptr s) (\<lambda>(b, s).
        Done (case b of None \<Rightarrow> 0 | Some i \<Rightarrow> user_size (blocks s ! i), table_unlock s))))"

section \<open>Updates that do not touch the shadow\<close>

lemma shadow_val_updates [simp]:
  "shadow_val (s\<lparr>mem := m\<rparr>) = shadow_val s"
  "shadow_val (s\<lparr>blocks := bs\<rparr>) = shadow_val s"
  "shadow_val (s\<lparr>cap := c\<rparr>) = shadow_val s"
  "shadow_val (s\<lparr>lock_held := l\<rparr>) = shadow_val s"
  "shadow_val (s\<lparr>in_runtime := r\<rparr>) = shadow_val s"
  "shadow_val (s\<lparr>leak_on := k\<rparr>) = shadow_val s"
  by (simp_all add: shadow_val_def shadow_at_def fun_eq_iff)

lemma reserved_updates [simp]:
  "reserved (s\<lparr>mem := m\<rparr>) = reserved s" "reserved (s\<lparr>blocks := bs\<rparr>) = reserved s"
  "reserved (s\<lparr>cap := c\<rparr>) = reserved s" "reserved (s\<lparr>lock_held := l\<rparr>) = reserved s"
  "reserved (s\<lparr>in_runtime := r\<rparr>) = reserved s" "reserved (s\<lparr>leak_on := k\<rparr>) = reserved s"
  by (simp_all add: reserved_def)

section \<open>The scan\<close>

definition covers :: "block \<Rightarrow> u64 \<Rightarrow> bool" where
  "covers b a \<longleftrightarrow> real_base b \<le> a \<and> a < real_base b + total_size b"

lemma find_block_in_Cons:
  "find_block_in (b # bs) i a = (if covers b a then Some i else find_block_in bs (Suc i) a)"
  by (simp add: covers_def)

declare find_block_in.simps(2) [simp del]

lemma find_block_in_Some:
  "find_block_in bs i a = Some j \<longleftrightarrow>
    i \<le> j \<and> j < i + length bs \<and> covers (bs ! (j - i)) a \<and> (\<forall>k < j - i. \<not> covers (bs ! k) a)"
proof (induction bs arbitrary: i)
  case Nil
  then show ?case by simp
next
  case (Cons b bs)
  show ?case
  proof (cases "covers b a")
    case True
    moreover have "\<not> (\<forall>k < j - i. \<not> covers ((b # bs) ! k) a)" if "i < j"
      using True that by (auto intro!: exI [of _ 0])
    ultimately show ?thesis by (auto simp: find_block_in_Cons le_less)
  next
    case False
    have "(\<forall>k < j - i. \<not> covers ((b # bs) ! k) a) \<longleftrightarrow> (\<forall>k < j - Suc i. \<not> covers (bs ! k) a)"
      if "Suc i \<le> j"
    proof -
      have "j - i = Suc (j - Suc i)" using that by simp
      then show ?thesis using False by (simp add: All_less_Suc2)
    qed
    moreover have "(b # bs) ! (j - i) = bs ! (j - Suc i)" if "Suc i \<le> j"
      using that by (simp add: nth_Cons')
    moreover have "covers ((b # bs) ! (j - i)) a \<longrightarrow> j \<noteq> i" using False by auto
    ultimately show ?thesis
      using False Cons.IH [of "Suc i"] by (cases "Suc i \<le> j") (auto simp: find_block_in_Cons)
  qed
qed

lemma find_block_in_None: "find_block_in bs i a = None \<longleftrightarrow> (\<forall>b \<in> set bs. \<not> covers b a)"
  by (induction bs arbitrary: i) (auto simp: find_block_in_Cons)

lemma find_block_Some:
  "find_block a s = Some i \<longleftrightarrow>
    i < length (blocks s) \<and> covers (blocks s ! i) a \<and> (\<forall>k < i. \<not> covers (blocks s ! k) a)"
  by (simp add: find_block_def find_block_in_Some)

lemma find_block_None: "find_block a s = None \<longleftrightarrow> (\<forall>b \<in> set (blocks s). \<not> covers b a)"
  by (simp add: find_block_def find_block_in_None)

section \<open>The back reference on a reserved shadow\<close>

definition lookup_user :: "rt \<Rightarrow> u64 \<Rightarrow> nat option" where
  "lookup_user s u =
     (if 16 \<le> u \<and> shadow_val s (u - 8) = RZ_POISON \<and> load64 (mem s) (u - 16) = RZ_HEADER_MAGIC
         \<and> load64 (mem s) (u - 8) < g_count s
         \<and> user_addr (blocks s ! unat (load64 (mem s) (u - 8))) = u
      then Some (unat (load64 (mem s) (u - 8))) else None)"

lemma block_from_user_ptr_reserved [simp]:
  "reserved s \<Longrightarrow> block_from_user_ptr sys u s = Done (lookup_user s u, s)"
  by (auto simp: block_from_user_ptr_def lookup_user_def header_magic_def header_index_def Let_def
      SIZEOF_HEADER_def not_less [symmetric])

lemma lookup_user_lock [simp]:
  "lookup_user (s\<lparr>lock_held := l, in_runtime := r\<rparr>) = lookup_user s"
  by (simp add: lookup_user_def fun_eq_iff g_count_def)

lemma find_block_lock [simp]: "find_block a (s\<lparr>lock_held := l, in_runtime := r\<rparr>) = find_block a s"
  by (simp add: find_block_def)

lemma redzone_owns_eq:
  "reserved s \<Longrightarrow> \<not> lock_held s \<Longrightarrow>
    redzone_owns sys u s = Done (u \<noteq> 0 \<and> lookup_user s u \<noteq> None, s)"
  by (simp add: redzone_owns_def)

lemma redzone_maybe_owns_eq:
  "reserved s \<Longrightarrow> redzone_maybe_owns sys u s = Done (16 \<le> u \<and> shadow_val s (u - 8) = RZ_POISON, s)"
  by (auto simp: redzone_maybe_owns_def SIZEOF_HEADER_def)

lemma redzone_usable_size_eq:
  "reserved s \<Longrightarrow> \<not> lock_held s \<Longrightarrow>
    redzone_usable_size sys u s =
      Done (if u = 0 then 0 else case lookup_user s u of None \<Rightarrow> 0 | Some i \<Rightarrow> user_size (blocks s ! i), s)"
  by (simp add: redzone_usable_size_def split: option.split)

end
