(* ===== verification/RZ_Alloc.thy ===== *)
theory RZ_Alloc
  imports RZ_Table
begin

text \<open>
  The allocators and \<^verbatim>\<open>free\<close> of \<^verbatim>\<open>runtime/redzone_rt.c\<close>. A pointer result is an address, 0
  for \<^verbatim>\<open>NULL\<close>; a call that reports an error ends in \<open>Halt\<close>.
\<close>

definition SIZE_MAX :: u64 where "SIZE_MAX = - 1"
definition EINVAL :: int where "EINVAL = 22"
definition ENOMEM :: int where "ENOMEM = 12"
definition SIZEOF_VOIDP :: u64 where "SIZEOF_VOIDP = 8"

section \<open>The operations\<close>

definition is_pow2 :: "u64 \<Rightarrow> bool" where
  "is_pow2 x \<longleftrightarrow> x \<noteq> 0 \<and> x AND (x - 1) = 0"

definition rz_allocate :: "sys \<Rightarrow> u64 \<Rightarrow> u64 \<Rightarrow> cstr \<Rightarrow> int \<Rightarrow> rt \<Rightarrow> (u64 \<times> rt) outcome" where
  "rz_allocate sys sz align file line s =
     (let slack = (if align > REDZONE_SIZE then align else 0) in
      if sz > SIZE_MAX - 2 * REDZONE_SIZE - slack then Done (0, s) else
      let tot = sz + 2 * REDZONE_SIZE + slack;
          base = sys_malloc sys tot in
      if base = 0 then Done (0, s) else
      let user = (base + REDZONE_SIZE + (align - 1)) AND NOT (align - 1) in
      bindO (table_lock s) (\<lambda>s.
      bindO (record_block sys base tot user sz file line s) (\<lambda>(idx, s).
      let s = table_unlock s in
      bindO (set_shadow_range sys base tot RZ_POISON s) (\<lambda>s.
      bindO (carve_user sys user sz s) (\<lambda>s.
      let h = user - SIZEOF_HEADER in
      Done (user, s\<lparr>mem := write_header h idx (mem s)\<rparr>))))))"

definition redzone_malloc :: "sys \<Rightarrow> u64 \<Rightarrow> cstr \<Rightarrow> int \<Rightarrow> rt \<Rightarrow> (u64 \<times> rt) outcome" where
  "redzone_malloc sys sz file line s = rz_allocate sys sz REDZONE_SIZE file line s"

definition redzone_aligned_alloc ::
  "sys \<Rightarrow> u64 \<Rightarrow> u64 \<Rightarrow> cstr \<Rightarrow> int \<Rightarrow> rt \<Rightarrow> (u64 \<times> rt) outcome" where
  "redzone_aligned_alloc sys alignment sz file line s =
     (if \<not> is_pow2 alignment then Done (0, s) else
      let alignment = (if alignment < REDZONE_SIZE then REDZONE_SIZE else alignment) in
      rz_allocate sys sz alignment file line s)"

definition redzone_posix_memalign ::
  "sys \<Rightarrow> u64 \<Rightarrow> u64 \<Rightarrow> u64 \<Rightarrow> cstr \<Rightarrow> int \<Rightarrow> rt \<Rightarrow> (int \<times> rt) outcome" where
  "redzone_posix_memalign sys memptr alignment sz file line s =
     (if memptr = 0 then Done (EINVAL, s) else
      if \<not> is_pow2 alignment \<or> alignment mod SIZEOF_VOIDP \<noteq> 0 then Done (EINVAL, s) else
      let a = (if alignment < REDZONE_SIZE then REDZONE_SIZE else alignment) in
      bindO (rz_allocate sys sz a file line s) (\<lambda>(p, s).
      if p = 0 then Done (ENOMEM, s) else
      Done (0, s\<lparr>mem := store64 (mem s) memptr p\<rparr>)))"

definition redzone_calloc :: "sys \<Rightarrow> u64 \<Rightarrow> u64 \<Rightarrow> cstr \<Rightarrow> int \<Rightarrow> rt \<Rightarrow> (u64 \<times> rt) outcome" where
  "redzone_calloc sys nmemb sz file line s =
     (if sz \<noteq> 0 \<and> nmemb > SIZE_MAX div sz then Done (0, s) else
      let tot = nmemb * sz in
      bindO (redzone_malloc sys tot file line s) (\<lambda>(p, s).
      if p \<noteq> 0 then Done (p, s\<lparr>mem := mem_set p 0 tot (mem s)\<rparr>) else Done (p, s)))"

definition set_freed :: "nat \<Rightarrow> rt \<Rightarrow> rt" where
  "set_freed i s = s\<lparr>blocks := (blocks s)[i := (blocks s ! i)\<lparr>freed := True\<rparr>]\<rparr>"

definition redzone_free :: "sys \<Rightarrow> u64 \<Rightarrow> rt \<Rightarrow> rt outcome" where
  "redzone_free sys ptr s =
     (if ptr = 0 then Done s else
      bindO (table_lock s) (\<lambda>s.
      bindO (block_from_user_ptr sys ptr s) (\<lambda>(b, s).
      case b of
        None \<Rightarrow>
          (case find_block ptr s of
             None \<Rightarrow> Done (table_unlock s)
           | Some _ \<Rightarrow> Halt (Report (ReportFree ''invalid-free'' ptr)))
      | Some i \<Rightarrow>
          if freed (blocks s ! i) then Halt (Report (ReportFree ''double-free'' ptr)) else
          let s = set_freed i s;
              ua = user_addr (blocks s ! i);
              us = user_size (blocks s ! i);
              s = table_unlock s in
          set_shadow_range sys ua ((us + 7) AND NOT 7) FREED_POISON s)))"

definition redzone_realloc :: "sys \<Rightarrow> u64 \<Rightarrow> u64 \<Rightarrow> cstr \<Rightarrow> int \<Rightarrow> rt \<Rightarrow> (u64 \<times> rt) outcome" where
  "redzone_realloc sys ptr sz file line s =
     (if ptr = 0 then redzone_malloc sys sz file line s else
      if sz = 0 then bindO (redzone_free sys ptr s) (\<lambda>s. Done (0, s)) else
      bindO (redzone_malloc sys sz file line s) (\<lambda>(np, s).
      if np = 0 then Done (0, s) else
      bindO (table_lock s) (\<lambda>s.
      bindO (block_from_user_ptr sys ptr s) (\<lambda>(old, s).
      let old = (if old = None then find_block ptr s else old);
          copy = (case old of
                    None \<Rightarrow> 0
                  | Some i \<Rightarrow>
                      if \<not> freed (blocks s ! i)
                      then (if user_size (blocks s ! i) < sz then user_size (blocks s ! i) else sz)
                      else 0);
          s = table_unlock s;
          s = (if copy \<noteq> 0 then s\<lparr>mem := mem_move np ptr copy (mem s)\<rparr> else s) in
      bindO (redzone_free sys ptr s) (\<lambda>s. Done (np, s))))))"

definition redzone_malloc_plain :: "sys \<Rightarrow> u64 \<Rightarrow> rt \<Rightarrow> (u64 \<times> rt) outcome" where
  "redzone_malloc_plain sys sz s = redzone_malloc sys sz None 0 s"

definition redzone_calloc_plain :: "sys \<Rightarrow> u64 \<Rightarrow> u64 \<Rightarrow> rt \<Rightarrow> (u64 \<times> rt) outcome" where
  "redzone_calloc_plain sys nmemb sz s = redzone_calloc sys nmemb sz None 0 s"

definition redzone_realloc_plain :: "sys \<Rightarrow> u64 \<Rightarrow> u64 \<Rightarrow> rt \<Rightarrow> (u64 \<times> rt) outcome" where
  "redzone_realloc_plain sys ptr sz s = redzone_realloc sys ptr sz None 0 s"

section \<open>Powers of two\<close>

lemma is_pow2_iff: "is_pow2 x \<longleftrightarrow> (\<exists>k < 64. x = 2 ^ k)"
proof
  assume p: "is_pow2 x"
  then have "unat x \<noteq> 0" by (simp add: is_pow2_def unat_0_iff)
  then obtain k where k: "2 ^ k \<le> unat x" "unat x < 2 ^ (k + 1)"
    using ex_power_ivl1 [of 2 "unat x"] by auto
  have "(2 :: nat) ^ k < 18446744073709551616" using k(1) unat_bound64 [of x] by (rule le_less_trans)
  then have "(2 :: nat) ^ k < 2 ^ 64" by simp
  then have k64: "k < 64" by (rule power_less_imp_less_exp [rotated]) simp
  have "unat x = 2 ^ k"
  proof (rule ccontr)
    assume "unat x \<noteq> 2 ^ k"
    moreover have "unat (x - 1) = unat x - 1" using \<open>unat x \<noteq> 0\<close> by (subst unat_minus64) simp_all
    ultimately have "2 ^ k \<le> unat (x - 1)" "unat (x - 1) < 2 ^ (k + 1)" using k by linarith+
    then have "odd (unat (x - 1) div 2 ^ k)" by (rule between_powers_odd)
    moreover have "odd (unat x div 2 ^ k)" using k by (rule between_powers_odd)
    ultimately have "bit (x - 1) k" and "bit x k" by (simp_all only: bit_unat not_False_eq_True)
    then have "bit (x AND (x - 1)) k" by (simp add: bit_and_iff)
    then show False using p by (simp add: is_pow2_def)
  qed
  then have "x = 2 ^ k" by (simp add: word_unat_eq_iff unat_pow2 [OF k64])
  with k64 show "\<exists>k < 64. x = 2 ^ k" by blast
next
  assume "\<exists>k < 64. x = 2 ^ k"
  then obtain k where k: "k < 64" "x = 2 ^ k" by blast
  have "unat (x AND (2 ^ k - 1)) = 0" using k by (simp only: unat_and_mask unat_pow2) simp
  moreover have "unat x \<noteq> 0" using k by (simp add: unat_pow2)
  ultimately show "is_pow2 x" using k by (auto simp: is_pow2_def unat_0_iff)
qed

section \<open>Size and address arithmetic\<close>

definition alloc_slack :: "u64 \<Rightarrow> u64" where
  "alloc_slack align = (if align > REDZONE_SIZE then align else 0)"

definition alloc_total :: "u64 \<Rightarrow> u64 \<Rightarrow> u64" where
  "alloc_total sz align = sz + 2 * REDZONE_SIZE + alloc_slack align"

definition alloc_user :: "u64 \<Rightarrow> u64 \<Rightarrow> u64" where
  "alloc_user base align = (base + REDZONE_SIZE + (align - 1)) AND NOT (align - 1)"

lemma unat_alloc_slack:
  assumes "k < 64"
  shows "unat (alloc_slack (2 ^ k)) = (if 4 < k then 2 ^ k else 0)"
proof -
  have "(16 :: nat) < 2 ^ k \<longleftrightarrow> 4 < k"
    using power_strict_increasing_iff [of "2 :: nat" 4 k] by simp
  then show ?thesis
    by (auto simp: alloc_slack_def REDZONE_SIZE_def word_less_nat_alt unat_pow2 [OF assms])
qed

lemma slack_bound: "k < 64 \<Longrightarrow> unat (alloc_slack (2 ^ k)) \<le> 9223372036854775808"
  using power_increasing [of k 63 "2 :: nat"] by (simp add: unat_alloc_slack)

text \<open>The guard refuses a request exactly when the total would not fit in \<^verbatim>\<open>size_t\<close>.\<close>

lemma alloc_guard:
  assumes k: "k < 64"
  shows "sz > SIZE_MAX - 2 * REDZONE_SIZE - alloc_slack (2 ^ k) \<longleftrightarrow>
    18446744073709551616 \<le> unat sz + 32 + unat (alloc_slack (2 ^ k))"
proof -
  have "unat (SIZE_MAX - 2 * REDZONE_SIZE) = 18446744073709551583"
    by (simp add: SIZE_MAX_def REDZONE_SIZE_def)
  then have "unat (SIZE_MAX - 2 * REDZONE_SIZE - alloc_slack (2 ^ k))
      = 18446744073709551583 - unat (alloc_slack (2 ^ k))"
    using slack_bound [OF k] by (subst unat_minus64) simp_all
  then show ?thesis using slack_bound [OF k] by (auto simp: word_less_nat_alt)
qed

lemma unat_alloc_total:
  assumes k: "k < 64" and g: "\<not> sz > SIZE_MAX - 2 * REDZONE_SIZE - alloc_slack (2 ^ k)"
  shows "unat (alloc_total sz (2 ^ k)) = unat sz + 32 + unat (alloc_slack (2 ^ k))"
proof -
  have b: "unat sz + 32 + unat (alloc_slack (2 ^ k)) < 18446744073709551616"
    using g by (simp only: alloc_guard [OF k] not_le)
  then have "unat (sz + 2 * REDZONE_SIZE) = unat sz + 32"
    by (simp add: REDZONE_SIZE_def unat_plus64)
  with b show ?thesis by (simp add: alloc_total_def unat_plus64)
qed


lemma alloc_user_bounds:
  assumes k: "4 \<le> k" "k < 64" and al: "unat base mod 16 = 0"
    and b: "unat base + 16 + 2 ^ k \<le> 18446744073709551616"
  defines "u \<equiv> unat (alloc_user base (2 ^ k))"
  shows "u mod 2 ^ k = 0" and "u mod 16 = 0" and "unat base + 16 \<le> u"
    and "u < unat base + 16 + 2 ^ k" and "k = 4 \<Longrightarrow> u = unat base + 16"
proof -
  have p: "unat ((2 :: u64) ^ k) = 2 ^ k" using k(2) by (rule unat_pow2)
  have pos: "0 < (2 :: nat) ^ k" by simp
  have b': "unat base + 16 + (2 ^ k - 1) < 18446744073709551616" using b pos by linarith
  then have "unat base + 16 < 18446744073709551616" by linarith
  then have "unat (base + REDZONE_SIZE) = unat base + 16"
    by (simp add: REDZONE_SIZE_def unat_plus64)
  moreover have "unat ((2 :: u64) ^ k - 1) = 2 ^ k - 1"
    using p by (subst unat_minus64) simp_all
  ultimately have "unat (base + REDZONE_SIZE + (2 ^ k - 1)) = unat base + 16 + (2 ^ k - 1)"
    using b' by (subst unat_plus64) simp_all
  then have u: "u = (unat base + 16 + (2 ^ k - 1)) div 2 ^ k * 2 ^ k"
    by (simp add: u_def alloc_user_def unat_align_down [OF k(2)])
  then show m: "u mod 2 ^ k = 0" by simp
  have "(2 :: nat) ^ k = 16 * 2 ^ (k - 4)"
    using k(1) power_add [of "2 :: nat" 4 "k - 4"] by simp
  with m show m16: "u mod 16 = 0" by (metis dvd_triv_left mod_0_imp_dvd dvd_imp_mod_0 dvd_trans)
  show lo: "unat base + 16 \<le> u" and hi: "u < unat base + 16 + 2 ^ k"
    unfolding u using round_up_bounds [OF pos] by blast+
  assume "k = 4"
  with hi have "u < unat base + 32" by simp
  moreover obtain i j where "unat base = 16 * i" "u = 16 * j"
    using al m16 by (auto elim!: dvdE)
  ultimately have "j < i + 2" "i + 1 \<le> j" "unat base = 16 * i" "u = 16 * j" using lo by simp_all
  moreover from this have "j = i + 1" by linarith
  ultimately show "u = unat base + 16" by simp
qed

lemma alloc_layout:
  assumes k: "4 \<le> k" "k < 64" and al: "unat base mod 16 = 0"
    and g: "\<not> sz > SIZE_MAX - 2 * REDZONE_SIZE - alloc_slack (2 ^ k)"
    and lim: "unat base + unat (alloc_total sz (2 ^ k)) \<le> 140737488355328"
  shows "unat (alloc_user base (2 ^ k)) mod 2 ^ k = 0"
    and "unat (alloc_user base (2 ^ k)) mod 16 = 0"
    and "unat base + 16 \<le> unat (alloc_user base (2 ^ k))"
    and "unat (alloc_user base (2 ^ k)) + unat sz + 16 \<le> unat base + unat (alloc_total sz (2 ^ k))"
proof -
  note t = unat_alloc_total [OF k(2) g] unat_alloc_slack [OF k(2)]
  have "unat base + 16 + 2 ^ k \<le> 18446744073709551616"
    using lim t k(1) by (cases "k = 4") simp_all
  note u = alloc_user_bounds [OF k al this]
  show "unat (alloc_user base (2 ^ k)) mod 2 ^ k = 0" "unat (alloc_user base (2 ^ k)) mod 16 = 0"
    "unat base + 16 \<le> unat (alloc_user base (2 ^ k))" by (rule u)+
  show "unat (alloc_user base (2 ^ k)) + unat sz + 16 \<le> unat base + unat (alloc_total sz (2 ^ k))"
    using u(4,5) t k(1) by (cases "k = 4") simp_all
qed

section \<open>What an allocation leaves\<close>

definition new_cap :: "rt \<Rightarrow> u64" where
  "new_cap s = (if g_count s = cap s then (if cap s \<noteq> 0 then cap s * 2 else 64) else cap s)"

definition new_block :: "u64 \<Rightarrow> u64 \<Rightarrow> u64 \<Rightarrow> cstr \<Rightarrow> int \<Rightarrow> block" where
  "new_block base sz align file line =
     \<lparr>real_base = base, total_size = alloc_total sz align, user_addr = alloc_user base align,
      user_size = sz, freed = False, alloc_file = file, alloc_line = line\<rparr>"

definition alloc_result :: "u64 \<Rightarrow> u64 \<Rightarrow> u64 \<Rightarrow> cstr \<Rightarrow> int \<Rightarrow> rt \<Rightarrow> rt" where
  "alloc_result base sz align file line s =
     (so.guarded (s\<lparr>blocks := blocks s @ [new_block base sz align file line], cap := new_cap s\<rparr>)
        base (alloc_total sz align) (alloc_user base align) sz RZ_POISON)
     \<lparr>mem := write_header (alloc_user base align - 16) (g_count s) (mem s)\<rparr>"

lemma record_block_locked:
  assumes "\<not> lock_held s"
  shows "bindO (table_lock s) (\<lambda>s. bindO (record_block sys base tot user usz file line s) f) =
    (if g_count s = cap s \<and> \<not> sys_realloc_ok sys then Halt OutOfMemoryTracking
     else f (g_count s, s\<lparr>lock_held := True, in_runtime := in_runtime s + 1,
       blocks := blocks s @ [\<lparr>real_base = base, total_size = tot, user_addr = user,
         user_size = usz, freed = False, alloc_file = file, alloc_line = line\<rparr>], cap := new_cap s\<rparr>))"
  using assms by (cases s) (simp add: record_block_def g_count_def new_cap_def Let_def)

lemma unlock_recorded:
  "\<not> lock_held s \<Longrightarrow>
    table_unlock (s\<lparr>lock_held := True, in_runtime := in_runtime s + 1, blocks := b, cap := c\<rparr>)
      = s\<lparr>blocks := b, cap := c\<rparr>"
  by (cases s) (simp add: table_unlock_def)

lemma rz_allocate_eq:
  assumes r: "reserved s" and l: "\<not> lock_held s"
  shows "rz_allocate sys sz align file line s =
    (if sz > SIZE_MAX - 2 * REDZONE_SIZE - alloc_slack align then Done (0, s)
     else if sys_malloc sys (alloc_total sz align) = 0 then Done (0, s)
     else if g_count s = cap s \<and> \<not> sys_realloc_ok sys then Halt OutOfMemoryTracking
     else Done (alloc_user (sys_malloc sys (alloc_total sz align)) align,
       alloc_result (sys_malloc sys (alloc_total sz align)) sz align file line s))"
  unfolding rz_allocate_def alloc_slack_def [symmetric] Let_def alloc_total_def [symmetric]
    alloc_user_def [symmetric] record_block_locked [OF l]
  using r by (simp add: alloc_result_def new_block_def so.guarded_def SIZEOF_HEADER_def unlock_recorded [OF l])

end
