(* ===== verification/RZ_Heap.thy ===== *)
theory RZ_Heap
  imports RZ_Alloc
begin

text \<open>
  The heap invariant: what the table, the headers in application memory and the shadow say
  about the same blocks, kept by every allocator operation and by \<^verbatim>\<open>free\<close>. The locale
  \<open>back_reference\<close> is the contract of the constant-time lookup that \<^verbatim>\<open>free\<close>, \<^verbatim>\<open>realloc\<close> and
  the interposer rely on.
\<close>

section \<open>Blocks in the address space\<close>

definition block_ok :: "block \<Rightarrow> bool" where
  "block_ok b \<longleftrightarrow>
     unat (real_base b) mod 16 = 0 \<and> unat (user_addr b) mod 16 = 0
     \<and> unat (real_base b) + 16 \<le> unat (user_addr b)
     \<and> unat (user_addr b) + unat (user_size b) + 16 \<le> unat (real_base b) + unat (total_size b)
     \<and> unat (real_base b) + unat (total_size b) \<le> 140737488355328"

definition apart :: "u64 \<Rightarrow> u64 \<Rightarrow> block \<Rightarrow> bool" where
  "apart p n b \<longleftrightarrow> unat p + unat n \<le> unat (real_base b)
     \<or> unat (real_base b) + unat (total_size b) \<le> unat p"

definition in_block :: "block \<Rightarrow> nat \<Rightarrow> bool" where
  "in_block b x \<longleftrightarrow> unat (real_base b) \<le> x \<and> x < unat (real_base b) + unat (total_size b)"

definition in_user :: "block \<Rightarrow> nat \<Rightarrow> bool" where
  "in_user b x \<longleftrightarrow> unat (user_addr b) \<le> x \<and> x < unat (user_addr b) + unat (user_size b)"

text \<open>The chunks whose shadow belongs to a block, and what the shadow says there.\<close>

definition in_chunks :: "block \<Rightarrow> nat \<Rightarrow> bool" where
  "in_chunks b c \<longleftrightarrow> unat (real_base b) div 8 \<le> c
     \<and> c < (unat (real_base b) + unat (total_size b) + 7) div 8"

definition expected :: "block \<Rightarrow> nat \<Rightarrow> i8" where
  "expected b c =
     (if unat (user_addr b) div 8 \<le> c \<and> c < unat (user_addr b) div 8 + unat (user_size b) div 8
      then (if freed b then FREED_POISON else 0)
      else if c = unat (user_addr b) div 8 + unat (user_size b) div 8 \<and> unat (user_size b) mod 8 \<noteq> 0
      then (if freed b then FREED_POISON else of_nat (unat (user_size b) mod 8))
      else RZ_POISON)"

definition shadow_ok :: "rt \<Rightarrow> bool" where
  "shadow_ok s \<longleftrightarrow> (\<forall>b \<in> set (blocks s). \<forall>x.
     in_chunks b (unat x div 8) \<longrightarrow> shadow_val s x = expected b (unat x div 8))"

definition headers_ok :: "rt \<Rightarrow> bool" where
  "headers_ok s \<longleftrightarrow> (\<forall>i < length (blocks s).
     load64 (mem s) (user_addr (blocks s ! i) - 16) = RZ_HEADER_MAGIC
     \<and> load64 (mem s) (user_addr (blocks s ! i) - 8) = of_nat i)"

definition separate :: "block list \<Rightarrow> bool" where
  "separate bs \<longleftrightarrow> (\<forall>i < length bs. \<forall>j < length bs. i \<noteq> j \<longrightarrow>
     apart (real_base (bs ! i)) (total_size (bs ! i)) (bs ! j))"

definition heap_wf :: "rt \<Rightarrow> bool" where
  "heap_wf s \<longleftrightarrow> reserved s \<and> \<not> lock_held s \<and> (\<forall>b \<in> set (blocks s). block_ok b)
     \<and> separate (blocks s) \<and> headers_ok s \<and> shadow_ok s"

text \<open>
  What \<^verbatim>\<open>malloc\<close> of the C library promises on the supported platforms: 16-byte alignment, user
  space below \<open>2 ^ 47\<close>, and no overlap with a block the runtime still holds (it never gives
  one back).
\<close>

definition sys_ok :: "sys \<Rightarrow> rt \<Rightarrow> bool" where
  "sys_ok sys s \<longleftrightarrow> (\<forall>n. sys_malloc sys n \<noteq> 0 \<longrightarrow>
     unat (sys_malloc sys n) mod 16 = 0
     \<and> unat (sys_malloc sys n) + unat n \<le> 140737488355328
     \<and> (\<forall>b \<in> set (blocks s). apart (sys_malloc sys n) n b))"

section \<open>Geometry\<close>

lemma block_okD:
  assumes "block_ok b"
  shows "unat (real_base b) mod 8 = 0" and "unat (user_addr b) mod 8 = 0"
    and "16 \<le> unat (user_addr b)"
    and "unat (real_base b) + 16 \<le> unat (user_addr b)"
    and "unat (user_addr b) + unat (user_size b) + 16 \<le> unat (real_base b) + unat (total_size b)"
    and "unat (real_base b) + unat (total_size b) \<le> 140737488355328"
    and "unat (user_addr b - 16) = unat (user_addr b) - 16"
    and "unat (user_addr b - 8) = unat (user_addr b) - 8"
    and "0 < unat (total_size b)"
proof -
  note b = assms [unfolded block_ok_def]
  have m: "n mod 8 = 0" if "n mod 16 = 0" for n :: nat using that by presburger
  show "unat (real_base b) mod 8 = 0" "unat (user_addr b) mod 8 = 0" using b by (auto intro: m)
  show u: "16 \<le> unat (user_addr b)" and "unat (real_base b) + 16 \<le> unat (user_addr b)"
    and "unat (user_addr b) + unat (user_size b) + 16 \<le> unat (real_base b) + unat (total_size b)"
    and "unat (real_base b) + unat (total_size b) \<le> 140737488355328"
    and "0 < unat (total_size b)"
    using b by auto
  show "unat (user_addr b - 16) = unat (user_addr b) - 16" "unat (user_addr b - 8) = unat (user_addr b) - 8"
    using u by (simp_all add: unat_minus64)
qed

lemma covers_in_block: "block_ok b \<Longrightarrow> covers b a \<longleftrightarrow> in_block b (unat a)"
  by (frule block_okD(6)) (simp add: covers_def in_block_def word_le_nat_alt word_less_nat_alt unat_plus64)

lemma in_user_in_block: "block_ok b \<Longrightarrow> in_user b x \<Longrightarrow> in_block b x"
  by (auto simp: in_user_def in_block_def dest: block_okD(4,5))

lemma in_block_chunk: "block_ok b \<Longrightarrow> in_block b x \<Longrightarrow> in_chunks b (x div 8)"
  unfolding in_block_def in_chunks_def by (blast intro: chunk_span dest: block_okD(1))

lemma apart_blocks: "apart p n b \<Longrightarrow> unat p \<le> x \<Longrightarrow> x < unat p + unat n \<Longrightarrow> \<not> in_block b x"
  by (auto simp: apart_def in_block_def)

lemma apart_chunks:
  assumes "apart p n b" and "unat p mod 8 = 0" and "block_ok b" and "in_chunks b c"
  shows "c < unat p div 8 \<or> (unat p + unat n + 7) div 8 \<le> c"
proof (cases "unat p + unat n \<le> unat (real_base b)")
  case True
  then have "(unat p + unat n + 7) div 8 \<le> unat (real_base b) div 8"
    by (rule chunks_before [OF block_okD(1) [OF assms(3)]])
  then show ?thesis using assms(4) by (auto simp: in_chunks_def)
next
  case False
  then have "unat (real_base b) + unat (total_size b) \<le> unat p" using assms(1) by (auto simp: apart_def)
  then have "(unat (real_base b) + unat (total_size b) + 7) div 8 \<le> unat p div 8"
    by (rule chunks_before [OF assms(2)])
  then show ?thesis using assms(4) by (auto simp: in_chunks_def)
qed

text \<open>Poison inside a block, to the byte.\<close>

lemma byte_bad_expected:
  assumes b: "block_ok b"
  shows "byte_bad (expected b (x div 8)) (x mod 8) \<longleftrightarrow> freed b \<or> \<not> in_user b x"
proof -
  note al = block_okD(2) [OF b]
  show ?thesis
    unfolding in_user_def chunk_region [OF al] expected_def
    by (auto simp: byte_bad_partial)
qed

lemma poisoned_in_block:
  assumes "shadow_ok s" and "b \<in> set (blocks s)" and "block_ok b" and "in_block b (unat x)"
  shows "poisoned s x \<longleftrightarrow> freed b \<or> \<not> in_user b (unat x)"
  using assms by (simp add: poisoned_def shadow_ok_def in_block_chunk byte_bad_expected)

section \<open>Headers\<close>

lemma write_header_outside:
  assumes "unat h + 16 \<le> 18446744073709551616" and "\<not> in_span h 16 a"
  shows "write_header h idx m a = m a"
proof -
  have "unat (h + 8) = unat h + 8" using assms(1) by (simp add: unat_plus64)
  then have "\<not> in_span h 8 a" "\<not> in_span (h + 8) 8 a"
    using assms by (auto simp: in_span_nowrap)
  then show ?thesis by (simp add: write_header_def store64_outside)
qed

lemma write_header_read:
  assumes "unat h + 16 \<le> 18446744073709551616"
  shows "load64 (write_header h idx m) h = RZ_HEADER_MAGIC"
    and "load64 (write_header h idx m) (h + 8) = idx"
proof -
  have u: "unat (h + 8) = unat h + 8" using assms by (simp add: unat_plus64)
  have "load64 (write_header h idx m) h = load64 (store64 m h RZ_HEADER_MAGIC) h"
    unfolding write_header_def
    by (rule load64_cong, rule store64_outside) (use assms u in \<open>auto simp: in_span_nowrap\<close>)
  then show "load64 (write_header h idx m) h = RZ_HEADER_MAGIC" by simp
  show "load64 (write_header h idx m) (h + 8) = idx" by (simp add: write_header_def)
qed

text \<open>A change of memory that leaves every block's guard bytes alone keeps the headers.\<close>

lemma header_span:
  assumes b: "block_ok b" and x: "in_span (user_addr b - 16) 8 x \<or> in_span (user_addr b - 8) 8 x"
  shows "in_block b (unat x)" and "\<not> in_user b (unat x)"
proof -
  note d = block_okD [OF b]
  have "in_span (user_addr b - 16) 8 x \<longleftrightarrow>
      unat (user_addr b) - 16 \<le> unat x \<and> unat x < unat (user_addr b) - 16 + 8"
    using d(7) d(3,5,6) by (subst in_span_nowrap) auto
  moreover have "in_span (user_addr b - 8) 8 x \<longleftrightarrow>
      unat (user_addr b) - 8 \<le> unat x \<and> unat x < unat (user_addr b) - 8 + 8"
    using d(8) d(3,5,6) by (subst in_span_nowrap) auto
  ultimately show "in_block b (unat x)" and "\<not> in_user b (unat x)"
    using x d(3-5) by (auto simp: in_block_def in_user_def)
qed

lemma headers_frame:
  assumes "\<forall>b \<in> set (blocks s). block_ok b"
    and "\<And>b x. b \<in> set (blocks s) \<Longrightarrow> in_block b (unat x) \<Longrightarrow> \<not> in_user b (unat x) \<Longrightarrow> m' x = mem s x"
    and "i < length (blocks s)"
  shows "load64 m' (user_addr (blocks s ! i) - 16) = load64 (mem s) (user_addr (blocks s ! i) - 16)"
    and "load64 m' (user_addr (blocks s ! i) - 8) = load64 (mem s) (user_addr (blocks s ! i) - 8)"
proof -
  have b: "blocks s ! i \<in> set (blocks s)" "block_ok (blocks s ! i)" using assms by auto
  show "load64 m' (user_addr (blocks s ! i) - 16) = load64 (mem s) (user_addr (blocks s ! i) - 16)"
    and "load64 m' (user_addr (blocks s ! i) - 8) = load64 (mem s) (user_addr (blocks s ! i) - 8)"
    by (rule load64_cong, rule assms(2) [OF b(1)]; use header_span [OF b(2)] in blast)+
qed

section \<open>The back reference\<close>

lemma heap_wfD:
  assumes "heap_wf s"
  shows "reserved s" "\<not> lock_held s" "separate (blocks s)" "headers_ok s" "shadow_ok s"
    and "b \<in> set (blocks s) \<Longrightarrow> block_ok b"
  using assms by (auto simp: heap_wf_def)

lemma separate_unique:
  assumes "\<forall>b \<in> set bs. block_ok b" and "separate bs" and "i < length bs" "j < length bs"
    and "in_block (bs ! i) x" and "in_block (bs ! j) x"
  shows "i = j"
proof (rule ccontr)
  assume "i \<noteq> j"
  then have "apart (real_base (bs ! i)) (total_size (bs ! i)) (bs ! j)"
    using assms by (simp add: separate_def)
  then show False using assms(5,6) by (auto simp: apart_def in_block_def)
qed

text \<open>The table cannot outgrow its index type: blocks do not overlap and lie below \<open>2 ^ 47\<close>.\<close>

lemma table_length:
  assumes ok: "\<forall>b \<in> set bs. block_ok b" and sep: "separate bs"
  shows "length bs \<le> 140737488355328"
proof -
  let ?f = "\<lambda>i. unat (real_base (bs ! i))"
  have b: "in_block (bs ! i) (?f i)" "?f i < 140737488355328" if "i < length bs" for i
    using block_okD(6,9) [of "bs ! i"] ok that by (auto simp: in_block_def)
  have "inj_on ?f {..<length bs}"
  proof (rule inj_onI)
    fix i j assume "i \<in> {..<length bs}" "j \<in> {..<length bs}" "?f i = ?f j"
    then show "i = j" using separate_unique [OF ok sep, of i j "?f i"] b(1) [of i] b(1) [of j] by simp
  qed
  then have "card {..<length bs} \<le> card {..<140737488355328 :: nat}"
    by (rule card_inj_on_le) (use b in auto)
  then show ?thesis by simp
qed

lemma heap_length: "heap_wf s \<Longrightarrow> length (blocks s) \<le> 140737488355328"
  by (rule table_length) (auto simp: heap_wf_def)

lemma unat_g_count: "heap_wf s \<Longrightarrow> unat (g_count s) = length (blocks s)"
  using heap_length [of s] by (simp add: g_count_def unat_of_nat)

text \<open>
  The contract of the lookup: what it returns names the queried address, and every recorded
  block is found through its own address.
\<close>

locale back_reference =
  fixes ok :: "'s \<Rightarrow> bool"
    and slots :: "'s \<Rightarrow> 'b list"
    and key :: "'b \<Rightarrow> u64"
    and find :: "'s \<Rightarrow> u64 \<Rightarrow> nat option"
  assumes back_sound: "ok s \<Longrightarrow> find s u = Some i \<Longrightarrow> i < length (slots s) \<and> key (slots s ! i) = u"
    and back_complete: "ok s \<Longrightarrow> i < length (slots s) \<Longrightarrow> find s (key (slots s ! i)) = Some i"
begin

lemma back_iff: "ok s \<Longrightarrow> find s u = Some i \<longleftrightarrow> i < length (slots s) \<and> key (slots s ! i) = u"
  using back_sound back_complete by metis

lemma back_None: "ok s \<Longrightarrow> find s u = None \<longleftrightarrow> u \<notin> key ` set (slots s)"
proof -
  assume ok: "ok s"
  have "(\<exists>i. find s u = Some i) \<longleftrightarrow> u \<in> key ` set (slots s)"
    by (auto simp: back_iff [OF ok] set_conv_nth)
  then show ?thesis by auto
qed

lemma keys_distinct: "ok s \<Longrightarrow> distinct (map key (slots s))"
  using back_complete [of s] by (simp add: distinct_conv_nth) (metis option.inject)

text \<open>It computes what a linear search by key would.\<close>

fun scan :: "'b list \<Rightarrow> nat \<Rightarrow> u64 \<Rightarrow> nat option" where
  "scan [] i u = None"
| "scan (b # bs) i u = (if key b = u then Some i else scan bs (Suc i) u)"

lemma scan_Some: "scan bs i u = Some j \<Longrightarrow> i \<le> j \<and> j < i + length bs \<and> key (bs ! (j - i)) = u"
  by (induction bs arbitrary: i) (fastforce simp: nth_Cons' Suc_le_eq split: if_splits)+

lemma scan_None: "scan bs i u = None \<longleftrightarrow> u \<notin> key ` set bs"
  by (induction bs arbitrary: i) auto

lemma back_scan: "ok s \<Longrightarrow> find s u = scan (slots s) 0 u"
proof (cases "scan (slots s) 0 u")
  case None
  moreover assume "ok s"
  ultimately have "find s u = None" using back_None [of s u] scan_None [of "slots s" 0 u] by blast
  with None show ?thesis by simp
next
  case (Some j)
  moreover assume "ok s"
  ultimately show ?thesis using scan_Some [OF Some] by (simp add: back_iff)
qed

end

lemma lookup_user_sound:
  "heap_wf s \<Longrightarrow> lookup_user s u = Some i \<Longrightarrow> i < length (blocks s) \<and> user_addr (blocks s ! i) = u"
  using unat_g_count [of s] by (auto simp: lookup_user_def word_less_nat_alt split: if_splits)

lemma expected_left:
  assumes "block_ok b"
  shows "expected b ((unat (user_addr b) - 8) div 8) = RZ_POISON"
    and "in_block b (unat (user_addr b) - 8)"
proof -
  note d = block_okD [OF assms]
  have "(unat (user_addr b) - 8) div 8 < unat (user_addr b) div 8"
    using d(3) by (simp add: le_div_geq)
  then show "expected b ((unat (user_addr b) - 8) div 8) = RZ_POISON" by (simp add: expected_def)
  show "in_block b (unat (user_addr b) - 8)" using d(4,5) by (auto simp: in_block_def)
qed

text \<open>A block answers to its address as soon as its left red zone and its header are written.\<close>

definition named :: "rt \<Rightarrow> nat \<Rightarrow> bool" where
  "named s i \<longleftrightarrow> shadow_val s (user_addr (blocks s ! i) - 8) = RZ_POISON
     \<and> load64 (mem s) (user_addr (blocks s ! i) - 16) = RZ_HEADER_MAGIC
     \<and> load64 (mem s) (user_addr (blocks s ! i) - 8) = of_nat i"

lemma lookup_named:
  assumes b: "block_ok (blocks s ! i)" and i: "i < length (blocks s)"
    and n: "length (blocks s) < 18446744073709551616" and h: "named s i"
  shows "lookup_user s (user_addr (blocks s ! i)) = Some i"
proof -
  have "unat (of_nat i :: u64) = i" using n i by (intro unat_nat64) simp
  moreover have "unat (g_count s) = length (blocks s)" using n by (simp add: g_count_def unat_nat64)
  moreover have "(16 :: u64) \<le> user_addr (blocks s ! i)" using block_okD(3) [OF b] by (simp add: word_le_nat_alt)
  ultimately show ?thesis
    using h i by (simp add: named_def lookup_user_def word_less_nat_alt)
qed

lemma left_chunk:
  assumes b: "block_ok b"
  shows "in_chunks b (unat (user_addr b - 8) div 8)" and "expected b (unat (user_addr b - 8) div 8) = RZ_POISON"
  unfolding block_okD(8) [OF b] by (rule in_block_chunk [OF b expected_left(2) [OF b]], rule expected_left(1) [OF b])

lemma lookup_user_complete:
  assumes wf: "heap_wf s" and i: "i < length (blocks s)"
  shows "lookup_user s (user_addr (blocks s ! i)) = Some i"
proof (rule lookup_named [OF _ i])
  have b: "blocks s ! i \<in> set (blocks s)" "block_ok (blocks s ! i)" using wf i by (auto simp: heap_wf_def)
  then show "block_ok (blocks s ! i)" by blast
  show "length (blocks s) < 18446744073709551616" using heap_length [OF wf] by simp
  have "shadow_val s (user_addr (blocks s ! i) - 8) = expected (blocks s ! i) (unat (user_addr (blocks s ! i) - 8) div 8)"
    using heap_wfD(5) [OF wf] b(1) left_chunk(1) [OF b(2)] unfolding shadow_ok_def by blast
  then show "named s i"
    using heap_wfD(4) [OF wf] left_chunk(2) [OF b(2)] i by (simp add: named_def headers_ok_def)
qed

interpretation br: back_reference heap_wf blocks user_addr lookup_user
  by unfold_locales (use lookup_user_sound lookup_user_complete in auto)

lemma find_block_apart:
  assumes ok: "\<forall>b \<in> set (blocks s). block_ok b" and sep: "separate (blocks s)"
  shows "find_block a s = Some i \<longleftrightarrow> i < length (blocks s) \<and> in_block (blocks s ! i) (unat a)"
proof -
  have c: "covers (blocks s ! j) a \<longleftrightarrow> in_block (blocks s ! j) (unat a)" if "j < length (blocks s)" for j
    by (rule covers_in_block) (use ok nth_mem [OF that] in blast)
  have "\<not> covers (blocks s ! k) a" if "i < length (blocks s)" "in_block (blocks s ! i) (unat a)" "k < i" for k
    using that c [of k] separate_unique [OF ok sep, of i k "unat a"] by auto
  then show ?thesis using c by (auto simp: find_block_Some)
qed

lemma find_block_unique:
  "heap_wf s \<Longrightarrow> find_block a s = Some i \<longleftrightarrow> i < length (blocks s) \<and> in_block (blocks s ! i) (unat a)"
  by (rule find_block_apart) (auto simp: heap_wf_def)

lemma find_block_none:
  "heap_wf s \<Longrightarrow> find_block a s = None \<longleftrightarrow> (\<forall>b \<in> set (blocks s). \<not> in_block b (unat a))"
  by (auto simp: find_block_None covers_in_block heap_wfD(6))

section \<open>Allocation keeps the invariant\<close>

lemma heap_wf_extend:
  assumes wf: "heap_wf s" and b: "block_ok b"
    and ap: "\<forall>b' \<in> set (blocks s). apart (real_base b) (total_size b) b'"
    and nf: "\<not> freed b"
    and s': "blocks s' = blocks s @ [b]" "reserved s'" "\<not> lock_held s'"
    and sh: "\<And>x :: u64. in_chunks b (unat x div 8) \<Longrightarrow> shadow_val s' x = expected b (unat x div 8)"
      "\<And>x :: u64. \<not> in_chunks b (unat x div 8) \<Longrightarrow> shadow_val s' x = shadow_val s x"
    and hd: "load64 (mem s') (user_addr b - 16) = RZ_HEADER_MAGIC"
      "load64 (mem s') (user_addr b - 8) = g_count s"
      "\<And>x :: u64. \<not> in_block b (unat x) \<Longrightarrow> mem s' x = mem s x"
  shows "heap_wf s'"
proof -
  note w = heap_wfD [OF wf]
  have sym: "apart (real_base b') (total_size b') b" if "b' \<in> set (blocks s)" for b'
    using ap that by (auto simp: apart_def)
  have "separate (blocks s')"
    using w(3) ap sym unfolding separate_def s' by (auto simp: nth_append less_Suc_eq)
  moreover have "shadow_ok s'"
    unfolding shadow_ok_def
  proof (intro ballI allI impI)
    fix b' and x :: u64 assume b': "b' \<in> set (blocks s')" and c: "in_chunks b' (unat x div 8)"
    show "shadow_val s' x = expected b' (unat x div 8)"
    proof (cases "b' = b")
      case True
      then show ?thesis using sh(1) c by simp
    next
      case False
      then have old: "b' \<in> set (blocks s)" using b' s' by auto
      then have "\<not> in_chunks b (unat x div 8)"
        using apart_chunks [OF bspec [OF ap old] block_okD(1) [OF b] w(6) [OF old] c]
        by (auto simp: in_chunks_def)
      then show ?thesis using sh(2) w(5) old c by (simp add: shadow_ok_def)
    qed
  qed
  moreover have "headers_ok s'"
  proof -
    have keep: "mem s' x = mem s x" if "b' \<in> set (blocks s)" "in_block b' (unat x)" for b' and x :: u64
      using hd(3) apart_blocks [of "real_base b" "total_size b" b'] ap that
      by (auto simp: in_block_def)
    have oks: "\<forall>b \<in> set (blocks s). block_ok b" using w(6) by blast
    have "load64 (mem s') (user_addr (blocks s ! i) - 16) = RZ_HEADER_MAGIC
        \<and> load64 (mem s') (user_addr (blocks s ! i) - 8) = of_nat i" if i: "i < length (blocks s)" for i
      using headers_frame [OF oks keep i] w(4) i by (simp add: headers_ok_def)
    then show ?thesis
      using hd(1,2) by (auto simp: headers_ok_def s' nth_append less_Suc_eq g_count_def)
  qed
  ultimately show ?thesis using w b s' by (auto simp: heap_wf_def)
qed

lemma new_block_ok:
  assumes k: "4 \<le> k" "k < 64"
    and g: "\<not> sz > SIZE_MAX - 2 * REDZONE_SIZE - alloc_slack (2 ^ k)"
    and al: "unat base mod 16 = 0" and lim: "unat base + unat (alloc_total sz (2 ^ k)) \<le> 140737488355328"
  shows "block_ok (new_block base sz (2 ^ k) file line)"
  using alloc_layout [OF k al g lim] al lim by (simp add: block_ok_def new_block_def)

text \<open>What an allocation writes for its own block, whatever the rest of the heap looks like.\<close>

lemma alloc_result_block:
  fixes loc :: cstr and line :: int
  assumes r: "reserved s" and k: "4 \<le> k" "k < 64"
    and g: "\<not> sz > SIZE_MAX - 2 * REDZONE_SIZE - alloc_slack (2 ^ k)"
    and al: "unat base mod 16 = 0" and lim: "unat base + unat (alloc_total sz (2 ^ k)) \<le> 140737488355328"
  defines "b \<equiv> new_block base sz (2 ^ k) loc line" and "s' \<equiv> alloc_result base sz (2 ^ k) loc line s"
  shows "in_chunks b (unat x div 8) \<Longrightarrow> shadow_val s' x = expected b (unat x div 8)"
    and "\<not> in_chunks b (unat x div 8) \<Longrightarrow> shadow_val s' x = shadow_val s x"
    and "load64 (mem s') (user_addr b - 16) = RZ_HEADER_MAGIC" and "load64 (mem s') (user_addr b - 8) = g_count s"
    and "\<not> in_block b (unat x) \<Longrightarrow> mem s' x = mem s x"
proof -
  let ?s1 = "s\<lparr>blocks := blocks s @ [b], cap := new_cap s\<rparr>"
  have b: "block_ok b" unfolding b_def using k g al lim by (rule new_block_ok)
  note d = block_okD [OF b, unfolded b_def new_block_def, simplified]
  have r': "reserved ?s1" using r by simp
  have hi: "unat (alloc_user base (2 ^ k)) + unat sz \<le> unat base + unat (alloc_total sz (2 ^ k))"
    and lo: "unat base \<le> unat (alloc_user base (2 ^ k))" using d(4,5) by simp_all
  note ld = so.load_guarded [OF r' d(2) d(9) lo hi lim, of RZ_POISON]
  have sv: "shadow_val s' x = shadow_val (so.guarded ?s1 base (alloc_total sz (2 ^ k)) (alloc_user base (2 ^ k)) sz RZ_POISON) x"
    by (simp only: s'_def b_def alloc_result_def shadow_val_updates)
  show "shadow_val s' x = expected b (unat x div 8)" if "in_chunks b (unat x div 8)"
  proof -
    have c: "unat base div 8 \<le> unat x div 8
        \<and> unat x div 8 < (unat base + unat (alloc_total sz (2 ^ k)) + 7) div 8"
      using that by (simp only: b_def in_chunks_def new_block_def block.simps)
    show ?thesis
      unfolding sv ld using c by (simp only: b_def expected_def new_block_def block.simps if_False if_True simp_thms)
  qed
  show "shadow_val s' x = shadow_val s x" if "\<not> in_chunks b (unat x div 8)"
  proof -
    have "unat x div 8 < unat base div 8
        \<or> (unat base + unat (alloc_total sz (2 ^ k)) + 7) div 8 \<le> unat x div 8"
      using that by (auto simp: b_def in_chunks_def new_block_def)
    then show ?thesis
      unfolding sv using so.load_guarded_outside [OF r' d(2) d(1) d(9) lo hi lim] by simp
  qed
  have h: "unat (alloc_user base (2 ^ k) - 16) + 16 \<le> 18446744073709551616"
    using d(3,7) less_imp_le [OF unat_bound64 [of "alloc_user base (2 ^ k)"]] by simp
  have h8: "alloc_user base (2 ^ k) - 16 + 8 = alloc_user base (2 ^ k) - 8" by simp
  show "load64 (mem s') (user_addr b - 16) = RZ_HEADER_MAGIC" "load64 (mem s') (user_addr b - 8) = g_count s"
    using write_header_read [OF h, unfolded h8] by (simp_all add: s'_def b_def alloc_result_def new_block_def)
  show "mem s' x = mem s x" if "\<not> in_block b (unat x)"
  proof -
    have "\<not> in_span (alloc_user base (2 ^ k) - 16) 16 x"
      using that h d(3,4,5,7) by (auto simp: in_span_nowrap b_def in_block_def new_block_def)
    then show ?thesis by (simp add: s'_def alloc_result_def write_header_outside [OF h])
  qed
qed

lemma alloc_result_wf:
  assumes wf: "heap_wf s" and k: "4 \<le> k" "k < 64"
    and g: "\<not> sz > SIZE_MAX - 2 * REDZONE_SIZE - alloc_slack (2 ^ k)"
    and al: "unat base mod 16 = 0" and lim: "unat base + unat (alloc_total sz (2 ^ k)) \<le> 140737488355328"
    and ap: "\<forall>b \<in> set (blocks s). apart base (alloc_total sz (2 ^ k)) b"
  shows "heap_wf (alloc_result base sz (2 ^ k) file line s)"
proof -
  let ?b = "new_block base sz (2 ^ k) file line" and ?s = "alloc_result base sz (2 ^ k) file line s"
  note w = heap_wfD [OF wf]
  note own = alloc_result_block [OF w(1) k g al lim]
  show ?thesis
  proof (rule heap_wf_extend [OF wf new_block_ok [OF k g al lim]])
    show "\<forall>b' \<in> set (blocks s). apart (real_base ?b) (total_size ?b) b'"
      using ap by (simp add: new_block_def)
    show "\<not> freed ?b" by (simp add: new_block_def)
    show "blocks ?s = blocks s @ [?b]" "reserved ?s" "\<not> lock_held ?s"
      using w(1,2) by (simp_all add: alloc_result_def)
  qed (use own in blast)+
qed

section \<open>Freeing keeps the invariant\<close>

definition freed_result :: "nat \<Rightarrow> rt \<Rightarrow> rt" where
  "freed_result i s = fill (set_freed i s) (user_addr (blocks s ! i))
     ((user_size (blocks s ! i) + 7) AND NOT 7) FREED_POISON"

lemma nth_freed [simp]:
  assumes "j < length bs"
  shows "real_base (bs[i := (bs ! i)\<lparr>freed := f\<rparr>] ! j) = real_base (bs ! j)"
    "total_size (bs[i := (bs ! i)\<lparr>freed := f\<rparr>] ! j) = total_size (bs ! j)"
    "user_addr (bs[i := (bs ! i)\<lparr>freed := f\<rparr>] ! j) = user_addr (bs ! j)"
    "user_size (bs[i := (bs ! i)\<lparr>freed := f\<rparr>] ! j) = user_size (bs ! j)"
    "alloc_file (bs[i := (bs ! i)\<lparr>freed := f\<rparr>] ! j) = alloc_file (bs ! j)"
    "alloc_line (bs[i := (bs ! i)\<lparr>freed := f\<rparr>] ! j) = alloc_line (bs ! j)"
    "freed (bs[i := (bs ! i)\<lparr>freed := f\<rparr>] ! j) = (if i = j then f else freed (bs ! j))"
  using assms by (cases "i = j", simp_all)+

lemma set_freed_fields [simp]:
  "mem (set_freed i s) = mem s" "shadow (set_freed i s) = shadow s" "cap (set_freed i s) = cap s"
  "lock_held (set_freed i s) = lock_held s" "in_runtime (set_freed i s) = in_runtime s"
  "leak_on (set_freed i s) = leak_on s" "reserved (set_freed i s) = reserved s"
  "shadow_val (set_freed i s) = shadow_val s"
  "blocks (set_freed i s) = (blocks s)[i := (blocks s ! i)\<lparr>freed := True\<rparr>]"
  by (simp_all add: set_freed_def)

lemma freed_result_fields [simp]:
  "mem (freed_result i s) = mem s" "lock_held (freed_result i s) = lock_held s"
  "in_runtime (freed_result i s) = in_runtime s" "leak_on (freed_result i s) = leak_on s"
  "reserved (freed_result i s) = reserved s" "cap (freed_result i s) = cap s"
  "blocks (freed_result i s) = (blocks s)[i := (blocks s ! i)\<lparr>freed := True\<rparr>]"
  by (simp_all add: freed_result_def)

text \<open>The value the fill leaves on the chunks of the user region is what a freed block shows.\<close>

lemma shadow_val_freed:
  assumes r: "reserved s" and b: "block_ok (blocks s ! i)"
  shows "shadow_val (freed_result i s) x =
    (if unat (user_addr (blocks s ! i)) div 8 \<le> unat x div 8
        \<and> unat x div 8 < unat (user_addr (blocks s ! i)) div 8 + (unat (user_size (blocks s ! i)) + 7) div 8
     then FREED_POISON else shadow_val s x)"
proof -
  let ?u = "user_addr (blocks s ! i)" and ?n = "user_size (blocks s ! i)"
  note d = block_okD [OF b]
  have "unat (?n + 7) = unat ?n + 7" using d(5,6) by (simp add: unat_plus64)
  then have len: "unat ((?n + 7) AND NOT 7) = (unat ?n + 7) div 8 * 8" by (simp only: unat_and_not7)
  show ?thesis
  proof (cases "(unat ?n + 7) div 8 = 0")
    case True
    then have "(?n + 7) AND NOT 7 = 0" by (simp only: word_unat_eq_iff len) simp
    then have "freed_result i s = set_freed i s" by (simp only: freed_result_def fill_0)
    then show ?thesis using True by auto
  next
    case False
    have pos: "0 < unat ((?n + 7) AND NOT 7)" unfolding len using False by simp
    have "(unat ?n + 7) div 8 * 8 \<le> unat ?n + 7" by simp
    then have bound: "unat ?u + unat ((?n + 7) AND NOT 7) + 7 < 18446744073709551616"
      unfolding len using d(5,6) by linarith
    have below: "unat x < 140737488355328" if "unat x div 8 < unat ?u div 8 + (unat ?n + 7) div 8"
    proof -
      have "unat ?u + (unat ?n + 7) div 8 * 8 \<le> 140737488355328"
        using \<open>(unat ?n + 7) div 8 * 8 \<le> unat ?n + 7\<close> d(5,6) by linarith
      then have "(unat ?u + (unat ?n + 7) div 8 * 8) div 8 \<le> 140737488355328 div 8"
        by (rule div_le_mono)
      then have "unat ?u div 8 + (unat ?n + 7) div 8 \<le> 17592186044416" by simp
      with that show ?thesis by (simp only: limit_div8)
    qed
    have "reserved (set_freed i s)" using r by simp
    from shadow_val_fill [OF this pos bound, of FREED_POISON x] below show ?thesis
      unfolding freed_result_def len chunks_round [OF d(2)] by auto
  qed
qed

lemma block_ok_freed [simp]: "block_ok (b\<lparr>freed := f\<rparr>) = block_ok b"
  by (simp add: block_ok_def)

lemma in_chunks_freed [simp]: "in_chunks (b\<lparr>freed := f\<rparr>) = in_chunks b"
  by (simp add: in_chunks_def fun_eq_iff)

lemma expected_freed:
  "expected (b\<lparr>freed := True\<rparr>) c =
    (if unat (user_addr b) div 8 \<le> c \<and> c < unat (user_addr b) div 8 + (unat (user_size b) + 7) div 8
     then FREED_POISON else expected b c)"
  unfolding chunk_ceil by (auto simp: expected_def)

lemma user_chunks_in_block:
  assumes b: "block_ok b" and c: "unat (user_addr b) div 8 \<le> c"
    "c < unat (user_addr b) div 8 + (unat (user_size b) + 7) div 8"
  shows "in_chunks b c"
proof -
  note d = block_okD [OF b]
  have "unat (real_base b) div 8 \<le> unat (user_addr b) div 8" using d(4) by (intro div_le_mono) simp
  moreover have "unat (user_addr b) div 8 + (unat (user_size b) + 7) div 8
      \<le> (unat (real_base b) + unat (total_size b) + 7) div 8"
    by (rule chunks_le) (use d(5) in linarith)
  ultimately show ?thesis using c by (simp add: in_chunks_def)
qed

lemma separate_freed:
  "separate bs \<Longrightarrow> separate (bs[i := (bs ! i)\<lparr>freed := True\<rparr>])"
  by (simp add: separate_def apart_def)

lemma chunk_owner:
  assumes wf: "heap_wf s" and i: "i < length (blocks s)" and j: "j < length (blocks s)"
    and c: "in_chunks (blocks s ! i) c" "in_chunks (blocks s ! j) c"
  shows "i = j"
proof (rule ccontr)
  assume "i \<noteq> j"
  then have "apart (real_base (blocks s ! i)) (total_size (blocks s ! i)) (blocks s ! j)"
    using heap_wfD(3) [OF wf] i j by (simp add: separate_def)
  from apart_chunks [OF this block_okD(1) heap_wfD(6) [OF wf nth_mem [OF j]] c(2)] c(1)
  show False using heap_wfD(6) [OF wf nth_mem [OF i]] by (auto simp: in_chunks_def)
qed

lemma freed_result_wf:
  assumes wf: "heap_wf s" and i: "i < length (blocks s)"
  shows "heap_wf (freed_result i s)"
proof -
  note w = heap_wfD [OF wf]
  let ?b = "blocks s ! i" and ?s = "freed_result i s"
  have b: "block_ok ?b" using w(6) i by simp
  have "shadow_ok ?s"
    unfolding shadow_ok_def
  proof (intro ballI allI impI)
    fix b' and x :: u64 assume "b' \<in> set (blocks ?s)" and c: "in_chunks b' (unat x div 8)"
    then obtain j where j: "j < length (blocks s)" "b' = blocks ?s ! j" by (auto simp: in_set_conv_nth)
    have old: "in_chunks (blocks s ! j) (unat x div 8)"
      using c j by (cases "j = i") (simp_all add: i)
    then have v: "shadow_val s x = expected (blocks s ! j) (unat x div 8)"
      using w(5) j by (simp add: shadow_ok_def)
    show "shadow_val ?s x = expected b' (unat x div 8)"
    proof (cases "j = i")
      case True
      then show ?thesis
        unfolding shadow_val_freed [OF w(1) b] using j i v by (simp add: expected_freed)
    next
      case False
      then have "\<not> in_chunks ?b (unat x div 8)" using chunk_owner [OF wf i j(1) _ old] by auto
      then have "shadow_val ?s x = shadow_val s x"
        unfolding shadow_val_freed [OF w(1) b] using user_chunks_in_block [OF b] by auto
      then show ?thesis using v j False by simp
    qed
  qed
  moreover have "headers_ok ?s"
    using w(4) by (simp add: headers_ok_def)
  moreover have "\<forall>b \<in> set (blocks ?s). block_ok b"
    using w(6) b by (auto dest!: set_update_subset_insert [THEN subsetD])
  ultimately show ?thesis
    using w separate_freed by (simp add: heap_wf_def)
qed

lemma redzone_free_eq:
  assumes wf: "heap_wf s"
  shows "redzone_free sys ptr s =
    (if ptr = 0 then Done s
     else case lookup_user s ptr of
       None \<Rightarrow> (case find_block ptr s of
           None \<Rightarrow> Done s
         | Some _ \<Rightarrow> Halt (Report (ReportFree ''invalid-free'' ptr)))
     | Some i \<Rightarrow> if freed (blocks s ! i) then Halt (Report (ReportFree ''double-free'' ptr))
                 else Done (freed_result i s))"
proof -
  note w = heap_wfD [OF wf]
  have u: "table_unlock (set_freed i (s\<lparr>lock_held := True, in_runtime := in_runtime s + 1\<rparr>)) = set_freed i s" for i
    using w(2) by (cases s) (simp add: table_unlock_def set_freed_def)
  have "user_addr (blocks (set_freed i s) ! i) = user_addr (blocks s ! i)
      \<and> user_size (blocks (set_freed i s) ! i) = user_size (blocks s ! i)"
    if "lookup_user s ptr = Some i" for i
    using lookup_user_sound [OF wf that] by simp
  then show ?thesis
    using w(1,2) by (auto simp: redzone_free_def u freed_result_def Let_def split: option.splits)
qed

end
