(* ===== verification/RZ_Region.thy ===== *)
theory RZ_Region
  imports RZ_Shadow
begin

text \<open>
  Red zones around stack slots and globals (\<^verbatim>\<open>__redzone_stack_enter\<close>, \<^verbatim>\<open>__redzone_stack_leave\<close>,
  \<^verbatim>\<open>__redzone_global_register\<close>, \<^verbatim>\<open>__redzone_global_register_right\<close>). No table entry is made:
  the shadow alone carries the guard.
\<close>

section \<open>The operations\<close>

definition redzone_stack_enter :: "sys \<Rightarrow> u64 \<Rightarrow> u64 \<Rightarrow> rt \<Rightarrow> rt outcome" where
  "redzone_stack_enter sys base usz s =
     (let user = base + REDZONE_SIZE;
          tot = usz + 2 * REDZONE_SIZE in
      bindO (set_shadow_range sys base tot STACK_RZ s) (\<lambda>s. carve_user sys user usz s))"

definition redzone_stack_leave :: "sys \<Rightarrow> u64 \<Rightarrow> u64 \<Rightarrow> rt \<Rightarrow> rt outcome" where
  "redzone_stack_leave sys base usz s =
     (let tot = usz + 2 * REDZONE_SIZE in set_shadow_range sys base tot 0 s)"

definition redzone_global_register :: "sys \<Rightarrow> u64 \<Rightarrow> u64 \<Rightarrow> rt \<Rightarrow> rt outcome" where
  "redzone_global_register sys data sz s =
     (let base = data - REDZONE_SIZE;
          tot = sz + 2 * REDZONE_SIZE in
      bindO (set_shadow_range sys base tot GLOBAL_RZ s) (\<lambda>s. carve_user sys data sz s))"

definition redzone_global_register_right :: "sys \<Rightarrow> u64 \<Rightarrow> u64 \<Rightarrow> rt \<Rightarrow> rt outcome" where
  "redzone_global_register_right sys data sz s =
     bindO (set_shadow_range sys (data + sz) REDZONE_SIZE GLOBAL_RZ s)
       (\<lambda>s. carve_user sys data sz s)"

section \<open>The state they leave\<close>

definition stack_frame :: "rt \<Rightarrow> u64 \<Rightarrow> u64 \<Rightarrow> rt" where
  "stack_frame s base usz = so.guarded s base (usz + 32) (base + 16) usz STACK_RZ"

definition global_frame :: "rt \<Rightarrow> u64 \<Rightarrow> u64 \<Rightarrow> rt" where
  "global_frame s data sz = so.guarded s (data - 16) (sz + 32) data sz GLOBAL_RZ"

definition global_right_frame :: "rt \<Rightarrow> u64 \<Rightarrow> u64 \<Rightarrow> rt" where
  "global_right_frame s data sz = so.carved (fill s (data + sz) 16 GLOBAL_RZ) data sz"

lemma stack_enter_eq: "reserved s \<Longrightarrow> redzone_stack_enter sys base usz s = Done (stack_frame s base usz)"
  by (simp add: redzone_stack_enter_def stack_frame_def so.guarded_def REDZONE_SIZE_def)

lemma stack_leave_eq: "reserved s \<Longrightarrow> redzone_stack_leave sys base usz s = Done (fill s base (usz + 32) 0)"
  by (simp add: redzone_stack_leave_def REDZONE_SIZE_def)

lemma global_register_eq:
  "reserved s \<Longrightarrow> redzone_global_register sys data sz s = Done (global_frame s data sz)"
  by (simp add: redzone_global_register_def global_frame_def so.guarded_def REDZONE_SIZE_def)

lemma global_register_right_eq:
  "reserved s \<Longrightarrow> redzone_global_register_right sys data sz s = Done (global_right_frame s data sz)"
  by (simp add: redzone_global_register_right_def global_right_frame_def REDZONE_SIZE_def)

text \<open>
  A slot the pass lays out: 16-aligned enlarged object below the shadow limit.
\<close>

definition slot_ok :: "u64 \<Rightarrow> u64 \<Rightarrow> bool" where
  "slot_ok base usz \<longleftrightarrow> unat base mod 16 = 0 \<and> unat base + unat usz + 32 \<le> 140737488355328"

lemma slot_okD:
  assumes "slot_ok base usz"
  shows "unat base mod 8 = 0" "unat (base + 16) mod 8 = 0" "unat (base + 16) = unat base + 16"
    "unat (usz + 32) = unat usz + 32" "0 < unat (usz + 32)" "unat base \<le> unat (base + 16)"
    "unat (base + 16) + unat usz \<le> unat base + unat (usz + 32)"
    "unat base + unat (usz + 32) \<le> 140737488355328"
proof -
  have b: "unat base mod 16 = 0" "unat base + unat usz + 32 \<le> 140737488355328"
    using assms by (simp_all add: slot_ok_def)
  show m: "unat base mod 8 = 0" using b(1) by presburger
  show u: "unat (base + 16) = unat base + 16" and t: "unat (usz + 32) = unat usz + 32"
    using b(2) by (simp_all add: unat_plus64)
  show "unat (base + 16) mod 8 = 0" unfolding u using m by presburger
  show "0 < unat (usz + 32)" "unat base \<le> unat (base + 16)"
    "unat (base + 16) + unat usz \<le> unat base + unat (usz + 32)"
    "unat base + unat (usz + 32) \<le> 140737488355328"
    unfolding u t using b(2) by simp_all
qed

lemma stack_frame_poison:
  assumes r: "reserved s" and ok: "slot_ok base usz"
    and x: "unat base \<le> unat x" "unat x < unat base + unat usz + 32"
  shows "poisoned (stack_frame s base usz) x \<longleftrightarrow>
    \<not> (unat base + 16 \<le> unat x \<and> unat x < unat base + 16 + unat usz)"
proof -
  note d = slot_okD [OF ok]
  have "sint STACK_RZ < 0" by (simp add: STACK_RZ_def)
  from so.bad_guarded [OF r d(2) d(1) d(6) d(7) d(8) this] x show ?thesis
    by (simp add: poisoned_def stack_frame_def d(3,4))
qed

lemma stack_frame_outside:
  assumes r: "reserved s" and ok: "slot_ok base usz"
    and x: "unat x div 8 < unat base div 8 \<or> (unat base + unat usz + 39) div 8 \<le> unat x div 8"
  shows "shadow_val (stack_frame s base usz) x = shadow_val s x"
proof -
  note d = slot_okD [OF ok]
  have "unat base + unat (usz + 32) + 7 = unat base + unat usz + 39" by (simp add: d(4))
  with so.load_guarded_outside [OF r d(2) d(1) d(5) d(6) d(7) d(8)] x show ?thesis
    by (simp add: stack_frame_def)
qed

lemma stack_leave_val:
  assumes r: "reserved s" and ok: "slot_ok base usz"
  shows "shadow_val (fill s base (usz + 32) 0) x =
    (if unat base div 8 \<le> unat x div 8 \<and> unat x div 8 < (unat base + unat usz + 39) div 8 then 0
     else shadow_val s x)"
proof -
  note d = slot_okD [OF ok]
  have "(unat base + unat usz + 39) div 8 \<le> (140737488355328 + 7) div 8"
    by (rule div_le_mono) (use ok in \<open>simp add: slot_ok_def\<close>)
  then have lim: "unat x < 140737488355328" if "unat x div 8 < (unat base + unat usz + 39) div 8"
    using that by (simp add: limit_div8)
  have "unat base + unat (usz + 32) + 7 = unat base + unat usz + 39" by (simp add: d(4))
  then show ?thesis
    using shadow_val_fill [OF r d(5), of base 0 x] d(8) lim by auto
qed

end
