(* ===== verification/RZ_Check.thy ===== *)
theory RZ_Check
  imports RZ_Heap RZ_Region
begin

text \<open>
  The access check (\<^verbatim>\<open>__redzone_check\<close>): two shadow reads on the fast path, and on a poisoned
  first or last byte the classification that names the error. The inlined form the pass emits
  before a load or store (\<^verbatim>\<open>src/RedzonePass.cpp\<close>) is \<open>inline_bad\<close>.
\<close>

section \<open>The operations\<close>

definition region_kind :: "i8 \<Rightarrow> i8 \<Rightarrow> string" where
  "region_kind s1 s2 =
     (let code = (if sint s1 < 0 then s1 else if sint s2 < 0 then s2 else 0) in
      if code = GLOBAL_RZ then ''global-buffer-overflow''
      else if code = STACK_RZ then ''stack-buffer-overflow''
      else ''buffer-overflow'')"

text \<open>The slow path, entered once a byte of the access was found poisoned.\<close>

definition report_access ::
  "sys \<Rightarrow> u64 \<Rightarrow> u64 \<Rightarrow> bool \<Rightarrow> cstr \<Rightarrow> int \<Rightarrow> rt \<Rightarrow> rt outcome" where
  "report_access sys a sz is_write file line s =
     bindO (table_lock s) (\<lambda>s.
      case find_block a s of
        Some i \<Rightarrow>
          if freed (blocks s ! i)
          then Halt (Report (ReportBlock ''use-after-free'' a sz is_write file line (blocks s ! i)))
          else Halt (Report (ReportBlock ''heap-buffer-overflow'' a sz is_write file line (blocks s ! i)))
      | None \<Rightarrow>
          bindO (shadow_load sys a (table_unlock s)) (\<lambda>(s1, s).
          bindO (shadow_load sys (a + sz - 1) s) (\<lambda>(s2, s).
          Halt (Report (ReportSimple (region_kind s1 s2) a sz is_write file line)))))"

definition redzone_check ::
  "sys \<Rightarrow> u64 \<Rightarrow> u64 \<Rightarrow> bool \<Rightarrow> cstr \<Rightarrow> int \<Rightarrow> rt \<Rightarrow> rt outcome" where
  "redzone_check sys a sz is_write file line s =
     (if sz = 0 then Done s else
      bindO (byte_poisoned sys a s) (\<lambda>(first_bad, s).
      bindO (if first_bad then Done (True, s) else byte_poisoned sys (a + sz - 1) s) (\<lambda>(bad, s).
      if \<not> bad then Done s else report_access sys a sz is_write file line s)))"

text \<open>The pass's inlined test of one byte: chunk value not 0 and offset at least the value, signed.\<close>

definition inline_poisoned :: "i8 \<Rightarrow> u64 \<Rightarrow> bool" where
  "inline_poisoned sb addr =
     (let off = (ucast (addr AND 7) :: i8) in sb \<noteq> 0 \<and> sint off \<ge> sint sb)"

definition inline_bad :: "rt \<Rightarrow> u64 \<Rightarrow> u64 \<Rightarrow> bool" where
  "inline_bad s addr sz =
     (let bad = inline_poisoned (shadow_at s (drop_bit 3 addr)) addr in
      if sz > 1 then bad \<or> inline_poisoned (shadow_at s (drop_bit 3 (addr + (sz - 1)))) (addr + (sz - 1))
      else bad)"

section \<open>The check on a reserved shadow\<close>

definition check_report :: "rt \<Rightarrow> u64 \<Rightarrow> u64 \<Rightarrow> bool \<Rightarrow> cstr \<Rightarrow> int \<Rightarrow> report_call" where
  "check_report s a sz is_write file line =
     (case find_block a s of
        Some i \<Rightarrow> ReportBlock (if freed (blocks s ! i) then ''use-after-free'' else ''heap-buffer-overflow'')
          a sz is_write file line (blocks s ! i)
      | None \<Rightarrow> ReportSimple (region_kind (shadow_val s a) (shadow_val s (a + sz - 1))) a sz is_write file line)"

lemma report_access_eq:
  "reserved s \<Longrightarrow> \<not> lock_held s \<Longrightarrow>
    report_access sys a sz w file line s = Halt (Report (check_report s a sz w file line))"
  by (auto simp: report_access_def check_report_def split: option.split)

lemma redzone_check_eq:
  assumes r: "reserved s" and l: "\<not> lock_held s"
  shows "redzone_check sys a sz w file line s =
    (if sz = 0 \<or> \<not> poisoned s a \<and> \<not> poisoned s (a + sz - 1) then Done s
     else Halt (Report (check_report s a sz w file line)))"
  using assms by (simp add: redzone_check_def report_access_eq)

lemma redzone_check_Done:
  "reserved s \<Longrightarrow> \<not> lock_held s \<Longrightarrow>
    redzone_check sys a sz w file line s = Done s' \<longleftrightarrow>
      s' = s \<and> (sz = 0 \<or> \<not> poisoned s a \<and> \<not> poisoned s (a + sz - 1))"
  by (auto simp: redzone_check_eq)

definition clean_ends :: "rt \<Rightarrow> u64 \<Rightarrow> u64 \<Rightarrow> bool" where
  "clean_ends s a n \<longleftrightarrow> \<not> poisoned s a \<and> \<not> poisoned s (a + n - 1)"

lemma last_byte:
  fixes a sz :: u64
  assumes "0 < unat sz" and "unat a + unat sz \<le> 18446744073709551616"
  shows "unat (a + sz - 1) = unat a + unat sz - 1"
proof -
  have "unat (sz - 1) = unat sz - 1" using assms(1) by (subst unat_minus64) simp_all
  then have "unat (a + (sz - 1)) = unat a + (unat sz - 1)"
    using assms by (subst unat_plus64) simp_all
  then show ?thesis using assms(1) by (simp only: add_diff_eq [symmetric])
qed

section \<open>The check inside a heap block is exact\<close>

lemma check_in_block:
  assumes wf: "heap_wf s" and i: "i < length (blocks s)"
    and a: "in_block (blocks s ! i) (unat a)" "in_block (blocks s ! i) (unat a + unat sz - 1)"
    and sz: "0 < unat sz"
  shows "redzone_check sys a sz w file line s =
    (if \<not> freed (blocks s ! i) \<and> in_user (blocks s ! i) (unat a)
        \<and> in_user (blocks s ! i) (unat a + unat sz - 1) then Done s
     else Halt (Report (ReportBlock
       (if freed (blocks s ! i) then ''use-after-free'' else ''heap-buffer-overflow'')
       a sz w file line (blocks s ! i))))"
proof -
  note h = heap_wfD [OF wf]
  let ?b = "blocks s ! i"
  have b: "?b \<in> set (blocks s)" "block_ok ?b" using i h(6) by auto
  have "unat a + unat sz \<le> 18446744073709551616"
    using a(2) block_okD(6) [OF b(2)] sz unfolding in_block_def by linarith
  then have lst: "unat (a + sz - 1) = unat a + unat sz - 1" by (rule last_byte [OF sz])
  have p: "poisoned s x \<longleftrightarrow> freed ?b \<or> \<not> in_user ?b (unat x)" if "in_block ?b (unat x)" for x
    using poisoned_in_block [OF h(5) b that] .
  have "find_block a s = Some i" using find_block_unique [OF wf] i a(1) by simp
  moreover have "sz \<noteq> 0" using sz by auto
  ultimately show ?thesis
    using p [of a] p [of "a + sz - 1"] a lst
    by (simp add: redzone_check_eq [OF h(1,2)] check_report_def)
qed

text \<open>
  An access of at most 17 bytes that passes the check stays clear of every red zone and every
  freed block: the red zones are 16 bytes wide, so it cannot step over one.
\<close>

lemma check_no_skip:
  assumes wf: "heap_wf s" and ok: "redzone_check sys a sz w file line s = Done s'"
    and sz: "0 < unat sz" "unat sz \<le> 17" and nowrap: "unat a + unat sz \<le> 18446744073709551616"
    and b: "b \<in> set (blocks s)" and x: "unat a \<le> x" "x < unat a + unat sz" "in_block b x"
  shows "\<not> freed b \<and> in_user b x"
proof (rule ccontr)
  assume bad: "\<not> (\<not> freed b \<and> in_user b x)"
  note h = heap_wfD [OF wf]
  have bok: "block_ok b" using h(6) b by blast
  note d = block_okD [OF bok]
  have lst: "unat (a + sz - 1) = unat a + unat sz - 1" using sz(1) nowrap by (rule last_byte)
  have "sz \<noteq> 0" using sz by auto
  with ok have "\<not> poisoned s a" "\<not> poisoned s (a + sz - 1)"
    by (simp_all add: redzone_check_Done [OF h(1,2)])
  then have e: "in_block b (unat a) \<longrightarrow> \<not> freed b \<and> in_user b (unat a)"
      "in_block b (unat a + unat sz - 1) \<longrightarrow> \<not> freed b \<and> in_user b (unat a + unat sz - 1)"
    using poisoned_in_block [OF h(5) b bok] lst by metis+
  show False
    using e bad x sz d(4,5) unfolding in_block_def in_user_def by linarith
qed

section \<open>What the callers of a check rely on\<close>

text \<open>
  A check of a span, on the arguments it is meant for: it comes back with the same state when the span is clean,
  and ends the process with the report of the span when it is not. The copy and string wrappers use it
  of \<^verbatim>\<open>__redzone_check\<close>, the instrumented code of the inlined test with its slow path.
\<close>

locale access_check =
  fixes check :: "u64 \<Rightarrow> u64 \<Rightarrow> bool \<Rightarrow> cstr \<Rightarrow> int \<Rightarrow> rt \<Rightarrow> rt outcome"
    and meant :: "u64 \<Rightarrow> u64 \<Rightarrow> bool"
    and clean :: "rt \<Rightarrow> u64 \<Rightarrow> u64 \<Rightarrow> bool"
  assumes passes: "heap_wf s \<Longrightarrow> meant a n \<Longrightarrow> clean s a n \<Longrightarrow> check a n w f l s = Done s"
    and stops: "heap_wf s \<Longrightarrow> meant a n \<Longrightarrow> \<not> clean s a n \<Longrightarrow>
      check a n w f l s = Halt (Report (check_report s a n w f l))"
begin

lemma done_iff:
  "heap_wf s \<Longrightarrow> meant a n \<Longrightarrow> check a n w f l s = Done s' \<longleftrightarrow> s' = s \<and> clean s a n"
  using passes [of s a n w f l] stops [of s a n w f l] by (cases "clean s a n") auto

lemma bind:
  "heap_wf s \<Longrightarrow> meant a n \<Longrightarrow> bindO (check a n w f l s) g =
    (if clean s a n then g s else Halt (Report (check_report s a n w f l)))"
  by (simp add: passes stops)

end

interpretation rc: access_check "redzone_check sys" "\<lambda>a n. True" "\<lambda>s a n. n = 0 \<or> clean_ends s a n" for sys
  by unfold_locales (auto simp: redzone_check_eq clean_ends_def heap_wfD)

section \<open>The inlined test\<close>

lemma inline_poisoned_iff: "inline_poisoned sb addr \<longleftrightarrow> byte_bad sb (unat addr mod 8)"
proof -
  have "unat addr mod 8 < 8" by simp
  then have "unat addr mod 8 \<in> {0, 1, 2, 3, 4, 5, 6, 7}" by auto
  then have "sint (of_nat (unat addr mod 8) :: i8) = int (unat addr mod 8)" by auto
  then show ?thesis
    by (auto simp: inline_poisoned_def byte_bad_def Let_def ucast8_of_nat unat_and7)
qed

lemma inline_bad_iff:
  assumes sz: "0 < unat sz" and lim: "unat a + unat sz \<le> 140737488355328"
  shows "inline_bad s a sz \<longleftrightarrow> poisoned s a \<or> poisoned s (a + sz - 1)"
proof -
  have lst: "unat (a + sz - 1) = unat a + unat sz - 1" using sz lim by (intro last_byte) simp_all
  have e: "a + (sz - 1) = a + sz - 1" by (rule add_diff_eq)
  have p: "poisoned s x \<longleftrightarrow> inline_poisoned (shadow_at s (drop_bit 3 x)) x"
    if "unat x < 140737488355328" for x
    using that by (simp add: poisoned_def shadow_val_def inline_poisoned_iff)
  have "poisoned s a \<longleftrightarrow> inline_poisoned (shadow_at s (drop_bit 3 a)) a"
    "poisoned s (a + sz - 1) \<longleftrightarrow> inline_poisoned (shadow_at s (drop_bit 3 (a + sz - 1))) (a + sz - 1)"
    using lim sz lst by (auto intro!: p)
  moreover have "a + sz - 1 = a" if "\<not> 1 < sz"
  proof -
    have "unat sz = 1" using that sz by (auto simp: word_less_nat_alt)
    then have "sz = 1" by (simp add: word_unat_eq_iff)
    then show ?thesis by simp
  qed
  ultimately show ?thesis unfolding inline_bad_def Let_def e by auto
qed

section \<open>Accesses outside the heap\<close>

lemma check_stack_slot:
  assumes r: "reserved s" and l: "\<not> lock_held s" and ok: "slot_ok base usz"
    and nb: "find_block a (stack_frame s base usz) = None"
    and sz: "0 < unat sz"
    and a: "unat base \<le> unat a" "unat a + unat sz \<le> unat base + unat usz + 32"
  shows "redzone_check sys a sz w file line (stack_frame s base usz) =
    (if unat base + 16 \<le> unat a \<and> unat a + unat sz \<le> unat base + 16 + unat usz
     then Done (stack_frame s base usz)
     else Halt (Report (ReportSimple
       (region_kind (shadow_val (stack_frame s base usz) a)
          (shadow_val (stack_frame s base usz) (a + sz - 1))) a sz w file line)))"
proof -
  have lim: "unat a + unat sz \<le> 140737488355328" using a ok by (simp add: slot_ok_def)
  have lst: "unat (a + sz - 1) = unat a + unat sz - 1" using sz lim by (intro last_byte) simp_all
  have r': "reserved (stack_frame s base usz)" "\<not> lock_held (stack_frame s base usz)"
    using r l by (simp_all add: stack_frame_def)
  have "sz \<noteq> 0" using sz by auto
  moreover have "poisoned (stack_frame s base usz) a \<longleftrightarrow>
      \<not> (unat base + 16 \<le> unat a \<and> unat a < unat base + 16 + unat usz)"
    using a sz by (intro stack_frame_poison [OF r ok]) simp_all
  moreover have "poisoned (stack_frame s base usz) (a + sz - 1) \<longleftrightarrow>
      \<not> (unat base + 16 \<le> unat a + unat sz - 1 \<and> unat a + unat sz - 1 < unat base + 16 + unat usz)"
    using a sz by (subst stack_frame_poison [OF r ok]) (simp_all add: lst)
  ultimately show ?thesis
    using nb sz by (auto simp: redzone_check_eq [OF r'] check_report_def)
qed

lemma shadow_stack_frame:
  assumes r: "reserved s" and ok: "slot_ok base usz"
  shows "shadow_val (stack_frame s base usz) x =
    (if unat base div 8 + 2 \<le> unat x div 8 \<and> unat x div 8 < unat base div 8 + 2 + unat usz div 8 then 0
     else if unat x div 8 = unat base div 8 + 2 + unat usz div 8 \<and> unat usz mod 8 \<noteq> 0
       then of_nat (unat usz mod 8)
     else if unat base div 8 \<le> unat x div 8 \<and> unat x div 8 < (unat base + unat usz + 39) div 8
       then STACK_RZ
     else shadow_val s x)"
proof -
  note d = slot_okD [OF ok]
  have "unat (base + 16) div 8 = unat base div 8 + 2"
    unfolding d(3) using div_mult_self1 [of 8 "unat base" 2] by simp
  moreover have "unat base + unat (usz + 32) + 7 = unat base + unat usz + 39" by (simp add: d(4))
  ultimately show ?thesis
    using so.load_guarded [OF r d(2) d(5) d(6) d(7) d(8), of STACK_RZ x]
    by (simp only: stack_frame_def)
qed

section \<open>Changes that keep the heap invariant\<close>

text \<open>Writing application memory outside the guard bytes of every block.\<close>

lemma heap_wf_mem:
  assumes wf: "heap_wf s"
    and keep: "\<And>b x :: u64. b \<in> set (blocks s) \<Longrightarrow> in_block b (unat x) \<Longrightarrow> \<not> in_user b (unat x) \<Longrightarrow> m' x = mem s x"
  shows "heap_wf (s\<lparr>mem := m'\<rparr>)"
proof -
  have ok: "\<forall>b \<in> set (blocks s). block_ok b" using heap_wfD(6) [OF wf] by blast
  have "headers_ok (s\<lparr>mem := m'\<rparr>)"
    using headers_frame [OF ok keep] heap_wfD(4) [OF wf] by (simp add: headers_ok_def)
  then show ?thesis using wf by (simp add: heap_wf_def shadow_ok_def)
qed

text \<open>Changing the shadow outside the chunks of every block.\<close>

lemma heap_wf_shadow:
  assumes wf: "heap_wf s" and s': "blocks s' = blocks s" "mem s' = mem s" "reserved s'" "\<not> lock_held s'"
    and keep: "\<And>b x :: u64. b \<in> set (blocks s) \<Longrightarrow> in_chunks b (unat x div 8) \<Longrightarrow> shadow_val s' x = shadow_val s x"
  shows "heap_wf s'"
  using wf keep by (auto simp: heap_wf_def shadow_ok_def headers_ok_def s')

definition slot_apart :: "u64 \<Rightarrow> u64 \<Rightarrow> rt \<Rightarrow> bool" where
  "slot_apart base usz s \<longleftrightarrow> (\<forall>b \<in> set (blocks s). apart base (usz + 32) b)"

lemma slot_apart_chunks:
  assumes wf: "heap_wf s" and ok: "slot_ok base usz" and ap: "slot_apart base usz s"
    and b: "b \<in> set (blocks s)" "in_chunks b c"
  shows "c < unat base div 8 \<or> (unat base + unat usz + 39) div 8 \<le> c"
proof -
  note d = slot_okD [OF ok]
  have "unat base + unat (usz + 32) + 7 = unat base + unat usz + 39" by (simp add: d(4))
  moreover have "apart base (usz + 32) b" using ap b by (simp add: slot_apart_def)
  ultimately show ?thesis
    using apart_chunks [OF _ d(1) heap_wfD(6) [OF wf b(1)] b(2), of "usz + 32"] by auto
qed

lemma stack_enter_wf:
  assumes wf: "heap_wf s" and ok: "slot_ok base usz" and ap: "slot_apart base usz s"
  shows "heap_wf (stack_frame s base usz)"
proof (rule heap_wf_shadow [OF wf])
  note h = heap_wfD [OF wf]
  show "blocks (stack_frame s base usz) = blocks s" "mem (stack_frame s base usz) = mem s"
    "reserved (stack_frame s base usz)" "\<not> lock_held (stack_frame s base usz)"
    using h(1,2) by (simp_all add: stack_frame_def)
  show "shadow_val (stack_frame s base usz) x = shadow_val s x"
    if "b \<in> set (blocks s)" "in_chunks b (unat x div 8)" for b and x :: u64
    by (rule stack_frame_outside [OF h(1) ok slot_apart_chunks [OF wf ok ap that]])
qed

lemma stack_leave_wf:
  assumes wf: "heap_wf s" and ok: "slot_ok base usz" and ap: "slot_apart base usz s"
  shows "heap_wf (fill s base (usz + 32) 0)"
proof (rule heap_wf_shadow [OF wf])
  note h = heap_wfD [OF wf]
  show "blocks (fill s base (usz + 32) 0) = blocks s" "mem (fill s base (usz + 32) 0) = mem s"
    "reserved (fill s base (usz + 32) 0)" "\<not> lock_held (fill s base (usz + 32) 0)"
    using h(1,2) by simp_all
  show "shadow_val (fill s base (usz + 32) 0) x = shadow_val s x"
    if "b \<in> set (blocks s)" "in_chunks b (unat x div 8)" for b and x :: u64
    using slot_apart_chunks [OF wf ok ap that] by (auto simp: stack_leave_val [OF h(1) ok])
qed

end
