(* ===== verification/RZ_HeapOps.thy ===== *)
theory RZ_HeapOps
  imports RZ_Check
begin

text \<open>
  The allocator family on a well-formed heap, branch by branch: what \<^verbatim>\<open>malloc\<close>, \<^verbatim>\<open>calloc\<close>,
  \<^verbatim>\<open>aligned_alloc\<close>, \<^verbatim>\<open>posix_memalign\<close>, \<^verbatim>\<open>realloc\<close> and \<^verbatim>\<open>free\<close> return and leave
  behind.
\<close>

section \<open>Writing inside one block\<close>

lemma user_write_wf:
  assumes wf: "heap_wf s" and i: "i < length (blocks s)"
    and keep: "\<And>x :: u64. \<not> in_user (blocks s ! i) (unat x) \<Longrightarrow> m' x = mem s x"
  shows "heap_wf (s\<lparr>mem := m'\<rparr>)"
proof (rule heap_wf_mem [OF wf])
  note w = heap_wfD [OF wf]
  fix b and x :: u64
  assume b: "b \<in> set (blocks s)" "in_block b (unat x)" "\<not> in_user b (unat x)"
  then obtain j where j: "j < length (blocks s)" "b = blocks s ! j" by (auto simp: in_set_conv_nth)
  have "\<not> in_user (blocks s ! i) (unat x)"
  proof
    assume u: "in_user (blocks s ! i) (unat x)"
    then have "in_block (blocks s ! i) (unat x)" using w(6) i by (intro in_user_in_block) auto
    then have "i = j" using separate_unique [OF _ w(3) i j(1)] b(2) j(2) w(6) by blast
    then show False using u b(3) j(2) by simp
  qed
  then show "m' x = mem s x" by (rule keep)
qed

lemma in_span_user:
  assumes "block_ok b" and "unat n \<le> unat (user_size b)" and "in_span (user_addr b) (unat n) x"
  shows "in_user b (unat x)"
proof -
  have "unat (user_addr b) + unat n \<le> 18446744073709551616"
    using assms(2) block_okD(5,6) [OF assms(1)] by linarith
  then show ?thesis using assms(2,3) by (simp add: in_span_nowrap in_user_def)
qed

lemma user_offset:
  assumes "block_ok b" and "k < unat (user_size b)"
  shows "unat (user_addr b + of_nat k) = unat (user_addr b) + k"
    and "in_user b (unat (user_addr b + of_nat k))"
proof -
  have "k < 18446744073709551616" using assms(2) less_trans unat_bound64 by blast
  then have "unat (of_nat k :: u64) = k" by (simp add: unat_of_nat)
  then show u: "unat (user_addr b + of_nat k) = unat (user_addr b) + k"
    using assms(2) block_okD(5,6) [OF assms(1)] by (subst unat_plus64) linarith+
  show "in_user b (unat (user_addr b + of_nat k))" using assms(2) by (simp add: in_user_def u)
qed

section \<open>Allocation\<close>

text \<open>\<open>fresh s sz align p s'\<close>: one more live block, at \<open>p\<close>, and no other change.\<close>

definition fresh :: "rt \<Rightarrow> u64 \<Rightarrow> nat \<Rightarrow> cstr \<Rightarrow> int \<Rightarrow> u64 \<Rightarrow> rt \<Rightarrow> bool" where
  "fresh s sz align file line p s' \<longleftrightarrow>
     heap_wf s' \<and> in_runtime s' = in_runtime s \<and> p \<noteq> 0 \<and> unat p mod align = 0
     \<and> length (blocks s') = Suc (length (blocks s))
     \<and> (\<forall>i < length (blocks s). blocks s' ! i = blocks s ! i)
     \<and> user_addr (blocks s' ! length (blocks s)) = p
     \<and> user_size (blocks s' ! length (blocks s)) = sz
     \<and> \<not> freed (blocks s' ! length (blocks s))
     \<and> alloc_file (blocks s' ! length (blocks s)) = file
     \<and> alloc_line (blocks s' ! length (blocks s)) = line"

lemma freshD:
  assumes "fresh s sz align file line p s'"
  shows "heap_wf s'" "p \<noteq> 0" "length (blocks s') = Suc (length (blocks s))"
    "i < length (blocks s) \<Longrightarrow> blocks s' ! i = blocks s ! i"
    "user_addr (blocks s' ! length (blocks s)) = p"
    "user_size (blocks s' ! length (blocks s)) = sz"
    "\<not> freed (blocks s' ! length (blocks s))"
    "block_ok (blocks s' ! length (blocks s))"
    "length (blocks s) < length (blocks s')"
    "in_runtime s' = in_runtime s"
  using assms heap_wfD(6) [of s'] by (auto simp: fresh_def)

lemma alloc_result_fresh:
  assumes wf: "heap_wf s" and k: "4 \<le> k" "k < 64"
    and g: "\<not> sz > SIZE_MAX - 2 * REDZONE_SIZE - alloc_slack (2 ^ k)"
    and al: "unat base mod 16 = 0" and lim: "unat base + unat (alloc_total sz (2 ^ k)) \<le> 140737488355328"
    and ap: "\<forall>b \<in> set (blocks s). apart base (alloc_total sz (2 ^ k)) b"
  shows "fresh s sz (2 ^ k) file line (alloc_user base (2 ^ k)) (alloc_result base sz (2 ^ k) file line s)"
    and "in_user (blocks s ! i) (unat x) \<Longrightarrow> i < length (blocks s) \<Longrightarrow>
      mem (alloc_result base sz (2 ^ k) file line s) x = mem s x"
proof -
  let ?r = "alloc_result base sz (2 ^ k) file line s" and ?b = "new_block base sz (2 ^ k) file line"
  have b: "blocks ?r = blocks s @ [?b]" by (simp add: alloc_result_def)
  note lay = alloc_layout [OF k al g lim]
  have "alloc_user base (2 ^ k) \<noteq> 0" using lay(3) by auto
  with alloc_result_wf [OF wf k g al lim ap] lay(1)
  show "fresh s sz (2 ^ k) file line (alloc_user base (2 ^ k)) ?r"
    by (simp add: fresh_def b nth_append new_block_def) (simp add: alloc_result_def)
  assume u: "in_user (blocks s ! i) (unat x)" and i: "i < length (blocks s)"
  have ib: "in_block (blocks s ! i) (unat x)"
    using u heap_wfD(6) [OF wf nth_mem [OF i]] by (simp add: in_user_in_block)
  have "apart base (alloc_total sz (2 ^ k)) (blocks s ! i)" using ap i by simp
  then have out: "\<not> (unat base \<le> unat x \<and> unat x < unat base + unat (alloc_total sz (2 ^ k)))"
    using ib apart_blocks by blast
  have h: "unat (alloc_user base (2 ^ k) - 16) = unat (alloc_user base (2 ^ k)) - 16"
    using lay(3) by (simp add: unat_minus64)
  have nw: "unat (alloc_user base (2 ^ k) - 16) + 16 \<le> 18446744073709551616"
    unfolding h using lay(3,4) lim by linarith
  have "\<not> in_span (alloc_user base (2 ^ k) - 16) 16 x"
    using out lay(3,4) by (simp add: in_span_nowrap [OF nw] h) linarith
  then show "mem ?r x = mem s x" by (simp add: alloc_result_def write_header_outside [OF nw])
qed

lemma rz_allocate_cases:
  assumes wf: "heap_wf s" and so: "sys_ok sys s" and k: "4 \<le> k" "k < 64"
  obtains
    (fails) "rz_allocate sys sz (2 ^ k) file line s = Done (0, s)"
  | (no_memory) "rz_allocate sys sz (2 ^ k) file line s = Halt OutOfMemoryTracking"
      "g_count s = cap s" "\<not> sys_realloc_ok sys"
  | (ok) p s' where "rz_allocate sys sz (2 ^ k) file line s = Done (p, s')"
      "fresh s sz (2 ^ k) file line p s'"
      "\<And>i x. i < length (blocks s) \<Longrightarrow> in_user (blocks s ! i) (unat x) \<Longrightarrow> mem s' x = mem s x"
proof -
  note w = heap_wfD [OF wf]
  let ?n = "alloc_total sz (2 ^ k)" let ?base = "sys_malloc sys ?n"
  note eq = rz_allocate_eq [OF w(1,2)]
  consider "sz > SIZE_MAX - 2 * REDZONE_SIZE - alloc_slack (2 ^ k) \<or> ?base = 0"
    | "\<not> sz > SIZE_MAX - 2 * REDZONE_SIZE - alloc_slack (2 ^ k)" "?base \<noteq> 0"
      "g_count s = cap s" "\<not> sys_realloc_ok sys"
    | "\<not> sz > SIZE_MAX - 2 * REDZONE_SIZE - alloc_slack (2 ^ k)" "?base \<noteq> 0"
      "\<not> (g_count s = cap s \<and> \<not> sys_realloc_ok sys)"
    by blast
  then show thesis
  proof cases
    case 1
    then show ?thesis using fails unfolding eq by (auto split: if_splits)
  next
    case 2
    then show ?thesis using no_memory unfolding eq by (auto split: if_splits)
  next
    case 3
    have s: "unat ?base mod 16 = 0" "unat ?base + unat ?n \<le> 140737488355328"
      "\<forall>b \<in> set (blocks s). apart ?base ?n b"
      using so 3(2) by (simp_all add: sys_ok_def)
    note f = alloc_result_fresh [OF wf k 3(1) s]
    show ?thesis
      by (rule ok [OF _ f(1) f(2)]) (use 3 in \<open>simp_all only: eq if_False simp_thms\<close>)
  qed
qed

text \<open>The same for the entry points; all of them allocate with an alignment of at least 16.\<close>

definition kept :: "rt \<Rightarrow> rt \<Rightarrow> bool" where
  "kept s s' \<longleftrightarrow> (\<forall>i < length (blocks s). \<forall>x.
     in_user (blocks s ! i) (unat x) \<longrightarrow> mem s' x = mem s x)"

lemma redzone_malloc_cases:
  assumes wf: "heap_wf s" and so: "sys_ok sys s"
  obtains
    (fails) "redzone_malloc sys sz file line s = Done (0, s)"
  | (no_memory) "redzone_malloc sys sz file line s = Halt OutOfMemoryTracking"
  | (ok) p s' where "redzone_malloc sys sz file line s = Done (p, s')"
      "fresh s sz 16 file line p s'" "kept s s'"
proof -
  have e: "redzone_malloc sys sz file line s = rz_allocate sys sz (2 ^ 4) file line s"
    by (simp add: redzone_malloc_def REDZONE_SIZE_def)
  show thesis
    by (rule rz_allocate_cases [OF wf so, of 4 sz "file" line])
      (use fails no_memory ok in \<open>auto simp: e kept_def\<close>)
qed

lemma pow2_align:
  assumes "is_pow2 al"
  obtains k where "4 \<le> k" "k < 64" "(if al < REDZONE_SIZE then REDZONE_SIZE else al) = 2 ^ k"
    "unat al dvd 2 ^ k"
proof -
  obtain j where j: "j < 64" "al = 2 ^ j" using assms is_pow2_iff by blast
  show thesis
  proof (cases "al < REDZONE_SIZE")
    case True
    then have "(2 :: nat) ^ j < 2 ^ 4"
      using j by (simp add: word_less_nat_alt unat_pow2 REDZONE_SIZE_def)
    then have "j \<le> 4" by (rule order.strict_implies_order [OF power_less_imp_less_exp [rotated]]) simp
    then have "unat al dvd 2 ^ 4" unfolding j(2) unat_pow2 [OF j(1)] by (rule le_imp_power_dvd)
    with True show ?thesis by (intro that [of 4]) (simp_all add: REDZONE_SIZE_def)
  next
    case False
    then have "(2 :: nat) ^ 4 \<le> 2 ^ j"
      using j by (simp add: word_less_nat_alt unat_pow2 REDZONE_SIZE_def)
    then have "4 \<le> j" by (rule power_le_imp_le_exp [rotated]) simp
    with False j show ?thesis by (intro that [of j]) (simp_all add: unat_pow2)
  qed
qed

lemma fresh_align: "fresh s sz (2 ^ k) file line p s' \<Longrightarrow> a dvd 2 ^ k \<Longrightarrow> fresh s sz a file line p s'"
proof -
  assume f: "fresh s sz (2 ^ k) file line p s'" and a: "a dvd 2 ^ k"
  then have "2 ^ k dvd unat p" unfolding fresh_def by (blast dest: mod_0_imp_dvd)
  with a have "a dvd unat p" by (rule dvd_trans)
  then have "unat p mod a = 0" by (rule dvd_imp_mod_0)
  with f show ?thesis unfolding fresh_def by blast
qed

lemma aligned_alloc_cases:
  assumes wf: "heap_wf s" and so: "sys_ok sys s"
  obtains
    (fails) "redzone_aligned_alloc sys al sz file line s = Done (0, s)"
  | (no_memory) "is_pow2 al" "redzone_aligned_alloc sys al sz file line s = Halt OutOfMemoryTracking"
  | (ok) p s' where "is_pow2 al" "redzone_aligned_alloc sys al sz file line s = Done (p, s')"
      "fresh s sz (unat al) file line p s'" "kept s s'"
proof (cases "is_pow2 al")
  case False
  then show thesis using fails by (simp add: redzone_aligned_alloc_def)
next
  case True
  then obtain k where k: "4 \<le> k" "k < 64" and e: "(if al < REDZONE_SIZE then REDZONE_SIZE else al) = 2 ^ k"
    and d: "unat al dvd 2 ^ k" by (rule pow2_align)
  have eq: "redzone_aligned_alloc sys al sz file line s = rz_allocate sys sz (2 ^ k) file line s"
    using True by (simp add: redzone_aligned_alloc_def e)
  show thesis
    by (rule rz_allocate_cases [OF wf so k, of sz "file" line])
      (use fails no_memory ok True d fresh_align in \<open>auto simp: eq kept_def\<close>)
qed

section \<open>Calloc\<close>

lemma unat_mult64: "unat (a :: u64) * unat b < 18446744073709551616 \<Longrightarrow> unat (a * b) = unat a * unat b"
  by (simp add: unat_word_ariths)

lemma unat_size_max: "unat SIZE_MAX = 18446744073709551615"
by (simp add: SIZE_MAX_def unsigned_minus_1_eq_mask mask_eq_exp_minus_1)

lemma calloc_guard:
  assumes "\<not> (sz \<noteq> 0 \<and> n > SIZE_MAX div sz)"
  shows "unat (n * sz) = unat n * unat sz"
proof (cases "sz = 0")
  case False
  with assms have "unat n \<le> 18446744073709551615 div unat sz"
    by (auto simp: word_less_nat_alt unat_size_max unat_div)
  moreover have "0 < unat sz" using False by (simp add: unat_gt_0)
  ultimately have "unat n * unat sz \<le> 18446744073709551615" by (simp only: less_eq_div_iff_mult_less_eq)
  then show ?thesis by (intro unat_mult64) simp
qed simp

lemma calloc_guard_exact:
  "sz \<noteq> 0 \<and> n > SIZE_MAX div sz \<longleftrightarrow> 18446744073709551616 \<le> unat n * unat sz"
proof (cases "sz = 0")
  case False
  then have "0 < unat sz" by (simp add: unat_gt_0)
  then have "unat n \<le> 18446744073709551615 div unat sz \<longleftrightarrow> unat n * unat sz \<le> 18446744073709551615"
    by (simp only: less_eq_div_iff_mult_less_eq)
  moreover have "n > SIZE_MAX div sz \<longleftrightarrow> \<not> unat n \<le> 18446744073709551615 div unat sz"
    by (auto simp: word_less_nat_alt unat_size_max unat_div)
  ultimately show ?thesis using False by auto
qed simp

lemma calloc_cases:
  assumes wf: "heap_wf s" and so: "sys_ok sys s"
  obtains
    (fails) "redzone_calloc sys n sz file line s = Done (0, s)"
  | (no_memory) "redzone_calloc sys n sz file line s = Halt OutOfMemoryTracking"
  | (ok) p s' where "redzone_calloc sys n sz file line s = Done (p, s')"
      "unat (n * sz) = unat n * unat sz"
      "fresh s (n * sz) 16 file line p s'" "kept s s'"
      "\<And>k. k < unat n * unat sz \<Longrightarrow> mem s' (p + of_nat k) = 0"
proof (cases "sz \<noteq> 0 \<and> n > SIZE_MAX div sz")
  case True
  then show thesis using fails by (simp add: redzone_calloc_def)
next
  case False
  note tot = calloc_guard [OF False]
  have eq: "redzone_calloc sys n sz file line s =
      bindO (redzone_malloc sys (n * sz) file line s) (\<lambda>(p, s).
        if p \<noteq> 0 then Done (p, s\<lparr>mem := mem_set p 0 (n * sz) (mem s)\<rparr>) else Done (p, s))"
    unfolding redzone_calloc_def Let_def using False by (simp only: if_False)
  show thesis
  proof (rule redzone_malloc_cases [OF wf so, of "n * sz" "file" line])
    fix p s'
    assume m: "redzone_malloc sys (n * sz) file line s = Done (p, s')"
      and f: "fresh s (n * sz) 16 file line p s'" and kp: "kept s s'"
    note fd = freshD [OF f]
    let ?s = "s'\<lparr>mem := mem_set p 0 (n * sz) (mem s')\<rparr>" let ?b = "blocks s' ! length (blocks s)"
    have inu: "in_user ?b (unat x)" if "in_span p (unat (n * sz)) x" for x
      using in_span_user [OF fd(8), of "n * sz" x] that by (simp add: fd(5,6))
    have "heap_wf ?s"
      by (rule user_write_wf [OF fd(1) fd(9)]) (use inu in \<open>auto simp: mem_set_def\<close>)
    then have f': "fresh s (n * sz) 16 file line p ?s" using f by (simp add: fresh_def)
    have "kept s ?s"
      unfolding kept_def
    proof (intro allI impI)
      fix i and x :: u64 assume i: "i < length (blocks s)" and u: "in_user (blocks s ! i) (unat x)"
      have "\<not> in_user ?b (unat x)"
        using separate_unique [of "blocks s'" i "length (blocks s)" "unat x"] heap_wfD [OF fd(1)] i u
          in_user_in_block fd(3,4) by (metis less_SucI lessI nat_neq_iff nth_mem)
      then show "mem ?s x = mem s x" using inu kp i u by (auto simp: kept_def mem_set_def)
    qed
    moreover have "mem ?s (p + of_nat k) = 0" if "k < unat n * unat sz" for k
    proof -
      have "k < 18446744073709551616" using that tot unat_bound64 [of "n * sz"] by linarith
      then have "unat (of_nat k :: u64) = k" by (simp add: unat_of_nat)
      then show ?thesis using that tot by (simp add: mem_set_def in_span_def)
    qed
    ultimately show thesis using m fd(2) f' tot by (intro ok [of p ?s]) (simp_all add: eq)
  qed (use fails no_memory in \<open>auto simp: eq\<close>)
qed

section \<open>Posix memalign\<close>

lemma posix_memalign_cases:
  assumes wf: "heap_wf s" and so: "sys_ok sys s"
  obtains
    (einval) "redzone_posix_memalign sys memptr al sz file line s = Done (EINVAL, s)"
      "memptr = 0 \<or> \<not> is_pow2 al \<or> unat al mod 8 \<noteq> 0"
  | (enomem) "redzone_posix_memalign sys memptr al sz file line s = Done (ENOMEM, s)"
      "memptr \<noteq> 0" "is_pow2 al" "unat al mod 8 = 0"
  | (no_memory) "redzone_posix_memalign sys memptr al sz file line s = Halt OutOfMemoryTracking"
      "memptr \<noteq> 0" "is_pow2 al" "unat al mod 8 = 0"
  | (ok) p s' where "redzone_posix_memalign sys memptr al sz file line s =
        Done (0, s'\<lparr>mem := store64 (mem s') memptr p\<rparr>)"
      "memptr \<noteq> 0" "is_pow2 al" "unat al mod 8 = 0"
      "fresh s sz (unat al) file line p s'" "kept s s'"
proof -
  have m: "al mod SIZEOF_VOIDP \<noteq> 0 \<longleftrightarrow> unat al mod 8 \<noteq> 0"
    by (simp add: SIZEOF_VOIDP_def word_unat_eq_iff unat_mod)
  show thesis
  proof (cases "memptr = 0 \<or> \<not> is_pow2 al \<or> unat al mod 8 \<noteq> 0")
    case True
    then show thesis by (intro einval) (auto simp: redzone_posix_memalign_def m)
  next
    case False
    then have p: "memptr \<noteq> 0" "is_pow2 al" "unat al mod 8 = 0" by auto
    obtain k where k: "4 \<le> k" "k < 64" and e: "(if al < REDZONE_SIZE then REDZONE_SIZE else al) = 2 ^ k"
      and d: "unat al dvd 2 ^ k" using p(2) by (rule pow2_align)
    have eq: "redzone_posix_memalign sys memptr al sz file line s =
        bindO (rz_allocate sys sz (2 ^ k) file line s) (\<lambda>(p, s).
          if p = 0 then Done (ENOMEM, s) else Done (0, s\<lparr>mem := store64 (mem s) memptr p\<rparr>))"
      unfolding redzone_posix_memalign_def e m Let_def using p by simp
    show thesis
    proof (rule rz_allocate_cases [OF wf so k, of sz "file" line])
      fix q s'
      assume a: "rz_allocate sys sz (2 ^ k) file line s = Done (q, s')"
        and f: "fresh s sz (2 ^ k) file line q s'"
        and kp: "\<And>i x. i < length (blocks s) \<Longrightarrow> in_user (blocks s ! i) (unat x) \<Longrightarrow> mem s' x = mem s x"
      show thesis
        by (rule ok [OF _ p fresh_align [OF f d]])
          (use a kp freshD(2) [OF f] in \<open>simp_all add: eq kept_def\<close>)
    qed (use enomem no_memory p in \<open>auto simp: eq\<close>)
  qed
qed

section \<open>Realloc\<close>

definition realloc_copy :: "nat option \<Rightarrow> u64 \<Rightarrow> rt \<Rightarrow> u64" where
  "realloc_copy old sz s =
     (case old of None \<Rightarrow> 0
      | Some i \<Rightarrow> if \<not> freed (blocks s ! i) then min (user_size (blocks s ! i)) sz else 0)"

definition moved :: "u64 \<Rightarrow> u64 \<Rightarrow> u64 \<Rightarrow> rt \<Rightarrow> rt" where
  "moved np ptr n s = s\<lparr>mem := mem_move np ptr n (mem s)\<rparr>"

lemma moved_fields [simp]:
  "blocks (moved np ptr n s) = blocks s" "lock_held (moved np ptr n s) = lock_held s"
  "reserved (moved np ptr n s) = reserved s" "shadow_val (moved np ptr n s) = shadow_val s"
  "in_runtime (moved np ptr n s) = in_runtime s"
  "mem (moved np ptr n s) = mem_move np ptr n (mem s)"
  by (simp_all add: moved_def)

lemma mem_move_0 [simp]: "mem_move np ptr 0 m = m"
  by (simp add: mem_move_def in_span_def)

lemma realloc_eq:
  assumes p: "ptr \<noteq> 0" and sz: "sz \<noteq> 0"
    and m: "redzone_malloc sys sz file line s = Done (np, s1)" and np: "np \<noteq> 0"
    and r: "reserved s1" and l: "\<not> lock_held s1"
  shows "redzone_realloc sys ptr sz file line s =
    (let old = (case lookup_user s1 ptr of None \<Rightarrow> find_block ptr s1 | Some i \<Rightarrow> Some i) in
     bindO (redzone_free sys ptr (moved np ptr (realloc_copy old sz s1) s1)) (\<lambda>s. Done (np, s)))"
proof -
  have u: "table_unlock (s1\<lparr>lock_held := True, in_runtime := in_runtime s1 + 1\<rparr>) = s1"
    using l by simp
  show ?thesis
    using p sz np r l u
    by (auto simp: redzone_realloc_def m realloc_copy_def moved_def Let_def min_def not_le
        split: option.splits)
qed

lemma realloc_malloc_fails:
  "ptr \<noteq> 0 \<Longrightarrow> sz \<noteq> 0 \<Longrightarrow> redzone_malloc sys sz file line s = Done (0, s') \<Longrightarrow>
    redzone_realloc sys ptr sz file line s = Done (0, s')"
  by (simp add: redzone_realloc_def)

lemma realloc_malloc_halts:
  "ptr \<noteq> 0 \<Longrightarrow> sz \<noteq> 0 \<Longrightarrow> redzone_malloc sys sz file line s = Halt h \<Longrightarrow>
    redzone_realloc sys ptr sz file line s = Halt h"
  by (simp add: redzone_realloc_def)

lemma realloc_null: "redzone_realloc sys 0 sz file line s = redzone_malloc sys sz file line s"
  by (simp add: redzone_realloc_def)

lemma realloc_zero:
  "ptr \<noteq> 0 \<Longrightarrow> redzone_realloc sys ptr 0 file line s = bindO (redzone_free sys ptr s) (\<lambda>s. Done (0, s))"
  by (simp add: redzone_realloc_def)

text \<open>The copy stays inside the new block.\<close>

lemma realloc_copy_le: "unat (realloc_copy old sz s) \<le> unat sz"
  by (auto simp: realloc_copy_def min_def word_le_nat_alt split: option.split)

lemma moved_wf:
  assumes f: "fresh s sz al file line np s1" and n: "unat n \<le> unat sz"
  shows "heap_wf (moved np ptr n s1)"
proof -
  note fd = freshD [OF f]
  have "in_user (blocks s1 ! length (blocks s)) (unat x)" if "in_span np (unat n) x" for x
    using in_span_user [OF fd(8), of n x] that n by (simp add: fd(5,6))
  then show ?thesis
    unfolding moved_def by (intro user_write_wf [OF fd(1,9)]) (auto simp: mem_move_def)
qed

lemma fresh_lookup:
  assumes wf: "heap_wf s" and f: "fresh s sz al file line np s1" and i: "i < length (blocks s)"
    and u: "user_addr (blocks s ! i) = ptr"
  shows "lookup_user s1 ptr = Some i" and "lookup_user (moved np ptr (realloc_copy old sz s1) s1) ptr = Some i"
proof -
  note fd = freshD [OF f]
  have j: "i < length (blocks s1)" "user_addr (blocks s1 ! i) = ptr" using i u fd(3,4) by auto
  show "lookup_user s1 ptr = Some i" using br.back_complete [OF fd(1) j(1)] j(2) by simp
  have "heap_wf (moved np ptr (realloc_copy old sz s1) s1)"
    by (rule moved_wf [OF f realloc_copy_le])
  from br.back_complete [OF this, of i] j
  show "lookup_user (moved np ptr (realloc_copy old sz s1) s1) ptr = Some i" by simp
qed

lemma realloc_live:
  assumes wf: "heap_wf s" and i: "i < length (blocks s)" "user_addr (blocks s ! i) = ptr"
    and live: "\<not> freed (blocks s ! i)" and sz: "sz \<noteq> 0"
    and m: "redzone_malloc sys sz file line s = Done (np, s1)" and f: "fresh s sz 16 file line np s1"
    and kp: "kept s s1"
  defines "s' \<equiv> freed_result i (moved np ptr (min (user_size (blocks s ! i)) sz) s1)"
  shows "redzone_realloc sys ptr sz file line s = Done (np, s')"
    and "heap_wf s'"
    and "k < unat (user_size (blocks s ! i)) \<Longrightarrow> k < unat sz \<Longrightarrow>
      mem s' (np + of_nat k) = mem s (ptr + of_nat k)"
proof -
  note fd = freshD [OF f]
  have bi: "blocks s1 ! i = blocks s ! i" "i < length (blocks s1)" using i fd(3,4) by auto
  have ok: "block_ok (blocks s ! i)" using heap_wfD(6) [OF wf] i by simp
  have p: "ptr \<noteq> 0" using block_okD(3) [OF ok] i(2) by auto
  have c: "realloc_copy (Some i) sz s1 = min (user_size (blocks s ! i)) sz"
    by (simp add: realloc_copy_def bi live)
  note w1 = heap_wfD [OF fd(1)]
  let ?s2 = "moved np ptr (min (user_size (blocks s ! i)) sz) s1"
  have wf2: "heap_wf ?s2" using moved_wf [OF f realloc_copy_le] c by metis
  have lk: "lookup_user s1 ptr = Some i" "lookup_user ?s2 ptr = Some i"
    using fresh_lookup [OF wf f i] c by metis+
  have "redzone_free sys ptr ?s2 = Done s'"
    using p lk(2) live by (simp add: redzone_free_eq [OF wf2] s'_def bi)
  then show "redzone_realloc sys ptr sz file line s = Done (np, s')"
    using realloc_eq [OF p sz m fd(2) w1(1,2)] lk(1) c by simp
  show "heap_wf s'" unfolding s'_def by (rule freed_result_wf [OF wf2]) (use bi in simp)
  assume k: "k < unat (user_size (blocks s ! i))" "k < unat sz"
  have "unat (of_nat k :: u64) = k" using k less_trans [OF k(2) unat_bound64] by (simp add: unat_of_nat)
  then have "in_span np (unat (min (user_size (blocks s ! i)) sz)) (np + of_nat k)"
    using k by (auto simp: in_span_def min_def)
  then have "mem s' (np + of_nat k) = mem s1 (ptr + of_nat k)"
    by (simp add: s'_def mem_move_def)
  also have "\<dots> = mem s (ptr + of_nat k)"
    using kp i user_offset(2) [OF ok k(1)] by (simp add: kept_def)
  finally show "mem s' (np + of_nat k) = mem s (ptr + of_nat k)" .
qed

text \<open>Reallocating an address the table does not know, and one inside a block.\<close>

lemma realloc_foreign:
  assumes wf: "heap_wf s" and p: "ptr \<noteq> 0" and sz: "sz \<noteq> 0"
    and out: "\<forall>b \<in> set (blocks s). \<not> in_block b (unat ptr)"
    and m: "redzone_malloc sys sz file line s = Done (np, s1)" and f: "fresh s sz 16 file line np s1"
    and ne: "\<not> in_block (blocks s1 ! length (blocks s)) (unat ptr)"
  shows "redzone_realloc sys ptr sz file line s = Done (np, s1)"
proof -
  note fd = freshD [OF f]
  note w1 = heap_wfD [OF fd(1)]
  have "\<not> in_block b (unat ptr)" if "b \<in> set (blocks s1)" for b
  proof -
    from that obtain j where "j < length (blocks s1)" "blocks s1 ! j = b"
      by (auto simp: in_set_conv_nth)
    then show ?thesis
      using out ne fd(3,4) by (cases "j = length (blocks s)") (auto simp: less_Suc_eq)
  qed
  then have nf: "find_block ptr s1 = None" using find_block_none [OF fd(1)] by blast
  have lk: "lookup_user s1 ptr = None"
  proof (cases "lookup_user s1 ptr")
    case (Some i)
    then have "i < length (blocks s1)" "user_addr (blocks s1 ! i) = ptr"
      using br.back_sound [OF fd(1)] by blast+
    moreover from this have "in_block (blocks s1 ! i) (unat ptr)"
      using block_okD(4,5) [of "blocks s1 ! i"] w1(6) by (auto simp: in_block_def)
    ultimately have "find_block ptr s1 = Some i" using find_block_unique [OF fd(1), of ptr i] by blast
    with nf show ?thesis by simp
  qed
  show ?thesis
    unfolding realloc_eq [OF p sz m fd(2) w1(1,2)]
    using p nf lk by (simp add: redzone_free_eq [OF fd(1)] realloc_copy_def Let_def moved_def)
qed

text \<open>Every outcome of \<^verbatim>\<open>realloc\<close> and of \<^verbatim>\<open>free\<close> leaves the heap well formed.\<close>

lemma free_keeps:
  assumes wf: "heap_wf s" and d: "redzone_free sys ptr s = Done s'"
  obtains (same) "s' = s" | (freed) i where "i < length (blocks s)" "\<not> freed (blocks s ! i)"
    "user_addr (blocks s ! i) = ptr" "s' = freed_result i s"
proof (cases "ptr = 0 \<or> lookup_user s ptr = None")
  case True
  then have "s' = s" using d by (auto simp: redzone_free_eq [OF wf] split: if_splits option.splits)
  then show thesis by (rule same)
next
  case False
  then obtain i where i: "lookup_user s ptr = Some i" "ptr \<noteq> 0" by auto
  then have "\<not> freed (blocks s ! i) \<and> s' = freed_result i s"
    using d by (simp add: redzone_free_eq [OF wf] split: if_splits)
  with br.back_sound [OF wf i(1)] show thesis by (intro freed) auto
qed

lemma free_wf:
  assumes "heap_wf s" and "redzone_free sys ptr s = Done s'"
  shows "heap_wf s'"
  using assms by (rule free_keeps) (use assms(1) freed_result_wf in auto)

section \<open>How the table evolves\<close>

text \<open>Blocks are never dropped or moved, and a freed block stays freed.\<close>

definition table_grows :: "rt \<Rightarrow> rt \<Rightarrow> bool" where
  "table_grows s s' \<longleftrightarrow> length (blocks s) \<le> length (blocks s')
     \<and> (\<forall>i < length (blocks s). blocks s' ! i = blocks s ! i
          \<or> blocks s' ! i = (blocks s ! i)\<lparr>freed := True\<rparr>)"

lemma table_grows_refl [simp]: "blocks s' = blocks s \<Longrightarrow> table_grows s s'"
  by (simp add: table_grows_def)

lemma table_grows_trans:
  assumes "table_grows s s'" and "table_grows s' s''"
  shows "table_grows s s''"
proof -
  have "blocks s'' ! i = blocks s ! i \<or> blocks s'' ! i = (blocks s ! i)\<lparr>freed := True\<rparr>"
    if "i < length (blocks s)" for i
  proof -
    have "blocks s' ! i = blocks s ! i \<or> blocks s' ! i = (blocks s ! i)\<lparr>freed := True\<rparr>"
      "blocks s'' ! i = blocks s' ! i \<or> blocks s'' ! i = (blocks s' ! i)\<lparr>freed := True\<rparr>"
      using assms that by (auto simp: table_grows_def)
    then show ?thesis by auto
  qed
  then show ?thesis using assms by (simp add: table_grows_def)
qed

lemma table_grows_fresh: "fresh s sz al file line p s' \<Longrightarrow> table_grows s s'"
  by (simp add: fresh_def table_grows_def)

lemma table_grows_freed: "table_grows s (freed_result i s)"
proof -
  have e: "blocks (freed_result i s) ! j = blocks s ! j
      \<or> blocks (freed_result i s) ! j = (blocks s ! j)\<lparr>freed := True\<rparr>" if "j < length (blocks s)" for j
    using that by (cases "i = j") simp_all
  show ?thesis unfolding table_grows_def using e by simp
qed

lemma table_grows_free:
  assumes "heap_wf s" and "redzone_free sys ptr s = Done s'"
  shows "table_grows s s'"
  using assms by (rule free_keeps) (auto intro: table_grows_freed)

lemma table_growsD:
  assumes "table_grows s s'" and "i < length (blocks s)"
  shows "i < length (blocks s')" "real_base (blocks s' ! i) = real_base (blocks s ! i)"
    "total_size (blocks s' ! i) = total_size (blocks s ! i)"
    "user_addr (blocks s' ! i) = user_addr (blocks s ! i)"
    "user_size (blocks s' ! i) = user_size (blocks s ! i)"
    "freed (blocks s ! i) \<Longrightarrow> freed (blocks s' ! i)"
proof -
  have "blocks s' ! i = blocks s ! i \<or> blocks s' ! i = (blocks s ! i)\<lparr>freed := True\<rparr>"
    and l: "i < length (blocks s')" using assms by (auto simp: table_grows_def)
  then show "i < length (blocks s')" "real_base (blocks s' ! i) = real_base (blocks s ! i)"
    "total_size (blocks s' ! i) = total_size (blocks s ! i)"
    "user_addr (blocks s' ! i) = user_addr (blocks s ! i)"
    "user_size (blocks s' ! i) = user_size (blocks s ! i)"
    "freed (blocks s ! i) \<Longrightarrow> freed (blocks s' ! i)"
    by auto
qed

definition good_step :: "rt \<Rightarrow> rt \<Rightarrow> bool" where
  "good_step s s' \<longleftrightarrow> heap_wf s' \<and> table_grows s s' \<and> in_runtime s' = in_runtime s"

lemma good_stepI: "heap_wf s' \<Longrightarrow> table_grows s s' \<Longrightarrow> in_runtime s' = in_runtime s \<Longrightarrow> good_step s s'"
  by (simp add: good_step_def)

lemma malloc_good:
  assumes "heap_wf s" and "sys_ok sys s" and "redzone_malloc sys sz file line s = Done (p, s')"
  shows "good_step s s'"
proof (rule redzone_malloc_cases [OF assms(1,2), of sz "file" line])
  assume "redzone_malloc sys sz file line s = Done (0, s)"
  then show ?thesis using assms by (simp add: good_step_def)
next
  fix q t assume "redzone_malloc sys sz file line s = Done (q, t)" and f: "fresh s sz 16 file line q t"
  then show ?thesis using assms(3) freshD(1,10) [OF f] table_grows_fresh [OF f] by (simp add: good_step_def)
qed (use assms in simp)

lemma calloc_good:
  assumes "heap_wf s" and "sys_ok sys s" and "redzone_calloc sys n sz file line s = Done (p, s')"
  shows "good_step s s'"
proof (rule calloc_cases [OF assms(1,2), of n sz "file" line])
  assume "redzone_calloc sys n sz file line s = Done (0, s)"
  then show ?thesis using assms by (simp add: good_step_def)
next
  fix q t assume "redzone_calloc sys n sz file line s = Done (q, t)" and f: "fresh s (n * sz) 16 file line q t"
  then show ?thesis using assms(3) freshD(1,10) [OF f] table_grows_fresh [OF f] by (simp add: good_step_def)
qed (use assms in simp)

lemma aligned_alloc_good:
  assumes "heap_wf s" and "sys_ok sys s" and "redzone_aligned_alloc sys al sz file line s = Done (p, s')"
  shows "good_step s s'"
proof (rule aligned_alloc_cases [OF assms(1,2), of al sz "file" line])
  assume "redzone_aligned_alloc sys al sz file line s = Done (0, s)"
  then show ?thesis using assms by (simp add: good_step_def)
next
  fix q t assume "redzone_aligned_alloc sys al sz file line s = Done (q, t)"
    and f: "fresh s sz (unat al) file line q t"
  then show ?thesis using assms(3) freshD(1,10) [OF f] table_grows_fresh [OF f] by (simp add: good_step_def)
qed (use assms in simp)

lemma free_good:
  assumes "heap_wf s" and "redzone_free sys ptr s = Done s'"
  shows "good_step s s'"
proof -
  have "in_runtime s' = in_runtime s" using assms by (rule free_keeps) simp_all
  with free_wf [OF assms] table_grows_free [OF assms] show ?thesis by (rule good_stepI)
qed

lemma realloc_good:
  assumes wf: "heap_wf s" and so: "sys_ok sys s" and d: "redzone_realloc sys ptr sz file line s = Done (np, s')"
  shows "good_step s s'"
proof -
  consider "ptr = 0" | "ptr \<noteq> 0" "sz = 0" | "ptr \<noteq> 0" "sz \<noteq> 0" by blast
  then show ?thesis
  proof cases
    case 1
    then show ?thesis using malloc_good [OF wf so] d by (simp add: realloc_null)
  next
    case 2
    then have "redzone_free sys ptr s = Done s'" using d by (auto simp: realloc_zero bindO_Done_iff)
    then show ?thesis by (rule free_good [OF wf])
  next
    case 3
    show ?thesis
    proof (rule redzone_malloc_cases [OF wf so, of sz "file" line])
      assume "redzone_malloc sys sz file line s = Done (0, s)"
      from realloc_malloc_fails [OF 3 this] d wf show ?thesis by (simp add: good_step_def)
    next
      assume "redzone_malloc sys sz file line s = Halt OutOfMemoryTracking"
      from realloc_malloc_halts [OF 3 this] d show ?thesis by simp
    next
      fix q t assume m: "redzone_malloc sys sz file line s = Done (q, t)" and f: "fresh s sz 16 file line q t"
      note fd = freshD [OF f]
      note w1 = heap_wfD [OF fd(1)]
      obtain old where fr: "redzone_free sys ptr (moved q ptr (realloc_copy old sz t) t) = Done s'"
        using d realloc_eq [OF 3 m fd(2) w1(1,2)] by (auto simp: Let_def bindO_Done_iff)
      have wf2: "heap_wf (moved q ptr (realloc_copy old sz t) t)" by (rule moved_wf [OF f realloc_copy_le])
      have "table_grows s (moved q ptr (realloc_copy old sz t) t)"
        using table_grows_fresh [OF f] by (simp add: table_grows_def)
      then have "table_grows s s'" using table_grows_free [OF wf2 fr] by (rule table_grows_trans)
      with free_good [OF wf2 fr] show ?thesis by (simp add: good_step_def fd(10))
    qed
  qed
qed


end
