(* ===== verification/RZ_Machine.thy ===== *)
theory RZ_Machine
  imports RZ_HeapOps
begin

text \<open>
  An instrumented program as a sequence of runtime calls and checked accesses. A step is one
  call that returns; a report ends the run. The invariant of \<open>RZ_Heap\<close> holds in every
  reachable state, and the table only grows.
\<close>

section \<open>Globals\<close>

definition global_ok :: "u64 \<Rightarrow> u64 \<Rightarrow> bool" where
  "global_ok data sz \<longleftrightarrow> unat data mod 16 = 0 \<and> 16 \<le> unat data
     \<and> unat data + unat sz + 16 \<le> 140737488355328"

lemma global_slot:
  assumes "global_ok data sz"
  shows "slot_ok (data - 16) sz" and "data - 16 + 16 = data" and "unat (data - 16) = unat data - 16"
    and "unat (data - 16) + unat sz + 32 = unat data + unat sz + 16"
proof -
  have g: "unat data mod 16 = 0" "16 \<le> unat data" "unat data + unat sz + 16 \<le> 140737488355328"
    using assms by (simp_all add: global_ok_def)
  show u: "unat (data - 16) = unat data - 16" using g(2) by (simp add: unat_minus64)
  have "(unat data - 16) mod 16 = 0" using g(1,2) by (simp add: le_mod_geq)
  then show "slot_ok (data - 16) sz" unfolding slot_ok_def u using g by linarith
  show "data - 16 + 16 = data" by simp
  show "unat (data - 16) + unat sz + 32 = unat data + unat sz + 16" unfolding u using g(2) by linarith
qed

lemma global_frame_poison:
  assumes r: "reserved s" and ok: "global_ok data sz"
    and x: "unat data \<le> unat x + 16" "unat x < unat data + unat sz + 16"
  shows "poisoned (global_frame s data sz) x \<longleftrightarrow> \<not> (unat data \<le> unat x \<and> unat x < unat data + unat sz)"
proof -
  note g = global_slot [OF ok]
  note d = slot_okD [OF g(1)]
  have "sint GLOBAL_RZ < 0" by (simp add: GLOBAL_RZ_def)
  from so.bad_guarded [OF r d(2) d(1) d(6) d(7) d(8) this, of x] x g(3,4) show ?thesis
    by (simp add: poisoned_def global_frame_def d(4))
qed

lemma global_frame_outside:
  assumes r: "reserved s" and ok: "global_ok data sz"
    and x: "unat x div 8 < unat (data - 16) div 8 \<or> (unat (data - 16) + unat sz + 39) div 8 \<le> unat x div 8"
  shows "shadow_val (global_frame s data sz) x = shadow_val s x"
proof -
  note g = global_slot [OF ok]
  note d = slot_okD [OF g(1)]
  have "unat (data - 16) + unat (sz + 32) + 7 = unat (data - 16) + unat sz + 39" by (simp add: d(4))
  with so.load_guarded_outside [OF r d(2) d(1) d(5) d(6) d(7) d(8), of x] x show ?thesis
    by (simp add: global_frame_def)
qed

text \<open>The right-only form, for a global whose left neighbour may not be poisoned.\<close>

lemma shadow_global_right:
  assumes r: "reserved s" and al: "unat data mod 8 = 0"
    and lim: "unat data + unat sz + 16 \<le> 140737488355328"
  shows "shadow_val (global_right_frame s data sz) x =
    (if unat data div 8 \<le> unat x div 8 \<and> unat x div 8 < unat data div 8 + unat sz div 8 then 0
     else if unat x div 8 = unat data div 8 + unat sz div 8 \<and> unat sz mod 8 \<noteq> 0
       then of_nat (unat sz mod 8)
     else if (unat data + unat sz) div 8 \<le> unat x div 8 \<and> unat x div 8 < (unat data + unat sz + 23) div 8
       then GLOBAL_RZ
     else shadow_val s x)"
proof -
  have u: "unat (data + sz) = unat data + unat sz" using lim by (simp add: unat_plus64)
  have b: "unat x < 140737488355328" if "unat x div 8 < (unat data + unat sz + 23) div 8"
  proof -
    have "(unat data + unat sz + 23) div 8 \<le> (140737488355328 + 7) div 8"
      by (rule div_le_mono) (use lim in linarith)
    with that show ?thesis by (simp add: limit_div8)
  qed
  have "shadow_val (fill s (data + sz) 16 GLOBAL_RZ) x =
      (if (unat data + unat sz) div 8 \<le> unat x div 8 \<and> unat x div 8 < (unat data + unat sz + 23) div 8
       then GLOBAL_RZ else shadow_val s x)"
    using shadow_val_fill [OF r, of 16 "data + sz" GLOBAL_RZ x] b lim by (auto simp: u)
  moreover have "reserved (fill s (data + sz) 16 GLOBAL_RZ)" using r by simp
  ultimately show ?thesis
    unfolding global_right_frame_def using so.load_carved [OF _ al, of _ sz x] lim by simp
qed

lemma global_right_poison:
  assumes r: "reserved s" and al: "unat data mod 8 = 0"
    and lim: "unat data + unat sz + 16 \<le> 140737488355328"
    and x: "unat data \<le> unat x" "unat x < unat data + unat sz + 16"
  shows "poisoned (global_right_frame s data sz) x \<longleftrightarrow> unat data + unat sz \<le> unat x"
proof -
  have inu: "unat x < unat data + unat sz \<longleftrightarrow>
      unat x div 8 < unat data div 8 + unat sz div 8
      \<or> unat x div 8 = unat data div 8 + unat sz div 8 \<and> unat x mod 8 < unat sz mod 8"
    using chunk_region [OF al, of "unat x" "unat sz"] x(1) div_le_mono [OF x(1), of 8] by auto
  have c: "unat data div 8 \<le> unat x div 8" using x(1) by (rule div_le_mono)
  have hi: "unat x div 8 < (unat data + unat sz + 23) div 8"
    using div_le_mono [of "unat x + 8" "unat data + unat sz + 23" 8] x(2) by simp
  have e: "(unat data + unat sz) div 8 = unat data div 8 + unat sz div 8"
  proof -
    obtain q where "unat data = 8 * q" using al by (rule mod8_0E)
    then show ?thesis by (simp add: div_mult_self4)
  qed
  have g: "byte_bad GLOBAL_RZ n" for n by (simp add: byte_bad_def GLOBAL_RZ_def)
  show ?thesis
    unfolding poisoned_def shadow_global_right [OF r al lim] e
    using inu c hi g by (auto simp: byte_bad_partial)
qed

section \<open>Steps\<close>

text \<open>
  \<open>span_clear s a n\<close>: none of the \<open>n\<close> bytes at \<open>a\<close> is a guard byte of a block, so that writing
  them cannot damage a header. \<open>region_clear s p n\<close>: the \<open>n\<close> bytes at \<open>p\<close> meet no block, as
  stack slots and globals do not.
\<close>

definition span_clear :: "rt \<Rightarrow> u64 \<Rightarrow> nat \<Rightarrow> bool" where
  "span_clear s a n \<longleftrightarrow> (\<forall>b \<in> set (blocks s). \<forall>x :: u64.
     in_span a n x \<longrightarrow> in_block b (unat x) \<longrightarrow> in_user b (unat x))"

definition region_clear :: "rt \<Rightarrow> u64 \<Rightarrow> u64 \<Rightarrow> bool" where
  "region_clear s p n \<longleftrightarrow> (\<forall>b \<in> set (blocks s). apart p n b)"

inductive heap_step :: "rt \<Rightarrow> rt \<Rightarrow> bool" where
  Malloc: "sys_ok sys s \<Longrightarrow> redzone_malloc sys sz loc line s = Done (p, s') \<Longrightarrow> heap_step s s'"
| Calloc: "sys_ok sys s \<Longrightarrow> redzone_calloc sys n sz loc line s = Done (p, s') \<Longrightarrow> heap_step s s'"
| Aligned: "sys_ok sys s \<Longrightarrow> redzone_aligned_alloc sys al sz loc line s = Done (p, s') \<Longrightarrow> heap_step s s'"
| Memalign: "sys_ok sys s \<Longrightarrow> redzone_posix_memalign sys q al sz loc line s = Done (r, s') \<Longrightarrow>
    span_clear s' q 8 \<Longrightarrow> heap_step s s'"
| Realloc: "sys_ok sys s \<Longrightarrow> redzone_realloc sys p sz loc line s = Done (q, s') \<Longrightarrow> heap_step s s'"
| Free: "redzone_free sys p s = Done s' \<Longrightarrow> heap_step s s'"
| Load: "redzone_check sys a sz False loc line s = Done s' \<Longrightarrow> heap_step s s'"
| Store: "redzone_check sys a sz True loc line s = Done s' \<Longrightarrow> unat sz \<le> 17 \<Longrightarrow>
    unat a + unat sz \<le> 18446744073709551616 \<Longrightarrow>
    (\<And>x. \<not> in_span a (unat sz) x \<Longrightarrow> m x = mem s' x) \<Longrightarrow> heap_step s (s'\<lparr>mem := m\<rparr>)"
| Bulk: "span_clear s a n \<Longrightarrow> (\<And>x. \<not> in_span a n x \<Longrightarrow> m x = mem s x) \<Longrightarrow> heap_step s (s\<lparr>mem := m\<rparr>)"
| Stack_enter: "slot_ok base usz \<Longrightarrow> region_clear s base (usz + 32) \<Longrightarrow>
    redzone_stack_enter sys base usz s = Done s' \<Longrightarrow> heap_step s s'"
| Stack_leave: "slot_ok base usz \<Longrightarrow> region_clear s base (usz + 32) \<Longrightarrow>
    redzone_stack_leave sys base usz s = Done s' \<Longrightarrow> heap_step s s'"
| Global: "global_ok data sz \<Longrightarrow> region_clear s (data - 16) (sz + 32) \<Longrightarrow>
    redzone_global_register sys data sz s = Done s' \<Longrightarrow> heap_step s s'"
| Global_right: "unat data mod 8 = 0 \<Longrightarrow> unat data + unat sz + 16 \<le> 140737488355328 \<Longrightarrow> region_clear s data (sz + 16) \<Longrightarrow>
    redzone_global_register_right sys data sz s = Done s' \<Longrightarrow> heap_step s s'"
| Leak_report: "heap_step s (redzone_set_leak_report on s)"

text \<open>The state the startup constructor leaves, and what can be reached from it.\<close>

definition started :: rt where
  "started = init_rt\<lparr>shadow := Some (\<lambda>_. 0)\<rparr>"

text \<open>A system that answers every request of up to a kilobyte with the same address.\<close>

definition demo_sys :: "u64 \<Rightarrow> sys" where
  "demo_sys a = \<lparr>sys_malloc = (\<lambda>n. if n \<le> 1024 then a else 0), sys_realloc_ok = True, sys_mmap_ok = True\<rparr>"

inductive heap_steps :: "rt \<Rightarrow> rt \<Rightarrow> bool" where
  Refl: "heap_steps s s"
| Snoc: "heap_steps s t \<Longrightarrow> heap_step t u \<Longrightarrow> heap_steps s u"

definition heap_reach :: "rt \<Rightarrow> bool" where
  "heap_reach s \<longleftrightarrow> heap_steps started s"

section \<open>Every step keeps the invariant\<close>

lemma span_write_wf:
  assumes "heap_wf s" and "span_clear s a n" and "\<And>x. \<not> in_span a n x \<Longrightarrow> m x = mem s x"
  shows "heap_wf (s\<lparr>mem := m\<rparr>)"
proof (rule heap_wf_mem [OF assms(1)])
  fix b and x :: u64
  assume "b \<in> set (blocks s)" "in_block b (unat x)" "\<not> in_user b (unat x)"
  then have "\<not> in_span a n x" using assms(2) unfolding span_clear_def by blast
  then show "m x = mem s x" by (rule assms(3))
qed

lemma checked_span_clear:
  assumes wf: "heap_wf s" and ok: "redzone_check sys a sz w loc line s = Done s'"
    and sz: "unat sz \<le> 17" and nw: "unat a + unat sz \<le> 18446744073709551616"
  shows "span_clear s a (unat sz)"
  unfolding span_clear_def
proof (intro ballI allI impI)
  fix b and x :: u64
  assume b: "b \<in> set (blocks s)" and x: "in_span a (unat sz) x" and i: "in_block b (unat x)"
  have r: "unat a \<le> unat x" "unat x < unat a + unat sz" using x by (simp_all add: in_span_nowrap [OF nw])
  then have "0 < unat sz" by linarith
  from check_no_skip [OF wf ok this sz nw b r i] show "in_user b (unat x)" ..
qed

lemma check_same: "heap_wf s \<Longrightarrow> redzone_check sys a sz w loc line s = Done s' \<Longrightarrow> s' = s"
  by (simp add: rc.done_iff)

lemma global_frame_wf:
  assumes wf: "heap_wf s" and ok: "global_ok data sz" and ap: "region_clear s (data - 16) (sz + 32)"
  shows "heap_wf (global_frame s data sz)"
proof (rule heap_wf_shadow [OF wf])
  note h = heap_wfD [OF wf]
  show "blocks (global_frame s data sz) = blocks s" "mem (global_frame s data sz) = mem s"
    "reserved (global_frame s data sz)" "\<not> lock_held (global_frame s data sz)"
    using h(1,2) by (simp_all add: global_frame_def)
  have ap': "slot_apart (data - 16) sz s" using ap by (simp add: slot_apart_def region_clear_def)
  show "shadow_val (global_frame s data sz) x = shadow_val s x"
    if "b \<in> set (blocks s)" "in_chunks b (unat x div 8)" for b and x :: u64
    by (rule global_frame_outside [OF h(1) ok slot_apart_chunks [OF wf global_slot(1) [OF ok] ap' that]])
qed

lemma global_right_frame_wf:
  assumes wf: "heap_wf s" and al: "unat data mod 8 = 0" and lim: "unat data + unat sz + 16 \<le> 140737488355328"
    and ap: "region_clear s data (sz + 16)"
  shows "heap_wf (global_right_frame s data sz)"
proof (rule heap_wf_shadow [OF wf])
  note h = heap_wfD [OF wf]
  show "blocks (global_right_frame s data sz) = blocks s" "mem (global_right_frame s data sz) = mem s"
    "reserved (global_right_frame s data sz)" "\<not> lock_held (global_right_frame s data sz)"
    using h(1,2) by (simp_all add: global_right_frame_def)
  show "shadow_val (global_right_frame s data sz) x = shadow_val s x"
    if b: "b \<in> set (blocks s)" and c: "in_chunks b (unat x div 8)" for b and x :: u64
  proof -
    have u: "unat (sz + 16) = unat sz + 16" using lim by (simp add: unat_plus64)
    have "apart data (sz + 16) b" using ap b by (simp add: region_clear_def)
    from apart_chunks [OF this al h(6) [OF b] c]
    have o: "unat x div 8 < unat data div 8 \<or> (unat data + unat sz + 23) div 8 \<le> unat x div 8" unfolding u by (simp add: add.assoc)
    obtain i where i: "unat data = 8 * i" using al by (rule mod8_0E)
    then have e: "(unat data + unat sz) div 8 = unat data div 8 + unat sz div 8" by (simp add: div_mult_self4)
    have "unat sz mod 8 \<noteq> 0 \<longrightarrow> unat data div 8 + unat sz div 8 < (unat data + unat sz + 23) div 8"
      using div_le_mono [of "unat data + unat sz + 8" "unat data + unat sz + 23" 8] div_add_self2 [of 8 "unat data + unat sz"] e
      by linarith
    moreover have "(unat data + unat sz) div 8 \<le> (unat data + unat sz + 23) div 8" by (rule div_le_mono) simp
    ultimately show ?thesis using o unfolding shadow_global_right [OF h(1) al lim] e by auto
  qed
qed

lemma memalign_good:
  assumes wf: "heap_wf s" and so: "sys_ok sys s"
    and d: "redzone_posix_memalign sys q al sz loc line s = Done (r, s')" and c: "span_clear s' q 8"
  shows "good_step s s'"
proof (rule posix_memalign_cases [OF wf so, of q al sz loc line])
  fix p t
  assume m: "redzone_posix_memalign sys q al sz loc line s = Done (0, t\<lparr>mem := store64 (mem t) q p\<rparr>)"
    and f: "fresh s sz (unat al) loc line p t"
  then have s': "s' = t\<lparr>mem := store64 (mem t) q p\<rparr>" using d by simp
  have "heap_wf s'" unfolding s'
    by (rule span_write_wf [OF freshD(1) [OF f], of q 8])
      (use c in \<open>simp_all add: s' span_clear_def store64_outside\<close>)
  moreover have "table_grows s s'" using table_grows_fresh [OF f] by (simp add: s' table_grows_def)
  ultimately show ?thesis by (rule good_stepI) (simp add: s' freshD(10) [OF f])
qed (use wf d in \<open>auto simp: good_step_def\<close>)

lemma heap_step_good: "heap_step s t \<Longrightarrow> heap_wf s \<Longrightarrow> good_step s t"
proof (induction rule: heap_step.induct)
  case (Store sys a sz loc line s s' m)
  have [simp]: "s' = s" using Store check_same by blast
  have "heap_wf (s\<lparr>mem := m\<rparr>)"
    using Store checked_span_clear [OF Store.prems Store.hyps(1-3)]
    by (intro span_write_wf [of s a "unat sz"]) auto
  then show ?case by (simp add: good_step_def)
next
  case (Stack_enter base usz s sys s')
  have "s' = stack_frame s base usz" using Stack_enter heap_wfD(1) by (simp add: stack_enter_eq)
  then show ?case
    using stack_enter_wf [OF Stack_enter.prems Stack_enter.hyps(1)] Stack_enter.hyps(2)
    by (simp add: good_step_def slot_apart_def region_clear_def stack_frame_def)
next
  case (Stack_leave base usz s sys s')
  have "s' = fill s base (usz + 32) 0" using Stack_leave heap_wfD(1) by (simp add: stack_leave_eq)
  then show ?case
    using stack_leave_wf [OF Stack_leave.prems Stack_leave.hyps(1)] Stack_leave.hyps(2)
    by (simp add: good_step_def slot_apart_def region_clear_def)
next
  case (Global data sz s sys s')
  have "s' = global_frame s data sz" using Global heap_wfD(1) by (simp add: global_register_eq)
  then show ?case
    using global_frame_wf [OF Global.prems Global.hyps(1,2)] by (simp add: good_step_def global_frame_def)
next
  case (Global_right data sz s sys s')
  have "s' = global_right_frame s data sz" using Global_right heap_wfD(1) by (simp add: global_register_right_eq)
  then show ?case
    using global_right_frame_wf [OF Global_right.prems Global_right.hyps(1-3)]
    by (simp add: good_step_def global_right_frame_def)
next
  case (Leak_report s on)
  then show ?case
    by (simp add: good_step_def redzone_set_leak_report_def heap_wf_def shadow_ok_def headers_ok_def)
next
  case (Bulk s a n m)
  then show ?case using span_write_wf by (simp add: good_step_def)
next
  case (Load sys a sz loc line s s')
  then show ?case using check_same [OF Load.prems Load.hyps] by (simp add: good_step_def)
qed (auto intro: malloc_good calloc_good aligned_alloc_good memalign_good realloc_good free_good)

lemma heap_steps_good: "heap_steps s t \<Longrightarrow> heap_wf s \<Longrightarrow> good_step s t"
proof (induction rule: heap_steps.induct)
  case (Refl s)
  then show ?case by (simp add: good_step_def)
next
  case (Snoc s t u)
  then have "good_step s t" "good_step t u" using heap_step_good by (auto simp: good_step_def)
  then show ?case using table_grows_trans by (auto simp: good_step_def)
qed

lemma started_wf: "heap_wf started"
  by (simp add: started_def init_rt_def heap_wf_def reserved_def separate_def headers_ok_def shadow_ok_def)

lemma heap_reach_wf: "heap_reach s \<Longrightarrow> heap_wf s"
  using heap_steps_good [of started s] started_wf by (simp add: heap_reach_def good_step_def)

end
