(* ===== verification/RZ_HeapProps.thy ===== *)
theory RZ_HeapProps
  imports RZ_Machine
begin

text \<open>
  What the memory checker guarantees to an instrumented program: the properties of the
  allocator, the access check and the guarded stack and global regions, over every state a
  program can reach. A small heap, one block of ten bytes, shows that each set of hypotheses
  can hold.
\<close>

section \<open>A sample heap\<close>

definition demo_heap :: rt where
  "demo_heap = alloc_result 4096 10 16 None 0 started"

lemma demo_user: "alloc_user 4096 16 = 4112"
  by (simp add: alloc_user_def REDZONE_SIZE_def)

lemma demo_total: "alloc_total 10 16 = 42"
  by (simp add: alloc_total_def alloc_slack_def REDZONE_SIZE_def)

lemma demo_malloc: "redzone_malloc (demo_sys 4096) 10 None 0 started = Done (4112, demo_heap)"
  using heap_wfD(1,2) [OF started_wf]
  by (simp add: redzone_malloc_def rz_allocate_eq REDZONE_SIZE_def demo_sys_def demo_heap_def
      demo_user demo_total alloc_slack_def SIZE_MAX_def)

lemma demo_block: "blocks demo_heap = [\<lparr>real_base = 4096, total_size = 42, user_addr = 4112,
    user_size = 10, freed = False, alloc_file = None, alloc_line = 0\<rparr>]"
  by (simp add: demo_heap_def alloc_result_def new_block_def demo_user demo_total)
    (simp add: started_def init_rt_def)

lemma demo_sys_ok:
  assumes "unat a mod 16 = 0" and "unat a + 1024 \<le> 140737488355328"
    and "\<forall>b \<in> set (blocks s). unat a + 1024 \<le> unat (real_base b)
      \<or> unat (real_base b) + unat (total_size b) \<le> unat a"
  shows "sys_ok (demo_sys a) s"
  unfolding sys_ok_def
proof (intro allI impI conjI ballI)
  fix n assume "sys_malloc (demo_sys a) n \<noteq> 0"
  then have n: "unat n \<le> 1024" and e: "sys_malloc (demo_sys a) n = a"
    by (auto simp: demo_sys_def word_le_nat_alt split: if_splits)
  show "unat (sys_malloc (demo_sys a) n) mod 16 = 0"
    "unat (sys_malloc (demo_sys a) n) + unat n \<le> 140737488355328"
    using assms(1,2) n by (simp_all add: e)
  show "apart (sys_malloc (demo_sys a) n) n b" if "b \<in> set (blocks s)" for b
    using assms(3) that n by (auto simp: e apart_def)
qed

lemma started_blocks [simp]: "blocks started = []"
  by (simp add: started_def init_rt_def)

lemma demo_reach: "heap_reach demo_heap"
proof -
  have "sys_ok (demo_sys 4096) started" by (rule demo_sys_ok) simp_all
  then have "heap_step started demo_heap" using demo_malloc by (rule Malloc)
  then show ?thesis unfolding heap_reach_def by (rule Snoc [OF Refl])
qed

lemma demo_fields [simp]:
  "length (blocks demo_heap) = 1" "real_base (blocks demo_heap ! 0) = 4096"
  "total_size (blocks demo_heap ! 0) = 42" "user_addr (blocks demo_heap ! 0) = 4112"
  "user_size (blocks demo_heap ! 0) = 10" "\<not> freed (blocks demo_heap ! 0)"
  by (simp_all add: demo_block)

lemma demo_free: "redzone_free sys 4112 demo_heap = Done (freed_result 0 demo_heap)"
proof -
  have wf: "heap_wf demo_heap" using demo_reach by (rule heap_reach_wf)
  have "lookup_user demo_heap 4112 = Some 0" using br.back_complete [OF wf, of 0] by simp
  then show ?thesis by (simp add: redzone_free_eq [OF wf])
qed

section \<open>The invariant\<close>

text \<open>C4. In every state an instrumented program reaches, the allocation table, the headers and the
  shadow agree: blocks are disjoint and aligned, each header names its own slot, and the shadow of
  each block is exactly what its size and its freed flag say.\<close>

theorem heap_invariant:
  assumes "heap_reach s"
  shows "heap_wf s"
  using assms by (rule heap_reach_wf)

theorem heap_invariant_witness: "heap_wf demo_heap"
  by (rule heap_invariant [OF demo_reach])

text \<open>C1. A check of an access that starts and ends inside a recorded block passes exactly when the
  block is live and both ends are user bytes; otherwise it reports that block, as a use after free
  when it was freed and as a heap overflow when not.\<close>

theorem heap_access_exact:
  assumes "heap_reach s" and "i < length (blocks s)" and "0 < unat sz"
    and "in_block (blocks s ! i) (unat a)" and "in_block (blocks s ! i) (unat a + unat sz - 1)"
  shows "redzone_check sys a sz w loc line s =
    (if \<not> freed (blocks s ! i) \<and> in_user (blocks s ! i) (unat a)
        \<and> in_user (blocks s ! i) (unat a + unat sz - 1) then Done s
     else Halt (Report (ReportBlock
       (if freed (blocks s ! i) then ''use-after-free'' else ''heap-buffer-overflow'')
       a sz w loc line (blocks s ! i))))"
  using check_in_block [OF heap_reach_wf [OF assms(1)] assms(2,4,5,3)] .

theorem heap_access_exact_witness:
  "redzone_check (demo_sys 0) 4120 4 True None 0 demo_heap = Halt (Report (ReportBlock ''heap-buffer-overflow''
     4120 4 True None 0 (blocks demo_heap ! 0)))"
  by (subst heap_access_exact [OF demo_reach, of 0]) (simp_all add: in_block_def in_user_def)

text \<open>C2. An access of at most 17 bytes that passes the check touches no red zone and no freed block:
  every byte of it that lies in a recorded block is a user byte of a live one.\<close>

theorem checked_access_safe:
  assumes "heap_reach s" and "redzone_check sys a sz w loc line s = Done s'"
    and "0 < unat sz" and "unat sz \<le> 17" and "unat a + unat sz \<le> 18446744073709551616"
    and "b \<in> set (blocks s)" and "unat a \<le> x" and "x < unat a + unat sz" and "in_block b x"
  shows "\<not> freed b \<and> in_user b x"
  using check_no_skip [OF heap_reach_wf [OF assms(1)] assms(2-9)] .

theorem checked_access_safe_witness: "\<not> freed (blocks demo_heap ! 0) \<and> in_user (blocks demo_heap ! 0) 4113"
proof (rule checked_access_safe [OF demo_reach])
  have "redzone_check (demo_sys 0) 4112 8 True None 0 demo_heap = Done demo_heap"
    by (subst check_in_block [OF heap_reach_wf [OF demo_reach], of 0])
      (simp_all add: in_block_def in_user_def)
  then show "redzone_check (demo_sys 0) 4112 8 True None 0 demo_heap = Done demo_heap" .
qed (simp_all add: in_block_def)

text \<open>C3. Once a block is freed, every later access that starts and ends inside its user bytes is
  reported as a use after free, whatever the program does in between.\<close>

theorem use_after_free_caught:
  assumes "heap_reach s" and "i < length (blocks s)" and "user_addr (blocks s ! i) = p"
    and "redzone_free sys p s = Done s1" and "heap_steps s1 s2"
    and "0 < unat sz" and "in_user (blocks s ! i) (unat a)" and "in_user (blocks s ! i) (unat a + unat sz - 1)"
  shows "redzone_check sys' a sz w loc line s2 =
    Halt (Report (ReportBlock ''use-after-free'' a sz w loc line (blocks s2 ! i)))"
proof -
  have wf: "heap_wf s" using assms(1) by (rule heap_reach_wf)
  have b: "block_ok (blocks s ! i)" using heap_wfD(6) [OF wf] assms(2) by simp
  have p: "p \<noteq> 0" using block_okD(3) [OF b] assms(3) by auto
  have "lookup_user s p = Some i" using br.back_complete [OF wf assms(2)] assms(3) by simp
  then have s1: "s1 = freed_result i s" using assms(4) p by (simp add: redzone_free_eq [OF wf] split: if_splits)
  have "heap_wf s1" unfolding s1 by (rule freed_result_wf [OF wf assms(2)])
  then have g: "good_step s1 s2" using heap_steps_good [OF assms(5)] by blast
  have wf2: "heap_wf s2" using g by (simp add: good_step_def)
  have tg: "table_grows s s2"
    by (rule table_grows_trans [OF table_grows_freed [of s i]]) (use g in \<open>simp add: good_step_def s1\<close>)
  have tg1: "table_grows s1 s2" using g by (simp add: good_step_def)
  have f: "freed (blocks s2 ! i)" using table_growsD(6) [OF tg1, of i] assms(2) by (simp add: s1)
  note d = table_growsD [OF tg assms(2)]
  have "in_block (blocks s2 ! i) (unat a)" "in_block (blocks s2 ! i) (unat a + unat sz - 1)"
    using in_user_in_block [OF b assms(7)] in_user_in_block [OF b assms(8)] d(2,3) by (auto simp: in_block_def)
  then show ?thesis using check_in_block [OF wf2 d(1)] assms(6) f by simp
qed

theorem use_after_free_caught_witness:
  "redzone_check (demo_sys 0) 4112 8 False None 0 (freed_result 0 demo_heap) =
     Halt (Report (ReportBlock ''use-after-free'' 4112 8 False None 0 (blocks (freed_result 0 demo_heap) ! 0)))"
  by (rule use_after_free_caught [OF demo_reach _ _ demo_free Refl]) (simp_all add: in_user_def)

lemma free_by_block:
  assumes wf: "heap_wf s" and p: "p \<noteq> 0"
  shows "redzone_free sys p s =
    (case find_block p s of
       None \<Rightarrow> Done s
     | Some i \<Rightarrow>
         if user_addr (blocks s ! i) \<noteq> p then Halt (Report (ReportFree ''invalid-free'' p))
         else if freed (blocks s ! i) then Halt (Report (ReportFree ''double-free'' p))
         else Done (freed_result i s))"
proof -
  have own: "find_block p s = Some j" if "lookup_user s p = Some j" for j
  proof -
    have j: "j < length (blocks s)" "user_addr (blocks s ! j) = p" using br.back_sound [OF wf that] by auto
    then have "block_ok (blocks s ! j)" using heap_wfD(6) [OF wf] by simp
    then have "in_block (blocks s ! j) (unat p)" using block_okD(4,5) j(2) by (fastforce simp: in_block_def)
    then show ?thesis using j by (simp add: find_block_unique [OF wf])
  qed
  have bk: "lookup_user s p = Some i" if "find_block p s = Some i" "user_addr (blocks s ! i) = p" for i
    using that br.back_complete [OF wf, of i] by (simp add: find_block_unique [OF wf])
  show ?thesis
  proof (cases "find_block p s")
    case None
    then have "lookup_user s p = None" using own by (cases "lookup_user s p") auto
    with None p show ?thesis by (simp add: redzone_free_eq [OF wf])
  next
    case (Some i)
    show ?thesis
    proof (cases "user_addr (blocks s ! i) = p")
      case True
      with Some bk p show ?thesis by (simp add: redzone_free_eq [OF wf])
    next
      case False
      have "lookup_user s p = None"
      proof (cases "lookup_user s p")
        case (Some j)
        then have "find_block p s = Some j" "user_addr (blocks s ! j) = p"
          using own br.back_sound [OF wf] by auto
        then show ?thesis using \<open>find_block p s = Some i\<close> False by simp
      qed
      with Some p False show ?thesis by (simp add: redzone_free_eq [OF wf])
    qed
  qed
qed

text \<open>C5. \<^verbatim>\<open>free\<close> of a pointer decides by the block that holds it, as a search of the whole table
  would: outside every block it is ignored, at the start of a live block it frees it, at the start of a
  freed one it reports a double free, and anywhere else in a block it reports an invalid free.\<close>

theorem free_outcomes:
  assumes "heap_reach s" and "p \<noteq> 0"
  shows "redzone_free sys p s =
    (case find_block p s of
       None \<Rightarrow> Done s
     | Some i \<Rightarrow>
         if user_addr (blocks s ! i) \<noteq> p then Halt (Report (ReportFree ''invalid-free'' p))
         else if freed (blocks s ! i) then Halt (Report (ReportFree ''double-free'' p))
         else Done (freed_result i s))"
  using free_by_block [OF heap_reach_wf [OF assms(1)] assms(2)] .

theorem free_outcomes_witness: "redzone_free (demo_sys 0) 4113 demo_heap = Halt (Report (ReportFree ''invalid-free'' 4113))"
proof -
  have "find_block 4113 demo_heap = Some 0"
    using find_block_unique [OF heap_reach_wf [OF demo_reach], of 4113 0] by (simp add: in_block_def)
  then show ?thesis by (subst free_outcomes [OF demo_reach]) simp_all
qed

section \<open>The allocators\<close>

text \<open>\<^verbatim>\<open>aligned_alloc\<close> either refuses (a bad alignment, no memory) without changing anything, or
  dies because the table cannot grow, or returns a new live block with the requested size and
  alignment, leaving the bytes of every other block as they were.\<close>

theorem aligned_alloc_spec:
  assumes "heap_reach s" and "sys_ok sys s"
  shows "redzone_aligned_alloc sys al sz loc line s = Done (0, s)
    \<or> redzone_aligned_alloc sys al sz loc line s = Halt OutOfMemoryTracking
    \<or> (\<exists>p s'. redzone_aligned_alloc sys al sz loc line s = Done (p, s')
         \<and> is_pow2 al \<and> fresh s sz (unat al) loc line p s' \<and> kept s s')"
  using aligned_alloc_cases [OF heap_reach_wf [OF assms(1)] assms(2), of al sz loc line] by blast

theorem aligned_alloc_spec_witness:
  "redzone_aligned_alloc (demo_sys 4096) 3 10 None 0 started = Done (0, started)
    \<or> redzone_aligned_alloc (demo_sys 4096) 3 10 None 0 started = Halt OutOfMemoryTracking
    \<or> (\<exists>p s'. redzone_aligned_alloc (demo_sys 4096) 3 10 None 0 started = Done (p, s')
         \<and> is_pow2 3 \<and> fresh started 10 (unat (3 :: u64)) None 0 p s' \<and> kept started s')"
proof (rule aligned_alloc_spec)
  show "heap_reach started" unfolding heap_reach_def by (rule Refl)
  show "sys_ok (demo_sys 4096) started" by (rule demo_sys_ok) simp_all
qed

text \<open>\<^verbatim>\<open>calloc\<close> fails on exactly the products that do not fit in \<^verbatim>\<open>size_t\<close> before asking for memory,
  and a block it returns has the full product as its size and reads as zero throughout.\<close>

theorem calloc_spec:
  assumes "heap_reach s" and "sys_ok sys s" and "redzone_calloc sys n sz loc line s = Done (p, s')"
    and "p \<noteq> 0"
  shows "unat n * unat sz < 18446744073709551616 \<and> fresh s (n * sz) 16 loc line p s' \<and> kept s s'
    \<and> unat (n * sz) = unat n * unat sz
    \<and> (\<forall>k < unat n * unat sz. mem s' (p + of_nat k) = 0)"
proof (rule calloc_cases [OF heap_reach_wf [OF assms(1)] assms(2), of n sz loc line])
  fix q t
  assume "redzone_calloc sys n sz loc line s = Done (q, t)" "unat (n * sz) = unat n * unat sz"
    "fresh s (n * sz) 16 loc line q t" "kept s t"
    "\<And>k. k < unat n * unat sz \<Longrightarrow> mem t (q + of_nat k) = 0"
  moreover have "unat (n * sz) < 18446744073709551616" by (rule unat_bound64)
  ultimately show ?thesis using assms(3) by auto
qed (use assms(3,4) in simp_all)

lemma demo_calloc:
  "redzone_calloc (demo_sys 4096) 2 5 None 0 started =
    Done (4112, demo_heap\<lparr>mem := mem_set 4112 0 10 (mem demo_heap)\<rparr>)"
  by (simp add: redzone_calloc_def demo_malloc SIZE_MAX_def word_less_nat_alt unat_div
      unsigned_minus_1_eq_mask mask_eq_exp_minus_1)

theorem calloc_spec_witness:
  "mem (demo_heap\<lparr>mem := mem_set 4112 0 10 (mem demo_heap)\<rparr>) (4112 + of_nat 9) = 0"
proof -
  have "heap_reach started" unfolding heap_reach_def by (rule Refl)
  moreover have "sys_ok (demo_sys 4096) started" by (rule demo_sys_ok) simp_all
  ultimately have "\<forall>k < unat (2 :: u64) * unat (5 :: u64).
      mem (demo_heap\<lparr>mem := mem_set 4112 0 10 (mem demo_heap)\<rparr>) (4112 + of_nat k) = 0"
    using calloc_spec [OF _ _ demo_calloc] by simp
  then show ?thesis by (elim allE [of _ 9]) simp
qed

text \<open>\<^verbatim>\<open>calloc\<close> returns \<^verbatim>\<open>NULL\<close> without touching the heap when the product overflows.\<close>

theorem calloc_overflow:
  assumes "18446744073709551616 \<le> unat n * unat sz"
  shows "redzone_calloc sys n sz loc line s = Done (0, s)"
  using assms calloc_guard_exact [of sz n] by (simp add: redzone_calloc_def)

theorem calloc_overflow_witness:
  "redzone_calloc (demo_sys 4096) 0x8000000000000000 2 None 0 started = Done (0, started)"
  by (rule calloc_overflow) simp

text \<open>\<^verbatim>\<open>posix_memalign\<close> returns \<^verbatim>\<open>EINVAL\<close> exactly on a null result pointer, an alignment that is not
  a power of two or one that is not a multiple of the pointer size; on success it returns 0, stores
  the new block's address through the pointer, and the block has the requested alignment.\<close>

theorem posix_memalign_spec:
  assumes "heap_reach s" and "sys_ok sys s" and "redzone_posix_memalign sys q al sz loc line s = Done (r, s')"
  shows "(r = EINVAL \<longleftrightarrow> q = 0 \<or> \<not> is_pow2 al \<or> unat al mod 8 \<noteq> 0)
    \<and> (r \<noteq> 0 \<longrightarrow> s' = s) \<and> (r = 0 \<or> r = EINVAL \<or> r = ENOMEM)
    \<and> (r = 0 \<longrightarrow> (\<exists>p t. fresh s sz (unat al) loc line p t \<and> kept s t
         \<and> s' = t\<lparr>mem := store64 (mem t) q p\<rparr>))"
proof (rule posix_memalign_cases [OF heap_reach_wf [OF assms(1)] assms(2), of q al sz loc line])
  fix p t
  assume "redzone_posix_memalign sys q al sz loc line s = Done (0, t\<lparr>mem := store64 (mem t) q p\<rparr>)"
    "q \<noteq> 0" "is_pow2 al" "unat al mod 8 = 0" "fresh s sz (unat al) loc line p t" "kept s t"
  then show ?thesis using assms(3) by (auto simp: EINVAL_def)
qed (use assms(3) in \<open>auto simp: EINVAL_def ENOMEM_def\<close>)

lemma demo_memalign:
  "redzone_posix_memalign (demo_sys 4096) 8192 32 10 None 0 started =
    Done (0, (alloc_result 4096 10 32 None 0 started)
      \<lparr>mem := store64 (mem (alloc_result 4096 10 32 None 0 started)) 8192 4128\<rparr>)"
proof -
  have "is_pow2 32" unfolding is_pow2_iff by (rule exI [of _ 5]) simp
  moreover have "alloc_user 4096 32 = 4128" by (simp add: alloc_user_def REDZONE_SIZE_def)
  moreover have "alloc_total 10 32 = 74" by (simp add: alloc_total_def alloc_slack_def REDZONE_SIZE_def)
  ultimately show ?thesis
    using heap_wfD(1,2) [OF started_wf]
    by (simp add: redzone_posix_memalign_def rz_allocate_eq REDZONE_SIZE_def demo_sys_def
        alloc_slack_def SIZE_MAX_def SIZEOF_VOIDP_def)
qed

theorem posix_memalign_spec_witness:
  "\<exists>p t. fresh started 10 32 None 0 p t \<and> kept started t"
proof -
  have "heap_reach started" unfolding heap_reach_def by (rule Refl)
  moreover have "sys_ok (demo_sys 4096) started" by (rule demo_sys_ok) simp_all
  ultimately show ?thesis using posix_memalign_spec [OF _ _ demo_memalign] by auto
qed

text \<open>C6. \<^verbatim>\<open>realloc\<close> of a live block that gets memory moves it: the new block carries the common
  prefix of the contents, the old one is freed, and the heap stays well formed.\<close>

theorem realloc_moves:
  assumes "heap_reach s" and "sys_ok sys s" and "i < length (blocks s)"
    and "user_addr (blocks s ! i) = p" and "\<not> freed (blocks s ! i)" and "sz \<noteq> 0"
    and "redzone_realloc sys p sz loc line s = Done (q, s')" and "q \<noteq> 0"
  shows "heap_wf s' \<and> length (blocks s') = Suc (length (blocks s)) \<and> freed (blocks s' ! i)
    \<and> user_addr (blocks s' ! length (blocks s)) = q \<and> user_size (blocks s' ! length (blocks s)) = sz
    \<and> \<not> freed (blocks s' ! length (blocks s))
    \<and> (\<forall>k. k < unat (user_size (blocks s ! i)) \<and> k < unat sz \<longrightarrow>
         mem s' (q + of_nat k) = mem s (p + of_nat k))"
proof -
  have wf: "heap_wf s" using assms(1) by (rule heap_reach_wf)
  have "p \<noteq> 0" using block_okD(3) [OF heap_wfD(6) [OF wf nth_mem [OF assms(3)]]] assms(4) by auto
  note fail = realloc_malloc_fails [OF this assms(6)] realloc_malloc_halts [OF this assms(6)]
  show ?thesis
  proof (rule redzone_malloc_cases [OF wf assms(2), of sz loc line])
    fix np s1
    assume m: "redzone_malloc sys sz loc line s = Done (np, s1)" and f: "fresh s sz 16 loc line np s1"
      and kp: "kept s s1"
    note l = realloc_live [OF wf assms(3-6) m f kp]
    note fd = freshD [OF f]
    let ?t = "freed_result i (moved np p (min (user_size (blocks s ! i)) sz) s1)"
    have e: "np = q" "?t = s'" using l(1) assms(7) by auto
    have "blocks s' = (blocks s1)[i := (blocks s1 ! i)\<lparr>freed := True\<rparr>]" unfolding e(2) [symmetric] by simp
    moreover have "heap_wf s'" using l(2) e by simp
    moreover have "mem s' (q + of_nat k) = mem s (p + of_nat k)"
      if "k < unat (user_size (blocks s ! i))" "k < unat sz" for k
      using l(3) [OF that] unfolding e(2) unfolding e(1) .
    ultimately show ?thesis using fd(3,5-7) assms(3) unfolding e(1) by simp
  next
    assume "redzone_malloc sys sz loc line s = Done (0, s)"
    from fail(1) [OF this] show ?thesis using assms(7,8) by simp
  next
    assume "redzone_malloc sys sz loc line s = Halt OutOfMemoryTracking"
    from fail(2) [OF this] show ?thesis using assms(7) by simp
  qed
qed

text \<open>The sample block, grown from ten bytes to twelve.\<close>

lemma demo_sys_more: "sys_ok (demo_sys 8192) demo_heap"
  by (rule demo_sys_ok) (simp_all add: demo_block)

theorem realloc_moves_witness:
  "\<exists>q s'. redzone_realloc (demo_sys 8192) 4112 12 None 0 demo_heap = Done (q, s') \<and> q \<noteq> 0
    \<and> mem s' (q + of_nat 3) = mem demo_heap (4112 + of_nat 3)"
proof -
  have wf: "heap_wf demo_heap" using demo_reach by (rule heap_reach_wf)
  note h = heap_wfD(1,2) [OF wf]
  have m: "redzone_malloc (demo_sys 8192) 12 None 0 demo_heap =
      Done (8208, alloc_result 8192 12 16 None 0 demo_heap)"
    using h by (simp add: redzone_malloc_def rz_allocate_eq demo_sys_def REDZONE_SIZE_def alloc_user_def
        alloc_total_def alloc_slack_def SIZE_MAX_def)
  have "fresh demo_heap 12 16 None 0 8208 (alloc_result 8192 12 16 None 0 demo_heap)
      \<and> kept demo_heap (alloc_result 8192 12 16 None 0 demo_heap)"
    by (rule redzone_malloc_cases [OF wf demo_sys_more, of 12 None 0]) (simp_all add: m)
  then obtain s' where r: "redzone_realloc (demo_sys 8192) 4112 12 None 0 demo_heap = Done (8208, s')"
    using realloc_live(1) [OF wf _ _ _ _ m, of 0 4112] by simp
  have "\<forall>k. k < 10 \<and> k < 12 \<longrightarrow> mem s' (8208 + of_nat k) = mem demo_heap (4112 + of_nat k)"
    using realloc_moves [OF demo_reach demo_sys_more _ _ _ _ r, of 0] by simp
  from spec [OF this, of 3] r show ?thesis by auto
qed

section \<open>The ownership queries\<close>

text \<open>C12. The constant-time back reference finds exactly what a search of the table by user address
  finds: no header in memory, however it got there, makes it return another slot.\<close>

theorem back_reference_scan:
  assumes "heap_reach s"
  shows "block_from_user_ptr sys u s =
    Done (List.find (\<lambda>i. user_addr (blocks s ! i) = u) [0..<length (blocks s)], s)"
proof -
  have wf: "heap_wf s" using assms by (rule heap_reach_wf)
  have "lookup_user s u = List.find (\<lambda>i. user_addr (blocks s ! i) = u) [0..<length (blocks s)]"
  proof (cases "lookup_user s u")
    case None
    then have "u \<notin> user_addr ` set (blocks s)" using br.back_None [OF wf] by blast
    then have "\<And>i. i < length (blocks s) \<Longrightarrow> user_addr (blocks s ! i) \<noteq> u" by force
    then have "List.find (\<lambda>i. user_addr (blocks s ! i) = u) [0..<length (blocks s)] = None"
      by (auto simp: find_None_iff)
    with None show ?thesis by simp
  next
    case (Some i)
    then have i: "i < length (blocks s)" "user_addr (blocks s ! i) = u" using br.back_sound [OF wf] by auto
    moreover have "user_addr (blocks s ! j) \<noteq> u" if "j < i" for j
      using br.keys_distinct [OF wf] i that by (auto simp: distinct_conv_nth)
    ultimately have "List.find (\<lambda>i. user_addr (blocks s ! i) = u) [0..<length (blocks s)] = Some i"
      by (auto simp: find_Some_iff intro!: exI [of _ i])
    with Some show ?thesis by simp
  qed
  then show ?thesis using heap_wfD(1) [OF wf] by simp
qed

theorem back_reference_scan_witness: "block_from_user_ptr (demo_sys 0) 4112 demo_heap = Done (Some 0, demo_heap)"
  by (subst back_reference_scan [OF demo_reach]) simp

lemma ownership:
  assumes wf: "heap_wf s"
  shows "redzone_owns sys p s = Done (p \<in> user_addr ` set (blocks s), s)
    \<and> (p \<in> user_addr ` set (blocks s) \<longrightarrow> redzone_maybe_owns sys p s = Done (True, s))
    \<and> (\<forall>i < length (blocks s). user_addr (blocks s ! i) = p \<longrightarrow>
         redzone_usable_size sys p s = Done (user_size (blocks s ! i), s))
    \<and> (p \<notin> user_addr ` set (blocks s) \<longrightarrow> redzone_usable_size sys p s = Done (0, s))"
proof -
  note h = heap_wfD(1,2) [OF wf]
  have nz: "p \<noteq> 0" if "p \<in> user_addr ` set (blocks s)"
  proof -
    from that obtain b where b: "b \<in> set (blocks s)" "p = user_addr b" by blast
    from block_okD(3) [OF heap_wfD(6) [OF wf b(1)]] show ?thesis by (auto simp: b(2))
  qed
  have own: "lookup_user s p \<noteq> None \<longleftrightarrow> p \<in> user_addr ` set (blocks s)"
    unfolding br.back_None [OF wf, of p] by (rule not_not)
  have "redzone_owns sys p s = Done (p \<in> user_addr ` set (blocks s), s)"
    unfolding redzone_owns_eq [OF h] own using nz by blast
  moreover have "redzone_maybe_owns sys p s = Done (True, s)" if "p \<in> user_addr ` set (blocks s)"
  proof -
    have "lookup_user s p \<noteq> None" using own that by (rule iffD2)
    then have "16 \<le> p \<and> shadow_val s (p - 8) = RZ_POISON" by (simp add: lookup_user_def split: if_splits)
    then show ?thesis by (simp add: redzone_maybe_owns_eq [OF h(1)])
  qed
  moreover have "redzone_usable_size sys p s = Done (user_size (blocks s ! i), s)"
    if "i < length (blocks s)" "user_addr (blocks s ! i) = p" for i
  proof -
    have "lookup_user s p = Some i" using br.back_complete [OF wf that(1)] that(2) by simp
    moreover have "p \<noteq> 0" using nz own calculation by blast
    ultimately show ?thesis by (simp add: redzone_usable_size_eq [OF h])
  qed
  moreover have "redzone_usable_size sys p s = Done (0, s)" if "p \<notin> user_addr ` set (blocks s)"
  proof -
    have "lookup_user s p = None" using own that by blast
    then show ?thesis by (simp add: redzone_usable_size_eq [OF h])
  qed
  ultimately show ?thesis by blast
qed

text \<open>The ownership queries of the interposer: \<^verbatim>\<open>__redzone_owns\<close> holds exactly on the addresses
  handed out, the lock-free \<^verbatim>\<open>__redzone_maybe_owns\<close> never denies one of them, and
  \<^verbatim>\<open>__redzone_usable_size\<close> answers the requested size of each.\<close>

theorem ownership_queries:
  assumes "heap_reach s"
  shows "redzone_owns sys p s = Done (p \<in> user_addr ` set (blocks s), s)
    \<and> (p \<in> user_addr ` set (blocks s) \<longrightarrow> redzone_maybe_owns sys p s = Done (True, s))
    \<and> (\<forall>i < length (blocks s). user_addr (blocks s ! i) = p \<longrightarrow>
         redzone_usable_size sys p s = Done (user_size (blocks s ! i), s))
    \<and> (p \<notin> user_addr ` set (blocks s) \<longrightarrow> redzone_usable_size sys p s = Done (0, s))"
  using ownership [OF heap_reach_wf [OF assms]] .

theorem ownership_queries_witness:
  "redzone_owns (demo_sys 0) 4112 demo_heap = Done (True, demo_heap)
    \<and> redzone_usable_size (demo_sys 0) 4112 demo_heap = Done (10, demo_heap)"
  using ownership_queries [OF demo_reach, of "demo_sys 0" 4112] by (auto simp: demo_block)

section \<open>Stack slots and globals\<close>

text \<open>Which shadow bytes of a guarded slot carry the red-zone code.\<close>

lemma below_chunk: "(x :: nat) < 8 * k \<longleftrightarrow> x div 8 < k"
  by (simp add: div_less_iff_less_mult mult.commute)

definition full_zone :: "u64 \<Rightarrow> u64 \<Rightarrow> u64 \<Rightarrow> bool" where
  "full_zone base usz x \<longleftrightarrow> unat x < unat base + 16 \<or> unat base + 16 + (unat usz + 7) div 8 * 8 \<le> unat x"

lemma stack_frame_codes:
  assumes r: "reserved s" and ok: "slot_ok base usz"
    and x: "unat base \<le> unat x" "unat x < unat base + unat usz + 32"
  shows "shadow_val (stack_frame s base usz) x = STACK_RZ \<longleftrightarrow> full_zone base usz x"
    and "sint (shadow_val (stack_frame s base usz) x) < 0 \<longleftrightarrow> full_zone base usz x"
proof -
  obtain k where k: "unat base = 8 * k" using slot_okD(1) [OF ok] by (rule mod8_0E)
  define c where "c = unat x div 8"
  have lo: "k \<le> c" using div_le_mono [OF x(1), of 8] by (simp add: c_def k)
  have hi: "c < (unat base + unat usz + 39) div 8"
    using div_le_mono [of "unat x + 8" "unat base + unat usz + 39" 8] x(2) by (simp add: c_def)
  have fz: "full_zone base usz x \<longleftrightarrow> c < k + 2 \<or> k + 2 + (unat usz + 7) div 8 \<le> c"
  proof -
    have "unat base + 16 = 8 * (k + 2)" "unat base + 16 + (unat usz + 7) div 8 * 8 = 8 * (k + 2 + (unat usz + 7) div 8)"
      by (simp_all add: k algebra_simps)
    then show ?thesis unfolding full_zone_def c_def not_less [symmetric] by (simp only: below_chunk)
  qed
  note cc = chunk_ceil [of "k + 2" c "unat usz"]
  have v: "shadow_val (stack_frame s base usz) x =
      (if k + 2 \<le> c \<and> c < k + 2 + unat usz div 8 then 0
       else if c = k + 2 + unat usz div 8 \<and> unat usz mod 8 \<noteq> 0 then of_nat (unat usz mod 8)
       else STACK_RZ)"
    unfolding shadow_stack_frame [OF r ok] using lo hi by (simp add: k c_def)
  have "unat usz mod 8 < 8" by simp
  then have "unat usz mod 8 \<in> {0, 1, 2, 3, 4, 5, 6, 7}" by auto
  then have t: "(of_nat (unat usz mod 8) :: i8) \<noteq> STACK_RZ" "\<not> sint (of_nat (unat usz mod 8) :: i8) < 0"
    by (auto simp: STACK_RZ_def)
  show "shadow_val (stack_frame s base usz) x = STACK_RZ \<longleftrightarrow> full_zone base usz x"
    unfolding v fz using cc t(1) by (auto simp: STACK_RZ_def)
  show "sint (shadow_val (stack_frame s base usz) x) < 0 \<longleftrightarrow> full_zone base usz x"
    unfolding v fz using cc t(2) by (auto simp: STACK_RZ_def)
qed

text \<open>C13. Around a stack slot the check is exact to the byte: an access inside the enlarged slot passes
  when both its ends are in the object and is reported otherwise. The report says stack-buffer-overflow
  when one end lies in a whole red-zone chunk; an access that goes wrong only in the last, partly used
  chunk of the object gets the generic name.\<close>

theorem stack_slot_exact:
  assumes "heap_reach s" and "slot_ok base usz" and "region_clear s base (usz + 32)"
    and "redzone_stack_enter sys base usz s = Done s1" and "0 < unat sz"
    and "unat base \<le> unat a" and "unat a + unat sz \<le> unat base + unat usz + 32"
  shows "redzone_check sys' a sz w loc line s1 =
    (if unat base + 16 \<le> unat a \<and> unat a + unat sz \<le> unat base + 16 + unat usz then Done s1
     else Halt (Report (ReportSimple
       (if full_zone base usz a \<or> full_zone base usz (a + sz - 1)
        then ''stack-buffer-overflow'' else ''buffer-overflow'') a sz w loc line)))"
proof -
  have wf: "heap_wf s" using assms(1) by (rule heap_reach_wf)
  note h = heap_wfD(1,2) [OF wf]
  have s1: "s1 = stack_frame s base usz" using assms(4) by (simp add: stack_enter_eq [OF h(1)])
  have lim: "unat a + unat sz \<le> 140737488355328" using assms(2,7) by (simp add: slot_ok_def)
  have lst: "unat (a + sz - 1) = unat a + unat sz - 1" using assms(5) lim by (intro last_byte) simp_all
  have wf1: "heap_wf (stack_frame s base usz)"
    using stack_enter_wf [OF wf assms(2)] assms(3) by (simp add: slot_apart_def region_clear_def)
  have "\<not> in_block b (unat a)" if "b \<in> set (blocks s)" for b
    using apart_blocks [of base "usz + 32" b "unat a"] assms(3,5,6,7) that slot_okD(4) [OF assms(2)]
    by (simp add: region_clear_def)
  then have nb: "find_block a (stack_frame s base usz) = None"
    unfolding find_block_none [OF wf1] by (simp add: stack_frame_def)
  have k: "region_kind (shadow_val (stack_frame s base usz) a) (shadow_val (stack_frame s base usz) (a + sz - 1)) =
      (if full_zone base usz a \<or> full_zone base usz (a + sz - 1)
       then ''stack-buffer-overflow'' else ''buffer-overflow'')"
  proof -
    have "unat base \<le> unat (a + sz - 1)" "unat (a + sz - 1) < unat base + unat usz + 32"
      "unat base \<le> unat a" "unat a < unat base + unat usz + 32"
      using assms(5-7) unfolding lst by linarith+
    then show ?thesis
      using stack_frame_codes [OF h(1) assms(2), of a] stack_frame_codes [OF h(1) assms(2), of "a + sz - 1"]
      by (auto simp: region_kind_def Let_def poison_codes)
  qed
  show ?thesis
    using check_stack_slot [OF h assms(2) nb assms(5-7)] unfolding s1 k .
qed

lemma demo_slot: "slot_ok 8192 5" "region_clear demo_heap 8192 (5 + 32)"
  by (simp_all add: slot_ok_def region_clear_def demo_block apart_def)

theorem stack_slot_exact_witness:
  "redzone_check (demo_sys 0) 8213 1 True None 0 (stack_frame demo_heap 8192 5) =
     Halt (Report (ReportSimple ''buffer-overflow'' 8213 1 True None 0))
   \<and> redzone_check (demo_sys 0) 8216 1 True None 0 (stack_frame demo_heap 8192 5) =
     Halt (Report (ReportSimple ''stack-buffer-overflow'' 8216 1 True None 0))"
proof -
  have e: "redzone_stack_enter (demo_sys 0) 8192 5 demo_heap = Done (stack_frame demo_heap 8192 5)"
    using heap_wfD(1) [OF heap_reach_wf [OF demo_reach]] by (rule stack_enter_eq)
  note t = stack_slot_exact [OF demo_reach demo_slot e]
  show ?thesis using t [of 1 8213] t [of 1 8216] by (simp add: full_zone_def)
qed

text \<open>Leaving the slot undoes the poison: entering and leaving changes no table entry and no memory,
  clears the shadow of the chunks of the slot and leaves every other shadow byte as it was.\<close>

theorem stack_enter_leave:
  assumes "heap_reach s" and "slot_ok base usz"
    and "redzone_stack_enter sys base usz s = Done s1" and "redzone_stack_leave sys' base usz s1 = Done s2"
  shows "blocks s2 = blocks s \<and> mem s2 = mem s
    \<and> shadow_val s2 x = (if unat base div 8 \<le> unat x div 8 \<and> unat x div 8 < (unat base + unat usz + 39) div 8
        then 0 else shadow_val s x)"
proof -
  have r: "reserved s" using heap_wfD(1) [OF heap_reach_wf [OF assms(1)]] .
  have s1: "s1 = stack_frame s base usz" using assms(3) by (simp add: stack_enter_eq [OF r])
  then have r1: "reserved s1" using r by (simp add: stack_frame_def)
  have s2: "s2 = fill s1 base (usz + 32) 0" using assms(4) by (simp add: stack_leave_eq [OF r1])
  have "shadow_val s1 x = shadow_val s x"
    if "\<not> (unat base div 8 \<le> unat x div 8 \<and> unat x div 8 < (unat base + unat usz + 39) div 8)"
    unfolding s1 by (rule stack_frame_outside [OF r assms(2)]) (use that in linarith)
  then show ?thesis unfolding s2 stack_leave_val [OF r1 assms(2)] by (auto simp: s1 stack_frame_def)
qed

theorem stack_enter_leave_witness:
  "blocks (fill (stack_frame demo_heap 8192 5) 8192 37 0) = blocks demo_heap"
proof -
  have r: "reserved demo_heap" using heap_wfD(1) [OF heap_reach_wf [OF demo_reach]] .
  then have "reserved (stack_frame demo_heap 8192 5)" by (simp add: stack_frame_def)
  then have "redzone_stack_leave (demo_sys 0) 8192 5 (stack_frame demo_heap 8192 5) =
      Done (fill (stack_frame demo_heap 8192 5) 8192 37 0)" by (simp add: stack_leave_eq)
  from stack_enter_leave [OF demo_reach demo_slot(1) stack_enter_eq [OF r] this] show ?thesis by blast
qed

text \<open>C14. Registering a global poisons the sixteen bytes on either side of it and nothing of it;
  registering only its right side leaves the left neighbour alone.\<close>

theorem global_guard_exact:
  assumes "heap_reach s" and "global_ok data sz"
    and "redzone_global_register sys data sz s = Done s1"
    and "redzone_global_register_right sys' data sz s = Done s2"
    and "unat x < unat data + unat sz + 16"
  shows "(unat data \<le> unat x + 16 \<longrightarrow> (poisoned s1 x \<longleftrightarrow> \<not> (unat data \<le> unat x \<and> unat x < unat data + unat sz)))
    \<and> (unat data \<le> unat x \<longrightarrow> (poisoned s2 x \<longleftrightarrow> unat data + unat sz \<le> unat x))
    \<and> (unat x < unat data \<longrightarrow> shadow_val s2 x = shadow_val s x)"
proof -
  have r: "reserved s" using heap_wfD(1) [OF heap_reach_wf [OF assms(1)]] .
  have s: "s1 = global_frame s data sz" "s2 = global_right_frame s data sz"
    using assms(3,4) by (simp_all add: global_register_eq [OF r] global_register_right_eq [OF r])
  have g: "unat data mod 16 = 0" "unat data + unat sz + 16 \<le> 140737488355328"
    using assms(2) by (simp_all add: global_ok_def)
  have al: "unat data mod 8 = 0" using g(1) by presburger
  have "shadow_val s2 x = shadow_val s x" if "unat x < unat data"
  proof -
    obtain k where k: "unat data = 8 * k" using al by (rule mod8_0E)
    then have "unat x div 8 < k" using that by (simp only: below_chunk)
    moreover have "(unat data + unat sz) div 8 \<ge> k" using div_le_mono [of "unat data" "unat data + unat sz" 8] k by simp
    ultimately show ?thesis unfolding s(2) shadow_global_right [OF r al g(2)] by (simp add: k)
  qed
  then show ?thesis
    using global_frame_poison [OF r assms(2), of x] global_right_poison [OF r al g(2), of x] assms(5)
    unfolding s by blast
qed

theorem global_guard_exact_witness:
  "poisoned (global_frame demo_heap 8192 5) 8197 \<and> \<not> poisoned (global_frame demo_heap 8192 5) 8196"
proof -
  have r: "reserved demo_heap" using heap_wfD(1) [OF heap_reach_wf [OF demo_reach]] .
  have ok: "global_ok 8192 5" by (simp add: global_ok_def)
  note t = global_guard_exact [OF demo_reach ok global_register_eq [OF r] global_register_right_eq [OF r]]
  show ?thesis using t [of 8197] t [of 8196] by simp
qed

section \<open>The inlined check and the limits of the check\<close>

text \<open>C15. The test the pass inlines before a load or store is exact with respect to the runtime: it is
  clean if and only if the call it skips would have returned without a report.\<close>

theorem inline_test_exact:
  assumes "heap_reach s" and "0 < unat sz" and "unat a + unat sz \<le> 140737488355328"
  shows "(\<not> inline_bad s a sz) = (redzone_check sys a sz w loc line s = Done s)"
proof -
  have "sz \<noteq> 0" using assms(2) by auto
  then show ?thesis
    using heap_wfD(1,2) [OF heap_reach_wf [OF assms(1)]] inline_bad_iff [OF assms(2,3)]
    by (simp add: redzone_check_Done)
qed

theorem inline_test_exact_witness: "inline_bad demo_heap 4120 4"
proof -
  have "redzone_check (demo_sys 0) 4120 4 True None 0 demo_heap \<noteq> Done demo_heap"
    by (subst check_in_block [OF heap_reach_wf [OF demo_reach], of 0]) (simp_all add: in_block_def in_user_def)
  then show ?thesis using inline_test_exact [OF demo_reach, of 4 4120 "demo_sys 0" True None 0] by simp
qed

text \<open>Only the two ends are tested, so a long operation that starts in a live block and ends in
  memory the checker does not know passes although it runs over the block's red zone.\<close>

theorem bulk_overrun_missed:
  assumes "heap_reach s" and "i < length (blocks s)" and "\<not> freed (blocks s ! i)"
    and "in_user (blocks s ! i) (unat a)" and "unat a + unat sz \<le> 18446744073709551616"
    and "unat (real_base (blocks s ! i)) + unat (total_size (blocks s ! i)) < unat a + unat sz"
    and "\<not> poisoned s (a + sz - 1)"
  shows "redzone_check sys a sz w loc line s = Done s
    \<and> (\<exists>x. unat a \<le> x \<and> x < unat a + unat sz \<and> in_block (blocks s ! i) x \<and> \<not> in_user (blocks s ! i) x)"
proof -
  have wf: "heap_wf s" using assms(1) by (rule heap_reach_wf)
  note h = heap_wfD [OF wf]
  let ?b = "blocks s ! i"
  have b: "?b \<in> set (blocks s)" "block_ok ?b" using assms(2) h(6) by auto
  note d = block_okD [OF b(2)]
  have "\<not> poisoned s a"
    using poisoned_in_block [OF h(5) b in_user_in_block [OF b(2) assms(4)]] assms(3,4) by simp
  then have "redzone_check sys a sz w loc line s = Done s"
    using assms(7) by (simp add: redzone_check_Done [OF h(1,2)])
  moreover have "unat a \<le> unat (user_addr ?b) + unat (user_size ?b)"
    "unat (user_addr ?b) + unat (user_size ?b) < unat a + unat sz"
    "in_block ?b (unat (user_addr ?b) + unat (user_size ?b))"
    "\<not> in_user ?b (unat (user_addr ?b) + unat (user_size ?b))"
    using assms(4,6) d(4,5) unfolding in_user_def in_block_def by linarith+
  ultimately show ?thesis by blast
qed

lemma demo_outside: "\<not> poisoned demo_heap 4219"
proof -
  have "reserved (started\<lparr>blocks := blocks started @ [new_block 4096 10 16 None 0], cap := new_cap started\<rparr>)"
    using heap_wfD(1) [OF started_wf] by simp
  from so.load_guarded [OF this, of 4112 42 4096 10 RZ_POISON 4219]
  have "shadow_val demo_heap 4219 = shadow_val started 4219"
    by (simp add: demo_heap_def alloc_result_def demo_user demo_total)
  then show ?thesis by (simp add: poisoned_def byte_bad_def started_def shadow_val_def shadow_at_def)
qed

theorem bulk_overrun_missed_witness:
  "redzone_check (demo_sys 0) 4112 108 True None 0 demo_heap = Done demo_heap"
  using bulk_overrun_missed [OF demo_reach, of 0 4112 108 "demo_sys 0" True None 0] demo_outside
  by (simp add: in_user_def)

text \<open>\<^verbatim>\<open>realloc\<close> of a pointer the table does not know returns a fresh block and copies nothing: the
  memory is exactly what \<^verbatim>\<open>malloc\<close> of the new size leaves, and the old pointer is not released.\<close>

theorem realloc_foreign_loses_contents:
  assumes "heap_reach s" and "sys_ok sys s" and "p \<noteq> 0" and "sz \<noteq> 0"
    and "redzone_malloc sys sz loc line s = Done (q, s1)" and "q \<noteq> 0"
    and "find_block p s1 = None"
  shows "redzone_realloc sys p sz loc line s = Done (q, s1)"
proof -
  have wf: "heap_wf s" using assms(1) by (rule heap_reach_wf)
  have f: "fresh s sz 16 loc line q s1"
    by (rule redzone_malloc_cases [OF wf assms(2), of sz loc line]) (use assms(5,6) in auto)
  note fd = freshD [OF f]
  have out: "\<forall>b \<in> set (blocks s1). \<not> in_block b (unat p)"
    using assms(7) by (simp only: find_block_none [OF fd(1)])
  moreover have "b \<in> set (blocks s1)" if b: "b \<in> set (blocks s)" for b
  proof -
    from b obtain j where "j < length (blocks s)" "b = blocks s ! j" by (auto simp: in_set_conv_nth)
    then show ?thesis using fd(3,4) by (metis less_SucI nth_mem)
  qed
  ultimately have "\<forall>b \<in> set (blocks s). \<not> in_block b (unat p)" by blast
  moreover have "\<not> in_block (blocks s1 ! length (blocks s)) (unat p)" using out fd(9) by (meson nth_mem)
  ultimately show ?thesis by (rule realloc_foreign [OF wf assms(3,4) _ assms(5) f])
qed

theorem realloc_foreign_loses_contents_witness:
  "redzone_realloc (demo_sys 4096) 65536 10 None 0 started = Done (4112, demo_heap)"
proof (rule realloc_foreign_loses_contents [OF _ _ _ _ demo_malloc])
  show "heap_reach started" unfolding heap_reach_def by (rule Refl)
  show "sys_ok (demo_sys 4096) started" by (rule demo_sys_ok) simp_all
  show "find_block 65536 demo_heap = None"
    unfolding find_block_none [OF heap_reach_wf [OF demo_reach]] by (simp add: demo_block in_block_def)
qed simp_all

lemma reach_idle: "heap_reach s \<Longrightarrow> in_runtime s = 0"
  using heap_steps_good [OF _ started_wf, of s]
  by (simp add: heap_reach_def good_step_def) (simp add: started_def init_rt_def)

text \<open>The table lock is balanced and the runtime never waits for itself: between calls the lock is
  free and the re-entrancy counter is back at 0, and no allocation, release or check deadlocks.\<close>

theorem lock_discipline:
  assumes "heap_reach s"
  shows "\<not> lock_held s \<and> redzone_in_runtime s = 0
    \<and> redzone_free sys p s \<noteq> Halt TableDeadlock
    \<and> redzone_malloc sys sz loc line s \<noteq> Halt TableDeadlock
    \<and> redzone_check sys a sz w loc line s \<noteq> Halt TableDeadlock
    \<and> redzone_owns sys p s \<noteq> Halt TableDeadlock"
proof -
  have wf: "heap_wf s" using assms by (rule heap_reach_wf)
  note h = heap_wfD(1,2) [OF wf]
  have "in_runtime s = 0" using assms by (rule reach_idle)
  moreover have "redzone_free sys p s \<noteq> Halt TableDeadlock"
    by (simp add: redzone_free_eq [OF wf] split: option.splits)
  moreover have "redzone_malloc sys sz loc line s \<noteq> Halt TableDeadlock"
    by (simp add: redzone_malloc_def rz_allocate_eq [OF h])
  ultimately show ?thesis
    using h by (simp add: redzone_in_runtime_def redzone_check_eq redzone_owns_eq)
qed

theorem lock_discipline_witness: "redzone_in_runtime demo_heap = 0"
  using lock_discipline [OF demo_reach] by blast

text \<open>The alignment test accepts exactly the powers of two of the word.\<close>

theorem is_pow2_exact: "is_pow2 x = (\<exists>k < 64. x = 2 ^ k)"
  by (rule is_pow2_iff)

end
