(* ===== verification/RZ_Libc.thy ===== *)
theory RZ_Libc
  imports RZ_HeapProps
begin

text \<open>
  The bulk wrappers the pass calls instead of the C library (\<^verbatim>\<open>__redzone_memcpy\<close> to
  \<^verbatim>\<open>__redzone_sprintf\<close>): each finds the range the call will write, checks its two ends and then lets
  the library do the work. Reading the length of a string that has no NUL does not return, so these
  calls give \<open>None\<close> there. The expansion of a format is a parameter.
\<close>

section \<open>The C library\<close>

partial_function (option) c_strlen :: "memory \<Rightarrow> u64 \<Rightarrow> nat option" where
  "c_strlen m p = (if m p = 0 then Some 0 else Option.bind (c_strlen m (p + 1)) (\<lambda>n. Some (Suc n)))"

fun c_strnlen :: "memory \<Rightarrow> u64 \<Rightarrow> nat \<Rightarrow> nat" where
  "c_strnlen m p 0 = 0"
| "c_strnlen m p (Suc n) = (if m p = 0 then 0 else Suc (c_strnlen m (p + 1) n))"

definition strlen_of :: "rt \<Rightarrow> u64 \<Rightarrow> u64 option" where
  "strlen_of s p = map_option of_nat (c_strlen (mem s) p)"

definition strnlen_of :: "rt \<Rightarrow> u64 \<Rightarrow> u64 \<Rightarrow> u64" where
  "strnlen_of s p n = of_nat (c_strnlen (mem s) p (unat n))"

definition c_strcpy :: "u64 \<Rightarrow> u64 \<Rightarrow> u64 \<Rightarrow> memory \<Rightarrow> memory" where
  "c_strcpy dst src sl m = mem_move dst src (sl + 1) m"

definition c_strncpy :: "u64 \<Rightarrow> u64 \<Rightarrow> u64 \<Rightarrow> u64 \<Rightarrow> memory \<Rightarrow> memory" where
  "c_strncpy dst src sl n m = mem_set (dst + sl) 0 (n - sl) (mem_move dst src sl m)"

definition c_strncat :: "u64 \<Rightarrow> u64 \<Rightarrow> u64 \<Rightarrow> memory \<Rightarrow> memory" where
  "c_strncat dst_end src sl m = mem_set (dst_end + sl) 0 1 (mem_move dst_end src sl m)"

definition c_strlcpy :: "u64 \<Rightarrow> u64 \<Rightarrow> u64 \<Rightarrow> u64 \<Rightarrow> memory \<Rightarrow> memory" where
  "c_strlcpy dst src sl n m =
     (if n = 0 then m else c_strncat dst src (if sl < n then sl else n - 1) m)"

text \<open>\<^verbatim>\<open>vsnprintf\<close>: the bytes the format expands to, or none when it fails; \<open>vs_limit\<close> says which buffer sizes
  the library accepts (POSIX lets it refuse sizes over \<^verbatim>\<open>INT_MAX\<close>).\<close>

record fmt_call =
  expansion :: "memory \<Rightarrow> 8 word list option"
  vs_limit :: "u64 \<Rightarrow> bool"

definition mem_write :: "u64 \<Rightarrow> 8 word list \<Rightarrow> memory \<Rightarrow> memory" where
  "mem_write dst bs m = (\<lambda>x. if in_span dst (length bs) x then bs ! unat (x - dst) else m x)"

definition c_vsnprintf :: "fmt_call \<Rightarrow> u64 \<Rightarrow> u64 \<Rightarrow> memory \<Rightarrow> int \<times> memory" where
  "c_vsnprintf fc dst n m =
     (case expansion fc m of
        None \<Rightarrow> (-1, m)
      | Some bs \<Rightarrow>
          if 2147483647 < length bs \<or> n \<noteq> 0 \<and> \<not> vs_limit fc n then (-1, m)
          else (int (length bs), if n = 0 then m else mem_write dst (take (unat n - 1) bs @ [0]) m))"

section \<open>The wrappers\<close>

text \<open>Each returns the value of the C function and the state, unless a check reports.\<close>

type_synonym wrapped = "(u64 \<times> rt) outcome"

definition set_mem :: "rt \<Rightarrow> (memory \<Rightarrow> memory) \<Rightarrow> rt" where
  "set_mem s f = s\<lparr>mem := f (mem s)\<rparr>"

definition redzone_memcpy :: "sys \<Rightarrow> u64 \<Rightarrow> u64 \<Rightarrow> u64 \<Rightarrow> cstr \<Rightarrow> int \<Rightarrow> rt \<Rightarrow> wrapped" where
  "redzone_memcpy sys dst src n file line s =
     bindO (redzone_check sys dst n True file line s) (\<lambda>s.
     bindO (redzone_check sys src n False file line s) (\<lambda>s.
     Done (dst, set_mem s (mem_move dst src n))))"

definition redzone_memmove :: "sys \<Rightarrow> u64 \<Rightarrow> u64 \<Rightarrow> u64 \<Rightarrow> cstr \<Rightarrow> int \<Rightarrow> rt \<Rightarrow> wrapped" where
  "redzone_memmove sys dst src n file line s =
     bindO (redzone_check sys dst n True file line s) (\<lambda>s.
     bindO (redzone_check sys src n False file line s) (\<lambda>s.
     Done (dst, set_mem s (mem_move dst src n))))"

definition redzone_memset :: "sys \<Rightarrow> u64 \<Rightarrow> 32 word \<Rightarrow> u64 \<Rightarrow> cstr \<Rightarrow> int \<Rightarrow> rt \<Rightarrow> wrapped" where
  "redzone_memset sys dst c n file line s =
     bindO (redzone_check sys dst n True file line s) (\<lambda>s.
     Done (dst, set_mem s (mem_set dst (ucast c) n)))"

definition redzone_strcpy :: "sys \<Rightarrow> u64 \<Rightarrow> u64 \<Rightarrow> cstr \<Rightarrow> int \<Rightarrow> rt \<Rightarrow> wrapped option" where
  "redzone_strcpy sys dst src file line s =
     (case strlen_of s src of
        None \<Rightarrow> None
      | Some sl \<Rightarrow>
          let n = sl + 1 in Some (
          bindO (redzone_check sys src n False file line s) (\<lambda>s.
          bindO (redzone_check sys dst n True file line s) (\<lambda>s.
          Done (dst, set_mem s (c_strcpy dst src sl))))))"

definition redzone_strcat :: "sys \<Rightarrow> u64 \<Rightarrow> u64 \<Rightarrow> cstr \<Rightarrow> int \<Rightarrow> rt \<Rightarrow> wrapped option" where
  "redzone_strcat sys dst src file line s =
     (case (strlen_of s dst, strlen_of s src) of
        (Some dl, Some l) \<Rightarrow>
          let sl = l + 1 in Some (
          bindO (redzone_check sys src sl False file line s) (\<lambda>s.
          bindO (redzone_check sys dst (dl + sl) True file line s) (\<lambda>s.
          Done (dst, set_mem s (c_strcpy (dst + dl) src l)))))
      | _ \<Rightarrow> None)"

definition redzone_strncpy :: "sys \<Rightarrow> u64 \<Rightarrow> u64 \<Rightarrow> u64 \<Rightarrow> cstr \<Rightarrow> int \<Rightarrow> rt \<Rightarrow> wrapped" where
  "redzone_strncpy sys dst src n file line s =
     bindO (redzone_check sys dst n True file line s) (\<lambda>s.
     let sl = strnlen_of s src n in
     bindO (redzone_check sys src (if sl < n then sl + 1 else n) False file line s) (\<lambda>s.
     Done (dst, set_mem s (c_strncpy dst src sl n))))"

definition redzone_strncat :: "sys \<Rightarrow> u64 \<Rightarrow> u64 \<Rightarrow> u64 \<Rightarrow> cstr \<Rightarrow> int \<Rightarrow> rt \<Rightarrow> wrapped option" where
  "redzone_strncat sys dst src n file line s =
     (case strlen_of s dst of
        None \<Rightarrow> None
      | Some dl \<Rightarrow>
          let sl = strnlen_of s src n in Some (
          bindO (redzone_check sys src sl False file line s) (\<lambda>s.
          bindO (redzone_check sys dst (dl + sl + 1) True file line s) (\<lambda>s.
          Done (dst, set_mem s (c_strncat (dst + dl) src sl))))))"

definition redzone_strlcpy :: "sys \<Rightarrow> u64 \<Rightarrow> u64 \<Rightarrow> u64 \<Rightarrow> cstr \<Rightarrow> int \<Rightarrow> rt \<Rightarrow> wrapped option" where
  "redzone_strlcpy sys dst src n file line s =
     (case strlen_of s src of
        None \<Rightarrow> None
      | Some sl \<Rightarrow> Some (
          bindO (redzone_check sys src (sl + 1) False file line s) (\<lambda>s.
          let wrote = (if n = 0 then 0 else if sl + 1 \<le> n then sl + 1 else n) in
          bindO (if wrote \<noteq> 0 then redzone_check sys dst wrote True file line s else Done s) (\<lambda>s.
          Done (sl, set_mem s (c_strlcpy dst src sl n))))))"

definition redzone_strlcat :: "sys \<Rightarrow> u64 \<Rightarrow> u64 \<Rightarrow> u64 \<Rightarrow> cstr \<Rightarrow> int \<Rightarrow> rt \<Rightarrow> wrapped option" where
  "redzone_strlcat sys dst src n file line s =
     (case strlen_of s src of
        None \<Rightarrow> None
      | Some sl \<Rightarrow> Some (
          bindO (redzone_check sys src (sl + 1) False file line s) (\<lambda>s.
          let dl = strnlen_of s dst n;
              avail = (if dl < n then n - dl else 0);
              wrote = (if avail = 0 then 0 else if sl + 1 \<le> avail then sl + 1 else avail) in
          bindO (if wrote \<noteq> 0 then redzone_check sys (dst + dl) wrote True file line s else Done s) (\<lambda>s.
          Done (dl + sl, set_mem s (c_strlcpy (dst + dl) src sl avail))))))"

definition redzone_snprintf :: "sys \<Rightarrow> u64 \<Rightarrow> u64 \<Rightarrow> cstr \<Rightarrow> int \<Rightarrow> fmt_call \<Rightarrow> rt \<Rightarrow> (int \<times> rt) outcome" where
  "redzone_snprintf sys dst n file line fc s =
     (let len = fst (c_vsnprintf fc 0 0 (mem s)) in
      bindO (if len \<ge> 0
             then (let want = of_int len + 1; wrote = (if n = 0 then 0 else if want \<le> n then want else n) in
                   if wrote \<noteq> 0 then redzone_check sys dst wrote True file line s else Done s)
             else Done s) (\<lambda>s.
      case c_vsnprintf fc dst n (mem s) of (r, m) \<Rightarrow> Done (r, s\<lparr>mem := m\<rparr>)))"

definition redzone_sprintf :: "sys \<Rightarrow> u64 \<Rightarrow> cstr \<Rightarrow> int \<Rightarrow> fmt_call \<Rightarrow> rt \<Rightarrow> (int \<times> rt) outcome" where
  "redzone_sprintf sys dst file line fc s =
     (let len = fst (c_vsnprintf fc 0 0 (mem s)) in
      bindO (if len \<ge> 0 then redzone_check sys dst (of_int len + 1) True file line s else Done s) (\<lambda>s.
      case c_vsnprintf fc dst SIZE_MAX (mem s) of (r, m) \<Rightarrow> Done (r, s\<lparr>mem := m\<rparr>)))"

section \<open>Lengths\<close>

lemma strlen_zero: "c_strlen m p = Some n \<Longrightarrow> m (p + of_nat n) = 0 \<and> (\<forall>k < n. m (p + of_nat k) \<noteq> 0)"
proof (induction n arbitrary: p)
  case 0
  then show ?case by (subst (asm) c_strlen.simps) (auto split: if_splits Option.bind_splits)
next
  case (Suc n)
  from Suc.prems have p: "m p \<noteq> 0" "c_strlen m (p + 1) = Some n"
    by (subst (asm) c_strlen.simps; auto split: if_splits Option.bind_splits)+
  from Suc.IH [OF p(2)] have z: "m (p + 1 + of_nat n) = 0" "\<And>k. k < n \<Longrightarrow> m (p + 1 + of_nat k) \<noteq> 0" by auto
  have "m (p + of_nat k) \<noteq> 0" if "k < Suc n" for k
    using that p(1) z(2) [of "k - 1"] by (cases k) (auto simp: add.assoc)
  with z(1) show ?case by (simp add: add.assoc)
qed

lemma strlen_returns: "m (p + of_nat n) = 0 \<Longrightarrow> \<exists>k \<le> n. c_strlen m p = Some k"
proof (induction n arbitrary: p)
  case 0
  then show ?case by (subst c_strlen.simps) simp
next
  case (Suc n)
  then have "m (p + 1 + of_nat n) = 0" by (simp add: add.assoc)
  from Suc.IH [OF this] obtain k where k: "k \<le> n" "c_strlen m (p + 1) = Some k" by blast
  then have "c_strlen m p = Some (if m p = 0 then 0 else Suc k)" by (subst c_strlen.simps) simp
  then show ?case using k(1) by (intro exI [of _ "if m p = 0 then 0 else Suc k"]) simp
qed

lemma strnlen_le: "c_strnlen m p n \<le> n"
  by (induction m p n rule: c_strnlen.induct) auto

section \<open>What a call reads and writes\<close>

text \<open>The calls as data, and how each ends.\<close>

datatype bulk_call =
    Memcpy u64 u64 u64 | Memmove u64 u64 u64 | Memset u64 "32 word" u64
  | Strcpy u64 u64 | Strcat u64 u64 | Strncpy u64 u64 u64 | Strncat u64 u64 u64
  | Strlcpy u64 u64 u64 | Strlcat u64 u64 u64
  | Snprintf u64 u64 fmt_call | Sprintf u64 fmt_call

fun bulk :: "sys \<Rightarrow> cstr \<Rightarrow> int \<Rightarrow> bulk_call \<Rightarrow> rt \<Rightarrow> rt outcome option" where
  "bulk sys f l (Memcpy d p n) s = Some (bindO (redzone_memcpy sys d p n f l s) (\<lambda>(_, s). Done s))"
| "bulk sys f l (Memmove d p n) s = Some (bindO (redzone_memmove sys d p n f l s) (\<lambda>(_, s). Done s))"
| "bulk sys f l (Memset d c n) s = Some (bindO (redzone_memset sys d c n f l s) (\<lambda>(_, s). Done s))"
| "bulk sys f l (Strcpy d p) s = map_option (\<lambda>r. bindO r (\<lambda>(_, s). Done s)) (redzone_strcpy sys d p f l s)"
| "bulk sys f l (Strcat d p) s = map_option (\<lambda>r. bindO r (\<lambda>(_, s). Done s)) (redzone_strcat sys d p f l s)"
| "bulk sys f l (Strncpy d p n) s = Some (bindO (redzone_strncpy sys d p n f l s) (\<lambda>(_, s). Done s))"
| "bulk sys f l (Strncat d p n) s = map_option (\<lambda>r. bindO r (\<lambda>(_, s). Done s)) (redzone_strncat sys d p n f l s)"
| "bulk sys f l (Strlcpy d p n) s = map_option (\<lambda>r. bindO r (\<lambda>(_, s). Done s)) (redzone_strlcpy sys d p n f l s)"
| "bulk sys f l (Strlcat d p n) s = map_option (\<lambda>r. bindO r (\<lambda>(_, s). Done s)) (redzone_strlcat sys d p n f l s)"
| "bulk sys f l (Snprintf d n fc) s = Some (bindO (redzone_snprintf sys d n f l fc s) (\<lambda>(_, s). Done s))"
| "bulk sys f l (Sprintf d fc) s = Some (bindO (redzone_sprintf sys d f l fc s) (\<lambda>(_, s). Done s))"

text \<open>The bytes of a formatted output with its NUL; none when the format cannot be expanded.\<close>

definition fmt_room :: "fmt_call \<Rightarrow> memory \<Rightarrow> nat" where
  "fmt_room fc m =
     (case expansion fc m of Some bs \<Rightarrow> if length bs \<le> 2147483647 then Suc (length bs) else 0 | None \<Rightarrow> 0)"

text \<open>The range a call writes, in natural numbers, when the strings it measures end.\<close>

fun written :: "memory \<Rightarrow> bulk_call \<Rightarrow> (u64 \<times> nat) option" where
  "written m (Memcpy d p n) = Some (d, unat n)"
| "written m (Memmove d p n) = Some (d, unat n)"
| "written m (Memset d c n) = Some (d, unat n)"
| "written m (Strcpy d p) = map_option (\<lambda>l. (d, Suc l)) (c_strlen m p)"
| "written m (Strcat d p) =
     (case (c_strlen m d, c_strlen m p) of (Some k, Some l) \<Rightarrow> Some (d, k + Suc l) | _ \<Rightarrow> None)"
| "written m (Strncpy d p n) = Some (d, unat n)"
| "written m (Strncat d p n) = map_option (\<lambda>k. (d, Suc (k + c_strnlen m p (unat n)))) (c_strlen m d)"
| "written m (Strlcpy d p n) = map_option (\<lambda>l. (d, min (Suc l) (unat n))) (c_strlen m p)"
| "written m (Strlcat d p n) = map_option (\<lambda>l. (d + of_nat (c_strnlen m d (unat n)),
     min (Suc l) (unat n - c_strnlen m d (unat n)))) (c_strlen m p)"
| "written m (Snprintf d n fc) = Some (d, min (fmt_room fc m) (unat n))"
| "written m (Sprintf d fc) = Some (d, fmt_room fc m)"

text \<open>The range of the source a call reads and checks, if it checks one.\<close>

fun reads :: "memory \<Rightarrow> bulk_call \<Rightarrow> u64 \<times> nat" where
  "reads m (Memcpy d p n) = (p, unat n)"
| "reads m (Memmove d p n) = (p, unat n)"
| "reads m (Strcpy d p) = (p, case c_strlen m p of Some l \<Rightarrow> Suc l | None \<Rightarrow> 0)"
| "reads m (Strcat d p) = (p, case c_strlen m p of Some l \<Rightarrow> Suc l | None \<Rightarrow> 0)"
| "reads m (Strncpy d p n) = (p, min (Suc (c_strnlen m p (unat n))) (unat n))"
| "reads m (Strncat d p n) = (p, c_strnlen m p (unat n))"
| "reads m (Strlcpy d p n) = (p, case c_strlen m p of Some l \<Rightarrow> Suc l | None \<Rightarrow> 0)"
| "reads m (Strlcat d p n) = (p, case c_strlen m p of Some l \<Rightarrow> Suc l | None \<Rightarrow> 0)"
| "reads m x = (0, 0)"

definition span_ok :: "rt \<Rightarrow> u64 \<times> nat \<Rightarrow> bool" where
  "span_ok s r \<longleftrightarrow> snd r = 0 \<or> clean_ends s (fst r) (of_nat (snd r))"

lemma check_span:
  assumes "heap_wf s" and "k < 18446744073709551616"
  shows "redzone_check sys a (of_nat k) w f l s =
    (if span_ok s (a, k) then Done s else Halt (Report (check_report s a (of_nat k) w f l)))"
proof -
  have "(of_nat k :: u64) = 0 \<longleftrightarrow> k = 0" using assms(2) by (auto simp: word_unat_eq_iff unat_of_nat)
  then show ?thesis
    using rc.passes [OF assms(1) TrueI] rc.stops [OF assms(1) TrueI] by (simp add: span_ok_def)
qed

text \<open>Strings end within the address space a program has.\<close>

definition short_strings :: "memory \<Rightarrow> bool" where
  "short_strings m \<longleftrightarrow> (\<forall>p l. c_strlen m p = Some l \<longrightarrow> l < 140737488355328)"

section \<open>Every call is two checks and a write inside the range\<close>

lemma bind_check:
  "heap_wf s \<Longrightarrow> bindO (redzone_check sys a n w f l s) g =
    (if n = 0 \<or> clean_ends s a n then g s else Halt (Report (check_report s a n w f l)))"
  by (simp add: rc.bind)

lemma skip_check:
  "(if n \<noteq> 0 then redzone_check sys a n w f l s else Done s) = redzone_check sys a n w f l s"
  by (simp add: redzone_check_def)

definition checked_run :: "rt \<Rightarrow> cstr \<Rightarrow> int \<Rightarrow> u64 \<times> nat \<times> bool \<Rightarrow> u64 \<times> nat \<times> bool \<Rightarrow> memory \<Rightarrow> rt outcome" where
  "checked_run s f l x y m =
     (case (x, y) of
        ((a, j, v), (b, k, w)) \<Rightarrow>
          if \<not> span_ok s (a, j) then Halt (Report (check_report s a (of_nat j) v f l))
          else if \<not> span_ok s (b, k) then Halt (Report (check_report s b (of_nat k) w f l))
          else Done (s\<lparr>mem := m\<rparr>))"

lemma nat_zero_iff: "k < 18446744073709551616 \<Longrightarrow> (of_nat k :: u64) = 0 \<longleftrightarrow> k = 0"
  by (auto simp: word_unat_eq_iff unat_of_nat)

lemma check_then:
  assumes "heap_wf s" and "k < 18446744073709551616" and "n = of_nat k"
  shows "bindO (redzone_check sys a n w f l s) g =
    (if span_ok s (a, k) then g s else Halt (Report (check_report s a (of_nat k) w f l)))"
  using assms(2) by (simp add: bind_check [OF assms(1)] span_ok_def assms(3) nat_zero_iff)

lemma span_ok_0 [simp]: "span_ok s (a, 0)"
  by (simp add: span_ok_def)

lemma word_min:
  fixes n :: u64
  assumes "l < 18446744073709551615"
  shows "(if n = 0 then 0 else if of_nat l + 1 \<le> n then of_nat l + 1 else n) = of_nat (min (Suc l) (unat n))"
proof -
  have u: "unat (of_nat (Suc l) :: u64) = Suc l" unfolding unat_of_nat by (rule mod_less) (use assms in simp)
  have "of_nat l + 1 = (of_nat (Suc l) :: u64)" by simp
  then have "of_nat l + 1 \<le> n \<longleftrightarrow> Suc l \<le> unat n" unfolding word_le_nat_alt by (simp only: u)
  then show ?thesis by (auto simp: min_def)
qed

lemma in_span_sub:
  assumes "in_span (a + of_nat i) n x" and "i + n \<le> k" and "k \<le> 18446744073709551616"
  shows "in_span a k x"
proof -
  have lt: "unat (x - (a + of_nat i)) < n" using assms(1) by (simp add: in_span_def)
  have add: "unat (u + v) \<le> unat u + unat v" for u v :: u64 by (simp add: unat_word_ariths)
  have "x - a = (x - (a + of_nat i)) + of_nat i" by simp
  then have "unat (x - a) \<le> unat (x - (a + of_nat i)) + unat (of_nat i :: u64)"
    using add [of "x - (a + of_nat i)" "of_nat i"] by (simp only:)
  also have "unat (of_nat i :: u64) \<le> i" by (simp add: unat_of_nat)
  finally show ?thesis using lt assms(2) by (simp add: in_span_def)
qed

lemma mem_outside:
  "\<not> in_span d (unat n) x \<Longrightarrow> mem_move d p n m x = m x"
  "\<not> in_span d (unat n) x \<Longrightarrow> mem_set d c n m x = m x"
  "\<not> in_span d (length bs) x \<Longrightarrow> mem_write d bs m x = m x"
  by (simp_all add: mem_move_def mem_set_def mem_write_def)

definition bulk_ok :: "sys \<Rightarrow> cstr \<Rightarrow> int \<Rightarrow> bulk_call \<Rightarrow> rt \<Rightarrow> u64 \<Rightarrow> nat \<Rightarrow> bool" where
  "bulk_ok sys f l c s a k \<longleftrightarrow> (\<exists>m. (\<forall>x. \<not> in_span a k x \<longrightarrow> m x = mem s x) \<and>
     (case reads (mem s) c of (b, j) \<Rightarrow>
        j < 18446744073709551616 \<and>
        (bulk sys f l c s = Some (checked_run s f l (b, j, False) (a, k, True) m)
         \<or> bulk sys f l c s = Some (checked_run s f l (a, k, True) (b, j, False) m))))"

lemma bulk_okI:
  assumes "reads (mem s) c = (b, j)" and "j < 18446744073709551616"
    and "bulk sys f l c s = Some (checked_run s f l (b, j, False) (a, k, True) m)
      \<or> bulk sys f l c s = Some (checked_run s f l (a, k, True) (b, j, False) m)"
    and "\<And>x. \<not> in_span a k x \<Longrightarrow> m x = mem s x"
  shows "bulk_ok sys f l c s a k"
  unfolding bulk_ok_def using assms by (intro exI [of _ m]) simp

lemma of_unat: "n = (of_nat (unat n) :: u64)"
  by simp

lemma bulk_copy:
  assumes "heap_wf s" and "c = Memcpy d p n \<or> c = Memmove d p n"
  shows "bulk_ok sys f l c s d (unat n)"
proof (rule bulk_okI [of s c p "unat n" sys f l d "unat n" "mem_move d p n (mem s)"])
  note ck = check_then [OF assms(1) unat_bound64 of_unat]
  show "bulk sys f l c s = Some (checked_run s f l (p, unat n, False) (d, unat n, True) (mem_move d p n (mem s)))
      \<or> bulk sys f l c s = Some (checked_run s f l (d, unat n, True) (p, unat n, False) (mem_move d p n (mem s)))"
    using assms(2) by (auto simp: redzone_memcpy_def redzone_memmove_def ck checked_run_def set_mem_def)
qed (use assms(2) unat_bound64 in \<open>auto simp: mem_outside\<close>)

lemma bulk_set: "heap_wf s \<Longrightarrow> bulk_ok sys f l (Memset d c n) s d (unat n)"
  by (rule bulk_okI [of _ _ 0 0 _ _ _ _ _ "mem_set d (ucast c) n (mem s)"])
    (simp_all add: redzone_memset_def check_then [OF _ unat_bound64 of_unat] checked_run_def set_mem_def mem_outside)

lemma bulk_strcpy:
  assumes "heap_wf s" and "c_strlen (mem s) p = Some j" and "j < 140737488355328"
  shows "bulk_ok sys f l (Strcpy d p) s d (Suc j)"
proof (rule bulk_okI [of _ _ p "Suc j" _ _ _ _ _ "c_strcpy d p (of_nat j) (mem s)"])
  have j: "Suc j < 18446744073709551616" using assms(3) by simp
  note ck = check_then [OF assms(1) j, of "of_nat j + 1"]
  have "unat (of_nat (Suc j) :: u64) = Suc j" using j by (rule unat_nat64)
  then have u: "unat (of_nat j + 1 :: u64) = Suc j" by (simp add: add.commute)
  show "bulk sys f l (Strcpy d p) s = Some (checked_run s f l (p, Suc j, False) (d, Suc j, True) (c_strcpy d p (of_nat j) (mem s)))
      \<or> bulk sys f l (Strcpy d p) s = Some (checked_run s f l (d, Suc j, True) (p, Suc j, False) (c_strcpy d p (of_nat j) (mem s)))"
    by (simp add: redzone_strcpy_def strlen_of_def assms(2) Let_def ck checked_run_def set_mem_def)
  show "Suc j < 18446744073709551616" by (rule j)
  show "c_strcpy d p (of_nat j) (mem s) x = mem s x" if "\<not> in_span d (Suc j) x" for x
    using that by (simp add: c_strcpy_def mem_outside u)
qed (simp_all add: assms(2))

lemma outside_sub:
  assumes "\<not> in_span a k x" and "i + n \<le> k" and "k \<le> 18446744073709551616"
  shows "\<not> in_span (a + of_nat i) n x"
  using in_span_sub assms by blast

lemma c_strncat_outside:
  assumes "\<not> in_span d (Suc i) x" and "Suc i < 18446744073709551616"
  shows "c_strncat d p (of_nat i) m x = m x"
proof -
  have "\<not> in_span (d + of_nat i) (unat (1 :: u64)) x" by (rule outside_sub [OF assms(1)]) (use assms(2) in simp_all)
  moreover have "\<not> in_span d (unat (of_nat i :: u64)) x"
    using outside_sub [OF assms(1), of 0 i] assms(2) by (simp add: unat_nat64)
  ultimately show ?thesis by (simp add: c_strncat_def mem_outside)
qed

lemma c_strlcpy_outside:
  assumes "\<not> in_span d (min (Suc l) (unat n)) x" and "l < 18446744073709551615"
  shows "c_strlcpy d p (of_nat l) n m x = m x"
proof (cases "n = 0")
  case False
  have pos: "0 < unat n" using False by (simp add: unat_gt_0)
  have l: "unat (of_nat l :: u64) = l" using assms(2) by (simp add: unat_nat64)
  then have "of_nat l < n \<longleftrightarrow> l < unat n" by (simp add: word_less_nat_alt)
  moreover have "n - 1 = of_nat (unat n - 1)" using pos by (simp add: of_nat_diff)
  ultimately have e: "(if of_nat l < n then of_nat l else n - 1) = (of_nat (if l < unat n then l else unat n - 1) :: u64)"
    by simp
  let ?k = "if l < unat n then l else unat n - 1"
  have k: "Suc ?k < 18446744073709551616" using assms(2) unat_bound64 [of n] pos by auto
  have "\<not> in_span d (Suc ?k) x"
    using assms(1) pos by (auto simp: min_def split: if_splits)
  from c_strncat_outside [OF this k] show ?thesis unfolding c_strlcpy_def e using False by (simp only: if_False)
qed (simp add: c_strlcpy_def)

lemma bulk_strcat:
  assumes "heap_wf s" and "c_strlen (mem s) d = Some i" and "c_strlen (mem s) p = Some j"
    and "i < 140737488355328" and "j < 140737488355328"
  shows "bulk_ok sys f l (Strcat d p) s d (i + Suc j)"
proof (rule bulk_okI [of _ _ p "Suc j" _ _ _ _ _ "c_strcpy (d + of_nat i) p (of_nat j) (mem s)"])
  let ?m = "c_strcpy (d + of_nat i) p (of_nat j) (mem s)"
  have j: "Suc j < 18446744073709551616" "i + Suc j < 18446744073709551616" using assms(4,5) by simp_all
  have "unat (of_nat (Suc j) :: u64) = Suc j" using j(1) by (rule unat_nat64)
  then have u: "unat (of_nat j + 1 :: u64) = Suc j" by (simp add: add.commute)
  note ck = check_then [OF assms(1) j(1), of "of_nat j + 1"] check_then [OF assms(1) j(2), of "of_nat i + (of_nat j + 1)"]
  show "bulk sys f l (Strcat d p) s = Some (checked_run s f l (p, Suc j, False) (d, i + Suc j, True) ?m)
      \<or> bulk sys f l (Strcat d p) s = Some (checked_run s f l (d, i + Suc j, True) (p, Suc j, False) ?m)"
    by (simp add: redzone_strcat_def strlen_of_def assms(2,3) Let_def ck checked_run_def set_mem_def)
  show "Suc j < 18446744073709551616" by (rule j)
  show "?m x = mem s x" if "\<not> in_span d (i + Suc j) x" for x
    using outside_sub [OF that order_refl] j(2) by (simp add: c_strcpy_def mem_outside u)
qed (simp_all add: assms(3))

lemma bulk_strncpy:
  assumes wf: "heap_wf s"
  shows "bulk_ok sys f l (Strncpy d p n) s d (unat n)"
proof -
  let ?c = "c_strnlen (mem s) p (unat n)"
  let ?j = "min (Suc ?c) (unat n)" and ?m = "c_strncpy d p (of_nat ?c) n (mem s)"
  have c: "?c \<le> unat n" by (rule strnlen_le)
  then have lt: "?c < 18446744073709551616" using unat_bound64 by (rule le_less_trans)
  have u: "unat (of_nat ?c :: u64) = ?c" using lt by (rule unat_nat64)
  then have "of_nat ?c < n \<longleftrightarrow> ?c < unat n" by (simp add: word_less_nat_alt)
  then have e: "(if of_nat ?c < n then of_nat ?c + 1 else n) = (of_nat ?j :: u64)" by (simp add: min_def)
  have j: "?j < 18446744073709551616" by (rule le_less_trans [OF min.cobounded2 unat_bound64])
  show ?thesis
  proof (rule bulk_okI [of _ _ p ?j _ _ _ _ _ ?m])
    show "bulk sys f l (Strncpy d p n) s = Some (checked_run s f l (p, ?j, False) (d, unat n, True) ?m)
        \<or> bulk sys f l (Strncpy d p n) s = Some (checked_run s f l (d, unat n, True) (p, ?j, False) ?m)"
      by (simp add: redzone_strncpy_def strnlen_of_def Let_def check_then [OF wf unat_bound64 of_unat [of n]]
          check_then [OF wf j e] checked_run_def set_mem_def)
    show "?m x = mem s x" if o: "\<not> in_span d (unat n) x" for x
    proof -
      have "unat (n - of_nat ?c) = unat n - ?c" using c u by (simp add: unat_minus64)
      then have "\<not> in_span (d + of_nat ?c) (unat (n - of_nat ?c)) x"
        using outside_sub [OF o, of ?c "unat n - ?c"] c unat_bound64 [of n] by simp
      moreover have "\<not> in_span d (unat (of_nat ?c :: u64)) x"
        using outside_sub [OF o, of 0 ?c] c u unat_bound64 [of n] by simp
      ultimately show ?thesis by (simp add: c_strncpy_def mem_outside)
    qed
  qed (simp_all add: j)
qed

lemma bulk_strncat:
  assumes wf: "heap_wf s" and i: "c_strlen (mem s) d = Some i"
    and k: "Suc (i + c_strnlen (mem s) p (unat n)) < 18446744073709551616"
  shows "bulk_ok sys f l (Strncat d p n) s d (Suc (i + c_strnlen (mem s) p (unat n)))"
proof -
  let ?c = "c_strnlen (mem s) p (unat n)"
  let ?m = "c_strncat (d + of_nat i) p (of_nat ?c) (mem s)"
  have j: "?c < 18446744073709551616" using k by simp
  have e: "of_nat i + of_nat ?c + 1 = (of_nat (Suc (i + ?c)) :: u64)" by simp
  show ?thesis
  proof (rule bulk_okI [of _ _ p ?c _ _ _ _ _ ?m])
    show "bulk sys f l (Strncat d p n) s = Some (checked_run s f l (p, ?c, False) (d, Suc (i + ?c), True) ?m)
        \<or> bulk sys f l (Strncat d p n) s = Some (checked_run s f l (d, Suc (i + ?c), True) (p, ?c, False) ?m)"
      by (simp add: redzone_strncat_def strlen_of_def strnlen_of_def i Let_def check_then [OF wf j refl]
          check_then [OF wf k e] checked_run_def set_mem_def del: of_nat_Suc)
    show "?m x = mem s x" if o: "\<not> in_span d (Suc (i + ?c)) x" for x
      using outside_sub [OF o, of i "Suc ?c"] k by (intro c_strncat_outside) simp_all
  qed (simp_all add: j)
qed

lemma bulk_strlcpy:
  assumes wf: "heap_wf s" and j: "c_strlen (mem s) p = Some j" "j < 140737488355328"
  shows "bulk_ok sys f l (Strlcpy d p n) s d (min (Suc j) (unat n))"
proof (rule bulk_okI [of _ _ p "Suc j" _ _ _ _ _ "c_strlcpy d p (of_nat j) n (mem s)"])
  let ?m = "c_strlcpy d p (of_nat j) n (mem s)"
  have sj: "Suc j < 18446744073709551616" "min (Suc j) (unat n) < 18446744073709551616" using j(2) by simp_all
  note ck = check_then [OF wf sj(1), of "of_nat j + 1"] check_then [OF wf sj(2) refl]
  have w: "(if n = 0 then 0 else if of_nat j + 1 \<le> n then of_nat j + 1 else n) = of_nat (min (Suc j) (unat n))"
    by (rule word_min) (use j(2) in simp)
  show "bulk sys f l (Strlcpy d p n) s = Some (checked_run s f l (p, Suc j, False) (d, min (Suc j) (unat n), True) ?m)
      \<or> bulk sys f l (Strlcpy d p n) s = Some (checked_run s f l (d, min (Suc j) (unat n), True) (p, Suc j, False) ?m)"
    by (simp only: bulk.simps redzone_strlcpy_def strlen_of_def j(1) Let_def option.simps w skip_check,
        simp add: ck checked_run_def set_mem_def)
  show "Suc j < 18446744073709551616" by (rule sj)
  show "?m x = mem s x" if "\<not> in_span d (min (Suc j) (unat n)) x" for x
    using that by (rule c_strlcpy_outside) (use j(2) in simp)
qed (simp_all add: j(1))

lemma bulk_strlcat:
  assumes wf: "heap_wf s" and j: "c_strlen (mem s) p = Some j" "j < 140737488355328"
    and i_def: "i = c_strnlen (mem s) d (unat n)"
  shows "bulk_ok sys f l (Strlcat d p n) s (d + of_nat i) (min (Suc j) (unat n - i))"
proof (rule bulk_okI [of _ _ p "Suc j" _ _ _ _ _ "c_strlcpy (d + of_nat i) p (of_nat j) (n - of_nat i) (mem s)"])
  let ?m = "c_strlcpy (d + of_nat i) p (of_nat j) (n - of_nat i) (mem s)"
  let ?k = "min (Suc j) (unat n - i)"
  have i: "i \<le> unat n" unfolding i_def by (rule strnlen_le)
  then have "i < 18446744073709551616" using unat_bound64 by (rule le_less_trans)
  then have u: "unat (of_nat i :: u64) = i" by (rule unat_nat64)
  then have av: "unat (n - of_nat i) = unat n - i" using i by (simp add: unat_minus64)
  have avail: "(if of_nat i < n then n - of_nat i else 0) = n - of_nat i"
    using i u by (auto simp: word_less_nat_alt word_unat_eq_iff av)
  have sj: "Suc j < 18446744073709551616" "?k < 18446744073709551616" using j(2) by simp_all
  note ck = check_then [OF wf sj(1), of "of_nat j + 1"] check_then [OF wf sj(2) refl]
  have w: "(if n - of_nat i = 0 then 0 else if of_nat j + 1 \<le> n - of_nat i then of_nat j + 1 else n - of_nat i)
      = of_nat ?k"
    unfolding av [symmetric] by (rule word_min) (use j(2) in simp)
  have dl: "strnlen_of s d n = of_nat i" by (simp add: strnlen_of_def i_def)
  have "bulk sys f l (Strlcat d p n) s = Some (bindO (redzone_check sys p (of_nat j + 1) False f l s) (\<lambda>s.
      let dl = strnlen_of s d n; avail = (if dl < n then n - dl else 0);
        wrote = (if avail = 0 then 0 else if of_nat j + 1 \<le> avail then of_nat j + 1 else avail) in
      bindO (if wrote \<noteq> 0 then redzone_check sys (d + dl) wrote True f l s else Done s) (\<lambda>s.
      Done (set_mem s (c_strlcpy (d + dl) p (of_nat j) avail)))))"
    by (simp add: redzone_strlcat_def strlen_of_def j(1) bindO_assoc Let_def)
  also have "\<dots> = Some (checked_run s f l (p, Suc j, False) (d + of_nat i, ?k, True) ?m)"
    by (simp only: check_then [OF wf sj(1), of "of_nat j + 1", OF of_nat_Suc [symmetric, unfolded add.commute [of 1]]]
        dl Let_def avail w skip_check ck(2) checked_run_def set_mem_def prod.case if_distrib [of Some] not_not if_not_P)
      simp
  finally show "bulk sys f l (Strlcat d p n) s = Some (checked_run s f l (p, Suc j, False) (d + of_nat i, ?k, True) ?m)
      \<or> bulk sys f l (Strlcat d p n) s = Some (checked_run s f l (d + of_nat i, ?k, True) (p, Suc j, False) ?m)" ..
  show "Suc j < 18446744073709551616" by (rule sj)
  show "?m x = mem s x" if "\<not> in_span (d + of_nat i) ?k x" for x
    by (rule c_strlcpy_outside) (use that j(2) av in simp_all)
qed (simp_all add: j(1))

lemma vsnprintf_outside:
  assumes "\<not> in_span d (min (fmt_room fc m) (unat n)) x"
  shows "snd (c_vsnprintf fc d n m) x = m x"
proof (cases "n \<noteq> 0 \<and> (\<exists>bs. expansion fc m = Some bs \<and> length bs \<le> 2147483647 \<and> vs_limit fc n)")
  case True
  then obtain bs where bs: "expansion fc m = Some bs" "length bs \<le> 2147483647" "vs_limit fc n" by blast
  have "length (take (unat n - 1) bs @ [0]) = min (fmt_room fc m) (unat n)"
    using True bs by (auto simp: fmt_room_def min_def unat_gt_0 [symmetric])
  then have "\<not> in_span d (length (take (unat n - 1) bs @ [0])) x" using assms by simp
  then show ?thesis using True bs by (simp add: c_vsnprintf_def mem_outside del: length_append)
qed (auto simp: c_vsnprintf_def not_less split: option.split)

lemma fmt_length:
  "fst (c_vsnprintf fc d 0 m) = int (fmt_room fc m) - 1" "fmt_room fc m \<le> 2147483648"
  by (auto simp: c_vsnprintf_def fmt_room_def split: option.split)

lemma fmt_want:
  assumes "0 \<le> fst (c_vsnprintf fc d 0 m)"
  shows "of_int (fst (c_vsnprintf fc d 0 m)) + 1 = (of_nat (fmt_room fc m) :: u64)"
    and "fmt_room fc m = Suc (fmt_room fc m - 1)"
  using assms by (simp_all add: fmt_length(1))

lemma bulk_sprintf:
  assumes wf: "heap_wf s"
  shows "bulk_ok sys f l (Sprintf d fc) s d (fmt_room fc (mem s))"
proof (rule bulk_okI [of _ _ 0 0 _ _ _ _ _ "snd (c_vsnprintf fc d SIZE_MAX (mem s))"])
  let ?m = "snd (c_vsnprintf fc d SIZE_MAX (mem s))" and ?k = "fmt_room fc (mem s)"
  have k: "?k < 18446744073709551616" using fmt_length(2) [of fc "mem s"] by simp
  have "(if 0 \<le> fst (c_vsnprintf fc 0 0 (mem s))
      then redzone_check sys d (of_int (fst (c_vsnprintf fc 0 0 (mem s))) + 1) True f l s else Done s)
      = redzone_check sys d (of_nat ?k) True f l s"
  proof (cases "0 \<le> fst (c_vsnprintf fc 0 0 (mem s))")
    case True
    then show ?thesis by (simp only: fmt_want(1) if_True)
  next
    case False
    then have "?k = 0" by (simp add: fmt_length(1))
    then show ?thesis using False by (simp add: redzone_check_def)
  qed
  then have "bulk sys f l (Sprintf d fc) s = Some (checked_run s f l (0, 0, False) (d, ?k, True) ?m)"
    by (simp add: redzone_sprintf_def Let_def check_then [OF wf k refl] checked_run_def split_beta)
  then show "bulk sys f l (Sprintf d fc) s = Some (checked_run s f l (0, 0, False) (d, ?k, True) ?m)
      \<or> bulk sys f l (Sprintf d fc) s = Some (checked_run s f l (d, ?k, True) (0, 0, False) ?m)" ..
  show "?m x = mem s x" if "\<not> in_span d ?k x" for x
  proof (rule vsnprintf_outside)
    have "min ?k (unat SIZE_MAX) = ?k" using fmt_length(2) [of fc "mem s"] by (simp add: unat_size_max)
    then show "\<not> in_span d (min ?k (unat SIZE_MAX)) x" using that by simp
  qed
qed simp_all

lemma bulk_snprintf:
  assumes wf: "heap_wf s"
  shows "bulk_ok sys f l (Snprintf d n fc) s d (min (fmt_room fc (mem s)) (unat n))"
proof (rule bulk_okI [of _ _ 0 0 _ _ _ _ _ "snd (c_vsnprintf fc d n (mem s))"])
  let ?m = "snd (c_vsnprintf fc d n (mem s))" and ?k = "min (fmt_room fc (mem s)) (unat n)"
  let ?len = "fst (c_vsnprintf fc 0 0 (mem s))"
  have k: "?k < 18446744073709551616" by (rule le_less_trans [OF min.cobounded2 unat_bound64])
  have "(if 0 \<le> ?len
      then (let want = of_int ?len + 1; wrote = (if n = 0 then 0 else if want \<le> n then want else n) in
        if wrote \<noteq> 0 then redzone_check sys d wrote True f l s else Done s) else Done s)
      = redzone_check sys d (of_nat ?k) True f l s"
  proof (cases "0 \<le> ?len")
    case True
    then obtain r where r: "fmt_room fc (mem s) = Suc r" using fmt_want(2) by blast
    have "r < 18446744073709551615" using fmt_length(2) [of fc "mem s"] r by simp
    from word_min [OF this, of n]
    have w: "(if n = 0 then 0 else if of_nat (Suc r) \<le> n then of_nat (Suc r) else n) = of_nat (min (Suc r) (unat n))"
      by (simp only: of_nat_Suc add.commute [of 1])
    show ?thesis by (simp only: True if_True fmt_want(1) [OF True] Let_def r w skip_check)
  next
    case False
    then have "fmt_room fc (mem s) = 0" by (simp add: fmt_length(1))
    then show ?thesis using False by (simp add: redzone_check_def)
  qed
  then have "bulk sys f l (Snprintf d n fc) s = Some (checked_run s f l (0, 0, False) (d, ?k, True) ?m)"
    by (simp only: bulk.simps redzone_snprintf_def Let_def [of ?len], simp add: check_then [OF wf k refl] checked_run_def split_beta)
  then show "bulk sys f l (Snprintf d n fc) s = Some (checked_run s f l (0, 0, False) (d, ?k, True) ?m)
      \<or> bulk sys f l (Snprintf d n fc) s = Some (checked_run s f l (d, ?k, True) (0, 0, False) ?m)" ..
  show "?m x = mem s x" if "\<not> in_span d ?k x" for x
    using that by (rule vsnprintf_outside)
qed simp_all

lemma bulk_shape:
  assumes wf: "heap_wf s" and sh: "short_strings (mem s)" and w: "written (mem s) c = Some (a, k)"
    and k: "k < 18446744073709551616"
  shows "bulk_ok sys f l c s a k"
proof (cases c)
  case (Memcpy d p n)
  with w bulk_copy [OF wf, of c d p n] show ?thesis by simp
next
  case (Memmove d p n)
  with w bulk_copy [OF wf, of c d p n] show ?thesis by simp
next
  case (Memset d v n)
  with w bulk_set [OF wf] show ?thesis by auto
next
  case (Strcpy d p)
  with w bulk_strcpy [OF wf] sh show ?thesis by (auto simp: short_strings_def)
next
  case (Strcat d p)
  with w bulk_strcat [OF wf] sh show ?thesis by (auto simp: short_strings_def split: option.splits)
next
  case (Strncpy d p n)
  with w bulk_strncpy [OF wf] show ?thesis by auto
next
  case (Strncat d p n)
  with w bulk_strncat [OF wf] k show ?thesis by auto
next
  case (Strlcpy d p n)
  with w bulk_strlcpy [OF wf] sh show ?thesis by (auto simp: short_strings_def)
next
  case (Strlcat d p n)
  with w bulk_strlcat [OF wf _ _ refl] sh show ?thesis by (auto simp: short_strings_def)
next
  case (Snprintf d n fc)
  with w bulk_snprintf [OF wf] show ?thesis by auto
next
  case (Sprintf d fc)
  with w bulk_sprintf [OF wf] show ?thesis by auto
qed

section \<open>The properties\<close>

lemma bulk_in_block:
  assumes wf: "heap_wf s" and "short_strings (mem s)" and "written (mem s) c = Some (a, k)"
    and "0 < k" and "i < length (blocks s)"
    and "in_block (blocks s ! i) (unat a)" and "in_block (blocks s ! i) (unat a + k - 1)"
    and "span_ok s (reads (mem s) c)"
  shows "if \<not> freed (blocks s ! i) \<and> in_user (blocks s ! i) (unat a) \<and> in_user (blocks s ! i) (unat a + k - 1)
    then \<exists>m. bulk sys f l c s = Some (Done (s\<lparr>mem := m\<rparr>))
    else bulk sys f l c s = Some (Halt (Report (ReportBlock
      (if freed (blocks s ! i) then ''use-after-free'' else ''heap-buffer-overflow'') a (of_nat k) True f l (blocks s ! i))))"
proof -
  have "block_ok (blocks s ! i)" using heap_wfD(6) [OF wf] assms(5) by simp
  then have k: "k < 18446744073709551616" using block_okD(5,6) assms(7) by (fastforce simp: in_block_def)
  have u: "unat (of_nat k :: u64) = k" using k by (rule unat_nat64)
  obtain b j where r: "reads (mem s) c = (b, j)" by (cases "reads (mem s) c")
  from bulk_shape [OF wf assms(2,3) k, of sys f l] obtain m where
    e: "bulk sys f l c s = Some (checked_run s f l (b, j, False) (a, k, True) m)
      \<or> bulk sys f l c s = Some (checked_run s f l (a, k, True) (b, j, False) m)"
    by (auto simp: bulk_ok_def r)
  have rd: "span_ok s (b, j)" using assms(8) r by simp
  have "redzone_check sys a (of_nat k) True f l s =
      (if span_ok s (a, k) then Done s else Halt (Report (check_report s a (of_nat k) True f l)))"
    by (rule check_span [OF wf k])
  with check_in_block [OF wf assms(5), of a "of_nat k" sys True f l] assms(4,6,7) u
  show ?thesis using e rd by (auto simp: checked_run_def split: if_splits)
qed

text \<open>C10. No bulk call writes behind the checker's back: when a wrapper of \<^verbatim>\<open>memcpy\<close> to \<^verbatim>\<open>sprintf\<close> comes
  back, memory has changed only in the range named by \<open>written\<close>, both ends of that range and of the range
  read were clean, and the heap and the shadow are as before. Strings are shorter than the address space.\<close>

theorem bulk_writes_checked:
  assumes "heap_reach s" and "short_strings (mem s)" and "written (mem s) c = Some (a, k)"
    and "k < 18446744073709551616" and "bulk sys f l c s = Some (Done s')"
  shows "s' = s\<lparr>mem := mem s'\<rparr> \<and> (\<forall>x. mem s' x \<noteq> mem s x \<longrightarrow> in_span a k x)
    \<and> span_ok s (a, k) \<and> span_ok s (reads (mem s) c)"
proof -
  obtain b j where r: "reads (mem s) c = (b, j)" by (cases "reads (mem s) c")
  from bulk_shape [OF heap_reach_wf [OF assms(1)] assms(2-4), of sys f l] obtain m where
    m: "\<And>x. \<not> in_span a k x \<Longrightarrow> m x = mem s x" and
    e: "bulk sys f l c s = Some (checked_run s f l (b, j, False) (a, k, True) m)
      \<or> bulk sys f l c s = Some (checked_run s f l (a, k, True) (b, j, False) m)"
    by (auto simp: bulk_ok_def r)
  then have "s' = s\<lparr>mem := m\<rparr>" "span_ok s (a, k)" "span_ok s (b, j)"
    using assms(5) by (auto simp: checked_run_def split: if_splits)
  then show ?thesis using m r by auto
qed

text \<open>C9. An overflowing copy into a heap block is stopped before it writes: when the source is readable and
  the range to write starts and ends inside one recorded block, the call goes through exactly when the
  block is live and the range lies in its user bytes; otherwise the report names the block, the start
  and the full length of the write.\<close>

theorem bulk_overflow_reported:
  assumes "heap_reach s" and "short_strings (mem s)" and "written (mem s) c = Some (a, k)"
    and "0 < k" and "i < length (blocks s)"
    and "in_block (blocks s ! i) (unat a)" and "in_block (blocks s ! i) (unat a + k - 1)"
    and "span_ok s (reads (mem s) c)"
  shows "if \<not> freed (blocks s ! i) \<and> in_user (blocks s ! i) (unat a) \<and> in_user (blocks s ! i) (unat a + k - 1)
    then \<exists>m. bulk sys f l c s = Some (Done (s\<lparr>mem := m\<rparr>))
    else bulk sys f l c s = Some (Halt (Report (ReportBlock
      (if freed (blocks s ! i) then ''use-after-free'' else ''heap-buffer-overflow'') a (of_nat k) True f l (blocks s ! i))))"
  using bulk_in_block [OF heap_reach_wf [OF assms(1)] assms(2-8)] .

text \<open>The sample heap, whose memory is zero but for one header; ten characters and a NUL do not fit in its
  block of ten bytes, nine do.\<close>

lemma demo_strings: "short_strings (mem demo_heap)"
  unfolding short_strings_def
proof (intro allI impI)
  fix p l
  assume l: "c_strlen (mem demo_heap) p = Some l"
  have z: "mem demo_heap x = 0" if "\<not> in_span 4096 16 x" for x
    using write_header_outside [of 4096 x] that
    by (simp add: demo_heap_def alloc_result_def demo_user started_def init_rt_def)
  have far: "unat (16 + y) = unat y + 16" if "unat y < 16" for y :: u64
    using that by (subst unat_plus64) simp_all
  have "\<not> in_span 4096 16 p \<or> \<not> in_span 4096 16 (p + 16)"
    using far [of "p - 4096"] by (auto simp: in_span_def algebra_simps)
  then have "mem demo_heap (p + of_nat 0) = 0 \<or> mem demo_heap (p + of_nat 16) = 0" using z by auto
  then obtain k where "k \<le> 16" "c_strlen (mem demo_heap) p = Some k"
    using strlen_returns [of "mem demo_heap" p 0] strlen_returns [of "mem demo_heap" p 16] by auto
  then show "l < 140737488355328" using l by simp
qed

definition demo_fmt :: "nat \<Rightarrow> fmt_call" where
  "demo_fmt n = \<lparr>expansion = (\<lambda>_. Some (replicate n 65)), vs_limit = (\<lambda>_. True)\<rparr>"

lemma demo_written: "n \<le> 2147483647 \<Longrightarrow> written m (Sprintf 4112 (demo_fmt n)) = Some (4112, Suc n)"
  by (simp add: demo_fmt_def fmt_room_def)

theorem bulk_overflow_reported_witness:
  "bulk (demo_sys 0) None 0 (Sprintf 4112 (demo_fmt 10)) demo_heap = Some (Halt (Report (ReportBlock
     ''heap-buffer-overflow'' 4112 11 True None 0 (blocks demo_heap ! 0))))"
  using bulk_overflow_reported [OF demo_reach demo_strings demo_written, of 10 0 "demo_sys 0" None 0]
  by (simp add: in_block_def in_user_def)

theorem bulk_writes_checked_witness:
  "\<exists>s'. bulk (demo_sys 0) None 0 (Sprintf 4112 (demo_fmt 9)) demo_heap = Some (Done s') \<and> mem s' 4122 = mem demo_heap 4122"
proof -
  obtain m where m: "bulk (demo_sys 0) None 0 (Sprintf 4112 (demo_fmt 9)) demo_heap = Some (Done (demo_heap\<lparr>mem := m\<rparr>))"
    using bulk_in_block [OF heap_reach_wf [OF demo_reach] demo_strings demo_written, of 9 0 "demo_sys 0" None 0]
    by (auto simp: in_block_def in_user_def)
  have "\<not> in_span 4112 10 (4122 :: u64)" by (simp add: in_span_def)
  then show ?thesis
    using bulk_writes_checked [OF demo_reach demo_strings demo_written _ m] m by fastforce
qed

text \<open>A library that refuses sizes over \<^verbatim>\<open>INT_MAX\<close> makes \<^verbatim>\<open>__redzone_sprintf\<close> fail where \<^verbatim>\<open>sprintf\<close> would write.\<close>

lemma sprintf_size_refused:
  assumes "heap_wf s" and "span_ok s (d, fmt_room fc (mem s))" and "\<not> vs_limit fc SIZE_MAX"
  shows "redzone_sprintf sys d f l fc s = Done (-1, s)"
proof -
  have c: "c_vsnprintf fc d SIZE_MAX (mem s) = (-1, mem s)"
    using assms(3) by (auto simp: c_vsnprintf_def SIZE_MAX_def split: option.split)
  have "fmt_room fc (mem s) < 18446744073709551616" using fmt_length(2) [of fc "mem s"] by simp
  note ck = check_then [OF assms(1) this refl]
  show ?thesis
  proof (cases "0 \<le> fst (c_vsnprintf fc 0 0 (mem s))")
    case True
    then show ?thesis
      by (simp only: redzone_sprintf_def Let_def if_True fmt_want(1) [OF True] ck assms(2) c) simp
  qed (simp add: redzone_sprintf_def Let_def c)
qed

end
