(* ===== verification/RZ_Report.thy ===== *)
theory RZ_Report
  imports RZ_Check
begin

text \<open>
  What the runtime writes to stderr before it aborts (\<^verbatim>\<open>report\<close>, \<^verbatim>\<open>report_simple\<close>, \<^verbatim>\<open>report_free_error\<close>):
  text with optional color and stack trace, or one JSON or SARIF finding. Each function returns the
  text it prints. The environment variables, the terminal test, the captured frames and the
  implementation-defined \<^verbatim>\<open>%p\<close> are in \<open>report_env\<close>.
\<close>

section \<open>Strings\<close>

text \<open>Decimal, hexadecimal and the search of \<^verbatim>\<open>strstr\<close>.\<close>

definition digit_char :: "nat \<Rightarrow> char" where
  "digit_char d = (if d < 10 then char_of (48 + d) else char_of (87 + d))"

fun show_base :: "nat \<Rightarrow> nat \<Rightarrow> string" where
  "show_base b n =
     (if b < 2 \<or> n < b then [digit_char n] else show_base b (n div b) @ [digit_char (n mod b)])"

declare show_base.simps [simp del]

definition show_u64 :: "u64 \<Rightarrow> string" where
  "show_u64 n = show_base 10 (unat n)"

definition show_int :: "int \<Rightarrow> string" where
  "show_int n = (if n < 0 then ''-'' @ show_base 10 (nat (- n)) else show_base 10 (nat n))"

definition show_hex4 :: "nat \<Rightarrow> string" where
  "show_hex4 n = (let h = show_base 16 n in replicate (4 - length h) CHR ''0'' @ h)"

definition has_prefix :: "string \<Rightarrow> string \<Rightarrow> bool" where
  "has_prefix p s \<longleftrightarrow> take (length p) s = p"

fun contains :: "string \<Rightarrow> string \<Rightarrow> bool" where
  "contains p [] \<longleftrightarrow> p = []"
| "contains p (c # s) \<longleftrightarrow> has_prefix p (c # s) \<or> contains p s"

definition newline :: string where "newline = [CHR 0x0A]"

section \<open>The environment of a report\<close>

text \<open>
  A captured frame: the string of \<^verbatim>\<open>backtrace_symbols\<close>, the module \<^verbatim>\<open>dladdr\<close> names for its address, and
  the first line (up to 511 characters) the external symbolizer prints for it.
\<close>

record frame =
  frame_text :: string
  dli_fname :: cstr
  symbolizer_line :: cstr

record report_env =
  env_color :: cstr
  env_no_color :: bool
  stderr_tty :: bool
  env_symbolize :: cstr
  env_format :: cstr
  frames :: "frame list option"
  show_ptr :: "u64 \<Rightarrow> string"

section \<open>Color\<close>

definition RZ_RED :: string where "RZ_RED = CHR 0x1B # ''[1;31m''"
definition RZ_CYAN :: string where "RZ_CYAN = CHR 0x1B # ''[36m''"
definition RZ_DIM :: string where "RZ_DIM = CHR 0x1B # ''[2m''"
definition RZ_RESET :: string where "RZ_RESET = CHR 0x1B # ''[0m''"

definition rz_color_on :: "report_env \<Rightarrow> bool" where
  "rz_color_on env =
     (if env_color env = Some ''always'' then True
      else if env_color env = Some ''never'' then False
      else if env_no_color env then False
      else stderr_tty env)"

definition col :: "report_env \<Rightarrow> string \<Rightarrow> string" where
  "col env code = (if rz_color_on env then code else [])"

section \<open>Stack traces\<close>

definition RZ_TRACE_MAX :: nat where "RZ_TRACE_MAX = 64"

definition rz_symbolize_on :: "report_env \<Rightarrow> bool" where
  "rz_symbolize_on env =
     (case env_symbolize env of Some e \<Rightarrow> e \<noteq> [] \<and> e \<noteq> ''0'' | None \<Rightarrow> False)"

text \<open>The module path is refused when a quote in it would break the shell command; the symbolizer's line
  loses its line ending and is refused when it is empty, unresolved or a bare address.\<close>

definition symbolize_frame :: "frame \<Rightarrow> string option" where
  "symbolize_frame fr =
     (case dli_fname fr of
        None \<Rightarrow> None
      | Some f \<Rightarrow>
          if CHR 0x27 \<in> set f then None else
          (case symbolizer_line fr of
             None \<Rightarrow> None
           | Some buf \<Rightarrow>
               let buf = rev (dropWhile (\<lambda>c. c = CHR 0x0A \<or> c = CHR 0x0D) (rev buf)) in
               if buf = [] \<or> contains ''??'' buf \<or> has_prefix ''0x'' buf then None
               else Some (take 511 buf)))"

fun first_user_frame :: "frame list \<Rightarrow> nat \<Rightarrow> nat \<Rightarrow> nat" where
  "first_user_frame [] i s = s"
| "first_user_frame (fr # frs) i s =
     first_user_frame frs (Suc i) (if contains ''__redzone_'' (frame_text fr) then Suc i else s)"

definition capture_trace :: "report_env \<Rightarrow> (frame list \<times> nat) option" where
  "capture_trace env =
     (case frames env of
        None \<Rightarrow> None
      | Some frs \<Rightarrow> let frs = take RZ_TRACE_MAX frs in Some (frs, first_user_frame frs 0 0))"

definition trim_frame :: "string \<Rightarrow> string" where
  "trim_frame s =
     (let s = dropWhile (\<lambda>c. c = CHR '' '') s;
          digit = (\<lambda>c. 48 \<le> (of_char c :: nat) \<and> (of_char c :: nat) \<le> 57) in
      case s of
        [] \<Rightarrow> s
      | c # _ \<Rightarrow> if digit c then dropWhile (\<lambda>c. c = CHR '' '') (dropWhile digit s) else s)"

definition frame_line :: "report_env \<Rightarrow> frame \<Rightarrow> string" where
  "frame_line env fr =
     (case (if rz_symbolize_on env then symbolize_frame fr else None) of
        Some txt \<Rightarrow> txt
      | None \<Rightarrow> trim_frame (frame_text fr))"

definition print_trace_text :: "report_env \<Rightarrow> string" where
  "print_trace_text env =
     (case capture_trace env of
        None \<Rightarrow> []
      | Some (frs, start) \<Rightarrow>
          (if start < length frs
           then ''    '' @ col env RZ_DIM @ ''#stack (most recent call first):'' @ col env RZ_RESET @ newline else []) @
          concat (map (\<lambda>(f, fr). ''    '' @ col env RZ_DIM @ ''#'' @ show_int (int f) @ '' '' @ frame_line env fr @
              col env RZ_RESET @ newline)
            (enumerate 0 (drop start frs))))"

section \<open>Machine-readable findings\<close>

record finding =
  kind :: string
  fd_write :: int
  fd_size :: u64
  fd_addr :: u64
  fd_file :: cstr
  fd_line :: int
  has_region :: bool
  region_size :: u64
  fd_freed :: bool
  fd_alloc_file :: cstr
  fd_alloc_line :: int
  with_stack :: bool

datatype rz_format_t = FMT_TEXT | FMT_JSON | FMT_SARIF

definition rz_format :: "report_env \<Rightarrow> rz_format_t" where
  "rz_format env =
     (if env_format env = Some ''json'' then FMT_JSON
      else if env_format env = Some ''sarif'' then FMT_SARIF
      else FMT_TEXT)"

definition json_char :: "char \<Rightarrow> string" where
  "json_char c =
     (if c = CHR 0x22 then [CHR 0x5C, CHR 0x22]
      else if c = CHR 0x5C then [CHR 0x5C, CHR 0x5C]
      else if c = CHR 0x0A then [CHR 0x5C, CHR ''n'']
      else if c = CHR 0x0D then [CHR 0x5C, CHR ''r'']
      else if c = CHR 0x09 then [CHR 0x5C, CHR ''t'']
      else if of_char c < (0x20 :: nat) then [CHR 0x5C, CHR ''u''] @ show_hex4 (of_char c)
      else [c])"

definition json_str :: "cstr \<Rightarrow> string" where
  "json_str s = [CHR 0x22] @ concat (map json_char (case s of Some t \<Rightarrow> t | None \<Rightarrow> [])) @ [CHR 0x22]"

definition print_trace_json :: "report_env \<Rightarrow> string" where
  \<open>print_trace_json env =
     (case capture_trace env of
        None \<Rightarrow> []
      | Some (frs, start) \<Rightarrow>
          if start \<ge> length frs then [] else
          '',"stack":['' @
          concat (map (\<lambda>(f, fr). (if f \<noteq> 0 then '','' else []) @ json_str (Some (frame_line env fr)))
            (enumerate 0 (drop start frs))) @ '']'')\<close>

definition json_finding :: "report_env \<Rightarrow> finding \<Rightarrow> string" where
  \<open>json_finding env fd =
     ''{"tool":"redzone","error":'' @ json_str (Some (kind fd)) @
     (if fd_write fd \<ge> 0
      then '',"access":"'' @ (if fd_write fd \<noteq> 0 then ''write'' else ''read'') @ ''"'' else []) @
     '',"size":'' @ show_u64 (fd_size fd) @
     (if fd_addr fd \<noteq> 0 then '',"address":"0x'' @ show_base 16 (unat (fd_addr fd)) @ ''"'' else []) @
     (case fd_file fd of
        Some f \<Rightarrow> '',"location":{"file":'' @ json_str (Some f) @ '',"line":'' @ show_int (fd_line fd) @ ''}''
      | None \<Rightarrow> []) @
     (if has_region fd
      then '',"region":{"size":'' @ show_u64 (region_size fd) @
        (if fd_freed fd then '',"freed":true'' else []) @
        (case fd_alloc_file fd of
           Some f \<Rightarrow> '',"allocated":{"file":'' @ json_str (Some f) @ '',"line":'' @ show_int (fd_alloc_line fd) @ ''}''
         | None \<Rightarrow> []) @ ''}''
      else []) @
     (if with_stack fd then print_trace_json env else []) @ ''}''\<close>

text \<open>The message of a SARIF result, in a buffer of 256 bytes.\<close>

definition sarif_message :: "finding \<Rightarrow> string" where
  "sarif_message fd =
     take 255
      (if fd_write fd \<ge> 0
       then (if fd_write fd \<noteq> 0 then ''WRITE'' else ''READ'') @ '' of size '' @ show_u64 (fd_size fd) @
         '' ('' @ kind fd @ '')''
       else show_u64 (fd_size fd) @ '' byte(s) ('' @ kind fd @ '')'')"

definition sarif_result :: "finding \<Rightarrow> string" where
  \<open>sarif_result fd =
     ''{"ruleId":'' @ json_str (Some (kind fd)) @
     '',"level":"error","message":{"text":'' @ json_str (Some (sarif_message fd)) @ ''}'' @
     (case fd_file fd of
        Some f \<Rightarrow> '',"locations":[{"physicalLocation":{"artifactLocation":{"uri":'' @ json_str (Some f) @
          ''},"region":{"startLine":'' @ show_int (fd_line fd) @ ''}}}]''
      | None \<Rightarrow> []) @ ''}''\<close>

definition sarif_doc :: "finding list \<Rightarrow> string" where
  \<open>sarif_doc fds =
     ''{"version":"2.1.0","$schema":"https://raw.githubusercontent.com/oasis-tcs/sarif-spec/master/'' @
     ''Schemata/sarif-schema-2.1.0.json","runs":[{"tool":{"driver":{"name":"redzone","informationUri":'' @
     ''"https://github.com/nktkt/redzone","rules":[]}},"results":['' @
     concat (map (\<lambda>(i, fd). (if i \<noteq> 0 then '','' else []) @ sarif_result fd) (enumerate 0 fds)) @
     '']}]}'' @ newline\<close>

definition emit_finding :: "report_env \<Rightarrow> finding \<Rightarrow> string" where
  "emit_finding env fd =
     (if rz_format env = FMT_JSON then json_finding env fd @ newline else sarif_doc [fd])"

section \<open>The reports\<close>

definition no_finding :: finding where
  "no_finding = \<lparr>kind = [], fd_write = 0, fd_size = 0, fd_addr = 0, fd_file = None, fd_line = 0,
     has_region = False, region_size = 0, fd_freed = False, fd_alloc_file = None, fd_alloc_line = 0,
     with_stack = False\<rparr>"

definition error_header :: "report_env \<Rightarrow> string \<Rightarrow> string" where
  "error_header env k = col env RZ_RED @ ''==redzone ERROR: '' @ k @ col env RZ_RESET"

definition report_free_error :: "report_env \<Rightarrow> string \<Rightarrow> u64 \<Rightarrow> string" where
  "report_free_error env k p =
     (if rz_format env \<noteq> FMT_TEXT
      then emit_finding env (no_finding\<lparr>kind := k, fd_write := -1, fd_addr := p, with_stack := True\<rparr>)
      else error_header env k @ '' of '' @ show_ptr env p @ newline @ print_trace_text env)"

definition access_lines :: "report_env \<Rightarrow> string \<Rightarrow> u64 \<Rightarrow> u64 \<Rightarrow> bool \<Rightarrow> cstr \<Rightarrow> int \<Rightarrow> string" where
  "access_lines env k a sz is_write f l =
     error_header env k @ newline @
     ''  '' @ (if is_write then ''WRITE'' else ''READ'') @ '' of size '' @ show_u64 sz @ '' at '' @ show_ptr env a @ newline @
     (case f of
        Some f \<Rightarrow> ''    at '' @ col env RZ_CYAN @ f @ '':'' @ show_int l @ col env RZ_RESET @ newline
      | None \<Rightarrow> []) @ print_trace_text env"

definition region_line :: "report_env \<Rightarrow> u64 \<Rightarrow> block \<Rightarrow> string" where
  "region_line env a b =
     (let tail = show_u64 (user_size b) @ ''-byte region ['' @ show_ptr env (user_addr b) @ '', '' @
            show_ptr env (user_addr b + user_size b) @ '')'' @ (if freed b then '' (freed)'' else []) @ newline in
      if a < user_addr b then ''  '' @ show_u64 (user_addr b - a) @ '' byte(s) before a '' @ tail
      else if a \<ge> user_addr b + user_size b
      then ''  '' @ show_u64 (a - (user_addr b + user_size b)) @ '' byte(s) after a '' @ tail
      else ''  inside a '' @ tail)"

definition report_block ::
  "report_env \<Rightarrow> string \<Rightarrow> u64 \<Rightarrow> u64 \<Rightarrow> bool \<Rightarrow> cstr \<Rightarrow> int \<Rightarrow> block \<Rightarrow> string" where
  "report_block env k a sz is_write f l b =
     (if rz_format env \<noteq> FMT_TEXT
      then emit_finding env (no_finding\<lparr>kind := k, fd_write := (if is_write then 1 else 0), fd_size := sz,
        fd_addr := a, fd_file := f, fd_line := l, has_region := True, region_size := user_size b,
        fd_freed := freed b, fd_alloc_file := alloc_file b, fd_alloc_line := alloc_line b, with_stack := True\<rparr>)
      else access_lines env k a sz is_write f l @ region_line env a b @
        (case alloc_file b of
           Some af \<Rightarrow> ''    '' @ col env RZ_DIM @ ''allocated at '' @ af @ '':'' @ show_int (alloc_line b) @
             col env RZ_RESET @ newline
         | None \<Rightarrow> []))"

definition report_simple :: "report_env \<Rightarrow> string \<Rightarrow> u64 \<Rightarrow> u64 \<Rightarrow> bool \<Rightarrow> cstr \<Rightarrow> int \<Rightarrow> string" where
  "report_simple env k a sz is_write f l =
     (if rz_format env \<noteq> FMT_TEXT
      then emit_finding env (no_finding\<lparr>kind := k, fd_write := (if is_write then 1 else 0), fd_size := sz,
        fd_addr := a, fd_file := f, fd_line := l, with_stack := True\<rparr>)
      else access_lines env k a sz is_write f l)"

text \<open>What is printed for the report a runtime call ends in.\<close>

fun report_text :: "report_env \<Rightarrow> report_call \<Rightarrow> string" where
  "report_text env (ReportFree k p) = report_free_error env k p"
| "report_text env (ReportBlock k a sz w f l b) = report_block env k a sz w f l b"
| "report_text env (ReportSimple k a sz w f l) = report_simple env k a sz w f l"

end
