(* ===== verification/RZ_Json.thy ===== *)
theory RZ_Json
  imports RZ_Report
begin

text \<open>
  The machine-readable findings as JSON values: what \<^verbatim>\<open>json_finding\<close> and \<^verbatim>\<open>sarif_doc\<close> write is
  the printed form of a value built from the finding, and a reader of JSON gets that value back,
  whatever bytes the file names and stack frames hold.
\<close>

section \<open>JSON values, their printed form and a reader\<close>

datatype json = J_Num int | J_Str string | J_True | J_Arr "json list" | J_Obj "(string \<times> json) list"

definition COMMA :: char where "COMMA = CHR '',''"
definition QUOTE :: char where "QUOTE = CHR 0x22"

fun commas :: "string list \<Rightarrow> string" where
  "commas [] = []"
| "commas [s] = s"
| "commas (s # ss) = s @ COMMA # commas ss"

fun json_print :: "json \<Rightarrow> string" where
  "json_print (J_Num n) = show_int n"
| "json_print (J_Str s) = json_str (Some s)"
| "json_print J_True = ''true''"
| "json_print (J_Arr vs) = ''['' @ commas (map json_print vs) @ '']''"
| "json_print (J_Obj ms) = ''{'' @ commas (map (\<lambda>(k, v). json_str (Some k) @ '':'' @ json_print v) ms) @ ''}''"

text \<open>The reader. It is a plain recursive descent with fuel; a result comes with the rest of the input.\<close>

definition hex_value :: "char \<Rightarrow> nat option" where
  "hex_value c = (let n = (of_char c :: nat) in
     if 48 \<le> n \<and> n \<le> 57 then Some (n - 48) else if 97 \<le> n \<and> n \<le> 102 then Some (n - 87) else None)"

fun read_hex :: "string \<Rightarrow> nat \<Rightarrow> nat option" where
  "read_hex [] a = Some a"
| "read_hex (c # cs) a = (case hex_value c of Some d \<Rightarrow> read_hex cs (16 * a + d) | None \<Rightarrow> None)"

definition read_escape :: "string \<Rightarrow> (char \<times> string) option" where
  "read_escape s =
     (case s of
        [] \<Rightarrow> None
      | c # r \<Rightarrow>
          if c = CHR 0x22 \<or> c = CHR 0x5C then Some (c, r)
          else if c = CHR ''n'' then Some (CHR 0x0A, r)
          else if c = CHR ''r'' then Some (CHR 0x0D, r)
          else if c = CHR ''t'' then Some (CHR 0x09, r)
          else if c = CHR ''u'' \<and> 4 \<le> length r
          then (case read_hex (take 4 r) 0 of
                  Some n \<Rightarrow> if n < 256 then Some (char_of n, drop 4 r) else None
                | None \<Rightarrow> None)
          else None)"

fun read_str :: "nat \<Rightarrow> string \<Rightarrow> (string \<times> string) option" where
  "read_str n [] = None"
| "read_str 0 (c # s) = None"
| "read_str (Suc n) (c # s) =
     (if c = QUOTE then Some ([], s)
      else if c = CHR 0x5C
      then (case read_escape s of
              Some (d, r) \<Rightarrow> map_option (\<lambda>(t, r). (d # t, r)) (read_str n r)
            | None \<Rightarrow> None)
      else if of_char c < (0x20 :: nat) then None
      else map_option (\<lambda>(t, r). (c # t, r)) (read_str n s))"

definition is_digit :: "char \<Rightarrow> bool" where
  "is_digit c \<longleftrightarrow> 48 \<le> (of_char c :: nat) \<and> (of_char c :: nat) \<le> 57"

fun read_dec :: "string \<Rightarrow> nat \<Rightarrow> nat" where
  "read_dec [] a = a"
| "read_dec (c # cs) a = read_dec cs (10 * a + (of_char c - 48))"

definition read_num :: "string \<Rightarrow> (int \<times> string) option" where
  "read_num s =
     (let neg = (s \<noteq> [] \<and> hd s = CHR ''-''); t = (if neg then tl s else s);
          ds = takeWhile is_digit t; n = int (read_dec ds 0) in
      if ds = [] then None else Some (if neg then - n else n, dropWhile is_digit t))"

fun read_value :: "nat \<Rightarrow> string \<Rightarrow> (json \<times> string) option"
  and read_elems :: "nat \<Rightarrow> string \<Rightarrow> (json list \<times> string) option"
  and read_members :: "nat \<Rightarrow> string \<Rightarrow> ((string \<times> json) list \<times> string) option" where
  "read_value 0 s = None"
| "read_value (Suc n) s =
     (case s of
        [] \<Rightarrow> None
      | c # r \<Rightarrow>
          if c = QUOTE then map_option (\<lambda>(t, r). (J_Str t, r)) (read_str (length r) r)
          else if c = CHR ''['' then
            (if r \<noteq> [] \<and> hd r = CHR '']'' then Some (J_Arr [], tl r)
             else map_option (\<lambda>(vs, r). (J_Arr vs, r)) (read_elems n r))
          else if c = CHR ''{'' then
            (if r \<noteq> [] \<and> hd r = CHR ''}'' then Some (J_Obj [], tl r)
             else map_option (\<lambda>(ms, r). (J_Obj ms, r)) (read_members n r))
          else if c = CHR ''t'' then (if has_prefix ''rue'' r then Some (J_True, drop 3 r) else None)
          else map_option (\<lambda>(k, r). (J_Num k, r)) (read_num s))"
| "read_elems 0 s = None"
| "read_elems (Suc n) s =
     (case read_value n s of
        None \<Rightarrow> None
      | Some (v, r) \<Rightarrow>
          (case r of
             [] \<Rightarrow> None
           | c # r \<Rightarrow>
               if c = COMMA then map_option (\<lambda>(vs, r). (v # vs, r)) (read_elems n r)
               else if c = CHR '']'' then Some ([v], r) else None))"
| "read_members 0 s = None"
| "read_members (Suc n) s =
     (if s = [] \<or> hd s \<noteq> QUOTE then None else
      case read_str (length s) (tl s) of
        None \<Rightarrow> None
      | Some (k, r) \<Rightarrow>
          if r = [] \<or> hd r \<noteq> CHR '':'' then None else
          (case read_value n (tl r) of
             None \<Rightarrow> None
           | Some (v, r) \<Rightarrow>
               (case r of
                  [] \<Rightarrow> None
                | c # r \<Rightarrow>
                    if c = COMMA then map_option (\<lambda>(ms, r). ((k, v) # ms, r)) (read_members n r)
                    else if c = CHR ''}'' then Some ([(k, v)], r) else None)))"

definition json_read :: "string \<Rightarrow> (json \<times> string) option" where
  "json_read s = read_value (length s) s"

section \<open>Reading back strings and numbers\<close>

lemma of_char_below: "(of_char c :: nat) < 256"
  by (cases c) (simp add: of_char_def)

lemma digit_char_dec: "d < 10 \<Longrightarrow> of_char (digit_char d) = (48 + d :: nat)"
  by (simp add: digit_char_def)

lemma show_base_nonempty: "show_base b n \<noteq> []"
  by (subst show_base.simps) simp

lemma show_dec_digits: "c \<in> set (show_base 10 n) \<Longrightarrow> is_digit c"
proof (induction n rule: less_induct)
  case (less n)
  show ?case
  proof (cases "n < 10")
    case True
    then show ?thesis using less.prems by (subst (asm) show_base.simps) (simp add: is_digit_def digit_char_dec)
  next
    case False
    then have "show_base 10 n = show_base 10 (n div 10) @ [digit_char (n mod 10)]"
      by (subst show_base.simps) simp
    then show ?thesis using less.IH [of "n div 10"] less.prems False
      by (auto simp: is_digit_def digit_char_dec)
  qed
qed

lemma read_dec_append: "read_dec (s @ t) a = read_dec t (read_dec s a)"
  by (induction s arbitrary: a) auto

lemma read_show_dec: "read_dec (show_base 10 n) 0 = n"
proof (induction n rule: less_induct)
  case (less n)
  show ?case
  proof (cases "n < 10")
    case True
    then show ?thesis by (subst show_base.simps) (simp add: digit_char_dec)
  next
    case False
    then show ?thesis using less [of "n div 10"]
      by (subst show_base.simps) (simp add: read_dec_append digit_char_dec)
  qed
qed

definition stops :: "string \<Rightarrow> bool" where
  "stops r \<longleftrightarrow> r = [] \<or> \<not> is_digit (hd r)"

lemma take_digits:
  assumes "\<forall>c \<in> set ds. is_digit c" and "stops r"
  shows "takeWhile is_digit (ds @ r) = ds" and "dropWhile is_digit (ds @ r) = r"
  using assms by (cases r; auto simp: takeWhile_append dropWhile_append stops_def)+

lemma read_num_show:
  assumes "stops r"
  shows "read_num (show_int k @ r) = Some (k, r)"
proof -
  have d: "\<forall>c \<in> set (show_base 10 n). is_digit c" for n using show_dec_digits by blast
  note t = take_digits [OF d assms]
  have "hd (show_base 10 n @ r) \<noteq> CHR ''-''" for n
  proof -
    have "is_digit (hd (show_base 10 n))" using d show_base_nonempty hd_in_set by blast
    then show ?thesis using show_base_nonempty by (auto simp: is_digit_def)
  qed
  then show ?thesis
    by (auto simp: read_num_def show_int_def Let_def t read_show_dec show_base_nonempty)
qed


lemma read_hex4_all: "\<forall>n \<in> set [0..<32]. length (show_hex4 n) = 4 \<and> read_hex (show_hex4 n) 0 = Some n"
  by code_simp

lemma read_hex4: "n < 32 \<Longrightarrow> length (show_hex4 n) = 4 \<and> read_hex (show_hex4 n) 0 = Some n"
  using read_hex4_all by simp

lemma json_char_nonempty: "json_char c \<noteq> []"
  by (simp add: json_char_def)

lemma read_str_char:
  "read_str (Suc n) (json_char c @ s) = map_option (\<lambda>(t, r). (c # t, r)) (read_str n s)"
proof -
  have "read_escape (CHR ''u'' # show_hex4 (of_char c) @ s) = Some (c, s)" if "of_char c < (32 :: nat)"
    using read_hex4 [OF that] that by (simp add: read_escape_def)
  then show ?thesis
    by (auto simp: json_char_def QUOTE_def read_escape_def)
qed

lemma read_str_print:
  "length (concat (map json_char s)) < n \<Longrightarrow> read_str n (concat (map json_char s) @ QUOTE # r) = Some (s, r)"
proof (induction s arbitrary: n)
  case Nil
  then show ?case by (cases n) simp_all
next
  case (Cons c s)
  then obtain m where n: "n = Suc m" by (cases n) auto
  have "0 < length (json_char c)" by (meson json_char_nonempty length_greater_0_conv)
  then have "length (concat (map json_char s)) < m" using Cons.prems n by (simp del: length_greater_0_conv)
  from Cons.IH [OF this] show ?case by (simp add: n read_str_char)
qed

lemma json_str_Some: "json_str (Some s) = QUOTE # concat (map json_char s) @ [QUOTE]"
  by (simp add: json_str_def QUOTE_def)

section \<open>Reading back values\<close>

text \<open>The fuel a value needs.\<close>

fun weight :: "json \<Rightarrow> nat" where
  "weight (J_Arr vs) = Suc (sum_list (map (\<lambda>v. Suc (weight v)) vs))"
| "weight (J_Obj ms) = Suc (sum_list (map (\<lambda>(k, v). Suc (weight v)) ms))"
| "weight v = 1"

lemma commas_Cons: "commas (s # ss) = (if ss = [] then s else s @ COMMA # commas ss)"
  by (cases ss) simp_all

lemma show_int_head: "show_int k \<noteq> [] \<and> (hd (show_int k) = CHR ''-'' \<or> is_digit (hd (show_int k)))"
proof -
  have "is_digit (hd (show_base 10 n))" for n
    using show_dec_digits show_base_nonempty hd_in_set by blast
  then show ?thesis using show_base_nonempty by (auto simp: show_int_def)
qed

lemma json_print_head:
  "json_print v \<noteq> [] \<and> hd (json_print v) \<notin> {CHR '']'', CHR ''}''}"
proof (cases v)
  case (J_Num k)
  have "\<not> is_digit (CHR '']'')" "\<not> is_digit (CHR ''}'')" by (simp_all add: is_digit_def)
  then show ?thesis using show_int_head [of k] J_Num by auto
qed (simp_all add: json_str_Some QUOTE_def)

lemma read_elems_print:
  assumes "\<And>v n r. v \<in> set vs \<Longrightarrow> weight v \<le> n \<Longrightarrow> stops r \<Longrightarrow> read_value n (json_print v @ r) = Some (v, r)"
    and "vs \<noteq> []" and "sum_list (map (\<lambda>v. Suc (weight v)) vs) \<le> n"
  shows "read_elems n (commas (map json_print vs) @ CHR '']'' # r) = Some (vs, r)"
  using assms
proof (induction vs arbitrary: n)
  case (Cons v vs)
  then obtain m where n: "n = Suc m" by (cases n) auto
  have st: "stops (CHR '']'' # x)" "stops (COMMA # x)" for x by (simp_all add: stops_def is_digit_def COMMA_def)
  have w: "weight v \<le> m" "sum_list (map (\<lambda>v. Suc (weight v)) vs) \<le> m" using Cons.prems(3) n by simp_all
  note rd = Cons.prems(1) [OF list.set_intros(1) w(1)]
  show ?case
  proof (cases "vs = []")
    case True
    then show ?thesis using rd [OF st(1)] by (simp add: n COMMA_def)
  next
    case False
    with Cons.IH [OF _ False w(2)] Cons.prems(1)
    have "read_elems m (commas (map json_print vs) @ CHR '']'' # r) = Some (vs, r)" by simp
    then show ?thesis using False rd [OF st(2)] by (simp add: n commas_Cons)
  qed
qed simp

lemma read_members_print:
  assumes "\<And>k v n r. (k, v) \<in> set ms \<Longrightarrow> weight v \<le> n \<Longrightarrow> stops r \<Longrightarrow> read_value n (json_print v @ r) = Some (v, r)"
    and "ms \<noteq> []" and "sum_list (map (\<lambda>(k, v). Suc (weight v)) ms) \<le> n"
  shows "read_members n (commas (map (\<lambda>(k, v). json_str (Some k) @ '':'' @ json_print v) ms) @ CHR ''}'' # r) = Some (ms, r)"
  using assms
proof (induction ms arbitrary: n)
  case (Cons kv ms)
  obtain k v where kv: "kv = (k, v)" by (cases kv)
  obtain m where n: "n = Suc m" using Cons.prems(3) by (cases n) (auto simp: kv)
  have st: "stops (CHR ''}'' # x)" "stops (COMMA # x)" for x by (simp_all add: stops_def is_digit_def COMMA_def)
  have w: "weight v \<le> m" "sum_list (map (\<lambda>(k, v). Suc (weight v)) ms) \<le> m" using Cons.prems(3) n kv by simp_all
  note key = read_str_print [of k]
  have rd: "stops r \<Longrightarrow> read_value m (json_print v @ r) = Some (v, r)" for r
    using Cons.prems(1) w(1) kv by auto
  show ?case
  proof (cases "ms = []")
    case True
    then show ?thesis using rd [OF st(1)] key by (simp add: n kv COMMA_def json_str_Some)
  next
    case False
    have "read_members m (commas (map (\<lambda>(k, v). json_str (Some k) @ '':'' @ json_print v) ms) @ CHR ''}'' # r) = Some (ms, r)"
      by (rule Cons.IH [OF _ False w(2)]) (meson Cons.prems(1) list.set_intros(2))
    then show ?thesis using False rd [OF st(2)] key by (simp add: n kv commas_Cons json_str_Some)
  qed
qed simp

lemma read_value_print:
  "weight v \<le> n \<Longrightarrow> stops r \<Longrightarrow> read_value n (json_print v @ r) = Some (v, r)"
proof (induction v arbitrary: n r)
  case (J_Num k)
  then obtain m where n: "n = Suc m" by (cases n) auto
  have "\<exists>c s. show_int k = c # s \<and> (c = CHR ''-'' \<or> is_digit c)" using show_int_head by (metis hd_Cons_tl)
  then show ?case using read_num_show [OF J_Num(2), of k]
    by (auto simp: n QUOTE_def is_digit_def)
next
  case (J_Str s)
  then show ?case by (cases n) (simp_all add: json_str_Some read_str_print)
next
  case J_True
  then show ?case by (cases n) (simp_all add: QUOTE_def has_prefix_def)
next
  case (J_Arr vs)
  then obtain m where n: "n = Suc m" by (cases n) auto
  show ?case
  proof (cases "vs = []")
    case True
    then show ?thesis by (simp add: n QUOTE_def)
  next
    case False
    have "read_elems m (commas (map json_print vs) @ CHR '']'' # r) = Some (vs, r)"
      by (rule read_elems_print [OF _ False]) (use J_Arr n in auto)
    moreover have "commas (map json_print vs) \<noteq> [] \<and> hd (commas (map json_print vs)) \<noteq> CHR '']''"
      using json_print_head False by (cases vs) (auto simp: commas_Cons)
    ultimately show ?thesis by (simp add: n QUOTE_def)
  qed
next
  case (J_Obj ms)
  then obtain m where n: "n = Suc m" by (cases n) auto
  show ?case
  proof (cases "ms = []")
    case True
    then show ?thesis by (simp add: n QUOTE_def)
  next
    case False
    let ?c = "commas (map (\<lambda>(k, v). json_str (Some k) @ '':'' @ json_print v) ms)"
    have "read_members m (?c @ CHR ''}'' # r) = Some (ms, r)"
      by (rule read_members_print [OF _ False]) (use J_Obj n in \<open>auto simp: snds.simps\<close>)
    moreover have "?c \<noteq> [] \<and> hd ?c \<noteq> CHR ''}''"
      using False by (cases ms) (auto simp: commas_Cons json_str_Some QUOTE_def)
    ultimately show ?thesis by (simp add: n QUOTE_def)
  qed
qed

lemma commas_concat: "commas (s # ss) = s @ concat (map (Cons COMMA) ss)"
  by (induction ss arbitrary: s) simp_all

lemma length_commas: "sum_list (map Suc (map length ss)) \<le> Suc (length (commas ss))"
  by (induction ss rule: commas.induct) simp_all

lemma weight_le: "weight v \<le> length (json_print v)"
proof (induction v)
  case (J_Num k)
  then show ?case using show_int_head [of k] by (cases "show_int k") auto
next
  case (J_Arr vs)
  have "sum_list (map (\<lambda>v. Suc (weight v)) vs) \<le> sum_list (map (\<lambda>v. Suc (length (json_print v))) vs)"
    by (rule sum_list_mono) (use J_Arr in simp)
  with length_commas [of "map json_print vs"] show ?case by (simp add: comp_def)
next
  case (J_Obj ms)
  have "sum_list (map (\<lambda>(k, v). Suc (weight v)) ms)
      \<le> sum_list (map (\<lambda>(k, v). Suc (length (json_str (Some k) @ '':'' @ json_print v))) ms)"
    by (rule sum_list_mono) (use J_Obj in \<open>fastforce simp: snds.simps\<close>)
  with length_commas [of "map (\<lambda>(k, v). json_str (Some k) @ '':'' @ json_print v) ms"]
  show ?case by (simp add: comp_def case_prod_unfold)
qed (simp_all add: json_str_Some)

lemma json_read_print: "stops r \<Longrightarrow> json_read (json_print v @ r) = Some (v, r)"
  using weight_le [of v] by (simp add: json_read_def read_value_print)

section \<open>The findings as values\<close>

definition location_json :: "string \<Rightarrow> int \<Rightarrow> json" where
  "location_json f l = J_Obj [(''file'', J_Str f), (''line'', J_Num l)]"

definition optional :: "bool \<Rightarrow> 'a \<Rightarrow> 'a list" where
  "optional c x = (if c then [x] else [])"

definition stack_json :: "report_env \<Rightarrow> (string \<times> json) list" where
  "stack_json env =
     (case capture_trace env of
        None \<Rightarrow> []
      | Some (frs, start) \<Rightarrow>
          optional (start < length frs) (''stack'', J_Arr (map (\<lambda>fr. J_Str (frame_line env fr)) (drop start frs))))"

definition region_json :: "finding \<Rightarrow> json" where
  "region_json fd = J_Obj ([(''size'', J_Num (uint (region_size fd)))] @
     optional (fd_freed fd) (''freed'', J_True) @
     (case fd_alloc_file fd of Some f \<Rightarrow> [(''allocated'', location_json f (fd_alloc_line fd))] | None \<Rightarrow> []))"

definition finding_json :: "report_env \<Rightarrow> finding \<Rightarrow> json" where
  "finding_json env fd = J_Obj ([(''tool'', J_Str ''redzone''), (''error'', J_Str (kind fd))] @
     optional (fd_write fd \<ge> 0) (''access'', J_Str (if fd_write fd \<noteq> 0 then ''write'' else ''read'')) @
     [(''size'', J_Num (uint (fd_size fd)))] @
     optional (fd_addr fd \<noteq> 0) (''address'', J_Str (''0x'' @ show_base 16 (unat (fd_addr fd)))) @
     (case fd_file fd of Some f \<Rightarrow> [(''location'', location_json f (fd_line fd))] | None \<Rightarrow> []) @
     optional (has_region fd) (''region'', region_json fd) @
     (if with_stack fd then stack_json env else []))"

definition sarif_result_json :: "finding \<Rightarrow> json" where
  "sarif_result_json fd = J_Obj ([(''ruleId'', J_Str (kind fd)), (''level'', J_Str ''error''),
       (''message'', J_Obj [(''text'', J_Str (sarif_message fd))])] @
     (case fd_file fd of
        Some f \<Rightarrow> [(''locations'', J_Arr [J_Obj [(''physicalLocation'', J_Obj
          [(''artifactLocation'', J_Obj [(''uri'', J_Str f)]),
           (''region'', J_Obj [(''startLine'', J_Num (fd_line fd))])])]])]
      | None \<Rightarrow> []))"

definition sarif_json :: "finding list \<Rightarrow> json" where
  "sarif_json fds = J_Obj [(''version'', J_Str ''2.1.0''),
     (''$schema'', J_Str (''https://raw.githubusercontent.com/oasis-tcs/sarif-spec/master/'' @
        ''Schemata/sarif-schema-2.1.0.json'')),
     (''runs'', J_Arr [J_Obj
       [(''tool'', J_Obj [(''driver'', J_Obj [(''name'', J_Str ''redzone''),
          (''informationUri'', J_Str ''https://github.com/nktkt/redzone''), (''rules'', J_Arr [])])]),
        (''results'', J_Arr (map sarif_result_json fds))]])]"

text \<open>What the code prints between the values: commas before all but the first element.\<close>

lemma separated_commas:
  "concat (map (\<lambda>(i, x). (if i \<noteq> 0 then '','' else []) @ g x) (enumerate 0 xs)) = commas (map g xs)"
proof (cases xs)
  case (Cons x ys)
  have "n \<noteq> 0 \<Longrightarrow> concat (map (\<lambda>(i, x). (if i \<noteq> 0 then '','' else []) @ g x) (enumerate n ys))
      = concat (map (Cons COMMA) (map g ys))" for n
    by (induction ys arbitrary: n) (simp_all add: COMMA_def)
  then show ?thesis using Cons by (simp add: commas_concat)
qed simp

lemma show_u64_int: "show_u64 n = show_int (uint n)"
  by (simp add: show_u64_def show_int_def)

lemma json_char_digits: "\<forall>d \<in> set [0..<16]. json_char (digit_char d) = [digit_char d]"
  by code_simp

lemma show_base_plain: "concat (map json_char (show_base 16 n)) = show_base 16 n"
proof (induction n rule: less_induct)
  case (less n)
  have d: "json_char (digit_char d) = [digit_char d]" if "d < 16" for d
    using that json_char_digits by simp
  show ?case
  proof (cases "n < 16")
    case True
    then show ?thesis by (subst (1 2) show_base.simps) (simp add: d)
  next
    case False
    then show ?thesis using less.IH [of "n div 16"]
      by (subst (1 2) show_base.simps) (simp add: d)
  qed
qed

definition more_members :: "(string \<times> json) list \<Rightarrow> string" where
  "more_members ms = concat (map (\<lambda>(k, v). COMMA # json_str (Some k) @ '':'' @ json_print v) ms)"

lemma more_members_simps [simp]:
  "more_members [] = []"
  "more_members ((k, v) # ms) = COMMA # json_str (Some k) @ '':'' @ json_print v @ more_members ms"
  "more_members (ms @ ns) = more_members ms @ more_members ns"
  "more_members (optional c (k, v)) = (if c then COMMA # json_str (Some k) @ '':'' @ json_print v else [])"
  by (simp_all add: more_members_def optional_def)

lemma print_commas: "commas (x # map f xs) = x @ concat (map (\<lambda>y. COMMA # f y) xs)"
  by (simp add: commas_concat comp_def)

lemma print_object:
  "json_print (J_Obj ((k, v) # ms)) = ''{'' @ json_str (Some k) @ '':'' @ json_print v @ more_members ms @ ''}''"
  unfolding more_members_def json_print.simps(5) list.map print_commas by (simp add: case_prod_unfold)

text \<open>Strings with nothing to escape are printed as they are.\<close>

lemma json_str_plain:
  "concat (map json_char s) = s \<Longrightarrow> json_str (Some s) = CHR 0x22 # s @ [CHR 0x22]"
  by (simp add: json_str_def)

lemmas literals = json_str_plain json_char_def COMMA_def

lemma location_print:
  \<open>json_print (location_json f l) = ''{"file":'' @ json_str (Some f) @ '',"line":'' @ show_int l @ ''}''\<close>
  by (simp add: location_json_def print_object literals del: json_print.simps(5))

lemma stack_print: "print_trace_json env = more_members (stack_json env)"
proof (cases "capture_trace env")
  case (Some fs)
  obtain frs start where fs: "fs = (frs, start)" by (cases fs)
  show ?thesis
    by (simp add: print_trace_json_def stack_json_def Some fs separated_commas [unfolded neq0_conv] comp_def literals)
qed (simp add: print_trace_json_def stack_json_def)

lemma region_print:
  \<open>json_print (region_json fd) = ''{"size":'' @ show_u64 (region_size fd) @
     (if fd_freed fd then '',"freed":true'' else []) @
     (case fd_alloc_file fd of
        Some f \<Rightarrow> '',"allocated":{"file":'' @ json_str (Some f) @ '',"line":'' @ show_int (fd_alloc_line fd) @ ''}''
      | None \<Rightarrow> []) @ ''}''\<close>
  by (simp add: region_json_def print_object location_print show_u64_int literals
      split: option.split del: json_print.simps(5))

lemma finding_print: "json_finding env fd = json_print (finding_json env fd)"
  by (simp add: json_finding_def finding_json_def print_object location_print region_print stack_print show_u64_int
      literals show_base_plain split: option.split del: json_print.simps(5))

lemma sarif_result_print: "sarif_result fd = json_print (sarif_result_json fd)"
  by (simp add: sarif_result_def sarif_result_json_def print_object show_u64_int
      literals split: option.split del: json_print.simps(5))

lemma sarif_print: "sarif_doc fds = json_print (sarif_json fds) @ newline"
  by (simp add: sarif_doc_def sarif_json_def print_object separated_commas [unfolded neq0_conv] sarif_result_print comp_def
      literals del: json_print.simps(5))

section \<open>One line each\<close>

lemma json_char_line: "CHR 0x0A \<notin> set (json_char c)"
proof -
  have "\<forall>n \<in> set [0..<32]. CHR 0x0A \<notin> set (show_hex4 n)" by code_simp
  then have "CHR 0x0A \<notin> set (show_hex4 (of_char c))" if "of_char c < (32 :: nat)" using that by simp
  then show ?thesis by (auto simp: json_char_def)
qed

lemma show_int_line: "CHR 0x0A \<notin> set (show_int k)"
proof -
  have "\<not> is_digit (CHR 0x0A)" by (simp add: is_digit_def)
  then show ?thesis using show_dec_digits by (auto simp: show_int_def)
qed

lemma commas_set: "set (commas ss) \<subseteq> insert COMMA (\<Union>s \<in> set ss. set s)"
  by (induction ss rule: commas.induct) auto

lemma json_print_line: "CHR 0x0A \<notin> set (json_print v)"
proof (induction v)
  case (J_Arr vs)
  then show ?case using commas_set [of "map json_print vs"] by (auto simp: COMMA_def)
next
  case (J_Obj ms)
  have "CHR 0x0A \<notin> set (json_str (Some k) @ '':'' @ json_print v)" if "(k, v) \<in> set ms" for k v
    using J_Obj [OF that] json_char_line by (auto simp: json_str_Some QUOTE_def snds.simps)
  then show ?case using commas_set [of "map (\<lambda>(k, v). json_str (Some k) @ '':'' @ json_print v) ms"]
    by (fastforce simp: COMMA_def)
qed (use show_int_line json_char_line in \<open>auto simp: json_str_Some QUOTE_def\<close>)

text \<open>C20. Every machine-readable report can be read back: a reader of JSON gets from the text of a finding
  exactly the fields the runtime put in, and from a SARIF document one result per finding, whatever
  quotes, backslashes and control characters the file names and stack frames hold; and a JSON finding
  is one line, so one finding follows the other in the output.\<close>

theorem findings_read_back:
  "json_read (json_finding env fd @ newline) = Some (finding_json env fd, newline)
   \<and> json_read (sarif_doc fds) = Some (sarif_json fds, newline)
   \<and> CHR 0x0A \<notin> set (json_finding env fd)"
proof -
  have "stops newline" by (simp add: stops_def newline_def is_digit_def)
  note r = json_read_print [OF this]
  show ?thesis by (simp only: finding_print sarif_print r json_print_line simp_thms)
qed

end
