(* ===== verification/RZ_Leak.thy ===== *)
theory RZ_Leak
  imports RZ_Json
begin

text \<open>
  The leak report at exit (\<^verbatim>\<open>load_suppressions\<close>, \<^verbatim>\<open>leak_suppressed\<close>, \<^verbatim>\<open>report_leaks\<close>): the rules of
  the suppression file, the blocks still live that no rule silences, and what is printed for them: one
  line for each allocation site as text, one finding for each block as JSON or SARIF. The contents of the
  suppression file and the answers of the allocator are in \<open>leak_env\<close>.
\<close>

section \<open>Suppressions\<close>

record leak_env =
  supp_file :: cstr
  supp_realloc_ok :: "nat \<Rightarrow> bool"
  supp_strdup_ok :: "nat \<Rightarrow> bool"
  findings_calloc_ok :: bool
  done_calloc_ok :: bool

text \<open>\<^verbatim>\<open>fgets\<close> into a buffer of 512 bytes: up to 511 characters, at most one line.\<close>

definition fgets_len :: "string \<Rightarrow> nat" where
  "fgets_len s = min 511 (Suc (length (takeWhile (\<lambda>c. c \<noteq> CHR 0x0A) s)))"

function fgets_lines :: "string \<Rightarrow> string list" where
  "fgets_lines s = (if s = [] then [] else take (fgets_len s) s # fgets_lines (drop (fgets_len s) s))"
  by pat_completeness auto
termination by (relation "measure length") (auto simp: fgets_len_def)

declare fgets_lines.simps [simp del]

definition blank :: "char \<Rightarrow> bool" where
  "blank c \<longleftrightarrow> c = CHR '' '' \<or> c = CHR 0x09"

definition line_end :: "char \<Rightarrow> bool" where
  "line_end c \<longleftrightarrow> c = CHR 0x0A \<or> c = CHR 0x0D"

text \<open>The pattern of one line of the file, which ends at its first NUL.\<close>

definition supp_rule :: "string \<Rightarrow> string option" where
  "supp_rule line =
     (let s = dropWhile blank (takeWhile (\<lambda>c. c \<noteq> CHR 0x00) line) in
      if s = [] \<or> hd s = CHR ''#'' \<or> line_end (hd s) then None else
      let s = rev (dropWhile (\<lambda>c. line_end c \<or> blank c) (rev s)) in
      if \<not> has_prefix ''leak:'' s \<or> drop 5 s = [] then None else Some (drop 5 s))"

text \<open>The table grows by one slot for each rule: the load stops when it cannot, and leaves out a rule it
  cannot copy.\<close>

fun add_rules :: "leak_env \<Rightarrow> nat \<Rightarrow> string list \<Rightarrow> string list \<Rightarrow> string list" where
  "add_rules le k supp [] = supp"
| "add_rules le k supp (line # ls) =
     (case supp_rule line of
        None \<Rightarrow> add_rules le k supp ls
      | Some pat \<Rightarrow>
          if \<not> supp_realloc_ok le k then supp
          else add_rules le (Suc k) (if supp_strdup_ok le k then supp @ [pat] else supp) ls)"

definition load_suppressions :: "leak_env \<Rightarrow> string list" where
  "load_suppressions le =
     (case supp_file le of None \<Rightarrow> [] | Some txt \<Rightarrow> add_rules le 0 [] (fgets_lines txt))"

definition leak_suppressed :: "string list \<Rightarrow> cstr \<Rightarrow> bool" where
  "leak_suppressed supp file = (case file of None \<Rightarrow> False | Some f \<Rightarrow> list_ex (\<lambda>p. contains p f) supp)"

definition is_unsuppressed_leak :: "string list \<Rightarrow> block \<Rightarrow> bool" where
  "is_unsuppressed_leak supp b \<longleftrightarrow> \<not> freed b \<and> \<not> leak_suppressed supp (alloc_file b)"

section \<open>The report\<close>

fun count_leaks :: "string list \<Rightarrow> block list \<Rightarrow> u64 \<Rightarrow> u64 \<Rightarrow> u64 \<times> u64" where
  "count_leaks supp [] leaked bytes = (leaked, bytes)"
| "count_leaks supp (b # bs) leaked bytes =
     (if is_unsuppressed_leak supp b then count_leaks supp bs (leaked + 1) (bytes + user_size b)
      else count_leaks supp bs leaked bytes)"

text \<open>Two names are one site when they are the same pointer or the same string.\<close>

definition same_site :: "block \<Rightarrow> block \<Rightarrow> bool" where
  "same_site b x \<longleftrightarrow> alloc_line x = alloc_line b \<and> alloc_file x = alloc_file b"

text \<open>The inner loop: the later blocks of the site of \<open>b\<close> are counted and marked in \<^verbatim>\<open>done\<close>, which is
  kept beside the blocks.\<close>

fun fold_site :: "string list \<Rightarrow> block \<Rightarrow> (block \<times> bool) list \<Rightarrow> u64 \<Rightarrow> u64 \<Rightarrow> u64 \<times> u64 \<times> (block \<times> bool) list" where
  "fold_site supp b [] count bytes = (count, bytes, [])"
| "fold_site supp b ((x, d) # xs) count bytes =
     (if d \<or> \<not> is_unsuppressed_leak supp x \<or> \<not> same_site b x
      then (case fold_site supp b xs count bytes of (c, n, ys) \<Rightarrow> (c, n, (x, d) # ys))
      else (case fold_site supp b xs (count + 1) (bytes + user_size x) of (c, n, ys) \<Rightarrow> (c, n, (x, True) # ys)))"

lemma fold_site_length: "length (snd (snd (fold_site supp b xs c n))) = length xs"
  by (induction supp b xs c n rule: fold_site.induct) (auto split: prod.split)

function collapsed_sites :: "string list \<Rightarrow> (block \<times> bool) list \<Rightarrow> (block \<times> u64 \<times> u64) list" where
  "collapsed_sites supp [] = []"
| "collapsed_sites supp ((b, d) # xs) =
     (if \<not> is_unsuppressed_leak supp b \<or> d then collapsed_sites supp xs
      else let r = fold_site supp b xs 1 (user_size b) in
           (b, fst r, fst (snd r)) # collapsed_sites supp (snd (snd r)))"
  by pat_completeness auto
termination by (relation "measure (length \<circ> snd)") (auto simp: fold_site_length)

definition leak_sites :: "string list \<Rightarrow> bool \<Rightarrow> block list \<Rightarrow> (block \<times> u64 \<times> u64) list" where
  "leak_sites supp has_done bs =
     (if has_done then collapsed_sites supp (map (\<lambda>b. (b, False)) bs)
      else map (\<lambda>b. (b, 1, user_size b)) (filter (is_unsuppressed_leak supp) bs))"

definition site_line :: "report_env \<Rightarrow> block \<times> u64 \<times> u64 \<Rightarrow> string" where
  "site_line env r =
     (case r of (b, count, bytes) \<Rightarrow>
        ''  '' @ show_u64 count @ '' allocation(s), '' @ show_u64 bytes @ '' byte(s)'' @
        (case alloc_file b of
           Some f \<Rightarrow> '', at '' @ col env RZ_CYAN @ f @ '':'' @ show_int (alloc_line b) @ col env RZ_RESET @ newline
         | None \<Rightarrow> '' (unknown allocation site)'' @ newline))"

definition leak_finding :: "block \<Rightarrow> finding" where
  "leak_finding b = no_finding\<lparr>kind := ''memory-leak'', fd_write := -1, fd_size := user_size b,
     fd_addr := user_addr b, fd_file := alloc_file b, fd_line := alloc_line b\<rparr>"

text \<open>At exit the process goes on when there is no leak, and leaves with status 1 otherwise.\<close>

datatype at_exit = Return rt | Exit1 string

definition report_leaks :: "report_env \<Rightarrow> leak_env \<Rightarrow> rt \<Rightarrow> at_exit outcome" where
  "report_leaks env le s =
     (if \<not> leak_on s then Done (Return s) else
      let supp = load_suppressions le in
      bindO (table_lock s) (\<lambda>s.
      case count_leaks supp (blocks s) 0 0 of
        (leaked, bytes) \<Rightarrow>
          if leaked = 0 then Done (Return (table_unlock s)) else
          let leaks = filter (is_unsuppressed_leak supp) (blocks s) in
          Done (Exit1 (case rz_format env of
            FMT_JSON \<Rightarrow> concat (map (\<lambda>b. json_finding env (leak_finding b) @ newline) leaks)
          | FMT_SARIF \<Rightarrow> if findings_calloc_ok le then sarif_doc (map leak_finding leaks) else []
          | FMT_TEXT \<Rightarrow>
              error_header env ''memory-leak'' @ newline @
              ''  '' @ show_u64 leaked @ '' allocation(s) never freed, '' @ show_u64 bytes @ '' byte(s) total'' @ newline @
              concat (map (site_line env) (leak_sites supp (done_calloc_ok le) (blocks s)))))))"

section \<open>The sites of the leaks\<close>

text \<open>What the lines should say: for each site in the order of its first leak, how many leaks it has
  and how many bytes they hold.\<close>

function site_summary :: "block list \<Rightarrow> (block \<times> u64 \<times> u64) list" where
  "site_summary [] = []"
| "site_summary (b # bs) =
     (b, of_nat (length (filter (same_site b) (b # bs))), sum_list (map user_size (filter (same_site b) (b # bs))))
     # site_summary (filter (\<lambda>x. \<not> same_site b x) bs)"
  by pat_completeness auto
termination by (relation "measure length") (auto simp: le_imp_less_Suc)

definition open_leaks :: "string list \<Rightarrow> (block \<times> bool) list \<Rightarrow> block list" where
  "open_leaks supp xs = map fst (filter (\<lambda>(x, d). \<not> d \<and> is_unsuppressed_leak supp x) xs)"

lemma open_leaks_simps [simp]:
  "open_leaks supp [] = []"
  "open_leaks supp ((x, d) # xs) = (if \<not> d \<and> is_unsuppressed_leak supp x then x # open_leaks supp xs else open_leaks supp xs)"
  by (simp_all add: open_leaks_def)

lemma fold_site_eq:
  "fst (fold_site supp b xs c n) = c + of_nat (length (filter (same_site b) (open_leaks supp xs)))"
  "fst (snd (fold_site supp b xs c n)) = n + sum_list (map user_size (filter (same_site b) (open_leaks supp xs)))"
  "open_leaks supp (snd (snd (fold_site supp b xs c n))) = filter (\<lambda>x. \<not> same_site b x) (open_leaks supp xs)"
  by (induction supp b xs c n rule: fold_site.induct) (auto simp: algebra_simps split: prod.split)

lemma same_site_refl [simp]: "same_site b b"
  by (simp add: same_site_def)

lemma collapsed_sites_eq: "collapsed_sites supp xs = site_summary (open_leaks supp xs)"
proof (induction supp xs rule: collapsed_sites.induct)
  case (2 supp b d xs)
  then show ?case by (auto simp: Let_def fold_site_eq)
qed simp

lemma open_leaks_start: "open_leaks supp (map (\<lambda>b. (b, False)) bs) = filter (is_unsuppressed_leak supp) bs"
  by (induction bs) simp_all

lemma count_leaks_eq:
  "count_leaks supp bs c n = (c + of_nat (length (filter (is_unsuppressed_leak supp) bs)),
     n + sum_list (map user_size (filter (is_unsuppressed_leak supp) bs)))"
  by (induction supp bs c n rule: count_leaks.induct) (auto simp: algebra_simps)

lemma site_summary_sites: "b \<in> fst ` set (site_summary bs) \<Longrightarrow> b \<in> set bs"
  by (induction bs rule: site_summary.induct) auto

definition site :: "block \<times> u64 \<times> u64 \<Rightarrow> cstr \<times> int" where
  "site r = (alloc_file (fst r), alloc_line (fst r))"

lemma site_summary_distinct: "distinct (map site (site_summary bs))"
proof (induction bs rule: site_summary.induct)
  case (2 b bs)
  let ?rest = "site_summary (filter (\<lambda>x. \<not> same_site b x) bs)"
  have "site (b, n) \<notin> site ` set ?rest" for n
  proof
    assume "site (b, n) \<in> site ` set ?rest"
    then obtain r where r: "r \<in> set ?rest" "site r = site (b, n)" by (rule imageE) simp
    then have "\<not> same_site b (fst r)" using site_summary_sites by fastforce
    with r(2) show False by (simp add: site_def same_site_def)
  qed
  with 2 show ?case by simp
qed simp

lemma sum_parts:
  fixes f :: "'a \<Rightarrow> 'b :: comm_monoid_add"
  shows "sum_list (map f (filter P xs)) + sum_list (map f (filter (\<lambda>x. \<not> P x) xs)) = sum_list (map f xs)"
  by (induction xs) (simp_all add: ac_simps)

lemma site_summary_bytes: "sum_list (map (\<lambda>r. snd (snd r)) (site_summary bs)) = sum_list (map user_size bs)"
proof (induction bs rule: site_summary.induct)
  case (2 b bs)
  then show ?case using sum_parts [of user_size "same_site b" bs] by (simp add: add.assoc)
qed simp

lemma site_summary_count: "sum_list (map (\<lambda>r. fst (snd r)) (site_summary bs)) = of_nat (length bs)"
proof (induction bs rule: site_summary.induct)
  case (2 b bs)
  have "length bs = length (filter (same_site b) bs) + length (filter (\<lambda>x. \<not> same_site b x) bs)"
    by (simp add: sum_length_filter_compl)
  then show ?case using 2 by simp
qed simp

lemma report_leaks_eq:
  fixes env :: report_env and le :: leak_env and s :: rt
  assumes "\<not> lock_held s" and "leak_on s"
  defines "leaks \<equiv> filter (is_unsuppressed_leak (load_suppressions le)) (blocks s)"
  assumes "length leaks < 18446744073709551616"
  shows "report_leaks env le s = Done (if leaks = [] then Return s else
    Exit1 (case rz_format env of
        FMT_JSON \<Rightarrow> concat (map (\<lambda>b. json_finding env (leak_finding b) @ newline) leaks)
      | FMT_SARIF \<Rightarrow> if findings_calloc_ok le then sarif_doc (map leak_finding leaks) else []
      | FMT_TEXT \<Rightarrow> error_header env ''memory-leak'' @ newline @
          ''  '' @ show_int (int (length leaks)) @ '' allocation(s) never freed, '' @
          show_u64 (sum_list (map user_size leaks)) @ '' byte(s) total'' @ newline @
          concat (map (site_line env) (if done_calloc_ok le then site_summary leaks
            else map (\<lambda>b. (b, 1, user_size b)) leaks))))"
proof -
  have u: "unat (of_nat (length leaks) :: u64) = length leaks"
    unfolding unat_of_nat by (rule mod_less) (use assms(4) in simp)
  have z: "(of_nat (length leaks) :: u64) = 0 \<longleftrightarrow> leaks = []"
    using u unat_0 [where 'a = 64] by fastforce
  show ?thesis
    using assms(1,2) unfolding leaks_def [symmetric]
    by (simp add: report_leaks_def count_leaks_eq leaks_def [symmetric] z show_u64_def show_int_def u leak_sites_def
        collapsed_sites_eq open_leaks_start Let_def del: of_nat_eq_0_iff split: rz_format_t.split)
qed

section \<open>Reading the suppression file\<close>

lemma fgets_line:
  assumes "CHR 0x0A \<notin> set l" and "length l \<le> 510"
  shows "fgets_lines (l @ newline @ s) = (l @ newline) # fgets_lines s"
proof -
  have "takeWhile (\<lambda>c. c \<noteq> CHR 0x0A) (l @ newline @ s) = l"
    using assms(1) by (subst takeWhile_append2) (auto simp: newline_def)
  then have "fgets_len (l @ newline @ s) = length (l @ newline)"
    using assms(2) by (simp add: fgets_len_def newline_def)
  then show ?thesis by (subst fgets_lines.simps) (simp add: newline_def)
qed

definition plain_rule :: "string \<Rightarrow> bool" where
  "plain_rule p \<longleftrightarrow> p \<noteq> [] \<and> length p \<le> 505 \<and> CHR 0x00 \<notin> set p \<and> CHR 0x0A \<notin> set p
     \<and> \<not> line_end (last p) \<and> \<not> blank (last p)"

definition rule_text :: "string \<Rightarrow> string" where
  "rule_text p = ''leak:'' @ p @ newline"

lemma rule_line:
  assumes "plain_rule p"
  shows "supp_rule (rule_text p) = Some p"
proof -
  have nul: "takeWhile (\<lambda>c. c \<noteq> CHR 0x00) (rule_text p) = rule_text p"
    using assms by (auto simp: plain_rule_def takeWhile_eq_all_conv newline_def rule_text_def)
  have lead: "dropWhile blank (rule_text p) = rule_text p" by (simp add: blank_def rule_text_def)
  have trail: "rev (dropWhile (\<lambda>c. line_end c \<or> blank c) (rev (rule_text p))) = ''leak:'' @ p"
  proof -
    obtain q c where p: "p = q @ [c]" using assms by (cases p rule: rev_cases) (auto simp: plain_rule_def)
    then have "\<not> line_end c \<and> \<not> blank c" using assms by (simp add: plain_rule_def)
    then show ?thesis by (simp add: p newline_def line_end_def rule_text_def)
  qed
  have first: "rule_text p \<noteq> []" "hd (rule_text p) = CHR ''l''" "\<not> line_end (CHR ''l'')"
    by (simp_all add: line_end_def rule_text_def)
  have "p \<noteq> []" using assms by (simp add: plain_rule_def)
  then show ?thesis
    unfolding supp_rule_def nul lead Let_def trail by (simp add: first has_prefix_def)
qed

lemma fgets_rules:
  "\<forall>p \<in> set ps. plain_rule p \<Longrightarrow> fgets_lines (concat (map rule_text ps)) = map rule_text ps"
proof (induction ps)
  case Nil
  then show ?case by (subst fgets_lines.simps) simp
next
  case (Cons p ps)
  then have "CHR 0x0A \<notin> set (''leak:'' @ p)" "length (''leak:'' @ p) \<le> 510" by (auto simp: plain_rule_def)
  from fgets_line [OF this, of "concat (map rule_text ps)"]
  have "fgets_lines (rule_text p @ concat (map rule_text ps)) = rule_text p # fgets_lines (concat (map rule_text ps))"
    by (simp only: rule_text_def append_assoc)
  then show ?case using Cons by simp
qed

lemma add_plain_rules:
  assumes "\<And>k. supp_realloc_ok le k" and "\<And>k. supp_strdup_ok le k" and "\<forall>p \<in> set ps. plain_rule p"
  shows "add_rules le k supp (map rule_text ps) = supp @ ps"
  using assms(3) by (induction ps arbitrary: k supp) (simp_all add: assms(1,2) rule_line)

lemma has_prefix_iff: "has_prefix p s \<longleftrightarrow> (\<exists>z. s = p @ z)"
  unfolding has_prefix_def by (metis append_eq_conv_conj append_take_drop_id)

lemma contains_iff: "contains p s \<longleftrightarrow> (\<exists>y z. s = y @ p @ z)"
proof (induction s)
  case (Cons c s)
  have "(\<exists>y z. c # s = y @ p @ z) \<longleftrightarrow> (\<exists>z. c # s = p @ z) \<or> (\<exists>y z. s = y @ p @ z)"
    by (metis append_Cons append_Nil list.sel(3) list.exhaust list.inject)
  then show ?case using Cons by (simp add: has_prefix_iff)
qed simp

lemma suppressions_exact:
  assumes "\<forall>p \<in> set ps. plain_rule p"
    and "supp_file le = Some (concat (map rule_text ps))"
    and "\<forall>k. supp_realloc_ok le k \<and> supp_strdup_ok le k"
  shows "is_unsuppressed_leak (load_suppressions le) b \<longleftrightarrow>
    \<not> freed b \<and> \<not> (\<exists>f p y z. alloc_file b = Some f \<and> p \<in> set ps \<and> f = y @ p @ z)"
proof -
  have "load_suppressions le = ps"
    using add_plain_rules [OF _ _ assms(1), of le 0 "[]"] assms(3)
    by (simp add: load_suppressions_def assms(2) fgets_rules [OF assms(1)])
  then show ?thesis
    by (auto simp: is_unsuppressed_leak_def leak_suppressed_def list_ex_iff contains_iff split: option.split)
qed

section \<open>The properties\<close>

text \<open>C19. The leak report adds up: the lines name each allocation site once, give for each the number and
  the bytes of its leaks, and the counts and bytes of the lines sum to the totals of the first line,
  the number of blocks never freed and not suppressed and the bytes they hold.\<close>

theorem leak_lines_add_up:
  fixes supp bs
  defines "leaks \<equiv> filter (is_unsuppressed_leak supp) bs" and "sites \<equiv> leak_sites supp True bs"
  shows "sites = site_summary leaks
    \<and> distinct (map site sites)
    \<and> (sum_list (map (\<lambda>r. fst (snd r)) sites), sum_list (map (\<lambda>r. snd (snd r)) sites)) = count_leaks supp bs 0 0
    \<and> count_leaks supp bs 0 0 = (of_nat (length leaks), sum_list (map user_size leaks))"
proof -
  have s: "sites = site_summary leaks"
    by (simp add: sites_def leaks_def leak_sites_def collapsed_sites_eq open_leaks_start)
  show ?thesis
    unfolding s by (simp add: site_summary_distinct site_summary_bytes site_summary_count count_leaks_eq leaks_def)
qed

end
