(* ===== verification/RZ_LeakProps.thy ===== *)
theory RZ_LeakProps
  imports RZ_Leak RZ_HeapProps
begin

text \<open>
  The leak report of a whole run: from the start of the process over its allocations and releases to
  the exit handler.
\<close>

section \<open>The exit handler\<close>

text \<open>The two constructors: the shadow is reserved before anything else, the leak report is registered
  for the exit. A run is what the program does in between.\<close>

definition redzone_shadow_startup :: "sys \<Rightarrow> rt \<Rightarrow> rt outcome" where
  "redzone_shadow_startup sys s = shadow_init sys s"

definition redzone_init :: "(report_env \<Rightarrow> leak_env \<Rightarrow> rt \<Rightarrow> at_exit outcome) list \<Rightarrow>
    (report_env \<Rightarrow> leak_env \<Rightarrow> rt \<Rightarrow> at_exit outcome) list" where
  "redzone_init handlers = report_leaks # handlers"

lemma startup_started: "sys_mmap_ok sys \<Longrightarrow> redzone_shadow_startup sys init_rt = Done started"
  by (simp add: redzone_shadow_startup_def shadow_init_def started_def init_rt_def)

text \<open>A leak no rule of the file covers.\<close>

definition uncovered :: "string list \<Rightarrow> block \<Rightarrow> bool" where
  "uncovered ps b \<longleftrightarrow> \<not> freed b \<and> \<not> (\<exists>f p y z. alloc_file b = Some f \<and> p \<in> set ps \<and> f = y @ p @ z)"

text \<open>C11. The exit status tells the leaks: with a suppression file of plain \<^verbatim>\<open>leak:\<close> lines, a process that
  reaches its exit handler leaves with status 1 and a report exactly when some block it allocated was
  never freed and the name of the file that allocated it contains none of the patterns; otherwise the
  exit goes on with the runtime as it was.\<close>

theorem leak_verdict:
  assumes "heap_reach s" and "leak_on s" and "\<forall>p \<in> set ps. plain_rule p"
    and "supp_file le = Some (concat (map rule_text ps))"
    and "\<forall>k. supp_realloc_ok le k \<and> supp_strdup_ok le k"
  shows "if \<exists>b \<in> set (blocks s). uncovered ps b
    then \<exists>txt. report_leaks env le s = Done (Exit1 txt) else report_leaks env le s = Done (Return s)"
proof -
  have wf: "heap_wf s" using assms(1) by (rule heap_reach_wf)
  let ?leaks = "filter (is_unsuppressed_leak (load_suppressions le)) (blocks s)"
  have "is_unsuppressed_leak (load_suppressions le) b \<longleftrightarrow> uncovered ps b" for b
    using suppressions_exact [OF assms(3-5)] by (simp add: uncovered_def)
  then have e: "?leaks = [] \<longleftrightarrow> \<not> (\<exists>b \<in> set (blocks s). uncovered ps b)" by (simp add: filter_empty_conv)
  have "length ?leaks \<le> 140737488355328" using length_filter_le heap_length [OF wf] by (rule le_trans)
  then have l: "length ?leaks < 18446744073709551616" by simp
  show ?thesis
    using report_leaks_eq [OF heap_wfD(2) [OF wf] assms(2) l] e by (cases "?leaks = []") simp_all
qed

text \<open>A file of two rules, against the sample heap, whose block was allocated at an unknown place.\<close>

definition demo_leak_env :: leak_env where
  "demo_leak_env = \<lparr>supp_file = Some (concat (map rule_text [''third_party/'', ''gen.c''])),
     supp_realloc_ok = (\<lambda>_. True), supp_strdup_ok = (\<lambda>_. True), findings_calloc_ok = True, done_calloc_ok = True\<rparr>"

definition plain_report_env :: report_env where
  "plain_report_env = \<lparr>env_color = None, env_no_color = False, stderr_tty = False, env_symbolize = None,
     env_format = None, frames = None, show_ptr = (\<lambda>a. ''0x'' @ show_base 16 (unat a))\<rparr>"

theorem leak_verdict_witness:
  "\<exists>txt. report_leaks plain_report_env demo_leak_env demo_heap = Done (Exit1 txt)"
proof -
  have p: "\<forall>p \<in> set [''third_party/'', ''gen.c'']. plain_rule p" by (simp add: plain_rule_def line_end_def blank_def)
  have "leak_on demo_heap" by (simp add: demo_heap_def alloc_result_def started_def init_rt_def)
  note t = leak_verdict [OF demo_reach this p, of demo_leak_env plain_report_env]
  have "uncovered ps (blocks demo_heap ! 0)" for ps by (simp add: uncovered_def demo_block)
  then have "\<exists>b \<in> set (blocks demo_heap). uncovered [''third_party/'', ''gen.c''] b" by (simp add: demo_block)
  then show ?thesis using t by (simp add: demo_leak_env_def)
qed

end
