(* ===== verification/RZ_Interpose.thy ===== *)
theory RZ_Interpose
  imports RZ_LeakProps
begin

text \<open>
  Whole-process interposition (\<^verbatim>\<open>runtime/redzone_interpose.c\<close>): every \<^verbatim>\<open>malloc\<close>, \<^verbatim>\<open>calloc\<close>, \<^verbatim>\<open>realloc\<close> and
  \<^verbatim>\<open>free\<close> of the process comes here and goes on to the redzone runtime or to the system allocator,
  and the introspection calls of the platform are answered for redzone blocks. A function returns its
  value, the new state and the calls of the system allocator it made, whose answers are parameters.
\<close>

section \<open>The allocation functions\<close>

datatype sys_call = Sys_malloc u64 | Sys_realloc u64 u64 | Sys_free u64 | Sys_size u64 | Register_zone

record platform =
  real_realloc :: "u64 \<Rightarrow> u64 \<Rightarrow> u64 option"
  real_size :: "u64 \<Rightarrow> u64"
  real_zone :: "u64 \<Rightarrow> u64"

type_synonym 'a act = "('a \<times> rt \<times> sys_call list) outcome"

text \<open>
  The system's \<^verbatim>\<open>realloc\<close> takes the pointers of the system allocator; \<open>None\<close> is that it does not come back, as it need not
  from a pointer of another allocator.
\<close>

definition by_system :: "u64 option \<Rightarrow> sys_call \<Rightarrow> rt \<Rightarrow> u64 act" where
  "by_system r c s = (case r of Some v \<Rightarrow> Done (v, s, [c]) | None \<Rightarrow> Halt ForeignPointer)"

definition by_runtime :: "('a \<times> rt) outcome \<Rightarrow> 'a act" where
  "by_runtime r = bindO r (\<lambda>(v, s). Done (v, s, []))"

definition rz_i_malloc :: "sys \<Rightarrow> u64 \<Rightarrow> rt \<Rightarrow> u64 act" where
  "rz_i_malloc sys sz s =
     (if redzone_in_runtime s \<noteq> 0 then Done (sys_malloc sys sz, s, [Sys_malloc sz])
      else by_runtime (redzone_malloc sys sz None 0 s))"

definition rz_i_calloc :: "sys \<Rightarrow> u64 \<Rightarrow> u64 \<Rightarrow> rt \<Rightarrow> u64 act" where
  "rz_i_calloc sys nmemb sz s =
     (if redzone_in_runtime s \<noteq> 0
      then (let p = sys_malloc sys (nmemb * sz) in
            Done (p, if p \<noteq> 0 then s\<lparr>mem := mem_set p 0 (nmemb * sz) (mem s)\<rparr> else s,
              [Sys_malloc (nmemb * sz)]))
      else by_runtime (redzone_calloc sys nmemb sz None 0 s))"

definition rz_i_realloc :: "platform \<Rightarrow> sys \<Rightarrow> u64 \<Rightarrow> u64 \<Rightarrow> rt \<Rightarrow> u64 act" where
  "rz_i_realloc pf sys ptr sz s =
     (if redzone_in_runtime s \<noteq> 0 then by_system (real_realloc pf ptr sz) (Sys_realloc ptr sz) s
      else if ptr = 0 then by_runtime (redzone_malloc sys sz None 0 s)
      else bindO (redzone_owns sys ptr s) (\<lambda>(owned, s).
        if owned then by_runtime (redzone_realloc sys ptr sz None 0 s)
        else by_system (real_realloc pf ptr sz) (Sys_realloc ptr sz) s))"

definition rz_i_free :: "sys \<Rightarrow> u64 \<Rightarrow> rt \<Rightarrow> unit act" where
  "rz_i_free sys ptr s =
     (if ptr = 0 then Done ((), s, [])
      else if redzone_in_runtime s \<noteq> 0
      then bindO (redzone_maybe_owns sys ptr s) (\<lambda>(maybe, s).
             Done ((), s, if \<not> maybe then [Sys_free ptr] else []))
      else bindO (redzone_owns sys ptr s) (\<lambda>(owned, s).
             if owned then bindO (redzone_free sys ptr s) (\<lambda>s. Done ((), s, []))
             else Done ((), s, [Sys_free ptr])))"

section \<open>The registered zone\<close>

definition rz_zone_size :: "sys \<Rightarrow> u64 \<Rightarrow> rt \<Rightarrow> u64 act" where
  "rz_zone_size sys ptr s = by_runtime (redzone_usable_size sys ptr s)"

definition rz_zone_malloc :: "sys \<Rightarrow> u64 \<Rightarrow> rt \<Rightarrow> u64 act" where
  "rz_zone_malloc sys sz s = by_runtime (redzone_malloc sys sz None 0 s)"

definition rz_zone_calloc :: "sys \<Rightarrow> u64 \<Rightarrow> u64 \<Rightarrow> rt \<Rightarrow> u64 act" where
  "rz_zone_calloc sys n sz s = by_runtime (redzone_calloc sys n sz None 0 s)"

definition rz_zone_valloc :: "sys \<Rightarrow> u64 \<Rightarrow> rt \<Rightarrow> u64 act" where
  "rz_zone_valloc sys sz s = by_runtime (redzone_malloc sys sz None 0 s)"

definition rz_zone_realloc :: "platform \<Rightarrow> sys \<Rightarrow> u64 \<Rightarrow> u64 \<Rightarrow> rt \<Rightarrow> u64 act" where
  "rz_zone_realloc pf sys p sz s = rz_i_realloc pf sys p sz s"

definition rz_zone_free :: "sys \<Rightarrow> u64 \<Rightarrow> rt \<Rightarrow> unit act" where
  "rz_zone_free sys p s = rz_i_free sys p s"

definition rz_zone_destroy :: "rt \<Rightarrow> rt" where "rz_zone_destroy s = s"
definition rz_zone_good_size :: "u64 \<Rightarrow> u64" where "rz_zone_good_size sz = sz"
definition rz_intro_check :: "rt \<Rightarrow> bool" where "rz_intro_check s = True"
definition rz_intro_noop :: "rt \<Rightarrow> rt" where "rz_intro_noop s = s"
definition rz_intro_locked :: "rt \<Rightarrow> bool" where "rz_intro_locked s = False"

record malloc_introspection =
  intro_good_size :: "u64 \<Rightarrow> u64"
  intro_check :: "rt \<Rightarrow> bool"
  force_lock :: "rt \<Rightarrow> rt"
  force_unlock :: "rt \<Rightarrow> rt"
  zone_locked :: "rt \<Rightarrow> bool"

definition rz_introspect :: malloc_introspection where
  "rz_introspect = \<lparr>intro_good_size = rz_zone_good_size, intro_check = rz_intro_check,
     force_lock = rz_intro_noop, force_unlock = rz_intro_noop, zone_locked = rz_intro_locked\<rparr>"

record malloc_zone =
  zone_size :: "sys \<Rightarrow> u64 \<Rightarrow> rt \<Rightarrow> u64 act"
  zone_malloc :: "sys \<Rightarrow> u64 \<Rightarrow> rt \<Rightarrow> u64 act"
  zone_calloc :: "sys \<Rightarrow> u64 \<Rightarrow> u64 \<Rightarrow> rt \<Rightarrow> u64 act"
  zone_valloc :: "sys \<Rightarrow> u64 \<Rightarrow> rt \<Rightarrow> u64 act"
  zone_free :: "sys \<Rightarrow> u64 \<Rightarrow> rt \<Rightarrow> unit act"
  zone_realloc :: "platform \<Rightarrow> sys \<Rightarrow> u64 \<Rightarrow> u64 \<Rightarrow> rt \<Rightarrow> u64 act"
  zone_destroy :: "rt \<Rightarrow> rt"
  zone_name :: string
  introspect :: malloc_introspection
  version :: nat

definition rz_zone :: malloc_zone where
  "rz_zone = \<lparr>zone_size = rz_zone_size, zone_malloc = rz_zone_malloc, zone_calloc = rz_zone_calloc,
     zone_valloc = rz_zone_valloc, zone_free = rz_zone_free, zone_realloc = rz_zone_realloc,
     zone_destroy = rz_zone_destroy, zone_name = ''redzone'', introspect = rz_introspect, version = 0\<rparr>"

section \<open>The introspection calls and the start\<close>

definition rz_i_malloc_size :: "platform \<Rightarrow> sys \<Rightarrow> u64 \<Rightarrow> rt \<Rightarrow> u64 act" where
  "rz_i_malloc_size pf sys ptr s =
     bindO (if ptr \<noteq> 0 then redzone_owns sys ptr s else Done (False, s)) (\<lambda>(owned, s).
       if owned then by_runtime (redzone_usable_size sys ptr s)
       else if ptr = 0 then Done (0, s, [])
       else Done (real_size pf ptr, s, [Sys_size ptr]))"

text \<open>A zone is the one registered here or another, by its address (0 for \<^verbatim>\<open>NULL\<close>).\<close>

datatype zone_ref = Rz_zone | Other_zone u64

definition rz_i_zone_from_ptr :: "platform \<Rightarrow> sys \<Rightarrow> u64 \<Rightarrow> rt \<Rightarrow> zone_ref act" where
  "rz_i_zone_from_ptr pf sys ptr s =
     bindO (if ptr \<noteq> 0 then redzone_owns sys ptr s else Done (False, s)) (\<lambda>(owned, s).
       Done (if owned then Rz_zone else Other_zone (real_zone pf ptr), s, []))"

definition rz_interpose_init :: "rt \<Rightarrow> rt \<times> sys_call list" where
  "rz_interpose_init s = (redzone_set_leak_report False s, [Register_zone])"

section \<open>Routing\<close>

definition handed_out :: "rt \<Rightarrow> u64 \<Rightarrow> bool" where
  "handed_out s p \<longleftrightarrow> p \<in> user_addr ` set (blocks s)"

text \<open>A state inside a runtime call: the lock is taken and the counter is up.\<close>

definition inside :: "rt \<Rightarrow> rt" where
  "inside s = s\<lparr>lock_held := True, in_runtime := in_runtime s + 1\<rparr>"

lemma route:
  assumes "heap_reach s"
  shows "redzone_in_runtime s = 0" and "redzone_owns sys p s = Done (handed_out s p, s)"
    and "i < length (blocks s) \<Longrightarrow> user_addr (blocks s ! i) = p \<Longrightarrow>
      redzone_usable_size sys p s = Done (user_size (blocks s ! i), s)"
  using reach_idle [OF assms] ownership [OF heap_reach_wf [OF assms], of sys p]
  by (simp_all add: handed_out_def redzone_in_runtime_def)

text \<open>C16. Every pointer goes back to the allocator it came from: between calls, \<^verbatim>\<open>free\<close>, \<^verbatim>\<open>realloc\<close>, \<^verbatim>\<open>malloc_size\<close>
  and \<^verbatim>\<open>malloc_zone_from_ptr\<close> of an address the runtime handed out, freed or not, are answered by the
  runtime without a call of the system allocator, and every other non-null pointer is passed to the
  system allocator, once, with the heap untouched.\<close>

theorem interposed_routing:
  assumes "heap_reach s" and "p \<noteq> 0"
  shows "if handed_out s p
    then rz_i_free sys p s = bindO (redzone_free sys p s) (\<lambda>s. Done ((), s, []))
      \<and> rz_i_realloc pf sys p n s = by_runtime (redzone_realloc sys p n None 0 s)
      \<and> (\<exists>b \<in> set (blocks s). user_addr b = p \<and> rz_i_malloc_size pf sys p s = Done (user_size b, s, []))
      \<and> rz_i_zone_from_ptr pf sys p s = Done (Rz_zone, s, [])
    else rz_i_free sys p s = Done ((), s, [Sys_free p])
      \<and> rz_i_realloc pf sys p n s = by_system (real_realloc pf p n) (Sys_realloc p n) s
      \<and> rz_i_malloc_size pf sys p s = Done (real_size pf p, s, [Sys_size p])
      \<and> rz_i_zone_from_ptr pf sys p s = Done (Other_zone (real_zone pf p), s, [])"
proof -
  note r = route(1,2) [OF assms(1)]
  note d = rz_i_free_def rz_i_realloc_def rz_i_malloc_size_def rz_i_zone_from_ptr_def
  show ?thesis
  proof (cases "handed_out s p")
    case True
    then obtain i where i: "i < length (blocks s)" "user_addr (blocks s ! i) = p"
      by (auto simp: handed_out_def in_set_conv_nth)
    have "rz_i_malloc_size pf sys p s = Done (user_size (blocks s ! i), s, [])"
      by (simp add: d r True assms(2) by_runtime_def route(3) [OF assms(1) i])
    then have "\<exists>b \<in> set (blocks s). user_addr b = p \<and> rz_i_malloc_size pf sys p s = Done (user_size b, s, [])"
      using i nth_mem by blast
    then show ?thesis using True by (simp add: d r assms(2))
  next
    case False
    then show ?thesis by (simp add: d r assms(2))
  qed
qed

lemma inside_simps [simp]:
  "mem (inside s) = mem s" "blocks (inside s) = blocks s" "shadow_val (inside s) = shadow_val s" "reserved (inside s) = reserved s"
  "(inside s)\<lparr>mem := m\<rparr> = inside (s\<lparr>mem := m\<rparr>)"
  by (simp_all add: inside_def)

lemma inside_runtime: "heap_reach s \<Longrightarrow> redzone_in_runtime (inside s) \<noteq> 0"
  using route(1) by (simp add: inside_def redzone_in_runtime_def)

text \<open>Memory from the system can be written without touching a block.\<close>

lemma system_write:
  assumes wf: "heap_wf s" and sys: "sys_ok sys s" and nz: "sys_malloc sys n \<noteq> 0"
    and m: "\<And>x. \<not> in_span (sys_malloc sys n) (unat n) x \<Longrightarrow> m x = mem s x"
  shows "heap_wf (s\<lparr>mem := m\<rparr>)" and "b \<in> set (blocks s) \<Longrightarrow> in_block b (unat x) \<Longrightarrow> m x = mem s x"
proof -
  let ?p = "sys_malloc sys n"
  have out: "\<not> in_span ?p (unat n) x" if "b \<in> set (blocks s)" "in_block b (unat x)" for b x
  proof -
    have "unat ?p + unat n \<le> 18446744073709551616" "apart ?p n b" using sys nz that(1) by (fastforce simp: sys_ok_def)+
    then show ?thesis using that(2) by (auto simp: in_span_nowrap in_block_def apart_def)
  qed
  then show "b \<in> set (blocks s) \<Longrightarrow> in_block b (unat x) \<Longrightarrow> m x = mem s x" using m by blast
  show "heap_wf (s\<lparr>mem := m\<rparr>)" by (rule heap_wf_mem [OF wf]) (use out m in blast)
qed

text \<open>C17. A runtime that holds its lock is never entered again, so it cannot wait for itself: of a call that the runtime causes
  while it walks its table or prints a report, \<^verbatim>\<open>malloc\<close>, \<^verbatim>\<open>calloc\<close> and \<^verbatim>\<open>realloc\<close> are one call of the system
  allocator, and \<^verbatim>\<open>free\<close> is at most one, never with a redzone block. The table, the shadow and the lock stay as they
  are; \<^verbatim>\<open>calloc\<close> writes zeros to the bytes the system gave it for the product of its arguments, wrapped
  to 64 bits, and nothing else, so that the heap is as well-formed as before; \<^verbatim>\<open>realloc\<close> comes back if
  the system's does, which is not said of a redzone block.\<close>

theorem reentrant_calls:
  assumes "heap_reach s" and "sys_ok sys s"
  shows "rz_i_malloc sys n (inside s) = Done (sys_malloc sys n, inside s, [Sys_malloc n])
    \<and> (\<exists>m. rz_i_calloc sys k n (inside s) = Done (sys_malloc sys (k * n), inside (s\<lparr>mem := m\<rparr>), [Sys_malloc (k * n)])
        \<and> heap_wf (s\<lparr>mem := m\<rparr>)
        \<and> m = (\<lambda>x. if sys_malloc sys (k * n) \<noteq> 0 \<and> in_span (sys_malloc sys (k * n)) (unat (k * n)) x then 0 else mem s x))
    \<and> rz_i_realloc pf sys p n (inside s) = by_system (real_realloc pf p n) (Sys_realloc p n) (inside s)
    \<and> rz_i_free sys p (inside s) =
        Done ((), inside s, if p = 0 \<or> 16 \<le> p \<and> shadow_val s (p - 8) = RZ_POISON then [] else [Sys_free p])
    \<and> (handed_out s p \<longrightarrow> rz_i_free sys p (inside s) = Done ((), inside s, []))"
proof -
  have wf: "heap_wf s" using assms(1) by (rule heap_reach_wf)
  note r = inside_runtime [OF assms(1)]
  have rs: "reserved (inside s)" using heap_wfD(1) [OF wf] by simp
  have f: "rz_i_free sys p (inside s) =
      Done ((), inside s, if p = 0 \<or> 16 \<le> p \<and> shadow_val s (p - 8) = RZ_POISON then [] else [Sys_free p])"
    by (simp add: rz_i_free_def r redzone_maybe_owns_eq [OF rs])
  moreover have "16 \<le> p \<and> shadow_val s (p - 8) = RZ_POISON" if "handed_out s p"
    using ownership [OF wf, of undefined p] that
    by (simp add: handed_out_def redzone_maybe_owns_eq [OF heap_wfD(1) [OF wf]])
  moreover have "rz_i_malloc sys n (inside s) = Done (sys_malloc sys n, inside s, [Sys_malloc n])"
    "rz_i_realloc pf sys p n (inside s) = by_system (real_realloc pf p n) (Sys_realloc p n) (inside s)"
    by (simp_all add: rz_i_malloc_def rz_i_realloc_def r)
  moreover
  let ?p = "sys_malloc sys (k * n)"
  let ?m = "\<lambda>x. if ?p \<noteq> 0 \<and> in_span ?p (unat (k * n)) x then 0 else mem s x"
  have "rz_i_calloc sys k n (inside s) = Done (?p, inside (s\<lparr>mem := ?m\<rparr>), [Sys_malloc (k * n)])"
    by (cases "?p = 0") (simp_all add: rz_i_calloc_def r Let_def mem_set_def fun_eq_iff)
  moreover have "heap_wf (s\<lparr>mem := ?m\<rparr>)"
    by (cases "?p = 0") (use wf in simp, rule system_write(1) [OF wf assms(2)], auto)
  ultimately show ?thesis by auto
qed

text \<open>A redzone block that is released there is leaked, as the comment says; one that is grown there is handed to the
  system's \<^verbatim>\<open>realloc\<close>, which did not allocate it.\<close>

lemma reentrant_block:
  assumes "heap_reach s" and "handed_out s p"
  shows "rz_i_free sys p (inside s) = Done ((), inside s, [])"
    and "real_realloc pf p n = None \<Longrightarrow> rz_i_realloc pf sys p n (inside s) = Halt ForeignPointer"
proof -
  have wf: "heap_wf s" using assms(1) by (rule heap_reach_wf)
  note r = inside_runtime [OF assms(1)]
  have "16 \<le> p \<and> shadow_val s (p - 8) = RZ_POISON"
    using ownership [OF wf, of undefined p] assms(2)
    by (simp add: handed_out_def redzone_maybe_owns_eq [OF heap_wfD(1) [OF wf]])
  moreover have "reserved (inside s)" using heap_wfD(1) [OF wf] by simp
  ultimately show "rz_i_free sys p (inside s) = Done ((), inside s, [])"
    by (simp add: rz_i_free_def r redzone_maybe_owns_eq)
  show "real_realloc pf p n = None \<Longrightarrow> rz_i_realloc pf sys p n (inside s) = Halt ForeignPointer"
    by (simp add: rz_i_realloc_def r by_system_def)
qed

text \<open>The size and zone queries and the zone's own callbacks have no such guard: inside the runtime they wait
  for the lock their own thread holds.\<close>

lemma reentrant_query_deadlocks:
  "p \<noteq> 0 \<Longrightarrow> rz_i_malloc_size pf sys p (inside s) = Halt TableDeadlock"
  "p \<noteq> 0 \<Longrightarrow> rz_i_zone_from_ptr pf sys p (inside s) = Halt TableDeadlock"
  "p \<noteq> 0 \<Longrightarrow> zone_size rz_zone sys p (inside s) = Halt TableDeadlock"
  by (simp_all add: rz_i_malloc_size_def rz_i_zone_from_ptr_def rz_zone_def rz_zone_size_def by_runtime_def
      redzone_owns_def redzone_usable_size_def inside_def table_lock_def)

text \<open>An address inside a block, which \<^verbatim>\<open>__redzone_free\<close> reports, goes to the system's \<^verbatim>\<open>free\<close> instead.\<close>

lemma interior_free_passed_on:
  assumes "heap_reach s" and "find_block p s = Some i" and "p \<noteq> 0" and "\<not> handed_out s p"
  shows "redzone_free sys p s = Halt (Report (ReportFree ''invalid-free'' p))"
    and "rz_i_free sys p s = Done ((), s, [Sys_free p])"
proof -
  have "i < length (blocks s)" using assms(2) by (simp add: find_block_Some)
  then have "user_addr (blocks s ! i) \<noteq> p" using assms(4) by (auto simp: handed_out_def)
  then show "redzone_free sys p s = Halt (Report (ReportFree ''invalid-free'' p))"
    using free_by_block [OF heap_reach_wf [OF assms(1)] assms(3)] assms(2) by simp
  show "rz_i_free sys p s = Done ((), s, [Sys_free p])"
    using assms(3,4) by (simp add: rz_i_free_def route [OF assms(1)])
qed

definition demo_platform :: platform where
  "demo_platform = \<lparr>real_realloc = (\<lambda>p n. None), real_size = (\<lambda>_. 0), real_zone = (\<lambda>_. 0)\<rparr>"

theorem interposed_routing_witness:
  "rz_i_free (demo_sys 0) 4112 demo_heap = Done ((), freed_result 0 demo_heap, [])
    \<and> rz_i_free (demo_sys 0) 65536 demo_heap = Done ((), demo_heap, [Sys_free 65536])"
  using interposed_routing [OF demo_reach, of 4112 "demo_sys 0" demo_platform 0]
    interposed_routing [OF demo_reach, of 65536 "demo_sys 0" demo_platform 0]
  by (auto simp: handed_out_def demo_block demo_free)

theorem reentrant_calls_witness:
  "rz_i_malloc (demo_sys 65536) 8 (inside demo_heap) = Done (65536, inside demo_heap, [Sys_malloc 8])
    \<and> rz_i_free (demo_sys 65536) 4112 (inside demo_heap) = Done ((), inside demo_heap, [])"
proof -
  have s: "sys_ok (demo_sys 65536) demo_heap"
    by (rule demo_sys_ok) (simp_all add: demo_block apart_def)
  have h: "handed_out demo_heap 4112" by (simp add: handed_out_def demo_block)
  have m: "sys_malloc (demo_sys 65536) 8 = 65536" by (simp add: demo_sys_def)
  show ?thesis using reentrant_calls [OF demo_reach s, of 8 0 demo_platform 4112] h unfolding m by blast
qed

end
