(* ===== verification/RZ_Threads.thy ===== *)
theory RZ_Threads
  imports RZ_HeapProps
begin

text \<open>
  Several threads in the memory checker at once. The table is changed under \<^verbatim>\<open>g_table_lock\<close>, in one step; the
  shadow and the header of a block are written after the lock is released, byte by byte, while other
  threads allocate, free and check. The note at \<^verbatim>\<open>g_table_lock\<close> says the shadow needs no lock because
  these writes touch disjoint addresses; this theory proves it.
\<close>

section \<open>Single writes\<close>

datatype prim = Shadow_Byte u64 i8 | Mem_Byte u64 "8 word"

fun apply_prim :: "prim \<Rightarrow> rt \<Rightarrow> rt" where
  "apply_prim (Shadow_Byte k v) s = shadow_put k v s"
| "apply_prim (Mem_Byte a v) s = s\<lparr>mem := (mem s)(a := v)\<rparr>"

fun apply_all :: "prim list \<Rightarrow> rt \<Rightarrow> rt" where
  "apply_all [] s = s"
| "apply_all (p # ps) s = apply_all ps (apply_prim p s)"

text \<open>The writes of \<^verbatim>\<open>set_shadow_range\<close>, \<^verbatim>\<open>set_shadow_byte\<close> and of a little-endian store.\<close>

definition memset_writes :: "u64 \<Rightarrow> i8 \<Rightarrow> nat \<Rightarrow> prim list" where
  "memset_writes lo v n = map (\<lambda>k. Shadow_Byte (lo + of_nat k) v) [0..<n]"

definition fill_writes :: "u64 \<Rightarrow> u64 \<Rightarrow> i8 \<Rightarrow> prim list" where
  "fill_writes start len v =
     (if len = 0 \<or> drop_bit 3 start \<ge> SHADOW_BYTES then []
      else memset_writes (drop_bit 3 start) v
        (unat (min SHADOW_BYTES (drop_bit 3 (start + len + 7)) - drop_bit 3 start)))"

definition put_writes :: "u64 \<Rightarrow> i8 \<Rightarrow> prim list" where
  "put_writes a v = (if drop_bit 3 a \<ge> SHADOW_BYTES then [] else [Shadow_Byte (drop_bit 3 a) v])"

fun store_writes :: "nat \<Rightarrow> u64 \<Rightarrow> nat \<Rightarrow> prim list" where
  "store_writes 0 a n = []"
| "store_writes (Suc k) a n = store_writes k (a + 1) (n div 256) @ [Mem_Byte a (of_nat n)]"

text \<open>What \<^verbatim>\<open>rz_allocate\<close> writes after it recorded the block, and \<^verbatim>\<open>__redzone_free\<close> after it marked it.\<close>

definition alloc_writes :: "nat \<Rightarrow> block \<Rightarrow> prim list" where
  "alloc_writes idx b =
     fill_writes (real_base b) (total_size b) RZ_POISON @
     fill_writes (user_addr b) (user_size b AND NOT 7) 0 @
     (if user_size b AND 7 \<noteq> 0
      then put_writes (user_addr b + (user_size b AND NOT 7)) (ucast (user_size b AND 7)) else []) @
     store_writes 8 (user_addr b - 16) (unat RZ_HEADER_MAGIC) @
     store_writes 8 (user_addr b - 16 + 8) (unat (of_nat idx :: u64))"

definition free_writes :: "block \<Rightarrow> prim list" where
  "free_writes b = fill_writes (user_addr b) ((user_size b + 7) AND NOT 7) FREED_POISON"

lemma apply_prim_fields [simp]:
  "blocks (apply_prim p s) = blocks s" "cap (apply_prim p s) = cap s" "lock_held (apply_prim p s) = lock_held s"
  "in_runtime (apply_prim p s) = in_runtime s" "leak_on (apply_prim p s) = leak_on s" "reserved (apply_prim p s) = reserved s"
  by (cases p; simp add: shadow_put_def reserved_def)+

lemma apply_all_fields [simp]:
  "blocks (apply_all ps s) = blocks s" "cap (apply_all ps s) = cap s" "lock_held (apply_all ps s) = lock_held s"
  "in_runtime (apply_all ps s) = in_runtime s" "leak_on (apply_all ps s) = leak_on s" "reserved (apply_all ps s) = reserved s"
  by (induction ps arbitrary: s) simp_all

lemma apply_all_append: "apply_all (ps @ qs) s = apply_all qs (apply_all ps s)"
  by (induction ps arbitrary: s) simp_all

lemma memset_apply:
  "n < 18446744073709551616 \<Longrightarrow> apply_all (memset_writes lo v n) s = shadow_memset lo v (of_nat n) s"
proof (induction n)
  case 0
  show ?case by (cases "shadow s") (simp_all add: memset_writes_def shadow_memset_def in_span_def)
next
  case (Suc n)
  have u: "unat (of_nat n :: u64) = n" "unat (of_nat (Suc n) :: u64) = Suc n"
    using Suc.prems by (auto intro!: unat_nat64 simp del: of_nat_Suc)
  have e: "x = lo + of_nat n \<longleftrightarrow> unat (x - lo) = n" for x
  proof
    assume "unat (x - lo) = n"
    then have "x - lo = of_nat n" using u(1) by (metis word_unat_eq_iff)
    then show "x = lo + of_nat n" by (simp add: algebra_simps)
  qed (simp add: u)
  have "apply_all (memset_writes lo v (Suc n)) s = apply_prim (Shadow_Byte (lo + of_nat n) v) (shadow_memset lo v (of_nat n) s)"
    using Suc by (simp add: memset_writes_def apply_all_append)
  also have "\<dots> = shadow_memset lo v (of_nat (Suc n)) s"
    by (cases "shadow s") (auto simp: shadow_put_def shadow_memset_def in_span_def u e fun_eq_iff simp del: of_nat_Suc)
  finally show ?case .
qed

lemma fill_apply: "apply_all (fill_writes a n v) s = fill s a n v"
  by (simp add: fill_writes_def fill_def memset_apply unat_bound64)

lemma put_apply: "apply_all (put_writes a v) s = put s a v"
  by (simp add: put_writes_def put_def)

lemma store_apply: "apply_all (store_writes k a n) s = s\<lparr>mem := store_le k (mem s) a n\<rparr>"
  by (induction k arbitrary: a n s) (simp_all add: apply_all_append)

text \<open>One thread alone: recording and then all the writes is the allocation, marking and then all the
  writes is the release.\<close>

lemma alloc_apply:
  "apply_all (alloc_writes (length (blocks s)) (new_block base sz al file line))
      (s\<lparr>blocks := blocks s @ [new_block base sz al file line], cap := new_cap s\<rparr>)
    = alloc_result base sz al file line s"
  by (simp add: alloc_writes_def apply_all_append fill_apply put_apply store_apply alloc_result_def so.guarded_def
      so.carved_def new_block_def Let_def write_header_def store64_def g_count_def)

lemma free_apply: "apply_all (free_writes (blocks s ! i)) (set_freed i s) = freed_result i s"
  by (simp add: free_writes_def fill_apply freed_result_def)

section \<open>Places and footprints\<close>

text \<open>What a write touches, and what a block owns: the shadow of its chunks and its guard bytes. Once a block
  is freed only the shadow of its user chunks is still written.\<close>

fun touches :: "prim \<Rightarrow> block \<Rightarrow> bool" where
  "touches (Shadow_Byte k v) b \<longleftrightarrow> in_chunks b (unat k) \<and> (freed b \<longrightarrow> unat (user_addr b) div 8 \<le> unat k)"
| "touches (Mem_Byte a v) b \<longleftrightarrow> in_block b (unat a) \<and> \<not> in_user b (unat a) \<and> \<not> freed b"

definition agree :: "block \<Rightarrow> rt \<Rightarrow> rt \<Rightarrow> bool" where
  "agree b s s' \<longleftrightarrow> (reserved s \<longleftrightarrow> reserved s')
     \<and> (\<forall>k. in_chunks b (unat k) \<longrightarrow> shadow_at s k = shadow_at s' k)
     \<and> (\<forall>a. in_block b (unat a) \<longrightarrow> \<not> in_user b (unat a) \<longrightarrow> mem s a = mem s' a)"

definition fine :: "rt \<Rightarrow> nat \<Rightarrow> bool" where
  "fine s i \<longleftrightarrow> (let b = blocks s ! i in
     (\<forall>x. in_chunks b (unat x div 8) \<longrightarrow> shadow_val s x = expected b (unat x div 8))
     \<and> load64 (mem s) (user_addr b - 16) = RZ_HEADER_MAGIC \<and> load64 (mem s) (user_addr b - 8) = of_nat i)"

lemma shadow_at_prim:
  "shadow_at (apply_prim p s) k = (case p of Shadow_Byte j v \<Rightarrow> if k = j \<and> reserved s then v else shadow_at s k | _ \<Rightarrow> shadow_at s k)"
  by (cases p; cases "shadow s") (simp_all add: shadow_at_def shadow_put_def reserved_def)

lemma mem_prim:
  "mem (apply_prim p s) x = (case p of Mem_Byte a v \<Rightarrow> if x = a then v else mem s x | _ \<Rightarrow> mem s x)"
  by (cases p) (simp_all add: shadow_put_def)

declare apply_prim.simps [simp del]

lemma agree_prim: "agree b s s' \<Longrightarrow> agree b (apply_prim p s) (apply_prim p s')"
  by (auto simp: agree_def shadow_at_prim mem_prim split: prim.split)

lemma agree_all: "agree b s s' \<Longrightarrow> agree b (apply_all ps s) (apply_all ps s')"
  by (induction ps arbitrary: s s') (simp_all add: agree_prim)

lemma agree_refl [simp]: "agree b s s"
  by (simp add: agree_def)

lemma header_place:
  assumes b: "block_ok b" and h: "h = user_addr b - 16 \<or> h = user_addr b - 8" and x: "in_span h 8 x"
  shows "in_block b (unat x)" and "\<not> in_user b (unat x)"
proof -
  note d = block_okD [OF b]
  have u: "unat h + 8 \<le> unat (user_addr b)" "unat (real_base b) \<le> unat h" using h d(3,4,7,8) by auto
  then have "unat h + 8 \<le> 18446744073709551616"
    using less_imp_le [OF unat_bound64 [of "user_addr b"]] by linarith
  then have "unat h \<le> unat x" "unat x < unat h + 8" using x by (simp_all add: in_span_nowrap)
  then show "in_block b (unat x)" "\<not> in_user b (unat x)"
    using u d(5) unfolding in_block_def in_user_def by linarith+
qed

lemma fine_agree:
  assumes a: "agree (blocks s ! i) s s'" and b: "block_ok (blocks s ! i)" and e: "blocks s' ! i = blocks s ! i"
    and f: "fine s i"
  shows "fine s' i"
proof -
  let ?b = "blocks s ! i"
  note d = block_okD [OF b]
  have "shadow_val s' x = shadow_val s x" if "in_chunks ?b (unat x div 8)" for x
    using a that by (simp add: agree_def shadow_val_def unat_drop3)
  moreover have "load64 (mem s') h = load64 (mem s) h"
    if h: "h = user_addr ?b - 16 \<or> h = user_addr ?b - 8" for h
  proof (rule load64_cong)
    show "mem s' x = mem s x" if "in_span h 8 x" for x
      using a header_place [OF b h that] by (simp add: agree_def)
  qed
  ultimately show ?thesis using f by (simp add: fine_def e Let_def)
qed

text \<open>A write that touches one block leaves the places of every other alone.\<close>

lemma other_block:
  assumes "touches p b" and "block_ok b" and "block_ok b'" and "apart (real_base b) (total_size b) b'"
  shows "agree b' (apply_prim p s) s"
proof -
  have ch: "\<not> in_chunks b' c" if "in_chunks b c" for c
    using apart_chunks [OF assms(4) block_okD(1) [OF assms(2)] assms(3), of c] that by (auto simp: in_chunks_def)
  have bl: "\<not> in_block b' x" if "in_block b x" for x
    using apart_blocks [OF assms(4), of x] that by (auto simp: in_block_def)
  show ?thesis
    using assms(1) ch bl by (cases p) (auto simp: agree_def shadow_at_prim mem_prim)
qed

text \<open>The writes of an operation stay within its block.\<close>

lemma fill_touches:
  assumes "p \<in> set (fill_writes a n v)" and w: "unat a + unat n + 7 < 18446744073709551616"
  shows "\<exists>k. p = Shadow_Byte k v \<and> unat a div 8 \<le> unat k \<and> unat k < (unat a + unat n + 7) div 8"
proof -
  let ?lo = "drop_bit 3 a" and ?hi = "min SHADOW_BYTES (drop_bit 3 (a + n + 7))"
  have lo: "unat ?lo = unat a div 8" by (simp add: unat_ops)
  have "unat (a + n + 7) = unat a + unat n + 7" using w by (simp add: unat_plus64)
  then have h: "unat (drop_bit 3 (a + n + 7)) = (unat a + unat n + 7) div 8" by (simp add: unat_ops)
  have hi: "unat ?hi \<le> (unat a + unat n + 7) div 8" using h by (simp add: min_def word_le_nat_alt)
  obtain j where j: "p = Shadow_Byte (?lo + of_nat j) v" "j < unat (?hi - ?lo)" "\<not> SHADOW_BYTES \<le> ?lo"
    using assms(1) by (auto simp: fill_writes_def memset_writes_def split: if_splits simp del: SHADOW_BYTES_eq)
  have "?lo \<le> drop_bit 3 (a + n + 7)"
    unfolding word_le_nat_alt lo h by (rule div_le_mono) simp
  then have le: "?lo \<le> ?hi" using j(3) by (auto simp: min_def not_le simp del: SHADOW_BYTES_eq)
  then have "unat (?hi - ?lo) = unat ?hi - unat ?lo" by (simp add: unat_sub)
  then have "j < unat ?hi - unat ?lo" using j(2) by simp
  then have jl: "unat ?lo + j < unat ?hi" by simp
  then have "unat (of_nat j :: u64) = j" using unat_bound64 [of ?hi] by (intro unat_nat64) linarith
  then have "unat (?lo + of_nat j) = unat ?lo + j" using less_trans [OF jl unat_bound64] by (subst unat_plus64) (simp_all del: SHADOW_BYTES_eq)
  then show ?thesis using j(1) jl hi lo by auto
qed

lemma put_touches: "p \<in> set (put_writes a v) \<Longrightarrow> p = Shadow_Byte (drop_bit 3 a) v"
  unfolding put_writes_def by (cases "SHADOW_BYTES \<le> drop_bit 3 a") simp_all

lemma store_touches:
  "p \<in> set (store_writes k a n) \<Longrightarrow> k \<le> 18446744073709551616 \<Longrightarrow> \<exists>x v. p = Mem_Byte x v \<and> in_span a k x"
proof (induction k arbitrary: a n)
  case (Suc k)
  then show ?case using in_span_Suc [of k a] by fastforce
qed simp

lemma free_touches:
  assumes b: "block_ok b" and p: "p \<in> set (free_writes b)"
  shows "touches p (b\<lparr>freed := True\<rparr>)"
proof -
  note d = block_okD [OF b]
  let ?n = "(user_size b + 7) AND NOT 7"
  have "unat (user_size b + 7) = unat (user_size b) + 7" using d(5,6) by (simp add: unat_plus64)
  then have len: "unat ?n = (unat (user_size b) + 7) div 8 * 8" by (simp only: unat_and_not7)
  have "(unat (user_size b) + 7) div 8 * 8 \<le> unat (user_size b) + 7" by simp
  then have "unat (user_addr b) + unat ?n + 7 < 18446744073709551616" unfolding len using d(5,6) by linarith
  from fill_touches [OF p [unfolded free_writes_def] this] obtain k where
    k: "p = Shadow_Byte k FREED_POISON" "unat (user_addr b) div 8 \<le> unat k"
    "unat k < (unat (user_addr b) + unat ?n + 7) div 8" by blast
  have "(unat (user_addr b) + unat ?n + 7) div 8 = unat (user_addr b) div 8 + (unat (user_size b) + 7) div 8"
    unfolding len by (rule chunks_round [OF d(2)])
  with k(2,3) have "in_chunks b (unat k)" using user_chunks_in_block [OF b] by simp
  then show ?thesis using k(1,2) by simp
qed

lemma alloc_touches:
  assumes b: "block_ok b" and nf: "\<not> freed b" and p: "p \<in> set (alloc_writes i b)"
  shows "touches p b"
proof -
  note d = block_okD [OF b]
  let ?a = "user_size b AND NOT 7"
  have a: "unat ?a = unat (user_size b) div 8 * 8" by (simp only: unat_and_not7)
  then have al: "unat ?a \<le> unat (user_size b)" by simp
  have ch: "touches (Shadow_Byte k v) b"
    if "unat (user_addr b) div 8 \<le> unat k" "unat k < unat (user_addr b) div 8 + (unat (user_size b) + 7) div 8" for k v
    using user_chunks_in_block [OF b that] nf by simp
  have st: "touches p b"
    if w: "p \<in> set (store_writes 8 h n)" and h: "h = user_addr b - 16 \<or> h = user_addr b - 8" for h n
  proof -
    obtain x v where x: "p = Mem_Byte x v" "in_span h 8 x" using store_touches [OF w] by auto
    then show ?thesis using header_place [OF b h x(2)] nf by simp
  qed
  consider "p \<in> set (fill_writes (real_base b) (total_size b) RZ_POISON)" | "p \<in> set (fill_writes (user_addr b) ?a 0)"
    | "user_size b AND 7 \<noteq> 0" "p \<in> set (put_writes (user_addr b + ?a) (ucast (user_size b AND 7)))"
    | "p \<in> set (store_writes 8 (user_addr b - 16) (unat RZ_HEADER_MAGIC))"
    | "p \<in> set (store_writes 8 (user_addr b - 8) (unat (of_nat i :: u64)))"
    using p by (auto simp: alloc_writes_def split: if_splits)
  then show ?thesis
  proof cases
    case 1
    then show ?thesis using fill_touches [OF 1] d(6) nf by (auto simp: in_chunks_def)
  next
    case 2
    have "unat (user_addr b) + unat ?a + 7 < 18446744073709551616" using al d(5,6) by linarith
    from fill_touches [OF 2 this] obtain k where k: "p = Shadow_Byte k 0" "unat (user_addr b) div 8 \<le> unat k"
      "unat k < unat (user_addr b) div 8 + unat (user_size b) div 8"
      unfolding a chunks_round [OF d(2)] by blast
    have "unat (user_size b) div 8 \<le> (unat (user_size b) + 7) div 8" by (rule div_le_mono) simp
    then show ?thesis unfolding k(1) using k(2,3) by (intro ch) simp_all
  next
    case 3
    have "unat (user_addr b + ?a) = unat (user_addr b) + unat ?a" using al d(5,6) by (subst unat_plus64) simp_all
    then have i: "unat (drop_bit 3 (user_addr b + ?a)) = unat (user_addr b) div 8 + unat (user_size b) div 8"
      using a by (simp add: unat_ops)
    have "unat (user_size b) mod 8 \<noteq> 0"
    proof
      assume "unat (user_size b) mod 8 = 0"
      then have "unat (user_size b AND 7) = 0" by (simp only: unat_and7)
      then have "user_size b AND 7 = 0" by (simp only: unat_0_iff)
      with 3(1) show False by blast
    qed
    then have "unat (user_size b) div 8 < (unat (user_size b) + 7) div 8"
      using chunk_ceil [of 0 "unat (user_size b) div 8" "unat (user_size b)"] by simp
    then have hi: "unat (drop_bit 3 (user_addr b + ?a)) < unat (user_addr b) div 8 + (unat (user_size b) + 7) div 8"
      unfolding i by simp
    have lo: "unat (user_addr b) div 8 \<le> unat (drop_bit 3 (user_addr b + ?a))" unfolding i by simp
    have "p = Shadow_Byte (drop_bit 3 (user_addr b + ?a)) (ucast (user_size b AND 7))"
      using 3(2) by (rule put_touches)
    then show ?thesis by (simp only: ch [OF lo hi])
  next
    case 4
    then show ?thesis by (rule st) simp
  next
    case 5
    then show ?thesis by (rule st) simp
  qed
qed

section \<open>The locked parts of allocation and release\<close>

definition alloc_record :: "sys \<Rightarrow> u64 \<Rightarrow> u64 \<Rightarrow> cstr \<Rightarrow> int \<Rightarrow> rt \<Rightarrow> (nat option \<times> rt) outcome" where
  "alloc_record sys sz align file line s =
     (let slack = (if align > REDZONE_SIZE then align else 0) in
      if sz > SIZE_MAX - 2 * REDZONE_SIZE - slack then Done (None, s) else
      let tot = sz + 2 * REDZONE_SIZE + slack;
          base = sys_malloc sys tot in
      if base = 0 then Done (None, s) else
      let user = (base + REDZONE_SIZE + (align - 1)) AND NOT (align - 1) in
      bindO (table_lock s) (\<lambda>s.
      bindO (record_block sys base tot user sz file line s) (\<lambda>(idx, s).
      Done (Some (unat idx), table_unlock s))))"

definition free_mark :: "sys \<Rightarrow> u64 \<Rightarrow> rt \<Rightarrow> (nat option \<times> rt) outcome" where
  "free_mark sys ptr s =
     (if ptr = 0 then Done (None, s) else
      bindO (table_lock s) (\<lambda>s.
      bindO (block_from_user_ptr sys ptr s) (\<lambda>(b, s).
      case b of
        None \<Rightarrow>
          (case find_block ptr s of
             None \<Rightarrow> Done (None, table_unlock s)
           | Some _ \<Rightarrow> Halt (Report (ReportFree ''invalid-free'' ptr)))
      | Some i \<Rightarrow>
          if freed (blocks s ! i) then Halt (Report (ReportFree ''double-free'' ptr))
          else Done (Some i, table_unlock (set_freed i s)))))"

lemma alloc_record_eq:
  assumes l: "\<not> lock_held s" and n: "length (blocks s) < 18446744073709551616"
  shows "alloc_record sys sz al loc line s =
    (if sz > SIZE_MAX - 2 * REDZONE_SIZE - alloc_slack al \<or> sys_malloc sys (alloc_total sz al) = 0 then Done (None, s)
     else if g_count s = cap s \<and> \<not> sys_realloc_ok sys then Halt OutOfMemoryTracking
     else Done (Some (length (blocks s)), s\<lparr>blocks := blocks s @ [new_block (sys_malloc sys (alloc_total sz al)) sz al loc line],
       cap := new_cap s\<rparr>))"
  unfolding alloc_record_def alloc_slack_def [symmetric] Let_def alloc_total_def [symmetric]
    alloc_user_def [symmetric] record_block_locked [OF l]
  using unat_nat64 [OF n] by (simp add: unlock_recorded [OF l] g_count_def new_block_def)

lemma free_mark_eq:
  assumes r: "reserved s" and l: "\<not> lock_held s"
  shows "free_mark sys p s =
    (if p = 0 then Done (None, s)
     else case lookup_user s p of
       None \<Rightarrow> (case find_block p s of
           None \<Rightarrow> Done (None, s)
         | Some _ \<Rightarrow> Halt (Report (ReportFree ''invalid-free'' p)))
     | Some i \<Rightarrow> if freed (blocks s ! i) then Halt (Report (ReportFree ''double-free'' p))
                 else Done (Some i, set_freed i s))"
proof -
  have "table_unlock (set_freed i (s\<lparr>lock_held := True, in_runtime := in_runtime s + 1\<rparr>)) = set_freed i s" for i
    using l by (cases s) (simp add: table_unlock_def set_freed_def)
  then show ?thesis using r l by (auto simp: free_mark_def split: option.splits)
qed

text \<open>The two parts put together are the functions of the runtime.\<close>

lemma alloc_split:
  assumes wf: "heap_wf s"
  shows "rz_allocate sys sz al loc line s = bindO (alloc_record sys sz al loc line s) (\<lambda>(r, s).
    case r of None \<Rightarrow> Done (0, s)
    | Some i \<Rightarrow> Done (user_addr (blocks s ! i), apply_all (alloc_writes i (blocks s ! i)) s))"
proof -
  have n: "length (blocks s) < 18446744073709551616" using heap_length [OF wf] by simp
  show ?thesis
    unfolding rz_allocate_eq [OF heap_wfD(1,2) [OF wf]] alloc_record_eq [OF heap_wfD(2) [OF wf] n]
    by (simp add: alloc_apply nth_append) (simp add: new_block_def)
qed

lemma free_split:
  assumes wf: "heap_wf s"
  shows "redzone_free sys p s = bindO (free_mark sys p s) (\<lambda>(r, s).
    Done (case r of None \<Rightarrow> s | Some i \<Rightarrow> apply_all (free_writes (blocks s ! i)) s))"
proof -
  have "apply_all (free_writes ((blocks s)[i := (blocks s ! i)\<lparr>freed := True\<rparr>] ! i)) (set_freed i s) = freed_result i s"
    if "lookup_user s p = Some i" for i
    using lookup_user_sound [OF wf that] free_apply [of s i] by (simp add: free_writes_def)
  then show ?thesis
    by (auto simp: redzone_free_eq [OF wf] free_mark_eq [OF heap_wfD(1,2) [OF wf]] split: option.split)
qed

section \<open>Threads at work\<close>

text \<open>Each thread is idle or has the writes of one block still to do.\<close>

record conc =
  heap :: rt
  todo :: "nat \<Rightarrow> (nat \<times> prim list) option"

definition at_work :: "conc \<Rightarrow> nat \<Rightarrow> bool" where
  "at_work c i \<longleftrightarrow> (\<exists>t ps. todo c t = Some (i, ps))"

text \<open>The address of a block that is being allocated is known to nobody yet.\<close>

definition unpublished :: "conc \<Rightarrow> u64 \<Rightarrow> bool" where
  "unpublished c p \<longleftrightarrow> (\<exists>t i ps. todo c t = Some (i, ps) \<and> \<not> freed (blocks (heap c) ! i) \<and> user_addr (blocks (heap c) ! i) = p)"

text \<open>One step of one thread: it records a block, marks one as freed, does one of its writes or is done; it
  writes a shadow byte of a stack slot or a global; or the program stores to its own memory.\<close>

inductive work_step :: "conc \<Rightarrow> conc \<Rightarrow> bool" where
  Write: "todo c t = Some (i, p # ps) \<Longrightarrow>
    work_step c (c\<lparr>heap := apply_prim p (heap c), todo := (todo c)(t := Some (i, ps))\<rparr>)"
| Finish: "todo c t = Some (i, []) \<Longrightarrow> work_step c (c\<lparr>todo := (todo c)(t := None)\<rparr>)"

inductive conc_step :: "conc \<Rightarrow> conc \<Rightarrow> bool" where
  Record: "todo c t = None \<Longrightarrow> sys_ok sys (heap c) \<Longrightarrow> 4 \<le> k \<Longrightarrow> k < 64 \<Longrightarrow>
    alloc_record sys sz (2 ^ k) loc line (heap c) = Done (Some i, s') \<Longrightarrow>
    conc_step c (c\<lparr>heap := s', todo := (todo c)(t := Some (i, alloc_writes i (blocks s' ! i)))\<rparr>)"
| Mark: "todo c t = None \<Longrightarrow> \<not> unpublished c p \<Longrightarrow> free_mark sys p (heap c) = Done (Some i, s') \<Longrightarrow>
    conc_step c (c\<lparr>heap := s', todo := (todo c)(t := Some (i, free_writes (blocks s' ! i)))\<rparr>)"
| Work: "work_step c c' \<Longrightarrow> conc_step c c'"
| Slot: "(\<And>b. b \<in> set (blocks (heap c)) \<Longrightarrow> \<not> in_chunks b (unat k)) \<Longrightarrow>
    conc_step c (c\<lparr>heap := apply_prim (Shadow_Byte k v) (heap c)\<rparr>)"
| Store: "(\<And>b x. b \<in> set (blocks (heap c)) \<Longrightarrow> in_block b (unat x) \<Longrightarrow> \<not> in_user b (unat x) \<Longrightarrow> m x = mem (heap c) x) \<Longrightarrow>
    conc_step c (c\<lparr>heap := (heap c)\<lparr>mem := m\<rparr>\<rparr>)"

inductive_cases work_stepE: "work_step c c'"
inductive_cases conc_stepE: "conc_step c c'"

inductive conc_reach :: "conc \<Rightarrow> bool" where
  Start: "conc_reach \<lparr>heap = started, todo = (\<lambda>_. None)\<rparr>"
| Step: "conc_reach c \<Longrightarrow> conc_step c c' \<Longrightarrow> conc_reach c'"

definition conc_wf :: "conc \<Rightarrow> bool" where
  "conc_wf c \<longleftrightarrow> (let s = heap c in
     reserved s \<and> \<not> lock_held s \<and> (\<forall>b \<in> set (blocks s). block_ok b) \<and> separate (blocks s)
     \<and> (\<forall>t i ps. todo c t = Some (i, ps) \<longrightarrow>
          i < length (blocks s) \<and> (\<forall>p \<in> set ps. touches p (blocks s ! i)) \<and> fine (apply_all ps s) i)
     \<and> (\<forall>t u i ps qs. todo c t = Some (i, ps) \<longrightarrow> todo c u = Some (i, qs) \<longrightarrow> t = u)
     \<and> (\<forall>i < length (blocks s). \<not> at_work c i \<longrightarrow> fine s i))"

lemma conc_wfD:
  assumes "conc_wf c"
  shows "reserved (heap c)" and "\<not> lock_held (heap c)" and "\<forall>b \<in> set (blocks (heap c)). block_ok b"
    and "separate (blocks (heap c))"
    and "todo c t = Some (i, ps) \<Longrightarrow> i < length (blocks (heap c))"
    and "todo c t = Some (i, ps) \<Longrightarrow> \<forall>p \<in> set ps. touches p (blocks (heap c) ! i)"
    and "todo c t = Some (i, ps) \<Longrightarrow> fine (apply_all ps (heap c)) i"
    and "todo c t = Some (i, ps) \<Longrightarrow> todo c u = Some (i, qs) \<Longrightarrow> t = u"
    and "i < length (blocks (heap c)) \<Longrightarrow> \<not> at_work c i \<Longrightarrow> fine (heap c) i"
  using assms unfolding conc_wf_def Let_def by blast+

text \<open>When all threads are idle this is the invariant of the sequential heap.\<close>

lemma quiet_heap_wf:
  assumes "conc_wf c" and "\<And>t. todo c t = None"
  shows "heap_wf (heap c)"
proof -
  have f: "fine (heap c) i" if "i < length (blocks (heap c))" for i
    using conc_wfD(9) [OF assms(1) that] assms(2) by (simp add: at_work_def)
  then have "shadow_ok (heap c)" "headers_ok (heap c)"
    by (auto simp: shadow_ok_def headers_ok_def fine_def Let_def in_set_conv_nth)
  then show ?thesis using conc_wfD(1-4) [OF assms(1)] by (simp add: heap_wf_def)
qed

section \<open>Every step keeps the invariant\<close>

lemma fine_all_agree:
  assumes "agree (blocks s ! j) s s'" and "block_ok (blocks s ! j)" and "blocks s' ! j = blocks s ! j"
    and "fine (apply_all ps s) j"
  shows "fine (apply_all ps s') j"
  by (rule fine_agree [of "apply_all ps s"]) (use assms agree_all in simp_all)

text \<open>A step that leaves the places of the other blocks alone leaves their state alone.\<close>

lemma conc_wf_frame:
  assumes wf: "conc_wf c" and blocks: "\<And>j. j < length (blocks (heap c)) \<Longrightarrow> j \<noteq> i \<Longrightarrow> blocks s' ! j = blocks (heap c) ! j"
    and len: "length (blocks (heap c)) \<le> length (blocks s')" "i < length (blocks s')" "length (blocks s') \<le> max (Suc i) (length (blocks (heap c)))"
      "i \<le> length (blocks (heap c))"
    and s': "reserved s'" "\<not> lock_held s'" "\<forall>b \<in> set (blocks s'). block_ok b" "separate (blocks s')"
    and ag: "\<And>j. j < length (blocks (heap c)) \<Longrightarrow> j \<noteq> i \<Longrightarrow> agree (blocks (heap c) ! j) (heap c) s'"
    and only: "\<And>u qs. todo c u = Some (i, qs) \<Longrightarrow> u = t"
    and other: "\<And>j qs. todo c t = Some (j, qs) \<Longrightarrow> j = i"
    and own: "case w of Some (j, ps) \<Rightarrow> j = i \<and> (\<forall>p \<in> set ps. touches p (blocks s' ! i)) \<and> fine (apply_all ps s') i
      | None \<Rightarrow> fine s' i"
  shows "conc_wf (c\<lparr>heap := s', todo := (todo c)(t := w)\<rparr>)"
proof -
  let ?c = "c\<lparr>heap := s', todo := (todo c)(t := w)\<rparr>"
  note d = conc_wfD [OF wf]
  have h: "heap ?c = s'" by simp
  have ok: "block_ok (blocks (heap c) ! j)" if "j < length (blocks (heap c))" for j using d(3) that by simp
  have busy: "j < length (blocks s') \<and> (\<forall>p \<in> set ps. touches p (blocks s' ! j)) \<and> fine (apply_all ps s') j"
    if "todo ?c u = Some (j, ps)" for u j ps
  proof (cases "u = t")
    case True
    then show ?thesis using that own len(2) by (auto split: option.splits)
  next
    case False
    then have u: "todo c u = Some (j, ps)" using that by simp
    then have "j \<noteq> i" using only False by blast
    moreover note j = d(5) [OF u]
    ultimately show ?thesis
      using d(6,7) [OF u] len(1) blocks [OF j] fine_all_agree [OF ag [OF j] ok [OF j] blocks [OF j]] by simp
  qed
  moreover have "u = v" if "todo ?c u = Some (j, ps)" "todo ?c v = Some (j, qs)" for u v j ps qs
    using that d(8) [of u j ps v qs] only own by (auto split: if_splits option.splits)
  moreover have "fine s' j" if j: "j < length (blocks s')" and idle: "\<not> at_work ?c j" for j
  proof (cases "j = i")
    case True
    have "w = None"
    proof (rule ccontr)
      assume "w \<noteq> None"
      then obtain ps where "w = Some (i, ps)" using own by (auto split: option.splits)
      then have "todo ?c t = Some (j, ps)" using True by simp
      with idle show False unfolding at_work_def by blast
    qed
    then show ?thesis using own True by simp
  next
    case False
    then have l: "j < length (blocks (heap c))" using j len(3,4) by (simp add: max_def split: if_splits)
    have "\<not> at_work c j"
    proof
      assume "at_work c j"
      then obtain u ps where u: "todo c u = Some (j, ps)" unfolding at_work_def by blast
      then have "u \<noteq> t" using other False by blast
      then have "todo ?c u = Some (j, ps)" using u by simp
      with idle show False unfolding at_work_def by blast
    qed
    then have "fine (heap c) j" by (rule d(9) [OF l])
    then show ?thesis by (rule fine_agree [OF ag [OF l False] ok [OF l] blocks [OF l False]])
  qed
  ultimately show ?thesis
    unfolding conc_wf_def Let_def h using s' by blast
qed

lemma lookup_bound:
  assumes "lookup_user s p = Some i" and "length (blocks s) < 18446744073709551616"
  shows "i < length (blocks s)" and "user_addr (blocks s ! i) = p"
  using assms unat_nat64 [OF assms(2)]
  by (auto simp: lookup_user_def word_less_nat_alt g_count_def split: if_splits)

lemma conc_length: "conc_wf c \<Longrightarrow> length (blocks (heap c)) < 18446744073709551616"
  using table_length [OF conc_wfD(3,4), of c] by simp

lemma write_wf:
  assumes wf: "conc_wf c" and t: "todo c t = Some (i, p # ps)"
  shows "conc_wf (c\<lparr>heap := apply_prim p (heap c), todo := (todo c)(t := Some (i, ps))\<rparr>)"
proof (rule conc_wf_frame [OF wf, of i])
  note d = conc_wfD [OF wf]
  note i = d(5) [OF t]
  show "agree (blocks (heap c) ! j) (heap c) (apply_prim p (heap c))" if j: "j < length (blocks (heap c))" "j \<noteq> i" for j
  proof -
    have "apart (real_base (blocks (heap c) ! i)) (total_size (blocks (heap c) ! i)) (blocks (heap c) ! j)"
      using d(4) i j by (simp add: separate_def)
    moreover have "touches p (blocks (heap c) ! i)" using d(6) [OF t] by simp
    ultimately have "agree (blocks (heap c) ! j) (apply_prim p (heap c)) (heap c)"
      using d(3) i j by (intro other_block) auto
    then show ?thesis by (auto simp: agree_def)
  qed
  show "case Some (i, ps) of None \<Rightarrow> fine (apply_prim p (heap c)) i
      | Some (j, ps) \<Rightarrow> j = i \<and> (\<forall>q \<in> set ps. touches q (blocks (apply_prim p (heap c)) ! i))
          \<and> fine (apply_all ps (apply_prim p (heap c))) i"
    using d(6,7) [OF t] by simp
  show "u = t" if "todo c u = Some (i, qs)" for u qs using d(8) [OF that t] .
  show "i \<le> length (blocks (heap c))" using i by simp
qed (use conc_wfD [OF wf] t in auto)

lemma finish_wf:
  assumes wf: "conc_wf c" and t: "todo c t = Some (i, [])"
  shows "conc_wf (c\<lparr>todo := (todo c)(t := None)\<rparr>)"
proof -
  note d = conc_wfD [OF wf]
  have "conc_wf (c\<lparr>heap := heap c, todo := (todo c)(t := None)\<rparr>)"
  proof (rule conc_wf_frame [OF wf, of i])
    show "u = t" if "todo c u = Some (i, qs)" for u qs using d(8) [OF that t] .
    show "i \<le> length (blocks (heap c))" using d(5) [OF t] by simp
  qed (use d t d(5,7) [OF t] in auto)
  then show ?thesis by simp
qed

lemma other_wf:
  assumes wf: "conc_wf c" and s': "blocks s' = blocks (heap c)" "\<not> lock_held s'" "reserved s'"
    and ag: "\<And>b. b \<in> set (blocks (heap c)) \<Longrightarrow> agree b (heap c) s'"
  shows "conc_wf (c\<lparr>heap := s'\<rparr>)"
proof -
  note d = conc_wfD [OF wf]
  have ag': "agree (blocks (heap c) ! j) (heap c) s'" if "j < length (blocks (heap c))" for j
    using that by (intro ag) simp
  have ok: "block_ok (blocks (heap c) ! j)" if "j < length (blocks (heap c))" for j using d(3) that by simp
  have "fine (apply_all ps s') i" if u: "todo c u = Some (i, ps)" for u i ps
    by (rule fine_all_agree [OF ag' [OF d(5) [OF u]] ok [OF d(5) [OF u]] _ d(7) [OF u]]) (simp add: s')
  moreover have "fine s' i" if i: "i < length (blocks (heap c))" "\<not> at_work c i" for i
    by (rule fine_agree [OF ag' [OF i(1)] ok [OF i(1)] _ d(9) [OF i]]) (simp add: s')
  moreover have "at_work (c\<lparr>heap := s'\<rparr>) = at_work c" by (simp add: at_work_def fun_eq_iff)
  moreover have h: "heap (c\<lparr>heap := s'\<rparr>) = s'" "todo (c\<lparr>heap := s'\<rparr>) = todo c" by simp_all
  ultimately show ?thesis
    unfolding conc_wf_def Let_def h using d(3-6) d(8) s' by simp
qed

lemma store_wf:
  assumes wf: "conc_wf c"
    and m: "\<And>b x. b \<in> set (blocks (heap c)) \<Longrightarrow> in_block b (unat x) \<Longrightarrow> \<not> in_user b (unat x) \<Longrightarrow> m x = mem (heap c) x"
  shows "conc_wf (c\<lparr>heap := (heap c)\<lparr>mem := m\<rparr>\<rparr>)"
  using conc_wfD(1,2) [OF wf] m by (intro other_wf [OF wf]) (auto simp: agree_def shadow_at_def)

lemma slot_wf:
  assumes wf: "conc_wf c" and k: "\<And>b. b \<in> set (blocks (heap c)) \<Longrightarrow> \<not> in_chunks b (unat k)"
  shows "conc_wf (c\<lparr>heap := apply_prim (Shadow_Byte k v) (heap c)\<rparr>)"
  using conc_wfD(1,2) [OF wf] k by (intro other_wf [OF wf]) (auto simp: agree_def shadow_at_prim mem_prim)

lemma record_wf:
  assumes wf: "conc_wf c" and t: "todo c t = None" and so: "sys_ok sys (heap c)" and k: "4 \<le> k" "k < 64"
    and r: "alloc_record sys sz (2 ^ k) loc line (heap c) = Done (Some i, s')"
  shows "conc_wf (c\<lparr>heap := s', todo := (todo c)(t := Some (i, alloc_writes i (blocks s' ! i)))\<rparr>)"
proof -
  note d = conc_wfD [OF wf]
  let ?base = "sys_malloc sys (alloc_total sz (2 ^ k))" and ?n = "length (blocks (heap c))"
  let ?b = "new_block ?base sz (2 ^ k) loc line"
  have g: "\<not> sz > SIZE_MAX - 2 * REDZONE_SIZE - alloc_slack (2 ^ k)" and nz: "?base \<noteq> 0"
    and i: "i = ?n" and s': "s' = (heap c)\<lparr>blocks := blocks (heap c) @ [?b], cap := new_cap (heap c)\<rparr>"
    using r by (auto simp: alloc_record_eq [OF d(2) conc_length [OF wf]] split: if_splits)
  have al: "unat ?base mod 16 = 0" and lim: "unat ?base + unat (alloc_total sz (2 ^ k)) \<le> 140737488355328"
    and ap: "\<forall>b \<in> set (blocks (heap c)). apart ?base (alloc_total sz (2 ^ k)) b"
    using so nz by (auto simp: sys_ok_def)
  have ok: "block_ok ?b" using k g al lim by (rule new_block_ok)
  have bi: "blocks s' ! i = ?b" by (simp add: s' i)
  have "apart (real_base b) (total_size b) ?b" if "b \<in> set (blocks (heap c))" for b
    using ap that by (auto simp: apart_def new_block_def)
  then have sep: "separate (blocks s')"
    using d(4) ap unfolding separate_def s' by (auto simp: nth_append less_Suc_eq new_block_def)
  have res: "apply_all (alloc_writes i ?b) s' = alloc_result ?base sz (2 ^ k) loc line (heap c)"
    unfolding i s' by (rule alloc_apply)
  have "fine (apply_all (alloc_writes i ?b) s') i"
    unfolding res using alloc_result_block(1,3,4) [OF d(1) k g al lim, of loc line]
    by (simp add: fine_def Let_def alloc_result_def i g_count_def)
  moreover have "\<forall>p \<in> set (alloc_writes i ?b). touches p ?b"
    using alloc_touches [OF ok, of _ i] by (simp add: new_block_def)
  ultimately have own: "case Some (i, alloc_writes i (blocks s' ! i)) of None \<Rightarrow> fine s' i
      | Some (j, ps) \<Rightarrow> j = i \<and> (\<forall>p \<in> set ps. touches p (blocks s' ! i)) \<and> fine (apply_all ps s') i"
    by (simp add: bi)
  have "agree (blocks (heap c) ! j) (heap c) s'" for j by (simp add: agree_def s' shadow_at_def)
  moreover have "todo c u \<noteq> Some (i, qs)" for u qs using d(5) [of u i qs] i by auto
  ultimately show ?thesis
    using own sep d(1-3) ok t by (intro conc_wf_frame [OF wf, of i]) (auto simp: s' i nth_append)
qed

lemma mark_wf:
  assumes wf: "conc_wf c" and t: "todo c t = None" and pub: "\<not> unpublished c p"
    and r: "free_mark sys p (heap c) = Done (Some i, s')"
  shows "conc_wf (c\<lparr>heap := s', todo := (todo c)(t := Some (i, free_writes (blocks s' ! i)))\<rparr>)"
proof -
  note d = conc_wfD [OF wf]
  let ?s = "heap c" and ?b = "blocks (heap c) ! i"
  have lk: "lookup_user ?s p = Some i" and nf: "\<not> freed ?b" and s': "s' = set_freed i ?s"
    using r by (auto simp: free_mark_eq [OF d(1,2)] split: if_splits option.splits)
  have i: "i < length (blocks ?s)" "user_addr ?b = p" using lookup_bound [OF lk conc_length [OF wf]] .
  have idle: "todo c u \<noteq> Some (i, qs)" for u qs using pub nf i(2) unfolding unpublished_def by blast
  then have "\<not> at_work c i" by (simp add: at_work_def)
  then have f: "fine ?s i" by (rule d(9) [OF i(1)])
  have ok: "block_ok ?b" using d(3) i(1) by simp
  have bi: "blocks s' ! i = ?b\<lparr>freed := True\<rparr>" using i(1) by (simp add: s')
  have fw: "free_writes (?b\<lparr>freed := True\<rparr>) = free_writes ?b" by (simp add: free_writes_def)
  have "fine (freed_result i ?s) i"
    using f i(1) by (simp add: fine_def Let_def shadow_val_freed [OF d(1) ok] expected_freed)
  then have "fine (apply_all (free_writes (blocks s' ! i)) s') i"
    unfolding bi fw unfolding s' free_apply .
  moreover have "\<forall>q \<in> set (free_writes (blocks s' ! i)). touches q (blocks s' ! i)"
    unfolding bi fw using free_touches [OF ok] by blast
  ultimately have own: "case Some (i, free_writes (blocks s' ! i)) of None \<Rightarrow> fine s' i
      | Some (j, ps) \<Rightarrow> j = i \<and> (\<forall>p \<in> set ps. touches p (blocks s' ! i)) \<and> fine (apply_all ps s') i"
    by simp
  have "agree (blocks ?s ! j) ?s s'" for j by (simp add: agree_def s' shadow_at_def)
  moreover have "\<forall>b \<in> set (blocks s'). block_ok b"
    using d(3) ok by (auto simp: s' dest!: set_update_subset_insert [THEN subsetD])
  moreover have "separate (blocks s')" using separate_freed [OF d(4)] by (simp add: s')
  ultimately show ?thesis
    using own idle t d(1,2) i(1) by (intro conc_wf_frame [OF wf, of i]) (auto simp: s')
qed

lemma work_step_wf: "work_step c c' \<Longrightarrow> conc_wf c \<Longrightarrow> conc_wf c'"
  by (auto elim!: work_stepE intro: write_wf finish_wf)

lemma conc_step_wf: "conc_step c c' \<Longrightarrow> conc_wf c \<Longrightarrow> conc_wf c'"
proof (induction rule: conc_step.induct)
  case (Record c t sys k sz loc line i s')
  show ?case by (rule record_wf [OF Record.prems Record.hyps])
next
  case (Mark c t p sys i s')
  show ?case by (rule mark_wf [OF Mark.prems Mark.hyps])
next
  case (Work c c')
  show ?case by (rule work_step_wf [OF Work.hyps Work.prems])
next
  case (Slot c k v)
  show ?case by (rule slot_wf [OF Slot.prems Slot.hyps])
next
  case (Store c m)
  show ?case by (rule store_wf [OF Store.prems Store.hyps])
qed

lemma conc_reach_wf: "conc_reach c \<Longrightarrow> conc_wf c"
proof (induction rule: conc_reach.induct)
  case Start
  show ?case
    using heap_wfD(1,2) [OF started_wf]
    by (simp add: conc_wf_def Let_def separate_def)
next
  case (Step c c')
  show ?case by (rule conc_step_wf [OF Step.hyps(2) Step.IH])
qed

section \<open>What a thread sees of a block nobody is working on\<close>

lemma fine_poisoned:
  "fine s i \<Longrightarrow> block_ok (blocks s ! i) \<Longrightarrow> in_block (blocks s ! i) (unat x) \<Longrightarrow>
    poisoned s x \<longleftrightarrow> freed (blocks s ! i) \<or> \<not> in_user (blocks s ! i) (unat x)"
  by (simp add: poisoned_def fine_def Let_def in_block_chunk byte_bad_expected)

lemma fine_named: "fine s i \<Longrightarrow> block_ok (blocks s ! i) \<Longrightarrow> named s i"
  by (simp add: fine_def named_def Let_def left_chunk)

text \<open>The writes of a release leave the left red zone and the header alone, so the block keeps answering to
  its address while it is quarantined.\<close>

lemma release_named:
  assumes b: "block_ok (blocks s ! i)" and f: "freed (blocks s ! i)"
    and n: "named (apply_prim p s) i" and t: "touches p (blocks s ! i)"
  shows "named s i"
proof -
  let ?b = "blocks s ! i"
  note d = block_okD [OF b]
  obtain k v where p: "p = Shadow_Byte k v" and k: "unat (user_addr ?b) div 8 \<le> unat k"
    using t f by (cases p) auto
  have "unat (user_addr ?b - 8) div 8 < unat (user_addr ?b) div 8"
    using d(3) unfolding d(8) by (simp add: le_div_geq)
  then have "shadow_val (apply_prim p s) (user_addr ?b - 8) = shadow_val s (user_addr ?b - 8)"
    using k by (auto simp: shadow_val_def p shadow_at_prim unat_drop3 [symmetric])
  moreover have "mem (apply_prim p s) = mem s" by (simp add: p mem_prim fun_eq_iff)
  ultimately show ?thesis using n by (simp add: named_def)
qed

lemma release_all_named:
  assumes "block_ok (blocks s ! i)" and "freed (blocks s ! i)" and "\<forall>p \<in> set ps. touches p (blocks s ! i)"
    and "named (apply_all ps s) i"
  shows "named s i"
  using assms
proof (induction ps arbitrary: s)
  case (Cons p ps)
  have "named (apply_prim p s) i"
    by (rule Cons.IH) (use Cons.prems in simp_all)
  then show ?case by (rule release_named [OF Cons.prems(1,2)]) (use Cons.prems(3) in simp)
qed simp

lemma published_named:
  assumes wf: "conc_wf c" and i: "i < length (blocks (heap c))"
    and pub: "\<not> unpublished c (user_addr (blocks (heap c) ! i))"
  shows "named (heap c) i"
proof -
  note d = conc_wfD [OF wf]
  have b: "block_ok (blocks (heap c) ! i)" using d(3) i by simp
  show ?thesis
  proof (cases "at_work c i")
    case False
    then show ?thesis by (rule fine_named [OF d(9) [OF i] b])
  next
    case True
    then obtain t ps where t: "todo c t = Some (i, ps)" unfolding at_work_def by blast
    then have "freed (blocks (heap c) ! i)" using pub unfolding unpublished_def by blast
    moreover have "named (apply_all ps (heap c)) i" using fine_named [OF d(7) [OF t]] b by simp
    ultimately show ?thesis using release_all_named [OF b _ d(6) [OF t]] by blast
  qed
qed

text \<open>A block stays as it is while nobody works on it, unless somebody frees it.\<close>

abbreviation conc_steps :: "conc \<Rightarrow> conc \<Rightarrow> bool" where
  "conc_steps \<equiv> conc_step\<^sup>*\<^sup>*"

lemma alloc_record_Done:
  assumes "conc_wf c" and "alloc_record sys sz al loc line (heap c) = Done (Some i, s')"
  shows "i = length (blocks (heap c))" and "\<exists>b. blocks s' = blocks (heap c) @ [b]"
  using assms(2) by (auto simp: alloc_record_eq [OF conc_wfD(2) [OF assms(1)] conc_length [OF assms(1)]] split: if_splits)

lemma free_mark_Done:
  assumes "conc_wf c" and "free_mark sys p (heap c) = Done (Some i, s')"
  shows "\<not> freed (blocks (heap c) ! i)" and "s' = set_freed i (heap c)"
  using assms(2) by (auto simp: free_mark_eq [OF conc_wfD(1,2) [OF assms(1)]] split: if_splits option.splits)

definition steady :: "conc \<Rightarrow> conc \<Rightarrow> nat \<Rightarrow> bool" where
  "steady c c' i \<longleftrightarrow> i < length (blocks (heap c')) \<and> blocks (heap c') ! i = blocks (heap c) ! i \<and> \<not> at_work c' i"

lemma work_step_heap: "work_step c c' \<Longrightarrow> blocks (heap c') = blocks (heap c) \<and> (at_work c' i \<longrightarrow> at_work c i)"
  by (erule work_stepE) (auto simp: at_work_def split: if_splits)

lemma step_steady:
  assumes s: "conc_step c c'" and wf: "conc_wf c" and i: "i < length (blocks (heap c))" and idle: "\<not> at_work c i"
  shows "steady c c' i \<or> \<not> freed (blocks (heap c) ! i) \<and> freed (blocks (heap c') ! i)"
  using s
proof (cases rule: conc_step.cases)
  case (Record t sys k sz loc line j s')
  then show ?thesis
    using alloc_record_Done [OF wf Record(6)] i idle
    by (auto simp: steady_def at_work_def nth_append split: if_splits)
next
  case (Mark t p sys j s')
  then show ?thesis
    using free_mark_Done [OF wf Mark(4)] i idle by (cases "j = i") (auto simp: steady_def at_work_def)
next
  case Work
  then show ?thesis using work_step_heap [OF Work, of i] i idle by (simp add: steady_def)
qed (use i idle in \<open>auto simp: steady_def at_work_def\<close>)

lemma step_freed:
  assumes s: "conc_step c c'" and wf: "conc_wf c" and i: "i < length (blocks (heap c))" and f: "freed (blocks (heap c) ! i)"
  shows "i < length (blocks (heap c')) \<and> freed (blocks (heap c') ! i)"
  using s
proof (cases rule: conc_step.cases)
  case (Record t sys k sz loc line j s')
  then show ?thesis using alloc_record_Done [OF wf Record(6)] i f by (auto simp: nth_append)
next
  case (Mark t p sys j s')
  then show ?thesis using free_mark_Done [OF wf Mark(4)] i f by (cases "j = i") auto
next
  case Work
  then show ?thesis using work_step_heap [OF Work] i f by simp
qed (use i f in auto)

lemma steps_wf: "conc_steps c c' \<Longrightarrow> conc_wf c \<Longrightarrow> conc_wf c'"
  by (induction rule: rtranclp_induct) (auto intro: conc_step_wf)

lemma steps_length:
  "conc_steps c c' \<Longrightarrow> conc_wf c \<Longrightarrow> length (blocks (heap c)) \<le> length (blocks (heap c'))"
proof (induction rule: rtranclp_induct)
  case (step c1 c2)
  have w: "conc_wf c1" using steps_wf [OF step.hyps(1) step.prems] .
  have "length (blocks (heap c1)) \<le> length (blocks (heap c2))"
    using step.hyps(2)
  proof (cases rule: conc_step.cases)
    case (Record t sys k sz loc line j s')
    then show ?thesis using alloc_record_Done(2) [OF w Record(6)] by auto
  next
    case (Mark t p sys j s')
    then show ?thesis using free_mark_Done(2) [OF w Mark(4)] by simp
  next
    case Work
    then show ?thesis using work_step_heap [OF Work] by simp
  qed auto
  then show ?case using step.IH step.prems by simp
qed simp

lemma steps_freed:
  "conc_steps c c' \<Longrightarrow> conc_wf c \<Longrightarrow> i < length (blocks (heap c)) \<Longrightarrow> freed (blocks (heap c) ! i) \<Longrightarrow>
    i < length (blocks (heap c')) \<and> freed (blocks (heap c') ! i)"
  by (induction rule: rtranclp_induct) (auto dest: steps_wf step_freed)

lemma steps_steady:
  assumes "conc_steps c c'" and wf: "conc_wf c" and i: "i < length (blocks (heap c))" and idle: "\<not> at_work c i"
  shows "steady c c' i \<or> \<not> freed (blocks (heap c) ! i) \<and> freed (blocks (heap c') ! i)"
  using assms(1)
proof (induction rule: rtranclp_induct)
  case base
  then show ?case using i idle by (simp add: steady_def)
next
  case (step c1 c2)
  have wf1: "conc_wf c1" using steps_wf [OF step.hyps(1) wf] .
  show ?case
  proof (cases "steady c c1 i")
    case True
    then show ?thesis using step_steady [OF step.hyps(2) wf1, of i] by (auto simp: steady_def)
  next
    case False
    then have f: "\<not> freed (blocks (heap c) ! i)" "freed (blocks (heap c1) ! i)" using step.IH by blast+
    have "i < length (blocks (heap c1))"
    proof (rule ccontr)
      assume "\<not> i < length (blocks (heap c1))"
      then show False using steps_length [OF step.hyps(1) wf] i by simp
    qed
    then show ?thesis using step_freed [OF step.hyps(2) wf1 _ f(2)] f(1) by blast
  qed
qed

section \<open>A check while other threads move\<close>

text \<open>\<^verbatim>\<open>__redzone_check\<close> reads the first byte's shadow in one state, the last byte's in a later one and takes the
  lock in a third.\<close>

definition check_over :: "sys \<Rightarrow> u64 \<Rightarrow> u64 \<Rightarrow> bool \<Rightarrow> cstr \<Rightarrow> int \<Rightarrow> rt \<Rightarrow> rt \<Rightarrow> rt \<Rightarrow> rt outcome" where
  "check_over sys a sz is_write file line s1 s2 s3 =
     (if sz = 0 then Done s3 else
      bindO (byte_poisoned sys a s1) (\<lambda>(first_bad, _).
      bindO (if first_bad then Done (True, s2) else byte_poisoned sys (a + sz - 1) s2) (\<lambda>(bad, _).
      if \<not> bad then Done s3 else report_access sys a sz is_write file line s3)))"

lemma check_over_same: "reserved s \<Longrightarrow> check_over sys a sz w loc line s s s = redzone_check sys a sz w loc line s"
  by (simp add: check_over_def redzone_check_def)

lemma check_over_eq:
  "reserved s1 \<Longrightarrow> reserved s2 \<Longrightarrow> reserved s3 \<Longrightarrow> \<not> lock_held s3 \<Longrightarrow>
    check_over sys a sz w loc line s1 s2 s3 =
      (if sz = 0 \<or> \<not> poisoned s1 a \<and> \<not> poisoned s2 (a + sz - 1) then Done s3
       else Halt (Report (check_report s3 a sz w loc line)))"
  by (simp add: check_over_def report_access_eq)

lemma steady_check:
  assumes wf: "conc_wf c1" "conc_wf c2" "conc_wf c3" and i: "i < length (blocks (heap c1))" "\<not> at_work c1 i"
    and st: "steady c1 c2 i" "blocks (heap c3) ! i = blocks (heap c1) ! i" "i < length (blocks (heap c3))"
    and sz: "0 < unat sz"
    and a: "in_block (blocks (heap c1) ! i) (unat a)" "in_block (blocks (heap c1) ! i) (unat a + unat sz - 1)"
  shows "check_over sys a sz w loc line (heap c1) (heap c2) (heap c3) =
    (if \<not> freed (blocks (heap c1) ! i) \<and> in_user (blocks (heap c1) ! i) (unat a)
        \<and> in_user (blocks (heap c1) ! i) (unat a + unat sz - 1) then Done (heap c3)
     else Halt (Report (ReportBlock
       (if freed (blocks (heap c1) ! i) then ''use-after-free'' else ''heap-buffer-overflow'')
       a sz w loc line (blocks (heap c1) ! i))))"
proof -
  let ?b = "blocks (heap c1) ! i"
  have b: "block_ok ?b" using conc_wfD(3) [OF wf(1)] i by simp
  have "unat a + unat sz \<le> 18446744073709551616"
    using a(2) block_okD(6) [OF b] sz unfolding in_block_def by linarith
  then have lst: "unat (a + sz - 1) = unat a + unat sz - 1" by (rule last_byte [OF sz])
  have "poisoned (heap c1) a \<longleftrightarrow> freed ?b \<or> \<not> in_user ?b (unat a)"
    by (rule fine_poisoned [OF conc_wfD(9) [OF wf(1) i] b a(1)])
  moreover have "fine (heap c2) i" using conc_wfD(9) [OF wf(2)] st(1) by (simp add: steady_def)
  then have "poisoned (heap c2) (a + sz - 1) \<longleftrightarrow> freed ?b \<or> \<not> in_user ?b (unat a + unat sz - 1)"
    using fine_poisoned [of "heap c2" i "a + sz - 1"] st(1) b a(2) lst by (simp add: steady_def)
  moreover have "find_block a (heap c3) = Some i"
    using find_block_apart [OF conc_wfD(3,4) [OF wf(3)]] st(2,3) a(1) by simp
  moreover have "sz \<noteq> 0" using sz by auto
  ultimately show ?thesis
    using check_over_eq [OF conc_wfD(1) [OF wf(1)] conc_wfD(1) [OF wf(2)] conc_wfD(1,2) [OF wf(3)]] st(2)
    by (simp add: check_report_def)
qed

section \<open>One thread after the other\<close>

text \<open>A thread that runs its writes without a break; so every sequential run is one of the interleavings.\<close>

lemma drain:
  "todo c t = Some (i, ps) \<Longrightarrow>
    (work_step ^^ Suc (length ps)) c (c\<lparr>heap := apply_all ps (heap c), todo := (todo c)(t := None)\<rparr>)"
proof (induction ps arbitrary: c)
  case Nil
  then show ?case using Finish [OF Nil] by (simp add: eq_OO fun_upd_def)
next
  case (Cons p ps)
  let ?c = "c\<lparr>heap := apply_prim p (heap c), todo := (todo c)(t := Some (i, ps))\<rparr>"
  have r: "(work_step ^^ Suc (length ps)) ?c (?c\<lparr>heap := apply_all ps (heap ?c), todo := (todo ?c)(t := None)\<rparr>)"
    by (rule Cons.IH) simp
  have e: "?c\<lparr>heap := apply_all ps (heap ?c), todo := (todo ?c)(t := None)\<rparr>
      = c\<lparr>heap := apply_all (p # ps) (heap c), todo := (todo c)(t := None)\<rparr>" by simp
  show ?case using relpowp_Suc_I2 [OF Write [OF Cons.prems] r] unfolding e length_Cons .
qed

lemma work_steps_reach: "(work_step ^^ n) c c' \<Longrightarrow> conc_reach c \<Longrightarrow> conc_reach c'"
  by (induction n arbitrary: c') (auto intro: Step Work)

lemma allocation_reach:
  assumes c: "conc_reach c" and t: "todo c t = None" and so: "sys_ok sys (heap c)" and k: "4 \<le> k" "k < 64"
    and r: "alloc_record sys sz (2 ^ k) loc line (heap c) = Done (Some i, s')"
  shows "conc_reach (c\<lparr>heap := apply_all (alloc_writes i (blocks s' ! i)) s'\<rparr>)"
proof -
  let ?c = "c\<lparr>heap := s', todo := (todo c)(t := Some (i, alloc_writes i (blocks s' ! i)))\<rparr>"
  have e: "(todo c)(t := None) = todo c" using t by auto
  have "conc_reach ?c" by (rule conc_reach.Step [OF c conc_step.Record [OF t so k r]])
  from work_steps_reach [OF drain [of ?c t] this] e show ?thesis by simp
qed

section \<open>Sample states\<close>

text \<open>A second thread that has recorded its block and written nothing, and one that has marked the block of the
  sample heap as freed and not yet poisoned it.\<close>

definition demo_idle :: conc where
  "demo_idle = \<lparr>heap = demo_heap, todo = (\<lambda>_. None)\<rparr>"

definition demo_busy :: conc where
  "demo_busy = \<lparr>heap = demo_heap\<lparr>blocks := blocks demo_heap @ [new_block 8192 10 16 None 0], cap := new_cap demo_heap\<rparr>,
     todo = (\<lambda>_. None)(1 := Some (1, alloc_writes 1 (new_block 8192 10 16 None 0)))\<rparr>"

definition demo_release :: conc where
  "demo_release = \<lparr>heap = set_freed 0 demo_heap,
     todo = (\<lambda>_. None)(1 := Some (0, free_writes (blocks (set_freed 0 demo_heap) ! 0)))\<rparr>"

lemma demo_record:
  assumes "heap_wf s" and "a \<noteq> 0"
  shows "alloc_record (demo_sys a) 10 16 None 0 s = Done (Some (length (blocks s)),
    s\<lparr>blocks := blocks s @ [new_block a 10 16 None 0], cap := new_cap s\<rparr>)"
proof -
  have "length (blocks s) < 18446744073709551616" using heap_length [OF assms(1)] by simp
  from alloc_record_eq [OF heap_wfD(2) [OF assms(1)] this] show ?thesis
    using assms(2) by (simp add: demo_sys_def demo_total alloc_slack_def REDZONE_SIZE_def SIZE_MAX_def)
qed

lemma demo_idle_reach: "conc_reach demo_idle"
proof -
  have "sys_ok (demo_sys 4096) started" by (rule demo_sys_ok) simp_all
  then have "conc_reach (\<lparr>heap = started, todo = (\<lambda>_. None)\<rparr>\<lparr>heap := apply_all (alloc_writes 0 (new_block 4096 10 16 None 0))
      (started\<lparr>blocks := blocks started @ [new_block 4096 10 16 None 0], cap := new_cap started\<rparr>)\<rparr>)"
    using allocation_reach [OF conc_reach.Start, of 0 "demo_sys 4096" 4 10 None 0] demo_record [OF started_wf, of 4096]
    by simp
  then show ?thesis
    using alloc_apply [of started 4096 10 16 None 0] by (simp add: demo_idle_def demo_heap_def)
qed

lemma demo_busy_reach: "conc_reach demo_busy"
proof -
  have wf: "heap_wf demo_heap" using demo_reach by (rule heap_reach_wf)
  have "sys_ok (demo_sys 8192) demo_heap" by (rule demo_sys_ok) (simp_all add: demo_block)
  then have "conc_step demo_idle demo_busy"
    using conc_step.Record [of demo_idle 1 "demo_sys 8192" 4 10 None 0 1] demo_record [OF wf, of 8192]
    by (simp add: demo_idle_def demo_busy_def nth_append)
  then show ?thesis by (rule conc_reach.Step [OF demo_idle_reach])
qed

lemma demo_release_reach: "conc_reach demo_release"
proof -
  have wf: "heap_wf demo_heap" using demo_reach by (rule heap_reach_wf)
  have "lookup_user demo_heap 4112 = Some 0" using br.back_complete [OF wf, of 0] by simp
  then have "free_mark (demo_sys 0) 4112 demo_heap = Done (Some 0, set_freed 0 demo_heap)"
    by (simp add: free_mark_eq [OF heap_wfD(1,2) [OF wf]])
  then have "conc_step demo_idle demo_release"
    using conc_step.Mark [of demo_idle 1 4112 "demo_sys 0" 0] by (simp add: demo_idle_def demo_release_def unpublished_def)
  then show ?thesis by (rule conc_reach.Step [OF demo_idle_reach])
qed

section \<open>What threads can rely on\<close>

text \<open>C7. Threads do not disturb each other's checks: while nobody frees the block, a check of an access that
  starts and ends inside it is exact, whatever other threads allocate, free, quarantine or store between its two
  shadow reads and its lookup. A block that was freed before is always reported.\<close>

theorem concurrent_check_exact:
  assumes "conc_reach c1" and "conc_steps c1 c2" and "conc_steps c2 c3"
    and "i < length (blocks (heap c1))" and "\<not> at_work c1 i"
    and "freed (blocks (heap c3) ! i) = freed (blocks (heap c1) ! i)" and "0 < unat sz"
    and "in_block (blocks (heap c1) ! i) (unat a)" and "in_block (blocks (heap c1) ! i) (unat a + unat sz - 1)"
  shows "check_over sys a sz w loc line (heap c1) (heap c2) (heap c3) =
    (if \<not> freed (blocks (heap c1) ! i) \<and> in_user (blocks (heap c1) ! i) (unat a)
        \<and> in_user (blocks (heap c1) ! i) (unat a + unat sz - 1) then Done (heap c3)
     else Halt (Report (ReportBlock
       (if freed (blocks (heap c1) ! i) then ''use-after-free'' else ''heap-buffer-overflow'')
       a sz w loc line (blocks (heap c1) ! i))))"
proof -
  have wf1: "conc_wf c1" using assms(1) by (rule conc_reach_wf)
  have wf2: "conc_wf c2" using assms(2) wf1 by (rule steps_wf)
  have wf3: "conc_wf c3" using assms(3) wf2 by (rule steps_wf)
  have s13: "conc_steps c1 c3" using assms(2,3) by simp
  have i2: "i < length (blocks (heap c2))" using steps_length [OF assms(2) wf1] assms(4) by simp
  have "steady c1 c3 i" using steps_steady [OF s13 wf1 assms(4,5)] assms(6) by blast
  moreover have "steady c1 c2 i"
    using steps_steady [OF assms(2) wf1 assms(4,5)] steps_freed [OF assms(3) wf2 i2] assms(6) by blast
  ultimately show ?thesis
    using steady_check [OF wf1 wf2 wf3 assms(4,5) _ _ _ assms(7-9)] by (simp add: steady_def)
qed

theorem concurrent_check_exact_witness:
  "check_over (demo_sys 0) 4120 4 True None 0 (heap demo_busy) (heap demo_busy) (heap demo_busy) =
     Halt (Report (ReportBlock ''heap-buffer-overflow'' 4120 4 True None 0 (blocks demo_heap ! 0)))"
proof -
  have b: "blocks (heap demo_busy) ! 0 = blocks demo_heap ! 0" "0 < length (blocks (heap demo_busy))"
    "\<not> at_work demo_busy 0"
    by (simp_all add: demo_busy_def nth_append at_work_def)
  show ?thesis
    using concurrent_check_exact [OF demo_busy_reach rtranclp.rtrancl_refl rtranclp.rtrancl_refl b(2,3) refl,
      of 4 4120 "demo_sys 0" True None 0]
    unfolding b(1) by (simp add: in_block_def in_user_def)
qed

text \<open>C8. A published block is freed exactly once, also by threads that free it at the same time: whoever takes the
  lock second gets the double-free report, even while the first is still quarantining the block.\<close>

theorem concurrent_free_once:
  assumes "conc_reach c" and "i < length (blocks (heap c))" and "\<not> unpublished c (user_addr (blocks (heap c) ! i))"
  shows "free_mark sys (user_addr (blocks (heap c) ! i)) (heap c) =
    (if freed (blocks (heap c) ! i) then Halt (Report (ReportFree ''double-free'' (user_addr (blocks (heap c) ! i))))
     else Done (Some i, set_freed i (heap c)))"
proof -
  have wf: "conc_wf c" using assms(1) by (rule conc_reach_wf)
  have b: "block_ok (blocks (heap c) ! i)" using conc_wfD(3) [OF wf] assms(2) by simp
  have "user_addr (blocks (heap c) ! i) \<noteq> 0" using block_okD(3) [OF b] by auto
  moreover have "lookup_user (heap c) (user_addr (blocks (heap c) ! i)) = Some i"
    by (rule lookup_named [OF b assms(2) conc_length [OF wf] published_named [OF wf assms(2,3)]])
  ultimately show ?thesis by (simp add: free_mark_eq [OF conc_wfD(1,2) [OF wf]])
qed

theorem concurrent_free_once_witness:
  "free_mark (demo_sys 0) 4112 (heap demo_release) = Halt (Report (ReportFree ''double-free'' 4112))"
proof -
  have b: "user_addr (blocks (heap demo_release) ! 0) = 4112" "freed (blocks (heap demo_release) ! 0)"
    "0 < length (blocks (heap demo_release))"
    by (simp_all add: demo_release_def)
  have "\<not> unpublished demo_release (user_addr (blocks (heap demo_release) ! 0))"
    by (auto simp: demo_release_def unpublished_def split: if_splits)
  from concurrent_free_once [OF demo_release_reach b(3) this, of "demo_sys 0"] show ?thesis
    by (simp only: b if_True)
qed

text \<open>The writes that are still to do.\<close>

definition weight :: "conc \<Rightarrow> nat \<Rightarrow> nat" where
  "weight c t = (case todo c t of None \<Rightarrow> 0 | Some (i, ps) \<Rightarrow> Suc (length ps))"

definition busy :: "conc \<Rightarrow> nat set" where
  "busy c = {t. todo c t \<noteq> None}"

definition pending :: "conc \<Rightarrow> nat" where
  "pending c = sum (weight c) (busy c)"

lemma step_busy: "conc_step c c' \<Longrightarrow> finite (busy c) \<Longrightarrow> finite (busy c')"
proof -
  have "finite {u. ((todo c)(t := w)) u \<noteq> None}" if "finite (busy c)" for t w
    by (rule finite_subset [of _ "insert t (busy c)"]) (use that in \<open>auto simp: busy_def\<close>)
  then show "conc_step c c' \<Longrightarrow> finite (busy c) \<Longrightarrow> finite (busy c')"
    by (auto simp: busy_def elim!: conc_stepE work_stepE)
qed

lemma reach_busy: "conc_reach c \<Longrightarrow> finite (busy c)"
  by (induction rule: conc_reach.induct) (simp add: busy_def, blast intro: step_busy)

lemma pending_change:
  assumes f: "finite (busy c)" and t: "t \<in> busy c" and c': "todo c' = (todo c)(t := w)"
  shows "pending c + weight c' t = pending c' + weight c t"
proof -
  have "pending c' = sum (weight c') (insert t (busy c))"
    unfolding pending_def
    by (rule sum.mono_neutral_left) (use f in \<open>auto simp: busy_def c' weight_def split: option.splits\<close>)
  also have "\<dots> = weight c' t + sum (weight c') (busy c - {t})"
    using f by (simp add: sum.insert_remove)
  also have "sum (weight c') (busy c - {t}) = sum (weight c) (busy c - {t})"
    by (rule sum.cong) (auto simp: weight_def c')
  finally show ?thesis using sum.remove [OF f t, of "weight c"] by (simp add: pending_def)
qed

lemma work_step_pending:
  assumes "work_step c c'" and f: "finite (busy c)"
  shows "pending c = Suc (pending c')"
  using assms(1)
proof (cases rule: work_step.cases)
  case (Write t i p ps)
  then show ?thesis
    using pending_change [OF f, of t c' "Some (i, ps)"] by (simp add: busy_def weight_def)
next
  case (Finish t i)
  then show ?thesis
    using pending_change [OF f, of t c' None] by (simp add: busy_def weight_def)
qed

lemma work_steps_pending:
  "(work_step ^^ n) c c' \<Longrightarrow> conc_reach c \<Longrightarrow> pending c = n + pending c'"
proof (induction n arbitrary: c')
  case (Suc n)
  then obtain d where d: "(work_step ^^ n) c d" "work_step d c'" by auto
  then show ?case
    using Suc.IH [OF d(1) Suc.prems(2)] work_step_pending [OF d(2)] reach_busy work_steps_reach [OF d(1) Suc.prems(2)] by simp
qed simp

lemma work_progress: "pending c \<noteq> 0 \<Longrightarrow> \<exists>c'. work_step c c'"
proof -
  assume "pending c \<noteq> 0"
  then obtain t where "todo c t \<noteq> None" unfolding pending_def by (metis (mono_tags) busy_def mem_Collect_eq sum.neutral)
  then obtain i ps where "todo c t = Some (i, ps)" by auto
  then show "\<exists>c'. work_step c c'" by (cases ps) (auto intro: Write Finish)
qed

text \<open>C18. No call waits for another thread's writes: whatever the order in which threads go on, the writes that
  are under way come to an end after exactly as many steps as there are left, and then the whole heap is in order.\<close>

theorem concurrent_calls_finish:
  assumes "conc_reach c" and "(work_step ^^ n) c c'"
  shows "n \<le> pending c \<and>
    (if n = pending c then (\<forall>t. todo c' t = None) \<and> heap_wf (heap c') else \<exists>c''. work_step c' c'')"
proof -
  have p: "pending c = n + pending c'" using work_steps_pending [OF assms(2,1)] .
  have c': "conc_reach c'" using work_steps_reach [OF assms(2,1)] .
  have "todo c' t = None" if "pending c' = 0" for t
    using that reach_busy [OF c']
    by (cases "todo c' t") (auto simp: pending_def weight_def busy_def split: option.splits)
  then show ?thesis
    using p work_progress [of c'] quiet_heap_wf [OF conc_reach_wf [OF c']] by auto
qed

theorem concurrent_calls_finish_witness:
  "3 \<le> pending demo_release \<and> heap_wf (freed_result 0 demo_heap)"
proof -
  have ps: "free_writes (blocks (set_freed 0 demo_heap) ! 0) = free_writes (blocks demo_heap ! 0)"
    by (simp add: free_writes_def)
  have l: "length (free_writes (blocks demo_heap ! 0)) = 2"
    by (simp add: free_writes_def fill_writes_def memset_writes_def)
  have q: "pending demo_release = 3"
  proof -
    have "busy demo_release = {1}" by (auto simp: busy_def demo_release_def split: if_splits)
    then show ?thesis using l ps by (simp add: pending_def weight_def demo_release_def)
  qed
  let ?d = "demo_release\<lparr>heap := freed_result 0 demo_heap, todo := (\<lambda>_. None)\<rparr>"
  have "(work_step ^^ 3) demo_release ?d"
    using drain [of demo_release 1 0 "free_writes (blocks demo_heap ! 0)"] free_apply [of demo_heap 0] l ps
    by (simp add: demo_release_def numeral_3_eq_3)
  from concurrent_calls_finish [OF demo_release_reach this] show ?thesis by (simp add: q)
qed

end
