(* ===== verification/Race_Clock.thy ===== *)
theory Race_Clock
  imports RZ_Prelude
begin

text \<open>
  Vector clocks and the happens-before test of \<^verbatim>\<open>runtime/redzone_race.c\<close>. A clock is the array
  \<^verbatim>\<open>t[RZ_RACE_MAX_THREADS]\<close> as a function of the index; entries from the bound on are never
  written. The locale \<open>clock_order\<close> is what the detector relies on: joining imports knowledge
  and loses none.
\<close>

definition RZ_RACE_MAX_THREADS :: nat where "RZ_RACE_MAX_THREADS = 64"

type_synonym rz_epoch = u64
type_synonym rz_vc = "nat \<Rightarrow> rz_epoch"

definition tid_ok :: "int \<Rightarrow> bool" where
  "tid_ok tid \<longleftrightarrow> 0 \<le> tid \<and> tid < int RZ_RACE_MAX_THREADS"

section \<open>The operations\<close>

definition rz_vc_init :: rz_vc where
  "rz_vc_init = (\<lambda>i. 0)"

definition rz_vc_tick :: "rz_vc \<Rightarrow> int \<Rightarrow> rz_vc" where
  "rz_vc_tick c tid = (if tid_ok tid then c(nat tid := c (nat tid) + 1) else c)"

definition rz_vc_join :: "rz_vc \<Rightarrow> rz_vc \<Rightarrow> rz_vc" where
  "rz_vc_join dst src = (\<lambda>i. if i < RZ_RACE_MAX_THREADS \<and> src i > dst i then src i else dst i)"

definition rz_vc_copy :: "rz_vc \<Rightarrow> rz_vc \<Rightarrow> rz_vc" where
  "rz_vc_copy dst src = src"

text \<open>A shadow cell: the last recorded access of one thread to a word.\<close>

record rz_access =
  valid :: bool
  acc_tid :: int
  acc_epoch :: rz_epoch
  acc_write :: bool
  acc_file :: cstr
  acc_line :: int

definition no_access :: rz_access where
  "no_access = \<lparr>valid = False, acc_tid = 0, acc_epoch = 0, acc_write = False, acc_file = None, acc_line = 0\<rparr>"

definition rz_race_check :: "rz_access \<Rightarrow> int \<Rightarrow> rz_vc \<Rightarrow> bool \<Rightarrow> bool" where
  "rz_race_check prev tid cur is_write =
     (if \<not> valid prev then False
      else if acc_tid prev = tid then False
      else if \<not> acc_write prev \<and> \<not> is_write then False
      else if acc_tid prev < 0 \<or> acc_tid prev \<ge> int RZ_RACE_MAX_THREADS then False
      else acc_epoch prev > cur (nat (acc_tid prev)))"

section \<open>The order of clocks\<close>

definition vc_le :: "rz_vc \<Rightarrow> rz_vc \<Rightarrow> bool" where
  "vc_le a b \<longleftrightarrow> (\<forall>i < RZ_RACE_MAX_THREADS. a i \<le> b i)"

locale clock_order =
  fixes le :: "'c \<Rightarrow> 'c \<Rightarrow> bool" and join :: "'c \<Rightarrow> 'c \<Rightarrow> 'c" and zero :: 'c
  assumes le_refl: "le a a"
    and le_trans: "le a b \<Longrightarrow> le b c \<Longrightarrow> le a c"
    and join_left: "le a (join a b)"
    and join_right: "le b (join a b)"
    and join_least: "le a c \<Longrightarrow> le b c \<Longrightarrow> le (join a b) c"
    and zero_least: "le zero a"
begin

lemma le_join_left: "le a b \<Longrightarrow> le a (join b c)"
  by (rule le_trans [OF _ join_left])

lemma le_join_right: "le a c \<Longrightarrow> le a (join b c)"
  by (rule le_trans [OF _ join_right])

lemma join_mono: "le a a' \<Longrightarrow> le b b' \<Longrightarrow> le (join a b) (join a' b')"
  by (intro join_least le_join_left le_join_right)

lemma join_absorb: "le b a \<Longrightarrow> le (join a b) a"
  by (intro join_least le_refl)

lemma join_swap: "le (join a b) (join b a)"
  by (intro join_least join_left join_right)

end

interpretation vc: clock_order vc_le rz_vc_join rz_vc_init
  by unfold_locales (auto simp: vc_le_def rz_vc_join_def rz_vc_init_def intro: order_trans)

lemma vc_leD: "vc_le a b \<Longrightarrow> i < RZ_RACE_MAX_THREADS \<Longrightarrow> a i \<le> b i"
  by (simp add: vc_le_def)

lemma tid_okD: "tid_ok tid \<Longrightarrow> nat tid < RZ_RACE_MAX_THREADS"
  by (auto simp: tid_ok_def RZ_RACE_MAX_THREADS_def)

text \<open>A tick moves the clock up as long as the epoch does not wrap around.\<close>

lemma tick_le:
  assumes "tid_ok tid \<Longrightarrow> unat (c (nat tid)) < 18446744073709551615"
  shows "vc_le c (rz_vc_tick c tid)"
proof -
  have "c (nat tid) \<le> c (nat tid) + 1" if "tid_ok tid"
    using assms [OF that] by (simp add: word_le_nat_alt unat_plus64)
  then show ?thesis by (simp add: vc_le_def rz_vc_tick_def)
qed

text \<open>The test reports a conflicting access of another thread that the current clock does not cover.\<close>

lemma race_check_iff:
  "rz_race_check prev tid cur w \<longleftrightarrow>
    valid prev \<and> acc_tid prev \<noteq> tid \<and> (acc_write prev \<or> w) \<and> tid_ok (acc_tid prev)
    \<and> cur (nat (acc_tid prev)) < acc_epoch prev"
  by (auto simp: rz_race_check_def tid_ok_def)

lemma race_check_covered: "vc_le cur cur' \<Longrightarrow> rz_race_check prev tid cur' w \<Longrightarrow> rz_race_check prev tid cur w"
  by (auto simp: race_check_iff dest: vc_leD tid_okD)

text \<open>Bounding epochs by a counter, to rule out wrap-around.\<close>

definition vc_below :: "rz_vc \<Rightarrow> nat \<Rightarrow> bool" where
  "vc_below c n \<longleftrightarrow> (\<forall>i < RZ_RACE_MAX_THREADS. unat (c i) \<le> n)"

lemma vc_below_mono: "vc_below c n \<Longrightarrow> n \<le> m \<Longrightarrow> vc_below c m"
  by (auto simp: vc_below_def intro: order_trans)

lemma vc_below_init [simp]: "vc_below rz_vc_init n"
  by (simp add: vc_below_def rz_vc_init_def)

lemma vc_below_join [simp]: "vc_below a n \<Longrightarrow> vc_below b n \<Longrightarrow> vc_below (rz_vc_join a b) n"
  by (auto simp: vc_below_def rz_vc_join_def)

lemma unat_Suc_le: "unat ((x :: u64) + 1) \<le> Suc (unat x)"
  by (simp add: unat_word_ariths mod_le_divisor)

lemma vc_below_tick: "vc_below c n \<Longrightarrow> vc_below (rz_vc_tick c tid) (Suc n)"
  by (auto simp: vc_below_def rz_vc_tick_def intro: le_trans [OF unat_Suc_le] le_SucI)

lemma tick_le_below:
  assumes "vc_below c n" and "n < 18446744073709551615"
  shows "vc_le c (rz_vc_tick c tid)"
proof (rule tick_le)
  assume "tid_ok tid"
  then have "unat (c (nat tid)) \<le> n" using assms(1) tid_okD by (simp add: vc_below_def)
  then show "unat (c (nat tid)) < 18446744073709551615" using assms(2) by linarith
qed

end
