(* ===== verification/Race_Shadow.thy ===== *)
theory Race_Shadow
  imports Race_Clock
begin

text \<open>
  The race detector's shadow (\<^verbatim>\<open>find_bucket\<close> of \<^verbatim>\<open>runtime/redzone_race.c\<close>): a fixed open-addressing
  table from 8-byte words to a few access cells, without deletion. The locale \<open>word_map\<close> is the
  contract of the table as a map; the interpretation discharges it for the probing code.
\<close>

definition RZ_RACE_BUCKETS :: u64 where "RZ_RACE_BUCKETS = push_bit 14 1"
definition RZ_RACE_CELLS :: nat where "RZ_RACE_CELLS = 4"

record rz_bucket =
  bkey :: u64
  cells :: "rz_access list"

record rz_race_state =
  buckets :: "rz_bucket list option"
  nbuckets :: u64
  next_tid :: int

definition empty_bucket :: rz_bucket where
  "empty_bucket = \<lparr>bkey = 0, cells = replicate RZ_RACE_CELLS no_access\<rparr>"

section \<open>The operations\<close>

text \<open>The flag says whether \<^verbatim>\<open>calloc\<close> succeeds.\<close>

definition rz_race_state_init_n :: "bool \<Rightarrow> u64 \<Rightarrow> rz_race_state \<Rightarrow> int \<times> rz_race_state" where
  "rz_race_state_init_n calloc_ok n s =
     (if \<not> calloc_ok then (- 1, s\<lparr>buckets := None, nbuckets := 0\<rparr>)
      else (0, s\<lparr>buckets := Some (replicate (unat n) empty_bucket), nbuckets := n, next_tid := 0\<rparr>))"

definition rz_race_state_init :: "bool \<Rightarrow> rz_race_state \<Rightarrow> int \<times> rz_race_state" where
  "rz_race_state_init calloc_ok s = rz_race_state_init_n calloc_ok RZ_RACE_BUCKETS s"

definition rz_race_state_destroy :: "rz_race_state \<Rightarrow> rz_race_state" where
  "rz_race_state_destroy s = s\<lparr>buckets := None, nbuckets := 0, next_tid := 0\<rparr>"

text \<open>The probe loop: \<open>n\<close> is the number of rounds left, \<open>i\<close> the round.\<close>

datatype probed = Hit nat | Vacant nat | Exhausted

definition slot_of :: "u64 \<Rightarrow> u64 \<Rightarrow> u64 \<Rightarrow> nat" where
  "slot_of msk h i = unat ((h + i) AND msk)"

fun probe :: "rz_bucket list \<Rightarrow> u64 \<Rightarrow> u64 \<Rightarrow> u64 \<Rightarrow> nat \<Rightarrow> u64 \<Rightarrow> probed" where
  "probe bs msk h key 0 i = Exhausted"
| "probe bs msk h key (Suc n) i =
     (let j = slot_of msk h i in
      if bkey (bs ! j) = key then Hit j
      else if bkey (bs ! j) = 0 then Vacant j
      else probe bs msk h key n (i + 1))"

definition HASH_MULT :: u64 where "HASH_MULT = 0x9E3779B97F4A7C15"

definition find_bucket :: "rz_race_state \<Rightarrow> u64 \<Rightarrow> bool \<Rightarrow> nat option \<times> rz_race_state" where
  "find_bucket s word create =
     (case buckets s of
        None \<Rightarrow> (None, s)
      | Some bs \<Rightarrow>
          let key = word + 1;
              msk = nbuckets s - 1;
              h = (word * HASH_MULT) AND msk in
          (case probe bs msk h key (unat (nbuckets s)) 0 of
             Hit j \<Rightarrow> (Some j, s)
           | Vacant j \<Rightarrow>
               if \<not> create then (None, s)
               else (Some j, s\<lparr>buckets := Some (bs[j := (bs ! j)\<lparr>bkey := key\<rparr>])\<rparr>)
           | Exhausted \<Rightarrow> (None, s)))"

section \<open>The probe sequence\<close>

text \<open>The first slot of a sequence that holds the key or is free.\<close>

fun probe_list :: "(nat \<Rightarrow> u64) \<Rightarrow> u64 \<Rightarrow> nat list \<Rightarrow> probed" where
  "probe_list f key [] = Exhausted"
| "probe_list f key (j # js) =
     (if f j = key then Hit j else if f j = 0 then Vacant j else probe_list f key js)"

definition slots :: "u64 \<Rightarrow> u64 \<Rightarrow> u64 \<Rightarrow> nat \<Rightarrow> nat list" where
  "slots msk h i n = map (\<lambda>k. slot_of msk h (i + of_nat k)) [0..<n]"

lemma slots_Suc: "slots msk h i (Suc n) = slot_of msk h i # slots msk h (i + 1) n"
proof -
  have "[0..<Suc n] = 0 # map Suc [0..<n]" by (metis map_Suc_upt upt_conv_Cons zero_less_Suc)
  then show ?thesis by (simp add: slots_def comp_def add.assoc)
qed

lemma probe_eq: "probe bs msk h key n i = probe_list (\<lambda>j. bkey (bs ! j)) key (slots msk h i n)"
  by (induction n arbitrary: i) (simp_all add: slots_Suc Let_def slots_def [of _ _ _ 0])

lemma probe_list_Hit: "probe_list f key js = Hit j \<Longrightarrow> j \<in> set js \<and> f j = key"
  by (induction js) (auto split: if_splits)

lemma probe_list_Vacant: "probe_list f key js = Vacant j \<Longrightarrow> j \<in> set js \<and> f j = 0 \<and> f j \<noteq> key"
  by (induction js) (auto split: if_splits)

text \<open>Filling a free slot with another key neither hides nor forges a hit.\<close>

lemma probe_list_fill:
  assumes "f j = 0" and "k \<noteq> 0" and "key \<noteq> 0" and "key \<noteq> k"
    and "probe_list f key js = Hit i"
  shows "probe_list (f(j := k)) key js = Hit i"
  using assms by (induction js) (auto split: if_splits)

lemma probe_list_fill_same:
  "probe_list f key js = Vacant j \<Longrightarrow> probe_list (f(j := key)) key js = Hit j"
  by (induction js) (auto split: if_splits)

lemma probe_list_cong: "(\<And>j. j \<in> set js \<Longrightarrow> f j = g j) \<Longrightarrow> probe_list f key js = probe_list g key js"
  by (induction js) auto

lemma probe_list_Exhausted: "probe_list f key js = Exhausted \<Longrightarrow> j \<in> set js \<Longrightarrow> f j \<noteq> 0 \<and> f j \<noteq> key"
  by (induction js) (auto split: if_splits)

section \<open>Well-formed tables\<close>

definition word_slots :: "rz_race_state \<Rightarrow> u64 \<Rightarrow> nat list" where
  "word_slots s word = slots (nbuckets s - 1) ((word * HASH_MULT) AND (nbuckets s - 1)) 0 (unat (nbuckets s))"

definition words_ok :: "u64 \<Rightarrow> bool" where
  "words_ok w \<longleftrightarrow> unat w < 18446744073709551615"

text \<open>
  The table has a power-of-two size; every bucket has its cells, an unclaimed one only empty ones;
  and probing for the key of a claimed bucket arrives at that bucket.
\<close>

definition table_ok :: "rz_race_state \<Rightarrow> bool" where
  "table_ok s \<longleftrightarrow> (case buckets s of
      None \<Rightarrow> True
    | Some bs \<Rightarrow>
        (\<exists>k < 63. nbuckets s = 2 ^ k) \<and> length bs = unat (nbuckets s)
        \<and> (\<forall>j < length bs. length (cells (bs ! j)) = RZ_RACE_CELLS
             \<and> (bkey (bs ! j) = 0 \<longrightarrow> cells (bs ! j) = replicate RZ_RACE_CELLS no_access)
             \<and> (bkey (bs ! j) \<noteq> 0 \<longrightarrow>
                  probe_list (\<lambda>j. bkey (bs ! j)) (bkey (bs ! j)) (word_slots s (bkey (bs ! j) - 1)) = Hit j)))"

lemma slot_bound: "k < 64 \<Longrightarrow> slot_of (2 ^ k - 1) h i < unat ((2 :: u64) ^ k)"
  by (simp add: slot_of_def unat_and_mask unat_pow2)

lemma word_slots_bound:
  assumes "nbuckets s = 2 ^ k" and "k < 63" and "j \<in> set (word_slots s w)"
  shows "j < unat (nbuckets s)"
  using assms slot_bound [of k] by (auto simp: word_slots_def slots_def)

lemma find_bucket_eq:
  "find_bucket s word create =
    (case buckets s of
       None \<Rightarrow> (None, s)
     | Some bs \<Rightarrow>
        (case probe_list (\<lambda>j. bkey (bs ! j)) (word + 1) (word_slots s word) of
           Hit j \<Rightarrow> (Some j, s)
         | Vacant j \<Rightarrow>
             if \<not> create then (None, s)
             else (Some j, s\<lparr>buckets := Some (bs[j := (bs ! j)\<lparr>bkey := word + 1\<rparr>])\<rparr>)
         | Exhausted \<Rightarrow> (None, s)))"
  by (simp add: find_bucket_def probe_eq word_slots_def Let_def cong: option.case_cong)

text \<open>The cells recorded for a word.\<close>

definition word_cells :: "rz_race_state \<Rightarrow> u64 \<Rightarrow> rz_access list" where
  "word_cells s word =
     (case find_bucket s word False of
        (Some j, _) \<Rightarrow> cells (the (buckets s) ! j)
      | (None, _) \<Rightarrow> replicate RZ_RACE_CELLS no_access)"

definition set_cells :: "rz_race_state \<Rightarrow> nat \<Rightarrow> rz_access list \<Rightarrow> rz_race_state" where
  "set_cells s j cs = s\<lparr>buckets := map_option (\<lambda>bs. bs[j := (bs ! j)\<lparr>cells := cs\<rparr>]) (buckets s)\<rparr>"

section \<open>The table as a map\<close>

locale word_map =
  fixes ok :: "'s \<Rightarrow> bool" and good :: "'c \<Rightarrow> bool" and wd :: "u64 \<Rightarrow> bool"
    and look :: "'s \<Rightarrow> u64 \<Rightarrow> 'c"
    and locate :: "'s \<Rightarrow> u64 \<Rightarrow> nat option \<times> 's"
    and cell :: "'s \<Rightarrow> nat \<Rightarrow> 'c"
    and put :: "'s \<Rightarrow> nat \<Rightarrow> 'c \<Rightarrow> 's"
  assumes look_good: "ok s \<Longrightarrow> wd w \<Longrightarrow> good (look s w)"
    and locate_ok: "ok s \<Longrightarrow> wd w \<Longrightarrow> locate s w = (r, s') \<Longrightarrow> ok s'"
    and locate_none: "ok s \<Longrightarrow> wd w \<Longrightarrow> locate s w = (None, s') \<Longrightarrow> s' = s"
    and locate_look: "ok s \<Longrightarrow> wd w \<Longrightarrow> locate s w = (r, s') \<Longrightarrow> wd v \<Longrightarrow> look s' v = look s v"
    and locate_cell: "ok s \<Longrightarrow> wd w \<Longrightarrow> locate s w = (Some j, s') \<Longrightarrow> cell s' j = look s w"
    and put_ok: "ok s \<Longrightarrow> wd w \<Longrightarrow> locate s w = (Some j, s') \<Longrightarrow> good c \<Longrightarrow> ok (put s' j c)"
    and put_look: "ok s \<Longrightarrow> wd w \<Longrightarrow> locate s w = (Some j, s') \<Longrightarrow> good c \<Longrightarrow> wd v \<Longrightarrow>
      look (put s' j c) v = (if v = w then c else look s v)"
begin

definition update :: "'s \<Rightarrow> u64 \<Rightarrow> ('c \<Rightarrow> 'c) \<Rightarrow> 's" where
  "update s w g = (case locate s w of (None, s') \<Rightarrow> s' | (Some j, s') \<Rightarrow> put s' j (g (cell s' j)))"

lemma update_ok: "ok s \<Longrightarrow> wd w \<Longrightarrow> (\<And>c. good c \<Longrightarrow> good (g c)) \<Longrightarrow> ok (update s w g)"
  by (auto simp: update_def locate_cell look_good intro: locate_ok put_ok split: prod.split option.split)

lemma update_look:
  assumes "ok s" "wd w" "wd v" and "\<And>c. good c \<Longrightarrow> good (g c)"
  shows "look (update s w g) v =
    (if v = w \<and> fst (locate s w) \<noteq> None then g (look s w) else look s v)"
  using assms
  by (auto simp: update_def locate_cell look_good put_look dest: locate_none split: prod.split option.split)

text \<open>A property of each word's cells that the update of one word keeps is kept at every word.\<close>

lemma update_invariant:
  assumes "ok s" "wd w" "\<And>c. good c \<Longrightarrow> good (g c)"
    and "\<And>v. wd v \<Longrightarrow> P v (look s v)" and "P w (look s w) \<Longrightarrow> P w (g (look s w))"
  shows "wd v \<Longrightarrow> P v (look (update s w g) v)"
  using assms by (simp add: update_look)

end

definition key_at :: "rz_race_state \<Rightarrow> nat \<Rightarrow> u64" where
  "key_at s j = bkey (the (buckets s) ! j)"

definition cells_at :: "rz_race_state \<Rightarrow> nat \<Rightarrow> rz_access list" where
  "cells_at s j = cells (the (buckets s) ! j)"

lemma table_okI:
  assumes "buckets s = Some bs" and "k < 63" "nbuckets s = 2 ^ k" and "length bs = unat (nbuckets s)"
    and "\<And>j. j < length bs \<Longrightarrow> length (cells_at s j) = RZ_RACE_CELLS"
    and "\<And>j. j < length bs \<Longrightarrow> key_at s j = 0 \<Longrightarrow> cells_at s j = replicate RZ_RACE_CELLS no_access"
    and "\<And>j. j < length bs \<Longrightarrow> key_at s j \<noteq> 0 \<Longrightarrow>
      probe_list (key_at s) (key_at s j) (word_slots s (key_at s j - 1)) = Hit j"
  shows "table_ok s"
proof -
  have "key_at s = (\<lambda>j. bkey (bs ! j))" "cells_at s = (\<lambda>j. cells (bs ! j))"
    using assms(1) by (auto simp: key_at_def cells_at_def)
  with assms show ?thesis by (auto simp: table_ok_def)
qed

lemma table_okD:
  assumes "table_ok s" and "buckets s = Some bs"
  shows "\<exists>k < 63. nbuckets s = 2 ^ k" and "length bs = unat (nbuckets s)"
    and "j < length bs \<Longrightarrow> length (cells_at s j) = RZ_RACE_CELLS"
    and "j < length bs \<Longrightarrow> key_at s j = 0 \<Longrightarrow> cells_at s j = replicate RZ_RACE_CELLS no_access"
    and "j < length bs \<Longrightarrow> key_at s j \<noteq> 0 \<Longrightarrow>
      probe_list (key_at s) (key_at s j) (word_slots s (key_at s j - 1)) = Hit j"
proof -
  have "key_at s = (\<lambda>j. bkey (bs ! j))" "cells_at s = (\<lambda>j. cells (bs ! j))"
    using assms(2) by (auto simp: key_at_def cells_at_def)
  with assms show "\<exists>k < 63. nbuckets s = 2 ^ k" and "length bs = unat (nbuckets s)"
    and "j < length bs \<Longrightarrow> length (cells_at s j) = RZ_RACE_CELLS"
    and "j < length bs \<Longrightarrow> key_at s j = 0 \<Longrightarrow> cells_at s j = replicate RZ_RACE_CELLS no_access"
    and "j < length bs \<Longrightarrow> key_at s j \<noteq> 0 \<Longrightarrow>
      probe_list (key_at s) (key_at s j) (word_slots s (key_at s j - 1)) = Hit j"
    by (auto simp: table_ok_def)
qed

definition probe_word :: "rz_race_state \<Rightarrow> u64 \<Rightarrow> probed" where
  "probe_word s w = probe_list (key_at s) (w + 1) (word_slots s w)"

lemma word_cells_eq:
  "buckets s \<noteq> None \<Longrightarrow> word_cells s w =
    (case probe_word s w of Hit j \<Rightarrow> cells_at s j | _ \<Rightarrow> replicate RZ_RACE_CELLS no_access)"
  by (auto simp: word_cells_def find_bucket_eq probe_word_def key_at_def [abs_def] cells_at_def
      split: probed.split)

lemma locate_eq:
  "buckets s \<noteq> None \<Longrightarrow> find_bucket s w True =
    (case probe_word s w of
       Hit j \<Rightarrow> (Some j, s)
     | Vacant j \<Rightarrow> (Some j, s\<lparr>buckets := Some ((the (buckets s))[j := (the (buckets s) ! j)\<lparr>bkey := w + 1\<rparr>])\<rparr>)
     | Exhausted \<Rightarrow> (None, s))"
  by (auto simp: find_bucket_eq probe_word_def key_at_def [abs_def] split: probed.split)

lemma words_ok_key: "words_ok w \<Longrightarrow> w + 1 \<noteq> 0"
  by (auto simp: words_ok_def word_unat_eq_iff unat_plus64)

lemma table_probe_bound:
  assumes "table_ok s" "buckets s = Some bs"
  shows "probe_word s w = Hit j \<Longrightarrow> j < length bs \<and> key_at s j = w + 1"
    and "probe_word s w = Vacant j \<Longrightarrow> j < length bs \<and> key_at s j = 0"
proof -
  obtain k where k: "k < 63" "nbuckets s = 2 ^ k" using table_okD(1) [OF assms] by blast
  note b = word_slots_bound [OF k(2,1)]
  show "probe_word s w = Hit j \<Longrightarrow> j < length bs \<and> key_at s j = w + 1"
    using probe_list_Hit b table_okD(2) [OF assms] unfolding probe_word_def by metis
  show "probe_word s w = Vacant j \<Longrightarrow> j < length bs \<and> key_at s j = 0"
    using probe_list_Vacant b table_okD(2) [OF assms] unfolding probe_word_def by metis
qed

text \<open>Changing the cells of a claimed bucket.\<close>

lemma set_cells_fields:
  assumes "buckets s = Some bs" "j < length bs"
  shows "i < length bs \<Longrightarrow> key_at (set_cells s j cs) i = key_at s i"
    and "i < length bs \<Longrightarrow> cells_at (set_cells s j cs) i = (if i = j then cs else cells_at s i)"
    and "nbuckets (set_cells s j cs) = nbuckets s" "next_tid (set_cells s j cs) = next_tid s"
    and "word_slots (set_cells s j cs) = word_slots s"
  using assms by (auto simp: set_cells_def key_at_def cells_at_def word_slots_def [abs_def] nth_list_update)

lemma probe_word_cong:
  assumes "table_ok s" "buckets s = Some bs" "word_slots s' = word_slots s"
    and "\<And>i. i < length bs \<Longrightarrow> key_at s' i = key_at s i"
  shows "probe_word s' w = probe_word s w"
    and "probe_list (key_at s') key (word_slots s' w) = probe_list (key_at s) key (word_slots s w)"
proof -
  obtain k where k: "k < 63" "nbuckets s = 2 ^ k" using table_okD(1) [OF assms(1,2)] by blast
  show "probe_list (key_at s') key (word_slots s' w) = probe_list (key_at s) key (word_slots s w)" for key
    unfolding assms(3)
    by (rule probe_list_cong) (use assms(4) table_okD(2) [OF assms(1,2)] word_slots_bound [OF k(2,1)] in auto)
  then show "probe_word s' w = probe_word s w" by (simp add: probe_word_def)
qed

lemma set_cells_ok:
  assumes ok: "table_ok s" and b: "buckets s = Some bs" and j: "j < length bs" "key_at s j \<noteq> 0"
    and cs: "length cs = RZ_RACE_CELLS"
  shows "table_ok (set_cells s j cs)" and "probe_word (set_cells s j cs) w = probe_word s w"
proof -
  note d = table_okD [OF ok b] and f = set_cells_fields [OF b j(1)]
  note pc = probe_word_cong [OF ok b f(5) f(1)]
  obtain k where k: "k < 63" "nbuckets s = 2 ^ k" using d(1) by blast
  have b': "buckets (set_cells s j cs) = Some (bs[j := (bs ! j)\<lparr>cells := cs\<rparr>])" using b by (simp add: set_cells_def)
  show "probe_word (set_cells s j cs) w = probe_word s w" by (rule pc(1))
  show "table_ok (set_cells s j cs)"
    by (rule table_okI [OF b' k(1)]) (use k d cs j f pc(2) in \<open>auto simp del: One_nat_def\<close>)
qed

text \<open>Claiming a free bucket.\<close>

definition claimed :: "rz_race_state \<Rightarrow> nat \<Rightarrow> u64 \<Rightarrow> rz_race_state" where
  "claimed s j w = s\<lparr>buckets := Some ((the (buckets s))[j := (the (buckets s) ! j)\<lparr>bkey := w + 1\<rparr>])\<rparr>"

lemma claimed_fields:
  assumes "buckets s = Some bs" "j < length bs"
  shows "i < length bs \<Longrightarrow> key_at (claimed s j w) i = ((key_at s)(j := w + 1)) i"
    and "i < length bs \<Longrightarrow> cells_at (claimed s j w) i = cells_at s i"
    and "nbuckets (claimed s j w) = nbuckets s" "next_tid (claimed s j w) = next_tid s"
    and "word_slots (claimed s j w) = word_slots s"
  using assms by (auto simp: claimed_def key_at_def cells_at_def word_slots_def [abs_def] nth_list_update)

lemma claimed_probe:
  assumes ok: "table_ok s" and b: "buckets s = Some bs" and w: "words_ok w"
    and v: "probe_word s w = Vacant j"
  shows "probe_list (key_at (claimed s j w)) key (word_slots (claimed s j w) v) =
      probe_list ((key_at s)(j := w + 1)) key (word_slots s v)"
    and "probe_word (claimed s j w) w = Hit j"
    and "words_ok v \<Longrightarrow> v \<noteq> w \<Longrightarrow> probe_word (claimed s j w) v = Hit i \<longleftrightarrow> probe_word s v = Hit i"
    and "table_ok (claimed s j w)"
proof -
  note d = table_okD [OF ok b]
  have j: "j < length bs" "key_at s j = 0" using table_probe_bound(2) [OF ok b v] by auto
  note f = claimed_fields [OF b j(1)]
  obtain k where k: "k < 63" "nbuckets s = 2 ^ k" using d(1) by blast
  show p: "probe_list (key_at (claimed s j w)) key (word_slots (claimed s j w) v) =
      probe_list ((key_at s)(j := w + 1)) key (word_slots s v)" for key v
    unfolding f(5) by (rule probe_list_cong) (use f(1) d(2) word_slots_bound [OF k(2,1)] in auto)
  have same: "probe_list ((key_at s)(j := w + 1)) (w + 1) (word_slots s w) = Hit j"
    using v unfolding probe_word_def by (rule probe_list_fill_same)
  then show "probe_word (claimed s j w) w = Hit j" by (simp add: probe_word_def p)
  have other: "probe_list ((key_at s)(j := w + 1)) key js = Hit i"
    if "probe_list (key_at s) key js = Hit i" "key \<noteq> 0" "key \<noteq> w + 1" for key js i
    by (rule probe_list_fill [of "key_at s" j "w + 1", OF j(2) words_ok_key [OF w] that(2,3,1)])
  have free: "key_at s i \<noteq> w + 1" if "i < length bs" for i
  proof
    assume "key_at s i = w + 1"
    then have "probe_word s w = Hit i" using d(5) [OF that] words_ok_key [OF w] by (simp add: probe_word_def)
    with v show False by simp
  qed
  show "probe_word (claimed s j w) v = Hit i \<longleftrightarrow> probe_word s v = Hit i" if v': "words_ok v" "v \<noteq> w"
  proof
    assume "probe_word s v = Hit i"
    then show "probe_word (claimed s j w) v = Hit i"
      unfolding probe_word_def p using other words_ok_key [OF v'(1)] v'(2) by simp
  next
    assume "probe_word (claimed s j w) v = Hit i"
    then have h: "probe_list ((key_at s)(j := w + 1)) (v + 1) (word_slots s v) = Hit i"
      by (simp add: probe_word_def p)
    have i: "i \<in> set (word_slots s v)" "((key_at s)(j := w + 1)) i = v + 1" using probe_list_Hit [OF h] by auto
    then have "i \<noteq> j" "key_at s i = v + 1" using v'(2) by (auto split: if_splits)
    moreover have "i < length bs" using i(1) word_slots_bound [OF k(2,1)] d(2) by simp
    ultimately show "probe_word s v = Hit i" using d(5) [of i] words_ok_key [OF v'(1)] by (simp add: probe_word_def)
  qed
  have b': "buckets (claimed s j w) = Some (bs[j := (bs ! j)\<lparr>bkey := w + 1\<rparr>])" using b by (simp add: claimed_def)
  show "table_ok (claimed s j w)"
  proof (rule table_okI [OF b' k(1)])
    fix i assume "i < length (bs[j := (bs ! j)\<lparr>bkey := w + 1\<rparr>])"
    then have i: "i < length bs" by simp
    show "length (cells_at (claimed s j w) i) = RZ_RACE_CELLS" using d(3) [OF i] f(2) [OF i] by simp
    show "cells_at (claimed s j w) i = replicate RZ_RACE_CELLS no_access" if "key_at (claimed s j w) i = 0"
      using that d(4) [OF i] f(1,2) [OF i] words_ok_key [OF w] by (auto split: if_splits)
    show "probe_list (key_at (claimed s j w)) (key_at (claimed s j w) i)
        (word_slots (claimed s j w) (key_at (claimed s j w) i - 1)) = Hit i"
      if "key_at (claimed s j w) i \<noteq> 0"
    proof (cases "i = j")
      case True
      then show ?thesis using f(1) [OF i] same by (simp add: p)
    next
      case False
      then have e: "key_at (claimed s j w) i = key_at s i" using f(1) [OF i] by simp
      then have nz: "key_at s i \<noteq> 0" using that by simp
      show ?thesis unfolding p e by (rule other [OF d(5) [OF i nz] nz free [OF i]])
    qed
  qed (use k d(2) f(3) in auto)
qed

definition cells_ok :: "rz_access list \<Rightarrow> bool" where
  "cells_ok cs \<longleftrightarrow> length cs = RZ_RACE_CELLS"

lemma word_cells_none: "buckets s = None \<Longrightarrow> word_cells s w = replicate RZ_RACE_CELLS no_access"
  by (simp add: word_cells_def find_bucket_eq)

lemma locate_none_state: "buckets s = None \<Longrightarrow> find_bucket s w c = (None, s)"
  by (simp add: find_bucket_eq)

lemma word_cells_hit: "buckets s \<noteq> None \<Longrightarrow> probe_word s w = Hit j \<Longrightarrow> word_cells s w = cells_at s j"
  by (simp add: word_cells_eq)

lemma word_cells_miss:
  "buckets s \<noteq> None \<Longrightarrow> (\<And>j. probe_word s w \<noteq> Hit j) \<Longrightarrow> word_cells s w = replicate RZ_RACE_CELLS no_access"
  by (auto simp: word_cells_eq split: probed.split)

text \<open>What claiming or finding a bucket gives, before its cells are written.\<close>

lemma locate_Some:
  assumes ok: "table_ok s" and w: "words_ok w" and l: "find_bucket s w True = (Some j, s')"
  obtains bs where "buckets s' = Some bs" "j < length bs" "table_ok s'" "probe_word s' w = Hit j"
    "\<And>v. words_ok v \<Longrightarrow> word_cells s' v = word_cells s v" "next_tid s' = next_tid s"
    "cells_at s' j = word_cells s w" "key_at s' j = w + 1"
proof -
  obtain bs where b: "buckets s = Some bs" using l locate_none_state [of s w True] by (cases "buckets s") auto
  show thesis
  proof (cases "probe_word s w")
    case (Hit i)
    then have "i = j" "s' = s" using l b by (auto simp: locate_eq)
    then show thesis using that [of bs] b ok Hit table_probe_bound(1) [OF ok b Hit] by (auto simp: word_cells_eq)
  next
    case (Vacant i)
    then have s': "i = j" "s' = claimed s j w" using l b by (auto simp: locate_eq claimed_def)
    have v: "probe_word s w = Vacant j" using Vacant s' by simp
    have j: "j < length bs" "key_at s j = 0" using table_probe_bound(2) [OF ok b v] by auto
    note c = claimed_probe [OF ok b w v] and f = claimed_fields [OF b j(1)]
    have b': "buckets s' = Some (bs[j := (bs ! j)\<lparr>bkey := w + 1\<rparr>])" using b by (simp add: s' claimed_def)
    have cj: "cells_at s' j = replicate RZ_RACE_CELLS no_access"
      using table_okD(4) [OF ok b j] f(2) [OF j(1)] by (simp add: s')
    have ww: "word_cells s w = replicate RZ_RACE_CELLS no_access"
      by (rule word_cells_miss) (simp_all add: b v)
    have "word_cells s' x = word_cells s x" if x: "words_ok x" for x
    proof (cases "x = w")
      case True
      then show ?thesis using b' c(2) cj ww word_cells_hit [of s' w j] by (simp add: s'(2))
    next
      case False
      note same = c(3) [OF x False]
      show ?thesis
      proof (cases "\<exists>i. probe_word s x = Hit i")
        case True
        then obtain i where i: "probe_word s x = Hit i" by blast
        then have "i < length bs" using table_probe_bound(1) [OF ok b] by blast
        then show ?thesis
          using i same f(2) [of i] word_cells_hit [of s x i] word_cells_hit [of s' x i] b b' by (simp add: s'(2))
      next
        case False
        then show ?thesis
          using same word_cells_miss [of s x] word_cells_miss [of s' x] b b' by (auto simp: s'(2))
      qed
    qed
    then show thesis
      using that [of "bs[j := (bs ! j)\<lparr>bkey := w + 1\<rparr>]"] b' j c(2,4) cj ww f(1) [OF j(1)] f(4) by (simp add: s'(2))
  next
    case Exhausted
    then show thesis using l b by (simp add: locate_eq)
  qed
qed

interpretation wm: word_map table_ok cells_ok words_ok word_cells "\<lambda>s w. find_bucket s w True" cells_at set_cells
proof unfold_locales
  fix s w
  assume ok: "table_ok s" and w: "words_ok w"
  show "cells_ok (word_cells s w)"
  proof (cases "buckets s")
    case None
    then show ?thesis by (simp add: word_cells_none cells_ok_def)
  next
    case (Some bs)
    then show ?thesis
      using table_okD(3) [OF ok Some] table_probe_bound(1) [OF ok Some]
      by (auto simp: word_cells_eq cells_ok_def split: probed.split)
  qed
next
  fix s w s'
  assume ok: "table_ok s" and w: "words_ok w" and l: "find_bucket s w True = (None, s')"
  show same: "s' = s" using l by (auto simp: find_bucket_eq split: option.splits probed.splits)
next
  fix s w r s'
  assume ok: "table_ok s" and w: "words_ok w" and l: "find_bucket s w True = (r, s')"
  show "table_ok s'"
  proof (cases r)
    case None
    then have "s' = s" using l by (auto simp: find_bucket_eq split: option.splits probed.splits)
    with ok show ?thesis by simp
  next
    case (Some j)
    then show ?thesis using locate_Some [OF ok w] l by metis
  qed
  show "word_cells s' v = word_cells s v" if "words_ok v" for v
  proof (cases r)
    case None
    then have "s' = s" using l by (auto simp: find_bucket_eq split: option.splits probed.splits)
    then show ?thesis by simp
  next
    case (Some j)
    then show ?thesis using locate_Some [OF ok w] l that by metis
  qed
next
  fix s w j s'
  assume ok: "table_ok s" and w: "words_ok w" and l: "find_bucket s w True = (Some j, s')"
  show "cells_at s' j = word_cells s w" using locate_Some [OF ok w l] by metis
  fix c assume c: "cells_ok c"
  obtain bs where s': "buckets s' = Some bs" "j < length bs" "table_ok s'" "probe_word s' w = Hit j"
    "\<And>v. words_ok v \<Longrightarrow> word_cells s' v = word_cells s v" "key_at s' j = w + 1"
    using locate_Some [OF ok w l] by metis
  have k: "key_at s' j \<noteq> 0" using s'(6) words_ok_key [OF w] by simp
  note sc = set_cells_ok [OF s'(3,1,2) k c [unfolded cells_ok_def]]
  note f = set_cells_fields [OF s'(1,2)]
  show "table_ok (set_cells s' j c)" by (rule sc(1))
  have b: "buckets (set_cells s' j c) \<noteq> None" using s'(1) by (simp add: set_cells_def)
  show "word_cells (set_cells s' j c) v = (if v = w then c else word_cells s v)" if v: "words_ok v" for v
  proof (cases "v = w")
    case True
    then show ?thesis using word_cells_hit [OF b, of w j] sc(2) s'(4) f(2) [OF s'(2)] by simp
  next
    case False
    have "word_cells (set_cells s' j c) v = word_cells s' v"
    proof (cases "\<exists>i. probe_word s' v = Hit i")
      case True
      then obtain i where i: "probe_word s' v = Hit i" by blast
      then have "i < length bs" "key_at s' i = v + 1" using table_probe_bound(1) [OF s'(3,1)] by blast+
      moreover from this have "i \<noteq> j" using s'(6) False by auto
      ultimately show ?thesis
        using i sc(2) [of v] f(2) [of i] word_cells_hit [OF b, of v i] word_cells_hit [of s' v i] s'(1) by simp
    next
      case False
      then show ?thesis using sc(2) [of v] word_cells_miss [OF b, of v] word_cells_miss [of s' v] s'(1) by simp
    qed
    with False show ?thesis using s'(5) [OF v] by simp
  qed
qed

end
