(* ===== verification/Race_Engine.thy ===== *)
theory Race_Engine
  imports Race_Shadow
begin

text \<open>
  The happens-before state machine of \<^verbatim>\<open>runtime/redzone_race.c\<close>: threads with their clocks,
  synchronization objects, and the recording of an access. Every operation returns the objects the
  C code updates in place.
\<close>

record rz_thread =
  th_tid :: int
  th_clock :: rz_vc

record rz_sync =
  sync_clock :: rz_vc

section \<open>Threads and synchronization\<close>

definition rz_thread_init :: "rz_race_state \<Rightarrow> rz_race_state \<times> rz_thread" where
  "rz_thread_init s =
     (let tid = next_tid s in
      (s\<lparr>next_tid := tid + 1\<rparr>, \<lparr>th_tid = tid, th_clock = rz_vc_tick rz_vc_init tid\<rparr>))"

definition rz_sync_init :: rz_sync where
  "rz_sync_init = \<lparr>sync_clock = rz_vc_init\<rparr>"

definition rz_mutex_release :: "rz_thread \<Rightarrow> rz_sync \<Rightarrow> rz_thread \<times> rz_sync" where
  "rz_mutex_release t m =
     (let m = m\<lparr>sync_clock := rz_vc_join (sync_clock m) (th_clock t)\<rparr>;
          t = t\<lparr>th_clock := rz_vc_tick (th_clock t) (th_tid t)\<rparr> in (t, m))"

definition rz_mutex_acquire :: "rz_thread \<Rightarrow> rz_sync \<Rightarrow> rz_thread" where
  "rz_mutex_acquire t m = t\<lparr>th_clock := rz_vc_join (th_clock t) (sync_clock m)\<rparr>"

definition rz_thread_create ::
  "rz_race_state \<Rightarrow> rz_thread \<Rightarrow> rz_thread \<Rightarrow> rz_race_state \<times> rz_thread \<times> rz_thread" where
  "rz_thread_create s parent child =
     (let child = child\<lparr>th_tid := next_tid s\<rparr>;
          s = s\<lparr>next_tid := next_tid s + 1\<rparr>;
          child = child\<lparr>th_clock := rz_vc_copy (th_clock child) (th_clock parent)\<rparr>;
          child = child\<lparr>th_clock := rz_vc_tick (th_clock child) (th_tid child)\<rparr>;
          parent = parent\<lparr>th_clock := rz_vc_tick (th_clock parent) (th_tid parent)\<rparr> in
      (s, parent, child))"

definition rz_thread_join :: "rz_thread \<Rightarrow> rz_thread \<Rightarrow> rz_thread" where
  "rz_thread_join parent child = parent\<lparr>th_clock := rz_vc_join (th_clock parent) (th_clock child)\<rparr>"

text \<open>A thread object straight from \<^verbatim>\<open>calloc\<close>.\<close>

definition zero_thread :: rz_thread where
  "zero_thread = \<lparr>th_tid = 0, th_clock = rz_vc_init\<rparr>"

section \<open>Accesses\<close>

definition cur_epoch :: "rz_thread \<Rightarrow> rz_epoch" where
  "cur_epoch t = (if tid_ok (th_tid t) then th_clock t (nat (th_tid t)) else 0)"

text \<open>The loop over the cells: whether any races, and the first that does.\<close>

definition cells_race :: "rz_access list \<Rightarrow> rz_thread \<Rightarrow> bool \<Rightarrow> bool" where
  "cells_race cs t is_write = list_ex (\<lambda>c. rz_race_check c (th_tid t) (th_clock t) is_write) cs"

definition first_race :: "rz_access list \<Rightarrow> rz_thread \<Rightarrow> bool \<Rightarrow> rz_access option" where
  "first_race cs t is_write = List.find (\<lambda>c. rz_race_check c (th_tid t) (th_clock t) is_write) cs"

text \<open>The loop that looks for this thread's cell and the first free one.\<close>

fun scan_slots :: "rz_access list \<Rightarrow> int \<Rightarrow> nat \<Rightarrow> nat option \<Rightarrow> nat option \<times> nat option" where
  "scan_slots [] tid i freeslot = (None, freeslot)"
| "scan_slots (c # cs) tid i freeslot =
     (if valid c \<and> acc_tid c = tid then (Some i, freeslot)
      else scan_slots cs tid (Suc i) (if \<not> valid c \<and> freeslot = None then Some i else freeslot))"

definition choose_slot :: "rz_access list \<Rightarrow> int \<Rightarrow> nat" where
  "choose_slot cs tid =
     (case scan_slots cs tid 0 None of
        (Some i, _) \<Rightarrow> i
      | (None, Some f) \<Rightarrow> f
      | (None, None) \<Rightarrow> 0)"

definition stamped :: "rz_thread \<Rightarrow> bool \<Rightarrow> cstr \<Rightarrow> int \<Rightarrow> rz_access \<Rightarrow> rz_access" where
  "stamped t is_write loc line c =
     (let is_write = (if valid c \<and> acc_tid c = th_tid t \<and> acc_epoch c = cur_epoch t
                      then acc_write c \<or> is_write else is_write) in
      \<lparr>valid = True, acc_tid = th_tid t, acc_epoch = cur_epoch t, acc_write = is_write,
       acc_file = loc, acc_line = line\<rparr>)"

definition record_cells :: "rz_thread \<Rightarrow> bool \<Rightarrow> cstr \<Rightarrow> int \<Rightarrow> rz_access list \<Rightarrow> rz_access list" where
  "record_cells t is_write loc line cs =
     (let slot = choose_slot cs (th_tid t) in cs[slot := stamped t is_write loc line (cs ! slot)])"

definition rz_race_access_loc ::
  "rz_race_state \<Rightarrow> rz_thread \<Rightarrow> u64 \<Rightarrow> bool \<Rightarrow> cstr \<Rightarrow> int
    \<Rightarrow> (bool \<times> rz_access option) \<times> rz_race_state" where
  "rz_race_access_loc s t addr is_write loc line =
     (let word = drop_bit 3 addr in
      case find_bucket s word True of
        (None, s) \<Rightarrow> ((False, None), s)
      | (Some j, s) \<Rightarrow>
          let cs = cells_at s j in
          ((cells_race cs t is_write, first_race cs t is_write),
           set_cells s j (record_cells t is_write loc line cs)))"

definition rz_race_access :: "rz_race_state \<Rightarrow> rz_thread \<Rightarrow> u64 \<Rightarrow> bool \<Rightarrow> bool \<times> rz_race_state" where
  "rz_race_access s t addr is_write =
     (let r = rz_race_access_loc s t addr is_write None 0 in (fst (fst r), snd r))"

section \<open>What an access does to the table\<close>

lemma word_of_addr: "words_ok (drop_bit 3 (a :: u64))"
proof -
  have "unat a div 8 \<le> 18446744073709551615 div 8" using unat_bound64 [of a] by (intro div_le_mono) linarith
  then show ?thesis by (simp add: words_ok_def unat_drop3)
qed

lemma first_race_Some: "first_race cs t w = Some c \<Longrightarrow> c \<in> set cs \<and> rz_race_check c (th_tid t) (th_clock t) w"
  by (auto simp: first_race_def find_Some_iff)

lemma cells_race_first: "cells_race cs t w \<longleftrightarrow> first_race cs t w \<noteq> None"
  by (auto simp: cells_race_def first_race_def find_None_iff list_ex_iff)

lemma scan_slots_bound:
  "scan_slots cs tid i free = (a, b) \<Longrightarrow> free = None \<or> the free < i + length cs \<Longrightarrow>
    (\<forall>k. a = Some k \<longrightarrow> k < i + length cs) \<and> (\<forall>k. b = Some k \<longrightarrow> k < i + length cs)"
  by (induction cs arbitrary: i free) (fastforce split: if_splits)+

lemma choose_slot_bound: "cs \<noteq> [] \<Longrightarrow> choose_slot cs tid < length cs"
proof -
  assume ne: "cs \<noteq> []"
  obtain a b where s: "scan_slots cs tid 0 None = (a, b)" by fastforce
  from scan_slots_bound [OF s] ne show ?thesis
    by (auto simp: choose_slot_def s split: option.split)
qed

lemma record_cells_ok: "cells_ok cs \<Longrightarrow> cells_ok (record_cells t w loc line cs)"
  by (simp add: cells_ok_def record_cells_def Let_def)

lemma access_state:
  assumes "table_ok s"
  shows "snd (rz_race_access_loc s t addr w loc line) =
    wm.update s (drop_bit 3 addr) (record_cells t w loc line)"
  using wm.locate_none [OF assms word_of_addr]
  by (auto simp: rz_race_access_loc_def wm.update_def Let_def split: prod.split option.split)

lemma access_result:
  assumes "table_ok s"
  shows "fst (rz_race_access_loc s t addr w loc line) =
    (if fst (find_bucket s (drop_bit 3 addr) True) = None then (False, None)
     else (cells_race (word_cells s (drop_bit 3 addr)) t w, first_race (word_cells s (drop_bit 3 addr)) t w))"
  using wm.locate_cell [OF assms word_of_addr]
  by (auto simp: rz_race_access_loc_def Let_def split: prod.split option.split)

lemma access_table_ok: "table_ok s \<Longrightarrow> table_ok (snd (rz_race_access_loc s t addr w loc line))"
  by (simp add: access_state wm.update_ok word_of_addr record_cells_ok)

lemma access_raced:
  assumes "table_ok s" and "fst (fst (rz_race_access_loc s t addr w loc line))"
  obtains c where "c \<in> set (word_cells s (drop_bit 3 addr))" "rz_race_check c (th_tid t) (th_clock t) w"
    "snd (fst (rz_race_access_loc s t addr w loc line)) = Some c"
proof -
  have r: "cells_race (word_cells s (drop_bit 3 addr)) t w"
    and f: "snd (fst (rz_race_access_loc s t addr w loc line)) = first_race (word_cells s (drop_bit 3 addr)) t w"
    using assms by (auto simp: access_result [OF assms(1)] split: if_splits)
  from r obtain c where "first_race (word_cells s (drop_bit 3 addr)) t w = Some c"
    by (auto simp: cells_race_first)
  with f first_race_Some [OF this] show thesis by (intro that) auto
qed

lemma stamped_cases:
  "valid (stamped t w loc line c)" "acc_tid (stamped t w loc line c) = th_tid t"
  "acc_epoch (stamped t w loc line c) = cur_epoch t"
  "acc_write (stamped t w loc line c) = w \<or> (valid c \<and> acc_tid c = th_tid t \<and> acc_epoch c = cur_epoch t
     \<and> acc_write c \<and> acc_write (stamped t w loc line c))"
  by (auto simp: stamped_def Let_def)

text \<open>Every cell after an access is an old cell or the one just written.\<close>

lemma record_cells_member:
  assumes "c \<in> set (record_cells t w loc line cs)"
  shows "c \<in> set cs \<or> (valid c \<and> acc_tid c = th_tid t \<and> acc_epoch c = cur_epoch t
    \<and> (acc_write c = w \<or> (\<exists>d \<in> set cs. valid d \<and> acc_tid d = th_tid t \<and> acc_epoch d = cur_epoch t
         \<and> acc_write d \<and> acc_write c)))"
proof -
  let ?k = "choose_slot cs (th_tid t)"
  have k: "cs ! ?k \<in> set cs" if "cs \<noteq> []" using choose_slot_bound [OF that] by simp
  show ?thesis
  proof (cases "cs = []")
    case True
    then show ?thesis using assms by (simp add: record_cells_def Let_def)
  next
    case False
    have "c \<in> insert (stamped t w loc line (cs ! ?k)) (set cs)"
      using assms set_update_subset_insert [THEN subsetD] by (simp only: record_cells_def Let_def)
    then show ?thesis using k [OF False] stamped_cases [of t w loc line "cs ! ?k"] by blast
  qed
qed

end
