(* ===== verification/Race_Trace.thy ===== *)
theory Race_Trace
  imports Race_Engine
begin

text \<open>
  Executions of the detector as traces of events, the happens-before relation between the
  positions of a trace, and the invariants that tie the engine's clocks and cells to it. The shadow
  may be split over several tables by a routing function, as the runtime does; the single table of
  the engine is the routing that sends every word to one table.
\<close>

section \<open>Configurations and events\<close>

record race_cfg =
  tids :: rz_race_state
  shards :: "nat \<Rightarrow> rz_race_state"
  threads :: "nat \<Rightarrow> rz_thread option"
  syncs :: "u64 \<Rightarrow> rz_sync"

datatype race_event =
    Init (actor: nat)
  | Create (actor: nat) nat
  | Join (actor: nat) nat
  | Release (actor: nat) u64
  | Acquire (actor: nat) u64
  | Access (actor: nat) u64 bool cstr int

definition the_thread :: "race_cfg \<Rightarrow> nat \<Rightarrow> rz_thread" where
  "the_thread c h = (case threads c h of Some t \<Rightarrow> t | None \<Rightarrow> zero_thread)"

text \<open>One event on the configuration, by the engine's operations.\<close>

fun race_step :: "(u64 \<Rightarrow> nat) \<Rightarrow> race_cfg \<Rightarrow> race_event \<Rightarrow> race_cfg" where
  "race_step route c (Init h) =
     (let (s, t) = rz_thread_init (tids c) in c\<lparr>tids := s, threads := (threads c)(h \<mapsto> t)\<rparr>)"
| "race_step route c (Create p k) =
     (let (s, pt, kt) = rz_thread_create (tids c) (the_thread c p) zero_thread in
      c\<lparr>tids := s, threads := (threads c)(p \<mapsto> pt, k \<mapsto> kt)\<rparr>)"
| "race_step route c (Join p k) =
     c\<lparr>threads := (threads c)(p \<mapsto> rz_thread_join (the_thread c p) (the_thread c k))\<rparr>"
| "race_step route c (Release h m) =
     (let (t, s) = rz_mutex_release (the_thread c h) (syncs c m) in
      c\<lparr>threads := (threads c)(h \<mapsto> t), syncs := (syncs c)(m := s)\<rparr>)"
| "race_step route c (Acquire h m) =
     c\<lparr>threads := (threads c)(h \<mapsto> rz_mutex_acquire (the_thread c h) (syncs c m))\<rparr>"
| "race_step route c (Access h addr w loc line) =
     (let k = route (drop_bit 3 addr);
          s = snd (rz_race_access_loc (shards c k) (the_thread c h) addr w loc line) in
      c\<lparr>shards := (shards c)(k := s)\<rparr>)"

text \<open>What an access event reports: the conflicting cell.\<close>

fun event_report :: "(u64 \<Rightarrow> nat) \<Rightarrow> race_cfg \<Rightarrow> race_event \<Rightarrow> rz_access option" where
  "event_report route c (Access h addr w loc line) =
     snd (fst (rz_race_access_loc (shards c (route (drop_bit 3 addr))) (the_thread c h) addr w loc line))"
| "event_report route c e = None"

definition init_cfg :: "(nat \<Rightarrow> rz_race_state) \<Rightarrow> race_cfg" where
  "init_cfg tabs = \<lparr>tids = \<lparr>buckets = None, nbuckets = 0, next_tid = 0\<rparr>, shards = tabs,
     threads = (\<lambda>h. None), syncs = (\<lambda>m. rz_sync_init)\<rparr>"

definition run :: "(u64 \<Rightarrow> nat) \<Rightarrow> (nat \<Rightarrow> rz_race_state) \<Rightarrow> race_event list \<Rightarrow> race_cfg" where
  "run route tabs es = foldl (race_step route) (init_cfg tabs) es"

text \<open>
  A sensible trace: an acting thread exists, a new one is not yet known, a thread joins
  another one. \<open>tables_clean\<close>: the tables start empty.
\<close>

fun enabled :: "race_cfg \<Rightarrow> race_event \<Rightarrow> bool" where
  "enabled c (Init h) \<longleftrightarrow> threads c h = None"
| "enabled c (Create p k) \<longleftrightarrow> threads c p \<noteq> None \<and> threads c k = None"
| "enabled c (Join p k) \<longleftrightarrow> threads c p \<noteq> None \<and> threads c k \<noteq> None"
| "enabled c e \<longleftrightarrow> threads c (actor e) \<noteq> None"

definition valid_trace :: "(u64 \<Rightarrow> nat) \<Rightarrow> (nat \<Rightarrow> rz_race_state) \<Rightarrow> race_event list \<Rightarrow> bool" where
  "valid_trace route tabs es \<longleftrightarrow>
     (\<forall>i < length es. enabled (run route tabs (take i es)) (es ! i))"

definition tables_clean :: "(nat \<Rightarrow> rz_race_state) \<Rightarrow> bool" where
  "tables_clean tabs \<longleftrightarrow>
     (\<forall>k. table_ok (tabs k) \<and> (\<forall>w. words_ok w \<longrightarrow> (\<forall>c \<in> set (word_cells (tabs k) w). \<not> valid c)))"

section \<open>Happens-before\<close>

inductive hb :: "race_event list \<Rightarrow> nat \<Rightarrow> nat \<Rightarrow> bool" for es where
  Program: "i < j \<Longrightarrow> j < length es \<Longrightarrow> actor (es ! i) = actor (es ! j) \<Longrightarrow> hb es i j"
| Sync: "i < j \<Longrightarrow> j < length es \<Longrightarrow> es ! i = Release h m \<Longrightarrow> es ! j = Acquire h' m \<Longrightarrow> hb es i j"
| Fork: "i < j \<Longrightarrow> j < length es \<Longrightarrow> es ! i = Create p k \<Longrightarrow> actor (es ! j) = k \<Longrightarrow> hb es i j"
| Joined: "i < j \<Longrightarrow> j < length es \<Longrightarrow> actor (es ! i) = k \<Longrightarrow> es ! j = Join p k \<Longrightarrow> hb es i j"
| Spawned: "i < j \<Longrightarrow> j < length es \<Longrightarrow> es ! i = Create p k \<Longrightarrow> es ! j = Join q k \<Longrightarrow> hb es i j"
| Trans: "hb es i j \<Longrightarrow> hb es j k \<Longrightarrow> hb es i k"

lemma hb_less: "hb es i j \<Longrightarrow> i < j \<and> j < length es"
  by (induction rule: hb.induct) auto

section \<open>Runs\<close>

lemma run_Nil [simp]: "run route tabs [] = init_cfg tabs"
  by (simp add: run_def)

lemma run_snoc [simp]: "run route tabs (es @ [e]) = race_step route (run route tabs es) e"
  by (simp add: run_def)

lemma run_take_Suc:
  "i < length es \<Longrightarrow> run route tabs (take (Suc i) es) = race_step route (run route tabs (take i es)) (es ! i)"
  by (simp add: take_Suc_conv_app_nth)

lemma valid_trace_snoc:
  "valid_trace route tabs (es @ [e]) \<longleftrightarrow> valid_trace route tabs es \<and> enabled (run route tabs es) e"
proof -
  have "(\<forall>i < Suc (length es). P i) \<longleftrightarrow> (\<forall>i < length es. P i) \<and> P (length es)" for P
    by (auto simp: less_Suc_eq)
  then show ?thesis by (simp add: valid_trace_def nth_append)
qed

lemma valid_trace_take: "valid_trace route tabs es \<Longrightarrow> valid_trace route tabs (take n es)"
  by (auto simp: valid_trace_def min_def)

text \<open>Induction over the prefixes of a valid trace.\<close>

lemma valid_trace_induct [consumes 1, case_names Nil Snoc]:
  assumes "valid_trace route tabs es" and "P []"
    and "\<And>es e. valid_trace route tabs es \<Longrightarrow> enabled (run route tabs es) e \<Longrightarrow> P es \<Longrightarrow> P (es @ [e])"
  shows "P es"
  using assms(1) by (induction es rule: rev_induct) (use assms(2,3) in \<open>auto simp: valid_trace_snoc\<close>)

text \<open>The clock with which a thread acts: after what the event imports, before it moves on.\<close>

fun acting_clock :: "race_cfg \<Rightarrow> race_event \<Rightarrow> rz_vc" where
  "acting_clock c (Init h) = th_clock (snd (rz_thread_init (tids c)))"
| "acting_clock c (Join p k) = rz_vc_join (th_clock (the_thread c p)) (th_clock (the_thread c k))"
| "acting_clock c (Acquire h m) = rz_vc_join (th_clock (the_thread c h)) (sync_clock (syncs c m))"
| "acting_clock c e = th_clock (the_thread c (actor e))"

definition clock_at :: "(u64 \<Rightarrow> nat) \<Rightarrow> (nat \<Rightarrow> rz_race_state) \<Rightarrow> race_event list \<Rightarrow> nat \<Rightarrow> rz_vc" where
  "clock_at route tabs es i = acting_clock (run route tabs (take i es)) (es ! i)"

section \<open>Clocks only grow\<close>

definition cfg_below :: "race_cfg \<Rightarrow> nat \<Rightarrow> bool" where
  "cfg_below c n \<longleftrightarrow> (\<forall>h t. threads c h = Some t \<longrightarrow> vc_below (th_clock t) n)
     \<and> (\<forall>m. vc_below (sync_clock (syncs c m)) n)"

lemmas engine_defs = rz_thread_init_def rz_thread_create_def rz_thread_join_def rz_mutex_release_def
  rz_mutex_acquire_def rz_vc_copy_def Let_def

lemma the_thread_Some [simp]: "threads c h = Some t \<Longrightarrow> the_thread c h = t"
  by (simp add: the_thread_def)

lemma cfg_below_mono: "cfg_below c n \<Longrightarrow> n \<le> m \<Longrightarrow> cfg_below c m"
  by (auto simp: cfg_below_def intro: vc_below_mono)

lemma cfg_below_thread: "cfg_below c n \<Longrightarrow> vc_below (th_clock (the_thread c h)) n"
  by (auto simp: cfg_below_def the_thread_def zero_thread_def split: option.split)

lemma vc_below_tick_le: "vc_below c n \<Longrightarrow> vc_below (rz_vc_tick c tid) (Suc n)"
  by (rule vc_below_tick)

lemma cfg_below_thread_upd:
  "cfg_below c n \<Longrightarrow> threads c' = (threads c)(h \<mapsto> t) \<Longrightarrow> syncs c' = syncs c \<Longrightarrow>
    vc_below (th_clock t) n \<Longrightarrow> cfg_below c' n"
  by (simp add: cfg_below_def)

lemma step_below:
  assumes "cfg_below c n"
  shows "cfg_below (race_step route c e) (Suc n)"
proof -
  have b: "cfg_below c (Suc n)" using assms by (rule cfg_below_mono) simp
  have th: "vc_below (th_clock (the_thread c h)) n" for h using assms by (rule cfg_below_thread)
  have th': "vc_below (th_clock (the_thread c h)) (Suc n)" for h using b by (rule cfg_below_thread)
  have sy: "vc_below (sync_clock (syncs c m)) (Suc n)" for m using b by (simp add: cfg_below_def)
  show ?thesis
  proof (cases e)
    case (Init h)
    then show ?thesis
      by (intro cfg_below_thread_upd [OF b, of _ h "snd (rz_thread_init (tids c))"])
        (simp_all add: engine_defs vc_below_tick)
  next
    case (Create p k)
    have "cfg_below (c\<lparr>threads := (threads c)(p \<mapsto> fst (snd (rz_thread_create (tids c) (the_thread c p) zero_thread)))\<rparr>) (Suc n)"
      by (rule cfg_below_thread_upd [OF b, of _ p "fst (snd (rz_thread_create (tids c) (the_thread c p) zero_thread))"])
        (simp_all add: engine_defs vc_below_tick th)
    then show ?thesis
      by (rule cfg_below_thread_upd [of _ _ _ k "snd (snd (rz_thread_create (tids c) (the_thread c p) zero_thread))"])
        (simp_all add: Create engine_defs vc_below_tick th)
  next
    case (Join p k)
    then show ?thesis by (intro cfg_below_thread_upd [OF b]) (auto simp: engine_defs th')
  next
    case (Release h m)
    have "vc_below (th_clock (fst (rz_mutex_release (the_thread c h) (syncs c m)))) (Suc n)"
      by (simp add: engine_defs vc_below_tick th)
    moreover have "vc_below (sync_clock (snd (rz_mutex_release (the_thread c h) (syncs c m)))) (Suc n)"
      by (simp add: engine_defs th' sy)
    ultimately show ?thesis using b by (simp add: cfg_below_def Release split_beta)
  next
    case (Acquire h m)
    then show ?thesis by (intro cfg_below_thread_upd [OF b]) (auto simp: engine_defs th' sy)
  next
    case (Access h addr w loc line)
    then show ?thesis using b by (simp add: cfg_below_def Let_def)
  qed
qed

lemma run_below: "cfg_below (run route tabs es) (length es)"
proof (induction es rule: rev_induct)
  case Nil
  then show ?case by (simp add: cfg_below_def init_cfg_def rz_sync_init_def)
next
  case (snoc e es)
  then show ?case using step_below by simp
qed

definition cfg_le :: "race_cfg \<Rightarrow> race_cfg \<Rightarrow> bool" where
  "cfg_le c c' \<longleftrightarrow> (\<forall>h t. threads c h = Some t \<longrightarrow>
       (\<exists>t'. threads c' h = Some t' \<and> th_tid t' = th_tid t \<and> vc_le (th_clock t) (th_clock t')))
     \<and> (\<forall>m. vc_le (sync_clock (syncs c m)) (sync_clock (syncs c' m)))"

lemma cfg_le_refl: "cfg_le c c"
  by (auto simp: cfg_le_def intro: vc.le_refl)

lemma cfg_le_thread:
  "cfg_le c c' \<Longrightarrow> threads c h = Some t \<Longrightarrow>
    \<exists>t'. threads c' h = Some t' \<and> th_tid t' = th_tid t \<and> vc_le (th_clock t) (th_clock t')"
  by (simp add: cfg_le_def)

lemma cfg_le_trans:
  assumes "cfg_le a b" and "cfg_le b c"
  shows "cfg_le a c"
  unfolding cfg_le_def
proof (intro conjI allI impI)
  fix h t assume "threads a h = Some t"
  then obtain t1 where 1: "threads b h = Some t1" "th_tid t1 = th_tid t" "vc_le (th_clock t) (th_clock t1)"
    using cfg_le_thread [OF assms(1)] by blast
  then obtain t2 where "threads c h = Some t2" "th_tid t2 = th_tid t1" "vc_le (th_clock t1) (th_clock t2)"
    using cfg_le_thread [OF assms(2)] by blast
  with 1 show "\<exists>t'. threads c h = Some t' \<and> th_tid t' = th_tid t \<and> vc_le (th_clock t) (th_clock t')"
    by (auto intro: vc.le_trans)
next
  fix m
  show "vc_le (sync_clock (syncs a m)) (sync_clock (syncs c m))"
    using assms by (auto simp: cfg_le_def intro: vc.le_trans)
qed

lemma cfg_leD:
  assumes "cfg_le c c'" and "threads c h \<noteq> None"
  shows "threads c' h \<noteq> None" "th_tid (the_thread c' h) = th_tid (the_thread c h)"
    "vc_le (th_clock (the_thread c h)) (th_clock (the_thread c' h))"
proof -
  obtain t where t: "threads c h = Some t" using assms(2) by auto
  with assms(1) obtain t' where "threads c' h = Some t'" "th_tid t' = th_tid t" "vc_le (th_clock t) (th_clock t')"
    using cfg_le_thread by blast
  with t show "threads c' h \<noteq> None" "th_tid (the_thread c' h) = th_tid (the_thread c h)"
    "vc_le (th_clock (the_thread c h)) (th_clock (the_thread c' h))" by auto
qed

text \<open>Changing one thread upwards, or adding one.\<close>

lemma cfg_le_thread_upd:
  assumes "threads c' = (threads c)(h \<mapsto> t)" and "\<And>m. vc_le (sync_clock (syncs c m)) (sync_clock (syncs c' m))"
    and "threads c h = None \<or> th_tid t = th_tid (the_thread c h) \<and> vc_le (th_clock (the_thread c h)) (th_clock t)"
  shows "cfg_le c c'"
  using assms by (auto simp: cfg_le_def vc.le_refl)

lemma step_le:
  assumes "cfg_below c n" and "n < 18446744073709551615" and "enabled c e"
  shows "cfg_le c (race_step route c e)"
proof -
  have tick: "vc_le (th_clock (the_thread c h)) (rz_vc_tick (th_clock (the_thread c h)) tid)" for h tid
    using cfg_below_thread [OF assms(1)] assms(2) by (rule tick_le_below)
  have tick': "vc_le (th_clock y) (rz_vc_tick (th_clock y) tid)" if "threads c h = Some y" for h y tid
    using tick [of h tid] that by simp
  show ?thesis
  proof (cases e)
    case (Init h)
    then show ?thesis
      using assms(3) by (intro cfg_le_thread_upd [of _ c h]) (auto simp: engine_defs vc.le_refl)
  next
    case (Create p k)
    let ?c = "c\<lparr>threads := (threads c)(p \<mapsto> fst (snd (rz_thread_create (tids c) (the_thread c p) zero_thread)))\<rparr>"
    have "cfg_le c ?c"
      by (rule cfg_le_thread_upd [of _ c p]) (auto simp: engine_defs vc.le_refl tick tick')
    moreover have "cfg_le ?c (race_step route c e)"
      by (rule cfg_le_thread_upd [of _ ?c k])
        (use assms(3) in \<open>auto simp: Create engine_defs vc.le_refl\<close>)
    ultimately show ?thesis by (rule cfg_le_trans)
  next
    case (Join p k)
    then show ?thesis
      by (intro cfg_le_thread_upd [of _ c p]) (auto simp: engine_defs vc.le_refl vc.join_left)
  next
    case (Release h m)
    then show ?thesis
      by (intro cfg_le_thread_upd [of _ c h]) (auto simp: engine_defs vc.le_refl vc.join_left tick tick')
  next
    case (Acquire h m)
    then show ?thesis
      by (intro cfg_le_thread_upd [of _ c h]) (auto simp: engine_defs vc.le_refl vc.join_left)
  next
    case (Access h addr w loc line)
    then show ?thesis by (auto simp: cfg_le_def Let_def vc.le_refl)
  qed
qed

text \<open>From one position of a trace to a later one.\<close>

lemma run_le:
  assumes v: "valid_trace route tabs es" and len: "length es \<le> 18446744073709551615"
    and ij: "i \<le> j" "j \<le> length es"
  shows "cfg_le (run route tabs (take i es)) (run route tabs (take j es))"
  using ij
proof (induction j)
  case 0
  then show ?case by (simp add: cfg_le_refl)
next
  case (Suc j)
  show ?case
  proof (cases "i = Suc j")
    case True
    then show ?thesis by (simp add: cfg_le_refl)
  next
    case False
    then have "cfg_le (run route tabs (take i es)) (run route tabs (take j es))" using Suc by simp
    moreover have "cfg_below (run route tabs (take j es)) j"
      using run_below [of route tabs "take j es"] Suc.prems by simp
    then have "cfg_le (run route tabs (take j es)) (race_step route (run route tabs (take j es)) (es ! j))"
      by (rule step_le) (use v len Suc.prems in \<open>auto simp: valid_trace_def\<close>)
    then have "cfg_le (run route tabs (take j es)) (run route tabs (take (Suc j) es))"
      using Suc.prems by (simp add: run_take_Suc)
    ultimately show ?thesis by (rule cfg_le_trans)
  qed
qed

end
