(* ===== verification/Race_Order.thy ===== *)
theory Race_Order
  imports Race_Trace
begin

text \<open>
  The engine's clocks against the happens-before relation of the trace: an ordered pair of events
  has ordered clocks, every shadow cell stands for an access of the trace, and so a reported race is
  a conflicting pair of accesses that no chain of program order and synchronization orders.
\<close>

section \<open>One event\<close>

lemma acting_post:
  assumes b: "cfg_below c n" "n < 18446744073709551615" and e: "enabled c e"
  shows "threads (race_step route c e) (actor e) \<noteq> None"
    and "vc_le (acting_clock c e) (th_clock (the_thread (race_step route c e) (actor e)))"
proof -
  have tick: "vc_le (th_clock (the_thread c h)) (rz_vc_tick (th_clock (the_thread c h)) tid)" for h tid
    using cfg_below_thread [OF b(1)] b(2) by (rule tick_le_below)
  show "threads (race_step route c e) (actor e) \<noteq> None"
    using e by (cases e) (auto simp: engine_defs)
  show "vc_le (acting_clock c e) (th_clock (the_thread (race_step route c e) (actor e)))"
  proof (cases e)
    case (Create p k)
    then have "p \<noteq> k" using e by auto
    with Create tick show ?thesis by (simp add: engine_defs the_thread_def [of "_\<lparr>tids := _, threads := _\<rparr>"])
  next
    case (Release h m)
    with tick show ?thesis by (simp add: engine_defs the_thread_def [of "_\<lparr>threads := _, syncs := _\<rparr>"])
  qed (simp_all add: engine_defs vc.le_refl the_thread_def [of "_\<lparr>threads := _\<rparr>"]
      the_thread_def [of "_\<lparr>tids := _, threads := _\<rparr>"] the_thread_def [of "_\<lparr>shards := _\<rparr>"]
      the_thread_def [of c])
qed

lemma acting_pre:
  assumes "enabled c e" and "threads c (actor e) \<noteq> None"
  shows "vc_le (th_clock (the_thread c (actor e))) (acting_clock c e)"
  using assms by (cases e) (simp_all add: vc.le_refl vc.join_left)

lemma acting_release:
  "vc_le (acting_clock c (Release h m)) (sync_clock (syncs (race_step route c (Release h m)) m))"
  by (simp add: engine_defs vc.join_right)

lemma acting_acquire: "vc_le (sync_clock (syncs c m)) (acting_clock c (Acquire h m))"
  by (simp add: vc.join_right)

lemma acting_create:
  assumes b: "cfg_below c n" "n < 18446744073709551615"
  shows "threads (race_step route c (Create p k)) k \<noteq> None"
    and "vc_le (acting_clock c (Create p k)) (th_clock (the_thread (race_step route c (Create p k)) k))"
  using tick_le_below [OF cfg_below_thread [OF b(1)] b(2)]
  by (simp_all add: engine_defs the_thread_def [of "_\<lparr>tids := _, threads := _\<rparr>"])

lemma acting_join: "vc_le (th_clock (the_thread c k)) (acting_clock c (Join p k))"
  by (simp add: vc.join_right)

section \<open>Ordered events have ordered clocks\<close>

text \<open>What holds at each position of a valid trace that is too short for an epoch to wrap around.\<close>

definition good_trace :: "(u64 \<Rightarrow> nat) \<Rightarrow> (nat \<Rightarrow> rz_race_state) \<Rightarrow> race_event list \<Rightarrow> bool" where
  "good_trace route tabs es \<longleftrightarrow> valid_trace route tabs es \<and> length es < 18446744073709551615"

lemma good_at:
  assumes g: "good_trace route tabs es" and i: "i < length es"
  shows "enabled (run route tabs (take i es)) (es ! i)"
    and "cfg_below (run route tabs (take i es)) i" and "i < 18446744073709551615"
  using assms run_below [of route tabs "take i es"] by (auto simp: good_trace_def valid_trace_def)

lemma good_le:
  "good_trace route tabs es \<Longrightarrow> i \<le> j \<Longrightarrow> j \<le> length es \<Longrightarrow>
    cfg_le (run route tabs (take i es)) (run route tabs (take j es))"
  by (rule run_le) (auto simp: good_trace_def)

lemma good_next:
  assumes "good_trace route tabs es" and "i < j" and "j \<le> length es"
  shows "cfg_le (race_step route (run route tabs (take i es)) (es ! i)) (run route tabs (take j es))"
  using good_le [OF assms(1), of "Suc i" j] assms(2,3) by (simp add: run_take_Suc)

text \<open>A clock an entity holds after event \<open>i\<close> is below the clock of a later event that acts as, or
  imports from, that entity.\<close>

lemma later_thread:
  assumes g: "good_trace route tabs es" and ij: "i < j" "j < length es"
    and t: "threads (race_step route (run route tabs (take i es)) (es ! i)) h \<noteq> None"
    and le: "vc_le cl (th_clock (the_thread (race_step route (run route tabs (take i es)) (es ! i)) h))"
  shows "threads (run route tabs (take j es)) h \<noteq> None"
    and "vc_le cl (th_clock (the_thread (run route tabs (take j es)) h))"
proof -
  have n: "cfg_le (race_step route (run route tabs (take i es)) (es ! i)) (run route tabs (take j es))"
    using good_next [OF g ij(1)] ij(2) by simp
  show "threads (run route tabs (take j es)) h \<noteq> None" using cfg_leD(1) [OF n t] .
  show "vc_le cl (th_clock (the_thread (run route tabs (take j es)) h))"
    using vc.le_trans [OF le cfg_leD(3) [OF n t]] .
qed

lemma hb_clock:
  assumes g: "good_trace route tabs es" and "hb es i j"
  shows "vc_le (clock_at route tabs es i) (clock_at route tabs es j)"
  using assms(2)
proof (induction rule: hb.induct)
  case (Program i j)
  have i: "i < length es" using Program by simp
  note a = acting_post [OF good_at(2,3,1) [OF g i], where route = route]
  from later_thread [OF g Program(1,2) a] Program(3)
  have "threads (run route tabs (take j es)) (actor (es ! j)) \<noteq> None"
    and "vc_le (clock_at route tabs es i) (th_clock (the_thread (run route tabs (take j es)) (actor (es ! j))))"
    by (simp_all add: clock_at_def)
  with acting_pre [OF good_at(1) [OF g Program(2)]] show ?case
    by (auto simp: clock_at_def intro: vc.le_trans)
next
  case (Sync i j h m h')
  let ?c = "run route tabs (take i es)" and ?d = "run route tabs (take j es)"
  have "vc_le (clock_at route tabs es i) (sync_clock (syncs (race_step route ?c (es ! i)) m))"
    using acting_release [of ?c h m route] Sync(3) by (simp add: clock_at_def)
  moreover have "vc_le (sync_clock (syncs (race_step route ?c (es ! i)) m)) (sync_clock (syncs ?d m))"
    using good_next [OF g Sync(1)] Sync(2) by (simp add: cfg_le_def)
  moreover have "vc_le (sync_clock (syncs ?d m)) (clock_at route tabs es j)"
    using acting_acquire [of ?d m h'] Sync(4) by (simp add: clock_at_def)
  ultimately show ?case by (blast intro: vc.le_trans)
next
  case (Fork i j p k)
  have i: "i < length es" using Fork by simp
  note a = acting_create [OF good_at(2,3) [OF g i], where route = route and p = p and k = k]
  have "threads (run route tabs (take j es)) (actor (es ! j)) \<noteq> None"
    and "vc_le (clock_at route tabs es i) (th_clock (the_thread (run route tabs (take j es)) (actor (es ! j))))"
    using later_thread [OF g Fork(1,2), of k "clock_at route tabs es i"] a Fork(3,4)
    by (simp_all add: clock_at_def)
  with acting_pre [OF good_at(1) [OF g Fork(2)]] show ?case
    by (auto simp: clock_at_def intro: vc.le_trans)
next
  case (Joined i j k p)
  have i: "i < length es" using Joined by simp
  note a = acting_post [OF good_at(2,3,1) [OF g i], where route = route]
  from later_thread(2) [OF g Joined(1,2) a] Joined(3)
  have "vc_le (clock_at route tabs es i) (th_clock (the_thread (run route tabs (take j es)) k))"
    by (simp add: clock_at_def)
  moreover have "vc_le (th_clock (the_thread (run route tabs (take j es)) k)) (clock_at route tabs es j)"
    using acting_join [of "run route tabs (take j es)" k p] Joined(4) by (simp add: clock_at_def)
  ultimately show ?case by (rule vc.le_trans)
next
  case (Spawned i j p k q)
  have i: "i < length es" using Spawned by simp
  note a = acting_create [OF good_at(2,3) [OF g i], where route = route and p = p and k = k]
  have "vc_le (clock_at route tabs es i) (th_clock (the_thread (run route tabs (take j es)) k))"
    using later_thread(2) [OF g Spawned(1,2), of k "clock_at route tabs es i"] a Spawned(3)
    by (simp add: clock_at_def)
  moreover have "vc_le (th_clock (the_thread (run route tabs (take j es)) k)) (clock_at route tabs es j)"
    using acting_join [of "run route tabs (take j es)" k q] Spawned(4) by (simp add: clock_at_def)
  ultimately show ?case by (rule vc.le_trans)
next
  case (Trans i j k)
  then show ?case by (blast intro: vc.le_trans)
qed

section \<open>Cells stand for accesses\<close>

text \<open>An access of the trace that a cell of a word may stand for: same word, same kind, the thread's
  identifier and, for a tracked thread, its epoch.\<close>

definition cell_source ::
  "(u64 \<Rightarrow> nat) \<Rightarrow> (nat \<Rightarrow> rz_race_state) \<Rightarrow> race_event list \<Rightarrow> u64 \<Rightarrow> rz_access \<Rightarrow> nat \<Rightarrow> bool" where
  "cell_source route tabs es word c i \<longleftrightarrow> i < length es
     \<and> (\<exists>h addr loc line. es ! i = Access h addr (acc_write c) loc line \<and> drop_bit 3 addr = word
          \<and> th_tid (the_thread (run route tabs (take i es)) h) = acc_tid c)
     \<and> (tid_ok (acc_tid c) \<longrightarrow> clock_at route tabs es i (nat (acc_tid c)) = acc_epoch c)"

lemma cell_source_snoc:
  "cell_source route tabs es word c i \<Longrightarrow> cell_source route tabs (es @ [e]) word c i"
  by (auto simp: cell_source_def nth_append clock_at_def)

lemma cell_source_write:
  "cell_source route tabs es word d i \<Longrightarrow> acc_tid c = acc_tid d \<Longrightarrow> acc_epoch c = acc_epoch d \<Longrightarrow>
    acc_write c = acc_write d \<Longrightarrow> cell_source route tabs es word c i"
  by (simp add: cell_source_def)

definition tables_ok :: "race_cfg \<Rightarrow> bool" where
  "tables_ok c \<longleftrightarrow> (\<forall>k. table_ok (shards c k))"

lemma step_tables_ok: "tables_ok c \<Longrightarrow> tables_ok (race_step route c e)"
  by (cases e) (auto simp: tables_ok_def engine_defs access_table_ok)

lemma run_tables_ok: "tables_clean tabs \<Longrightarrow> tables_ok (run route tabs es)"
proof (induction es rule: rev_induct)
  case Nil
  then show ?case by (simp add: tables_ok_def tables_clean_def init_cfg_def)
next
  case (snoc e es)
  then show ?case by (simp add: step_tables_ok)
qed

lemma cells_sound:
  assumes cl: "tables_clean tabs"
  shows "words_ok w \<Longrightarrow> c \<in> set (word_cells (shards (run route tabs es) k) w) \<Longrightarrow> valid c \<Longrightarrow>
    \<exists>i. cell_source route tabs es w c i"
proof (induction es arbitrary: c w k rule: rev_induct)
  case Nil
  then show ?case using cl by (auto simp: tables_clean_def init_cfg_def)
next
  case (snoc e es)
  let ?c = "run route tabs es"
  have old: "\<exists>i. cell_source route tabs (es @ [e]) w d i"
    if "d \<in> set (word_cells (shards ?c k) w)" "valid d" for d
    using snoc.IH [OF snoc.prems(1) that] cell_source_snoc by blast
  show ?case
  proof (cases "\<exists>h addr wr loc line. e = Access h addr wr loc line \<and> k = route (drop_bit 3 addr) \<and> w = drop_bit 3 addr")
    case False
    have "word_cells (shards (race_step route ?c e) k) w = word_cells (shards ?c k) w"
    proof (cases e)
      case (Access h addr wr loc line)
      have ok: "table_ok (shards ?c k)" for k using run_tables_ok [OF cl] by (simp add: tables_ok_def)
      show ?thesis
        using False Access wm.update_look [OF ok word_of_addr snoc.prems(1) record_cells_ok]
        by (auto simp: Let_def access_state [OF ok])
    qed (simp_all add: engine_defs)
    with snoc.prems old show ?thesis by simp
  next
    case True
    then obtain h addr wr loc line where e: "e = Access h addr wr loc line" "k = route (drop_bit 3 addr)"
      "w = drop_bit 3 addr" by blast
    have ok: "table_ok (shards ?c k)" using run_tables_ok [OF cl] by (simp add: tables_ok_def)
    let ?t = "the_thread ?c h" and ?old = "word_cells (shards ?c k) w"
    have "word_cells (shards (race_step route ?c e) k) w = record_cells ?t wr loc line ?old
        \<or> word_cells (shards (race_step route ?c e) k) w = ?old"
    proof -
      have sh: "shards (race_step route ?c e) k = wm.update (shards ?c k) w (record_cells ?t wr loc line)"
        using access_state [OF ok] by (simp add: e Let_def)
      show ?thesis
        unfolding sh using wm.update_look [OF ok snoc.prems(1,1), of "record_cells ?t wr loc line"] record_cells_ok
        by simp
    qed
    then have "c \<in> set (record_cells ?t wr loc line ?old) \<or> c \<in> set ?old" using snoc.prems(2) by auto
    then consider "c \<in> set ?old"
      | "valid c" "acc_tid c = th_tid ?t" "acc_epoch c = cur_epoch ?t" "acc_write c = wr"
      | d where "d \<in> set ?old" "valid d" "acc_tid d = th_tid ?t" "acc_epoch d = cur_epoch ?t" "acc_write d"
        "acc_tid c = th_tid ?t" "acc_epoch c = cur_epoch ?t" "acc_write c"
      using record_cells_member [of c ?t wr loc line ?old] by blast
    then show ?thesis
    proof cases
      case 1
      then show ?thesis using old snoc.prems(3) by blast
    next
      case 2
      then have "cell_source route tabs (es @ [e]) w c (length es)"
        by (auto simp: cell_source_def e clock_at_def cur_epoch_def)
      then show ?thesis by blast
    next
      case 3
      obtain i where "cell_source route tabs (es @ [e]) w d i" using old [OF 3(1,2)] by blast
      then have "cell_source route tabs (es @ [e]) w c i"
        by (rule cell_source_write) (simp_all only: 3)
      then show ?thesis by blast
    qed
  qed
qed

section \<open>A reported race is a race\<close>

lemma report_sound:
  assumes g: "good_trace route tabs es" and cl: "tables_clean tabs"
    and j: "j < length es" "es ! j = Access h addr w loc line"
    and r: "event_report route (run route tabs (take j es)) (es ! j) = Some p"
  shows "\<exists>i h' addr' w' loc' line'. i < j \<and> es ! i = Access h' addr' w' loc' line'
    \<and> drop_bit 3 addr' = drop_bit 3 addr \<and> h' \<noteq> h \<and> (w \<or> w') \<and> w' = acc_write p \<and> \<not> hb es i j"
proof -
  let ?c = "run route tabs (take j es)" and ?word = "drop_bit 3 addr"
  let ?s = "shards ?c (route ?word)" and ?t = "the_thread ?c h"
  have ok: "table_ok ?s" using run_tables_ok [OF cl] by (simp add: tables_ok_def)
  have "first_race (word_cells ?s ?word) ?t w = Some p"
    using r by (simp add: j(2) access_result [OF ok] split: if_splits)
  from first_race_Some [OF this]
  have p: "p \<in> set (word_cells ?s ?word)" "rz_race_check p (th_tid ?t) (th_clock ?t) w" by auto
  then have v: "valid p" "acc_tid p \<noteq> th_tid ?t" "acc_write p \<or> w" "tid_ok (acc_tid p)"
    "th_clock ?t (nat (acc_tid p)) < acc_epoch p"
    by (auto simp: race_check_iff)
  obtain i where src: "cell_source route tabs (take j es) ?word p i"
    using cells_sound [OF cl word_of_addr p(1) v(1)] by blast
  then have i: "i < j" using j(1) by (simp add: cell_source_def)
  from src obtain h' addr' loc' line' where e: "es ! i = Access h' addr' (acc_write p) loc' line'"
    "drop_bit 3 addr' = ?word" "th_tid (the_thread (run route tabs (take i es)) h') = acc_tid p"
    using i by (auto simp: cell_source_def min_def)
  have ep: "clock_at route tabs es i (nat (acc_tid p)) = acc_epoch p"
    using src v(4) i by (simp add: cell_source_def clock_at_def min_def)
  have cj: "clock_at route tabs es j = th_clock ?t" by (simp add: clock_at_def j(2))
  have "\<not> vc_le (clock_at route tabs es i) (clock_at route tabs es j)"
  proof
    assume "vc_le (clock_at route tabs es i) (clock_at route tabs es j)"
    from vc_leD [OF this tid_okD [OF v(4)]] ep cj v(5) show False by simp
  qed
  then have nhb: "\<not> hb es i j" using hb_clock [OF g] by blast
  have "h' \<noteq> h" using nhb i j e(1) by (auto intro: hb.Program)
  with i e nhb v(3) show ?thesis by blast
qed

end
