(* ===== verification/Race_Complete.thy ===== *)
theory Race_Complete
  imports Race_Order
begin

text \<open>
  The converse of \<open>Race_Order\<close>: when a clock covers the epoch of an earlier access, the two events
  are ordered by the trace. The epoch of a running thread is ahead of what every other clock knows of
  it, and knowledge of it travels only along the edges of happens-before.
\<close>

section \<open>Clock components\<close>

definition known :: "race_cfg \<Rightarrow> int \<Rightarrow> nat \<Rightarrow> u64" where
  "known c T h = th_clock (the_thread c h) (nat T)"

definition held :: "race_cfg \<Rightarrow> int \<Rightarrow> u64 \<Rightarrow> u64" where
  "held c T m = sync_clock (syncs c m) (nat T)"

definition tid_of :: "race_cfg \<Rightarrow> nat \<Rightarrow> int" where
  "tid_of c h = th_tid (the_thread c h)"

lemmas comp_defs = known_def held_def tid_of_def the_thread_def rz_vc_tick_def rz_vc_init_def rz_vc_join_def
  engine_defs zero_thread_def

lemma tid_ok_nat: "tid_ok T \<Longrightarrow> tid_ok S \<Longrightarrow> nat T = nat S \<longleftrightarrow> T = S"
  by (auto simp: tid_ok_def)

lemma known_step:
  assumes "tid_ok T" and "enabled c e"
  shows "known (race_step route c e) T h =
    (case e of
       Init k \<Rightarrow> if h = k then (if T = next_tid (tids c) then 1 else 0) else known c T h
     | Create p k \<Rightarrow>
         if h = k then (if T = next_tid (tids c) then known c T p + 1 else known c T p)
         else if h = p \<and> T = tid_of c p then known c T h + 1 else known c T h
     | Join p k \<Rightarrow> if h = p then max (known c T p) (known c T k) else known c T h
     | Release k m \<Rightarrow> if h = k \<and> T = tid_of c k then known c T h + 1 else known c T h
     | Acquire k m \<Rightarrow> if h = k then max (known c T k) (held c T m) else known c T h
     | Access k a w f l \<Rightarrow> known c T h)"
  using assms tid_okD [OF assms(1)]
  by (cases e) (auto simp: comp_defs max_def tid_ok_nat tid_ok_def split: if_splits)

lemma held_step:
  assumes "tid_ok T"
  shows "held (race_step route c e) T m =
    (case e of Release k m' \<Rightarrow> if m = m' then max (held c T m) (known c T k) else held c T m | _ \<Rightarrow> held c T m)"
  using assms tid_okD [OF assms(1)]
  by (cases e) (auto simp: comp_defs max_def split: if_splits)

lemma tid_step:
  "enabled c e \<Longrightarrow> tid_of (race_step route c e) h =
    (case e of Init k \<Rightarrow> if h = k then next_tid (tids c) else tid_of c h
     | Create p k \<Rightarrow> if h = k then next_tid (tids c) else tid_of c h | _ \<Rightarrow> tid_of c h)"
  by (cases e) (auto simp: comp_defs)

lemma threads_step:
  "enabled c e \<Longrightarrow> threads (race_step route c e) h \<noteq> None \<longleftrightarrow>
    threads c h \<noteq> None \<or> (case e of Init k \<Rightarrow> h = k | Create p k \<Rightarrow> h = k | _ \<Rightarrow> False)"
  by (cases e) (auto simp: comp_defs)

lemma next_tid_step:
  "next_tid (tids (race_step route c e)) =
    (case e of Init k \<Rightarrow> next_tid (tids c) + 1 | Create p k \<Rightarrow> next_tid (tids c) + 1 | _ \<Rightarrow> next_tid (tids c))"
  by (cases e) (auto simp: comp_defs)

section \<open>Thread identifiers\<close>

definition tids_ok :: "race_cfg \<Rightarrow> bool" where
  "tids_ok c \<longleftrightarrow> 0 \<le> next_tid (tids c)
     \<and> (\<forall>h. threads c h \<noteq> None \<longrightarrow> 0 \<le> tid_of c h \<and> tid_of c h < next_tid (tids c))
     \<and> (\<forall>h h'. threads c h \<noteq> None \<longrightarrow> threads c h' \<noteq> None \<longrightarrow> tid_of c h = tid_of c h' \<longrightarrow> h = h')
     \<and> (\<forall>T. tid_ok T \<longrightarrow> next_tid (tids c) \<le> T \<longrightarrow> (\<forall>h. known c T h = 0) \<and> (\<forall>m. held c T m = 0))"

lemma tids_ok_step: 
  assumes ok: "tids_ok c" and e: "enabled c e"
  shows "tids_ok (race_step route c e)"
proof -
  have lt: "0 \<le> tid_of c h \<and> tid_of c h < next_tid (tids c)" if "threads c h \<noteq> None" for h
    using ok that by (simp add: tids_ok_def)
  have inj: "h = h'" if "threads c h \<noteq> None" "threads c h' \<noteq> None" "tid_of c h = tid_of c h'" for h h'
    using ok that by (simp add: tids_ok_def)
  have zero: "known c T h = 0" "held c T m = 0" if "tid_ok T" "next_tid (tids c) \<le> T" for T h m
    using ok that by (simp_all add: tids_ok_def)
  have n: "0 \<le> next_tid (tids c)" using ok by (simp add: tids_ok_def)
  let ?c = "race_step route c e"
  define new where "new h \<longleftrightarrow> e = Init h \<or> (\<exists>p. e = Create p h)" for h
  have th: "threads ?c h \<noteq> None \<longleftrightarrow> threads c h \<noteq> None \<or> new h"
    and td: "tid_of ?c h = (if new h then next_tid (tids c) else tid_of c h)" for h
    unfolding threads_step [OF e] tid_step [OF e] new_def by (cases e; auto)+
  have nt: "next_tid (tids c) \<le> next_tid (tids ?c)" "new h \<Longrightarrow> next_tid (tids c) < next_tid (tids ?c)"
    and one: "new h \<Longrightarrow> new h' \<Longrightarrow> h = h'" for h h'
    unfolding next_tid_step new_def by (cases e; auto)+
  have 1: "0 \<le> tid_of ?c h \<and> tid_of ?c h < next_tid (tids ?c)" if "threads ?c h \<noteq> None" for h
  proof (cases "new h")
    case True
    then show ?thesis using n nt(2) by (simp add: td)
  next
    case False
    then have "threads c h \<noteq> None" using that th [of h] by blast
    from lt [OF this] show ?thesis using nt(1) False by (simp add: td)
  qed
  have 2: "h = h'" if "threads ?c h \<noteq> None" "threads ?c h' \<noteq> None" "tid_of ?c h = tid_of ?c h'" for h h'
  proof (cases "new h \<or> new h'")
    case True
    moreover have "tid_of c k < next_tid (tids c)" if "threads ?c k \<noteq> None" "\<not> new k" for k
      using that lt [of k] th [of k] by blast
    ultimately show ?thesis using that one [of h h'] td less_irrefl by metis
  next
    case False
    then have "threads c h \<noteq> None" "threads c h' \<noteq> None" "tid_of c h = tid_of c h'"
      using that th [of h] th [of h'] by (blast, blast, simp add: td)
    then show ?thesis by (rule inj)
  qed
  have 3: "known ?c T h = 0" "held ?c T m = 0" if T: "tid_ok T" "next_tid (tids ?c) \<le> T" for T h m
  proof -
    have le: "next_tid (tids c) \<le> T" "e = Init k \<Longrightarrow> next_tid (tids c) \<noteq> T"
      "e = Create p k \<Longrightarrow> next_tid (tids c) \<noteq> T" for p k
      using T(2) unfolding next_tid_step by (auto split: race_event.splits)
    have "threads c p \<noteq> None \<Longrightarrow> T \<noteq> tid_of c p" for p using lt [of p] le(1) by auto
    then show "known ?c T h = 0" "held ?c T m = 0"
      unfolding known_step [OF T(1) e] held_step [OF T(1)]
      using zero [OF T(1) le(1)] le(2,3) e by (cases e; simp)+
  qed
  show ?thesis
    unfolding tids_ok_def using n 1 2 3 by (auto simp: next_tid_step split: race_event.split)
qed

section \<open>A running thread is ahead\<close>

definition retired :: "race_event list \<Rightarrow> nat \<Rightarrow> bool" where
  "retired es k \<longleftrightarrow> (\<exists>p. Join p k \<in> set es)"

definition ahead :: "race_cfg \<Rightarrow> (nat \<Rightarrow> bool) \<Rightarrow> bool" where
  "ahead c J \<longleftrightarrow> (\<forall>h. threads c h \<noteq> None \<longrightarrow> \<not> J h \<longrightarrow> tid_ok (tid_of c h) \<longrightarrow>
     (\<forall>h'. h' \<noteq> h \<longrightarrow> known c (tid_of c h) h' < known c (tid_of c h) h)
     \<and> (\<forall>m. held c (tid_of c h) m < known c (tid_of c h) h))"

lemma known_succ:
  assumes "cfg_below c n" and "n < 18446744073709551615" and "tid_ok T"
  shows "known c T h < known c T h + 1"
proof -
  have "unat (known c T h) \<le> n"
    using cfg_below_thread [OF assms(1), of h] tid_okD [OF assms(3)] by (simp add: vc_below_def known_def)
  then show ?thesis using assms(2) by (simp add: word_less_nat_alt unat_plus64)
qed

lemma ahead_step:
  assumes ah: "ahead c J" and ok: "tids_ok c" and e: "enabled c e" and act: "\<not> J (actor e)"
    and b: "cfg_below c n" "n < 18446744073709551615"
    and J': "\<And>h. J' h \<longleftrightarrow> J h \<or> (\<exists>p. e = Join p h)"
  shows "ahead (race_step route c e) J'"
  unfolding ahead_def
proof (intro allI impI)
  let ?c = "race_step route c e"
  fix h assume h: "threads ?c h \<noteq> None" and j: "\<not> J' h" and t: "tid_ok (tid_of ?c h)"
  show "(\<forall>h'. h' \<noteq> h \<longrightarrow> known ?c (tid_of ?c h) h' < known ?c (tid_of ?c h) h)
     \<and> (\<forall>m. held ?c (tid_of ?c h) m < known ?c (tid_of ?c h) h)"
  proof (cases "threads c h = None")
    case True
    have n: "tid_of ?c h = next_tid (tids c)"
      using h True e unfolding threads_step [OF e] tid_step [OF e] by (cases e) auto
    have T: "tid_ok (next_tid (tids c))" using t n by simp
    have z: "known c (next_tid (tids c)) h' = 0" "held c (next_tid (tids c)) m = 0" for h' m
      using ok T by (simp_all add: tids_ok_def)
    have p: "threads c p \<noteq> None \<Longrightarrow> next_tid (tids c) \<noteq> tid_of c p" for p
      using ok by (force simp: tids_ok_def)
    show ?thesis
      using h True e p unfolding n known_step [OF T e] held_step [OF T] threads_step [OF e]
      by (cases e) (auto simp: z)
  next
    case False
    have n: "tid_of ?c h = tid_of c h" using False e unfolding tid_step [OF e] by (cases e) auto
    have T: "tid_ok (tid_of c h)" using t n by simp
    have nj: "\<not> J h" using j J' by blast
    have a: "h' \<noteq> h \<Longrightarrow> known c (tid_of c h) h' < known c (tid_of c h) h"
      "held c (tid_of c h) m < known c (tid_of c h) h" for h' m
      using ah False nj T by (auto simp: ahead_def)
    have le: "tid_of c h \<noteq> next_tid (tids c)" using ok False by (force simp: tids_ok_def)
    have s: "known c (tid_of c h) h < known c (tid_of c h) h + 1" by (rule known_succ [OF b T])
    have a': "h' \<noteq> h \<Longrightarrow> known c (tid_of c h) h' < known c (tid_of c h) h + 1"
      "held c (tid_of c h) m < known c (tid_of c h) h + 1" for h' m
      using a s less_trans by blast+
    have i: "threads c h' \<noteq> None \<Longrightarrow> tid_of c h = tid_of c h' \<longleftrightarrow> h = h'" for h'
      using ok False by (auto simp: tids_ok_def)
    have jn: "e \<noteq> Join p h" for p using j J' by blast
    have pos: "0 < known c (tid_of c h) h" using a(2) [of 0] by (rule le_less_trans [OF word_zero_le])
    have m: "h' \<noteq> h \<Longrightarrow> max (known c (tid_of c h) h) (known c (tid_of c h) h') = known c (tid_of c h) h"
      "max (known c (tid_of c h) h) (held c (tid_of c h) y) = known c (tid_of c h) h" for h' y
      using a less_imp_le by (simp_all add: max_absorb1)
    show ?thesis
      unfolding n known_step [OF T e] held_step [OF T]
      using e False a a' s le i jn pos m by (cases e) auto
  qed
qed

text \<open>Along a trace in which no thread acts after it has been joined.\<close>

definition settled :: "race_event list \<Rightarrow> bool" where
  "settled es \<longleftrightarrow> (\<forall>j < length es. \<not> retired (take j es) (actor (es ! j)))"

lemma init_ok: "tids_ok (init_cfg tabs)" "ahead (init_cfg tabs) J"
  by (simp_all add: tids_ok_def ahead_def init_cfg_def known_def held_def the_thread_def zero_thread_def
      rz_vc_init_def rz_sync_init_def)

lemma prefix_ahead:
  assumes g: "good_trace route tabs es" and s: "settled es"
  shows "n \<le> length es \<Longrightarrow>
    tids_ok (run route tabs (take n es)) \<and> ahead (run route tabs (take n es)) (retired (take n es))"
proof (induction n)
  case 0
  then show ?case by (simp add: init_ok)
next
  case (Suc n)
  then have n: "n < length es" by simp
  note at = good_at [OF g n]
  have act: "\<not> retired (take n es) (actor (es ! n))" using s n by (simp add: settled_def)
  have ret: "retired (take (Suc n) es) h \<longleftrightarrow> retired (take n es) h \<or> (\<exists>p. es ! n = Join p h)" for h
    using n by (auto simp: retired_def take_Suc_conv_app_nth) metis
  from Suc have IH: "tids_ok (run route tabs (take n es))" "ahead (run route tabs (take n es)) (retired (take n es))"
    by simp_all
  show ?case
    unfolding run_take_Suc [OF n]
    using tids_ok_step [OF IH(1) at(1)] ahead_step [OF IH(2,1) at(1) act at(2,3) ret] by simp
qed

section \<open>Knowledge travels along the order\<close>

definition hb_eq :: "race_event list \<Rightarrow> nat \<Rightarrow> nat \<Rightarrow> bool" where
  "hb_eq es i j \<longleftrightarrow> i = j \<or> hb es i j"

text \<open>Event \<open>i\<close> is ordered before whatever the thread does from position \<open>n\<close> on, or whoever takes the
  lock.\<close>

definition reaches_thread :: "race_event list \<Rightarrow> nat \<Rightarrow> nat \<Rightarrow> nat \<Rightarrow> bool" where
  "reaches_thread es i n h \<longleftrightarrow>
     (\<exists>j < n. hb_eq es i j \<and> (actor (es ! j) = h \<or> (\<exists>p. es ! j = Create p h)))"

definition reaches_sync :: "race_event list \<Rightarrow> nat \<Rightarrow> nat \<Rightarrow> u64 \<Rightarrow> bool" where
  "reaches_sync es i n m \<longleftrightarrow> (\<exists>j < n. hb_eq es i j \<and> (\<exists>h. es ! j = Release h m))"

lemma hb_eq_trans: "hb_eq es i j \<Longrightarrow> hb es j k \<Longrightarrow> hb es i k"
  by (auto simp: hb_eq_def intro: hb.Trans)

lemma reaches_acts:
  assumes "reaches_thread es i n h" and "n < length es" and "actor (es ! n) = h"
  shows "hb es i n"
proof -
  obtain j where j: "j < n" "hb_eq es i j" "actor (es ! j) = h \<or> (\<exists>p. es ! j = Create p h)"
    using assms(1) by (auto simp: reaches_thread_def)
  then have "hb es j n" using assms(2,3) hb.Program hb.Fork by metis
  with j(2) show ?thesis by (rule hb_eq_trans)
qed

lemma reaches_joined:
  assumes "reaches_thread es i n k" and "n < length es" and "es ! n = Join p k"
  shows "hb es i n"
proof -
  obtain j where j: "j < n" "hb_eq es i j" "actor (es ! j) = k \<or> (\<exists>p. es ! j = Create p k)"
    using assms(1) by (auto simp: reaches_thread_def)
  then have "hb es j n" using assms(2,3) hb.Joined hb.Spawned by metis
  with j(2) show ?thesis by (rule hb_eq_trans)
qed

lemma reaches_acquired:
  assumes "reaches_sync es i n m" and "n < length es" and "es ! n = Acquire h m"
  shows "hb es i n"
proof -
  obtain j h' where j: "j < n" "hb_eq es i j" "es ! j = Release h' m"
    using assms(1) by (auto simp: reaches_sync_def)
  from j(2) hb.Sync [OF j(1) assms(2) j(3) assms(3)] show ?thesis by (rule hb_eq_trans)
qed

lemma reaches_mono:
  "reaches_thread es i n h \<Longrightarrow> reaches_thread es i (Suc n) h"
  "reaches_sync es i n m \<Longrightarrow> reaches_sync es i (Suc n) m"
  unfolding reaches_thread_def reaches_sync_def using less_SucI by blast+

lemma reaches_now:
  "hb es i n \<Longrightarrow> actor (es ! n) = h \<Longrightarrow> reaches_thread es i (Suc n) h"
  "hb es i n \<Longrightarrow> es ! n = Create p h \<Longrightarrow> reaches_thread es i (Suc n) h"
  "hb es i n \<Longrightarrow> es ! n = Release h m \<Longrightarrow> reaches_sync es i (Suc n) m"
  unfolding reaches_thread_def reaches_sync_def hb_eq_def by blast+

definition spread :: "(u64 \<Rightarrow> nat) \<Rightarrow> (nat \<Rightarrow> rz_race_state) \<Rightarrow> race_event list \<Rightarrow> int \<Rightarrow> u64 \<Rightarrow> nat \<Rightarrow> nat \<Rightarrow> bool" where
  "spread route tabs es T ep i n \<longleftrightarrow>
     (\<forall>h. ep \<le> known (run route tabs (take n es)) T h \<longrightarrow> reaches_thread es i n h)
     \<and> (\<forall>m. ep \<le> held (run route tabs (take n es)) T m \<longrightarrow> reaches_sync es i n m)"

lemma spread_step:
  assumes g: "good_trace route tabs es" and n: "n < length es"
    and T: "tid_ok T" and pos: "0 < ep" and own: "tid_of (run route tabs (take n es)) a = T"
    and a: "threads (run route tabs (take n es)) a \<noteq> None" and ra: "reaches_thread es i n a"
    and fr: "T < next_tid (tids (run route tabs (take n es)))"
    and ok: "tids_ok (run route tabs (take n es))"
    and sp: "spread route tabs es T ep i n"
  shows "spread route tabs es T ep i (Suc n)"
proof -
  let ?c = "run route tabs (take n es)" and ?e = "es ! n"
  have e: "enabled ?c ?e" by (rule good_at(1) [OF g n])
  have th: "reaches_thread es i n h" if "ep \<le> known ?c T h" for h using sp that by (simp add: spread_def)
  have sy: "reaches_sync es i n m" if "ep \<le> held ?c T m" for m using sp that by (simp add: spread_def)
  have same: "h = a" if "threads ?c h \<noteq> None" "T = tid_of ?c h" for h
    using ok that a own by (simp add: tids_ok_def)
  have "reaches_thread es i (Suc n) h" if k: "ep \<le> known (race_step route ?c ?e) T h" for h
  proof (cases "ep \<le> known ?c T h \<and> (threads ?c h \<noteq> None \<or> h \<noteq> actor ?e) \<or> h = a")
    case True
    then show ?thesis using th ra reaches_mono by blast
  next
    case False
    have nT: "T \<noteq> next_tid (tids ?c)" using fr by simp
    have np: "\<not> ep \<le> 0" using pos by simp
    have ha: "h \<noteq> a" using False by simp
    have lo: "?e = Init h \<or> \<not> ep \<le> known ?c T h" using False e by (cases ?e) auto
    consider p where "?e = Create p h" "ep \<le> known ?c T p"
      | k where "?e = Join h k" "ep \<le> known ?c T k"
      | m where "?e = Acquire h m" "ep \<le> held ?c T m"
    proof (cases ?e)
      case (Init q)
      then have False using k lo nT np unfolding known_step [OF T e] by (auto split: if_splits)
      then show thesis ..
    next
      case (Create p q)
      then have "T = tid_of ?c p \<Longrightarrow> p = a" using same e by simp
      then have "h = q \<and> ep \<le> known ?c T p"
        using k lo nT ha Create unfolding known_step [OF T e] by (auto split: if_splits)
      with Create show thesis using that(1) by simp
    next
      case (Join p q)
      then have "h = p \<and> ep \<le> known ?c T q"
        using k lo unfolding known_step [OF T e] by (auto split: if_splits simp: le_max_iff_disj)
      with Join show thesis using that(2) by simp
    next
      case (Release q m)
      then have "T = tid_of ?c q \<Longrightarrow> q = a" using same e by simp
      then have False using k lo ha Release unfolding known_step [OF T e] by (auto split: if_splits)
      then show thesis ..
    next
      case (Acquire q m)
      then have "h = q \<and> ep \<le> held ?c T m"
        using k lo unfolding known_step [OF T e] by (auto split: if_splits simp: le_max_iff_disj)
      with Acquire show thesis using that(3) by simp
    next
      case (Access q ad w f l)
      then have False using k lo unfolding known_step [OF T e] by simp
      then show thesis ..
    qed
    then show ?thesis
    proof cases
      case 1
      have "hb es i n" by (rule reaches_acts [OF th [OF 1(2)] n]) (simp add: 1(1))
      then show ?thesis using 1(1) by (rule reaches_now(2))
    next
      case 2
      have "hb es i n" by (rule reaches_joined [OF th [OF 2(2)] n 2(1)])
      then show ?thesis by (rule reaches_now(1)) (simp add: 2(1))
    next
      case 3
      have "hb es i n" by (rule reaches_acquired [OF sy [OF 3(2)] n 3(1)])
      then show ?thesis by (rule reaches_now(1)) (simp add: 3(1))
    qed
  qed
  moreover have "reaches_sync es i (Suc n) m" if k: "ep \<le> held (race_step route ?c ?e) T m" for m
  proof (cases "ep \<le> held ?c T m")
    case True
    then show ?thesis using sy reaches_mono by blast
  next
    case False
    then obtain k where r: "?e = Release k m" "ep \<le> known ?c T k"
      using k unfolding held_step [OF T] by (auto split: race_event.splits if_splits simp: le_max_iff_disj)
    have "hb es i n" by (rule reaches_acts [OF th [OF r(2)] n]) (simp add: r(1))
    then show ?thesis using r(1) by (rule reaches_now(3))
  qed
  ultimately show ?thesis unfolding spread_def run_take_Suc [OF n] by blast
qed

section \<open>The clock test is exact\<close>

lemma covered_ordered:
  assumes g: "good_trace route tabs es" and s: "settled es"
    and ij: "i < j" "j < length es" and ei: "es ! i = Access a ad w f l"
    and T: "tid_ok T" "T = tid_of (run route tabs (take i es)) a"
    and cov: "clock_at route tabs es i (nat T) \<le> known (run route tabs (take j es)) T (actor (es ! j))"
  shows "hb es i j"
proof -
  let ?ci = "run route tabs (take i es)" let ?ep = "clock_at route tabs es i (nat T)"
  have i: "i < length es" using ij by simp
  have a: "threads ?ci a \<noteq> None" using good_at(1) [OF g i] ei by simp
  have act: "\<not> retired (take i es) a" using s i ei by (auto simp: settled_def)
  note pre = prefix_ahead [OF g s]
  have ahead: "tids_ok ?ci" "ahead ?ci (retired (take i es))" using pre [of i] i by auto
  have ep: "?ep = known ?ci T a" using ei by (simp add: clock_at_def known_def)
  have fr: "T < next_tid (tids ?ci)" using ahead(1) a T(2) by (simp add: tids_ok_def)
  have gt: "\<And>h. h \<noteq> a \<Longrightarrow> known ?ci T h < ?ep" "\<And>m. held ?ci T m < ?ep"
  proof -
    have "tid_ok (tid_of ?ci a)" using T by simp
    with ahead(2) a act have "(\<forall>h'. h' \<noteq> a \<longrightarrow> known ?ci (tid_of ?ci a) h' < known ?ci (tid_of ?ci a) a)
        \<and> (\<forall>m. held ?ci (tid_of ?ci a) m < known ?ci (tid_of ?ci a) a)"
      unfolding ahead_def by blast
    then show "\<And>h. h \<noteq> a \<Longrightarrow> known ?ci T h < ?ep" "\<And>m. held ?ci T m < ?ep"
      unfolding ep using T(2) by simp_all
  qed
  have pos: "0 < ?ep" using gt(2) [of 0] by (rule le_less_trans [OF word_zero_le])
  have st: "run route tabs (take (Suc i) es) = race_step route ?ci (es ! i)" by (rule run_take_Suc [OF i])
  have here: "reaches_thread es i (Suc i) a"
    unfolding reaches_thread_def hb_eq_def using ei by (intro exI [of _ i]) simp
  have "Suc i \<le> n \<Longrightarrow> n \<le> length es \<Longrightarrow> spread route tabs es T ?ep i n \<and> reaches_thread es i n a
      \<and> threads (run route tabs (take n es)) a \<noteq> None \<and> tid_of (run route tabs (take n es)) a = T
      \<and> T < next_tid (tids (run route tabs (take n es)))" for n
  proof (induction n rule: dec_induct)
    case base
    have "?ep \<le> known (run route tabs (take (Suc i) es)) T h \<longrightarrow> h = a" for h
    proof -
      have "known (run route tabs (take (Suc i) es)) T h = known ?ci T h"
        using known_step [OF T(1) good_at(1) [OF g i], of route h] by (simp add: st ei del: race_step.simps)
      then show ?thesis using gt(1) [of h] leD by metis
    qed
    moreover have "\<not> ?ep \<le> held (run route tabs (take (Suc i) es)) T m" for m
    proof -
      have "held (run route tabs (take (Suc i) es)) T m = held ?ci T m"
        using held_step [OF T(1), of route ?ci "es ! i" m] by (simp add: st ei del: race_step.simps)
      then show ?thesis using gt(2) [of m] leD by metis
    qed
    ultimately show ?case
      using a here fr T(2) unfolding spread_def
      by (auto simp: st ei tid_of_def the_thread_def Let_def)
  next
    case (step n)
    then have n: "n < length es" by simp
    from step have IH: "spread route tabs es T ?ep i n" "reaches_thread es i n a"
      "threads (run route tabs (take n es)) a \<noteq> None" "tid_of (run route tabs (take n es)) a = T"
      "T < next_tid (tids (run route tabs (take n es)))" by auto
    note e = good_at(1) [OF g n]
    have "spread route tabs es T ?ep i (Suc n)"
      using spread_step [OF g n T(1) pos IH(4,3,2,5) _ IH(1)] pre [of n] n by simp
    moreover have "tid_of (race_step route (run route tabs (take n es)) (es ! n)) a = T"
      using IH(3,4) e unfolding tid_step [OF e] by (cases "es ! n") auto
    moreover have "threads (race_step route (run route tabs (take n es)) (es ! n)) a \<noteq> None"
      using IH(3) threads_step [OF e] by blast
    moreover have "T < next_tid (tids (race_step route (run route tabs (take n es)) (es ! n)))"
      using IH(5) unfolding next_tid_step by (cases "es ! n") auto
    ultimately show ?case using reaches_mono(1) [OF IH(2)] by (simp add: run_take_Suc [OF n])
  qed
  then have "spread route tabs es T ?ep i j" using ij by simp
  then have "reaches_thread es i j (actor (es ! j))" using cov by (simp add: spread_def)
  then show ?thesis using reaches_acts ij(2) by blast
qed

lemma clock_order_exact:
  assumes g: "good_trace route tabs es" and s: "settled es"
    and ij: "i < j" "j < length es" and ei: "es ! i = Access a ad w f l" and ej: "es ! j = Access b ad' w' f' l'"
    and T: "tid_ok (tid_of (run route tabs (take i es)) a)"
  shows "hb es i j \<longleftrightarrow> clock_at route tabs es i (nat (tid_of (run route tabs (take i es)) a))
    \<le> clock_at route tabs es j (nat (tid_of (run route tabs (take i es)) a))"
proof
  assume "hb es i j"
  from vc_leD [OF hb_clock [OF g this] tid_okD [OF T]]
  show "clock_at route tabs es i (nat (tid_of (run route tabs (take i es)) a))
    \<le> clock_at route tabs es j (nat (tid_of (run route tabs (take i es)) a))" .
next
  assume "clock_at route tabs es i (nat (tid_of (run route tabs (take i es)) a))
    \<le> clock_at route tabs es j (nat (tid_of (run route tabs (take i es)) a))"
  then show "hb es i j"
    using covered_ordered [OF g s ij ei T refl] by (simp add: ej known_def clock_at_def [of route tabs es j])
qed

section \<open>The cells of a word between two accesses to it\<close>

fun accessed_word :: "race_event \<Rightarrow> u64 option" where
  "accessed_word (Access h addr w loc line) = Some (drop_bit 3 addr)"
| "accessed_word e = None"

lemma cells_step_other:
  assumes ok: "tables_ok c" and v: "words_ok v" and o: "accessed_word e \<noteq> Some v"
  shows "word_cells (shards (race_step route c e) k) v = word_cells (shards c k) v"
proof (cases e)
  case (Access h addr wr loc line)
  have ok': "table_ok (shards c k)" for k using ok by (simp add: tables_ok_def)
  show ?thesis
    using o Access wm.update_look [OF ok' word_of_addr v record_cells_ok]
    by (auto simp: Let_def access_state [OF ok'])
qed (simp_all add: engine_defs)

lemma cells_between:
  assumes cl: "tables_clean tabs" and v: "words_ok v"
    and o: "\<And>n. i \<le> n \<Longrightarrow> n < j \<Longrightarrow> accessed_word (es ! n) \<noteq> Some v"
    and ij: "i \<le> j" "j \<le> length es"
  shows "word_cells (shards (run route tabs (take j es)) k) v = word_cells (shards (run route tabs (take i es)) k) v"
  using ij o
proof (induction j rule: dec_induct)
  case (step n)
  then have n: "n < length es" by simp
  have "word_cells (shards (race_step route (run route tabs (take n es)) (es ! n)) k) v
      = word_cells (shards (run route tabs (take n es)) k) v"
    by (rule cells_step_other [OF run_tables_ok [OF cl] v]) (use step in simp)
  with step n show ?case by (simp add: run_take_Suc)
qed simp

end
