(* ===== verification/Race_Programs.thy ===== *)
theory Race_Programs
  imports Race_Complete
begin

text \<open>
  Multithreaded programs in race mode. A thread is the sequence of the operations that the race runtime
  is told of; the threads interleave in every way that locks, flags, creation and joining allow, and the
  operations performed so far, in order, are the trace the engine sees. The theory shows that code which
  keeps to a lock is never reported, in any interleaving.
\<close>

section \<open>Threads and their interleavings\<close>

text \<open>
  \<open>Lock m x\<close> is a mutex or reader-writer lock taken, exclusively when \<open>x\<close>; the wrapper records it after the
  real call and \<open>Unlock\<close> before it, so both are placed inside the time the lock is held. \<open>Touch\<close> is a plain access.
  \<open>Publish\<close> is an atomic store of a value other than 0 with release order, \<open>Await\<close> an atomic load that sees it
  and \<open>Poll\<close> a load that sees anything, both with acquire order.
\<close>

datatype act =
    Begin
  | Lock u64 bool
  | Unlock u64
  | Touch u64 bool cstr int
  | Spawn nat
  | Wait_for nat
  | Publish u64
  | Await u64
  | Poll u64

type_synonym entry = "nat \<times> act"

fun event_of :: "entry \<Rightarrow> race_event" where
  "event_of (h, Begin) = Init h"
| "event_of (h, Lock m x) = Acquire h m"
| "event_of (h, Unlock m) = Release h m"
| "event_of (h, Touch a w loc line) = Access h a w loc line"
| "event_of (h, Spawn k) = Create h k"
| "event_of (h, Wait_for k) = Join h k"
| "event_of (h, Publish a) = Release h a"
| "event_of (h, Await a) = Acquire h a"
| "event_of (h, Poll a) = Acquire h a"

text \<open>How a thread holds a lock after a log, and the threads that were created and not yet joined.\<close>

fun mode_step :: "u64 \<Rightarrow> nat \<Rightarrow> bool option \<Rightarrow> entry \<Rightarrow> bool option" where
  "mode_step m h st (k, Lock m' x) = (if k = h \<and> m' = m then Some x else st)"
| "mode_step m h st (k, Unlock m') = (if k = h \<and> m' = m then None else st)"
| "mode_step m h st e = st"

definition mode :: "entry list \<Rightarrow> u64 \<Rightarrow> nat \<Rightarrow> bool option" where
  "mode es m h = foldl (mode_step m h) None es"

fun live_step :: "nat set \<Rightarrow> entry \<Rightarrow> nat set" where
  "live_step L (k, Spawn c) = (if k = 0 then insert c L else L)"
| "live_step L (k, Wait_for c) = (if k = 0 then L - {c} else L)"
| "live_step L e = L"

definition live_threads :: "entry list \<Rightarrow> nat set" where
  "live_threads es = foldl live_step {} es"

lemma mode_simps [simp]:
  "mode [] m h = None" "mode (es @ [e]) m h = mode_step m h (mode es m h) e"
  by (simp_all add: mode_def)

lemma live_simps [simp]: "live_threads [] = {}" "live_threads (es @ [e]) = live_step (live_threads es) e"
  by (simp_all add: live_threads_def)

record exec =
  code :: "nat \<Rightarrow> act list option"
  log :: "entry list"

text \<open>When an operation can go on. Locks are not taken again by a thread that holds them; only the first
  thread creates and joins threads.\<close>

fun ready :: "exec \<Rightarrow> nat \<Rightarrow> act \<Rightarrow> bool" where
  "ready s h Begin \<longleftrightarrow> False"
| "ready s h (Lock m x) \<longleftrightarrow> mode (log s) m h = None
     \<and> (\<forall>k. if x then mode (log s) m k = None else mode (log s) m k \<noteq> Some True)"
| "ready s h (Spawn k) \<longleftrightarrow> h = 0 \<and> code s k = None"
| "ready s h (Wait_for k) \<longleftrightarrow> h = 0 \<and> k \<noteq> 0 \<and> code s k = Some []"
| "ready s h (Await a) \<longleftrightarrow> (\<exists>k. (k, Publish a) \<in> set (log s))"
| "ready s h a \<longleftrightarrow> True"

text \<open>A program gives each thread the set of operation sequences it may go through.\<close>

type_synonym program = "nat \<Rightarrow> act list set"

inductive exec_step :: "program \<Rightarrow> exec \<Rightarrow> exec \<Rightarrow> bool" for P where
  Fork: "code s h = Some (Spawn k # as) \<Longrightarrow> ready s h (Spawn k) \<Longrightarrow> bs \<in> P k \<Longrightarrow>
    exec_step P s (s\<lparr>code := (code s)(h \<mapsto> as, k \<mapsto> bs), log := log s @ [(h, Spawn k)]\<rparr>)"
| Go: "code s h = Some (a # as) \<Longrightarrow> ready s h a \<Longrightarrow> (\<And>k. a \<noteq> Spawn k) \<Longrightarrow>
    exec_step P s (s\<lparr>code := (code s)(h \<mapsto> as), log := log s @ [(h, a)]\<rparr>)"

inductive exec_reach :: "program \<Rightarrow> exec \<Rightarrow> bool" for P where
  Start: "as \<in> P 0 \<Longrightarrow> exec_reach P \<lparr>code = [0 \<mapsto> as], log = [(0, Begin)]\<rparr>"
| Step: "exec_reach P s \<Longrightarrow> exec_step P s s' \<Longrightarrow> exec_reach P s'"

definition trace_of :: "exec \<Rightarrow> race_event list" where
  "trace_of s = map event_of (log s)"

section \<open>Logs\<close>

text \<open>What the log of an execution may go on with.\<close>

definition begun :: "entry list \<Rightarrow> nat \<Rightarrow> bool" where
  "begun es h \<longleftrightarrow> h = 0 \<or> (0, Spawn h) \<in> set es"

lemma begun_snoc: "begun (es @ [e]) k \<longleftrightarrow> begun es k \<or> e = (0, Spawn k)"
  by (auto simp: begun_def)

definition fits :: "entry list \<Rightarrow> entry \<Rightarrow> bool" where
  "fits es e \<longleftrightarrow> (case e of (h, a) \<Rightarrow>
     begun es h \<and> (0, Wait_for h) \<notin> set es
     \<and> (case a of
          Begin \<Rightarrow> False
        | Spawn k \<Rightarrow> h = 0 \<and> \<not> begun es k
        | Wait_for k \<Rightarrow> h = 0 \<and> k \<noteq> 0 \<and> begun es k
        | Lock m x \<Rightarrow> mode es m h = None \<and> (\<forall>k. if x then mode es m k = None else mode es m k \<noteq> Some True)
        | Await f \<Rightarrow> (\<exists>k. (k, Publish f) \<in> set es)
        | _ \<Rightarrow> True))"

inductive orderly :: "entry list \<Rightarrow> bool" where
  First: "orderly [(0, Begin)]"
| Next: "orderly es \<Longrightarrow> fits es e \<Longrightarrow> orderly (es @ [e])"

lemma orderly_first: "orderly es \<Longrightarrow> es \<noteq> [] \<and> es ! 0 = (0, Begin)"
  by (induction rule: orderly.induct) (auto simp: nth_append)

lemma orderly_fits: "orderly es \<Longrightarrow> 0 < j \<Longrightarrow> j < length es \<Longrightarrow> fits (take j es) (es ! j)"
proof (induction arbitrary: j rule: orderly.induct)
  case (Next es e)
  then show ?case by (cases "j = length es") (simp_all add: nth_append)
qed simp

lemma orderly_at:
  assumes "orderly es" and "j < length es" and "es ! j = (h, a)" and "a \<noteq> Begin"
  shows "0 < j" and "fits (take j es) (h, a)"
proof -
  show "0 < j" using orderly_first [OF assms(1)] assms(3,4) by (cases j) auto
  then show "fits (take j es) (h, a)" using orderly_fits [OF assms(1) _ assms(2)] assms(3) by simp
qed

lemma take_entry: "e \<in> set (take j es) \<longleftrightarrow> (\<exists>i < j. i < length es \<and> es ! i = e)"
  by (auto simp: in_set_conv_nth)

text \<open>The code and the log of an execution belong together.\<close>

definition matched :: "exec \<Rightarrow> bool" where
  "matched s \<longleftrightarrow> orderly (log s) \<and> (\<forall>h. code s h \<noteq> None \<longleftrightarrow> begun (log s) h)
     \<and> (\<forall>h. (0, Wait_for h) \<in> set (log s) \<longrightarrow> code s h = Some [])"

lemma matchedD:
  assumes "matched s"
  shows "orderly (log s)" and "code s h \<noteq> None \<longleftrightarrow> begun (log s) h" and "code s h = Some (a # as) \<Longrightarrow> (0, Wait_for h) \<notin> set (log s)"
  using assms by (auto simp: matched_def)

lemma step_fits:
  assumes m: "matched s" and c: "code s h = Some (a # as)" and r: "ready s h a"
  shows "fits (log s) (h, a)"
proof -
  have "begun (log s) h" "(0, Wait_for h) \<notin> set (log s)" using matchedD(2,3) [OF m] c by blast+
  moreover have "begun (log s) k" if "a = Wait_for k" for k using that r matchedD(2) [OF m, of k] by simp
  moreover have "\<not> begun (log s) k" if "a = Spawn k" for k using that r matchedD(2) [OF m, of k] by simp
  ultimately show ?thesis using r by (cases a) (simp_all add: fits_def)
qed

lemma acting_begun: "orderly es \<Longrightarrow> h \<in> fst ` set es \<Longrightarrow> begun es h"
  by (induction rule: orderly.induct) (auto simp: begun_snoc fits_def begun_def [of "[_]"])

lemma reach_matched: "exec_reach P s \<Longrightarrow> matched s"
proof (induction rule: exec_reach.induct)
  case (Start as)
  then show ?case using First by (simp add: matched_def begun_def)
next
  case (Step s s')
  have c: "(code s k \<noteq> None) = begun (log s) k" for k using matchedD(2) [OF Step.IH] .
  from Step.hyps(2) show ?case
  proof (cases rule: exec_step.cases)
    case (Fork h k as bs)
    have "orderly (log s')" using step_fits [OF Step.IH Fork(2,3)] Step.IH Fork(1) by (auto simp: matched_def intro: Next)
    then show ?thesis using Step.IH Fork c by (auto simp: matched_def begun_snoc)
  next
    case (Go h a as)
    have "orderly (log s')" using step_fits [OF Step.IH Go(2,3)] Step.IH Go(1) by (auto simp: matched_def intro: Next)
    moreover have "(0, Wait_for k) \<in> set (log s') \<longrightarrow> code s' k = Some []" for k
      using Step.IH Go by (cases a) (auto simp: matched_def)
    ultimately show ?thesis using Go c by (auto simp: matched_def begun_snoc)
  qed
qed

section \<open>The trace the engine sees\<close>

lemma actor_event [simp]: "actor (event_of e) = fst e"
  by (cases e rule: event_of.cases) simp_all

lemma orderly_valid:
  assumes "orderly es"
  shows "valid_trace route tabs (map event_of es)
    \<and> (\<forall>h. threads (run route tabs (map event_of es)) h \<noteq> None \<longleftrightarrow> begun es h)"
  using assms
proof (induction rule: orderly.induct)
  case First
  then show ?case by (simp add: valid_trace_def init_cfg_def run_def split_beta Let_def begun_def)
next
  case (Next es e)
  obtain h a where e: "e = (h, a)" by (cases e)
  let ?c = "run route tabs (map event_of es)"
  have th: "threads ?c k = None \<longleftrightarrow> \<not> begun es k" for k using Next.IH by blast
  have "enabled ?c (event_of e)"
    using Next.hyps(2) unfolding e by (cases a) (auto simp: fits_def th)
  moreover have "threads (race_step route ?c (event_of e)) k \<noteq> None \<longleftrightarrow> begun (es @ [e]) k" for k
    unfolding threads_step [OF calculation] begun_snoc using Next.hyps(2) unfolding e by (cases a) (auto simp: fits_def th)
  ultimately show ?case using Next.IH by (simp add: valid_trace_snoc)
qed

lemma orderly_settled:
  assumes o: "orderly es"
  shows "settled (map event_of es)"
proof -
  have "\<not> retired (take j (map event_of es)) (actor (map event_of es ! j))" if j: "j < length es" for j
  proof
    assume "retired (take j (map event_of es)) (actor (map event_of es ! j))"
    then obtain p where "Join p (fst (es ! j)) \<in> event_of ` set (take j es)"
      using j by (auto simp: retired_def take_map)
    then have w: "(p, Wait_for (fst (es ! j))) \<in> set (take j es)"
      by (auto elim!: event_of.elims [OF sym])
    then obtain i where i: "i < j" "es ! i = (p, Wait_for (fst (es ! j)))" by (auto simp: take_entry)
    then have "p = 0" using orderly_at [OF o _ i(2)] j by (auto simp: fits_def)
    moreover have "0 < j" using i by simp
    ultimately show False using w orderly_fits [OF o \<open>0 < j\<close> j] by (auto simp: fits_def split: prod.splits)
  qed
  then show ?thesis by (simp add: settled_def)
qed

lemma orderly_good:
  "orderly es \<Longrightarrow> length es < 18446744073709551615 \<Longrightarrow> good_trace route tabs (map event_of es)"
  using orderly_valid [of es route tabs] by (simp add: good_trace_def)

section \<open>Locks\<close>

lemma mode_Suc: "j < length es \<Longrightarrow> mode (take (Suc j) es) m h = mode_step m h (mode (take j es) m h) (es ! j)"
  by (simp add: take_Suc_conv_app_nth)

lemma exclusive:
  "orderly es \<Longrightarrow> mode es m h = Some True \<Longrightarrow> k \<noteq> h \<Longrightarrow> mode es m k = None"
proof (induction arbitrary: h k rule: orderly.induct)
  case First
  then show ?case by (simp add: mode_def)
next
  case (Next es e)
  obtain t a where e: "e = (t, a)" by (cases e)
  show ?case
  proof (cases a)
    case (Lock m' x)
    then show ?thesis using Next e by (cases "m' = m"; cases x) (auto simp: fits_def split: if_splits)
  next
    case (Unlock m')
    then show ?thesis using Next e by (auto split: if_splits)
  qed (use Next e in auto)
qed

lemma orderly_take: "orderly es \<Longrightarrow> 0 < n \<Longrightarrow> orderly (take n es)"
proof (induction rule: orderly.induct)
  case (Next es e)
  then show ?case by (cases "n \<le> length es") (auto intro: orderly.Next)
qed (auto intro: First)

text \<open>A thread that does not unlock keeps its hold; a hold goes back to the lock operation.\<close>

lemma mode_kept:
  assumes o: "orderly es" and n: "i \<le> n" "n \<le> length es" and y: "mode (take i es) m h = Some y"
    and no: "\<And>r. i \<le> r \<Longrightarrow> r < n \<Longrightarrow> es ! r \<noteq> (h, Unlock m)"
  shows "mode (take n es) m h = Some y"
  using n no
proof (induction n rule: dec_induct)
  case base
  then show ?case using y by simp
next
  case (step n)
  then have IH: "mode (take n es) m h = Some y" and n: "n < length es" and u: "es ! n \<noteq> (h, Unlock m)" by auto
  obtain k a where e: "es ! n = (k, a)" by (cases "es ! n")
  show ?case
  proof (cases a)
    case (Lock m' x)
    then show ?thesis using orderly_at [OF o n e] IH mode_Suc [OF n] e by (auto simp: fits_def)
  qed (use IH u mode_Suc [OF n] e in auto)
qed

lemma mode_since:
  "orderly es \<Longrightarrow> mode es m h = Some y \<Longrightarrow>
    \<exists>q < length es. es ! q = (h, Lock m y) \<and> (\<forall>n. q < n \<longrightarrow> n \<le> length es \<longrightarrow> mode (take n es) m h = Some y)"
proof (induction arbitrary: y rule: orderly.induct)
  case First
  then show ?case by (simp add: mode_def)
next
  case (Next es e)
  have last: "mode (take n (es @ [e])) m h = Some y" if "n = Suc (length es)" for n using Next.prems that by simp
  show ?case
  proof (cases "e = (h, Lock m y)")
    case True
    have "mode (take n (es @ [e])) m h = Some y" if "length es < n" "n \<le> length (es @ [e])" for n
      by (rule last) (use that in simp)
    with True show ?thesis by (intro exI [of _ "length es"]) auto
  next
    case False
    obtain k a where e: "e = (k, a)" by (cases e)
    have "mode es m h = Some y"
      using Next.prems False unfolding e by (cases a) (auto split: if_splits)
    from Next.IH [OF this] obtain q where q: "q < length es" "es ! q = (h, Lock m y)"
      "\<forall>n. q < n \<longrightarrow> n \<le> length es \<longrightarrow> mode (take n es) m h = Some y" by blast
    have "mode (take n (es @ [e])) m h = Some y" if "q < n" "n \<le> length (es @ [e])" for n
      using q(3) that last by (cases "n = Suc (length es)") (auto simp: le_Suc_eq)
    then show ?thesis using q(1,2) by (intro exI [of _ q]) (auto simp: nth_append)
  qed
qed

section \<open>Disciplines\<close>

text \<open>
  A discipline is a check of the code of a thread, operation by operation, with a state that follows the log: \<open>nxt\<close> moves
  the state of a thread over an entry, \<open>ok\<close> judges the thread's next operation. What other threads do
  must not turn code that passes into code that fails.
\<close>

fun obeys :: "(nat \<Rightarrow> 's \<Rightarrow> entry \<Rightarrow> 's) \<Rightarrow> (nat \<Rightarrow> 's \<Rightarrow> act \<Rightarrow> bool) \<Rightarrow> nat \<Rightarrow> 's \<Rightarrow> act list \<Rightarrow> bool" where
  "obeys nxt ok t st [] \<longleftrightarrow> True"
| "obeys nxt ok t st (a # as) \<longleftrightarrow> ok t st a \<and> obeys nxt ok t (nxt t st (t, a)) as"

lemma obeys_append:
  "obeys nxt ok t st (as @ bs) \<longleftrightarrow>
    obeys nxt ok t st as \<and> obeys nxt ok t (foldl (nxt t) st (map (Pair t) as)) bs"
  by (induction as arbitrary: st) auto

text \<open>A body that leaves the state as it was may be repeated.\<close>

lemma obeys_repeat:
  assumes "\<And>as. as \<in> set bodies \<Longrightarrow> obeys nxt ok t st as \<and> foldl (nxt t) st (map (Pair t) as) = st"
  shows "obeys nxt ok t st (concat bodies) \<and> foldl (nxt t) st (map (Pair t) (concat bodies)) = st"
  using assms by (induction bodies) (auto simp: obeys_append)

locale discipline =
  fixes nxt :: "nat \<Rightarrow> 's \<Rightarrow> entry \<Rightarrow> 's" and ok :: "nat \<Rightarrow> 's \<Rightarrow> act \<Rightarrow> bool" and start :: 's
  assumes others: "h \<noteq> t \<Longrightarrow> obeys nxt ok t st as \<Longrightarrow> obeys nxt ok t (nxt t st (h, a)) as"
begin

abbreviation state :: "nat \<Rightarrow> entry list \<Rightarrow> 's" where
  "state t es \<equiv> foldl (nxt t) start es"

definition kept :: "entry list \<Rightarrow> bool" where
  "kept es \<longleftrightarrow> (\<forall>j < length es. ok (fst (es ! j)) (state (fst (es ! j)) (take j es)) (snd (es ! j)))"

lemma kept_snoc: "kept (es @ [(h, a)]) \<longleftrightarrow> kept es \<and> ok h (state h es) a"
  by (auto simp: kept_def nth_append less_Suc_eq)

lemma newborn: "k \<notin> fst ` set es \<Longrightarrow> obeys nxt ok k start as \<Longrightarrow> obeys nxt ok k (state k es) as"
proof (induction es rule: rev_induct)
  case (snoc e es)
  then show ?case using others [of "fst e" k "state k es" as "snd e"] by auto
qed simp

lemma reach_kept:
  assumes d: "\<And>t as. as \<in> P t \<Longrightarrow> obeys nxt ok t start as" and first: "ok 0 start Begin"
    and second: "\<And>as. as \<in> P 0 \<Longrightarrow> obeys nxt ok 0 (nxt 0 start (0, Begin)) as"
  shows "exec_reach P s \<Longrightarrow> kept (log s) \<and> (\<forall>h as. code s h = Some as \<longrightarrow> obeys nxt ok h (state h (log s)) as)"
proof (induction rule: exec_reach.induct)
  case (Start as)
  then show ?case using first second by (simp add: kept_def)
next
  case (Step s s')
  have m: "matched s" using Step.hyps(1) by (rule reach_matched)
  have go: "kept (log s @ [(h, a)]) \<and> obeys nxt ok h (state h (log s @ [(h, a)])) as
      \<and> (k \<noteq> h \<longrightarrow> code s k = Some bs \<longrightarrow> obeys nxt ok k (state k (log s @ [(h, a)])) bs)"
    if c: "code s h = Some (a # as)" for h a as k bs
  proof -
    have "obeys nxt ok h (state h (log s)) (a # as)" using Step.IH c by blast
    moreover have "obeys nxt ok k (state k (log s @ [(h, a)])) bs" if "k \<noteq> h" "code s k = Some bs"
      using Step.IH that others [of h k] by simp
    ultimately show ?thesis using Step.IH by (simp add: kept_snoc)
  qed
  from Step.hyps(2) show ?case
  proof (cases rule: exec_step.cases)
    case (Fork h k as bs)
    have "k \<noteq> h"
    proof
      assume "k = h"
      then show False using Fork(2,3) by simp
    qed
    have "\<not> begun (log s) k" using Fork(3) matchedD(2) [OF m, of k] by simp
    then have "k \<notin> fst ` set (log s)" using acting_begun [OF matchedD(1) [OF m]] by blast
    then have "obeys nxt ok k (state k (log s @ [(h, Spawn k)])) bs"
      using \<open>k \<noteq> h\<close> by (intro newborn d [OF Fork(4)]) simp
    then show ?thesis using go [OF Fork(2)] Fork(1) by auto
  next
    case (Go h a as)
    then show ?thesis using go [OF Go(2)] by auto
  qed
qed

end

section \<open>The discipline of a lock\<close>

text \<open>
  A thread keeps to lock \<open>m\<close> for the word \<open>x\<close> when it touches the word only while it holds the lock, exclusively
  to write; the first thread may also touch it while no other thread is around.
\<close>

type_synonym hold = "bool option \<times> nat set"

definition lock_next :: "u64 \<Rightarrow> nat \<Rightarrow> hold \<Rightarrow> entry \<Rightarrow> hold" where
  "lock_next m t st e = (mode_step m t (fst st) e, live_step (snd st) e)"

fun lock_ok :: "u64 \<Rightarrow> nat \<Rightarrow> hold \<Rightarrow> act \<Rightarrow> bool" where
  "lock_ok x t (st, L) (Touch ad w loc line) \<longleftrightarrow> drop_bit 3 ad = x \<longrightarrow>
     t = 0 \<and> L = {} \<or> st = Some True \<or> st = Some False \<and> \<not> w"
| "lock_ok x t st a \<longleftrightarrow> True"

definition keeps_lock :: "u64 \<Rightarrow> u64 \<Rightarrow> nat \<Rightarrow> act list \<Rightarrow> bool" where
  "keeps_lock m x t as \<longleftrightarrow> obeys (lock_next m) (lock_ok x) t (None, {}) as"

lemma other_mode: "k \<noteq> h \<Longrightarrow> mode_step m k st (h, a) = st"
  by (cases a) simp_all

lemma obeys_live: "t \<noteq> 0 \<Longrightarrow> obeys (lock_next m) (lock_ok x) t (st, L) as \<Longrightarrow> obeys (lock_next m) (lock_ok x) t (st, L') as"
proof (induction as arbitrary: st L L')
  case (Cons a as)
  have "lock_ok x t (st, L') a" using Cons.prems by (cases a) auto
  then show ?case using Cons.IH [OF Cons.prems(1)] Cons.prems(2) by (auto simp: lock_next_def)
qed simp

interpretation ld: discipline "lock_next m" "lock_ok x" "(None, {})" for m x
proof
  fix h t :: nat and st :: hold and as a
  assume ht: "h \<noteq> t" and o: "obeys (lock_next m) (lock_ok x) t st as"
  obtain y L where st: "st = (y, L)" by (cases st)
  have n: "lock_next m t st (h, a) = (y, live_step L (h, a))" using ht other_mode [of t h] by (simp add: lock_next_def st)
  show "obeys (lock_next m) (lock_ok x) t (lock_next m t st (h, a)) as"
  proof (cases "t = 0")
    case True
    then have "live_step L (h, a) = L" using ht by (cases a) simp_all
    then show ?thesis unfolding n using o by (simp add: st)
  next
    case False
    then show ?thesis unfolding n by (rule obeys_live) (use o in \<open>simp add: st\<close>)
  qed
qed

lemma lock_state: "foldl (lock_next m t) (None, {}) es = (mode es m t, live_threads es)"
  by (induction es rule: rev_induct) (simp_all add: lock_next_def mode_def live_threads_def)

lemma disciplined_kept:
  assumes d: "\<And>t as. as \<in> P t \<Longrightarrow> keeps_lock m x t as" and r: "exec_reach P s" and j: "j < length (log s)"
  shows "lock_ok x (fst (log s ! j)) (mode (take j (log s)) m (fst (log s ! j)), live_threads (take j (log s))) (snd (log s ! j))"
proof -
  have "ld.kept m x (log s)"
    using ld.reach_kept [OF _ _ _ r, of m x] d by (simp add: keeps_lock_def lock_next_def)
  then show ?thesis using j by (simp add: ld.kept_def lock_state)
qed

section \<open>Accesses that keep to a lock are ordered\<close>

lemma locked_ordered:
  assumes o: "orderly es" and ij: "i < j" "j < length es" and ab: "fst (es ! i) \<noteq> fst (es ! j)"
    and ya: "mode (take i es) m (fst (es ! i)) = Some ya" and yb: "mode (take j es) m (fst (es ! j)) = Some yb"
    and y: "ya \<or> yb"
  shows "hb (map event_of es) i j"
proof -
  let ?a = "fst (es ! i)" and ?b = "fst (es ! j)"
  have "0 < j" using ij by simp
  from mode_since [OF orderly_take [OF o this] yb] obtain q where q: "q < j" "es ! q = (?b, Lock m yb)"
    and since: "\<And>n. q < n \<Longrightarrow> n \<le> j \<Longrightarrow> mode (take n es) m ?b = Some yb"
    using ij(2) by (auto simp: min_def)
  have both: False if "0 < n" "mode (take n es) m ?a = Some ya" "mode (take n es) m ?b = Some yb" for n
    using exclusive [OF orderly_take [OF o that(1)]] that(2,3) ab y by (cases ya) fastforce+
  have "i < q"
  proof (rule ccontr)
    assume "\<not> i < q"
    moreover have "i \<noteq> q" using q(2) ab by auto
    ultimately have "q < i" by simp
    then show False using both [of i] ya since [of i] ij by simp
  qed
  have "\<exists>r. i \<le> r \<and> r < Suc q \<and> es ! r = (?a, Unlock m)"
  proof (rule ccontr)
    assume "\<nexists>r. i \<le> r \<and> r < Suc q \<and> es ! r = (?a, Unlock m)"
    then have "mode (take (Suc q) es) m ?a = Some ya"
      using mode_kept [OF o _ _ ya, of "Suc q"] \<open>i < q\<close> q(1) ij by auto
    then show False using both [of "Suc q"] since [of "Suc q"] q(1) by simp
  qed
  then obtain r where r: "i \<le> r" "r < Suc q" "es ! r = (?a, Unlock m)" by blast
  have "r \<noteq> q" using r(3) q(2) by auto
  then have rq: "r < q" using r(2) by simp
  let ?es = "map event_of es"
  have ev: "?es ! r = Release ?a m" "?es ! q = Acquire ?b m" using r(3) q rq ij by simp_all
  have "hb ?es r q" by (rule hb.Sync [OF rq _ ev]) (use q(1) ij in simp)
  moreover have "hb ?es q j" by (rule hb.Program) (use q ij ev in simp_all)
  ultimately have rj: "hb ?es r j" by (rule hb.Trans)
  show ?thesis
  proof (cases "i = r")
    case True
    then show ?thesis using rj by simp
  next
    case False
    then have "hb ?es i r" using r rq q(1) ij by (intro hb.Program) simp_all
    then show ?thesis using rj by (rule hb.Trans)
  qed
qed

lemma live_or_joined:
  "orderly es \<Longrightarrow> k \<noteq> 0 \<Longrightarrow> begun es k \<Longrightarrow> k \<in> live_threads es \<or> (0, Wait_for k) \<in> set es"
proof (induction rule: orderly.induct)
  case (Next es e)
  obtain h a where e: "e = (h, a)" by (cases e)
  show ?case using Next by (cases a) (auto simp: e begun_snoc fits_def)
qed (simp add: begun_def)

lemma worker_spawned:
  assumes "orderly es" and "j < length es" and "fst (es ! j) \<noteq> 0"
  shows "\<exists>q < j. es ! q = (0, Spawn (fst (es ! j)))" and "\<And>i. i < j \<Longrightarrow> es ! i \<noteq> (0, Wait_for (fst (es ! j)))"
proof -
  have "0 < j" using orderly_first [OF assms(1)] assms(3) by (cases j) auto
  then have f: "fits (take j es) (es ! j)" using orderly_fits [OF assms(1) _ assms(2)] by simp
  then have "(0, Spawn (fst (es ! j))) \<in> set (take j es)" using assms(3) by (auto simp: fits_def begun_def split: prod.splits)
  then show "\<exists>q < j. es ! q = (0, Spawn (fst (es ! j)))" by (auto simp: take_entry)
  have "(0, Wait_for (fst (es ! j))) \<notin> set (take j es)" using f by (auto simp: fits_def split: prod.splits)
  then show "es ! i \<noteq> (0, Wait_for (fst (es ! j)))" if "i < j" for i
    using that assms(2) unfolding take_entry by (metis less_trans)
qed

lemma alone_joined:
  assumes o: "orderly es" and n: "0 < n" "n \<le> length es" and L: "live_threads (take n es) = {}"
    and q: "q < n" "es ! q = (0, Spawn k)"
  shows "\<exists>p < n. es ! p = (0, Wait_for k)"
proof -
  have "begun (take n es) k" using q n by (auto simp: begun_def take_entry)
  moreover have "k \<noteq> 0" using orderly_at [OF o _ q(2)] q(1) n(2) by (auto simp: fits_def begun_def)
  ultimately show ?thesis using live_or_joined [OF orderly_take [OF o n(1)]] L by (auto simp: take_entry)
qed

lemma alone_after:
  assumes o: "orderly es" and ij: "i < j" "j < length es" and j: "fst (es ! j) = 0" "live_threads (take j es) = {}"
    and i: "fst (es ! i) \<noteq> 0"
  shows "hb (map event_of es) i j"
proof -
  let ?k = "fst (es ! i)" and ?es = "map event_of es"
  have il: "i < length es" using ij by simp
  obtain q where q: "q < i" "es ! q = (0, Spawn ?k)" using worker_spawned(1) [OF o il i] by blast
  obtain p where p: "p < j" "es ! p = (0, Wait_for ?k)"
    using alone_joined [OF o _ _ j(2) _ q(2)] ij q(1) by auto
  have "\<not> p < i" using worker_spawned(2) [OF o il i] p(2) by blast
  moreover have "p \<noteq> i" using p(2) i by (metis fst_conv)
  ultimately have "i < p" by simp
  then have "hb ?es i p" using p ij by (intro hb.Joined [of i p _ ?k 0]) simp_all
  moreover have "hb ?es p j" using p ij j(1) by (intro hb.Program) simp_all
  ultimately show ?thesis by (rule hb.Trans)
qed

lemma alone_before:
  assumes o: "orderly es" and ij: "i < j" "j < length es" and i: "es ! i = (0, Touch ad w loc line)"
    and L: "live_threads (take i es) = {}" and j: "fst (es ! j) \<noteq> 0"
  shows "hb (map event_of es) i j"
proof -
  let ?k = "fst (es ! j)" and ?es = "map event_of es"
  obtain q where q: "q < j" "es ! q = (0, Spawn ?k)" using worker_spawned(1) [OF o ij(2) j] by blast
  have "0 < i" using orderly_at(1) [OF o _ i] ij by simp
  have "i < q"
  proof (rule ccontr)
    assume "\<not> i < q"
    moreover have "i \<noteq> q" using q(2) i by auto
    ultimately have "q < i" by simp
    from alone_joined [OF o \<open>0 < i\<close> _ L this q(2)] ij obtain p where "p < i" "es ! p = (0, Wait_for ?k)" by auto
    then show False using worker_spawned(2) [OF o ij(2) j, of p] ij by simp
  qed
  then have "hb ?es i q" using q ij i by (intro hb.Program) simp_all
  moreover have "hb ?es q j" using q ij by (intro hb.Fork [of q j _ 0 ?k]) simp_all
  ultimately show ?thesis by (rule hb.Trans)
qed

lemma kept_ordered:
  assumes o: "orderly es"
    and k: "\<And>j. j < length es \<Longrightarrow> lock_ok x (fst (es ! j)) (mode (take j es) m (fst (es ! j)), live_threads (take j es)) (snd (es ! j))"
    and ij: "i < j" "j < length es"
    and ei: "es ! i = (a, Touch ad' w' loc' line')" and ej: "es ! j = (b, Touch ad w loc line)"
    and x: "drop_bit 3 ad' = x" "drop_bit 3 ad = x" and ab: "a \<noteq> b" and ww: "w \<or> w'"
  shows "hb (map event_of es) i j"
proof -
  have pi: "a = 0 \<and> live_threads (take i es) = {} \<or> (\<exists>y. mode (take i es) m a = Some y \<and> (w' \<longrightarrow> y))"
    using k [of i] ij ei x by auto
  have pj: "b = 0 \<and> live_threads (take j es) = {} \<or> (\<exists>y. mode (take j es) m b = Some y \<and> (w \<longrightarrow> y))"
    using k [of j] ij ej x by auto
  consider "a = 0" "live_threads (take i es) = {}" | "b = 0" "live_threads (take j es) = {}"
    | ya yb where "mode (take i es) m a = Some ya" "mode (take j es) m b = Some yb" "ya \<or> yb"
    using pi pj ww by blast
  then show ?thesis
  proof cases
    case 1
    then show ?thesis using alone_before [OF o ij] ei ej ab by simp
  next
    case 2
    then show ?thesis using alone_after [OF o ij] ei ej ab by simp
  next
    case 3
    then show ?thesis using locked_ordered [OF o ij, of m ya yb] ei ej ab by simp
  qed
qed

text \<open>The detector stays silent on a word whose accesses are ordered.\<close>

definition silent_on :: "(u64 \<Rightarrow> nat) \<Rightarrow> (nat \<Rightarrow> rz_race_state) \<Rightarrow> u64 \<Rightarrow> exec \<Rightarrow> bool" where
  "silent_on route tabs x s \<longleftrightarrow> (\<forall>j < length (trace_of s). accessed_word (trace_of s ! j) = Some x \<longrightarrow>
     event_report route (run route tabs (take j (trace_of s))) (trace_of s ! j) = None)"

lemma touch_event: "event_of e = Access h ad w loc line \<longleftrightarrow> e = (h, Touch ad w loc line)"
  by (cases e rule: event_of.cases) auto

lemma ordered_silent:
  assumes o: "orderly (log s)" and n: "length (log s) < 18446744073709551615" and cl: "tables_clean tabs"
    and ord: "\<And>i j a b ad ad' w w' loc loc' line line'. i < j \<Longrightarrow> j < length (log s) \<Longrightarrow>
      log s ! i = (a, Touch ad' w' loc' line') \<Longrightarrow> log s ! j = (b, Touch ad w loc line) \<Longrightarrow>
      drop_bit 3 ad = x \<Longrightarrow> drop_bit 3 ad' = x \<Longrightarrow> a \<noteq> b \<Longrightarrow> w \<or> w' \<Longrightarrow> hb (trace_of s) i j"
  shows "silent_on route tabs x s"
  unfolding silent_on_def
proof (intro allI impI)
  fix j assume j: "j < length (trace_of s)" and x: "accessed_word (trace_of s ! j) = Some x"
  have g: "good_trace route tabs (trace_of s)" unfolding trace_of_def by (rule orderly_good [OF o n])
  obtain b ad w loc line where ej: "trace_of s ! j = Access b ad w loc line" and xj: "drop_bit 3 ad = x"
    using x by (cases "trace_of s ! j") auto
  have lj: "log s ! j = (b, Touch ad w loc line)" using ej j by (simp add: trace_of_def touch_event)
  show "event_report route (run route tabs (take j (trace_of s))) (trace_of s ! j) = None"
  proof (rule ccontr)
    assume "event_report route (run route tabs (take j (trace_of s))) (trace_of s ! j) \<noteq> None"
    then obtain p where "event_report route (run route tabs (take j (trace_of s))) (trace_of s ! j) = Some p" by blast
    from report_sound [OF g cl j ej this] obtain i a ad' w' loc' line' where
      i: "i < j" "trace_of s ! i = Access a ad' w' loc' line'" "drop_bit 3 ad' = drop_bit 3 ad" "a \<noteq> b" "w \<or> w'"
      "\<not> hb (trace_of s) i j" by blast
    have "log s ! i = (a, Touch ad' w' loc' line')" using i(1,2) j by (simp add: trace_of_def touch_event)
    from ord [OF i(1) _ this lj xj _ i(4,5)] i(3,6) xj j show False by (simp add: trace_of_def)
  qed
qed

lemma disciplined_silent:
  assumes d: "\<And>t as. as \<in> P t \<Longrightarrow> keeps_lock m x t as" and r: "exec_reach P s" and cl: "tables_clean tabs"
    and n: "length (log s) < 18446744073709551615"
  shows "silent_on route tabs x s"
proof (rule ordered_silent [OF matchedD(1) [OF reach_matched [OF r]] n cl])
  show "hb (trace_of s) i j"
    if "i < j" "j < length (log s)" "log s ! i = (a, Touch ad' w' loc' line')" "log s ! j = (b, Touch ad w loc line)"
      "drop_bit 3 ad = x" "drop_bit 3 ad' = x" "a \<noteq> b" "w \<or> w'"
    for i j a b ad ad' w w' loc loc' line line'
    unfolding trace_of_def
    by (rule kept_ordered [OF matchedD(1) [OF reach_matched [OF r]] disciplined_kept [OF d r] that(1-4,6,5,7,8)])
qed

text \<open>A word that only one thread touches.\<close>

fun only_by :: "nat \<Rightarrow> u64 \<Rightarrow> nat \<Rightarrow> act list \<Rightarrow> bool" where
  "only_by p x t [] \<longleftrightarrow> True"
| "only_by p x t (a # as) \<longleftrightarrow> (case a of Touch ad w loc line \<Rightarrow> drop_bit 3 ad = x \<longrightarrow> t = p | _ \<Rightarrow> True) \<and> only_by p x t as"

definition only_ok :: "nat \<Rightarrow> u64 \<Rightarrow> nat \<Rightarrow> unit \<Rightarrow> act \<Rightarrow> bool" where
  "only_ok p x t u a \<longleftrightarrow> (case a of Touch ad w loc line \<Rightarrow> drop_bit 3 ad = x \<longrightarrow> t = p | _ \<Rightarrow> True)"

definition no_next :: "nat \<Rightarrow> unit \<Rightarrow> entry \<Rightarrow> unit" where
  "no_next t u e = u"

lemma only_by_obeys: "obeys no_next (only_ok p x) t u as \<longleftrightarrow> only_by p x t as"
  by (induction as) (simp_all add: only_ok_def)

interpretation od: discipline no_next "only_ok p x" "()" for p x
  by unfold_locales (simp add: no_next_def)

lemma private_silent:
  assumes d: "\<And>t as. as \<in> P t \<Longrightarrow> only_by p x t as" and r: "exec_reach P s" and cl: "tables_clean tabs"
    and n: "length (log s) < 18446744073709551615"
  shows "silent_on route tabs x s"
proof (rule ordered_silent [OF matchedD(1) [OF reach_matched [OF r]] n cl])
  have "od.kept p x (log s)"
    using od.reach_kept [OF _ _ _ r, of p x] d by (simp add: only_by_obeys only_ok_def)
  then have k: "t = p" if "j < length (log s)" "log s ! j = (t, Touch ad w loc line)" "drop_bit 3 ad = x" for j t ad w loc line
    using that by (auto simp: od.kept_def only_ok_def dest!: spec [of _ j])
  show "hb (trace_of s) i j"
    if "i < j" "j < length (log s)" "log s ! i = (a, Touch ad' w' loc' line')" "log s ! j = (b, Touch ad w loc line)"
      "drop_bit 3 ad = x" "drop_bit 3 ad' = x" "a \<noteq> b" "w \<or> w'"
    for i j a b ad ad' w w' loc loc' line line'
    using k [OF _ that(3,6)] k [OF that(2,4,5)] that(1,2,7) by simp
qed

section \<open>The discipline of a published word\<close>

text \<open>
  One thread prepares the word and then publishes it through a flag that only this thread sets; the others read it, after
  they have seen the flag.
\<close>

fun flag_next :: "nat \<Rightarrow> u64 \<Rightarrow> nat \<Rightarrow> bool \<Rightarrow> entry \<Rightarrow> bool" where
  "flag_next p f t st (k, Publish f') \<longleftrightarrow> st \<or> k = t \<and> t = p \<and> f' = f"
| "flag_next p f t st (k, Await f') \<longleftrightarrow> st \<or> k = t \<and> t \<noteq> p \<and> f' = f"
| "flag_next p f t st e \<longleftrightarrow> st"

fun flag_ok :: "nat \<Rightarrow> u64 \<Rightarrow> u64 \<Rightarrow> nat \<Rightarrow> bool \<Rightarrow> act \<Rightarrow> bool" where
  "flag_ok p f x t st (Touch ad w loc line) \<longleftrightarrow> drop_bit 3 ad = x \<longrightarrow> (if t = p then \<not> st else st \<and> \<not> w)"
| "flag_ok p f x t st (Publish f') \<longleftrightarrow> f' = f \<longrightarrow> t = p"
| "flag_ok p f x t st a \<longleftrightarrow> True"

definition hands_over :: "nat \<Rightarrow> u64 \<Rightarrow> u64 \<Rightarrow> nat \<Rightarrow> act list \<Rightarrow> bool" where
  "hands_over p f x t as \<longleftrightarrow> obeys (flag_next p f) (flag_ok p f x) t False as"

interpretation fd: discipline "flag_next p f" "flag_ok p f x" False for p f x
proof
  fix h t :: nat and st :: bool and as a
  assume "h \<noteq> t" "obeys (flag_next p f) (flag_ok p f x) t st as"
  then show "obeys (flag_next p f) (flag_ok p f x) t (flag_next p f t st (h, a)) as" by (cases a) simp_all
qed

lemma flag_state:
  "foldl (flag_next p f t) False es \<longleftrightarrow> (t, if t = p then Publish f else Await f) \<in> set es"
proof (induction es rule: rev_induct)
  case (snoc e es)
  obtain k a where e: "e = (k, a)" by (cases e)
  show ?case using snoc by (cases a) (auto simp: e)
qed simp

lemma published_silent:
  assumes d: "\<And>t as. as \<in> P t \<Longrightarrow> hands_over p f x t as" and r: "exec_reach P s" and cl: "tables_clean tabs"
    and n: "length (log s) < 18446744073709551615"
  shows "silent_on route tabs x s"
proof (rule ordered_silent [OF matchedD(1) [OF reach_matched [OF r]] n cl])
  have o: "orderly (log s)" by (rule matchedD(1) [OF reach_matched [OF r]])
  have "fd.kept p f x (log s)"
    using fd.reach_kept [OF _ _ _ r, of p f x] d by (simp add: hands_over_def)
  then have k: "flag_ok p f x t ((t, if t = p then Publish f else Await f) \<in> set (take j (log s))) a"
    if "j < length (log s)" "log s ! j = (t, a)" for j t a
    using that by (auto simp: fd.kept_def flag_state dest!: spec [of _ j])
  show "hb (trace_of s) i j"
    if ij: "i < j" "j < length (log s)" and i: "log s ! i = (a, Touch ad' w' loc' line')"
      and j: "log s ! j = (b, Touch ad w loc line)" and x: "drop_bit 3 ad = x" "drop_bit 3 ad' = x" and ab: "a \<noteq> b" and w: "w \<or> w'"
    for i j a b ad ad' w w' loc loc' line line'
  proof -
    have seen: "\<exists>q < n. \<exists>r < q. log s ! q = (c, Await f) \<and> log s ! r = (p, Publish f)"
      if n: "n < length (log s)" "log s ! n = (c, Touch ad2 w2 loc2 line2)" "drop_bit 3 ad2 = x" "c \<noteq> p" for n c ad2 w2 loc2 line2
    proof -
      have "(c, Await f) \<in> set (take n (log s))" using k [OF n(1,2)] n(3,4) by simp
      then obtain q where q: "q < n" "log s ! q = (c, Await f)" by (auto simp: take_entry)
      then have ql: "q < length (log s)" using n(1) by simp
      have "fits (take q (log s)) (c, Await f)" using orderly_at(2) [OF o ql q(2)] by simp
      then obtain t where "(t, Publish f) \<in> set (take q (log s))" by (auto simp: fits_def)
      then obtain r where r: "r < q" "log s ! r = (t, Publish f)" by (auto simp: take_entry)
      then have "t = p" using k [of r t "Publish f"] ql by simp
      then show ?thesis using q r by blast
    qed
    have unset: "\<not> r < n" if "n < length (log s)" "log s ! n = (p, Touch ad2 w2 loc2 line2)" "drop_bit 3 ad2 = x" "log s ! r = (p, Publish f)"
      for n r ad2 w2 loc2 line2
    proof
      assume "r < n"
      then have "(p, Publish f) \<in> set (take n (log s))" using that(1,4) by (auto simp: take_entry)
      then show False using k [OF that(1,2)] that(3) by simp
    qed
    have ordered: "b \<noteq> p"
    proof
      assume "b = p"
      then obtain q r where "q < i" "r < q" "log s ! r = (p, Publish f)" using seen [OF _ i x(2)] ij ab by auto
      then show False using unset [OF ij(2) _ x(1), of w loc line r] j ij(1) \<open>b = p\<close> by simp
    qed
    have a: "a = p"
    proof (rule ccontr)
      assume "a \<noteq> p"
      then have "\<not> w'" using k [OF _ i] ij x(2) by simp
      moreover have "\<not> w" using k [OF ij(2) j] ordered x(1) by simp
      ultimately show False using w by simp
    qed
    obtain q r where q: "q < j" "r < q" "log s ! q = (b, Await f)" "log s ! r = (p, Publish f)"
      using seen [OF ij(2) j x(1) ordered] by blast
    have "\<not> r < i" using unset [OF _ _ x(2) q(4)] i a ij by auto
    moreover have "r \<noteq> i" using q(4) i by auto
    ultimately have "i < r" by simp
    then have "hb (trace_of s) i r" using i a q ij by (intro hb.Program) (simp_all add: trace_of_def)
    moreover have "hb (trace_of s) r q" using q ij by (intro hb.Sync [of r q _ p f b]) (simp_all add: trace_of_def)
    moreover have "hb (trace_of s) q j" using q ij j by (intro hb.Program) (simp_all add: trace_of_def)
    ultimately show ?thesis by (blast intro: hb.Trans)
  qed
qed

end
