(* ===== verification/Race_Runtime.thy ===== *)
theory Race_Runtime
  imports Race_Order
begin

text \<open>
  The runtime of race mode (\<^verbatim>\<open>runtime/redzone_race_rt.c\<close>): the sharded shadow and lock registries,
  the per-thread clocks behind thread-local storage, the registry that join consults, and the
  wrappers around the pthread calls. A thread object is named by its pointer, an OS thread by its
  \<^verbatim>\<open>pthread_t\<close>; what the system answers during a call is in \<open>race_env\<close>.
\<close>

section \<open>State\<close>

definition RZ_NSHARD :: nat where "RZ_NSHARD = 64"
definition RZ_NSYNC :: nat where "RZ_NSYNC = 16"
definition RZ_RACE_REPORT_CAP :: nat where "RZ_RACE_REPORT_CAP = 16"

record rz_thr_ent =
  thr :: u64
  ent_self :: nat
  used :: bool

record rz_sync_ent =
  ent_key :: u64
  ent_sync :: rz_sync

record rz_sync_shard =
  ents :: "rz_sync_ent list"
  sync_cap :: u64

record race_report =
  rep_write :: bool
  rep_tid :: int
  rep_addr :: u64
  rep_file :: cstr
  rep_line :: int
  rep_prev :: rz_access

text \<open>\<open>objects\<close> are the live thread objects; \<open>printed\<close> lists the detailed reports written so far.\<close>

record race_rt =
  g_once :: bool
  g_shard :: "rz_race_state list"
  g_meta :: rz_race_state
  objects :: "nat \<Rightarrow> rz_thread option"
  next_object :: nat
  self_key :: "u64 \<Rightarrow> nat option"
  g_threads :: "rz_thr_ent list"
  g_sync :: "rz_sync_shard list"
  g_races :: u64
  g_verbose :: bool
  g_report_lines :: "(int \<times> int) list"
  printed :: "race_report list"

record race_env =
  calloc_ok :: bool
  shard_ok :: "nat \<Rightarrow> bool"
  tramp_ok :: bool
  grow_ok :: bool
  verbose_set :: bool

definition blank_state :: rz_race_state where
  "blank_state = \<lparr>buckets = None, nbuckets = 0, next_tid = 0\<rparr>"

definition loaded_rt :: race_rt where
  "loaded_rt = \<lparr>g_once = False, g_shard = replicate RZ_NSHARD blank_state, g_meta = blank_state,
     objects = (\<lambda>h. None), next_object = 0, self_key = (\<lambda>x. None), g_threads = [],
     g_sync = replicate RZ_NSYNC \<lparr>ents = [], sync_cap = 0\<rparr>, g_races = 0, g_verbose = False,
     g_report_lines = [], printed = []\<rparr>"

section \<open>Routing\<close>

definition shard_of :: "u64 \<Rightarrow> nat" where
  "shard_of word = unat (drop_bit 40 (word * HASH_MULT) AND (of_nat RZ_NSHARD - 1))"

definition sync_shard_of :: "u64 \<Rightarrow> nat" where
  "sync_shard_of key = unat (drop_bit 36 (key * HASH_MULT) AND (of_nat RZ_NSYNC - 1))"

section \<open>Reports\<close>

definition should_report :: "int \<Rightarrow> int \<Rightarrow> race_rt \<Rightarrow> bool \<times> race_rt" where
  "should_report line prev_line s =
     (if g_verbose s then (True, s)
      else if (line, prev_line) \<in> set (g_report_lines s) then (False, s)
      else if length (g_report_lines s) \<ge> RZ_RACE_REPORT_CAP then (False, s)
      else (True, s\<lparr>g_report_lines := g_report_lines s @ [(line, prev_line)]\<rparr>))"

definition print_race :: "bool \<Rightarrow> int \<Rightarrow> u64 \<Rightarrow> cstr \<Rightarrow> int \<Rightarrow> rz_access \<Rightarrow> race_rt \<Rightarrow> race_rt" where
  "print_race is_write tid addr loc line prev s =
     s\<lparr>printed := printed s @ [\<lparr>rep_write = is_write, rep_tid = tid, rep_addr = addr, rep_file = loc,
        rep_line = line, rep_prev = prev\<rparr>]\<rparr>"

section \<open>The thread registry\<close>

fun first_unused :: "rz_thr_ent list \<Rightarrow> nat \<Rightarrow> nat option" where
  "first_unused [] i = None"
| "first_unused (e # es) i = (if \<not> used e then Some i else first_unused es (Suc i))"

definition unused_ent :: rz_thr_ent where
  "unused_ent = \<lparr>thr = 0, ent_self = 0, used = False\<rparr>"

definition reg_thread :: "race_env \<Rightarrow> u64 \<Rightarrow> nat \<Rightarrow> race_rt \<Rightarrow> race_rt" where
  "reg_thread env t h s =
     (let e = \<lparr>thr = t, ent_self = h, used = True\<rparr> in
      case first_unused (g_threads s) 0 of
        Some i \<Rightarrow> s\<lparr>g_threads := (g_threads s)[i := e]\<rparr>
      | None \<Rightarrow>
          let old = length (g_threads s);
              cap = (if old \<noteq> 0 then old * 2 else 16) in
          if \<not> grow_ok env then s
          else s\<lparr>g_threads := (g_threads s @ replicate (cap - old) unused_ent)[old := e]\<rparr>)"

fun find_thr :: "rz_thr_ent list \<Rightarrow> u64 \<Rightarrow> nat \<Rightarrow> nat option" where
  "find_thr [] t i = None"
| "find_thr (e # es) t i = (if used e \<and> thr e = t then Some i else find_thr es t (Suc i))"

definition take_thread :: "u64 \<Rightarrow> race_rt \<Rightarrow> nat option \<times> race_rt" where
  "take_thread t s =
     (case find_thr (g_threads s) t 0 of
        Some i \<Rightarrow> (Some (ent_self (g_threads s ! i)),
                  s\<lparr>g_threads := (g_threads s)[i := (g_threads s ! i)\<lparr>used := False\<rparr>]\<rparr>)
      | None \<Rightarrow> (None, s))"

section \<open>The synchronization registry\<close>

fun find_sync :: "rz_sync_ent list \<Rightarrow> u64 \<Rightarrow> nat \<Rightarrow> nat option" where
  "find_sync [] key i = None"
| "find_sync (e # es) key i = (if ent_key e = key then Some i else find_sync es key (Suc i))"

definition sync_for_in :: "race_env \<Rightarrow> rz_sync_shard \<Rightarrow> u64 \<Rightarrow> nat option \<times> rz_sync_shard" where
  "sync_for_in env sh key =
     (case find_sync (ents sh) key 0 of
        Some i \<Rightarrow> (Some i, sh)
      | None \<Rightarrow>
          let grow = (of_nat (length (ents sh)) = sync_cap sh);
              cap = (if sync_cap sh \<noteq> 0 then sync_cap sh * 2 else 8) in
          if grow \<and> \<not> grow_ok env then (None, sh)
          else let sh = (if grow then sh\<lparr>sync_cap := cap\<rparr> else sh) in
               (Some (length (ents sh)), sh\<lparr>ents := ents sh @ [\<lparr>ent_key = key, ent_sync = rz_sync_init\<rparr>]\<rparr>))"

section \<open>Initialization and the calling thread\<close>

definition new_object :: "rz_thread \<Rightarrow> race_rt \<Rightarrow> nat \<times> race_rt" where
  "new_object t s = (next_object s, s\<lparr>objects := (objects s)(next_object s \<mapsto> t), next_object := Suc (next_object s)\<rparr>)"

definition init_once :: "race_env \<Rightarrow> u64 \<Rightarrow> race_rt \<Rightarrow> race_rt" where
  "init_once env me s =
     (let s = s\<lparr>g_shard := map (\<lambda>i. snd (rz_race_state_init_n (shard_ok env i)
                  (RZ_RACE_BUCKETS div of_nat RZ_NSHARD) (g_shard s ! i))) [0..<RZ_NSHARD]\<rparr>;
          s = s\<lparr>g_meta := (g_meta s)\<lparr>buckets := None, nbuckets := 0, next_tid := 0\<rparr>\<rparr>;
          s = s\<lparr>g_verbose := verbose_set env\<rparr> in
      if calloc_ok env then
        let (m, root) = rz_thread_init (g_meta s);
            (h, s) = new_object root (s\<lparr>g_meta := m\<rparr>) in
        s\<lparr>self_key := (self_key s)(me \<mapsto> h)\<rparr>
      else s)"

definition rz_rt_init :: "race_env \<Rightarrow> u64 \<Rightarrow> race_rt \<Rightarrow> race_rt" where
  "rz_rt_init env me s = (if g_once s then s else init_once env me (s\<lparr>g_once := True\<rparr>))"

definition rz_self :: "race_env \<Rightarrow> u64 \<Rightarrow> race_rt \<Rightarrow> nat option \<times> race_rt" where
  "rz_self env me s =
     (let s = rz_rt_init env me s in
      case self_key s me of
        Some h \<Rightarrow> (Some h, s)
      | None \<Rightarrow>
          if \<not> calloc_ok env then (None, s) else
          let (m, t) = rz_thread_init (g_meta s);
              (h, s) = new_object t (s\<lparr>g_meta := m\<rparr>) in
          (Some h, s\<lparr>self_key := (self_key s)(me \<mapsto> h)\<rparr>))"

definition object :: "race_rt \<Rightarrow> nat \<Rightarrow> rz_thread" where
  "object s h = (case objects s h of Some t \<Rightarrow> t | None \<Rightarrow> zero_thread)"

section \<open>Threads\<close>

text \<open>
  The parts of \<^verbatim>\<open>rz_rt_pthread_create\<close> before and after the real call, and what the new thread does
  first. \<open>None\<close> is the dereference of a null pointer: the parent's object is used unchecked.
\<close>

definition create_prepare :: "race_env \<Rightarrow> u64 \<Rightarrow> race_rt \<Rightarrow> (nat option \<times> race_rt) option" where
  "create_prepare env me s =
     (let (parent, s) = rz_self env me s in
      if \<not> calloc_ok env \<or> \<not> tramp_ok env then Some (None, s) else
      case parent of
        None \<Rightarrow> None
      | Some p \<Rightarrow>
          let (child, s) = new_object zero_thread s;
              (m, pt, ct) = rz_thread_create (g_meta s) (object s p) (object s child) in
          Some (Some child, s\<lparr>g_meta := m, objects := (objects s)(p \<mapsto> pt, child \<mapsto> ct)\<rparr>))"

definition create_finish :: "race_env \<Rightarrow> int \<Rightarrow> u64 \<Rightarrow> nat option \<Rightarrow> race_rt \<Rightarrow> race_rt" where
  "create_finish env rc t child s =
     (case child of
        None \<Rightarrow> s
      | Some h \<Rightarrow>
          if rc = 0 then reg_thread env t h s
          else s\<lparr>objects := (objects s)(h := None)\<rparr>)"

definition rz_rt_pthread_create ::
  "race_env \<Rightarrow> u64 \<Rightarrow> (race_rt \<Rightarrow> (int \<times> u64) \<times> race_rt) \<Rightarrow> race_rt \<Rightarrow> (int \<times> race_rt) option" where
  "rz_rt_pthread_create env me real s =
     (case create_prepare env me s of
        None \<Rightarrow> None
      | Some (child, s) \<Rightarrow>
          let ((rc, t), s) = real s in Some (rc, create_finish env rc t child s))"

definition trampoline :: "u64 \<Rightarrow> nat \<Rightarrow> race_rt \<Rightarrow> race_rt" where
  "trampoline me h s = s\<lparr>self_key := (self_key s)(me \<mapsto> h)\<rparr>"

definition rz_rt_pthread_join ::
  "race_env \<Rightarrow> u64 \<Rightarrow> (race_rt \<Rightarrow> int \<times> race_rt) \<Rightarrow> u64 \<Rightarrow> race_rt \<Rightarrow> (int \<times> race_rt) option" where
  "rz_rt_pthread_join env me real t s =
     (let (parent, s) = rz_self env me s;
          (rc, s) = real s in
      if rc \<noteq> 0 then Some (rc, s) else
      let (child, s) = take_thread t s in
      case child of
        None \<Rightarrow> Some (rc, s)
      | Some k \<Rightarrow>
          (case parent of
             None \<Rightarrow> None
           | Some p \<Rightarrow>
               let s = s\<lparr>objects := (objects s)(p \<mapsto> rz_thread_join (object s p) (object s k))\<rparr> in
               Some (rc, s\<lparr>objects := (objects s)(k := None)\<rparr>)))"

section \<open>Locks, condition variables and atomics\<close>

definition rz_rt_mutex_lock :: "race_env \<Rightarrow> u64 \<Rightarrow> u64 \<Rightarrow> race_rt \<Rightarrow> race_rt" where
  "rz_rt_mutex_lock env me mutex s =
     (let (self, s) = rz_self env me s in
      case self of
        None \<Rightarrow> s
      | Some h \<Rightarrow>
          let sh = sync_shard_of mutex;
              (m, shard) = sync_for_in env (g_sync s ! sh) mutex;
              s = s\<lparr>g_sync := (g_sync s)[sh := shard]\<rparr> in
          (case m of
             None \<Rightarrow> s
           | Some i \<Rightarrow>
               s\<lparr>objects := (objects s)(h \<mapsto> rz_mutex_acquire (object s h) (ent_sync (ents shard ! i)))\<rparr>))"

definition rz_rt_mutex_unlock :: "race_env \<Rightarrow> u64 \<Rightarrow> u64 \<Rightarrow> race_rt \<Rightarrow> race_rt" where
  "rz_rt_mutex_unlock env me mutex s =
     (let (self, s) = rz_self env me s in
      case self of
        None \<Rightarrow> s
      | Some h \<Rightarrow>
          let sh = sync_shard_of mutex;
              (m, shard) = sync_for_in env (g_sync s ! sh) mutex;
              s = s\<lparr>g_sync := (g_sync s)[sh := shard]\<rparr> in
          (case m of
             None \<Rightarrow> s
           | Some i \<Rightarrow>
               let (t, y) = rz_mutex_release (object s h) (ent_sync (ents shard ! i));
                   shard = shard\<lparr>ents := (ents shard)[i := (ents shard ! i)\<lparr>ent_sync := y\<rparr>]\<rparr> in
               s\<lparr>objects := (objects s)(h \<mapsto> t), g_sync := (g_sync s)[sh := shard]\<rparr>))"

text \<open>The wrappers. \<open>real\<close> is the pthread call, with whatever other threads do while it blocks.\<close>

type_synonym real_call = "race_rt \<Rightarrow> int \<times> race_rt"

definition rz_rt_pthread_mutex_lock :: "race_env \<Rightarrow> u64 \<Rightarrow> real_call \<Rightarrow> u64 \<Rightarrow> race_rt \<Rightarrow> int \<times> race_rt" where
  "rz_rt_pthread_mutex_lock env me real mutex s =
     (let (rc, s) = real s in (rc, rz_rt_mutex_lock env me mutex s))"

definition rz_rt_pthread_mutex_unlock :: "race_env \<Rightarrow> u64 \<Rightarrow> real_call \<Rightarrow> u64 \<Rightarrow> race_rt \<Rightarrow> int \<times> race_rt" where
  "rz_rt_pthread_mutex_unlock env me real mutex s = real (rz_rt_mutex_unlock env me mutex s)"

definition rz_rt_pthread_mutex_trylock :: "race_env \<Rightarrow> u64 \<Rightarrow> real_call \<Rightarrow> u64 \<Rightarrow> race_rt \<Rightarrow> int \<times> race_rt" where
  "rz_rt_pthread_mutex_trylock env me real mutex s =
     (let (rc, s) = real s in (rc, if rc = 0 then rz_rt_mutex_lock env me mutex s else s))"

definition rz_rt_pthread_rwlock_rdlock :: "race_env \<Rightarrow> u64 \<Rightarrow> real_call \<Rightarrow> u64 \<Rightarrow> race_rt \<Rightarrow> int \<times> race_rt" where
  "rz_rt_pthread_rwlock_rdlock env me real rwlock s =
     (let (rc, s) = real s in (rc, rz_rt_mutex_lock env me rwlock s))"

definition rz_rt_pthread_rwlock_wrlock :: "race_env \<Rightarrow> u64 \<Rightarrow> real_call \<Rightarrow> u64 \<Rightarrow> race_rt \<Rightarrow> int \<times> race_rt" where
  "rz_rt_pthread_rwlock_wrlock env me real rwlock s =
     (let (rc, s) = real s in (rc, rz_rt_mutex_lock env me rwlock s))"

definition rz_rt_pthread_rwlock_tryrdlock :: "race_env \<Rightarrow> u64 \<Rightarrow> real_call \<Rightarrow> u64 \<Rightarrow> race_rt \<Rightarrow> int \<times> race_rt" where
  "rz_rt_pthread_rwlock_tryrdlock env me real rwlock s =
     (let (rc, s) = real s in (rc, if rc = 0 then rz_rt_mutex_lock env me rwlock s else s))"

definition rz_rt_pthread_rwlock_trywrlock :: "race_env \<Rightarrow> u64 \<Rightarrow> real_call \<Rightarrow> u64 \<Rightarrow> race_rt \<Rightarrow> int \<times> race_rt" where
  "rz_rt_pthread_rwlock_trywrlock env me real rwlock s =
     (let (rc, s) = real s in (rc, if rc = 0 then rz_rt_mutex_lock env me rwlock s else s))"

definition rz_rt_pthread_rwlock_unlock :: "race_env \<Rightarrow> u64 \<Rightarrow> real_call \<Rightarrow> u64 \<Rightarrow> race_rt \<Rightarrow> int \<times> race_rt" where
  "rz_rt_pthread_rwlock_unlock env me real rwlock s = real (rz_rt_mutex_unlock env me rwlock s)"

definition rz_rt_pthread_cond_wait :: "race_env \<Rightarrow> u64 \<Rightarrow> real_call \<Rightarrow> u64 \<Rightarrow> race_rt \<Rightarrow> int \<times> race_rt" where
  "rz_rt_pthread_cond_wait env me real mutex s =
     (let s = rz_rt_mutex_unlock env me mutex s;
          (rc, s) = real s in
      (rc, rz_rt_mutex_lock env me mutex s))"

definition rz_rt_pthread_cond_timedwait :: "race_env \<Rightarrow> u64 \<Rightarrow> real_call \<Rightarrow> u64 \<Rightarrow> race_rt \<Rightarrow> int \<times> race_rt" where
  "rz_rt_pthread_cond_timedwait env me real mutex s =
     (let s = rz_rt_mutex_unlock env me mutex s;
          (rc, s) = real s in
      (rc, rz_rt_mutex_lock env me mutex s))"

definition rz_rt_atomic_acquire :: "race_env \<Rightarrow> u64 \<Rightarrow> u64 \<Rightarrow> race_rt \<Rightarrow> race_rt" where
  "rz_rt_atomic_acquire env me addr s = rz_rt_mutex_lock env me addr s"

definition rz_rt_atomic_release :: "race_env \<Rightarrow> u64 \<Rightarrow> u64 \<Rightarrow> race_rt \<Rightarrow> race_rt" where
  "rz_rt_atomic_release env me addr s = rz_rt_mutex_unlock env me addr s"

section \<open>Accesses\<close>

text \<open>The words of an access, \<^verbatim>\<open>addr >> 3\<close> to \<^verbatim>\<open>(addr + size - 1) >> 3\<close>; none when the end wraps around.\<close>

definition access_words :: "u64 \<Rightarrow> u64 \<Rightarrow> u64 list" where
  "access_words addr sz =
     (let sz = (if sz = 0 then 1 else sz);
          first = drop_bit 3 addr;
          last = drop_bit 3 (addr + sz - 1) in
      map of_nat [unat first ..< Suc (unat last)])"

text \<open>The loop over the words: the number of hits, the first word hit and what it conflicts with.\<close>

fun access_loop :: "rz_thread \<Rightarrow> bool \<Rightarrow> cstr \<Rightarrow> int \<Rightarrow> u64 list \<Rightarrow> u64 \<Rightarrow> (u64 \<times> rz_access) option
    \<Rightarrow> rz_race_state list \<Rightarrow> u64 \<times> (u64 \<times> rz_access) option \<times> rz_race_state list" where
  "access_loop t is_write loc line [] hits hit shs = (hits, hit, shs)"
| "access_loop t is_write loc line (w # ws) hits hit shs =
     (let sh = shard_of w;
          ((raced, p), s) = rz_race_access_loc (shs ! sh) t (push_bit 3 w) is_write loc line;
          shs = shs[sh := s] in
      if raced
      then access_loop t is_write loc line ws (hits + 1)
             (if hits = 0 then Some (push_bit 3 w, the p) else hit) shs
      else access_loop t is_write loc line ws hits hit shs)"

definition access_range :: "race_env \<Rightarrow> u64 \<Rightarrow> u64 \<Rightarrow> u64 \<Rightarrow> bool \<Rightarrow> cstr \<Rightarrow> int \<Rightarrow> race_rt \<Rightarrow> race_rt" where
  "access_range env me addr sz is_write loc line s =
     (let (self, s) = rz_self env me s in
      case self of
        None \<Rightarrow> s
      | Some h \<Rightarrow>
          let t = object s h;
              (hits, hit, shs) = access_loop t is_write loc line (access_words addr sz) 0 None (g_shard s);
              s = s\<lparr>g_shard := shs\<rparr> in
          if hits = 0 then s else
          let (hit_word, prev) = the hit;
              s = s\<lparr>g_races := g_races s + hits\<rparr>;
              (do_report, s) = should_report line (acc_line prev) s in
          if do_report then print_race is_write (th_tid t) hit_word loc line prev s else s)"

definition rz_rt_read :: "race_env \<Rightarrow> u64 \<Rightarrow> u64 \<Rightarrow> u64 \<Rightarrow> cstr \<Rightarrow> int \<Rightarrow> race_rt \<Rightarrow> race_rt" where
  "rz_rt_read env me addr sz loc line s = access_range env me addr sz False loc line s"

definition rz_rt_write :: "race_env \<Rightarrow> u64 \<Rightarrow> u64 \<Rightarrow> u64 \<Rightarrow> cstr \<Rightarrow> int \<Rightarrow> race_rt \<Rightarrow> race_rt" where
  "rz_rt_write env me addr sz loc line s = access_range env me addr sz True loc line s"

definition rz_rt_race_count :: "race_rt \<Rightarrow> u64" where
  "rz_rt_race_count s = g_races s"

section \<open>The driver\<close>

text \<open>\<^verbatim>\<open>redzone_race_main.c\<close>: the exit hook prints a summary and forces status 66, unless told not to.
  The result is the summary's count and the forced status.\<close>

definition rz_rt_report_atexit :: "bool \<Rightarrow> race_rt \<Rightarrow> u64 option \<times> int option" where
  "rz_rt_report_atexit no_exit s =
     (let n = rz_rt_race_count s in
      if n = 0 then (None, None)
      else (Some n, if \<not> no_exit then Some 66 else None))"

definition rz_rt_setup :: "race_env \<Rightarrow> u64 \<Rightarrow> race_rt \<Rightarrow> race_rt" where
  "rz_rt_setup env me s = rz_rt_init env me s"

end
