(* ===== verification/Race_Refine.thy ===== *)
theory Race_Refine
  imports Race_Runtime
begin

text \<open>
  The runtime refines the engine: every runtime call is a short sequence of engine events on the
  abstract configuration, with the shards as the routed tables and the registries as maps. A report
  of the runtime is therefore a race of the trace.
\<close>

section \<open>The abstraction\<close>

definition sync_of :: "race_rt \<Rightarrow> u64 \<Rightarrow> rz_sync" where
  "sync_of s m =
     (let es = ents (g_sync s ! sync_shard_of m) in
      case find_sync es m 0 of None \<Rightarrow> rz_sync_init | Some i \<Rightarrow> ent_sync (es ! i))"

definition rt_sim :: "race_rt \<Rightarrow> race_cfg \<Rightarrow> bool" where
  "rt_sim s c \<longleftrightarrow>
     g_meta s = tids c \<and> length (g_shard s) = RZ_NSHARD \<and> length (g_sync s) = RZ_NSYNC
     \<and> (\<forall>k < RZ_NSHARD. g_shard s ! k = shards c k)
     \<and> (\<forall>h t. objects s h = Some t \<longrightarrow> threads c h = Some t)
     \<and> (\<forall>h. threads c h \<noteq> None \<longrightarrow> h < next_object s)
     \<and> (\<forall>m. sync_of s m = syncs c m)"

definition rt_trace :: "(nat \<Rightarrow> rz_race_state) \<Rightarrow> race_rt \<Rightarrow> race_event list \<Rightarrow> bool" where
  "rt_trace tabs s es \<longleftrightarrow> g_once s \<and> valid_trace shard_of tabs es \<and> rt_sim s (run shard_of tabs es)"

text \<open>An OS thread that has not been joined still owns its object.\<close>

definition live :: "race_rt \<Rightarrow> u64 \<Rightarrow> bool" where
  "live s me \<longleftrightarrow> (\<forall>h. self_key s me = Some h \<longrightarrow> objects s h \<noteq> None)"

lemma rt_simD:
  assumes "rt_sim s c"
  shows "g_meta s = tids c" "length (g_shard s) = RZ_NSHARD" "length (g_sync s) = RZ_NSYNC"
    "k < RZ_NSHARD \<Longrightarrow> g_shard s ! k = shards c k"
    "objects s h = Some t \<Longrightarrow> threads c h = Some t"
    "threads c h \<noteq> None \<Longrightarrow> h < next_object s" "sync_of s m = syncs c m"
    "objects s h \<noteq> None \<Longrightarrow> object s h = the_thread c h"
    "objects s h \<noteq> None \<Longrightarrow> threads c h \<noteq> None"
  using assms by (auto simp: rt_sim_def object_def)

lemma trace_event:
  "rt_trace tabs s es \<Longrightarrow> enabled (run shard_of tabs es) e \<Longrightarrow>
    rt_sim s' (race_step shard_of (run shard_of tabs es) e) \<Longrightarrow> g_once s' \<Longrightarrow> rt_trace tabs s' (es @ [e])"
  by (simp add: rt_trace_def valid_trace_snoc)

lemma sync_of_updates [simp]:
  "sync_of (s\<lparr>objects := x\<rparr>) = sync_of s" "sync_of (s\<lparr>g_meta := y\<rparr>) = sync_of s"
  "sync_of (s\<lparr>next_object := n\<rparr>) = sync_of s" "sync_of (s\<lparr>self_key := k\<rparr>) = sync_of s"
  "sync_of (s\<lparr>g_shard := z\<rparr>) = sync_of s" "sync_of (s\<lparr>g_threads := ts\<rparr>) = sync_of s"
  "sync_of (s\<lparr>g_races := r\<rparr>) = sync_of s" "sync_of (s\<lparr>g_report_lines := l\<rparr>) = sync_of s"
  "sync_of (s\<lparr>printed := p\<rparr>) = sync_of s"
  by (simp_all add: sync_of_def [abs_def])

section \<open>The registry of synchronization objects\<close>

lemma find_sync_bound: "find_sync es key i = Some j \<Longrightarrow> i \<le> j \<and> j < i + length es \<and> ent_key (es ! (j - i)) = key"
  by (induction es arbitrary: i) (fastforce simp: nth_Cons' Suc_le_eq split: if_splits)+

lemma find_sync_append:
  "find_sync (es @ [e]) key i =
    (case find_sync es key i of Some j \<Rightarrow> Some j
     | None \<Rightarrow> if ent_key e = key then Some (i + length es) else None)"
  by (induction es arbitrary: i) (auto split: option.split)

lemma find_sync_update:
  "ent_key e = ent_key (es ! j) \<Longrightarrow> j < length es \<Longrightarrow> find_sync (es[j := e]) key i = find_sync es key i"
proof (induction es arbitrary: i j)
  case (Cons a es)
  then show ?case by (cases j) auto
qed simp

text \<open>Find-or-create gives the object of the key and changes no other object.\<close>

lemma sync_for_in_spec:
  assumes "sync_for_in env sh key = (Some i, sh')"
  shows "i < length (ents sh')" "find_sync (ents sh') key 0 = Some i" "ent_key (ents sh' ! i) = key"
    "ent_sync (ents sh' ! i) = (case find_sync (ents sh) key 0 of None \<Rightarrow> rz_sync_init | Some j \<Rightarrow> ent_sync (ents sh ! j))"
    "k \<noteq> key \<Longrightarrow> find_sync (ents sh') k 0 = find_sync (ents sh) k 0"
    "find_sync (ents sh) k 0 = Some j \<Longrightarrow> ents sh' ! j = ents sh ! j"
proof -
  show "i < length (ents sh')" "find_sync (ents sh') key 0 = Some i" "ent_key (ents sh' ! i) = key"
    "ent_sync (ents sh' ! i) = (case find_sync (ents sh) key 0 of None \<Rightarrow> rz_sync_init | Some j \<Rightarrow> ent_sync (ents sh ! j))"
    "k \<noteq> key \<Longrightarrow> find_sync (ents sh') k 0 = find_sync (ents sh) k 0"
    using assms find_sync_bound [of "ents sh" key 0]
    by (auto simp: sync_for_in_def Let_def find_sync_append nth_append split: option.splits if_splits)
  show "find_sync (ents sh) k 0 = Some j \<Longrightarrow> ents sh' ! j = ents sh ! j"
    using assms find_sync_bound [of "ents sh" k 0 j]
    by (auto simp: sync_for_in_def Let_def nth_append split: option.splits if_splits)
qed

lemma sync_shard_bound: "sync_shard_of m < RZ_NSYNC"
proof -
  have "unat (x AND (2 ^ 4 - 1 :: u64)) < 2 ^ 4" for x by (subst unat_and_mask) simp_all
  then show ?thesis by (simp add: sync_shard_of_def RZ_NSYNC_def)
qed

lemma shard_bound: "shard_of w < RZ_NSHARD"
proof -
  have "unat (x AND (2 ^ 6 - 1 :: u64)) < 2 ^ 6" for x by (subst unat_and_mask) simp_all
  then show ?thesis by (simp add: shard_of_def RZ_NSHARD_def)
qed

lemma sync_for_in_state:
  assumes len: "length (g_sync s) = RZ_NSYNC"
    and f: "sync_for_in env (g_sync s ! sync_shard_of m) m = (Some i, sh)"
  shows "sync_of (s\<lparr>g_sync := (g_sync s)[sync_shard_of m := sh]\<rparr>) = sync_of s"
    and "ent_sync (ents sh ! i) = sync_of s m"
    and "sync_of (s\<lparr>g_sync := (g_sync s)[sync_shard_of m :=
      sh\<lparr>ents := (ents sh)[i := (ents sh ! i)\<lparr>ent_sync := y\<rparr>]\<rparr>]\<rparr>) = (sync_of s)(m := y)"
proof -
  note sp = sync_for_in_spec [OF f]
  have b: "sync_shard_of m < length (g_sync s)" using len sync_shard_bound by simp
  show o: "ent_sync (ents sh ! i) = sync_of s m" using sp(4) by (simp add: sync_of_def Let_def)
  have same: "sync_of (s\<lparr>g_sync := (g_sync s)[sync_shard_of m := sh]\<rparr>) k = sync_of s k" for k
  proof (cases "sync_shard_of k = sync_shard_of m")
    case True
    show ?thesis
    proof (cases "k = m")
      case True
      then show ?thesis using sp(2) b o by (simp add: sync_of_def Let_def)
    next
      case False
      with True show ?thesis
        using sp(5) [OF False] sp(6) [of k] b by (simp add: sync_of_def Let_def split: option.split)
    qed
  next
    case False
    then show ?thesis by (simp add: sync_of_def Let_def)
  qed
  then show "sync_of (s\<lparr>g_sync := (g_sync s)[sync_shard_of m := sh]\<rparr>) = sync_of s" by blast
  let ?es = "(ents sh)[i := (ents sh ! i)\<lparr>ent_sync := y\<rparr>]"
  have fu: "find_sync ?es k 0 = find_sync (ents sh) k 0" for k using sp(1) by (simp add: find_sync_update)
  have "sync_of (s\<lparr>g_sync := (g_sync s)[sync_shard_of m := sh\<lparr>ents := ?es\<rparr>]\<rparr>) k = ((sync_of s)(m := y)) k" for k
  proof (cases "k = m")
    case True
    then show ?thesis using sp(1,2) b fu by (simp add: sync_of_def Let_def)
  next
    case False
    have "find_sync (ents sh) k 0 = Some j \<Longrightarrow> j \<noteq> i" for j
      using find_sync_bound [of "ents sh" k 0 j] sp(3) False by auto
    then have "sync_of (s\<lparr>g_sync := (g_sync s)[sync_shard_of m := sh\<lparr>ents := ?es\<rparr>]\<rparr>) k =
        sync_of (s\<lparr>g_sync := (g_sync s)[sync_shard_of m := sh]\<rparr>) k"
      using b fu by (cases "sync_shard_of k = sync_shard_of m")
        (auto simp: sync_of_def Let_def split: option.split)
    with False same show ?thesis by simp
  qed
  then show "sync_of (s\<lparr>g_sync := (g_sync s)[sync_shard_of m := sh\<lparr>ents := ?es\<rparr>]\<rparr>) = (sync_of s)(m := y)"
    by blast
qed

section \<open>Calls as events\<close>

definition self_events :: "race_rt \<Rightarrow> u64 \<Rightarrow> race_event list" where
  "self_events s me = (case self_key s me of None \<Rightarrow> [Init (next_object s)] | Some h \<Rightarrow> [])"

definition caller :: "race_rt \<Rightarrow> u64 \<Rightarrow> nat" where
  "caller s me = (case self_key s me of None \<Rightarrow> next_object s | Some h \<Rightarrow> h)"

lemma self_trace:
  assumes tr: "rt_trace tabs s es" and lv: "live s me" and r: "rz_self env me s = (Some h, s')"
  shows "h = caller s me" "rt_trace tabs s' (es @ self_events s me)" "objects s' h \<noteq> None"
    "g_races s' = g_races s" "self_key s' me = Some h"
proof -
  have "h = caller s me \<and> rt_trace tabs s' (es @ self_events s me) \<and> objects s' h \<noteq> None
    \<and> g_races s' = g_races s \<and> self_key s' me = Some h"
proof (cases "self_key s me")
  case (Some k)
  then have "h = k" "s' = s" using r tr by (auto simp: rz_self_def rz_rt_init_def rt_trace_def)
  then show ?thesis using tr lv Some by (auto simp: live_def self_events_def caller_def)
next
  case None
  let ?c = "run shard_of tabs es" and ?h = "next_object s"
  have sim: "rt_sim s ?c" and once: "g_once s" using tr by (simp_all add: rt_trace_def)
  note d = rt_simD [OF sim]
  have h: "h = ?h"
    and s': "s' = s\<lparr>g_meta := fst (rz_thread_init (g_meta s)),
      objects := (objects s)(?h \<mapsto> snd (rz_thread_init (g_meta s))), next_object := Suc ?h,
      self_key := (self_key s)(me \<mapsto> ?h)\<rparr>"
    using r None once by (auto simp: rz_self_def rz_rt_init_def new_object_def split_beta Let_def split: if_splits)
  have new: "threads ?c ?h = None" by (rule ccontr) (use d(6) [of ?h] in simp)
  have "rt_sim s' (race_step shard_of ?c (Init h))"
    using sim by (auto simp: rt_sim_def s' h split_beta less_Suc_eq)
  then have "rt_trace tabs s' (es @ [Init h])"
    using tr new by (intro trace_event [OF tr]) (auto simp: h s' once)
  then show ?thesis using None by (auto simp: s' h self_events_def caller_def)
qed
  then show "h = caller s me" "rt_trace tabs s' (es @ self_events s me)" "objects s' h \<noteq> None"
    "g_races s' = g_races s" "self_key s' me = Some h" by blast+
qed

text \<open>The calling thread's object is what the trace knows of it.\<close>

lemma trace_object:
  assumes "rt_trace tabs s es" and "objects s h \<noteq> None"
  shows "object s h = the_thread (run shard_of tabs es) h" "threads (run shard_of tabs es) h \<noteq> None"
  using assms rt_simD(8,9) [of s "run shard_of tabs es" h] by (auto simp: rt_trace_def)

lemma sim_object:
  assumes "rt_sim s c" and "objects s h \<noteq> None"
  shows "rt_sim (s\<lparr>objects := (objects s)(h \<mapsto> t)\<rparr>) (c\<lparr>threads := (threads c)(h \<mapsto> t)\<rparr>)"
  using assms rt_simD(6) [OF assms(1), of h] rt_simD(9) [OF assms] by (auto simp: rt_sim_def)

lemma lock_trace:
  assumes tr: "rt_trace tabs s es" and lv: "live s me"
    and self: "fst (rz_self env me s) \<noteq> None" and mem: "grow_ok env"
  shows "rt_trace tabs (rz_rt_mutex_lock env me m s) (es @ self_events s me @ [Acquire (caller s me) m])"
proof -
  obtain h s1 where r: "rz_self env me s = (Some h, s1)" using self by (cases "rz_self env me s") auto
  define evs where "evs = self_events s me"
  have e: "h = caller s me" "rt_trace tabs s1 (es @ evs)" "objects s1 h \<noteq> None"
    using self_trace [OF tr lv r] by (simp_all add: evs_def)
  let ?c = "run shard_of tabs (es @ evs)"
  have sim: "rt_sim s1 ?c" and once: "g_once s1" using e(2) by (simp_all add: rt_trace_def)
  note d = rt_simD [OF sim]
  obtain i sh where f: "sync_for_in env (g_sync s1 ! sync_shard_of m) m = (Some i, sh)"
    using mem by (cases "find_sync (ents (g_sync s1 ! sync_shard_of m)) m 0") (auto simp: sync_for_in_def Let_def)
  note st = sync_for_in_state [OF d(3) f]
  let ?s2 = "s1\<lparr>g_sync := (g_sync s1)[sync_shard_of m := sh]\<rparr>"
  have sim2: "rt_sim ?s2 ?c" using sim st(1) by (simp add: rt_sim_def)
  have eq: "rz_rt_mutex_lock env me m s = ?s2\<lparr>objects := (objects ?s2)(h \<mapsto>
      rz_mutex_acquire (object s1 h) (sync_of s1 m))\<rparr>"
    by (simp add: rz_rt_mutex_lock_def r f st(2) Let_def) (simp add: object_def)
  have "rt_sim (rz_rt_mutex_lock env me m s) (race_step shard_of ?c (Acquire h m))"
    unfolding eq using sim_object [OF sim2, of h] e(3) trace_object(1) [OF e(2,3)] d(7) by simp
  from trace_event [OF e(2) _ this] have "rt_trace tabs (rz_rt_mutex_lock env me m s) ((es @ evs) @ [Acquire h m])"
    using trace_object(2) [OF e(2,3)] once by (simp add: eq)
  then show ?thesis by (simp add: evs_def e(1))
qed

lemma unlock_trace:
  assumes tr: "rt_trace tabs s es" and lv: "live s me"
    and self: "fst (rz_self env me s) \<noteq> None" and mem: "grow_ok env"
  shows "rt_trace tabs (rz_rt_mutex_unlock env me m s) (es @ self_events s me @ [Release (caller s me) m])"
proof -
  obtain h s1 where r: "rz_self env me s = (Some h, s1)" using self by (cases "rz_self env me s") auto
  define evs where "evs = self_events s me"
  have e: "h = caller s me" "rt_trace tabs s1 (es @ evs)" "objects s1 h \<noteq> None"
    using self_trace [OF tr lv r] by (simp_all add: evs_def)
  let ?c = "run shard_of tabs (es @ evs)"
  have sim: "rt_sim s1 ?c" and once: "g_once s1" using e(2) by (simp_all add: rt_trace_def)
  note d = rt_simD [OF sim]
  obtain i sh where f: "sync_for_in env (g_sync s1 ! sync_shard_of m) m = (Some i, sh)"
    using mem by (cases "find_sync (ents (g_sync s1 ! sync_shard_of m)) m 0") (auto simp: sync_for_in_def Let_def)
  note st = sync_for_in_state [OF d(3) f]
  let ?r = "rz_mutex_release (object s1 h) (sync_of s1 m)"
  let ?s2 = "s1\<lparr>g_sync := (g_sync s1)[sync_shard_of m := sh\<lparr>ents := (ents sh)[i := (ents sh ! i)\<lparr>ent_sync := snd ?r\<rparr>]\<rparr>]\<rparr>"
  have sim2: "rt_sim ?s2 (?c\<lparr>syncs := (syncs ?c)(m := snd ?r)\<rparr>)"
    using sim st(3) by (auto simp: rt_sim_def)
  have eq: "rz_rt_mutex_unlock env me m s = ?s2\<lparr>objects := (objects ?s2)(h \<mapsto> fst ?r)\<rparr>"
    by (simp add: rz_rt_mutex_unlock_def r f st(2) Let_def split_beta) (simp add: object_def)
  have step: "race_step shard_of ?c (Release h m) =
      (?c\<lparr>syncs := (syncs ?c)(m := snd ?r)\<rparr>)\<lparr>threads := (threads ?c)(h \<mapsto> fst ?r)\<rparr>"
    using trace_object(1) [OF e(2,3)] d(7) by (simp add: split_beta)
  have "rt_sim (rz_rt_mutex_unlock env me m s) (race_step shard_of ?c (Release h m))"
    unfolding eq step using sim_object [OF sim2, of h "fst ?r"] e(3) by simp
  from trace_event [OF e(2) _ this] have "rt_trace tabs (rz_rt_mutex_unlock env me m s) ((es @ evs) @ [Release h m])"
    using trace_object(2) [OF e(2,3)] once by (simp add: eq)
  then show ?thesis by (simp add: evs_def e(1))
qed

section \<open>Accesses\<close>

definition access_events :: "nat \<Rightarrow> bool \<Rightarrow> cstr \<Rightarrow> int \<Rightarrow> u64 list \<Rightarrow> race_event list" where
  "access_events h w loc line ws = map (\<lambda>x. Access h (push_bit 3 x) w loc line) ws"

lemma drop_push3:
  assumes "unat (x :: u64) < 2305843009213693952"
  shows "drop_bit 3 (push_bit 3 x) = x"
proof -
  have "unat (push_bit 3 x) = unat x * 8"
    using assms by (simp add: push_bit_eq_mult unat_word_ariths)
  then show ?thesis by (simp add: word_unat_eq_iff unat_drop3)
qed

lemma access_words_small: "x \<in> set (access_words addr sz) \<Longrightarrow> unat x < 2305843009213693952"
proof -
  assume "x \<in> set (access_words addr sz)"
  then obtain n where n: "x = of_nat n"
    "n \<le> unat (drop_bit 3 (addr + (if sz = 0 then 1 else sz) - 1))"
    by (auto simp: access_words_def Let_def simp del: upt_Suc)
  define y where "y = addr + (if sz = 0 then 1 else sz) - 1"
  have "unat y div 8 < 2305843009213693952"
    using unat_bound64 [of y] by (simp add: div_less_iff_less_mult)
  with n(2) have "n < 2305843009213693952" by (simp only: unat_drop3 y_def [symmetric])
  with n(1) show ?thesis by (simp add: unat_of_nat)
qed

lemma access_raced_report:
  "fst (fst (rz_race_access_loc s t a w loc line)) \<longleftrightarrow> snd (fst (rz_race_access_loc s t a w loc line)) \<noteq> None"
  by (auto simp: rz_race_access_loc_def Let_def cells_race_first split: prod.split option.split)

lemma access_step_sim:
  fixes w loc line
  assumes sim: "rt_sim (s\<lparr>g_shard := shs\<rparr>) c" and t: "threads c h = Some t"
    and x: "unat x < 2305843009213693952"
  defines "r \<equiv> rz_race_access_loc (shs ! shard_of x) t (push_bit 3 x) w loc line"
  shows "rt_sim (s\<lparr>g_shard := shs[shard_of x := snd r]\<rparr>) (race_step shard_of c (Access h (push_bit 3 x) w loc line))"
    and "threads (race_step shard_of c (Access h (push_bit 3 x) w loc line)) h = Some t"
    and "event_report shard_of c (Access h (push_bit 3 x) w loc line) = snd (fst r)"
proof -
  have e: "shs ! shard_of x = shards c (shard_of x)" "length shs = RZ_NSHARD"
    using rt_simD(4) [OF sim shard_bound] rt_simD(2) [OF sim] by simp_all
  note d = drop_push3 [OF x]
  show "rt_sim (s\<lparr>g_shard := shs[shard_of x := snd r]\<rparr>) (race_step shard_of c (Access h (push_bit 3 x) w loc line))"
    using sim e t by (auto simp: rt_sim_def r_def d Let_def nth_list_update)
  show "threads (race_step shard_of c (Access h (push_bit 3 x) w loc line)) h = Some t"
    using t by (simp add: Let_def)
  show "event_report shard_of c (Access h (push_bit 3 x) w loc line) = snd (fst r)"
    using t e by (simp add: d r_def)
qed

lemma loop_trace:
  assumes "access_loop t w loc line ws hits hit shs = (hits', hit', shs')"
    and "rt_sim (s\<lparr>g_shard := shs\<rparr>) (run shard_of tabs es)" and "valid_trace shard_of tabs es"
    and "threads (run shard_of tabs es) h = Some t"
    and "\<And>x. x \<in> set ws \<Longrightarrow> unat x < 2305843009213693952"
  shows "rt_sim (s\<lparr>g_shard := shs'\<rparr>) (run shard_of tabs (es @ access_events h w loc line ws))
    \<and> valid_trace shard_of tabs (es @ access_events h w loc line ws)
    \<and> (hits' \<noteq> hits \<longrightarrow> (\<exists>j. length es \<le> j \<and> j < length (es @ access_events h w loc line ws)
          \<and> event_report shard_of (run shard_of tabs (take j (es @ access_events h w loc line ws)))
              ((es @ access_events h w loc line ws) ! j) \<noteq> None))"
  using assms
proof (induction ws arbitrary: hits hit shs es)
  case Nil
  then show ?case by (simp add: access_events_def)
next
  case (Cons x ws)
  let ?e = "Access h (push_bit 3 x) w loc line" and ?c = "run shard_of tabs es"
  let ?r = "rz_race_access_loc (shs ! shard_of x) t (push_bit 3 x) w loc line"
  have "unat x < 2305843009213693952" using Cons.prems(5) by simp
  note st = access_step_sim [OF Cons.prems(2,4) this, where w = w and loc = loc and line = line]
  have ev: "es @ access_events h w loc line (x # ws) = (es @ [?e]) @ access_events h w loc line ws"
    by (simp add: access_events_def)
  have v: "valid_trace shard_of tabs (es @ [?e])"
    using Cons.prems(3,4) by (simp add: valid_trace_snoc)
  obtain hits1 hit1 where l: "access_loop t w loc line ws hits1 hit1 (shs[shard_of x := snd ?r]) = (hits', hit', shs')"
    and h1: "hits1 = (if fst (fst ?r) then hits + 1 else hits)"
    using Cons.prems(1) by (cases ?r) (auto simp: Let_def split: if_splits)
  have s: "rt_sim (s\<lparr>g_shard := shs[shard_of x := snd ?r]\<rparr>) (run shard_of tabs (es @ [?e]))"
    using st(1) by simp
  have t: "threads (run shard_of tabs (es @ [?e])) h = Some t" using st(2) by simp
  have small: "\<And>y. y \<in> set ws \<Longrightarrow> unat y < 2305843009213693952" using Cons.prems(5) by simp
  note ih = Cons.IH [OF l s v t small]
  have "\<exists>j. length es \<le> j \<and> j < length (es @ access_events h w loc line (x # ws))
      \<and> event_report shard_of (run shard_of tabs (take j (es @ access_events h w loc line (x # ws))))
          ((es @ access_events h w loc line (x # ws)) ! j) \<noteq> None" if ne: "hits' \<noteq> hits"
  proof (cases "fst (fst ?r)")
    case True
    then have "event_report shard_of ?c ?e \<noteq> None" unfolding st(3) access_raced_report .
    then show ?thesis by (intro exI [of _ "length es"]) (simp add: access_events_def nth_append)
  next
    case False
    then have "hits' \<noteq> hits1" using ne h1 by simp
    then obtain j where "length (es @ [?e]) \<le> j" "j < length ((es @ [?e]) @ access_events h w loc line ws)"
      "event_report shard_of (run shard_of tabs (take j ((es @ [?e]) @ access_events h w loc line ws)))
        (((es @ [?e]) @ access_events h w loc line ws) ! j) \<noteq> None"
      using ih by blast
    then show ?thesis unfolding ev by (intro exI [of _ j]) auto
  qed
  then show ?case using ih unfolding ev by blast
qed

lemma rt_sim_irrelevant:
  "rt_sim (s\<lparr>g_races := a\<rparr>) = rt_sim s" "rt_sim (s\<lparr>g_report_lines := b\<rparr>) = rt_sim s"
  "rt_sim (s\<lparr>printed := d\<rparr>) = rt_sim s" "rt_sim (s\<lparr>self_key := k\<rparr>) = rt_sim s"
  "rt_sim (s\<lparr>g_threads := l\<rparr>) = rt_sim s"
  by (auto simp: rt_sim_def [abs_def])

lemma rt_sim_report: "rt_sim (snd (should_report l p s)) = rt_sim s" "g_once (snd (should_report l p s)) = g_once s"
  by (auto simp: should_report_def rt_sim_irrelevant)

lemma access_range_trace:
  fixes w loc line addr sz
  assumes tr: "rt_trace tabs s es" and lv: "live s me" and self: "fst (rz_self env me s) \<noteq> None"
  defines "es' \<equiv> es @ self_events s me @ access_events (caller s me) w loc line (access_words addr sz)"
  shows "rt_trace tabs (access_range env me addr sz w loc line s) es'"
    and "g_races (access_range env me addr sz w loc line s) \<noteq> g_races s \<Longrightarrow>
      \<exists>j < length es'. event_report shard_of (run shard_of tabs (take j es')) (es' ! j) \<noteq> None"
proof -
  obtain h s1 where r: "rz_self env me s = (Some h, s1)" using self by (cases "rz_self env me s") auto
  define evs where "evs = self_events s me"
  have e: "h = caller s me" "rt_trace tabs s1 (es @ evs)" "objects s1 h \<noteq> None" "g_races s1 = g_races s"
    using self_trace [OF tr lv r] by (simp_all add: evs_def)
  let ?c = "run shard_of tabs (es @ evs)" and ?ws = "access_words addr sz"
  have sim: "rt_sim s1 ?c" and once: "g_once s1" and v: "valid_trace shard_of tabs (es @ evs)"
    using e(2) by (simp_all add: rt_trace_def)
  have t: "threads ?c h = Some (object s1 h)"
    using trace_object [OF e(2,3)] by (auto simp: the_thread_def split: option.splits)
  obtain hits hit shs where l: "access_loop (object s1 h) w loc line ?ws 0 None (g_shard s1) = (hits, hit, shs)"
    by (cases "access_loop (object s1 h) w loc line ?ws 0 None (g_shard s1)") auto
  have "rt_sim (s1\<lparr>g_shard := g_shard s1\<rparr>) ?c" using sim by simp
  note lt = loop_trace [OF l this v t access_words_small [of _ addr sz], unfolded append_assoc]
  let ?s = "access_range env me addr sz w loc line s"
  have out: "rt_sim ?s = rt_sim (s1\<lparr>g_shard := shs\<rparr>)" "g_once ?s"
    "g_races ?s = (if hits = 0 then g_races s1 else g_races s1 + hits)"
    using once by (auto simp: access_range_def r l Let_def split_beta print_race_def rt_sim_irrelevant
        rt_sim_report should_report_def)
  have es': "es' = es @ evs @ access_events h w loc line ?ws" by (simp add: es'_def evs_def e(1))
  show "rt_trace tabs ?s es'" using lt out by (simp add: rt_trace_def es')
  have "hits \<noteq> 0" if "g_races ?s \<noteq> g_races s" using that out(3) e(4) by (auto split: if_splits)
  then show "\<exists>j < length es'. event_report shard_of (run shard_of tabs (take j es')) (es' ! j) \<noteq> None"
    if "g_races ?s \<noteq> g_races s" using lt that unfolding es' by blast
qed

section \<open>Starting the runtime\<close>

definition fresh_tables :: "race_env \<Rightarrow> nat \<Rightarrow> rz_race_state" where
  "fresh_tables env k = snd (rz_race_state_init_n (shard_ok env k) (RZ_RACE_BUCKETS div of_nat RZ_NSHARD) blank_state)"

lemma empty_table_ok:
  assumes "k < 63"
  shows "table_ok \<lparr>buckets = Some (replicate (2 ^ k) empty_bucket), nbuckets = 2 ^ k, next_tid = n\<rparr>"
    and "word_cells \<lparr>buckets = Some (replicate (2 ^ k) empty_bucket), nbuckets = 2 ^ k, next_tid = n\<rparr> w =
      replicate RZ_RACE_CELLS no_access"
proof -
  let ?s = "\<lparr>buckets = Some (replicate (2 ^ k) empty_bucket), nbuckets = 2 ^ k, next_tid = n\<rparr>"
  have u: "unat ((2 :: u64) ^ k) = 2 ^ k" using assms by (simp add: unat_pow2)
  have key: "key_at ?s j = 0" "cells_at ?s j = replicate RZ_RACE_CELLS no_access" if "j < 2 ^ k" for j
    using that by (simp_all add: key_at_def cells_at_def empty_bucket_def)
  show ok: "table_ok ?s"
    by (rule table_okI [OF _ assms]) (use key u in \<open>auto simp: RZ_RACE_CELLS_def\<close>)
  show "word_cells ?s w = replicate RZ_RACE_CELLS no_access"
  proof (cases "\<exists>j. probe_word ?s w = Hit j")
    case True
    then obtain j where j: "probe_word ?s w = Hit j" by blast
    then have "j < 2 ^ k" using table_probe_bound(1) [OF ok, of "replicate (2 ^ k) empty_bucket" w j] by simp
    then show ?thesis using word_cells_hit [OF _ j] key by simp
  next
    case False
    then show ?thesis by (intro word_cells_miss) simp_all
  qed
qed

lemma fresh_tables_clean: "tables_clean (fresh_tables env)"
proof -
  have b: "RZ_RACE_BUCKETS div of_nat RZ_NSHARD = 2 ^ 8"
    by (simp add: RZ_RACE_BUCKETS_def RZ_NSHARD_def)
  have e: "fresh_tables env k = (if shard_ok env k
      then \<lparr>buckets = Some (replicate (2 ^ 8) empty_bucket), nbuckets = 2 ^ 8, next_tid = 0\<rparr>
      else \<lparr>buckets = None, nbuckets = 0, next_tid = 0\<rparr>)" for k
    unfolding fresh_tables_def b by (simp add: rz_race_state_init_n_def blank_state_def)
  have "table_ok (fresh_tables env k)" for k
    unfolding e using empty_table_ok(1) [of 8 0] by (simp add: table_ok_def)
  moreover have "word_cells (fresh_tables env k) w = replicate RZ_RACE_CELLS no_access" for k w
    unfolding e using empty_table_ok(2) [of 8 0 w] word_cells_none by simp
  ultimately show ?thesis by (simp add: tables_clean_def no_access_def RZ_RACE_CELLS_def)
qed

lemma start_trace:
  assumes "calloc_ok env"
  shows "rt_trace (fresh_tables env) (rz_rt_init env me loaded_rt) [Init 0]"
    and "live (rz_rt_init env me loaded_rt) who"
proof -
  let ?s = "rz_rt_init env me loaded_rt"
  have s: "g_once ?s" "g_meta ?s = fst (rz_thread_init blank_state)"
    "g_shard ?s = map (fresh_tables env) [0..<RZ_NSHARD]"
    "objects ?s = [0 \<mapsto> snd (rz_thread_init blank_state)]" "next_object ?s = 1"
    "g_sync ?s = replicate RZ_NSYNC \<lparr>ents = [], sync_cap = 0\<rparr>" "self_key ?s = [me \<mapsto> 0]"
    using assms by (auto simp: rz_rt_init_def loaded_rt_def init_once_def new_object_def fresh_tables_def
        split_beta Let_def blank_state_def)
  have "sync_of ?s m = rz_sync_init" for m
    using sync_shard_bound [of m] by (simp add: sync_of_def s Let_def)
  then have "rt_sim ?s (race_step shard_of (init_cfg (fresh_tables env)) (Init 0))"
    by (auto simp: rt_sim_def s init_cfg_def split_beta blank_state_def)
  then show "rt_trace (fresh_tables env) ?s [Init 0]"
    using s(1) by (simp add: rt_trace_def valid_trace_def init_cfg_def run_def)
  show "live ?s who" by (simp add: live_def s)
qed

section \<open>Creating and joining threads\<close>

lemma create_trace:
  assumes tr: "rt_trace tabs s es" and lv: "live s me"
    and p: "create_prepare env me s = Some (Some child, s')"
  shows "rt_trace tabs s' (es @ self_events s me @ [Create (caller s me) child])" and "objects s' child \<noteq> None"
proof -
  obtain h s1 where r: "rz_self env me s = (Some h, s1)" and c: "calloc_ok env" "tramp_ok env"
    using p by (auto simp: create_prepare_def split_beta Let_def split: if_splits option.splits) (metis prod.collapse)
  define evs where "evs = self_events s me"
  have e: "h = caller s me" "rt_trace tabs s1 (es @ evs)" "objects s1 h \<noteq> None"
    using self_trace [OF tr lv r] by (simp_all add: evs_def)
  let ?c = "run shard_of tabs (es @ evs)" and ?k = "next_object s1"
  have sim: "rt_sim s1 ?c" and once: "g_once s1" using e(2) by (simp_all add: rt_trace_def)
  note d = rt_simD [OF sim]
  have new: "threads ?c ?k = None" by (rule ccontr) (use d(6) [of ?k] in simp)
  have ne: "h \<noteq> ?k" using trace_object(2) [OF e(2,3)] new by auto
  let ?r = "rz_thread_create (g_meta s1) (object s1 h) zero_thread"
  have s': "child = ?k" "s' = s1\<lparr>next_object := Suc ?k, g_meta := fst ?r,
      objects := (objects s1)(?k \<mapsto> zero_thread, h \<mapsto> fst (snd ?r), ?k \<mapsto> snd (snd ?r))\<rparr>"
    using p ne by (auto simp: create_prepare_def r c new_object_def split_beta Let_def object_def)
  have ob: "object s1 h = the_thread ?c h" by (rule trace_object(1) [OF e(2,3)])
  have "rt_sim s' (race_step shard_of ?c (Create h ?k))"
    using sim ne d(6) [of h] trace_object(2) [OF e(2,3)] unfolding s'(2) ob
    by (auto simp: rt_sim_def split_beta less_Suc_eq)
  from trace_event [OF e(2) _ this] have "rt_trace tabs s' ((es @ evs) @ [Create h ?k])"
    using trace_object(2) [OF e(2,3)] new once by (simp add: s'(2))
  then show "rt_trace tabs s' (es @ self_events s me @ [Create (caller s me) child])"
    and "objects s' child \<noteq> None" by (auto simp: s' evs_def e(1))
qed

lemma create_finish_trace:
  assumes "rt_trace tabs s es"
  shows "rt_trace tabs (create_finish env rc t child s) es"
  using assms
  by (auto simp: rt_trace_def create_finish_def reg_thread_def rt_sim_irrelevant Let_def split: option.split)
    (auto simp: rt_sim_def)

lemma trampoline_trace:
  assumes "rt_trace tabs s es" and "objects s h \<noteq> None"
  shows "rt_trace tabs (trampoline me h s) es" "live (trampoline me h s) me"
  using assms by (auto simp: rt_trace_def trampoline_def rt_sim_irrelevant live_def)

lemma join_trace:
  assumes tr: "rt_trace tabs s es" and self: "self_key s me = Some p" "objects s p \<noteq> None"
    and tk: "take_thread t s = (Some k, s1)" "objects s k \<noteq> None"
  shows "\<exists>s'. rz_rt_pthread_join env me (\<lambda>s. (0, s)) t s = Some (0, s') \<and> rt_trace tabs s' (es @ [Join p k])"
proof -
  let ?c = "run shard_of tabs es"
  have sim: "rt_sim s ?c" and once: "g_once s" using tr by (simp_all add: rt_trace_def)
  have s1: "rt_sim s1 = rt_sim s" "objects s1 = objects s" "g_once s1 = g_once s" "object s1 = object s"
    using tk(1) by (auto simp: take_thread_def rt_sim_irrelevant object_def [abs_def] split: option.splits)
  let ?t = "rz_thread_join (object s p) (object s k)"
  have r: "rz_rt_pthread_join env me (\<lambda>s. (0, s)) t s =
      Some (0, s1\<lparr>objects := ((objects s)(p \<mapsto> ?t))(k := None)\<rparr>)"
    using self(1) once tk(1) s1 by (simp add: rz_rt_pthread_join_def rz_self_def rz_rt_init_def Let_def)
  note o = trace_object [OF tr self(2)] trace_object [OF tr tk(2)]
  have thr: "threads ?c x = Some y" if "objects s x = Some y" for x y using rt_simD(5) [OF sim that] .
  have "rt_sim (s1\<lparr>objects := (objects s1)(p \<mapsto> ?t)\<rparr>) (?c\<lparr>threads := (threads ?c)(p \<mapsto> ?t)\<rparr>)"
    by (rule sim_object) (use sim s1 self(2) in simp_all)
  then have "rt_sim (s1\<lparr>objects := ((objects s)(p \<mapsto> ?t))(k := None)\<rparr>) (race_step shard_of ?c (Join p k))"
    using o(1,3) s1(2) by (auto simp: rt_sim_def intro: thr)
  from trace_event [OF tr _ this] show ?thesis using o(2,4) once s1(3) r by simp
qed

section \<open>The registry of threads\<close>

lemma find_thr_bound: "find_thr es t i = Some j \<Longrightarrow> i \<le> j \<and> j < i + length es \<and> used (es ! (j - i)) \<and> thr (es ! (j - i)) = t"
  by (induction es arbitrary: i) (fastforce simp: nth_Cons' Suc_le_eq split: if_splits)+

lemma first_unused_bound: "first_unused es i = Some j \<Longrightarrow> i \<le> j \<and> j < i + length es \<and> \<not> used (es ! (j - i))"
  by (induction es arbitrary: i) (fastforce simp: nth_Cons' Suc_le_eq split: if_splits)+

lemma first_unused_None: "first_unused es i = None \<Longrightarrow> e \<in> set es \<Longrightarrow> used e"
  by (induction es arbitrary: i) (auto split: if_splits)

lemma find_thr_set_new:
  "find_thr es t i = None \<Longrightarrow> j < length es \<Longrightarrow> used e \<Longrightarrow> thr e = t \<Longrightarrow>
    find_thr (es[j := e]) t i = Some (i + j)"
proof (induction es arbitrary: i j)
  case (Cons a es)
  then show ?case by (cases j) (auto split: if_splits)
qed simp

lemma find_thr_set_later:
  "find_thr es t i = Some k \<Longrightarrow> k < i + j \<Longrightarrow> find_thr (es[j := e]) t i = Some k"
proof (induction es arbitrary: i j)
  case (Cons a es)
  show ?case
  proof (cases j)
    case 0
    with Cons.prems find_thr_bound [of "a # es" t i k] show ?thesis by auto
  next
    case (Suc n)
    with Cons.prems Cons.IH [of "Suc i" n] show ?thesis by (auto split: if_splits)
  qed
qed simp

lemma find_thr_append_unused: "find_thr (es @ replicate n unused_ent) t i = find_thr es t i"
  by (induction es arbitrary: i)
    (auto simp: unused_ent_def, induct n, auto simp: unused_ent_def)

section \<open>Every call\<close>

text \<open>
  The calls of the runtime with the acting OS thread first. A wrapper around a pthread call is the
  call it records, before or after the real one; \<open>Call_created\<close> is the second half of creating a
  thread, \<open>Call_started\<close> the trampoline in the new one.
\<close>

datatype rt_call =
    Call_lock u64 u64
  | Call_unlock u64 u64
  | Call_access u64 u64 u64 bool cstr int
  | Call_create u64
  | Call_created int u64 "nat option"
  | Call_started u64 nat
  | Call_join u64 u64

fun rt_exec :: "race_env \<Rightarrow> race_rt \<Rightarrow> rt_call \<Rightarrow> race_rt" where
  "rt_exec env s (Call_lock me m) = rz_rt_mutex_lock env me m s"
| "rt_exec env s (Call_unlock me m) = rz_rt_mutex_unlock env me m s"
| "rt_exec env s (Call_access me addr sz w loc line) = access_range env me addr sz w loc line s"
| "rt_exec env s (Call_create me) = (case create_prepare env me s of None \<Rightarrow> s | Some (child, s') \<Rightarrow> s')"
| "rt_exec env s (Call_created rc t child) = create_finish env rc t child s"
| "rt_exec env s (Call_started me h) = trampoline me h s"
| "rt_exec env s (Call_join me t) =
     (case rz_rt_pthread_join env me (\<lambda>s. (0, s)) t s of None \<Rightarrow> s | Some (rc, s') \<Rightarrow> s')"

text \<open>
  The system has memory, the caller has not been joined, and a join finds the live object of the
  thread that was joined.
\<close>

fun call_ok :: "race_env \<Rightarrow> race_rt \<Rightarrow> rt_call \<Rightarrow> bool" where
  "call_ok env s (Call_lock me m) \<longleftrightarrow> live s me \<and> calloc_ok env \<and> grow_ok env"
| "call_ok env s (Call_unlock me m) \<longleftrightarrow> live s me \<and> calloc_ok env \<and> grow_ok env"
| "call_ok env s (Call_access me addr sz w loc line) \<longleftrightarrow> live s me \<and> calloc_ok env"
| "call_ok env s (Call_create me) \<longleftrightarrow> live s me \<and> calloc_ok env \<and> tramp_ok env"
| "call_ok env s (Call_created rc t child) \<longleftrightarrow> True"
| "call_ok env s (Call_started me h) \<longleftrightarrow> objects s h \<noteq> None"
| "call_ok env s (Call_join me t) \<longleftrightarrow> self_key s me \<noteq> None \<and> live s me
     \<and> (\<exists>k. fst (take_thread t s) = Some k \<and> objects s k \<noteq> None)"

fun rt_events :: "race_rt \<Rightarrow> rt_call \<Rightarrow> race_event list" where
  "rt_events s (Call_lock me m) = self_events s me @ [Acquire (caller s me) m]"
| "rt_events s (Call_unlock me m) = self_events s me @ [Release (caller s me) m]"
| "rt_events s (Call_access me addr sz w loc line) =
     self_events s me @ access_events (caller s me) w loc line (access_words addr sz)"
| "rt_events s (Call_create me) =
     self_events s me @ [Create (caller s me) (next_object s + length (self_events s me))]"
| "rt_events s (Call_created rc t child) = []"
| "rt_events s (Call_started me h) = []"
| "rt_events s (Call_join me t) = [Join (caller s me) (the (fst (take_thread t s)))]"

lemma self_Some: "calloc_ok env \<Longrightarrow> fst (rz_self env me s) \<noteq> None"
  by (auto simp: rz_self_def Let_def split_beta split: option.split)

lemma prepare_child:
  assumes "g_once s" and "calloc_ok env" and "tramp_ok env"
  shows "\<exists>s'. create_prepare env me s = Some (Some (next_object s + length (self_events s me)), s')"
  using assms
  by (auto simp: create_prepare_def rz_self_def rz_rt_init_def new_object_def self_events_def split_beta Let_def
      split: option.split)

lemma exec_refines:
  assumes tr: "rt_trace tabs s es" and ok: "call_ok env s call"
  shows "rt_trace tabs (rt_exec env s call) (es @ rt_events s call)"
proof (cases call)
  case (Call_lock me m)
  then show ?thesis using lock_trace [OF tr _ self_Some] ok by simp
next
  case (Call_unlock me m)
  then show ?thesis using unlock_trace [OF tr _ self_Some] ok by simp
next
  case (Call_access me addr sz w loc line)
  then show ?thesis using access_range_trace(1) [OF tr _ self_Some] ok by simp
next
  case (Call_create me)
  have once: "g_once s" using tr by (simp add: rt_trace_def)
  then obtain s' where p: "create_prepare env me s = Some (Some (next_object s + length (self_events s me)), s')"
    using prepare_child [of s env me] ok Call_create by auto
  then show ?thesis using create_trace(1) [OF tr _ p] ok Call_create by simp
next
  case (Call_created rc t child)
  then show ?thesis using create_finish_trace [OF tr] by simp
next
  case (Call_started me h)
  then show ?thesis using trampoline_trace(1) [OF tr] ok by simp
next
  case (Call_join me t)
  then obtain p k s1 where "self_key s me = Some p" "objects s p \<noteq> None" "take_thread t s = (Some k, s1)"
    "objects s k \<noteq> None"
    using ok by (cases "take_thread t s") (auto simp: live_def)
  then show ?thesis
    using join_trace [OF tr, of me p t k s1 env] Call_join by (auto simp: caller_def)
qed

end
