(* ===== verification/Race_Props.thy ===== *)
theory Race_Props
  imports Race_Refine Race_Complete
begin

text \<open>
  What the race detector guarantees: a report is a real unordered conflict of the recorded trace, at
  the granularity of 8-byte words, an unordered access is reported, and the two-thread trace of a
  sample program shows both sides.
\<close>

section \<open>Two accesses in a row\<close>

lemma scan_slots_free:
  "scan_slots cs tid i free = (None, b) \<Longrightarrow> c \<in> set cs \<Longrightarrow> \<not> (valid c \<and> acc_tid c = tid)"
  by (induction cs arbitrary: i free) (auto split: if_splits)

lemma stamped_write: "acc_write (stamped t w loc line c) \<longleftrightarrow>
    w \<or> valid c \<and> acc_tid c = th_tid t \<and> acc_epoch c = cur_epoch t \<and> acc_write c"
  by (auto simp: stamped_def Let_def)

text \<open>The cell just written is there, so an uncovered access by another thread meets it.\<close>

lemma record_then_race:
  assumes ok: "cells_ok cs" and t: "tid_ok (th_tid t1)" "th_tid t2 \<noteq> th_tid t1" and w: "w1 \<or> w2"
    and e: "th_clock t2 (nat (th_tid t1)) < cur_epoch t1"
  shows "cells_race (record_cells t1 w1 loc line cs) t2 w2"
proof -
  have ne: "cs \<noteq> []" using ok by (auto simp: cells_ok_def RZ_RACE_CELLS_def)
  let ?k = "choose_slot cs (th_tid t1)" let ?c = "stamped t1 w1 loc line (cs ! ?k)"
  have "?c \<in> set (record_cells t1 w1 loc line cs)"
    using choose_slot_bound [OF ne] by (simp add: record_cells_def Let_def set_update_memI)
  moreover have "rz_race_check ?c (th_tid t2) (th_clock t2) w2"
    using t w e stamped_cases(1-3) [of t1 w1 loc line "cs ! ?k"] by (auto simp: race_check_iff stamped_write)
  ultimately show ?thesis by (auto simp: cells_race_def list_ex_iff)
qed

lemma locate_none_cells:
  "fst (find_bucket s w True) = None \<Longrightarrow> word_cells s w = replicate RZ_RACE_CELLS no_access"
proof (cases "buckets s")
  case (Some bs)
  assume "fst (find_bucket s w True) = None"
  then have "probe_word s w = Exhausted" using Some by (auto simp: locate_eq split: probed.splits)
  then show ?thesis using Some by (intro word_cells_miss) simp_all
qed (simp add: word_cells_none)

lemma empty_table_room:
  assumes k: "k < 63"
  shows "fst (find_bucket \<lparr>buckets = Some (replicate (2 ^ k) empty_bucket), nbuckets = 2 ^ k, next_tid = n\<rparr> w True) \<noteq> None"
proof
  let ?s = "\<lparr>buckets = Some (replicate (2 ^ k) empty_bucket), nbuckets = 2 ^ k, next_tid = n\<rparr>"
  assume "fst (find_bucket ?s w True) = None"
  then have ex: "probe_list (key_at ?s) (w + 1) (word_slots ?s w) = Exhausted"
    by (auto simp: locate_eq probe_word_def split: probed.splits)
  have "length (word_slots ?s w) = 2 ^ k" using k by (simp add: word_slots_def slots_def unat_pow2)
  then obtain j where j: "j \<in> set (word_slots ?s w)" by (cases "word_slots ?s w") auto
  then have "j < 2 ^ k" using word_slots_bound [of ?s k j w] k by (simp add: unat_pow2)
  then have "key_at ?s j = 0" by (simp add: key_at_def empty_bucket_def)
  then show False using probe_list_Exhausted [OF ex j] by simp
qed

lemma access_then_race:
  assumes ok: "table_ok s" and room: "fst (find_bucket s (drop_bit 3 a) True) \<noteq> None"
    and same: "drop_bit 3 b = drop_bit 3 a"
    and t: "tid_ok (th_tid t1)" "th_tid t2 \<noteq> th_tid t1" and w: "w1 \<or> w2"
    and e: "th_clock t2 (nat (th_tid t1)) < cur_epoch t1"
  shows "fst (fst (rz_race_access_loc (snd (rz_race_access_loc s t1 a w1 loc1 line1)) t2 b w2 loc2 line2))"
proof -
  let ?s = "snd (rz_race_access_loc s t1 a w1 loc1 line1)" and ?w = "drop_bit 3 a"
  have ok': "table_ok ?s" by (rule access_table_ok [OF ok])
  have cells: "word_cells ?s ?w = record_cells t1 w1 loc1 line1 (word_cells s ?w)"
    using wm.update_look [OF ok word_of_addr word_of_addr, of "record_cells t1 w1 loc1 line1" a a] room
    by (simp add: access_state [OF ok] record_cells_ok)
  have race: "cells_race (word_cells ?s ?w) t2 w2"
    unfolding cells by (rule record_then_race [OF wm.look_good [OF ok word_of_addr] t w e])
  moreover have "fst (find_bucket ?s ?w True) \<noteq> None"
  proof
    assume "fst (find_bucket ?s ?w True) = None"
    then have "word_cells ?s ?w = replicate RZ_RACE_CELLS no_access" by (rule locate_none_cells)
    with race show False by (simp add: cells_race_def rz_race_check_def no_access_def list_ex_iff)
  qed
  ultimately show ?thesis by (simp add: access_result [OF ok'] same)
qed

section \<open>A sample trace\<close>

definition demo_tables :: "nat \<Rightarrow> rz_race_state" where
  "demo_tables k = \<lparr>buckets = Some (replicate 2 empty_bucket), nbuckets = 2, next_tid = 0\<rparr>"

definition demo_racy :: "race_event list" where
  "demo_racy = [Init 0, Create 0 1, Access 1 4096 True (Some ''a.c'') 7, Access 0 4100 True (Some ''a.c'') 9]"

lemma demo_tables_ok: "table_ok (demo_tables k)" "tables_clean demo_tables"
  using empty_table_ok [of 1 0]
  by (simp_all add: tables_clean_def demo_tables_def no_access_def RZ_RACE_CELLS_def numeral_2_eq_2)

lemma step_threads:
  "threads (race_step route c (Init h)) = (threads c)(h \<mapsto> snd (rz_thread_init (tids c)))"
  "threads (race_step route c (Create p k)) = (threads c)
     (p \<mapsto> fst (snd (rz_thread_create (tids c) (the_thread c p) zero_thread)),
      k \<mapsto> snd (snd (rz_thread_create (tids c) (the_thread c p) zero_thread)))"
  "threads (race_step route c (Access h a w loc line)) = threads c"
  by (simp_all add: split_beta Let_def)

text \<open>The two threads of the sample: the creator's second epoch, the child's first.\<close>

lemma demo_threads:
  fixes es assumes "es = [Init 0, Create 0 1] \<or> es = [Init 0, Create 0 1, e]" and "e = Access h a w loc line"
  shows "threads (run route tabs es) 0 = Some \<lparr>th_tid = 0, th_clock = rz_vc_init(0 := 2)\<rparr>"
    "threads (run route tabs es) 1 = Some \<lparr>th_tid = 1, th_clock = rz_vc_init(0 := 1, 1 := 1)\<rparr>"
  using assms
  by (auto simp: run_def init_cfg_def engine_defs rz_vc_tick_def tid_ok_def RZ_RACE_MAX_THREADS_def
      the_thread_def zero_thread_def rz_vc_init_def)

lemma demo_good: "good_trace (\<lambda>w. 0) demo_tables demo_racy"
proof -
  have "enabled (run (\<lambda>w. 0) demo_tables []) (Init 0)" by (simp add: init_cfg_def)
  moreover have "enabled (run (\<lambda>w. 0) demo_tables [Init 0]) (Create 0 1)"
    by (simp add: run_def init_cfg_def engine_defs)
  moreover have "enabled (run (\<lambda>w. 0) demo_tables [Init 0, Create 0 1]) (Access 1 a w loc line)" for a w loc line
    using demo_threads [of "[Init 0, Create 0 1]"] by simp
  moreover have "enabled (run (\<lambda>w. 0) demo_tables [Init 0, Create 0 1, Access 1 a w loc line]) (Access 0 b v l n)"
    for a w loc line b v l n
    using demo_threads [of "[Init 0, Create 0 1, Access 1 a w loc line]"] by simp
  ultimately have "\<forall>i < 4. enabled (run (\<lambda>w. 0) demo_tables (take i demo_racy)) (demo_racy ! i)"
    by (simp add: demo_racy_def numeral_eq_Suc less_Suc_eq all_conj_distrib del: run_snoc)
  then show ?thesis by (simp add: good_trace_def valid_trace_def demo_racy_def)
qed

lemma demo_report:
  "\<exists>p. event_report (\<lambda>w. 0) (run (\<lambda>w. 0) demo_tables (take 3 demo_racy)) (demo_racy ! 3) = Some p"
proof -
  let ?c = "run (\<lambda>w. 0) demo_tables [Init 0, Create 0 1]"
  have c: "run (\<lambda>w. 0) demo_tables (take 3 demo_racy) = race_step (\<lambda>w. 0) ?c (Access 1 4096 True (Some ''a.c'') 7)"
    by (simp add: demo_racy_def run_def)
  have sh: "shards ?c = demo_tables" by (simp add: run_def init_cfg_def engine_defs)
  have room: "fst (find_bucket (demo_tables 0) (drop_bit 3 4096) True) \<noteq> None"
    using empty_table_room [of 1 0] by (simp add: demo_tables_def numeral_2_eq_2)
  note th = demo_threads [of "[Init 0, Create 0 1]"]
  have t: "the_thread ?c 0 = \<lparr>th_tid = 0, th_clock = rz_vc_init(0 := 2)\<rparr>"
    "the_thread ?c 1 = \<lparr>th_tid = 1, th_clock = rz_vc_init(0 := 1, 1 := 1)\<rparr>"
    using th by simp_all
  have "fst (fst (rz_race_access_loc (snd (rz_race_access_loc (demo_tables 0) (the_thread ?c 1) 4096 True (Some ''a.c'') 7))
      (the_thread ?c 0) 4100 True (Some ''a.c'') 9))"
    by (rule access_then_race [OF demo_tables_ok(1) room])
      (simp_all add: t [unfolded One_nat_def] tid_ok_def RZ_RACE_MAX_THREADS_def cur_epoch_def rz_vc_init_def)
  then show ?thesis
    unfolding c by (simp add: demo_racy_def sh [unfolded One_nat_def] access_raced_report the_thread_def Let_def)
qed

section \<open>The engine\<close>

text \<open>C21. A reported race is real at the granularity of words: when an access event of a trace reports a
  prior cell, an earlier access of another thread to the same word, one of the two a write, is not
  ordered before it by program order, lock hand-over, thread creation or join.\<close>

theorem race_report_sound:
  assumes "good_trace route tabs es" and "tables_clean tabs"
    and "j < length es" and "es ! j = Access h addr w loc line"
    and "event_report route (run route tabs (take j es)) (es ! j) = Some p"
  shows "\<exists>i h' addr' w' loc' line'. i < j \<and> es ! i = Access h' addr' w' loc' line'
    \<and> drop_bit 3 addr' = drop_bit 3 addr \<and> h' \<noteq> h \<and> (w \<or> w') \<and> w' = acc_write p \<and> \<not> hb es i j"
  using report_sound [OF assms] .

theorem race_report_sound_witness:
  "\<exists>i h' addr' w' loc' line'. i < 3 \<and> demo_racy ! i = Access h' addr' w' loc' line'
    \<and> drop_bit 3 addr' = drop_bit 3 (4100 :: u64) \<and> h' \<noteq> 0 \<and> \<not> hb demo_racy i 3"
proof -
  obtain p where p: "event_report (\<lambda>w. 0) (run (\<lambda>w. 0) demo_tables (take 3 demo_racy)) (demo_racy ! 3) = Some p"
    using demo_report by blast
  have "3 < length demo_racy" "demo_racy ! 3 = Access 0 4100 True (Some ''a.c'') 9"
    by (simp_all add: demo_racy_def)
  from race_report_sound [OF demo_good demo_tables_ok(2) this p] show ?thesis by blast
qed

text \<open>An access that the other thread's clock does not cover is reported by the next access to the
  same word, whichever bytes of it the two touch, when the word has a bucket.\<close>

theorem unordered_access_reported:
  assumes "table_ok s" and "fst (find_bucket s (drop_bit 3 a) True) \<noteq> None"
    and "drop_bit 3 b = drop_bit 3 a"
    and "tid_ok (th_tid t1)" and "th_tid t2 \<noteq> th_tid t1" and "w1 \<or> w2"
    and "th_clock t2 (nat (th_tid t1)) < cur_epoch t1"
  shows "fst (fst (rz_race_access_loc (snd (rz_race_access_loc s t1 a w1 loc1 line1)) t2 b w2 loc2 line2))"
  using access_then_race [OF assms] .

definition demo_t0 :: rz_thread where
  "demo_t0 = \<lparr>th_tid = 0, th_clock = rz_vc_init(0 := 2)\<rparr>"

definition demo_t1 :: rz_thread where
  "demo_t1 = \<lparr>th_tid = 1, th_clock = rz_vc_init(0 := 1, 1 := 1)\<rparr>"

lemma demo_room: "fst (find_bucket (demo_tables 0) w True) \<noteq> None"
  using empty_table_room [of 1 0] by (simp add: demo_tables_def numeral_2_eq_2)

text \<open>Two threads that write different bytes of one word are reported although they share no byte.\<close>

theorem unordered_access_reported_witness:
  "fst (fst (rz_race_access_loc (snd (rz_race_access_loc (demo_tables 0) demo_t1 4096 True None 1))
     demo_t0 4100 True None 2))"
  by (rule unordered_access_reported [OF demo_tables_ok(1) demo_room])
    (simp_all add: demo_t0_def demo_t1_def tid_ok_def RZ_RACE_MAX_THREADS_def cur_epoch_def rz_vc_init_def)

text \<open>The table keeps the words apart: an access changes the recorded cells of its own word only, and
  those by the recording rule, or not at all when the table is full.\<close>

theorem access_keeps_other_words:
  assumes "table_ok s" and "words_ok v"
  shows "table_ok (snd (rz_race_access_loc s t addr w loc line))
    \<and> word_cells (snd (rz_race_access_loc s t addr w loc line)) v =
       (if v = drop_bit 3 addr \<and> fst (find_bucket s (drop_bit 3 addr) True) \<noteq> None
        then record_cells t w loc line (word_cells s v) else word_cells s v)"
  using wm.update_look [OF assms(1) word_of_addr assms(2), of "record_cells t w loc line" addr]
    access_table_ok [OF assms(1), of t addr w loc line]
  by (auto simp: access_state [OF assms(1)] record_cells_ok)

theorem access_keeps_other_words_witness:
  "word_cells (snd (rz_race_access_loc (demo_tables 0) demo_t1 4096 True None 1)) 7 =
    word_cells (demo_tables 0) 7"
proof -
  have "words_ok 7" by (simp add: words_ok_def)
  from access_keeps_other_words [OF demo_tables_ok(1) this, of 0 demo_t1 4096 True None 1]
  show ?thesis by simp
qed

text \<open>Joining clocks gives their least upper bound: a clock covers the join exactly when it covers
  both.\<close>

theorem clock_join_least: "vc_le (rz_vc_join a b) c = (vc_le a c \<and> vc_le b c)"
  using vc.join_least vc.join_left vc.join_right vc.le_trans by blast

text \<open>Recording again for the same thread uses the same cell.\<close>

lemma scan_slots_match:
  "scan_slots cs tid i free = (Some k, b) \<Longrightarrow>
    i \<le> k \<and> k - i < length cs \<and> (\<forall>m < k - i. \<not> (valid (cs ! m) \<and> acc_tid (cs ! m) = tid))"
proof (induction cs arbitrary: i free)
  case (Cons c cs)
  show ?case
  proof (cases "valid c \<and> acc_tid c = tid")
    case False
    then obtain free' where "scan_slots cs tid (Suc i) free' = (Some k, b)" using Cons.prems by auto
    from Cons.IH [OF this] have k: "Suc i \<le> k" "k - Suc i < length cs"
      "\<forall>m < k - Suc i. \<not> (valid (cs ! m) \<and> acc_tid (cs ! m) = tid)" by auto
    have "\<not> (valid ((c # cs) ! m) \<and> acc_tid ((c # cs) ! m) = tid)" if "m < k - i" for m
      using that False k by (cases m) auto
    with k show ?thesis by auto
  qed (use Cons.prems in auto)
qed simp

lemma scan_slots_first:
  "n < length cs \<Longrightarrow> valid (cs ! n) \<Longrightarrow> acc_tid (cs ! n) = tid \<Longrightarrow>
    \<forall>m < n. \<not> (valid (cs ! m) \<and> acc_tid (cs ! m) = tid) \<Longrightarrow> fst (scan_slots cs tid i free) = Some (i + n)"
proof (induction cs arbitrary: i free n)
  case (Cons c cs)
  show ?case
  proof (cases n)
    case 0
    then show ?thesis using Cons.prems by simp
  next
    case (Suc k)
    then have "\<not> (valid c \<and> acc_tid c = tid)" using Cons.prems(4) by auto
    moreover have "\<forall>m < k. \<not> (valid (cs ! m) \<and> acc_tid (cs ! m) = tid)" using Cons.prems(4) Suc by auto
    ultimately show ?thesis using Cons.prems(1-3) Cons.IH [of k "Suc i"] Suc by auto
  qed
qed simp

lemma choose_slot_again:
  assumes "cs \<noteq> []" and "valid c" and "acc_tid c = tid"
  shows "choose_slot (cs[choose_slot cs tid := c]) tid = choose_slot cs tid"
proof -
  let ?k = "choose_slot cs tid"
  have k: "?k < length cs" by (rule choose_slot_bound [OF assms(1)])
  obtain a b where s: "scan_slots cs tid 0 None = (a, b)" by fastforce
  have "\<not> (valid (cs[?k := c] ! m) \<and> acc_tid (cs[?k := c] ! m) = tid)" if m: "m < ?k" for m
  proof (cases a)
    case None
    then have "\<not> (valid (cs ! m) \<and> acc_tid (cs ! m) = tid)"
      using scan_slots_free s m k by (metis nth_mem order.strict_trans)
    then show ?thesis using m by simp
  next
    case (Some j)
    then have "?k = j" using s by (simp add: choose_slot_def)
    then show ?thesis using scan_slots_match [of cs tid 0 None j b] s Some m by simp
  qed
  then have "fst (scan_slots (cs[?k := c]) tid 0 None) = Some (0 + ?k)"
    by (intro scan_slots_first) (use k assms(2,3) in simp_all)
  then show ?thesis
    unfolding choose_slot_def [of "cs[?k := c]"] by (cases "scan_slots (cs[?k := c]) tid 0 None") simp
qed

text \<open>A thread that writes a word and then reads it in the same epoch leaves one cell that counts as a
  write but carries the source line of the read, so a report shows the line of the read as a write.\<close>

theorem merged_cell_line:
  assumes "cells_ok cs"
  shows "\<exists>c \<in> set (record_cells t False (Some f2) line2 (record_cells t True (Some f1) line1 cs)).
    valid c \<and> acc_tid c = th_tid t \<and> acc_write c \<and> acc_file c = Some f2 \<and> acc_line c = line2"
proof -
  have ne: "cs \<noteq> []" using assms by (auto simp: cells_ok_def RZ_RACE_CELLS_def)
  let ?k = "choose_slot cs (th_tid t)" let ?c = "stamped t True (Some f1) line1 (cs ! ?k)"
  have k: "?k < length cs" by (rule choose_slot_bound [OF ne])
  have "record_cells t False (Some f2) line2 (record_cells t True (Some f1) line1 cs) =
      cs[?k := stamped t False (Some f2) line2 ?c]"
    using choose_slot_again [OF ne stamped_cases(1,2), of t True "Some f1" line1 "cs ! ?k"] k
    by (simp add: record_cells_def Let_def)
  then have "stamped t False (Some f2) line2 ?c \<in>
      set (record_cells t False (Some f2) line2 (record_cells t True (Some f1) line1 cs))"
    using k by (simp add: set_update_memI)
  then show ?thesis
    by (rule bexI [rotated]) (simp add: stamped_def Let_def)
qed

theorem merged_cell_line_witness:
  "\<exists>c \<in> set (record_cells demo_t0 False (Some ''a.c'') 20
      (record_cells demo_t0 True (Some ''a.c'') 10 (replicate 4 no_access))). acc_write c \<and> acc_line c = 20"
proof -
  have "cells_ok (replicate 4 no_access)" by (simp add: cells_ok_def RZ_RACE_CELLS_def)
  from merged_cell_line [OF this, of demo_t0 "''a.c''" 20 "''a.c''" 10] show ?thesis by blast
qed

section \<open>The runtime\<close>

text \<open>C22. Every call of the runtime is its sequence of engine events: the shards, registries and
  thread-local handles implement the abstract configuration of the trace.\<close>

theorem runtime_refines:
  assumes "rt_trace tabs s es" and "call_ok env s call"
  shows "rt_trace tabs (rt_exec env s call) (es @ rt_events s call)"
  using exec_refines [OF assms] .

definition demo_env :: race_env where
  "demo_env = \<lparr>calloc_ok = True, shard_ok = (\<lambda>i. True), tramp_ok = True, grow_ok = True, verbose_set = False\<rparr>"

text \<open>OS thread 1 starts the runtime and creates a thread; OS thread 2 runs it and writes a byte.\<close>

definition demo_rt0 :: race_rt where "demo_rt0 = rz_rt_init demo_env 1 loaded_rt"
definition demo_rt1 :: race_rt where "demo_rt1 = rt_exec demo_env demo_rt0 (Call_create 1)"
definition demo_rt2 :: race_rt where "demo_rt2 = rt_exec demo_env demo_rt1 (Call_started 2 1)"
definition demo_rt3 :: race_rt where "demo_rt3 = rt_exec demo_env demo_rt2 (Call_access 2 4096 1 True None 7)"

lemma demo_rt0_fields:
  "g_once demo_rt0" "self_key demo_rt0 = [1 \<mapsto> 0]" "next_object demo_rt0 = 1"
  "objects demo_rt0 = [0 \<mapsto> \<lparr>th_tid = 0, th_clock = rz_vc_tick rz_vc_init 0\<rparr>]"
  "next_tid (g_meta demo_rt0) = 1" "g_shard demo_rt0 = map (fresh_tables demo_env) [0..<RZ_NSHARD]"
  "g_races demo_rt0 = 0"
  by (simp_all add: demo_rt0_def rz_rt_init_def loaded_rt_def init_once_def new_object_def fresh_tables_def
      split_beta Let_def blank_state_def demo_env_def rz_thread_init_def)

lemma demo_clocks:
  "rz_vc_tick (rz_vc_tick rz_vc_init 0) 1 = th_clock demo_t1"
  "rz_vc_tick (rz_vc_tick rz_vc_init 0) 0 = th_clock demo_t0"
  by (auto simp: rz_vc_tick_def rz_vc_init_def demo_t0_def demo_t1_def tid_ok_def RZ_RACE_MAX_THREADS_def)

lemma demo_rt1_fields:
  "g_once demo_rt1" "self_key demo_rt1 = [1 \<mapsto> 0]" "objects demo_rt1 = [0 \<mapsto> demo_t0, 1 \<mapsto> demo_t1]"
  "g_shard demo_rt1 = map (fresh_tables demo_env) [0..<RZ_NSHARD]" "g_races demo_rt1 = 0"
  by (simp_all add: demo_rt1_def create_prepare_def rz_self_def rz_rt_init_def demo_rt0_fields new_object_def
      rz_thread_create_def rz_vc_copy_def object_def zero_thread_def Let_def split_beta demo_clocks)
    (simp_all add: demo_env_def demo_t0_def demo_t1_def fun_eq_iff)

lemma demo_rt2_fields:
  "g_once demo_rt2" "self_key demo_rt2 = [1 \<mapsto> 0, 2 \<mapsto> 1]" "objects demo_rt2 = [0 \<mapsto> demo_t0, 1 \<mapsto> demo_t1]"
  "g_shard demo_rt2 = map (fresh_tables demo_env) [0..<RZ_NSHARD]" "g_races demo_rt2 = 0"
  by (simp_all add: demo_rt2_def trampoline_def demo_rt1_fields)

lemma demo_words: "access_words 4096 1 = [512]" "access_words 4100 1 = [512]"
  by (simp_all add: access_words_def Let_def)

text \<open>One word, by a thread that has its handle.\<close>

lemma access_one_word:
  fixes w loc line
  assumes "g_once s" and "self_key s me = Some h" and "access_words addr sz = [x]"
  defines "r \<equiv> rz_race_access_loc (g_shard s ! shard_of x) (object s h) (push_bit 3 x) w loc line"
  shows "g_shard (access_range env me addr sz w loc line s) = (g_shard s)[shard_of x := snd r]"
    and "g_races (access_range env me addr sz w loc line s) = (if fst (fst r) then g_races s + 1 else g_races s)"
    and "objects (access_range env me addr sz w loc line s) = objects s"
    and "self_key (access_range env me addr sz w loc line s) = self_key s"
    and "g_once (access_range env me addr sz w loc line s)"
  using assms
  by (auto simp: access_range_def rz_self_def rz_rt_init_def Let_def split_beta should_report_def print_race_def)

lemma demo_events:
  "rt_events demo_rt0 (Call_create 1) = [Create 0 1]" "rt_events demo_rt1 (Call_started 2 1) = []"
  "rt_events demo_rt2 (Call_access 2 4096 1 True None 7) = [Access 1 4096 True None 7]"
  by (simp_all add: self_events_def caller_def demo_rt0_fields demo_rt2_fields access_events_def demo_words)

lemma demo_rt3_fields:
  "g_shard demo_rt3 ! shard_of 512 =
     snd (rz_race_access_loc (fresh_tables demo_env (shard_of 512)) demo_t1 4096 True None 7)"
  "self_key demo_rt3 = [1 \<mapsto> 0, 2 \<mapsto> 1]" "objects demo_rt3 = [0 \<mapsto> demo_t0, 1 \<mapsto> demo_t1]" "g_once demo_rt3"
  using access_one_word [of demo_rt2 2 1 4096 1 512 demo_env True None 7] shard_bound [of 512]
  by (simp_all add: demo_rt3_def demo_rt2_fields demo_words object_def)

lemma demo_rt3_trace:
  "rt_trace (fresh_tables demo_env) demo_rt3 [Init 0, Create 0 1, Access 1 4096 True None 7]"
proof -
  let ?t = "fresh_tables demo_env"
  have "rt_trace ?t demo_rt0 [Init 0]"
    unfolding demo_rt0_def by (rule start_trace) (simp add: demo_env_def)
  from exec_refines [OF this, of demo_env "Call_create 1"] have "rt_trace ?t demo_rt1 [Init 0, Create 0 1]"
    unfolding demo_events demo_rt1_def [symmetric] by (simp add: live_def demo_rt0_fields demo_env_def)
  from exec_refines [OF this, of demo_env "Call_started 2 1"] have "rt_trace ?t demo_rt2 [Init 0, Create 0 1]"
    unfolding demo_events demo_rt2_def [symmetric] by (simp add: demo_rt1_fields)
  from exec_refines [OF this, of demo_env "Call_access 2 4096 1 True None 7"] show ?thesis
    unfolding demo_events demo_rt3_def [symmetric] by (simp add: live_def demo_rt2_fields demo_env_def)
qed

lemma fresh_room: "fst (find_bucket (fresh_tables demo_env k) w True) \<noteq> None" "table_ok (fresh_tables demo_env k)"
proof -
  have "RZ_RACE_BUCKETS div of_nat RZ_NSHARD = 2 ^ 8" by (simp add: RZ_RACE_BUCKETS_def RZ_NSHARD_def)
  then have e: "fresh_tables demo_env k = \<lparr>buckets = Some (replicate (2 ^ 8) empty_bucket), nbuckets = 2 ^ 8, next_tid = 0\<rparr>"
    unfolding fresh_tables_def by (simp add: rz_race_state_init_n_def blank_state_def demo_env_def)
  show "fst (find_bucket (fresh_tables demo_env k) w True) \<noteq> None"
    unfolding e by (rule empty_table_room) simp
  show "table_ok (fresh_tables demo_env k)" unfolding e by (rule empty_table_ok) simp
qed

lemma demo_race: "g_races (rt_exec demo_env demo_rt3 (Call_access 1 4100 1 True None 9)) = g_races demo_rt3 + 1"
proof -
  have "fst (fst (rz_race_access_loc (snd (rz_race_access_loc (fresh_tables demo_env (shard_of 512)) demo_t1 4096 True None 7))
      demo_t0 4096 True None 9))"
    by (rule access_then_race [OF fresh_room(2,1)])
      (simp_all add: demo_t0_def demo_t1_def tid_ok_def RZ_RACE_MAX_THREADS_def cur_epoch_def rz_vc_init_def)
  then show ?thesis
    using access_one_word(2) [of demo_rt3 1 0 4100 1 512 demo_env True None 9] shard_bound [of 512]
    by (simp add: demo_rt3_fields demo_words object_def)
qed

text \<open>C23. When an access of the running program makes the race count go up, the trace of the calls so far
  holds two accesses of different threads to one word, one of them a write, that no chain of the recorded
  synchronization orders.\<close>

theorem runtime_report_sound:
  assumes "rt_trace tabs s es" and "tables_clean tabs" and "call_ok env s (Call_access me addr sz w loc line)"
    and "length (es @ rt_events s (Call_access me addr sz w loc line)) < 18446744073709551615"
    and "g_races (rt_exec env s (Call_access me addr sz w loc line)) \<noteq> g_races s"
  shows "\<exists>i j h a v f n h' a' v' f' n'. i < j
    \<and> (es @ rt_events s (Call_access me addr sz w loc line)) ! i = Access h a v f n
    \<and> (es @ rt_events s (Call_access me addr sz w loc line)) ! j = Access h' a' v' f' n'
    \<and> drop_bit 3 a = drop_bit 3 a' \<and> h \<noteq> h' \<and> (v \<or> v')
    \<and> \<not> hb (es @ rt_events s (Call_access me addr sz w loc line)) i j"
proof -
  let ?es = "es @ rt_events s (Call_access me addr sz w loc line)"
  have lv: "live s me" and self: "fst (rz_self env me s) \<noteq> None" using assms(3) self_Some by auto
  note at = access_range_trace [OF assms(1) lv self, of addr sz w loc line]
  have tr: "rt_trace tabs (rt_exec env s (Call_access me addr sz w loc line)) ?es"
    by (rule exec_refines [OF assms(1,3)])
  then have g: "good_trace shard_of tabs ?es" using assms(4) by (simp add: good_trace_def rt_trace_def)
  obtain j where j: "j < length ?es" "event_report shard_of (run shard_of tabs (take j ?es)) (?es ! j) \<noteq> None"
    using at(2) assms(5) by auto
  then obtain h a v f n p where e: "?es ! j = Access h a v f n"
    "event_report shard_of (run shard_of tabs (take j ?es)) (?es ! j) = Some p"
    by (cases "?es ! j") auto
  from report_sound [OF g assms(2) j(1) e] obtain i h' a' v' f' n' where
    "i < j" "?es ! i = Access h' a' v' f' n'" "drop_bit 3 a' = drop_bit 3 a" "h' \<noteq> h" "v \<or> v'" "\<not> hb ?es i j"
    by blast
  with e(1) show ?thesis by blast
qed

theorem runtime_report_sound_witness:
  "\<exists>i j. i < j \<and> \<not> hb ([Init 0, Create 0 1, Access 1 4096 True None 7, Access 0 4096 True None 9]) i j"
proof -
  have ev: "rt_events demo_rt3 (Call_access 1 4100 1 True None 9) = [Access 0 4096 True None 9]"
    by (simp add: self_events_def caller_def demo_rt3_fields access_events_def demo_words)
  have ok: "call_ok demo_env demo_rt3 (Call_access 1 4100 1 True None 9)"
    by (simp add: live_def demo_rt3_fields demo_env_def)
  have "g_races (rt_exec demo_env demo_rt3 (Call_access 1 4100 1 True None 9)) \<noteq> g_races demo_rt3"
    unfolding demo_race by simp
  from runtime_report_sound [OF demo_rt3_trace fresh_tables_clean ok _ this] show ?thesis
    unfolding ev by auto
qed

theorem runtime_refines_witness:
  "rt_trace (fresh_tables demo_env) (rt_exec demo_env demo_rt3 (Call_unlock 2 64))
    [Init 0, Create 0 1, Access 1 4096 True None 7, Release 1 64]"
proof -
  have "call_ok demo_env demo_rt3 (Call_unlock 2 64)" by (simp add: live_def demo_rt3_fields demo_env_def)
  from runtime_refines [OF demo_rt3_trace this] show ?thesis
    by (simp add: self_events_def caller_def demo_rt3_fields)
qed

section \<open>Unordered accesses are reported\<close>

lemma racy_settled: "settled demo_racy"
proof -
  have "\<not> retired (take j demo_racy) h" for j h
    by (auto simp: retired_def demo_racy_def dest!: in_set_takeD)
  then show ?thesis by (simp add: settled_def)
qed

lemma racy_events:
  "demo_racy ! 2 = Access 1 4096 True (Some ''a.c'') 7" "demo_racy ! 3 = Access 0 4100 True (Some ''a.c'') 9"
  "take 2 demo_racy = [Init 0, Create 0 1]"
  "take 3 demo_racy = [Init 0, Create 0 1, Access 1 4096 True (Some ''a.c'') 7]"
  by (simp_all add: demo_racy_def numeral_eq_Suc)

lemma racy_clocks:
  "tid_of (run (\<lambda>w. 0) demo_tables (take 2 demo_racy)) 1 = 1"
  "clock_at (\<lambda>w. 0) demo_tables demo_racy 2 1 = 1" "clock_at (\<lambda>w. 0) demo_tables demo_racy 3 1 = 0"
proof -
  have t2: "threads (run (\<lambda>w. 0) demo_tables (take 2 demo_racy)) 1 = Some \<lparr>th_tid = 1, th_clock = rz_vc_init(0 := 1, 1 := 1)\<rparr>"
    unfolding racy_events by (rule demo_threads(2) [where e = "Access 0 0 True None 0"]) simp_all
  have t3: "threads (run (\<lambda>w. 0) demo_tables (take 3 demo_racy)) 0 = Some \<lparr>th_tid = 0, th_clock = rz_vc_init(0 := 2)\<rparr>"
    unfolding racy_events by (rule demo_threads(1)) auto
  show "tid_of (run (\<lambda>w. 0) demo_tables (take 2 demo_racy)) 1 = 1"
    unfolding tid_of_def the_thread_def t2 by simp
  show "clock_at (\<lambda>w. 0) demo_tables demo_racy 2 1 = 1"
    unfolding clock_at_def racy_events(1) by (simp add: the_thread_def t2 del: One_nat_def)
  show "clock_at (\<lambda>w. 0) demo_tables demo_racy 3 1 = 0"
    unfolding clock_at_def racy_events(2) by (simp add: the_thread_def t3 rz_vc_init_def)
qed

lemma racy_unordered: "\<not> hb demo_racy 2 3"
  using clock_order_exact [OF demo_good racy_settled _ _ racy_events(1,2)] racy_clocks
  by (simp add: demo_racy_def tid_ok_def RZ_RACE_MAX_THREADS_def)

text \<open>C24. The vector clocks decide happens-before exactly: of two accesses of a trace in which no thread
  acts after it was joined, the later thread's clock covers the epoch of the earlier access if and only
  if program order, lock hand-over, creation and join order the two.\<close>

theorem happens_before_exact:
  assumes "good_trace route tabs es" and "settled es"
    and "i < j" and "j < length es" and "es ! i = Access a ad w f l" and "es ! j = Access b ad' w' f' l'"
    and "tid_ok (tid_of (run route tabs (take i es)) a)"
  shows "hb es i j \<longleftrightarrow> clock_at route tabs es i (nat (tid_of (run route tabs (take i es)) a))
    \<le> clock_at route tabs es j (nat (tid_of (run route tabs (take i es)) a))"
  by (rule clock_order_exact [OF assms])

theorem happens_before_exact_witness:
  "hb demo_racy 2 3 \<longleftrightarrow> clock_at (\<lambda>w. 0) demo_tables demo_racy 2 1 \<le> clock_at (\<lambda>w. 0) demo_tables demo_racy 3 1"
  using happens_before_exact [OF demo_good racy_settled _ _ racy_events(1,2)] racy_clocks
  by (simp add: demo_racy_def tid_ok_def RZ_RACE_MAX_THREADS_def)

lemma adjacent_reported:
  assumes g: "good_trace route tabs es" and s: "settled es" and cl: "tables_clean tabs"
    and ij: "i < j" "j < length es" and ei: "es ! i = Access a ad w f l" and ej: "es ! j = Access b ad' w' f' l'"
    and word: "drop_bit 3 ad' = drop_bit 3 ad"
    and next_access: "\<forall>n. i < n \<longrightarrow> n < j \<longrightarrow> accessed_word (es ! n) \<noteq> Some (drop_bit 3 ad)"
    and T: "tid_ok (tid_of (run route tabs (take i es)) a)"
    and room: "fst (find_bucket (shards (run route tabs (take i es)) (route (drop_bit 3 ad))) (drop_bit 3 ad) True) \<noteq> None"
    and ab: "a \<noteq> b" and ww: "w \<or> w'" and nhb: "\<not> hb es i j"
  shows "event_report route (run route tabs (take j es)) (es ! j) \<noteq> None"
proof -
  let ?ci = "run route tabs (take i es)" and ?cj = "run route tabs (take j es)"
  let ?v = "drop_bit 3 ad" let ?k = "route ?v"
  let ?ta = "the_thread ?ci a" and ?tb = "the_thread ?cj b"
  have i: "i < length es" using ij by simp
  have oki: "table_ok (shards ?ci ?k)" and okj: "table_ok (shards ?cj ?k)"
    using run_tables_ok [OF cl] by (simp_all add: tables_ok_def)
  have first: "word_cells (shards (run route tabs (take (Suc i) es)) ?k) ?v
      = record_cells ?ta w f l (word_cells (shards ?ci ?k) ?v)"
    using wm.update_look [OF oki word_of_addr word_of_addr, of "record_cells ?ta w f l" ad ad] room
    by (simp add: run_take_Suc [OF i] ei Let_def access_state [OF oki] record_cells_ok)
  have kept: "word_cells (shards ?cj ?k) ?v = word_cells (shards (run route tabs (take (Suc i) es)) ?k) ?v"
    by (rule cells_between [OF cl word_of_addr]) (use next_access ij in auto)
  have cov: "\<not> clock_at route tabs es i (nat (tid_of ?ci a)) \<le> clock_at route tabs es j (nat (tid_of ?ci a))"
    using clock_order_exact [OF g s ij ei ej T] nhb by simp
  have e: "th_clock ?tb (nat (th_tid ?ta)) < cur_epoch ?ta"
    using cov T by (simp add: clock_at_def ei ej tid_of_def cur_epoch_def)
  have "th_tid ?tb \<noteq> th_tid ?ta"
  proof -
    have ta: "threads ?ci a \<noteq> None" using good_at(1) [OF g i] ei by simp
    have tb: "threads ?cj b \<noteq> None" using good_at(1) [OF g ij(2)] ej by simp
    have "cfg_le ?ci ?cj" using good_le [OF g, of i j] ij by simp
    from cfg_leD(1,2) [OF this ta] have "threads ?cj a \<noteq> None" "tid_of ?cj a = tid_of ?ci a"
      by (simp_all add: tid_of_def)
    moreover have "tids_ok ?cj" using prefix_ahead [OF g s, of j] ij(2) by simp
    ultimately show ?thesis using tb ab unfolding tids_ok_def by (metis tid_of_def)
  qed
  then have race: "cells_race (word_cells (shards ?cj ?k) ?v) ?tb w'"
    unfolding kept first
    using record_then_race [OF wm.look_good [OF oki word_of_addr] _ _ ww e] T by (simp add: tid_of_def)
  then have "fst (find_bucket (shards ?cj ?k) ?v True) \<noteq> None"
    using locate_none_cells by (fastforce simp: cells_race_def rz_race_check_def no_access_def list_ex_iff)
  with race show ?thesis by (simp add: ej word access_result [OF okj] cells_race_first)
qed

text \<open>A race is not missed: when two accesses of different threads to one word, one of them a write,
  follow each other on that word, nothing orders them and the table has room for the word, the second
  one is reported.\<close>

theorem consecutive_race_reported:
  assumes g: "good_trace route tabs es" and s: "settled es" and cl: "tables_clean tabs"
    and ij: "i < j" "j < length es" and ei: "es ! i = Access a ad w f l" and ej: "es ! j = Access b ad' w' f' l'"
    and word: "drop_bit 3 ad' = drop_bit 3 ad"
    and next_access: "\<forall>n. i < n \<longrightarrow> n < j \<longrightarrow> accessed_word (es ! n) \<noteq> Some (drop_bit 3 ad)"
    and T: "tid_ok (tid_of (run route tabs (take i es)) a)"
    and room: "fst (find_bucket (shards (run route tabs (take i es)) (route (drop_bit 3 ad))) (drop_bit 3 ad) True) \<noteq> None"
    and ab: "a \<noteq> b" and ww: "w \<or> w'" and nhb: "\<not> hb es i j"
  shows "event_report route (run route tabs (take j es)) (es ! j) \<noteq> None"
  using adjacent_reported [OF assms] .

theorem consecutive_race_reported_witness:
  "event_report (\<lambda>w. 0) (run (\<lambda>w. 0) demo_tables (take 3 demo_racy)) (demo_racy ! 3) \<noteq> None"
proof (rule consecutive_race_reported [OF demo_good racy_settled demo_tables_ok(2) _ _ racy_events(1,2)])
  have "shards (run (\<lambda>w. 0) demo_tables (take 2 demo_racy)) 0 = demo_tables 0"
    unfolding racy_events(3) by (simp add: run_def init_cfg_def engine_defs)
  then show "fst (find_bucket (shards (run (\<lambda>w. 0) demo_tables (take 2 demo_racy)) 0) (drop_bit 3 4096) True) \<noteq> None"
    using demo_room by simp
  show "tid_ok (tid_of (run (\<lambda>w. 0) demo_tables (take 2 demo_racy)) 1)"
    unfolding racy_clocks by (simp add: tid_ok_def RZ_RACE_MAX_THREADS_def)
  show "\<not> hb demo_racy 2 3" by (rule racy_unordered)
  show "3 < length demo_racy" by (simp add: demo_racy_def)
qed simp_all

section \<open>Reports and registries\<close>

definition report_pair :: "race_report \<Rightarrow> int \<times> int" where
  "report_pair r = (rep_line r, acc_line (rep_prev r))"

definition reports_ok :: "race_rt \<Rightarrow> bool" where
  "reports_ok s \<longleftrightarrow> g_once s \<and> \<not> g_verbose s \<and> map report_pair (printed s) = g_report_lines s
     \<and> distinct (g_report_lines s) \<and> length (g_report_lines s) \<le> RZ_RACE_REPORT_CAP"

lemma self_reports:
  assumes "g_once s"
  shows "g_once (snd (rz_self env me s))" "g_verbose (snd (rz_self env me s)) = g_verbose s"
    "printed (snd (rz_self env me s)) = printed s" "g_report_lines (snd (rz_self env me s)) = g_report_lines s"
  using assms by (auto simp: rz_self_def rz_rt_init_def new_object_def split_beta Let_def split: option.split)

lemma reports_self: "reports_ok s \<Longrightarrow> reports_ok (snd (rz_self env me s))"
  using self_reports [of s env me] by (auto simp: reports_ok_def)

lemma reports_print:
  "reports_ok s \<Longrightarrow> should_report line (acc_line prev) s = (True, s') \<Longrightarrow>
    reports_ok (print_race w tid addr loc line prev s')"
  by (auto simp: reports_ok_def should_report_def print_race_def report_pair_def split: if_splits)

lemma reports_silent:
  "reports_ok s \<Longrightarrow> should_report line pl s = (False, s') \<Longrightarrow> reports_ok s'"
  by (auto simp: should_report_def split: if_splits)

lemma reports_access: "reports_ok s \<Longrightarrow> reports_ok (access_range env me addr sz w loc line s)"
proof -
  assume ok: "reports_ok s"
  obtain self s1 where r: "rz_self env me s = (self, s1)" by fastforce
  have ok1: "reports_ok s1" using reports_self [OF ok, of env me] by (simp add: r)
  show ?thesis
  proof (cases self)
    case None
    then show ?thesis using ok1 by (simp add: access_range_def r)
  next
    case (Some h)
    obtain hits hit shs where l: "access_loop (object s1 h) w loc line (access_words addr sz) 0 None (g_shard s1) = (hits, hit, shs)"
      by (cases "access_loop (object s1 h) w loc line (access_words addr sz) 0 None (g_shard s1)") auto
    let ?s = "s1\<lparr>g_shard := shs, g_races := g_races s1 + hits\<rparr>"
    have ok2: "reports_ok ?s" "reports_ok (s1\<lparr>g_shard := shs\<rparr>)" using ok1 by (simp_all add: reports_ok_def)
    obtain b s3 where sr: "should_report line (acc_line (snd (the hit))) ?s = (b, s3)" by fastforce
    show ?thesis
      using ok2 reports_print [OF ok2(1)] reports_silent [OF ok2(1) ] sr
      by (cases b) (auto simp: access_range_def r l Some Let_def split_beta)
  qed
qed

lemma reports_exec: "reports_ok s \<Longrightarrow> reports_ok (rt_exec env s call)"
proof (cases call)
  case (Call_lock me m)
  assume ok: "reports_ok s"
  show ?thesis
    using reports_self [OF ok, of env me]
    by (simp add: Call_lock rz_rt_mutex_lock_def split_beta Let_def split: option.split)
      (simp add: reports_ok_def)
next
  case (Call_unlock me m)
  assume ok: "reports_ok s"
  show ?thesis
    using reports_self [OF ok, of env me]
    by (simp add: Call_unlock rz_rt_mutex_unlock_def split_beta Let_def split: option.split)
      (simp add: reports_ok_def)
next
  case (Call_access me addr sz w loc line)
  assume "reports_ok s"
  then show ?thesis by (simp add: Call_access reports_access)
next
  case (Call_create me)
  assume ok: "reports_ok s"
  show ?thesis
    using reports_self [OF ok, of env me] ok
    by (simp add: Call_create create_prepare_def new_object_def split_beta Let_def split: option.split)
      (simp add: reports_ok_def)
next
  case (Call_created rc t child)
  assume "reports_ok s"
  then show ?thesis
    by (simp add: Call_created create_finish_def reg_thread_def Let_def split: option.split)
      (simp add: reports_ok_def)
next
  case (Call_started me h)
  assume "reports_ok s"
  then show ?thesis by (simp add: Call_started trampoline_def reports_ok_def)
next
  case (Call_join me t)
  assume ok: "reports_ok s"
  show ?thesis
    using reports_self [OF ok, of env me] ok
    by (simp add: Call_join rz_rt_pthread_join_def take_thread_def split_beta Let_def split: option.split)
      (simp add: reports_ok_def)
qed

text \<open>Without the verbose switch a run prints at most sixteen detailed reports, no two of them for
  the same pair of source lines, whatever the program does.\<close>

theorem report_cap:
  assumes "\<not> verbose_set env0"
  shows "length (printed (foldl (\<lambda>s (env, call). rt_exec env s call) (rz_rt_init env0 me loaded_rt) calls)) \<le> 16
    \<and> distinct (map report_pair
        (printed (foldl (\<lambda>s (env, call). rt_exec env s call) (rz_rt_init env0 me loaded_rt) calls)))"
proof -
  have "reports_ok (foldl (\<lambda>s (env, call). rt_exec env s call) (rz_rt_init env0 me loaded_rt) calls)"
  proof (induction calls rule: rev_induct)
    case Nil
    then show ?case
      using assms by (simp add: reports_ok_def rz_rt_init_def loaded_rt_def init_once_def new_object_def split_beta Let_def)
  next
    case (snoc x xs)
    then show ?case by (cases x) (simp add: reports_exec)
  qed
  then have r: "reports_ok s \<Longrightarrow> length (printed s) \<le> 16 \<and> distinct (map report_pair (printed s))" for s
    by (auto simp: reports_ok_def RZ_RACE_REPORT_CAP_def dest: arg_cong [where f = length])
  show ?thesis by (rule r) fact
qed

theorem report_cap_witness:
  "length (printed (foldl (\<lambda>s (env, call). rt_exec env s call) (rz_rt_init demo_env 1 loaded_rt)
     [(demo_env, Call_create 1), (demo_env, Call_access 1 64 8 True None 3)])) \<le> 16"
proof -
  have "\<not> verbose_set demo_env" by (simp add: demo_env_def)
  from report_cap [OF this] show ?thesis by blast
qed

lemma find_thr_set_unused:
  "find_thr es t i = None \<Longrightarrow> \<not> used e \<Longrightarrow> find_thr (es[j := e]) t i = None"
proof (induction es arbitrary: i j)
  case (Cons a es)
  then show ?case by (cases j) (auto split: if_splits)
qed simp

text \<open>Registering puts the entry in one unused slot of the, possibly grown, array.\<close>

lemma reg_thread_slot:
  assumes "grow_ok env"
  obtains es i where "g_threads (reg_thread env t h s) = es[i := \<lparr>thr = t, ent_self = h, used = True\<rparr>]"
    "i < length es" "\<not> used (es ! i)" "\<And>u. find_thr es u 0 = find_thr (g_threads s) u 0"
    "\<And>k. k < length (g_threads s) \<Longrightarrow> es ! k = g_threads s ! k"
proof (cases "first_unused (g_threads s) 0")
  case (Some i)
  then show thesis
    using that [of "g_threads s" i] first_unused_bound [OF Some] by (simp add: reg_thread_def Let_def)
next
  case None
  let ?old = "length (g_threads s)"
  let ?n = "(if ?old \<noteq> 0 then ?old * 2 else 16) - ?old"
  let ?es = "g_threads s @ replicate ?n unused_ent"
  have "?old < length ?es" by simp
  moreover have "\<not> used (?es ! ?old)" by (simp add: nth_append unused_ent_def)
  ultimately show thesis
    using that [of ?es ?old] None assms
    by (simp add: reg_thread_def Let_def find_thr_append_unused nth_append)
qed

text \<open>The join registry returns what create registered: for a \<^verbatim>\<open>pthread_t\<close> without an entry, the
  handle registered under it comes back once, and then the entry is gone.\<close>

theorem thread_registry_roundtrip:
  assumes "find_thr (g_threads s) t 0 = None" and "grow_ok env"
  shows "fst (take_thread t (reg_thread env t h s)) = Some h
    \<and> find_thr (g_threads (snd (take_thread t (reg_thread env t h s)))) t 0 = None"
proof -
  obtain es i where r: "g_threads (reg_thread env t h s) = es[i := \<lparr>thr = t, ent_self = h, used = True\<rparr>]"
    "i < length es" "\<And>u. find_thr es u 0 = find_thr (g_threads s) u 0"
    using reg_thread_slot [OF assms(2)] by metis
  have n: "find_thr es t 0 = None" using r(3) assms(1) by simp
  have f: "find_thr (es[i := \<lparr>thr = t, ent_self = h, used = True\<rparr>]) t 0 = Some i"
    using find_thr_set_new [OF n r(2)] by simp
  show ?thesis
    using r(2) find_thr_set_unused [OF n] by (simp add: take_thread_def r(1) f)
qed

theorem thread_registry_roundtrip_witness: "fst (take_thread 5 (reg_thread demo_env 5 7 loaded_rt)) = Some 7"
proof -
  have "find_thr (g_threads loaded_rt) 5 0 = None" "grow_ok demo_env" by (simp_all add: loaded_rt_def demo_env_def)
  from thread_registry_roundtrip [OF this] show ?thesis by blast
qed

text \<open>An entry that was never joined, as that of a detached thread, hides a later thread that gets the
  same \<^verbatim>\<open>pthread_t\<close>: the join of the new thread takes the old handle, and so imports the wrong clock.\<close>

theorem stale_thread_entry:
  assumes "find_thr (g_threads s) t 0 = Some k" and "\<forall>i < k. used (g_threads s ! i)" and "grow_ok env"
  shows "fst (take_thread t (reg_thread env t h s)) = Some (ent_self (g_threads s ! k))"
proof -
  obtain es i where r: "g_threads (reg_thread env t h s) = es[i := \<lparr>thr = t, ent_self = h, used = True\<rparr>]"
    "i < length es" "\<not> used (es ! i)" "\<And>u. find_thr es u 0 = find_thr (g_threads s) u 0"
    "\<And>k. k < length (g_threads s) \<Longrightarrow> es ! k = g_threads s ! k"
    using reg_thread_slot [OF assms(3)] by metis
  have k: "k < length (g_threads s)" "used (g_threads s ! k)" using find_thr_bound [OF assms(1)] by auto
  have "k < i"
  proof (rule ccontr)
    assume "\<not> k < i"
    then consider "i = k" | "i < k" by linarith
    then show False using r(3,5) k assms(2) by cases auto
  qed
  then have "find_thr (es[i := \<lparr>thr = t, ent_self = h, used = True\<rparr>]) t 0 = Some k"
    using find_thr_set_later [of es t 0 k i] r(4) assms(1) by simp
  then show ?thesis using \<open>k < i\<close> r(5) k(1) by (simp add: take_thread_def r(1))
qed

theorem stale_thread_entry_witness:
  "fst (take_thread 5 (reg_thread demo_env 5 8
     (loaded_rt\<lparr>g_threads := [\<lparr>thr = 5, ent_self = 7, used = True\<rparr>]\<rparr>))) = Some 7"
proof -
  let ?s = "loaded_rt\<lparr>g_threads := [\<lparr>thr = 5, ent_self = 7, used = True\<rparr>]\<rparr>"
  have "find_thr (g_threads ?s) 5 0 = Some 0" "\<forall>i < 0. used (g_threads ?s ! i)" "grow_ok demo_env"
    by (simp_all add: demo_env_def)
  from stale_thread_entry [OF this, of 8] show ?thesis by simp
qed

text \<open>When the lock registry cannot grow, an unlock of a lock without an entry publishes nothing: the
  edge to the next holder is lost, although the two are ordered.\<close>

theorem unlock_lost_without_memory:
  assumes "g_once s" and "self_key s me = Some h" and "\<not> grow_ok env"
    and "find_sync (ents (g_sync s ! sync_shard_of m)) m 0 = None"
    and "of_nat (length (ents (g_sync s ! sync_shard_of m))) = sync_cap (g_sync s ! sync_shard_of m)"
  shows "rz_rt_mutex_unlock env me m s = s"
  using assms
  by (simp add: rz_rt_mutex_unlock_def rz_self_def rz_rt_init_def sync_for_in_def Let_def list_update_id)

theorem unlock_lost_without_memory_witness:
  "rz_rt_mutex_unlock (demo_env\<lparr>grow_ok := False\<rparr>) 1 64 demo_rt0 = demo_rt0"
proof (rule unlock_lost_without_memory)
  have "g_sync demo_rt0 = replicate RZ_NSYNC \<lparr>ents = [], sync_cap = 0\<rparr>"
    by (simp add: demo_rt0_def rz_rt_init_def loaded_rt_def init_once_def new_object_def split_beta Let_def)
  then show "find_sync (ents (g_sync demo_rt0 ! sync_shard_of 64)) 64 0 = None"
    "of_nat (length (ents (g_sync demo_rt0 ! sync_shard_of 64))) = sync_cap (g_sync demo_rt0 ! sync_shard_of 64)"
    using sync_shard_bound [of 64] by simp_all
qed (simp_all add: demo_rt0_fields)

end
