(* ===== verification/Race_Unsynced.thy ===== *)
theory Race_Unsynced
  imports Race_Programs Race_Props
begin

text \<open>
  The other half of race mode: two threads that write a word with nothing between them that orders the
  accesses are reported in every complete execution, however they interleave.
\<close>

section \<open>What a thread has done\<close>

definition done_by :: "nat \<Rightarrow> entry list \<Rightarrow> act list" where
  "done_by h es = map snd (filter (\<lambda>e. fst e = h \<and> snd e \<noteq> Begin) es)"

lemma done_by_snoc: "done_by h (es @ [(k, a)]) = done_by h es @ (if k = h \<and> a \<noteq> Begin then [a] else [])"
  by (simp add: done_by_def)

lemma done_by_idle: "orderly es \<Longrightarrow> \<not> begun es h \<Longrightarrow> done_by h es = []"
  using acting_begun [of es h] by (force simp: done_by_def filter_empty_conv)

lemma performed: "exec_reach P s \<Longrightarrow> code s h = Some rest \<Longrightarrow> done_by h (log s) @ rest \<in> P h"
proof (induction arbitrary: h rest rule: exec_reach.induct)
  case (Start as)
  then show ?case by (auto simp: done_by_def split: if_splits)
next
  case (Step s s')
  have m: "matched s" using Step.hyps(1) by (rule reach_matched)
  from Step.hyps(2) show ?case
  proof (cases rule: exec_step.cases)
    case (Fork h' k as bs)
    have kh: "k \<noteq> h'"
    proof
      assume "k = h'"
      then show False using Fork(2,3) by simp
    qed
    have "\<not> begun (log s) k" using Fork(3) matchedD(2) [OF m, of k] by simp
    then have "done_by k (log s) = []" by (rule done_by_idle [OF matchedD(1) [OF m]])
    then show ?thesis
      using Step.IH [of h'] Step.IH [of h] Step.prems Fork kh by (auto simp: done_by_snoc split: if_splits)
  next
    case (Go h' a as)
    have "a \<noteq> Begin" using Go(3) by auto
    then show ?thesis
      using Step.IH [of h'] Step.IH [of h] Step.prems Go by (auto simp: done_by_snoc split: if_splits)
  qed
qed

section \<open>Threads that nothing orders\<close>

lemma in_take: "q < i \<Longrightarrow> i \<le> length es \<Longrightarrow> es ! q = e \<Longrightarrow> e \<in> set (take i es)"
  unfolding take_entry by (intro exI [of _ q]) simp

text \<open>
  \<open>a\<close> and \<open>b\<close> touch the word \<open>x\<close>; the first thread does so only after it joined both. The locks and
  flags \<open>M\<close> that \<open>a\<close> gives up are taken by nobody else, the first thread gives up none, and it creates all threads before
  it joins one.
\<close>

fun join_next :: "nat \<Rightarrow> nat set \<Rightarrow> entry \<Rightarrow> nat set" where
  "join_next t W (k, Wait_for c) = (if k = t then insert c W else W)"
| "join_next t W e = W"

fun apart_ok :: "nat \<Rightarrow> nat \<Rightarrow> u64 set \<Rightarrow> u64 \<Rightarrow> nat \<Rightarrow> nat set \<Rightarrow> act \<Rightarrow> bool" where
  "apart_ok a b M x t W (Touch ad w loc line) \<longleftrightarrow> drop_bit 3 ad = x \<longrightarrow> t = a \<or> t = b \<or> t = 0 \<and> a \<in> W \<and> b \<in> W"
| "apart_ok a b M x t W (Spawn k) \<longleftrightarrow> W = {}"
| "apart_ok a b M x t W (Unlock m) \<longleftrightarrow> t \<noteq> 0 \<and> (t = a \<longrightarrow> m \<in> M)"
| "apart_ok a b M x t W (Publish m) \<longleftrightarrow> t \<noteq> 0 \<and> (t = a \<longrightarrow> m \<in> M)"
| "apart_ok a b M x t W (Lock m y) \<longleftrightarrow> t \<noteq> a \<longrightarrow> m \<notin> M"
| "apart_ok a b M x t W (Await m) \<longleftrightarrow> t \<noteq> a \<longrightarrow> m \<notin> M"
| "apart_ok a b M x t W (Poll m) \<longleftrightarrow> t \<noteq> a \<longrightarrow> m \<notin> M"
| "apart_ok a b M x t W e \<longleftrightarrow> True"

definition unsynced :: "nat \<Rightarrow> nat \<Rightarrow> u64 set \<Rightarrow> u64 \<Rightarrow> nat \<Rightarrow> act list \<Rightarrow> bool" where
  "unsynced a b M x t as \<longleftrightarrow> obeys join_next (apart_ok a b M x) t {} as"

interpretation ad: discipline join_next "apart_ok a b M x" "{}" for a b M x
proof
  fix h t :: nat and W :: "nat set" and as e
  assume "h \<noteq> t" "obeys join_next (apart_ok a b M x) t W as"
  then show "obeys join_next (apart_ok a b M x) t (join_next t W (h, e)) as" by (cases e) simp_all
qed

lemma join_state: "foldl (join_next t) {} es = {c. (t, Wait_for c) \<in> set es}"
proof (induction es rule: rev_induct)
  case (snoc e es)
  obtain k a where "e = (k, a)" by (cases e)
  then show ?case using snoc by (cases a) auto
qed simp

lemma unsynced_kept:
  assumes d: "\<And>t as. as \<in> P t \<Longrightarrow> unsynced a b M x t as" and r: "exec_reach P s"
    and j: "j < length (log s)" "log s ! j = (t, e)"
  shows "apart_ok a b M x t {c. (t, Wait_for c) \<in> set (take j (log s))} e"
proof -
  have "ad.kept a b M x (log s)"
    using ad.reach_kept [OF _ _ _ r, of a b M x] d by (simp add: unsynced_def)
  then show ?thesis using j by (auto simp: ad.kept_def join_state dest!: spec [of _ j])
qed

lemma event_back:
  "event_of e = Release h m \<longleftrightarrow> e = (h, Unlock m) \<or> e = (h, Publish m)"
  "event_of e = Acquire h m \<longleftrightarrow> (\<exists>y. e = (h, Lock m y)) \<or> e = (h, Await m) \<or> e = (h, Poll m)"
  "event_of e = Create h k \<longleftrightarrow> e = (h, Spawn k)" "event_of e = Join h k \<longleftrightarrow> e = (h, Wait_for k)"
  by (cases e rule: event_of.cases; auto)+

text \<open>What is ordered after an event of \<open>a\<close> is done by \<open>a\<close>, or by the first thread once it has joined \<open>a\<close>.\<close>

lemma stays_apart:
  assumes r: "exec_reach P s" and a0: "a \<noteq> 0"
    and k: "\<And>t j e. j < length (log s) \<Longrightarrow> log s ! j = (t, e) \<Longrightarrow> apart_ok a b M x t {c. (t, Wait_for c) \<in> set (take j (log s))} e"
  defines "S i \<equiv> fst (log s ! i) = a \<or> fst (log s ! i) = 0 \<and> (\<exists>p \<le> i. log s ! p = (0, Wait_for a))"
  shows "hb (trace_of s) i j \<Longrightarrow> S i \<Longrightarrow> S j"
proof (induction rule: hb.induct)
  have o: "orderly (log s)" by (rule matchedD(1) [OF reach_matched [OF r]])
  have len: "length (trace_of s) = length (log s)" by (simp add: trace_of_def)
  {
    case (Program i j)
    then show ?case using len unfolding S_def by (auto simp: trace_of_def intro: order_trans less_imp_le)
  next
    case (Sync i j h m h')
    have i: "i < length (log s)" "j < length (log s)" using Sync len by auto
    have e: "log s ! i = (h, Unlock m) \<or> log s ! i = (h, Publish m)"
      using Sync(3) i by (simp add: trace_of_def event_back)
    have f: "(\<exists>y. log s ! j = (h', Lock m y)) \<or> log s ! j = (h', Await m) \<or> log s ! j = (h', Poll m)"
      using Sync(4) i by (simp add: trace_of_def event_back)
    have "h \<noteq> 0" "h = a \<longrightarrow> m \<in> M" using e k [OF i(1), of h] by auto
    then have "h = a" "m \<in> M" using Sync.prems e unfolding S_def by auto
    then have "h' = a" using f k [OF i(2), of h'] by auto
    then show ?case using f unfolding S_def by auto
  next
    case (Fork i j p c)
    have i: "i < length (log s)" using Fork len by auto
    have e: "log s ! i = (p, Spawn c)" using Fork(3) i by (simp add: trace_of_def event_back)
    have "p = 0" using orderly_at(2) [OF o i e] by (simp add: fits_def)
    then obtain q where q: "q \<le> i" "log s ! q = (0, Wait_for a)" using Fork.prems e a0 unfolding S_def by auto
    have "q \<noteq> i" using q(2) e by auto
    then have "(0, Wait_for a) \<in> set (take i (log s))" using q i by (intro in_take [of q]) simp_all
    then show ?case using k [OF i e] \<open>p = 0\<close> by auto
  next
    case (Joined i j c p)
    have i: "i < length (log s)" "j < length (log s)" using Joined len by auto
    have e: "log s ! j = (p, Wait_for c)" using Joined(4) i by (simp add: trace_of_def event_back)
    have "p = 0" "c \<noteq> 0" using orderly_at(2) [OF o i(2) e] by (auto simp: fits_def)
    moreover have "c = fst (log s ! i)" using Joined(3) i by (simp add: trace_of_def)
    ultimately show ?case using Joined.prems e unfolding S_def by auto
  next
    case (Spawned i j p c q)
    have i: "i < length (log s)" using Spawned len by auto
    have e: "log s ! i = (p, Spawn c)" using Spawned(3) i by (simp add: trace_of_def event_back)
    have "p = 0" using orderly_at(2) [OF o i e] by (simp add: fits_def)
    then obtain q where q: "q \<le> i" "log s ! q = (0, Wait_for a)" using Spawned.prems e a0 unfolding S_def by auto
    have "q \<noteq> i" using q(2) e by auto
    then have "(0, Wait_for a) \<in> set (take i (log s))" using q i by (intro in_take [of q]) simp_all
    then show ?case using k [OF i e] \<open>p = 0\<close> by auto
  next
    case (Trans i j k)
    then show ?case by blast
  }
qed

section \<open>The last accesses of a thread\<close>

definition touch_on :: "u64 \<Rightarrow> act \<Rightarrow> bool" where
  "touch_on x a \<longleftrightarrow> (\<exists>ad w loc line. a = Touch ad w loc line \<and> drop_bit 3 ad = x)"

definition ends_in_write :: "u64 \<Rightarrow> act list \<Rightarrow> bool" where
  "ends_in_write x as \<longleftrightarrow> (\<exists>bs ad loc line cs. as = bs @ Touch ad True loc line # cs \<and> drop_bit 3 ad = x
     \<and> (\<forall>c \<in> set cs. \<not> touch_on x c))"

lemma done_split:
  "done_by h es = bs @ a # cs \<Longrightarrow> \<exists>us vs. es = us @ (h, a) # vs \<and> done_by h vs = cs"
proof (induction es arbitrary: bs)
  case (Cons e es)
  obtain k b where e: "e = (k, b)" by (cases e)
  show ?case
  proof (cases "k = h \<and> b \<noteq> Begin")
    case True
    then have d: "b # done_by h es = bs @ a # cs" using Cons.prems by (simp add: done_by_def e)
    show ?thesis
    proof (cases bs)
      case Nil
      then have "e # es = [] @ (h, a) # es \<and> done_by h es = cs" using d True by (simp add: e)
      then show ?thesis by blast
    next
      case (Cons b' bs')
      with d Cons.IH [of bs'] obtain us vs where "es = us @ (h, a) # vs" "done_by h vs = cs" by auto
      then have "e # es = (e # us) @ (h, a) # vs \<and> done_by h vs = cs" by simp
      then show ?thesis by blast
    qed
  next
    case False
    then have "done_by h es = bs @ a # cs" using Cons.prems by (auto simp: done_by_def e)
    then obtain us vs where "es = us @ (h, a) # vs" "done_by h vs = cs" using Cons.IH by blast
    then have "e # es = (e # us) @ (h, a) # vs \<and> done_by h vs = cs" by simp
    then show ?thesis by blast
  qed
qed (simp add: done_by_def)

lemma done_by_in: "(h, a) \<in> set es \<Longrightarrow> a \<noteq> Begin \<Longrightarrow> a \<in> set (done_by h es)"
  by (force simp: done_by_def)

text \<open>The last access of a thread that has run to its end, as a position of the log.\<close>

lemma last_write:
  assumes r: "exec_reach P s" and fin: "code s h = Some []" and w: "\<And>as. as \<in> P h \<Longrightarrow> ends_in_write x as"
  shows "\<exists>i < length (log s). \<exists>ad loc line. log s ! i = (h, Touch ad True loc line) \<and> drop_bit 3 ad = x
    \<and> (\<forall>n e. i < n \<longrightarrow> n < length (log s) \<longrightarrow> log s ! n = (h, e) \<longrightarrow> \<not> touch_on x e)"
proof -
  have "ends_in_write x (done_by h (log s))" using performed [OF r fin] w by simp
  then obtain bs ad loc line cs where d: "done_by h (log s) = bs @ Touch ad True loc line # cs" "drop_bit 3 ad = x"
    "\<forall>c \<in> set cs. \<not> touch_on x c" unfolding ends_in_write_def by blast
  from done_split [OF d(1)] obtain us vs where l: "log s = us @ (h, Touch ad True loc line) # vs" "done_by h vs = cs" by blast
  have "\<not> touch_on x e" if n: "length us < n" "n < length (log s)" "log s ! n = (h, e)" for n e
  proof
    assume t: "touch_on x e"
    have "(h, e) \<in> set vs"
      using n l(1) by (auto simp: nth_append nth_Cons' set_conv_nth intro!: exI [of _ "n - length us - 1"])
    moreover have "e \<noteq> Begin" using t by (auto simp: touch_on_def)
    ultimately show False using done_by_in l(2) d(3) t by blast
  qed
  then show ?thesis using l(1) d(2) by (intro exI [of _ "length us"]) auto
qed

section \<open>The number of threads\<close>

definition spawns :: "act list \<Rightarrow> nat" where
  "spawns as = length (filter (\<lambda>a. case a of Spawn k \<Rightarrow> True | _ \<Rightarrow> False) as)"

lemma spawn_tids:
  "orderly es \<Longrightarrow> next_tid (tids (run route tabs (map event_of es))) = int (Suc (spawns (done_by 0 es)))"
proof (induction rule: orderly.induct)
  case First
  then show ?case
    by (simp add: done_by_def spawns_def run_def init_cfg_def rz_thread_init_def split_beta Let_def)
next
  case (Next es e)
  obtain h a where e: "e = (h, a)" by (cases e)
  show ?case
    unfolding map_append list.map run_snoc next_tid_step Next.IH
    using Next.hyps(2) unfolding e by (cases a) (auto simp: done_by_snoc spawns_def fits_def)
qed

section \<open>A word that was recorded keeps its bucket\<close>

definition recorded :: "(u64 \<Rightarrow> nat) \<Rightarrow> u64 \<Rightarrow> race_cfg \<Rightarrow> bool" where
  "recorded route x c \<longleftrightarrow> (\<exists>d \<in> set (word_cells (shards c (route x)) x). valid d)"

definition has_room :: "(u64 \<Rightarrow> nat) \<Rightarrow> u64 \<Rightarrow> race_cfg \<Rightarrow> bool" where
  "has_room route x c \<longleftrightarrow> fst (find_bucket (shards c (route x)) x True) \<noteq> None"

lemma recorded_room: "recorded route x c \<Longrightarrow> has_room route x c"
  unfolding has_room_def
proof
  assume r: "recorded route x c" and "fst (find_bucket (shards c (route x)) x True) = None"
  then have "word_cells (shards c (route x)) x = replicate RZ_RACE_CELLS no_access" by (intro locate_none_cells)
  with r show False by (simp add: recorded_def no_access_def)
qed

lemma record_valid: "cells_ok cs \<Longrightarrow> \<exists>d \<in> set (record_cells t w loc line cs). valid d"
proof -
  assume "cells_ok cs"
  then have "cs \<noteq> []" by (auto simp: cells_ok_def RZ_RACE_CELLS_def)
  then have k: "choose_slot cs (th_tid t) < length cs" by (rule choose_slot_bound)
  then have "stamped t w loc line (cs ! choose_slot cs (th_tid t)) \<in> set (record_cells t w loc line cs)"
    by (simp add: record_cells_def Let_def set_update_memI)
  then show ?thesis by (rule rev_bexI) (simp add: stamped_def Let_def)
qed

lemma access_recorded:
  assumes ok: "tables_ok c" and room: "has_room route (drop_bit 3 ad) c"
  shows "recorded route (drop_bit 3 ad) (race_step route c (Access h ad w loc line))"
proof -
  have ok': "table_ok (shards c k)" for k using ok by (simp add: tables_ok_def)
  have "word_cells (wm.update (shards c (route (drop_bit 3 ad))) (drop_bit 3 ad) (record_cells (the_thread c h) w loc line)) (drop_bit 3 ad)
      = record_cells (the_thread c h) w loc line (word_cells (shards c (route (drop_bit 3 ad))) (drop_bit 3 ad))"
    using wm.update_look [OF ok' word_of_addr word_of_addr record_cells_ok] room by (simp add: has_room_def)
  then show ?thesis
    using record_valid [OF wm.look_good [OF ok' word_of_addr]]
    by (simp add: recorded_def Let_def access_state [OF ok'])
qed

lemma step_recorded:
  assumes ok: "tables_ok c" and x: "words_ok x" and r: "recorded route x c"
  shows "recorded route x (race_step route c e)"
proof (cases "accessed_word e = Some x")
  case True
  then obtain h ad w loc line where "e = Access h ad w loc line" "drop_bit 3 ad = x" by (cases e) auto
  then show ?thesis using access_recorded [OF ok] recorded_room [OF r] by blast
next
  case False
  then show ?thesis using r cells_step_other [OF ok x] by (simp add: recorded_def)
qed

lemma access_room:
  assumes cl: "tables_clean tabs" and x: "words_ok x"
    and first: "\<And>i. i < length es \<Longrightarrow> accessed_word (es ! i) = Some x \<Longrightarrow> (\<forall>n < i. accessed_word (es ! n) \<noteq> Some x) \<Longrightarrow>
      has_room route x (run route tabs (take i es))"
    and i: "i < length es" "accessed_word (es ! i) = Some x"
  shows "has_room route x (run route tabs (take i es))"
proof -
  have ok: "tables_ok (run route tabs us)" for us using run_tables_ok [OF cl] .
  have "has_room route x (run route tabs (take n es))
      \<and> ((\<exists>k < n. accessed_word (es ! k) = Some x) \<longrightarrow> recorded route x (run route tabs (take n es)))"
    if "n \<le> i" "(\<exists>k < n. accessed_word (es ! k) = Some x) \<or> n = i" for n
  proof -
    have rec: "(\<exists>k < n. accessed_word (es ! k) = Some x) \<longrightarrow> recorded route x (run route tabs (take n es))"
      if "n \<le> i" for n
      using that
    proof (induction n)
      case (Suc n)
      then have n: "n < length es" using i by simp
      show ?case
      proof (cases "\<exists>k < n. accessed_word (es ! k) = Some x")
        case True
        then show ?thesis using Suc step_recorded [OF ok x] by (simp add: run_take_Suc [OF n])
      next
        case False
        show ?thesis
        proof
          assume "\<exists>k < Suc n. accessed_word (es ! k) = Some x"
          then have e: "accessed_word (es ! n) = Some x" using False by (auto simp: less_Suc_eq)
          then obtain h ad w loc line where "es ! n = Access h ad w loc line" "drop_bit 3 ad = x" by (cases "es ! n") auto
          moreover have "has_room route x (run route tabs (take n es))" using first [OF n e] False by blast
          ultimately show "recorded route x (run route tabs (take (Suc n) es))"
            using access_recorded [OF ok, of route ad] by (simp add: run_take_Suc [OF n])
        qed
      qed
    qed simp
    then show ?thesis using that recorded_room first [OF i] by (cases "\<exists>k < n. accessed_word (es ! k) = Some x") auto
  qed
  then show ?thesis by blast
qed

section \<open>Unordered writers are reported\<close>

lemma touch_word: "accessed_word (event_of e) = Some x \<longleftrightarrow> touch_on x (snd e)"
  by (cases e rule: event_of.cases) (auto simp: touch_on_def)

lemma waited_done:
  assumes o: "orderly es" and n: "n < length es" "(0, Wait_for h) \<in> set (take j es)" "fst (es ! n) = h" "h \<noteq> 0"
  shows "n < j"
proof -
  obtain p where p: "p < j" "es ! p = (0, Wait_for h)" using n(2) by (auto simp: take_entry)
  have "\<not> p < n" using worker_spawned(2) [OF o n(1)] n(3,4) p(2) by auto
  then show ?thesis using p(1) by simp
qed

lemma writers_meet:
  assumes r: "exec_reach P s" and ab: "a \<noteq> b" "a \<noteq> 0" "b \<noteq> 0"
    and d: "\<And>t as. as \<in> P t \<Longrightarrow> unsynced a b M x t as"
    and i: "i < length (log s)" "log s ! i = (a, Touch ad True loc line)" "drop_bit 3 ad = x"
    and last: "\<And>n e. i < n \<Longrightarrow> n < length (log s) \<Longrightarrow> log s ! n = (a, e) \<Longrightarrow> \<not> touch_on x e"
    and l: "i < l" "l < length (log s)" "log s ! l = (b, e)" "touch_on x e"
  shows "\<exists>j. i < j \<and> j < length (log s) \<and> fst (log s ! j) = b \<and> touch_on x (snd (log s ! j))
    \<and> (\<forall>n. i < n \<longrightarrow> n < j \<longrightarrow> \<not> touch_on x (snd (log s ! n))) \<and> \<not> hb (trace_of s) i j"
proof -
  have o: "orderly (log s)" by (rule matchedD(1) [OF reach_matched [OF r]])
  have k: "apart_ok a b M x t {c. (t, Wait_for c) \<in> set (take n (log s))} e"
    if "n < length (log s)" "log s ! n = (t, e)" for n t e using unsynced_kept [OF d r that] .
  define j where "j = (LEAST n. i < n \<and> fst (log s ! n) = b \<and> touch_on x (snd (log s ! n)))"
  have j: "i < j" "fst (log s ! j) = b" "touch_on x (snd (log s ! j))" "j \<le> l"
    unfolding j_def using LeastI [of "\<lambda>n. i < n \<and> fst (log s ! n) = b \<and> touch_on x (snd (log s ! n))" l]
      Least_le [of "\<lambda>n. i < n \<and> fst (log s ! n) = b \<and> touch_on x (snd (log s ! n))" l] l by auto
  have "\<not> touch_on x (snd (log s ! n))" if n: "i < n" "n < j" for n
  proof
    assume t: "touch_on x (snd (log s ! n))"
    have nl: "n < length (log s)" using n j(4) l(2) by simp
    obtain h f where e: "log s ! n = (h, f)" by (cases "log s ! n")
    have "h \<noteq> a" using last [OF n(1) nl] e t by auto
    moreover have "h \<noteq> b"
    proof
      assume "h = b"
      then have "i < n \<and> fst (log s ! n) = b \<and> touch_on x (snd (log s ! n))" using n(1) t e by simp
      then have "j \<le> n" unfolding j_def by (rule Least_le)
      then show False using n(2) by simp
    qed
    ultimately have "(0, Wait_for b) \<in> set (take n (log s))" using k [OF nl e] t e by (auto simp: touch_on_def)
    from waited_done [OF o _ this j(2) ab(3)] n j(4) l(2) show False by simp
  qed
  moreover have "\<not> hb (trace_of s) i j"
  proof
    assume "hb (trace_of s) i j"
    from stays_apart [OF r ab(2) k this] i(2) have "fst (log s ! j) = a \<or> fst (log s ! j) = 0" by auto
    then show False using j(2) ab by simp
  qed
  ultimately show ?thesis using j l(2) by (intro exI [of _ j]) auto
qed

lemma meeting_reported:
  assumes r: "exec_reach P s" and n: "length (log s) < 18446744073709551615" and cl: "tables_clean tabs"
    and first: "\<And>i. i < length (trace_of s) \<Longrightarrow> accessed_word (trace_of s ! i) = Some x \<Longrightarrow>
      (\<forall>n < i. accessed_word (trace_of s ! n) \<noteq> Some x) \<Longrightarrow> has_room route x (run route tabs (take i (trace_of s)))"
    and few: "spawns (done_by 0 (log s)) < RZ_RACE_MAX_THREADS"
    and i: "log s ! i = (a, Touch ad True loc line)" "drop_bit 3 ad = x"
    and j: "i < j" "j < length (log s)" "fst (log s ! j) \<noteq> a" "touch_on x (snd (log s ! j))"
    and between: "\<forall>n. i < n \<longrightarrow> n < j \<longrightarrow> \<not> touch_on x (snd (log s ! n))" and nhb: "\<not> hb (trace_of s) i j"
  shows "event_report route (run route tabs (take j (trace_of s))) (trace_of s ! j) \<noteq> None"
proof -
  have o: "orderly (log s)" by (rule matchedD(1) [OF reach_matched [OF r]])
  have g: "good_trace route tabs (trace_of s)" unfolding trace_of_def by (rule orderly_good [OF o n])
  have st: "settled (trace_of s)" unfolding trace_of_def by (rule orderly_settled [OF o])
  have len: "length (trace_of s) = length (log s)" by (simp add: trace_of_def)
  have il: "i < length (trace_of s)" using j len by simp
  have ei: "trace_of s ! i = Access a ad True loc line" using i il by (simp add: trace_of_def)
  obtain b ad' w' loc' line' where lj: "log s ! j = (b, Touch ad' w' loc' line')" "drop_bit 3 ad' = x"
    using j(4) by (cases "log s ! j") (auto simp: touch_on_def)
  then have ej: "trace_of s ! j = Access b ad' w' loc' line'" using j(2) by (simp add: trace_of_def)
  have x: "words_ok x" using i(2) word_of_addr by blast
  have room: "has_room route x (run route tabs (take i (trace_of s)))"
    by (rule access_room [OF cl x first il]) (simp_all add: ei i(2))
  let ?c = "run route tabs (take i (trace_of s))"
  have "0 < i" using orderly_at(1) [OF o _ i(1)] j by simp
  have tk: "take i (trace_of s) = map event_of (take i (log s))" by (simp add: trace_of_def take_map)
  have oi: "orderly (take i (log s))" by (rule orderly_take [OF o \<open>0 < i\<close>])
  have th: "threads ?c a \<noteq> None" using good_at(1) [OF g il] ei by simp
  have "tids_ok ?c" using prefix_ahead [OF g st, of i] il by simp
  then have "0 \<le> tid_of ?c a \<and> tid_of ?c a < next_tid (tids ?c)" using th by (simp add: tids_ok_def)
  moreover have "next_tid (tids ?c) \<le> int (Suc (spawns (done_by 0 (log s))))"
  proof -
    have "spawns (done_by 0 (take i (log s) @ drop i (log s)))
        = spawns (done_by 0 (take i (log s))) + spawns (done_by 0 (drop i (log s)))"
      by (simp only: spawns_def done_by_def filter_append map_append length_append)
    then have "spawns (done_by 0 (take i (log s))) \<le> spawns (done_by 0 (log s))" by simp
    then show ?thesis unfolding tk spawn_tids [OF oi] by simp
  qed
  ultimately have T: "tid_ok (tid_of ?c a)" using few by (simp add: tid_ok_def)
  show ?thesis
  proof (rule adjacent_reported [OF g st cl j(1) _ ei ej _ _ T _ _ _ nhb])
    show "j < length (trace_of s)" using j len by simp
    show "drop_bit 3 ad' = drop_bit 3 ad" using lj(2) i(2) by simp
    show "\<forall>n. i < n \<longrightarrow> n < j \<longrightarrow> accessed_word (trace_of s ! n) \<noteq> Some (drop_bit 3 ad)"
      using between j(2) i(2) by (auto simp: trace_of_def touch_word)
    show "fst (find_bucket (shards ?c (route (drop_bit 3 ad))) (drop_bit 3 ad) True) \<noteq> None"
      using room unfolding has_room_def i(2) .
    show "a \<noteq> b" using j(3) lj(1) by simp
  qed simp
qed

text \<open>
  Two threads whose last access to \<open>x\<close> is a write, with nothing between them that could order the accesses: when
  both have run to their end the detector has reported one of their accesses.
\<close>

lemma writers_reported:
  assumes "exec_reach P s" and "code s a = Some []" and "code s b = Some []"
    and "a \<noteq> b" and "a \<noteq> 0" and "b \<noteq> 0"
    and "\<And>t as. as \<in> P t \<Longrightarrow> unsynced a b M x t as \<and> unsynced b a N x t as"
    and "\<And>as. as \<in> P a \<union> P b \<Longrightarrow> ends_in_write x as"
    and "\<And>as. as \<in> P 0 \<Longrightarrow> spawns as < RZ_RACE_MAX_THREADS"
    and "length (log s) < 18446744073709551615" and "tables_clean tabs"
    and "\<And>i. i < length (trace_of s) \<Longrightarrow> accessed_word (trace_of s ! i) = Some x \<Longrightarrow>
      (\<forall>n < i. accessed_word (trace_of s ! n) \<noteq> Some x) \<Longrightarrow> has_room route x (run route tabs (take i (trace_of s)))"
  shows "\<exists>j < length (trace_of s). event_report route (run route tabs (take j (trace_of s))) (trace_of s ! j) \<noteq> None"
proof -
  have few: "spawns (done_by 0 (log s)) < RZ_RACE_MAX_THREADS"
  proof -
    obtain rest where "code s 0 = Some rest"
      using matchedD(2) [OF reach_matched [OF assms(1)], of 0] by (auto simp: begun_def)
    from performed [OF assms(1) this] assms(9) show ?thesis by (force simp: spawns_def)
  qed
  have go: "\<exists>j < length (trace_of s). event_report route (run route tabs (take j (trace_of s))) (trace_of s ! j) \<noteq> None"
    if h: "h \<noteq> k" "h \<noteq> 0" "k \<noteq> 0" and d: "\<And>t as. as \<in> P t \<Longrightarrow> unsynced h k K x t as"
      and i: "i < length (log s)" "log s ! i = (h, Touch ad True loc line)" "drop_bit 3 ad = x"
        "\<forall>n e. i < n \<longrightarrow> n < length (log s) \<longrightarrow> log s ! n = (h, e) \<longrightarrow> \<not> touch_on x e"
      and l: "i < l" "l < length (log s)" "log s ! l = (k, e)" "touch_on x e"
    for h k K i ad loc line l e
  proof -
    have "\<exists>j. i < j \<and> j < length (log s) \<and> fst (log s ! j) = k \<and> touch_on x (snd (log s ! j))
        \<and> (\<forall>n. i < n \<longrightarrow> n < j \<longrightarrow> \<not> touch_on x (snd (log s ! n))) \<and> \<not> hb (trace_of s) i j"
      by (rule writers_meet [OF assms(1) h d i(1-3) _ l]) (assumption, rule i(4) [rule_format], assumption+)
    then obtain j where j: "i < j" "j < length (log s)" "fst (log s ! j) = k" "touch_on x (snd (log s ! j))"
      "\<forall>n. i < n \<longrightarrow> n < j \<longrightarrow> \<not> touch_on x (snd (log s ! n))" "\<not> hb (trace_of s) i j" by blast
    have "fst (log s ! j) \<noteq> h" using j(3) h(1) by simp
    from meeting_reported [OF assms(1,10,11,12) few i(2,3) j(1,2) this j(4,5,6)] j(2)
    show ?thesis by (auto simp: trace_of_def)
  qed
  obtain i adi loci linei where i: "i < length (log s)" "log s ! i = (a, Touch adi True loci linei)" "drop_bit 3 adi = x"
    "\<forall>n e. i < n \<longrightarrow> n < length (log s) \<longrightarrow> log s ! n = (a, e) \<longrightarrow> \<not> touch_on x e"
    using last_write [OF assms(1,2)] assms(8) by (metis UnI1)
  obtain l adl locl linel where l: "l < length (log s)" "log s ! l = (b, Touch adl True locl linel)" "drop_bit 3 adl = x"
    "\<forall>n e. l < n \<longrightarrow> n < length (log s) \<longrightarrow> log s ! n = (b, e) \<longrightarrow> \<not> touch_on x e"
    using last_write [OF assms(1,3)] assms(8) by (metis UnI2)
  have t: "touch_on x (Touch adl True locl linel)" "touch_on x (Touch adi True loci linei)"
    using i(3) l(3) by (auto simp: touch_on_def)
  have "i \<noteq> l" using i(2) l(2) assms(4) by auto
  then consider "i < l" | "l < i" by linarith
  then show ?thesis
  proof cases
    case 1
    show ?thesis by (rule go [OF assms(4-6) _ i 1 l(1,2) t(1)]) (use assms(7) in blast)
  next
    case 2
    show ?thesis by (rule go [OF assms(4) [symmetric] assms(6,5) _ l 2 i(1,2) t(2)]) (use assms(7) in blast)
  qed
qed

end
