(* ===== verification/Race_Examples.thy ===== *)
theory Race_Examples
  imports Race_Unsynced
begin

text \<open>
  The race-mode programs under \<^verbatim>\<open>examples\<close>, with the verdicts that \<^verbatim>\<open>scripts/test_race_e2e.sh\<close> expects of them, for
  every interleaving. The addresses of their variables are parameters, and so is the number of rounds of their
  loops. What is optimized into registers is left out; the threads' handles that the first thread reads back
  for \<^verbatim>\<open>pthread_join\<close> are kept. A failed \<^verbatim>\<open>trylock\<close> and \<^verbatim>\<open>pthread_cond_signal\<close> tell the runtime nothing.
\<close>

section \<open>The programs\<close>

text \<open>Two threads, created in order and joined in order, and what the first thread does in the end.\<close>

definition two_threads :: "u64 \<Rightarrow> u64 \<Rightarrow> cstr \<Rightarrow> int \<Rightarrow> act list \<Rightarrow> act list" where
  "two_threads a b loc line end =
     [Spawn 1, Spawn 2, Touch a False loc line, Wait_for 1, Touch b False loc (line + 1), Wait_for 2] @ end"

definition program_of :: "act list \<Rightarrow> act list set \<Rightarrow> act list set \<Rightarrow> program" where
  "program_of as W1 W2 = (\<lambda>t. if t = 0 then {as} else if t = 1 then W1 else if t = 2 then W2 else {})"

definition race_clean_worker :: "u64 \<Rightarrow> u64 \<Rightarrow> nat \<Rightarrow> act list" where
  "race_clean_worker counter lock n = concat (replicate n
     [Lock lock True, Touch counter False (Some ''race_clean.c'') 15, Touch counter True (Some ''race_clean.c'') 15, Unlock lock])"

definition race_clean :: "u64 \<Rightarrow> u64 \<Rightarrow> u64 \<Rightarrow> u64 \<Rightarrow> nat \<Rightarrow> program" where
  "race_clean counter lock a b n = program_of
     (two_threads a b (Some ''race_clean.c'') 25 [Touch counter False (Some ''race_clean.c'') 27])
     {race_clean_worker counter lock n} {race_clean_worker counter lock n}"

definition race_trylock_worker :: "u64 \<Rightarrow> u64 \<Rightarrow> nat \<Rightarrow> act list" where
  "race_trylock_worker counter m n = concat (replicate n
     [Lock m True, Touch counter False (Some ''race_trylock_clean.c'') 17, Touch counter True (Some ''race_trylock_clean.c'') 17, Unlock m])"

definition race_trylock_clean :: "u64 \<Rightarrow> u64 \<Rightarrow> u64 \<Rightarrow> u64 \<Rightarrow> nat \<Rightarrow> program" where
  "race_trylock_clean counter m a b n = program_of
     (two_threads a b (Some ''race_trylock_clean.c'') 27 [Touch counter False (Some ''race_trylock_clean.c'') 29])
     {race_trylock_worker counter m n} {race_trylock_worker counter m n}"

definition race_rwlock_reader :: "u64 \<Rightarrow> u64 \<Rightarrow> nat \<Rightarrow> act list" where
  "race_rwlock_reader shared rw n = concat (replicate n [Lock rw False, Touch shared False (Some ''race_rwlock_clean.c'') 16, Unlock rw])"

definition race_rwlock_writer :: "u64 \<Rightarrow> u64 \<Rightarrow> nat \<Rightarrow> act list" where
  "race_rwlock_writer shared rw n = concat (replicate n
     [Lock rw True, Touch shared False (Some ''race_rwlock_clean.c'') 26, Touch shared True (Some ''race_rwlock_clean.c'') 26, Unlock rw])"

definition race_rwlock_clean :: "u64 \<Rightarrow> u64 \<Rightarrow> u64 \<Rightarrow> u64 \<Rightarrow> u64 \<Rightarrow> nat \<Rightarrow> program" where
  "race_rwlock_clean shared rw r1 r2 w n = (program_of
     [Spawn 1, Spawn 2, Spawn 3, Touch r1 False (Some ''race_rwlock_clean.c'') 37, Wait_for 1,
      Touch r2 False (Some ''race_rwlock_clean.c'') 38, Wait_for 2, Touch w False (Some ''race_rwlock_clean.c'') 39, Wait_for 3,
      Touch shared False (Some ''race_rwlock_clean.c'') 40]
     {race_rwlock_reader shared rw n} {race_rwlock_reader shared rw n})(3 := {race_rwlock_writer shared rw n})"

text \<open>The bounded buffer: a thread may wait any number of times before it goes on; waiting gives the mutex up and takes it
  again.\<close>

definition condvar_producer_round :: "u64 \<Rightarrow> u64 \<Rightarrow> u64 \<Rightarrow> nat \<Rightarrow> act list" where
  "condvar_producer_round box full m k =
     Lock m True # concat (replicate k [Touch full False (Some ''race_condvar_clean.c'') 27, Unlock m, Lock m True]) @
     [Touch full False (Some ''race_condvar_clean.c'') 27, Touch box True (Some ''race_condvar_clean.c'') 29,
      Touch full True (Some ''race_condvar_clean.c'') 30, Unlock m]"

definition condvar_consumer_round :: "u64 \<Rightarrow> u64 \<Rightarrow> u64 \<Rightarrow> u64 \<Rightarrow> nat \<Rightarrow> act list" where
  "condvar_consumer_round box full m ts k =
     Lock m True # concat (replicate k [Touch full False (Some ''race_condvar_clean.c'') 42,
       Touch ts False (Some ''race_condvar_clean.c'') 45, Touch ts True (Some ''race_condvar_clean.c'') 45, Unlock m, Lock m True]) @
     [Touch full False (Some ''race_condvar_clean.c'') 42, Touch box False (Some ''race_condvar_clean.c'') 48,
      Touch full True (Some ''race_condvar_clean.c'') 49, Unlock m]"

definition race_condvar_clean :: "u64 \<Rightarrow> u64 \<Rightarrow> u64 \<Rightarrow> u64 \<Rightarrow> u64 \<Rightarrow> u64 \<Rightarrow> nat \<Rightarrow> program" where
  "race_condvar_clean box full m ts p c n = program_of
     (two_threads p c (Some ''race_condvar_clean.c'') 61 [])
     {concat (map (condvar_producer_round box full m) ks) | ks. length ks = n}
     {concat (map (condvar_consumer_round box full m ts) ks) | ks. length ks = n}"

definition race_atomic_clean :: "u64 \<Rightarrow> u64 \<Rightarrow> u64 \<Rightarrow> u64 \<Rightarrow> program" where
  "race_atomic_clean data rdy p c = program_of
     [Spawn 1, Spawn 2, Touch p False (Some ''race_atomic_clean.c'') 37, Wait_for 2,
      Touch c False (Some ''race_atomic_clean.c'') 38, Wait_for 1]
     {replicate k (Poll rdy) @ [Await rdy, Touch data False (Some ''race_atomic_clean.c'') 28] | k. True}
     {[Touch data True (Some ''race_atomic_clean.c'') 18, Publish rdy]}"

definition race_atomic_counter_clean :: "u64 \<Rightarrow> u64 \<Rightarrow> u64 \<Rightarrow> nat \<Rightarrow> program" where
  "race_atomic_counter_clean counter a b n = program_of
     (two_threads a b (Some ''race_atomic_counter_clean.c'') 21 [Poll counter])
     {concat (replicate n [Publish counter, Poll counter])} {concat (replicate n [Publish counter, Poll counter])}"

definition race_data_race_worker :: "u64 \<Rightarrow> nat \<Rightarrow> act list" where
  "race_data_race_worker counter n = concat (replicate n
     [Touch counter False (Some ''race_data_race.c'') 14, Touch counter True (Some ''race_data_race.c'') 14])"

definition race_data_race :: "u64 \<Rightarrow> u64 \<Rightarrow> u64 \<Rightarrow> nat \<Rightarrow> program" where
  "race_data_race counter a b n = program_of
     (two_threads a b (Some ''race_data_race.c'') 22 [Touch counter False (Some ''race_data_race.c'') 24])
     {race_data_race_worker counter n} {race_data_race_worker counter n}"

definition locked_writer :: "u64 \<Rightarrow> u64 \<Rightarrow> nat \<Rightarrow> act list" where
  "locked_writer shared rw n = concat (replicate n
     [Lock rw True, Touch shared False (Some ''race_rwlock_unlocked.c'') 15, Touch shared True (Some ''race_rwlock_unlocked.c'') 15, Unlock rw])"

definition rogue_writer :: "u64 \<Rightarrow> nat \<Rightarrow> act list" where
  "rogue_writer shared n = concat (replicate n
     [Touch shared False (Some ''race_rwlock_unlocked.c'') 24, Touch shared True (Some ''race_rwlock_unlocked.c'') 24])"

definition race_rwlock_unlocked :: "u64 \<Rightarrow> u64 \<Rightarrow> u64 \<Rightarrow> u64 \<Rightarrow> nat \<Rightarrow> program" where
  "race_rwlock_unlocked shared rw a b n = program_of
     (two_threads a b (Some ''race_rwlock_unlocked.c'') 32 [Touch shared False (Some ''race_rwlock_unlocked.c'') 34])
     {locked_writer shared rw n} {rogue_writer shared n}"

section \<open>Programs whose words are all guarded\<close>

text \<open>Every word is guarded by a lock, handed over through a flag, or touched by one thread.\<close>

definition guarded_word :: "program \<Rightarrow> u64 \<Rightarrow> bool" where
  "guarded_word P x \<longleftrightarrow> (\<exists>m. \<forall>t. \<forall>as \<in> P t. keeps_lock m x t as) \<or> (\<exists>p f. \<forall>t. \<forall>as \<in> P t. hands_over p f x t as)
     \<or> (\<exists>p. \<forall>t. \<forall>as \<in> P t. only_by p x t as)"

text \<open>No access of the trace is reported.\<close>

definition quiet :: "(u64 \<Rightarrow> nat) \<Rightarrow> (nat \<Rightarrow> rz_race_state) \<Rightarrow> exec \<Rightarrow> bool" where
  "quiet route tabs s \<longleftrightarrow> (\<forall>j < length (trace_of s).
     event_report route (run route tabs (take j (trace_of s))) (trace_of s ! j) = None)"

lemma silent_quiet: "(\<And>x. silent_on route tabs x s) \<Longrightarrow> quiet route tabs s"
  unfolding quiet_def
proof (intro allI impI)
  fix j assume s: "\<And>x. silent_on route tabs x s" and j: "j < length (trace_of s)"
  show "event_report route (run route tabs (take j (trace_of s))) (trace_of s ! j) = None"
  proof (cases "trace_of s ! j")
    case (Access h ad w loc line)
    then show ?thesis using s [of "drop_bit 3 ad"] j unfolding silent_on_def by fastforce
  qed simp_all
qed

lemma guarded_quiet:
  assumes "\<And>x. guarded_word P x" and r: "exec_reach P s" and cl: "tables_clean tabs" and n: "length (log s) < 18446744073709551615"
  shows "quiet route tabs s"
proof (rule silent_quiet)
  fix x
  show "silent_on route tabs x s"
    using assms(1) [of x] disciplined_silent [OF _ r cl n] published_silent [OF _ r cl n] private_silent [OF _ r cl n]
    unfolding guarded_word_def by blast
qed

section \<open>The clean examples are guarded\<close>

lemma keeps_rounds:
  assumes "\<And>L. obeys (lock_next m) (lock_ok x) t (None, L) body \<and> foldl (lock_next m t) (None, L) (map (Pair t) body) = (None, L)"
  shows "keeps_lock m x t (concat (replicate n body))"
  unfolding keeps_lock_def using obeys_repeat [of "replicate n body" "lock_next m" "lock_ok x" t "(None, {})"] assms by auto

lemma only_by_append [simp]: "only_by p x t (as @ bs) \<longleftrightarrow> only_by p x t as \<and> only_by p x t bs"
  by (induction as) auto

lemma only_by_rounds: "only_by p x t (concat bodies) \<longleftrightarrow> (\<forall>as \<in> set bodies. only_by p x t as)"
  by (induction bodies) auto

lemma in_program:
  "as \<in> program_of as0 W1 W2 t \<longleftrightarrow> t = 0 \<and> as = as0 \<or> t = 1 \<and> as \<in> W1 \<or> t = 2 \<and> as \<in> W2"
  by (auto simp: program_of_def)

lemma lock_rounds:
  "keeps_lock m x t (concat (replicate n [Lock m True, Touch ad False f k, Touch ad True f k, Unlock m]))"
  "keeps_lock m x t (concat (replicate n [Lock m False, Touch ad False f k, Unlock m]))"
  by (rule keeps_rounds, simp add: lock_next_def)+

lemma main_keeps:
  assumes "drop_bit 3 a \<noteq> x" and "drop_bit 3 b \<noteq> x" and "\<And>e. e \<in> set end \<Longrightarrow> \<exists>ad f l. e = Touch ad False f l"
  shows "keeps_lock m x 0 (two_threads a b loc line end)"
proof -
  have "obeys (lock_next m) (lock_ok x) 0 (None, {}) end"
    using assms(3)
  proof (induction "end")
    case (Cons e es)
    obtain ad f l where "e = Touch ad False f l" using Cons.prems [of e] by auto
    then show ?case using Cons by (simp add: lock_next_def)
  qed simp
  moreover have e: "{2, Suc 0} - {Suc 0} - {2} = ({} :: nat set)" by auto
  ultimately show ?thesis using assms(1,2) by (simp add: keeps_lock_def two_threads_def lock_next_def e)
qed

lemma race_clean_guarded:
  assumes "drop_bit 3 a \<noteq> drop_bit 3 counter" and "drop_bit 3 b \<noteq> drop_bit 3 counter"
  shows "guarded_word (race_clean counter lock a b n) x"
proof (cases "x = drop_bit 3 counter")
  case True
  have "\<forall>as \<in> race_clean counter lock a b n t. keeps_lock lock x t as" for t
    using main_keeps [of a x b "[Touch counter False (Some ''race_clean.c'') 27]"] lock_rounds assms
    by (auto simp: race_clean_def in_program race_clean_worker_def True)
  then show ?thesis unfolding guarded_word_def by blast
next
  case False
  then have "\<forall>as \<in> race_clean counter lock a b n t. only_by 0 x t as" for t
    by (auto simp: race_clean_def in_program race_clean_worker_def two_threads_def only_by_rounds)
  then show ?thesis unfolding guarded_word_def by blast
qed

lemma race_trylock_guarded:
  assumes "drop_bit 3 a \<noteq> drop_bit 3 counter" and "drop_bit 3 b \<noteq> drop_bit 3 counter"
  shows "guarded_word (race_trylock_clean counter m a b n) x"
proof (cases "x = drop_bit 3 counter")
  case True
  have "\<forall>as \<in> race_trylock_clean counter m a b n t. keeps_lock m x t as" for t
    using main_keeps [of a x b "[Touch counter False (Some ''race_trylock_clean.c'') 29]"] lock_rounds assms
    by (auto simp: race_trylock_clean_def in_program race_trylock_worker_def True)
  then show ?thesis unfolding guarded_word_def by blast
next
  case False
  then have "\<forall>as \<in> race_trylock_clean counter m a b n t. only_by 0 x t as" for t
    by (auto simp: race_trylock_clean_def in_program race_trylock_worker_def two_threads_def only_by_rounds)
  then show ?thesis unfolding guarded_word_def by blast
qed

lemma race_rwlock_guarded:
  assumes "drop_bit 3 r1 \<noteq> drop_bit 3 shared" and "drop_bit 3 r2 \<noteq> drop_bit 3 shared" and "drop_bit 3 w \<noteq> drop_bit 3 shared"
  shows "guarded_word (race_rwlock_clean shared rw r1 r2 w n) x"
proof (cases "x = drop_bit 3 shared")
  case True
  have "\<forall>as \<in> race_rwlock_clean shared rw r1 r2 w n t. keeps_lock rw x t as" for t
    using lock_rounds assms
    by (auto simp: race_rwlock_clean_def in_program race_rwlock_reader_def race_rwlock_writer_def True keeps_lock_def [of _ _ 0] lock_next_def)
  then show ?thesis unfolding guarded_word_def by blast
next
  case False
  then have "\<forall>as \<in> race_rwlock_clean shared rw r1 r2 w n t. only_by 0 x t as" for t
    by (auto simp: race_rwlock_clean_def in_program race_rwlock_reader_def race_rwlock_writer_def only_by_rounds)
  then show ?thesis unfolding guarded_word_def by blast
qed

lemma race_atomic_guarded:
  assumes "drop_bit 3 p \<noteq> drop_bit 3 data" and "drop_bit 3 c \<noteq> drop_bit 3 data"
  shows "guarded_word (race_atomic_clean data rdy p c) x"
proof (cases "x = drop_bit 3 data")
  case True
  have "obeys (flag_next 2 rdy) (flag_ok 2 rdy x) 1 st (replicate k (Poll rdy))
      \<and> foldl (flag_next 2 rdy 1) st (map (Pair 1) (replicate k (Poll rdy))) = st" for st k
    by (induction k) auto
  then have "\<forall>as \<in> race_atomic_clean data rdy p c t. hands_over 2 rdy x t as" for t
    using assms by (auto simp: race_atomic_clean_def in_program hands_over_def obeys_append True)
  then show ?thesis unfolding guarded_word_def by blast
next
  case False
  have "only_by 0 x 1 (replicate k (Poll rdy))" for k by (induction k) auto
  then have "\<forall>as \<in> race_atomic_clean data rdy p c t. only_by 0 x t as" for t
    using False by (auto simp: race_atomic_clean_def in_program)
  then show ?thesis unfolding guarded_word_def by blast
qed

lemma race_atomic_counter_guarded: "guarded_word (race_atomic_counter_clean counter a b n) x"
proof -
  have "\<forall>as \<in> race_atomic_counter_clean counter a b n t. only_by 0 x t as" for t
    by (auto simp: race_atomic_counter_clean_def in_program two_threads_def only_by_rounds)
  then show ?thesis unfolding guarded_word_def by blast
qed

lemma condvar_rounds:
  assumes "drop_bit 3 ts \<noteq> x"
  shows "keeps_lock m x t (concat (map (condvar_producer_round box full m) ks))"
    and "keeps_lock m x t (concat (map (condvar_consumer_round box full m ts) ks))"
proof -
  let ?w = "[Touch full False (Some ''race_condvar_clean.c'') 27, Unlock m, Lock m True]"
  have w: "obeys (lock_next m) (lock_ok x) t (Some True, L) (concat (replicate k ?w))
      \<and> foldl (lock_next m t) (Some True, L) (map (Pair t) (concat (replicate k ?w))) = (Some True, L)" for k L
    by (rule obeys_repeat) (simp add: lock_next_def)
  have "obeys (lock_next m) (lock_ok x) t (None, {}) (concat (map (condvar_producer_round box full m) ks))
      \<and> foldl (lock_next m t) (None, {}) (map (Pair t) (concat (map (condvar_producer_round box full m) ks))) = (None, {})"
    by (rule obeys_repeat) (use w in \<open>auto simp: condvar_producer_round_def obeys_append lock_next_def\<close>)
  then show "keeps_lock m x t (concat (map (condvar_producer_round box full m) ks))" by (simp add: keeps_lock_def)
  let ?v = "[Touch full False (Some ''race_condvar_clean.c'') 42, Touch ts False (Some ''race_condvar_clean.c'') 45,
    Touch ts True (Some ''race_condvar_clean.c'') 45, Unlock m, Lock m True]"
  have v: "obeys (lock_next m) (lock_ok x) t (Some True, L) (concat (replicate k ?v))
      \<and> foldl (lock_next m t) (Some True, L) (map (Pair t) (concat (replicate k ?v))) = (Some True, L)" for k L
    by (rule obeys_repeat) (use assms in \<open>simp add: lock_next_def\<close>)
  have "obeys (lock_next m) (lock_ok x) t (None, {}) (concat (map (condvar_consumer_round box full m ts) ks))
      \<and> foldl (lock_next m t) (None, {}) (map (Pair t) (concat (map (condvar_consumer_round box full m ts) ks))) = (None, {})"
    by (rule obeys_repeat) (use v in \<open>auto simp: condvar_consumer_round_def obeys_append lock_next_def\<close>)
  then show "keeps_lock m x t (concat (map (condvar_consumer_round box full m ts) ks))" by (simp add: keeps_lock_def)
qed

lemma race_condvar_guarded:
  assumes "{drop_bit 3 p, drop_bit 3 c, drop_bit 3 ts} \<inter> {drop_bit 3 box, drop_bit 3 full} = {}"
    and "drop_bit 3 ts \<noteq> drop_bit 3 p" and "drop_bit 3 ts \<noteq> drop_bit 3 c"
  shows "guarded_word (race_condvar_clean box full m ts p c n) x"
proof -
  consider "x \<in> {drop_bit 3 box, drop_bit 3 full}" | "x \<notin> {drop_bit 3 box, drop_bit 3 full}" "x = drop_bit 3 ts"
    | "x \<notin> {drop_bit 3 box, drop_bit 3 full}" "x \<noteq> drop_bit 3 ts" by blast
  then show ?thesis
  proof cases
    case 1
    have "drop_bit 3 ts \<noteq> x" "drop_bit 3 p \<noteq> x" "drop_bit 3 c \<noteq> x" using 1 assms(1) by auto
    then have "\<forall>as \<in> race_condvar_clean box full m ts p c n t. keeps_lock m x t as" for t
      using main_keeps [of p x c "[]"] condvar_rounds by (auto simp: race_condvar_clean_def in_program)
    then show ?thesis unfolding guarded_word_def by blast
  next
    case 2
    then have "\<forall>as \<in> race_condvar_clean box full m ts p c n t. only_by 2 x t as" for t
      using assms(2,3) by (auto simp: race_condvar_clean_def in_program two_threads_def only_by_rounds
          condvar_producer_round_def condvar_consumer_round_def)
    then show ?thesis unfolding guarded_word_def by blast
  next
    case 3
    then have "\<forall>as \<in> race_condvar_clean box full m ts p c n t. only_by 0 x t as" for t
      by (auto simp: race_condvar_clean_def in_program two_threads_def only_by_rounds
          condvar_producer_round_def condvar_consumer_round_def)
    then show ?thesis unfolding guarded_word_def by blast
  qed
qed

section \<open>The racy examples have unordered writers\<close>

lemma writer_rounds:
  assumes "drop_bit 3 ad = x"
  shows "ends_in_write x (concat (replicate (Suc n) [Touch ad False f l, Touch ad True f l]))"
    and "ends_in_write x (concat (replicate (Suc n) [Lock m True, Touch ad False f l, Touch ad True f l, Unlock m]))"
proof -
  have s: "concat (replicate (Suc n) body) = concat (replicate n body) @ body" for body :: "act list"
    by (induction n) simp_all
  show "ends_in_write x (concat (replicate (Suc n) [Touch ad False f l, Touch ad True f l]))"
    unfolding s ends_in_write_def using assms
    by (intro exI [of _ "concat (replicate n [Touch ad False f l, Touch ad True f l]) @ [Touch ad False f l]"] exI [of _ "[]"]) auto
  show "ends_in_write x (concat (replicate (Suc n) [Lock m True, Touch ad False f l, Touch ad True f l, Unlock m]))"
    unfolding s ends_in_write_def using assms
    by (intro exI [of _ "concat (replicate n [Lock m True, Touch ad False f l, Touch ad True f l, Unlock m])
        @ [Lock m True, Touch ad False f l]"] exI [of _ "[Unlock m]"]) (auto simp: touch_on_def)
qed

lemma unsynced_rounds:
  assumes "obeys join_next (apart_ok a b M x) t {} body \<and> foldl (join_next t) {} (map (Pair t) body) = {}"
  shows "unsynced a b M x t (concat (replicate n body))"
  unfolding unsynced_def using obeys_repeat [of "replicate n body" join_next "apart_ok a b M x" t "{}"] assms by auto

lemma main_unsynced:
  assumes "drop_bit 3 p \<noteq> x" and "drop_bit 3 q \<noteq> x" and "(a, b) = (1, 2) \<or> (a, b) = (2, 1)"
  shows "unsynced a b M x 0 (two_threads p q loc line [Touch ad False f l])"
  using assms by (auto simp: unsynced_def two_threads_def)

lemma race_data_race_unsynced:
  assumes "drop_bit 3 p \<noteq> drop_bit 3 counter" and "drop_bit 3 q \<noteq> drop_bit 3 counter"
    and "(a, b) = (1, 2) \<or> (a, b) = (2, 1)" and "as \<in> race_data_race counter p q n t"
  shows "unsynced a b {} (drop_bit 3 counter) t as"
proof -
  have "unsynced a b {} (drop_bit 3 counter) t (race_data_race_worker counter n)" if "t = 1 \<or> t = 2"
    unfolding race_data_race_worker_def by (rule unsynced_rounds) (use assms(3) that in auto)
  then show ?thesis using main_unsynced [OF assms(1-3)] assms(4) by (auto simp: race_data_race_def in_program)
qed

lemma race_rwlock_unlocked_unsynced:
  assumes "drop_bit 3 p \<noteq> drop_bit 3 shared" and "drop_bit 3 q \<noteq> drop_bit 3 shared"
    and as: "as \<in> race_rwlock_unlocked shared rw p q n t"
  shows "unsynced 1 2 {rw} (drop_bit 3 shared) t as \<and> unsynced 2 1 {} (drop_bit 3 shared) t as"
proof -
  have "unsynced 1 2 {rw} (drop_bit 3 shared) 1 (locked_writer shared rw n)" "unsynced 2 1 {} (drop_bit 3 shared) 1 (locked_writer shared rw n)"
    unfolding locked_writer_def by (rule unsynced_rounds, simp)+
  moreover have "unsynced 1 2 {rw} (drop_bit 3 shared) 2 (rogue_writer shared n)" "unsynced 2 1 {} (drop_bit 3 shared) 2 (rogue_writer shared n)"
    unfolding rogue_writer_def by (rule unsynced_rounds, simp)+
  moreover have "unsynced 1 2 {rw} (drop_bit 3 shared) 0 (two_threads p q (Some ''race_rwlock_unlocked.c'') 32 [Touch shared False (Some ''race_rwlock_unlocked.c'') 34])"
    "unsynced 2 1 {} (drop_bit 3 shared) 0 (two_threads p q (Some ''race_rwlock_unlocked.c'') 32 [Touch shared False (Some ''race_rwlock_unlocked.c'') 34])"
    by (rule main_unsynced [OF assms(1,2)], simp)+
  ultimately show ?thesis using as by (auto simp: race_rwlock_unlocked_def in_program)
qed

lemma racy_ends:
  "as \<in> race_data_race v a b (Suc n) 1 \<union> race_data_race v a b (Suc n) 2 \<Longrightarrow> ends_in_write (drop_bit 3 v) as"
  "as \<in> race_rwlock_unlocked v m a b (Suc n) 1 \<union> race_rwlock_unlocked v m a b (Suc n) 2 \<Longrightarrow> ends_in_write (drop_bit 3 v) as"
proof -
  have w: "ends_in_write (drop_bit 3 v) (race_data_race_worker v (Suc n))" "ends_in_write (drop_bit 3 v) (locked_writer v m (Suc n))"
    "ends_in_write (drop_bit 3 v) (rogue_writer v (Suc n))"
    unfolding race_data_race_worker_def locked_writer_def rogue_writer_def by (rule writer_rounds [OF refl])+
  show "as \<in> race_data_race v a b (Suc n) 1 \<union> race_data_race v a b (Suc n) 2 \<Longrightarrow> ends_in_write (drop_bit 3 v) as"
    unfolding race_data_race_def Un_iff in_program using w(1) by auto
  show "as \<in> race_rwlock_unlocked v m a b (Suc n) 1 \<union> race_rwlock_unlocked v m a b (Suc n) 2 \<Longrightarrow> ends_in_write (drop_bit 3 v) as"
    unfolding race_rwlock_unlocked_def Un_iff in_program using w(2,3) by auto
qed

lemma racy_spawns:
  "as \<in> race_data_race v a b n 0 \<Longrightarrow> spawns as < RZ_RACE_MAX_THREADS"
  "as \<in> race_rwlock_unlocked v m a b n 0 \<Longrightarrow> spawns as < RZ_RACE_MAX_THREADS"
  by (simp_all add: race_data_race_def race_rwlock_unlocked_def in_program two_threads_def spawns_def RZ_RACE_MAX_THREADS_def)

section \<open>Sample executions\<close>

lemma go_fork:
  "exec_reach P s \<Longrightarrow> code s 0 = Some (Spawn k # as) \<Longrightarrow> code s k = None \<Longrightarrow> bs \<in> P k \<Longrightarrow>
    exec_reach P \<lparr>code = (code s)(0 \<mapsto> as, k \<mapsto> bs), log = log s @ [(0, Spawn k)]\<rparr>"
  using exec_reach.Step [OF _ exec_step.Fork [of s 0 k as bs P]] by (cases s) simp

lemma go_on:
  "exec_reach P s \<Longrightarrow> code s h = Some (a # as) \<Longrightarrow> ready s h a \<Longrightarrow> (\<And>k. a \<noteq> Spawn k) \<Longrightarrow>
    exec_reach P \<lparr>code = (code s)(h \<mapsto> as), log = log s @ [(h, a)]\<rparr>"
  using exec_reach.Step [OF _ exec_step.Go [of s h a as P]] by (cases s) simp

text \<open>Both threads of \<^verbatim>\<open>race_data_race.c\<close>, one round each, one after the other.\<close>

definition racy_log :: "entry list" where
  "racy_log = [(0, Begin), (0, Spawn 1), (0, Spawn 2),
     (1, Touch 4096 False (Some ''race_data_race.c'') 14), (1, Touch 4096 True (Some ''race_data_race.c'') 14),
     (2, Touch 4096 False (Some ''race_data_race.c'') 14), (2, Touch 4096 True (Some ''race_data_race.c'') 14)]"

lemma racy_run:
  "\<exists>s. exec_reach (race_data_race 4096 8192 8200 1) s \<and> log s = racy_log \<and> code s 1 = Some [] \<and> code s 2 = Some []"
proof -
  let ?P = "race_data_race 4096 8192 8200 1"
  let ?r = "Touch 4096 False (Some ''race_data_race.c'') 14" and ?w = "Touch 4096 True (Some ''race_data_race.c'') 14"
  let ?rest = "[Touch 8192 False (Some ''race_data_race.c'') 22, Wait_for 1, Touch 8200 False (Some ''race_data_race.c'') 23, Wait_for 2,
    Touch 4096 False (Some ''race_data_race.c'') 24]"
  have p: "?P 0 = {Spawn 1 # Spawn 2 # ?rest}" "?P 1 = {[?r, ?w]}" "?P 2 = {[?r, ?w]}"
    by (simp_all add: race_data_race_def program_of_def two_threads_def race_data_race_worker_def)
  have "exec_reach ?P \<lparr>code = [0 \<mapsto> Spawn 1 # Spawn 2 # ?rest], log = [(0, Begin)]\<rparr>" by (rule exec_reach.Start) (simp add: p del: One_nat_def)
  from go_fork [OF this, of 1 "Spawn 2 # ?rest" "[?r, ?w]"]
  have "exec_reach ?P \<lparr>code = [0 \<mapsto> Spawn 2 # ?rest, 1 \<mapsto> [?r, ?w]], log = take 2 racy_log\<rparr>" by (simp add: p racy_log_def del: One_nat_def)
  from go_fork [OF this, of 2 "?rest" "[?r, ?w]"]
  have "exec_reach ?P \<lparr>code = [0 \<mapsto> ?rest, 1 \<mapsto> [?r, ?w], 2 \<mapsto> [?r, ?w]], log = take 3 racy_log\<rparr>"
    by (simp add: p racy_log_def fun_upd_twist del: One_nat_def)
  from go_on [OF this, of 1 ?r "[?w]"]
  have "exec_reach ?P \<lparr>code = [0 \<mapsto> ?rest, 1 \<mapsto> [?w], 2 \<mapsto> [?r, ?w]], log = take 4 racy_log\<rparr>"
    by (simp add: racy_log_def fun_upd_twist del: One_nat_def)
  from go_on [OF this, of 1 ?w "[]"]
  have "exec_reach ?P \<lparr>code = [0 \<mapsto> ?rest, 1 \<mapsto> [], 2 \<mapsto> [?r, ?w]], log = take 5 racy_log\<rparr>"
    by (simp add: racy_log_def fun_upd_twist del: One_nat_def)
  from go_on [OF this, of 2 ?r "[?w]"]
  have "exec_reach ?P \<lparr>code = [0 \<mapsto> ?rest, 1 \<mapsto> [], 2 \<mapsto> [?w]], log = take 6 racy_log\<rparr>"
    by (simp add: racy_log_def fun_upd_twist del: One_nat_def)
  from go_on [OF this, of 2 ?w "[]"]
  have "exec_reach ?P \<lparr>code = [0 \<mapsto> ?rest, 1 \<mapsto> [], 2 \<mapsto> []], log = racy_log\<rparr>"
    by (simp add: racy_log_def fun_upd_twist del: One_nat_def)
  then show ?thesis by (intro exI conjI) auto
qed

text \<open>One round of the first thread of \<^verbatim>\<open>race_clean.c\<close>, and the lock taken by the second.\<close>

definition clean_log :: "entry list" where
  "clean_log = [(0, Begin), (0, Spawn 1), (0, Spawn 2), (1, Lock 64 True),
     (1, Touch 4096 False (Some ''race_clean.c'') 15), (1, Touch 4096 True (Some ''race_clean.c'') 15), (1, Unlock 64),
     (2, Lock 64 True), (2, Touch 4096 False (Some ''race_clean.c'') 15)]"

lemma clean_run: "\<exists>s. exec_reach (race_clean 4096 64 8192 8200 1) s \<and> log s = clean_log"
proof -
  let ?P = "race_clean 4096 64 8192 8200 1"
  let ?r = "Touch 4096 False (Some ''race_clean.c'') 15" and ?w = "Touch 4096 True (Some ''race_clean.c'') 15"
  let ?b = "[Lock 64 True, ?r, ?w, Unlock 64]"
  let ?rest = "[Touch 8192 False (Some ''race_clean.c'') 25, Wait_for 1, Touch 8200 False (Some ''race_clean.c'') 26, Wait_for 2,
    Touch 4096 False (Some ''race_clean.c'') 27]"
  note st = clean_log_def fun_upd_twist mode_def
  have p: "?P 0 = {Spawn 1 # Spawn 2 # ?rest}" "?P 1 = {?b}" "?P 2 = {?b}"
    by (simp_all add: race_clean_def program_of_def two_threads_def race_clean_worker_def)
  have "exec_reach ?P \<lparr>code = [0 \<mapsto> Spawn 1 # Spawn 2 # ?rest], log = [(0, Begin)]\<rparr>" by (rule exec_reach.Start) (simp add: p del: One_nat_def)
  from go_fork [OF this, of 1 "Spawn 2 # ?rest" ?b]
  have "exec_reach ?P \<lparr>code = [0 \<mapsto> Spawn 2 # ?rest, 1 \<mapsto> ?b], log = take 2 clean_log\<rparr>" by (simp add: p st del: One_nat_def)
  from go_fork [OF this, of 2 "?rest" ?b]
  have "exec_reach ?P \<lparr>code = [0 \<mapsto> ?rest, 1 \<mapsto> ?b, 2 \<mapsto> ?b], log = take 3 clean_log\<rparr>" by (simp add: p st del: One_nat_def)
  from go_on [OF this, of 1 "Lock 64 True" "[?r, ?w, Unlock 64]"]
  have "exec_reach ?P \<lparr>code = [0 \<mapsto> ?rest, 1 \<mapsto> [?r, ?w, Unlock 64], 2 \<mapsto> ?b], log = take 4 clean_log\<rparr>" by (simp add: st del: One_nat_def)
  from go_on [OF this, of 1 ?r "[?w, Unlock 64]"]
  have "exec_reach ?P \<lparr>code = [0 \<mapsto> ?rest, 1 \<mapsto> [?w, Unlock 64], 2 \<mapsto> ?b], log = take 5 clean_log\<rparr>" by (simp add: st del: One_nat_def)
  from go_on [OF this, of 1 ?w "[Unlock 64]"]
  have "exec_reach ?P \<lparr>code = [0 \<mapsto> ?rest, 1 \<mapsto> [Unlock 64], 2 \<mapsto> ?b], log = take 6 clean_log\<rparr>" by (simp add: st del: One_nat_def)
  from go_on [OF this, of 1 "Unlock 64" "[]"]
  have "exec_reach ?P \<lparr>code = [0 \<mapsto> ?rest, 1 \<mapsto> [], 2 \<mapsto> ?b], log = take 7 clean_log\<rparr>" by (simp add: st del: One_nat_def)
  from go_on [OF this, of 2 "Lock 64 True" "[?r, ?w, Unlock 64]"]
  have "exec_reach ?P \<lparr>code = [0 \<mapsto> ?rest, 1 \<mapsto> [], 2 \<mapsto> [?r, ?w, Unlock 64]], log = take 8 clean_log\<rparr>" by (simp add: st del: One_nat_def)
  from go_on [OF this, of 2 ?r "[?w, Unlock 64]"]
  have "exec_reach ?P \<lparr>code = [0 \<mapsto> ?rest, 1 \<mapsto> [], 2 \<mapsto> [?w, Unlock 64]], log = clean_log\<rparr>" by (simp add: st del: One_nat_def)
  then show ?thesis by (intro exI conjI) auto
qed

section \<open>What race mode says of programs\<close>

text \<open>C25. No false alarm: when every word a program touches is guarded by a lock (exclusively held to write it), handed over once
  through an atomic flag, or touched by a single thread, then no interleaving of its threads leads to a report.\<close>

theorem guarded_program_quiet:
  assumes "\<forall>x. guarded_word P x" and "exec_reach P s" and "tables_clean tabs" and "length (log s) < 18446744073709551615"
  shows "quiet route tabs s"
  by (rule guarded_quiet [OF _ assms(2-4)]) (rule assms(1) [rule_format])

theorem guarded_program_quiet_witness: "\<exists>s. log s = clean_log \<and> quiet (\<lambda>w. 0) demo_tables s"
proof -
  obtain s where s: "exec_reach (race_clean 4096 64 8192 8200 1) s" "log s = clean_log" using clean_run by blast
  have "\<forall>x. guarded_word (race_clean 4096 64 8192 8200 1) x"
    by (intro allI race_clean_guarded) simp_all
  from guarded_program_quiet [OF this s(1) demo_tables_ok(2)] s(2) show ?thesis by (auto simp: clean_log_def)
qed

text \<open>No race escapes: two threads whose last access to a word is a write and between which no lock, flag, creation or
  join orders anything are reported in every execution in which both run to their end, whatever the interleaving, as long as
  the table had room for the word when it was first touched.\<close>

theorem unordered_writers_reported:
  assumes "exec_reach P s" and "code s a = Some []" and "code s b = Some []"
    and "a \<noteq> b" and "a \<noteq> 0" and "b \<noteq> 0"
    and "\<And>t as. as \<in> P t \<Longrightarrow> unsynced a b M x t as \<and> unsynced b a N x t as"
    and "\<And>as. as \<in> P a \<union> P b \<Longrightarrow> ends_in_write x as"
    and "\<And>as. as \<in> P 0 \<Longrightarrow> spawns as < RZ_RACE_MAX_THREADS"
    and "length (log s) < 18446744073709551615" and "tables_clean tabs"
    and "\<And>i. i < length (trace_of s) \<Longrightarrow> accessed_word (trace_of s ! i) = Some x \<Longrightarrow>
      (\<forall>n < i. accessed_word (trace_of s ! n) \<noteq> Some x) \<Longrightarrow> has_room route x (run route tabs (take i (trace_of s)))"
  shows "\<exists>j < length (trace_of s). event_report route (run route tabs (take j (trace_of s))) (trace_of s ! j) \<noteq> None"
  by (rule writers_reported [OF assms])

lemma racy_room:
  assumes l: "log s = racy_log" and i: "i < length (trace_of s)" "accessed_word (trace_of s ! i) = Some 512"
    and first: "\<forall>n < i. accessed_word (trace_of s ! n) \<noteq> Some 512"
  shows "has_room (\<lambda>w. 0) 512 (run (\<lambda>w. 0) demo_tables (take i (trace_of s)))"
proof -
  have t: "trace_of s = [Init 0, Create 0 1, Create 0 2] @ map event_of (drop 3 racy_log)"
    by (simp add: trace_of_def l racy_log_def)
  have "accessed_word (trace_of s ! 3) = Some 512" by (simp add: t racy_log_def)
  then have "\<not> 3 < i" using first by blast
  moreover have "3 \<le> i"
  proof (rule ccontr)
    assume "\<not> 3 \<le> i"
    then have "i = 0 \<or> i = 1 \<or> i = 2" by auto
    then show False using i(2) by (auto simp: t)
  qed
  ultimately have "take i (trace_of s) = [Init 0, Create 0 1, Create 0 2]" by (simp add: t)
  moreover have "shards (run (\<lambda>w. 0) demo_tables [Init 0, Create 0 1, Create 0 2]) = demo_tables"
    by (simp add: run_def init_cfg_def engine_defs split_beta)
  ultimately show ?thesis using demo_room by (simp add: has_room_def)
qed

theorem unordered_writers_reported_witness:
  "\<exists>s. log s = racy_log \<and> (\<exists>j < length (trace_of s).
     event_report (\<lambda>w. 0) (run (\<lambda>w. 0) demo_tables (take j (trace_of s))) (trace_of s ! j) \<noteq> None)"
proof -
  obtain s where s: "exec_reach (race_data_race 4096 8192 8200 1) s" "log s = racy_log" "code s 1 = Some []" "code s 2 = Some []"
    using racy_run by blast
  have "\<exists>j < length (trace_of s). event_report (\<lambda>w. 0) (run (\<lambda>w. 0) demo_tables (take j (trace_of s))) (trace_of s ! j) \<noteq> None"
  proof (rule unordered_writers_reported [OF s(1,3,4)])
    show "unsynced 1 2 {} 512 t as \<and> unsynced 2 1 {} 512 t as" if "as \<in> race_data_race 4096 8192 8200 1 t" for t as
      using race_data_race_unsynced [OF _ _ _ that, of 1 2] race_data_race_unsynced [OF _ _ _ that, of 2 1] by simp
    show "ends_in_write 512 as" if "as \<in> race_data_race 4096 8192 8200 1 1 \<union> race_data_race 4096 8192 8200 1 2" for as
      using racy_ends(1) [of as 4096 8192 8200 0] that by simp
    show "spawns as < RZ_RACE_MAX_THREADS" if "as \<in> race_data_race 4096 8192 8200 1 0" for as
      using that by (rule racy_spawns)
  qed (use s(2) racy_room [OF s(2)] demo_tables_ok(2) in \<open>simp_all add: racy_log_def\<close>)
  with s(2) show ?thesis by blast
qed

lemma clean_guarded:
  assumes "P \<in> {race_clean v m a b n, race_trylock_clean v m a b n, race_rwlock_clean v m a b c n,
      race_condvar_clean v w m c a b n, race_atomic_clean v m a b, race_atomic_counter_clean v a b n}"
    and e: "{drop_bit 3 a, drop_bit 3 b, drop_bit 3 c} \<inter> {drop_bit 3 v, drop_bit 3 w} = {}"
    and "drop_bit 3 c \<noteq> drop_bit 3 a" and "drop_bit 3 c \<noteq> drop_bit 3 b"
  shows "guarded_word P x"
proof -
  have d: "drop_bit 3 a \<noteq> drop_bit 3 v" "drop_bit 3 b \<noteq> drop_bit 3 v" "drop_bit 3 c \<noteq> drop_bit 3 v" using e by auto
  show ?thesis
    using assms(1) race_clean_guarded [OF d(1,2)] race_trylock_guarded [OF d(1,2)] race_rwlock_guarded [OF d]
      race_condvar_guarded [OF e assms(3,4)] race_atomic_guarded [OF d(1,2)] race_atomic_counter_guarded
    by blast
qed

text \<open>The programs that the end-to-end test calls clean are never reported, in any interleaving and for any number of rounds:
  mutex, trylock, reader-writer lock, condition variables, a release-acquire flag and an atomic counter.\<close>

theorem clean_examples_quiet:
  assumes "P \<in> {race_clean v m a b n, race_trylock_clean v m a b n, race_rwlock_clean v m a b c n,
      race_condvar_clean v w m c a b n, race_atomic_clean v m a b, race_atomic_counter_clean v a b n}"
    and "{drop_bit 3 a, drop_bit 3 b, drop_bit 3 c} \<inter> {drop_bit 3 v, drop_bit 3 w} = {}"
    and "drop_bit 3 c \<noteq> drop_bit 3 a" and "drop_bit 3 c \<noteq> drop_bit 3 b"
    and "exec_reach P s" and "tables_clean tabs" and "length (log s) < 18446744073709551615"
  shows "quiet route tabs s"
  by (rule guarded_quiet [OF clean_guarded [OF assms(1-4)] assms(5-7)])

theorem clean_examples_quiet_witness: "\<exists>s. log s = clean_log \<and> quiet (\<lambda>w. 0) (fresh_tables demo_env) s"
proof -
  obtain s where s: "exec_reach (race_clean 4096 64 8192 8200 1) s" "log s = clean_log" using clean_run by blast
  have "quiet (\<lambda>w. 0) (fresh_tables demo_env) s"
    by (rule clean_examples_quiet [where v = 4096 and m = 64 and a = 8192 and b = 8200 and c = 8208 and w = 4104 and n = 1, OF _ _ _ _ s(1) fresh_tables_clean])
      (simp_all add: s(2) clean_log_def)
  with s(2) show ?thesis by blast
qed

text \<open>C27. The programs that the end-to-end test calls racy are reported on every run, as the comment in \<^verbatim>\<open>race_data_race.c\<close> says:
  two unsynchronized writers, and a writer under a lock with a rogue one beside it.\<close>

theorem racy_examples_reported:
  assumes "P \<in> {race_data_race v a b (Suc n), race_rwlock_unlocked v m a b (Suc n)}"
    and "drop_bit 3 a \<noteq> drop_bit 3 v" and "drop_bit 3 b \<noteq> drop_bit 3 v"
    and "exec_reach P s" and "code s 1 = Some []" and "code s 2 = Some []"
    and "length (log s) < 18446744073709551615" and "tables_clean tabs"
    and "\<And>i. i < length (trace_of s) \<Longrightarrow> accessed_word (trace_of s ! i) = Some (drop_bit 3 v) \<Longrightarrow>
      (\<forall>k < i. accessed_word (trace_of s ! k) \<noteq> Some (drop_bit 3 v)) \<Longrightarrow>
      has_room route (drop_bit 3 v) (run route tabs (take i (trace_of s)))"
  shows "\<exists>j < length (trace_of s). event_report route (run route tabs (take j (trace_of s))) (trace_of s ! j) \<noteq> None"
proof -
  have "\<exists>M N. \<forall>t. \<forall>as \<in> P t. unsynced 1 2 M (drop_bit 3 v) t as \<and> unsynced 2 1 N (drop_bit 3 v) t as"
    using assms(1) race_data_race_unsynced [OF assms(2,3), of 1 2 _ "Suc n"] race_data_race_unsynced [OF assms(2,3), of 2 1 _ "Suc n"]
      race_rwlock_unlocked_unsynced [OF assms(2,3), of _ m "Suc n"] by blast
  then obtain M N where u: "\<And>t as. as \<in> P t \<Longrightarrow> unsynced 1 2 M (drop_bit 3 v) t as \<and> unsynced 2 1 N (drop_bit 3 v) t as"
    by blast
  have e: "ends_in_write (drop_bit 3 v) as" if "as \<in> P 1 \<union> P 2" for as
    using that assms(1) racy_ends by blast
  have f: "spawns as < RZ_RACE_MAX_THREADS" if "as \<in> P 0" for as
    using that assms(1) racy_spawns by blast
  show ?thesis by (rule writers_reported [OF assms(4-6) _ _ _ u e f assms(7-9)]) simp_all
qed

theorem racy_examples_reported_witness:
  "\<exists>s j. log s = racy_log \<and> event_report (\<lambda>w. 0) (run (\<lambda>w. 0) demo_tables (take j (trace_of s))) (trace_of s ! j) \<noteq> None"
proof -
  obtain s where s: "exec_reach (race_data_race 4096 8192 8200 1) s" "log s = racy_log" "code s 1 = Some []" "code s 2 = Some []"
    using racy_run by blast
  have "\<exists>j < length (trace_of s). event_report (\<lambda>w. 0) (run (\<lambda>w. 0) demo_tables (take j (trace_of s))) (trace_of s ! j) \<noteq> None"
    by (rule racy_examples_reported [where v = 4096 and m = 64 and a = 8192 and b = 8200 and n = 0, OF _ _ _ s(1,3,4)])
      (use racy_room [OF s(2)] demo_tables_ok(2) in \<open>simp_all add: s(2) racy_log_def\<close>)
  with s(2) show ?thesis by blast
qed

end
