(* ===== verification/Race_Bench.thy ===== *)
theory Race_Bench
  imports Race_Examples
begin

text \<open>
  The race-mode benchmarks under \<^verbatim>\<open>bench/race\<close>: a counter of rounds that is written once, before any thread exists, and
  then only read, and a slot for each thread. The first is a discipline of its own, frozen words; the second needs
  the addresses of the slots. No benchmark is ever reported, in any interleaving.
\<close>

section \<open>Frozen words\<close>

text \<open>The first thread may write the word while no other thread is around; apart from that it is only read.\<close>

definition frozen_next :: "nat \<Rightarrow> nat set \<Rightarrow> entry \<Rightarrow> nat set" where
  "frozen_next t L e = live_step L e"

fun frozen_ok :: "u64 \<Rightarrow> nat \<Rightarrow> nat set \<Rightarrow> act \<Rightarrow> bool" where
  "frozen_ok x t L (Touch ad w loc line) \<longleftrightarrow> drop_bit 3 ad = x \<longrightarrow> \<not> w \<or> t = 0 \<and> L = {}"
| "frozen_ok x t L a \<longleftrightarrow> True"

definition freezes :: "u64 \<Rightarrow> nat \<Rightarrow> act list \<Rightarrow> bool" where
  "freezes x t as \<longleftrightarrow> obeys frozen_next (frozen_ok x) t {} as"

lemma frozen_other: "t \<noteq> 0 \<Longrightarrow> obeys frozen_next (frozen_ok x) t L as \<Longrightarrow> obeys frozen_next (frozen_ok x) t L' as"
proof (induction as arbitrary: L L')
  case (Cons a as)
  have "frozen_ok x t L' a" using Cons.prems by (cases a) auto
  then show ?case using Cons.IH [OF Cons.prems(1)] Cons.prems(2) by auto
qed simp

interpretation fz: discipline frozen_next "frozen_ok x" "{}" for x
proof
  fix h t :: nat and L :: "nat set" and as a
  assume ht: "h \<noteq> t" and o: "obeys frozen_next (frozen_ok x) t L as"
  show "obeys frozen_next (frozen_ok x) t (frozen_next t L (h, a)) as"
  proof (cases "t = 0")
    case True
    then have "live_step L (h, a) = L" using ht by (cases a) simp_all
    then show ?thesis using o by (simp add: frozen_next_def)
  next
    case False
    then show ?thesis using o by (rule frozen_other)
  qed
qed

lemma frozen_state: "foldl (frozen_next t) {} es = live_threads es"
  by (simp add: frozen_next_def [abs_def] live_threads_def)

lemma frozen_silent:
  assumes d: "\<And>t as. as \<in> P t \<Longrightarrow> freezes x t as" and r: "exec_reach P s" and cl: "tables_clean tabs"
    and n: "length (log s) < 18446744073709551615"
  shows "silent_on route tabs x s"
proof (rule ordered_silent [OF matchedD(1) [OF reach_matched [OF r]] n cl])
  have o: "orderly (log s)" by (rule matchedD(1) [OF reach_matched [OF r]])
  have "fz.kept x (log s)"
    using fz.reach_kept [OF _ _ _ r, of x] d by (simp add: freezes_def frozen_next_def)
  then have k: "frozen_ok x t (live_threads (take j (log s))) a" if "j < length (log s)" "log s ! j = (t, a)" for j t a
    using that by (auto simp: fz.kept_def frozen_state dest!: spec [of _ j])
  show "hb (trace_of s) i j"
    if ij: "i < j" "j < length (log s)" and i: "log s ! i = (a, Touch ad' w' loc' line')" and j: "log s ! j = (b, Touch ad w loc line)"
      and x: "drop_bit 3 ad = x" "drop_bit 3 ad' = x" and ab: "a \<noteq> b" and w: "w \<or> w'"
    for i j a b ad ad' w w' loc loc' line line'
  proof (cases w)
    case True
    then have "b = 0" "live_threads (take j (log s)) = {}" using k [OF ij(2) j] x(1) by simp_all
    then show ?thesis using alone_after [OF o ij] i j ab by (simp add: trace_of_def)
  next
    case False
    then have "a = 0" "live_threads (take i (log s)) = {}" using k [OF _ i] w x(2) ij by simp_all
    then show ?thesis using alone_before [OF o ij] i j ab by (simp add: trace_of_def)
  qed
qed

lemma guarded_or_frozen_quiet:
  assumes "\<And>x. guarded_word P x \<or> (\<forall>t. \<forall>as \<in> P t. freezes x t as)" and r: "exec_reach P s" and cl: "tables_clean tabs"
    and n: "length (log s) < 18446744073709551615"
  shows "quiet route tabs s"
proof (rule silent_quiet)
  fix x
  show "silent_on route tabs x s"
    using assms(1) [of x] unfolding guarded_word_def
    by (elim disjE exE) (rule disciplined_silent [OF _ r cl n] published_silent [OF _ r cl n] private_silent [OF _ r cl n]
      frozen_silent [OF _ r cl n]; blast)+
qed

section \<open>The benchmarks\<close>

text \<open>Four threads; the slots are a cache line apart.\<close>

definition slot_addr :: "u64 \<Rightarrow> nat \<Rightarrow> u64" where
  "slot_addr arr k = arr + of_nat (64 * k)"

text \<open>
  The first thread stores the number of rounds, creates the four threads and joins them, reading back each handle (\<open>ts\<close> is the
  array) and each result (\<open>r\<close>). \<open>l\<close> is the line of the store.
\<close>

definition bench_main :: "cstr \<Rightarrow> int \<Rightarrow> u64 \<Rightarrow> u64 \<Rightarrow> u64 \<Rightarrow> act list" where
  "bench_main loc l iters ts r =
     Touch iters True loc l # map (\<lambda>k. Spawn (Suc k)) [0..<4] @
     concat (map (\<lambda>k. [Touch (ts + of_nat (8 * k)) False loc (l + 7), Wait_for (Suc k), Touch r False loc (l + 8)]) [0..<4])"

definition bench_program :: "act list \<Rightarrow> (nat \<Rightarrow> act list) \<Rightarrow> program" where
  "bench_program as W = (\<lambda>t. if t = 0 then {as} else if t \<le> 4 then {W (t - 1)} else {})"

definition contended_worker :: "u64 \<Rightarrow> u64 \<Rightarrow> nat \<Rightarrow> nat \<Rightarrow> act list" where
  "contended_worker iters arr n k =
     concat (replicate n [Touch iters False (Some ''race_contended.c'') 25, Touch (slot_addr arr k) True (Some ''race_contended.c'') 26,
       Touch (slot_addr arr k) False (Some ''race_contended.c'') 27]) @ [Touch iters False (Some ''race_contended.c'') 25]"

definition race_contended :: "u64 \<Rightarrow> u64 \<Rightarrow> u64 \<Rightarrow> u64 \<Rightarrow> nat \<Rightarrow> program" where
  "race_contended iters arr ts r n =
     bench_program (bench_main (Some ''race_contended.c'') 33 iters ts r) (contended_worker iters arr n)"

definition atomic_contended_worker :: "u64 \<Rightarrow> u64 \<Rightarrow> nat \<Rightarrow> nat \<Rightarrow> act list" where
  "atomic_contended_worker iters arr n k =
     concat (replicate n [Touch iters False (Some ''race_atomic_contended.c'') 26, Publish (slot_addr arr k), Poll (slot_addr arr k)])
     @ [Touch iters False (Some ''race_atomic_contended.c'') 26]"

definition race_atomic_contended :: "u64 \<Rightarrow> u64 \<Rightarrow> u64 \<Rightarrow> u64 \<Rightarrow> nat \<Rightarrow> program" where
  "race_atomic_contended iters arr ts r n =
     bench_program (bench_main (Some ''race_atomic_contended.c'') 32 iters ts r) (atomic_contended_worker iters arr n)"

definition race_serial :: "u64 \<Rightarrow> nat \<Rightarrow> program" where
  "race_serial sink n = (\<lambda>t. if t = 0
     then {concat (replicate n [Touch sink True (Some ''race_serial.c'') 15, Touch sink False (Some ''race_serial.c'') 16])} else {})"

section \<open>Their words\<close>

lemma slots_apart:
  assumes "unat arr + 256 < 18446744073709551616" and "k < 4" and "j < 4" and "drop_bit 3 (slot_addr arr k) = drop_bit 3 (slot_addr arr j)"
  shows "k = j"
proof -
  have u: "unat (slot_addr arr i) = unat arr + 64 * i" if "i < 4" for i
  proof -
    have "unat (of_nat (64 * i) :: u64) = 64 * i" by (rule unat_nat64) (use that in simp)
    then show ?thesis using that assms(1) unfolding slot_addr_def by (subst unat_plus64) simp_all
  qed
  have d: "unat (drop_bit 3 (slot_addr arr i)) = unat arr div 8 + 8 * i" if "i < 4" for i
    unfolding unat_drop3 u [OF that] using div_mult_self2 [of 8 "unat arr" "8 * i"] by simp
  show ?thesis using d [OF assms(2)] d [OF assms(3)] unfolding assms(4) by simp
qed

lemma only_by_mono: "(\<And>ad w loc line. Touch ad w loc line \<in> set as \<Longrightarrow> drop_bit 3 ad = x \<Longrightarrow> t = p) \<Longrightarrow> only_by p x t as"
  by (induction as) (auto split: act.split)

lemma freezes_reads:
  "(\<And>ad loc line. Touch ad True loc line \<in> set as \<Longrightarrow> drop_bit 3 ad \<noteq> x) \<Longrightarrow> freezes x t as"
proof -
  have "(\<And>ad loc line. Touch ad True loc line \<in> set as \<Longrightarrow> drop_bit 3 ad \<noteq> x) \<Longrightarrow> obeys frozen_next (frozen_ok x) t L as" for L
  proof (induction as arbitrary: L)
    case (Cons a as)
    have "frozen_ok x t L a" using Cons.prems by (cases a) auto
    moreover have "obeys frozen_next (frozen_ok x) t (frozen_next t L (t, a)) as" by (rule Cons.IH) (use Cons.prems in auto)
    ultimately show ?case by simp
  qed simp
  then show "(\<And>ad loc line. Touch ad True loc line \<in> set as \<Longrightarrow> drop_bit 3 ad \<noteq> x) \<Longrightarrow> freezes x t as"
    unfolding freezes_def by blast
qed

lemma bench_main_freezes: "freezes x 0 (bench_main loc l iters ts r)"
proof -
  let ?as = "tl (bench_main loc l iters ts r)"
  have "freezes x 0 ?as" by (rule freezes_reads) (auto simp: bench_main_def)
  then show ?thesis by (simp add: freezes_def bench_main_def frozen_next_def)
qed

lemma bench_guarded:
  assumes W: "\<And>k ad w loc line. Touch ad w loc line \<in> set (W k) \<Longrightarrow> ad = slot_addr arr k \<or> ad = iters \<and> \<not> w"
    and u: "unat arr + 256 < 18446744073709551616"
    and s: "\<And>k. k < 4 \<Longrightarrow> drop_bit 3 (slot_addr arr k) \<noteq> drop_bit 3 iters \<and> drop_bit 3 (slot_addr arr k) \<noteq> drop_bit 3 r"
      "\<And>k j. k < 4 \<Longrightarrow> j < 4 \<Longrightarrow> drop_bit 3 (slot_addr arr k) \<noteq> drop_bit 3 (ts + of_nat (8 * j))"
  shows "guarded_word (bench_program (bench_main loc l iters ts r) W) x
    \<or> (\<forall>t. \<forall>as \<in> bench_program (bench_main loc l iters ts r) W t. freezes x t as)"
proof (cases "\<exists>k < 4. x = drop_bit 3 (slot_addr arr k)")
  case True
  then obtain k where k: "k < 4" "x = drop_bit 3 (slot_addr arr k)" by blast
  have "only_by (Suc k) x t as" if as: "as \<in> bench_program (bench_main loc l iters ts r) W t" for t as
  proof (rule only_by_mono)
    fix ad w f line assume ad: "Touch ad w f line \<in> set as" "drop_bit 3 ad = x"
    show "t = Suc k"
    proof (cases "t = 0")
      case True
      then have "as = bench_main loc l iters ts r" using as by (simp add: bench_program_def)
      then have "ad = iters \<or> ad = r \<or> (\<exists>j < 4. ad = ts + of_nat (8 * j))" using ad(1) by (auto simp: bench_main_def)
      then show ?thesis using s(1) [OF k(1)] s(2) [OF k(1)] ad(2) k(2) by metis
    next
      case False
      then have t: "as = W (t - 1)" "t - 1 < 4" using as by (auto simp: bench_program_def split: if_splits)
      then have "ad = slot_addr arr (t - 1)" using W [of ad w f line "t - 1"] ad s(1) [OF k(1)] k(2) by auto
      then show ?thesis using slots_apart [OF u t(2) k(1)] ad(2) k(2) False by simp
    qed
  qed
  then show ?thesis unfolding guarded_word_def by blast
next
  case False
  have "freezes x t as" if as: "as \<in> bench_program (bench_main loc l iters ts r) W t" for t as
  proof (cases "t = 0")
    case True
    then show ?thesis using as bench_main_freezes by (simp add: bench_program_def)
  next
    case t: False
    then have "as = W (t - 1)" "t - 1 < 4" using as by (auto simp: bench_program_def split: if_splits)
    then show ?thesis using W False by (intro freezes_reads) blast
  qed
  then show ?thesis by blast
qed

lemma in_rounds: "e \<in> set (concat (replicate n body)) \<Longrightarrow> e \<in> set body"
  by (auto simp: set_concat)

section \<open>The property\<close>

text \<open>C26. The programs that the end-to-end test calls clean and the benchmarks of race mode are never reported, in any
  interleaving and for any number of rounds: mutex, trylock, reader-writer lock, condition variables, a release-acquire flag
  and an atomic counter; four threads that each use a slot of their own, plainly or atomically, next to a
  counter that was written before they existed; and a single thread.\<close>

theorem clean_programs_quiet:
  assumes "P \<in> {race_clean v m a b n, race_trylock_clean v m a b n, race_rwlock_clean v m a b c n,
      race_condvar_clean v w m c a b n, race_atomic_clean v m a b, race_atomic_counter_clean v a b n,
      race_contended iters arr ts r n, race_atomic_contended iters arr ts r n, race_serial v n}"
    and "{drop_bit 3 a, drop_bit 3 b, drop_bit 3 c} \<inter> {drop_bit 3 v, drop_bit 3 w} = {}"
    and "drop_bit 3 c \<noteq> drop_bit 3 a" and "drop_bit 3 c \<noteq> drop_bit 3 b"
    and "unat arr + 256 < 18446744073709551616"
    and "(\<lambda>k. drop_bit 3 (slot_addr arr k)) ` {..<4} \<inter>
      ({drop_bit 3 iters, drop_bit 3 r} \<union> (\<lambda>k. drop_bit 3 (ts + of_nat (8 * k))) ` {..<4}) = {}"
    and "exec_reach P s" and "tables_clean tabs" and "length (log s) < 18446744073709551615"
  shows "quiet route tabs s"
proof (rule guarded_or_frozen_quiet [OF _ assms(7-9)])
  fix x
  have e: "guarded_word P x" if "P \<in> {race_clean v m a b n, race_trylock_clean v m a b n, race_rwlock_clean v m a b c n,
      race_condvar_clean v w m c a b n, race_atomic_clean v m a b, race_atomic_counter_clean v a b n}"
    by (rule clean_guarded [OF that assms(2-4)])
  have sep: "drop_bit 3 (slot_addr arr k) \<noteq> drop_bit 3 iters \<and> drop_bit 3 (slot_addr arr k) \<noteq> drop_bit 3 r"
    "j < 4 \<Longrightarrow> drop_bit 3 (slot_addr arr k) \<noteq> drop_bit 3 (ts + of_nat (8 * j))" if "k < 4" for k j
    using assms(6) that by blast+
  have c: "ad = slot_addr arr k \<or> ad = iters \<and> \<not> w'"
    if "Touch ad w' loc line \<in> set (contended_worker iters arr n k) \<union> set (atomic_contended_worker iters arr n k)" for ad w' loc line k
    using that by (auto simp: contended_worker_def atomic_contended_worker_def simp del: set_concat dest!: in_rounds)
  have "guarded_word P x \<or> (\<forall>t. \<forall>as \<in> P t. freezes x t as)" if "P = race_contended iters arr ts r n \<or> P = race_atomic_contended iters arr ts r n"
    using that bench_guarded [OF _ assms(5) sep, of "contended_worker iters arr n"] bench_guarded [OF _ assms(5) sep, of "atomic_contended_worker iters arr n"] c
    unfolding race_contended_def race_atomic_contended_def by blast
  moreover have "guarded_word P x" if "P = race_serial v n"
  proof -
    have "only_by 0 x t as" if "as \<in> P t" for t as
      using that \<open>P = race_serial v n\<close> by (auto simp: race_serial_def only_by_rounds split: if_splits)
    then show ?thesis unfolding guarded_word_def by blast
  qed
  ultimately show "guarded_word P x \<or> (\<forall>t. \<forall>as \<in> P t. freezes x t as)" using e assms(1) by blast
qed

theorem clean_programs_quiet_witness: "\<exists>s. log s = clean_log \<and> quiet (\<lambda>w. 0) (fresh_tables demo_env) s"
proof -
  obtain s where s: "exec_reach (race_clean 4096 64 8192 8200 1) s" "log s = clean_log" using clean_run by blast
  have w: "(\<lambda>k. drop_bit 3 (slot_addr 16384 k)) ` {..<4} \<inter>
      ({drop_bit 3 20480, drop_bit 3 24576} \<union> (\<lambda>k. drop_bit 3 (28672 + of_nat (8 * k) :: u64)) ` {..<4}) = {}" by code_simp
  have "quiet (\<lambda>w. 0) (fresh_tables demo_env) s"
    by (rule clean_programs_quiet [where v = 4096 and m = 64 and a = 8192 and b = 8200 and c = 8208 and w = 4104 and n = 1
      and arr = 16384 and iters = 20480 and r = 24576 and ts = 28672, OF _ _ _ _ _ w s(1) fresh_tables_clean])
      (simp_all add: s(2) clean_log_def)
  with s(2) show ?thesis by blast
qed

end
