(* ===== verification/Pass_IR.thy ===== *)
theory Pass_IR
  imports RZ_Prelude
begin

text \<open>
  The part of the compiler's intermediate code that the instrumentation pass
  (\<^verbatim>\<open>src/RedzonePass.cpp\<close>) looks at and emits: values with their types, instructions with their
  source location, basic blocks, functions, globals and modules. What the compiler computes about a
  type or a pointer is a parameter of the pass (\<open>layout\<close>); everything else an instruction may be is
  \<open>I_Other\<close>.
\<close>

section \<open>Types and values\<close>

datatype ir_ty = T_void | T_int nat | T_ptr | T_other nat

abbreviation "T_i8 \<equiv> T_int 8"
abbreviation "T_i32 \<equiv> T_int 32"
abbreviation "T_i64 \<equiv> T_int 64"

text \<open>An SSA name: of the source program, or the enlarged stack object the pass makes for it.\<close>

datatype ssa = Id nat | Frame nat

datatype ir_val =
    V_Reg ssa ir_ty
  | V_Int ir_ty int
  | V_Null
  | V_Str string
  | V_Sym string
  | V_Gep ir_val u64
  | V_Cast ir_ty ir_val

fun val_ty :: "ir_val \<Rightarrow> ir_ty" where
  "val_ty (V_Reg x t) = t"
| "val_ty (V_Int t n) = t"
| "val_ty V_Null = T_ptr"
| "val_ty (V_Str s) = T_ptr"
| "val_ty (V_Sym s) = T_ptr"
| "val_ty (V_Gep v n) = T_ptr"
| "val_ty (V_Cast t v) = t"

section \<open>Instructions\<close>

datatype callee = Direct string | Indirect ir_val

text \<open>
  \<open>I_Check p n w f l\<close> is what the pass emits before an access: the inlined test of \<open>p\<close> for \<open>n\<close>
  bytes, which calls \<^verbatim>\<open>__redzone_check\<close> when it hits.
\<close>

datatype ir_op =
    I_Load ir_val ir_ty bool
  | I_Store ir_val ir_val bool
  | I_Rmw ir_val
  | I_Cmpxchg ir_val
  | I_Memcpy ir_val ir_val ir_val
  | I_Memmove ir_val ir_val ir_val
  | I_Memset ir_val ir_val ir_val
  | I_Call callee "ir_val list" ir_ty
  | I_Invoke callee "ir_val list" ir_ty
  | I_Alloca bool "u64 option" u64
  | I_Gep ir_val u64
  | I_Ret
  | I_Check ir_val u64 bool ir_val ir_val
  | I_Other nat

record ir_insn =
  op :: ir_op
  res :: "ssa option"
  loc :: "(string \<times> int) option"

type_synonym ir_block = "ir_insn list"

record ir_fun =
  fname :: string
  is_declaration :: bool
  no_instrument :: bool
  body :: "ir_block list"

section \<open>Globals and modules\<close>

datatype linkage = Local_Linkage | External_Linkage | Other_Linkage

datatype gfield = Zone u64 | Data

text \<open>
  A global is the record of its fields; the pass replaces the single data field by the data between
  red zones. \<open>data_field\<close> is the field that uses of the symbol refer to, \<open>ginit\<close> the addresses its
  initializer mentions.
\<close>

record ir_global =
  gname :: string
  glinkage :: linkage
  gdeclaration :: bool
  gconstant :: bool
  gthread_local :: bool
  ginitializer :: bool
  gsection :: bool
  gcomdat :: bool
  gexternally_initialized :: bool
  gsized :: bool
  gtype :: ir_ty
  galign :: "u64 option"
  gfields :: "gfield list"
  data_field :: nat
  ginit :: "ir_val list"

record ir_module =
  source_file :: string
  mglobals :: "ir_global list"
  mfuns :: "ir_fun list"
  registered :: "(string \<times> u64 \<times> bool) list"

text \<open>
  What the compiler knows: the store and allocation size of a type, whether it is scalable, and the
  base and constant offset of a pointer.
\<close>

record layout =
  store_size :: "ir_ty \<Rightarrow> u64"
  alloc_size :: "ir_ty \<Rightarrow> u64"
  scalable :: "ir_ty \<Rightarrow> bool"
  base_of :: "ir_val \<Rightarrow> ir_val \<times> int"

section \<open>Declarations\<close>

text \<open>
  What \<^verbatim>\<open>getOrInsertFunction\<close> and \<^verbatim>\<open>getOrInsertGlobal\<close> add to a module: an external declaration at the end of the
  list, unless the module has the name already.
\<close>

definition extern_fun :: "string \<Rightarrow> ir_fun" where
  "extern_fun n = \<lparr>fname = n, is_declaration = True, no_instrument = False, body = []\<rparr>"

definition extern_global :: "string \<Rightarrow> ir_ty \<Rightarrow> ir_global" where
  "extern_global n t =
     \<lparr>gname = n, glinkage = External_Linkage, gdeclaration = True, gconstant = False, gthread_local = False, ginitializer = False,
      gsection = False, gcomdat = False, gexternally_initialized = False, gsized = True, gtype = t, galign = None,
      gfields = [Data], data_field = 0, ginit = []\<rparr>"

definition symbols :: "ir_module \<Rightarrow> string list" where
  "symbols M = map gname (mglobals M) @ map fname (mfuns M)"

definition get_or_insert_function :: "string \<Rightarrow> ir_module \<Rightarrow> ir_module" where
  "get_or_insert_function n M = (if n \<in> set (symbols M) then M else M\<lparr>mfuns := mfuns M @ [extern_fun n]\<rparr>)"

definition get_or_insert_global :: "string \<Rightarrow> ir_ty \<Rightarrow> ir_module \<Rightarrow> ir_module" where
  "get_or_insert_global n t M =
     (if n \<in> set (map gname (mglobals M)) then M else M\<lparr>mglobals := mglobals M @ [extern_global n t]\<rparr>)"

definition declare_all :: "string list \<Rightarrow> ir_module \<Rightarrow> ir_module" where
  "declare_all ns M = fold get_or_insert_function ns M"

text \<open>Several declarations: those of the new names, in order.\<close>

definition undeclared :: "ir_module \<Rightarrow> string list \<Rightarrow> string list" where
  "undeclared M ns = filter (\<lambda>n. n \<notin> set (symbols M)) ns"

lemma declare_all_simps [simp]:
  "declare_all [] M = M" "declare_all (n # ns) M = declare_all ns (get_or_insert_function n M)"
  by (simp_all add: declare_all_def)

lemma declare_all_distinct:
  "distinct ns \<Longrightarrow> declare_all ns M = M\<lparr>mfuns := mfuns M @ map extern_fun (undeclared M ns)\<rparr>"
proof (induction ns arbitrary: M)
  case (Cons n ns)
  show ?case
  proof (cases "n \<in> set (symbols M)")
    case False
    let ?M = "M\<lparr>mfuns := mfuns M @ [extern_fun n]\<rparr>"
    have "undeclared ?M ns = undeclared M ns"
      unfolding undeclared_def by (rule filter_cong) (use Cons.prems in \<open>auto simp: symbols_def extern_fun_def\<close>)
    then show ?thesis using Cons.IH [of ?M] Cons.prems False by (simp add: get_or_insert_function_def undeclared_def)
  qed (use Cons in \<open>simp add: get_or_insert_function_def undeclared_def\<close>)
qed (simp add: undeclared_def)

lemma declare_all_adds: "\<exists>ds. set ds \<subseteq> set ns \<and> declare_all ns M = M\<lparr>mfuns := mfuns M @ map extern_fun ds\<rparr>"
proof (induction ns arbitrary: M)
  case Nil
  show ?case by (rule exI [of _ "[]"]) simp
next
  case (Cons n ns)
  obtain ds where ds: "set ds \<subseteq> set ns" "declare_all ns (get_or_insert_function n M)
      = (get_or_insert_function n M)\<lparr>mfuns := mfuns (get_or_insert_function n M) @ map extern_fun ds\<rparr>"
    using Cons.IH by blast
  show ?case
  proof (cases "n \<in> set (symbols M)")
    case True
    then show ?thesis using ds by (intro exI [of _ ds]) (auto simp: get_or_insert_function_def)
  next
    case False
    then show ?thesis using ds by (intro exI [of _ "n # ds"]) (auto simp: get_or_insert_function_def)
  qed
qed

lemma declare_all_fields [simp]:
  "mglobals (declare_all ns M) = mglobals M" "registered (declare_all ns M) = registered M"
  "source_file (declare_all ns M) = source_file M"
  using declare_all_adds [of ns M] by auto

lemma declare_all_mfuns: "\<exists>ds. mfuns (declare_all ns M) = mfuns M @ map extern_fun ds"
  using declare_all_adds [of ns M] by auto

lemma declare_all_funs: "G \<in> set (mfuns (declare_all ns M)) \<Longrightarrow> G \<in> set (mfuns M) \<or> (\<exists>n. G = extern_fun n)"
  using declare_all_adds [of ns M] by auto

lemma extern_fun_simps [simp]:
  "is_declaration (extern_fun n)" "body (extern_fun n) = []" "fname (extern_fun n) = n"
  by (simp_all add: extern_fun_def)

section \<open>Building code\<close>

definition starts_with :: "string \<Rightarrow> string \<Rightarrow> bool" where
  "starts_with p s \<longleftrightarrow> take (length p) s = p"

text \<open>The debug location of an instruction as the two arguments a report wants.\<close>

definition get_loc :: "ir_insn \<Rightarrow> ir_val \<times> ir_val" where
  "get_loc i =
     (case loc i of
        Some (f, l) \<Rightarrow> (V_Str f, V_Int T_i32 l)
      | None \<Rightarrow> (V_Null, V_Int T_i32 0))"

definition zext_or_trunc :: "ir_ty \<Rightarrow> ir_val \<Rightarrow> ir_val" where
  "zext_or_trunc t v = (if val_ty v = t then v else V_Cast t v)"

definition with_op :: "ir_insn \<Rightarrow> ir_op \<Rightarrow> ir_insn" where
  "with_op i x = i\<lparr>op := x\<rparr>"

text \<open>A new instruction without a result, at the place and with the location of another.\<close>

definition emitted :: "ir_insn \<Rightarrow> ir_op \<Rightarrow> ir_insn" where
  "emitted i x = \<lparr>op = x, res = None, loc = loc i\<rparr>"

text \<open>The counters of the pass, as the list of what was counted.\<close>

datatype stat =
    Checks | Mallocs | Frees | Stack_Vars | Globals | Skipped_Safe | Skipped_Redundant
  | Opted_Out | Memops | Alloc_Ptrs | Race_Accesses | Race_Syncs | Race_Atomics

type_synonym 'a emit = "'a \<times> stat list"

definition emit_all :: "('a \<Rightarrow> 'b list emit) \<Rightarrow> 'a list \<Rightarrow> 'b list emit" where
  "emit_all f xs = (concat (map (fst \<circ> f) xs), concat (map (snd \<circ> f) xs))"

definition emit_each :: "('a \<Rightarrow> 'b emit) \<Rightarrow> 'a list \<Rightarrow> 'b list emit" where
  "emit_each f xs = (map (fst \<circ> f) xs, concat (map (snd \<circ> f) xs))"

lemma emit_all_simps [simp]:
  "emit_all f [] = ([], [])"
  "fst (emit_all f (x # xs)) = fst (f x) @ fst (emit_all f xs)"
  "snd (emit_all f (x # xs)) = snd (f x) @ snd (emit_all f xs)"
  by (simp_all add: emit_all_def)

lemma emit_each_fst [simp]: "fst (emit_each f xs) = map (fst \<circ> f) xs"
  by (simp add: emit_each_def)

lemma emit_all_fst: "fst (emit_all f xs) = concat (map (fst \<circ> f) xs)"
  by (simp add: emit_all_def)

lemma get_loc_ty [simp]: "val_ty (fst (get_loc i)) = T_ptr" "val_ty (snd (get_loc i)) = T_i32"
  by (auto simp: get_loc_def split: option.split)

lemma zext_or_trunc_ty [simp]: "val_ty (zext_or_trunc t v) = t"
  by (simp add: zext_or_trunc_def)

end
