(* ===== verification/Pass_Safety.thy ===== *)
theory Pass_Safety
  imports Pass_IR
begin

text \<open>
  The memory-safety mode of the pass (\<^verbatim>\<open>RedzonePass::run\<close>): which globals are wrapped and how, which
  calls are redirected, which accesses need no check, and what is emitted for the others. Each stage
  is one definition over the instructions; \<open>run_safety\<close> composes them in the pass's order.
\<close>

section \<open>The ignore list\<close>

text \<open>
  One line of the file that \<^verbatim>\<open>REDZONE_IGNORELIST\<close> names: blanks stripped, comments and unknown prefixes
  skipped. The pattern match is \<^verbatim>\<open>fnmatch\<close>, a parameter.
\<close>

definition blank_char :: "char \<Rightarrow> bool" where
  "blank_char c \<longleftrightarrow> c = CHR '' '' \<or> c = CHR 0x09"

definition strip_line :: "string \<Rightarrow> string" where
  "strip_line line =
     rev (dropWhile (\<lambda>c. blank_char c \<or> c = CHR 0x0D) (rev (dropWhile blank_char line)))"

datatype ignore_rule = Fun_Rule string | Src_Rule string

definition ignore_line :: "string \<Rightarrow> ignore_rule option" where
  "ignore_line line =
     (case dropWhile blank_char line of
        [] \<Rightarrow> None
      | c # _ \<Rightarrow>
          if c = CHR ''#'' then None else
          let s = strip_line line in
          if starts_with ''fun:'' s \<and> length s > 4 then Some (Fun_Rule (drop 4 s))
          else if starts_with ''src:'' s \<and> length s > 4 then Some (Src_Rule (drop 4 s))
          else None)"

definition load_ignorelist :: "string list option \<Rightarrow> string list \<times> string list" where
  "load_ignorelist lines =
     (case lines of
        None \<Rightarrow> ([], [])
      | Some ls \<Rightarrow>
          (concat (map (\<lambda>l. case ignore_line l of Some (Fun_Rule p) \<Rightarrow> [p] | _ \<Rightarrow> []) ls),
           concat (map (\<lambda>l. case ignore_line l of Some (Src_Rule p) \<Rightarrow> [p] | _ \<Rightarrow> []) ls)))"

definition glob_match_any :: "(string \<Rightarrow> string \<Rightarrow> bool) \<Rightarrow> string list \<Rightarrow> string \<Rightarrow> bool" where
  "glob_match_any fnmatch pats s = list_ex (\<lambda>p. fnmatch p s) pats"

section \<open>The runtime's functions\<close>

definition kRedzone :: u64 where "kRedzone = 16"

text \<open>Name, result, fixed parameters and whether more arguments may follow.\<close>

definition runtime_sigs :: "(string \<times> ir_ty \<times> ir_ty list \<times> bool) list" where
  "runtime_sigs =
    [(''__redzone_check'', T_void, [T_ptr, T_i64, T_i32, T_ptr, T_i32], False),
     (''__redzone_malloc'', T_ptr, [T_i64, T_ptr, T_i32], False),
     (''__redzone_free'', T_void, [T_ptr], False),
     (''__redzone_stack_enter'', T_void, [T_ptr, T_i64], False),
     (''__redzone_stack_leave'', T_void, [T_ptr, T_i64], False),
     (''__redzone_calloc'', T_ptr, [T_i64, T_i64, T_ptr, T_i32], False),
     (''__redzone_realloc'', T_ptr, [T_ptr, T_i64, T_ptr, T_i32], False),
     (''__redzone_aligned_alloc'', T_ptr, [T_i64, T_i64, T_ptr, T_i32], False),
     (''__redzone_posix_memalign'', T_i32, [T_ptr, T_i64, T_i64, T_ptr, T_i32], False),
     (''__redzone_memcpy'', T_ptr, [T_ptr, T_ptr, T_i64, T_ptr, T_i32], False),
     (''__redzone_memmove'', T_ptr, [T_ptr, T_ptr, T_i64, T_ptr, T_i32], False),
     (''__redzone_memset'', T_ptr, [T_ptr, T_i32, T_i64, T_ptr, T_i32], False),
     (''__redzone_strcpy'', T_ptr, [T_ptr, T_ptr, T_ptr, T_i32], False),
     (''__redzone_strcat'', T_ptr, [T_ptr, T_ptr, T_ptr, T_i32], False),
     (''__redzone_strncpy'', T_ptr, [T_ptr, T_ptr, T_i64, T_ptr, T_i32], False),
     (''__redzone_strncat'', T_ptr, [T_ptr, T_ptr, T_i64, T_ptr, T_i32], False),
     (''__redzone_strlcpy'', T_i64, [T_ptr, T_ptr, T_i64, T_ptr, T_i32], False),
     (''__redzone_strlcat'', T_i64, [T_ptr, T_ptr, T_i64, T_ptr, T_i32], False),
     (''__redzone_snprintf'', T_i32, [T_ptr, T_i64, T_ptr, T_i32, T_ptr], True),
     (''__redzone_sprintf'', T_i32, [T_ptr, T_ptr, T_i32, T_ptr], True),
     (''__redzone_global_register'', T_void, [T_ptr, T_i64], False),
     (''__redzone_global_register_right'', T_void, [T_ptr, T_i64], False)]"

definition sig_result :: "string \<Rightarrow> ir_ty" where
  "sig_result n = (case map_of runtime_sigs n of Some (r, ps, va) \<Rightarrow> r | None \<Rightarrow> T_void)"

definition rz_call :: "string \<Rightarrow> ir_val list \<Rightarrow> ir_op" where
  "rz_call n args = I_Call (Direct n) args (sig_result n)"

section \<open>Globals\<close>

definition eligible_global :: "layout \<Rightarrow> ir_global \<Rightarrow> bool option" where
  "eligible_global L g =
     (if gdeclaration g \<or> gconstant g \<or> gthread_local g then None
      else if \<not> ginitializer g \<or> gsection g \<or> gcomdat g \<or> gexternally_initialized g then None
      else if starts_with ''llvm.'' (gname g) \<or> starts_with ''__redzone'' (gname g) then None
      else
        (case glinkage g of
           Other_Linkage \<Rightarrow> None
         | lk \<Rightarrow>
             if \<not> gsized g then None
             else if scalable L (gtype g) then None
             else if (case galign g of Some a \<Rightarrow> a > kRedzone | None \<Rightarrow> False) then None
             else Some (lk = External_Linkage)))"

definition wrap_global :: "layout \<Rightarrow> ir_global \<Rightarrow> bool \<Rightarrow> ir_global" where
  "wrap_global L g is_external =
     (let s = alloc_size L (gtype g);
          pad = (8 - s mod 8) mod 8;
          rrz = Zone (kRedzone + pad) in
      g\<lparr>gfields := (if is_external then [Data, rrz] else [Zone kRedzone, Data, rrz]),
        data_field := (if is_external then 0 else 1),
        gconstant := False,
        galign := Some (max kRedzone (case galign g of Some a \<Rightarrow> a | None \<Rightarrow> 1))\<rparr>)"

definition instrument_global :: "layout \<Rightarrow> ir_global \<Rightarrow> ir_global emit" where
  "instrument_global L g =
     (case eligible_global L g of
        Some ext \<Rightarrow> (wrap_global L g ext, [Globals])
      | None \<Rightarrow> (g, []))"

text \<open>The constructor's calls, in the order of the wrapped globals.\<close>

definition register_globals :: "layout \<Rightarrow> ir_global list \<Rightarrow> (string \<times> u64 \<times> bool) list" where
  "register_globals L gs =
     concat (map (\<lambda>g. case eligible_global L g of
        Some ext \<Rightarrow> [(gname g, alloc_size L (gtype g), ext)] | None \<Rightarrow> []) gs)"

definition register_call :: "string \<times> u64 \<times> bool \<Rightarrow> ir_op" where
  "register_call r =
     (case r of (g, sz, ext) \<Rightarrow>
        rz_call (if ext then ''__redzone_global_register_right'' else ''__redzone_global_register'')
          [V_Sym g, V_Int T_i64 (uint sz)])"

section \<open>Calls the pass knows\<close>

datatype call_class =
    C_malloc | C_calloc | C_realloc | C_free | C_aligned_alloc | C_posix_memalign
  | C_new | C_aligned_new | C_delete
  | C_memcpy | C_memmove | C_memset
  | C_strcpy | C_strcat | C_strncpy | C_strncat | C_strlcpy | C_strlcat
  | C_snprintf | C_snprintf_chk | C_sprintf | C_sprintf_chk

definition call_classes :: "(string \<times> call_class) list" where
  "call_classes =
    [(''malloc'', C_malloc),
     (''memcpy'', C_memcpy), (''__memcpy_chk'', C_memcpy),
     (''memmove'', C_memmove), (''__memmove_chk'', C_memmove),
     (''memset'', C_memset), (''__memset_chk'', C_memset),
     (''strcpy'', C_strcpy), (''__strcpy_chk'', C_strcpy),
     (''strcat'', C_strcat), (''__strcat_chk'', C_strcat),
     (''strncpy'', C_strncpy), (''__strncpy_chk'', C_strncpy),
     (''strncat'', C_strncat), (''__strncat_chk'', C_strncat),
     (''strlcpy'', C_strlcpy), (''__strlcpy_chk'', C_strlcpy),
     (''strlcat'', C_strlcat), (''__strlcat_chk'', C_strlcat),
     (''snprintf'', C_snprintf), (''__snprintf_chk'', C_snprintf_chk),
     (''sprintf'', C_sprintf), (''__sprintf_chk'', C_sprintf_chk),
     (''calloc'', C_calloc), (''realloc'', C_realloc), (''free'', C_free),
     (''aligned_alloc'', C_aligned_alloc), (''posix_memalign'', C_posix_memalign),
     (''_Znwm'', C_new), (''_Znam'', C_new),
     (''_ZnwmSt11align_val_t'', C_aligned_new), (''_ZnamSt11align_val_t'', C_aligned_new),
     (''_ZdlPv'', C_delete), (''_ZdaPv'', C_delete), (''_ZdlPvm'', C_delete), (''_ZdaPvm'', C_delete),
     (''_ZdlPvSt11align_val_t'', C_delete), (''_ZdaPvSt11align_val_t'', C_delete),
     (''_ZdlPvmSt11align_val_t'', C_delete), (''_ZdaPvmSt11align_val_t'', C_delete)]"

definition call_class :: "ir_insn \<Rightarrow> call_class option" where
  "call_class i =
     (case op i of I_Call (Direct n) args t \<Rightarrow> map_of call_classes n | _ \<Rightarrow> None)"

fun call_args :: "ir_insn \<Rightarrow> ir_val list" where
  "call_args i = (case op i of I_Call c args t \<Rightarrow> args | _ \<Rightarrow> [])"

section \<open>Redirecting the allocators\<close>

text \<open>
  Done in every function, opted out or not. The rebuilt call keeps the name of the result; that of
  \<^verbatim>\<open>operator delete\<close> has none.
\<close>

definition redirect_alloc :: "ir_insn \<Rightarrow> ir_insn emit" where
  "redirect_alloc i =
     (let (f, l) = get_loc i; a = call_args i in
      case call_class i of
        Some C_malloc \<Rightarrow> (with_op i (rz_call ''__redzone_malloc'' [a ! 0, f, l]), [Mallocs])
      | Some C_calloc \<Rightarrow> (with_op i (rz_call ''__redzone_calloc'' [a ! 0, a ! 1, f, l]), [Mallocs])
      | Some C_realloc \<Rightarrow> (with_op i (rz_call ''__redzone_realloc'' [a ! 0, a ! 1, f, l]), [Mallocs])
      | Some C_aligned_alloc \<Rightarrow>
          (with_op i (rz_call ''__redzone_aligned_alloc'' [a ! 0, a ! 1, f, l]), [Mallocs])
      | Some C_posix_memalign \<Rightarrow>
          (with_op i (rz_call ''__redzone_posix_memalign'' [a ! 0, a ! 1, a ! 2, f, l]), [Mallocs])
      | Some C_new \<Rightarrow> (with_op i (rz_call ''__redzone_malloc'' [a ! 0, f, l]), [Mallocs])
      | Some C_aligned_new \<Rightarrow>
          (with_op i (rz_call ''__redzone_aligned_alloc'' [a ! 1, a ! 0, f, l]), [Mallocs])
      | Some C_free \<Rightarrow> (with_op i (rz_call ''__redzone_free'' a), [Frees])
      | Some C_delete \<Rightarrow> (emitted i (rz_call ''__redzone_free'' [a ! 0]), [Frees])
      | _ \<Rightarrow> (i, []))"

section \<open>Which accesses need no check\<close>

definition is_call :: "ir_insn \<Rightarrow> bool" where
  "is_call i =
     (case op i of I_Call c a t \<Rightarrow> True | I_Invoke c a t \<Rightarrow> True
      | I_Memcpy d s n \<Rightarrow> True | I_Memmove d s n \<Rightarrow> True | I_Memset d v n \<Rightarrow> True | _ \<Rightarrow> False)"

text \<open>Pointer and accessed type of a load or store.\<close>

definition access_of :: "ir_insn \<Rightarrow> (ir_val \<times> ir_ty \<times> bool) option" where
  "access_of i =
     (case op i of
        I_Load p t at \<Rightarrow> Some (p, t, False)
      | I_Store p v at \<Rightarrow> Some (p, val_ty v, True)
      | _ \<Rightarrow> None)"

definition access_info :: "layout \<Rightarrow> ir_insn \<Rightarrow> (ir_val \<times> u64) option" where
  "access_info L i =
     (case access_of i of
        None \<Rightarrow> None
      | Some (p, t, w) \<Rightarrow> if scalable L t then None else Some (p, store_size L t))"

definition find_alloca :: "ir_fun \<Rightarrow> ir_val \<Rightarrow> (bool \<times> u64 option) option" where
  "find_alloca F v =
     (case v of
        V_Reg x t \<Rightarrow>
          (case List.find (\<lambda>i. res i = Some x) (concat (body F)) of
             Some i \<Rightarrow> (case op i of I_Alloca st sz al \<Rightarrow> Some (st, sz) | _ \<Rightarrow> None)
           | None \<Rightarrow> None)
      | _ \<Rightarrow> None)"

definition in_object :: "int \<Rightarrow> u64 \<Rightarrow> u64 \<Rightarrow> bool" where
  "in_object off obj_size sz \<longleftrightarrow>
     0 \<le> off \<and> (let offset = (word_of_int off :: u64) in offset \<le> obj_size \<and> obj_size - offset \<ge> sz)"

definition provably_safe_alloca :: "layout \<Rightarrow> ir_fun \<Rightarrow> ir_val \<Rightarrow> u64 \<Rightarrow> bool" where
  "provably_safe_alloca L F p sz =
     (let (base, off) = base_of L p in
      case find_alloca F base of
        Some (True, Some obj_size) \<Rightarrow> in_object off obj_size sz
      | _ \<Rightarrow> False)"

definition safe_access :: "layout \<Rightarrow> ir_fun \<Rightarrow> ir_insn \<Rightarrow> bool" where
  "safe_access L F i =
     (case access_info L i of Some (p, sz) \<Rightarrow> provably_safe_alloca L F p sz | None \<Rightarrow> False)"

datatype mark = Keep | Safe | Redundant

text \<open>
  The walk over one block: \<open>checked\<close> is the largest size already checked of each pointer, forgotten
  at a call.
\<close>

fun mark_block :: "layout \<Rightarrow> ir_fun \<Rightarrow> ir_block \<Rightarrow> (ir_val \<Rightarrow> u64) \<Rightarrow> mark list" where
  "mark_block L F [] checked = []"
| "mark_block L F (i # is) checked =
     (if is_call i then Keep # mark_block L F is (\<lambda>p. 0)
      else if safe_access L F i then Safe # mark_block L F is checked
      else
        (case access_info L i of
           None \<Rightarrow> Keep # mark_block L F is checked
         | Some (p, sz) \<Rightarrow>
             if checked p \<ge> sz \<and> checked p \<noteq> 0 then Redundant # mark_block L F is checked
             else if sz > checked p then Keep # mark_block L F is (checked(p := sz))
             else Keep # mark_block L F is checked))"

section \<open>Stack objects\<close>

text \<open>The stack objects that are wrapped: static, of a known size other than 0, aligned to at most a red zone.\<close>

definition wrapped_alloca :: "ir_insn \<Rightarrow> (nat \<times> u64) option" where
  "wrapped_alloca i =
     (case (op i, res i) of
        (I_Alloca True (Some sz) al, Some (Id n)) \<Rightarrow>
          if sz = 0 \<or> al > kRedzone then None else Some (n, sz)
      | _ \<Rightarrow> None)"

definition frame_size :: "u64 \<Rightarrow> u64" where
  "frame_size sz = kRedzone + ((sz + 7) AND NOT 7) + kRedzone"

definition wrap_alloca :: "ir_insn \<Rightarrow> nat \<Rightarrow> u64 \<Rightarrow> ir_insn list" where
  "wrap_alloca i n sz =
     [\<lparr>op = I_Alloca True (Some (frame_size sz)) kRedzone, res = Some (Frame n), loc = loc i\<rparr>,
      \<lparr>op = I_Gep (V_Reg (Frame n) T_ptr) kRedzone, res = Some (Id n), loc = loc i\<rparr>,
      emitted i (rz_call ''__redzone_stack_enter'' [V_Reg (Frame n) T_ptr, V_Int T_i64 (uint sz)])]"

definition leave_call :: "ir_insn \<Rightarrow> nat \<times> u64 \<Rightarrow> ir_insn" where
  "leave_call i s =
     emitted i (rz_call ''__redzone_stack_leave'' [V_Reg (Frame (fst s)) T_ptr, V_Int T_i64 (uint (snd s))])"

section \<open>Checks and bulk operations\<close>

definition emit_check :: "layout \<Rightarrow> ir_insn \<Rightarrow> ir_insn list emit" where
  "emit_check L i =
     (case access_of i of
        Some (p, t, w) \<Rightarrow>
          let (f, l) = get_loc i in ([emitted i (I_Check p (store_size L t) w f l), i], [Checks])
      | None \<Rightarrow> ([i], []))"

definition redirect_memop :: "ir_insn \<Rightarrow> ir_insn emit" where
  "redirect_memop i =
     (let (f, l) = get_loc i; a = call_args i;
          len = zext_or_trunc T_i64;
          mem = (\<lambda>n is_set. (with_op i (rz_call n
            [a ! 0, if is_set then zext_or_trunc T_i32 (a ! 1) else a ! 1, len (a ! 2), f, l]), [Memops]));
          str = (\<lambda>n has_n. (with_op i (rz_call n
            ([a ! 0, a ! 1] @ (if has_n then [len (a ! 2)] else []) @ [f, l])), [Memops]));
          fmt = (\<lambda>n has_n tail. (with_op i (rz_call n
            ([a ! 0] @ (if has_n then [len (a ! 1)] else []) @ [f, l] @ drop tail a)), [Memops])) in
      case op i of
        I_Memcpy d s n \<Rightarrow> (emitted i (rz_call ''__redzone_memcpy'' [d, s, len n, f, l]), [Memops])
      | I_Memmove d s n \<Rightarrow> (emitted i (rz_call ''__redzone_memmove'' [d, s, len n, f, l]), [Memops])
      | I_Memset d v n \<Rightarrow>
          (emitted i (rz_call ''__redzone_memset'' [d, zext_or_trunc T_i32 v, len n, f, l]), [Memops])
      | _ \<Rightarrow>
       (case call_class i of
          Some C_memcpy \<Rightarrow> mem ''__redzone_memcpy'' False
        | Some C_memmove \<Rightarrow> mem ''__redzone_memmove'' False
        | Some C_memset \<Rightarrow> mem ''__redzone_memset'' True
        | Some C_strcpy \<Rightarrow> str ''__redzone_strcpy'' False
        | Some C_strcat \<Rightarrow> str ''__redzone_strcat'' False
        | Some C_strncpy \<Rightarrow> str ''__redzone_strncpy'' True
        | Some C_strncat \<Rightarrow> str ''__redzone_strncat'' True
        | Some C_strlcpy \<Rightarrow> str ''__redzone_strlcpy'' True
        | Some C_strlcat \<Rightarrow> str ''__redzone_strlcat'' True
        | Some C_snprintf \<Rightarrow> fmt ''__redzone_snprintf'' True 2
        | Some C_snprintf_chk \<Rightarrow> fmt ''__redzone_snprintf'' True 4
        | Some C_sprintf \<Rightarrow> fmt ''__redzone_sprintf'' False 1
        | Some C_sprintf_chk \<Rightarrow> fmt ''__redzone_sprintf'' False 3
        | _ \<Rightarrow> (i, [])))"

section \<open>Functions\<close>

text \<open>
  The stages on one instruction with its mark. The kinds of instruction exclude each other, so that
  the order of the stages is that of the cases.
\<close>

definition instrument_insn :: "layout \<Rightarrow> (nat \<times> u64) list \<Rightarrow> ir_insn \<times> mark \<Rightarrow> ir_insn list emit" where
  "instrument_insn L slots im =
     (case im of (i, m) \<Rightarrow>
        case wrapped_alloca i of
          Some (n, sz) \<Rightarrow> (wrap_alloca i n sz, [Stack_Vars])
        | None \<Rightarrow>
            if op i = I_Ret then (map (leave_call i) slots @ [i], [])
            else if access_of i \<noteq> None then
              (case m of
                 Keep \<Rightarrow> emit_check L i
               | Safe \<Rightarrow> ([i], [Skipped_Safe])
               | Redundant \<Rightarrow> ([i], [Skipped_Redundant]))
            else (let (j, st) = redirect_memop i in ([j], st)))"

definition wrapped_slots :: "ir_fun \<Rightarrow> (nat \<times> u64) list" where
  "wrapped_slots F = List.map_filter wrapped_alloca (concat (body F))"

definition redirect_allocs :: "ir_fun \<Rightarrow> ir_fun emit" where
  "redirect_allocs F =
     (let r = map (emit_each redirect_alloc) (body F) in
      (F\<lparr>body := map fst r\<rparr>, concat (map snd r)))"

definition instrument_body :: "layout \<Rightarrow> ir_fun \<Rightarrow> ir_fun emit" where
  "instrument_body L F =
     (let slots = wrapped_slots F;
          r = map (\<lambda>b. emit_all (instrument_insn L slots) (zip b (mark_block L F b (\<lambda>p. 0)))) (body F) in
      (F\<lparr>body := map fst r\<rparr>, concat (map snd r)))"

definition skip_function :: "(string \<Rightarrow> string \<Rightarrow> bool) \<Rightarrow> string list \<Rightarrow> bool \<Rightarrow> ir_fun \<Rightarrow> bool" where
  "skip_function fnmatch fun_pats module_ignored F \<longleftrightarrow>
     no_instrument F \<or> module_ignored \<or> glob_match_any fnmatch fun_pats (fname F)"

definition instrument_fun ::
  "layout \<Rightarrow> (string \<Rightarrow> string \<Rightarrow> bool) \<Rightarrow> string list \<Rightarrow> bool \<Rightarrow> ir_fun \<Rightarrow> ir_fun emit" where
  "instrument_fun L fnmatch fun_pats module_ignored F =
     (if is_declaration F then (F, [])
      else if starts_with ''__redzone'' (fname F) then (F, [])
      else
        let (G, st1) = redirect_allocs F in
        if skip_function fnmatch fun_pats module_ignored F then (G, Opted_Out # st1)
        else let (H, st2) = instrument_body L G in (H, st1 @ st2))"

section \<open>Addresses of the allocators\<close>

definition alloc_ptrs :: "(string \<times> string) list" where
  "alloc_ptrs =
    [(''malloc'', ''__redzone_malloc_plain''), (''calloc'', ''__redzone_calloc_plain''),
     (''realloc'', ''__redzone_realloc_plain''), (''free'', ''__redzone_free'')]"

definition replace_name :: "string \<Rightarrow> string" where
  "replace_name n = (case map_of alloc_ptrs n of Some w \<Rightarrow> w | None \<Rightarrow> n)"

fun replace_val :: "ir_val \<Rightarrow> ir_val" where
  "replace_val (V_Sym n) = V_Sym (replace_name n)"
| "replace_val (V_Gep v k) = V_Gep (replace_val v) k"
| "replace_val (V_Cast t v) = V_Cast t (replace_val v)"
| "replace_val v = v"

fun replace_callee :: "callee \<Rightarrow> callee" where
  "replace_callee (Direct n) = Direct (replace_name n)"
| "replace_callee (Indirect v) = Indirect (replace_val v)"

fun replace_op :: "ir_op \<Rightarrow> ir_op" where
  "replace_op (I_Load p t at) = I_Load (replace_val p) t at"
| "replace_op (I_Store p v at) = I_Store (replace_val p) (replace_val v) at"
| "replace_op (I_Rmw p) = I_Rmw (replace_val p)"
| "replace_op (I_Cmpxchg p) = I_Cmpxchg (replace_val p)"
| "replace_op (I_Memcpy d s n) = I_Memcpy (replace_val d) (replace_val s) (replace_val n)"
| "replace_op (I_Memmove d s n) = I_Memmove (replace_val d) (replace_val s) (replace_val n)"
| "replace_op (I_Memset d v n) = I_Memset (replace_val d) (replace_val v) (replace_val n)"
| "replace_op (I_Call c args t) = I_Call (replace_callee c) (map replace_val args) t"
| "replace_op (I_Invoke c args t) = I_Invoke (replace_callee c) (map replace_val args) t"
| "replace_op (I_Gep v n) = I_Gep (replace_val v) n"
| "replace_op (I_Check p n w f l) = I_Check (replace_val p) n w (replace_val f) (replace_val l)"
| "replace_op x = x"

definition replace_in_fun :: "ir_fun \<Rightarrow> ir_fun" where
  "replace_in_fun F = F\<lparr>body := map (map (\<lambda>i. i\<lparr>op := replace_op (op i)\<rparr>)) (body F)\<rparr>"

definition replace_in_global :: "ir_global \<Rightarrow> ir_global" where
  "replace_in_global g = g\<lparr>ginit := map replace_val (ginit g)\<rparr>"

text \<open>Whether the module still mentions a name after the calls were redirected.\<close>

fun val_mentions :: "string \<Rightarrow> ir_val \<Rightarrow> bool" where
  "val_mentions n (V_Sym m) \<longleftrightarrow> m = n"
| "val_mentions n (V_Gep v k) \<longleftrightarrow> val_mentions n v"
| "val_mentions n (V_Cast t v) \<longleftrightarrow> val_mentions n v"
| "val_mentions n v \<longleftrightarrow> False"

fun callee_mentions :: "string \<Rightarrow> callee \<Rightarrow> bool" where
  "callee_mentions n (Direct m) \<longleftrightarrow> m = n"
| "callee_mentions n (Indirect v) \<longleftrightarrow> val_mentions n v"

fun op_mentions :: "string \<Rightarrow> ir_op \<Rightarrow> bool" where
  "op_mentions k (I_Load p t at) \<longleftrightarrow> val_mentions k p"
| "op_mentions k (I_Store p v at) \<longleftrightarrow> val_mentions k p \<or> val_mentions k v"
| "op_mentions k (I_Rmw p) \<longleftrightarrow> val_mentions k p"
| "op_mentions k (I_Cmpxchg p) \<longleftrightarrow> val_mentions k p"
| "op_mentions k (I_Memcpy d s n) \<longleftrightarrow> list_ex (val_mentions k) [d, s, n]"
| "op_mentions k (I_Memmove d s n) \<longleftrightarrow> list_ex (val_mentions k) [d, s, n]"
| "op_mentions k (I_Memset d v n) \<longleftrightarrow> list_ex (val_mentions k) [d, v, n]"
| "op_mentions k (I_Call c args t) \<longleftrightarrow> callee_mentions k c \<or> list_ex (val_mentions k) args"
| "op_mentions k (I_Invoke c args t) \<longleftrightarrow> callee_mentions k c \<or> list_ex (val_mentions k) args"
| "op_mentions k (I_Gep v n) \<longleftrightarrow> val_mentions k v"
| "op_mentions k (I_Check p n w f l) \<longleftrightarrow> list_ex (val_mentions k) [p, f, l]"
| "op_mentions k x \<longleftrightarrow> False"

definition mentioned :: "ir_global list \<Rightarrow> ir_fun list \<Rightarrow> string \<Rightarrow> bool" where
  "mentioned gs fs n \<longleftrightarrow>
     list_ex (\<lambda>g. list_ex (val_mentions n) (ginit g)) gs
     \<or> list_ex (\<lambda>F. list_ex (list_ex (\<lambda>i. op_mentions n (op i))) (body F)) fs"

section \<open>The module\<close>

text \<open>What every run declares first, used or not: the functions of the runtime and the base of its shadow.\<close>

definition declare_runtime :: "ir_module \<Rightarrow> ir_module" where
  "declare_runtime M = get_or_insert_global ''__redzone_shadow_base'' T_ptr (declare_all (map fst runtime_sigs) M)"

definition run_safety ::
  "layout \<Rightarrow> (string \<Rightarrow> string \<Rightarrow> bool) \<Rightarrow> string list option \<Rightarrow> ir_module \<Rightarrow> ir_module emit" where
  "run_safety L fnmatch ignorelist M0 =
     (let M = declare_runtime M0;
          (fun_pats, src_pats) = load_ignorelist ignorelist;
          module_ignored = glob_match_any fnmatch src_pats (source_file M);
          (gs, st1) = emit_each (instrument_global L) (mglobals M);
          reg = register_globals L (mglobals M);
          (fs, st2) = emit_each (instrument_fun L fnmatch fun_pats module_ignored) (mfuns M);
          taken = filter (\<lambda>(n, w). mentioned gs fs n) alloc_ptrs in
      (declare_all (map snd taken)
         (M\<lparr>mglobals := map replace_in_global gs, mfuns := map replace_in_fun fs, registered := reg\<rparr>),
       st1 @ st2 @ map (\<lambda>p. Alloc_Ptrs) taken))"

text \<open>Whether the pass tells the compiler that it changed the module.\<close>

definition reports_changed :: "stat list \<Rightarrow> bool" where
  "reports_changed st \<longleftrightarrow>
     list_ex (\<lambda>x. x \<in> {Checks, Mallocs, Frees, Stack_Vars, Globals, Memops, Alloc_Ptrs}) st"

end
