(* ===== verification/Pass_Race.thy ===== *)
theory Pass_Race
  imports Pass_IR
begin

text \<open>
  The race mode of the pass (\<^verbatim>\<open>RedzonePass::runRaceMode\<close>): a hook before each plain load and store,
  acquire and release calls around atomic operations, and the pthread calls redirected to the
  wrappers of the race runtime.
\<close>

section \<open>Redirecting synchronization\<close>

definition sync_redirs :: "(string \<times> string) list" where
  "sync_redirs =
    [(''pthread_create'', ''rz_rt_pthread_create''),
     (''pthread_join'', ''rz_rt_pthread_join''),
     (''pthread_mutex_lock'', ''rz_rt_pthread_mutex_lock''),
     (''pthread_mutex_unlock'', ''rz_rt_pthread_mutex_unlock''),
     (''pthread_mutex_trylock'', ''rz_rt_pthread_mutex_trylock''),
     (''pthread_rwlock_rdlock'', ''rz_rt_pthread_rwlock_rdlock''),
     (''pthread_rwlock_wrlock'', ''rz_rt_pthread_rwlock_wrlock''),
     (''pthread_rwlock_tryrdlock'', ''rz_rt_pthread_rwlock_tryrdlock''),
     (''pthread_rwlock_trywrlock'', ''rz_rt_pthread_rwlock_trywrlock''),
     (''pthread_rwlock_unlock'', ''rz_rt_pthread_rwlock_unlock''),
     (''pthread_cond_wait'', ''rz_rt_pthread_cond_wait''),
     (''pthread_cond_timedwait'', ''rz_rt_pthread_cond_timedwait'')]"

text \<open>An assembler label such as \<^verbatim>\<open>\01_pthread_join\<close> counts as the plain name.\<close>

definition plain_name :: "string \<Rightarrow> string" where
  "plain_name n =
     (case n of
        c # m \<Rightarrow>
          if c = CHR 0x01 then (case m of d # k \<Rightarrow> if d = CHR ''_'' then k else m | [] \<Rightarrow> m) else n
      | [] \<Rightarrow> n)"

definition sync_target :: "string \<Rightarrow> string option" where
  "sync_target n = map_of sync_redirs (plain_name n)"

definition redirect_sync :: "ir_insn \<Rightarrow> ir_insn emit" where
  "redirect_sync i =
     (case op i of
        I_Call (Direct n) args t \<Rightarrow>
          (case sync_target n of
             Some w \<Rightarrow> (with_op i (I_Call (Direct w) args t), [Race_Syncs])
           | None \<Rightarrow> (i, []))
      | _ \<Rightarrow> (i, []))"

section \<open>Hooks\<close>

definition race_call :: "string \<Rightarrow> ir_val list \<Rightarrow> ir_op" where
  "race_call n args = I_Call (Direct n) args T_void"

definition emit_access :: "layout \<Rightarrow> ir_insn \<Rightarrow> ir_val \<Rightarrow> ir_ty \<Rightarrow> bool \<Rightarrow> ir_insn list emit" where
  "emit_access L i p t is_write =
     (if scalable L t then ([], []) else
      let (f, l) = get_loc i in
      ([emitted i (race_call (if is_write then ''rz_rt_write'' else ''rz_rt_read'')
          [p, V_Int T_i64 (uint (store_size L t)), f, l])], [Race_Accesses]))"

text \<open>The pointer of an atomic operation, whether it reads and whether it writes.\<close>

definition atomic_of :: "ir_insn \<Rightarrow> (ir_val \<times> bool \<times> bool) option" where
  "atomic_of i =
     (case op i of
        I_Load p t True \<Rightarrow> Some (p, True, False)
      | I_Store p v True \<Rightarrow> Some (p, False, True)
      | I_Rmw p \<Rightarrow> Some (p, True, True)
      | I_Cmpxchg p \<Rightarrow> Some (p, True, True)
      | _ \<Rightarrow> None)"

definition hook_insn :: "layout \<Rightarrow> ir_insn \<Rightarrow> ir_insn list emit" where
  "hook_insn L i =
     (case op i of
        I_Load p t False \<Rightarrow> (let (h, st) = emit_access L i p t False in (h @ [i], st))
      | I_Store p v False \<Rightarrow> (let (h, st) = emit_access L i p (val_ty v) True in (h @ [i], st))
      | _ \<Rightarrow>
         (case atomic_of i of
            Some (p, reads, writes) \<Rightarrow>
              ((if writes then [emitted i (race_call ''rz_rt_atomic_release'' [p])] else []) @ [i] @
               (if reads then [emitted i (race_call ''rz_rt_atomic_acquire'' [p])] else []),
               [Race_Atomics])
          | None \<Rightarrow> ([i], [])))"

section \<open>Functions and the module\<close>

definition redirect_syncs :: "ir_fun \<Rightarrow> ir_fun emit" where
  "redirect_syncs F =
     (let r = map (emit_each redirect_sync) (body F) in
      (F\<lparr>body := map fst r\<rparr>, concat (map snd r)))"

definition hook_body :: "layout \<Rightarrow> ir_fun \<Rightarrow> ir_fun emit" where
  "hook_body L F =
     (let r = map (emit_all (hook_insn L)) (body F) in
      (F\<lparr>body := map fst r\<rparr>, concat (map snd r)))"

definition race_fun :: "layout \<Rightarrow> ir_fun \<Rightarrow> ir_fun emit" where
  "race_fun L F =
     (if is_declaration F then (F, [])
      else if starts_with ''__redzone'' (fname F) \<or> starts_with ''rz_'' (fname F) then (F, [])
      else
        let (G, st1) = redirect_syncs F in
        if no_instrument F then (G, st1)
        else let (H, st2) = hook_body L G in (H, st1 @ st2))"

text \<open>
  The hooks are declared first, used or not, and the wrappers as their calls are redirected. A declaration at the
  end of the list is passed over by the walk.
\<close>

definition race_hooks :: "string list" where
  "race_hooks = [''rz_rt_read'', ''rz_rt_write'', ''rz_rt_atomic_acquire'', ''rz_rt_atomic_release'']"

definition declare_hooks :: "ir_module \<Rightarrow> ir_module" where
  "declare_hooks M = declare_all race_hooks M"

definition wrapper_of :: "ir_insn \<Rightarrow> string option" where
  "wrapper_of i = (case op i of I_Call (Direct n) args t \<Rightarrow> sync_target n | _ \<Rightarrow> None)"

definition wrappers_used :: "ir_fun \<Rightarrow> string list" where
  "wrappers_used F =
     (if is_declaration F \<or> starts_with ''__redzone'' (fname F) \<or> starts_with ''rz_'' (fname F) then []
      else List.map_filter wrapper_of (concat (body F)))"

definition run_race :: "layout \<Rightarrow> ir_module \<Rightarrow> ir_module emit" where
  "run_race L M0 =
     (let M = declare_hooks M0;
          (fs, st) = emit_each (race_fun L) (mfuns M) in
      (declare_all (concat (map wrappers_used (mfuns M))) (M\<lparr>mfuns := fs\<rparr>), st))"

definition race_reports_changed :: "stat list \<Rightarrow> bool" where
  "race_reports_changed st \<longleftrightarrow> list_ex (\<lambda>x. x \<in> {Race_Accesses, Race_Atomics, Race_Syncs}) st"

end
