(* ===== verification/Pass_Props.thy ===== *)
theory Pass_Props
  imports Pass_Safety Pass_Race RZ_Machine
begin

text \<open>
  What the pass guarantees: no call of an allocator escapes the redirection, the emitted calls fit the
  runtime's signatures, and the checks that are left out could not have reported.
\<close>

section \<open>What the stages emit\<close>

definition alloc_classes :: "call_class set" where
  "alloc_classes = {C_malloc, C_calloc, C_realloc, C_free, C_aligned_alloc, C_posix_memalign, C_new,
     C_aligned_new, C_delete}"

lemma class_table: "map_of call_classes n = Some c \<Longrightarrow> (n, c) \<in> set call_classes"
  by (rule map_of_SomeD)

lemma rz_call_class [simp]:
  "op i = rz_call n args \<Longrightarrow> call_class i = map_of call_classes n"
  by (simp add: call_class_def rz_call_def)

definition rz_name :: "string \<Rightarrow> bool" where
  "rz_name n \<longleftrightarrow> starts_with ''__redzone'' n"

lemma rz_name_class: "rz_name n \<Longrightarrow> map_of call_classes n = None"
  unfolding map_of_eq_None_iff by (auto simp: rz_name_def starts_with_def call_classes_def)

text \<open>The calls a stage adds all go to the runtime.\<close>

definition rz_insn :: "ir_insn \<Rightarrow> bool" where
  "rz_insn i \<longleftrightarrow> (\<exists>n args. op i = rz_call n args \<and> rz_name n)"

lemma rz_insn_class: "rz_insn i \<Longrightarrow> call_class i = None"
  by (auto simp: rz_insn_def rz_name_class)

lemma rz_names [simp]:
  "rz_name (''__redzone_'' @ n)" "rz_name (CHR ''_'' # CHR ''_'' # CHR ''r'' # CHR ''e'' # CHR ''d'' # CHR ''z'' # CHR ''o'' # CHR ''n'' # CHR ''e'' # n)"
  by (simp_all add: rz_name_def starts_with_def)

lemma rz_insn_ops [simp]:
  "rz_insn (with_op i (rz_call n args)) \<longleftrightarrow> rz_name n" "rz_insn (emitted i (rz_call n args)) \<longleftrightarrow> rz_name n"
  by (auto simp: rz_insn_def with_op_def emitted_def rz_call_def)

lemma redirect_alloc_cases:
  "rz_insn (fst (redirect_alloc i))
   \<or> fst (redirect_alloc i) = i \<and> (\<forall>c. call_class i = Some c \<longrightarrow> c \<notin> alloc_classes)"
proof (cases "call_class i")
  case None
  then show ?thesis by (simp add: redirect_alloc_def split_beta Let_def)
next
  case (Some c)
  then show ?thesis
    by (cases c) (simp_all add: redirect_alloc_def split_beta Let_def alloc_classes_def)
qed

lemma redirect_memop_cases:
  "rz_insn (fst (redirect_memop i))
   \<or> fst (redirect_memop i) = i \<and> (\<forall>c. call_class i = Some c \<longrightarrow> c \<in> alloc_classes)"
proof (cases "call_class i")
  case None
  then show ?thesis by (cases "op i") (simp_all add: redirect_memop_def split_beta Let_def)
next
  case (Some c)
  then obtain n a t where o: "op i = I_Call (Direct n) a t"
    by (auto simp: call_class_def split: ir_op.splits callee.splits)
  show ?thesis
    by (cases c) (simp_all add: redirect_memop_def split_beta Let_def alloc_classes_def Some o)
qed

text \<open>Every instruction the body stage puts out is new, or the source instruction that was kept.\<close>

lemma call_class_access: "access_of i \<noteq> None \<Longrightarrow> call_class i = None"
  by (auto simp: access_of_def call_class_def split: ir_op.splits)

lemma call_class_alloca: "wrapped_alloca i = Some x \<Longrightarrow> call_class i = None"
  by (auto simp: wrapped_alloca_def call_class_def split: ir_op.splits)

lemma instrument_insn_cases:
  assumes "j \<in> set (fst (instrument_insn L slots (i, m)))"
  shows "rz_insn j \<or> (\<exists>p n w f l. op j = I_Check p n w f l) \<or> (\<exists>st sz al. op j = I_Alloca st sz al)
    \<or> (\<exists>v k. op j = I_Gep v k) \<or> j = i \<and> (\<forall>c. call_class i = Some c \<longrightarrow> c \<in> alloc_classes)"
proof (cases "wrapped_alloca i")
  case (Some s)
  with assms show ?thesis by (auto simp: instrument_insn_def wrap_alloca_def split: prod.splits)
next
  case None
  show ?thesis
  proof (cases "op i = I_Ret")
    case True
    have c: "call_class i = None" by (simp add: True call_class_def)
    from assms True None c show ?thesis by (auto simp: instrument_insn_def leave_call_def)
  next
    case False
    show ?thesis
    proof (cases "access_of i")
      case None': None
      with assms None False have "j = fst (redirect_memop i)" by (simp add: instrument_insn_def split_beta)
      with redirect_memop_cases [of i] show ?thesis by metis
    next
      case (Some a)
      then have c: "call_class i = None" by (intro call_class_access) simp
      obtain p t w where a: "a = (p, t, w)" by (cases a)
      from assms None False Some a c show ?thesis
        by (auto simp: instrument_insn_def emit_check_def emitted_def split_beta Let_def split: mark.splits)
    qed
  qed
qed

section \<open>No allocator call escapes\<close>

definition insns :: "ir_fun \<Rightarrow> ir_insn set" where
  "insns F = set (concat (body F))"

lemma emit_all_set: "j \<in> set (fst (emit_all f xs)) \<longleftrightarrow> (\<exists>x \<in> set xs. j \<in> set (fst (f x)))"
  by (simp add: emit_all_def)

lemma redirect_allocs_insns:
  "j \<in> insns (fst (redirect_allocs F)) \<Longrightarrow> \<exists>i \<in> insns F. j = fst (redirect_alloc i)"
  by (fastforce simp: insns_def redirect_allocs_def Let_def)

lemma instrument_body_insns:
  assumes "j \<in> insns (fst (instrument_body L F))"
  shows "\<exists>i m slots. i \<in> insns F \<and> j \<in> set (fst (instrument_insn L slots (i, m)))"
proof -
  from assms obtain b where b: "b \<in> set (body F)"
    "j \<in> set (fst (emit_all (instrument_insn L (wrapped_slots F)) (zip b (mark_block L F b (\<lambda>p. 0)))))"
    by (auto simp: insns_def instrument_body_def Let_def)
  then obtain i m where "(i, m) \<in> set (zip b (mark_block L F b (\<lambda>p. 0)))"
    "j \<in> set (fst (instrument_insn L (wrapped_slots F) (i, m)))"
    by (auto simp: emit_all_set)
  moreover from this(1) have "i \<in> set b" by (rule set_zip_leftD)
  ultimately show ?thesis using b(1) by (auto simp: insns_def)
qed

definition free_of_allocs :: "ir_insn \<Rightarrow> bool" where
  "free_of_allocs i \<longleftrightarrow> (\<forall>c. call_class i = Some c \<longrightarrow> c \<notin> alloc_classes)"

lemma other_op_class [simp]:
  "op j = I_Check p n w f l \<Longrightarrow> call_class j = None" "op j = I_Alloca st sz al \<Longrightarrow> call_class j = None"
  "op j = I_Gep v k \<Longrightarrow> call_class j = None"
  by (simp_all add: call_class_def)

text \<open>A call that may unwind is an invoke, and those are left alone.\<close>

lemma invoke_not_redirected: "op i = I_Invoke c args t \<Longrightarrow> redirect_alloc i = (i, [])"
  by (simp add: redirect_alloc_def call_class_def split_beta Let_def)

text \<open>So is a call of \<^verbatim>\<open>operator new\<close> that answers null instead of throwing, single or array, aligned or not: its block is
  not tracked, although the \<^verbatim>\<open>delete\<close> of it goes to the runtime.\<close>

definition nothrow_news :: "string list" where
  "nothrow_news = [''_ZnwmRKSt9nothrow_t'', ''_ZnamRKSt9nothrow_t'', ''_ZnwmSt11align_val_tRKSt9nothrow_t'', ''_ZnamSt11align_val_tRKSt9nothrow_t'']"

lemma nothrow_unknown: "list_all (\<lambda>n. map_of call_classes n = None) nothrow_news"
  by code_simp

lemma nothrow_not_redirected:
  "n \<in> set nothrow_news \<Longrightarrow> op i = I_Call (Direct n) args t \<Longrightarrow> redirect_alloc i = (i, [])"
  using nothrow_unknown by (simp add: list_all_iff redirect_alloc_def call_class_def split_beta Let_def)

lemma redirected_free: "j \<in> insns (fst (redirect_allocs F)) \<Longrightarrow> free_of_allocs j"
proof -
  assume "j \<in> insns (fst (redirect_allocs F))"
  then obtain i where "j = fst (redirect_alloc i)" using redirect_allocs_insns by blast
  then show ?thesis
    using redirect_alloc_cases [of i] rz_insn_class [of j] by (auto simp: free_of_allocs_def)
qed

lemma instrumented_none:
  assumes "j \<in> insns (fst (instrument_body L F))" and "\<forall>i \<in> insns F. free_of_allocs i"
  shows "call_class j = None"
proof -
  obtain i m slots where i: "i \<in> insns F" "j \<in> set (fst (instrument_insn L slots (i, m)))"
    using instrument_body_insns [OF assms(1)] by blast
  have "call_class i = Some c \<Longrightarrow> c \<notin> alloc_classes" for c using assms(2) i(1) by (simp add: free_of_allocs_def)
  with instrument_insn_cases [OF i(2)] show ?thesis
    by (metis not_Some_eq other_op_class rz_insn_class)
qed

lemma instrument_fun_class:
  assumes "j \<in> insns (fst (instrument_fun L fnm pats ign F))" and "\<not> is_declaration F"
    and "\<not> starts_with ''__redzone'' (fname F)"
  shows "free_of_allocs j" and "\<not> skip_function fnm pats ign F \<Longrightarrow> call_class j = None"
proof -
  have r: "\<forall>i \<in> insns (fst (redirect_allocs F)). free_of_allocs i" using redirected_free by blast
  show n: "call_class j = None" if "\<not> skip_function fnm pats ign F"
    using assms that instrumented_none [OF _ r] by (simp add: instrument_fun_def split_beta Let_def)
  show "free_of_allocs j"
    using assms n r by (cases "skip_function fnm pats ign F") (simp_all add: instrument_fun_def split_beta Let_def free_of_allocs_def)
qed

text \<open>The replacement of addresses turns no call into one of a known class.\<close>

lemma replace_name_class: "map_of call_classes (replace_name n) = Some c \<Longrightarrow> replace_name n = n"
proof (cases "map_of alloc_ptrs n")
  case (Some w)
  assume c: "map_of call_classes (replace_name n) = Some c"
  have "w \<in> snd ` set alloc_ptrs" using map_of_SomeD [OF Some] by force
  then have "rz_name w" by (auto simp: alloc_ptrs_def)
  with c Some show ?thesis by (simp add: replace_name_def rz_name_class)
qed (simp add: replace_name_def)

lemma replaced_class: "call_class (i\<lparr>op := replace_op (op i)\<rparr>) = Some c \<Longrightarrow> call_class i = Some c"
proof (cases "op i")
  case (I_Call f args t)
  assume c: "call_class (i\<lparr>op := replace_op (op i)\<rparr>) = Some c"
  then obtain n where f: "f = Direct n" using I_Call by (cases f) (auto simp: call_class_def)
  then have "map_of call_classes (replace_name n) = Some c" using c I_Call by (simp add: call_class_def)
  then show ?thesis using replace_name_class [of n c] I_Call f by (simp add: call_class_def)
qed (simp_all add: call_class_def)

lemma declare_runtime_fields [simp]:
  "source_file (declare_runtime M) = source_file M" "registered (declare_runtime M) = registered M"
  by (simp_all add: declare_runtime_def get_or_insert_global_def)

text \<open>The functions of the module afterwards: the source's, each instrumented, and new declarations.\<close>

lemma extern_fun_kept: "replace_in_fun (fst (instrument_fun L fnm pats ign (extern_fun n))) = extern_fun n"
  by (simp add: instrument_fun_def replace_in_fun_def extern_fun_def)

lemma run_safety_mfuns:
  "\<exists>ds. mfuns (fst (run_safety L fnm rules M)) =
    map (\<lambda>F. replace_in_fun (fst (instrument_fun L fnm (fst (load_ignorelist rules))
      (glob_match_any fnm (snd (load_ignorelist rules)) (source_file M)) F))) (mfuns M) @ map extern_fun ds"
proof -
  let ?f = "\<lambda>F. replace_in_fun (fst (instrument_fun L fnm (fst (load_ignorelist rules))
      (glob_match_any fnm (snd (load_ignorelist rules)) (source_file M)) F))"
  obtain ds where "mfuns (declare_runtime M) = mfuns M @ map extern_fun ds"
    using declare_all_adds [of "map fst runtime_sigs" M] by (auto simp: declare_runtime_def get_or_insert_global_def)
  then have d: "map ?f (mfuns (declare_runtime M)) = map ?f (mfuns M) @ map extern_fun ds" by (simp add: extern_fun_kept)
  have "mfuns (fst (run_safety L fnm rules M)) = mfuns (declare_all ns N) \<and> mfuns N = map ?f (mfuns (declare_runtime M))
      \<Longrightarrow> ?thesis" for ns N
    using declare_all_mfuns [of ns N] d by (auto intro: exI [of _ "ds @ _"] simp flip: map_append)
  moreover have "\<exists>ns N. mfuns (fst (run_safety L fnm rules M)) = mfuns (declare_all ns N) \<and> mfuns N = map ?f (mfuns (declare_runtime M))"
    by (simp add: run_safety_def split_beta Let_def comp_def)
      (rule exI, rule exI, rule conjI, rule refl, simp)
  ultimately show ?thesis by blast
qed

lemma run_safety_nth:
  "k < length (mfuns M) \<Longrightarrow> mfuns (fst (run_safety L fnm rules M)) ! k =
    replace_in_fun (fst (instrument_fun L fnm (fst (load_ignorelist rules))
      (glob_match_any fnm (snd (load_ignorelist rules)) (source_file M)) (mfuns M ! k)))"
  using run_safety_mfuns [of L fnm rules M] by (auto simp: nth_append)

lemma run_safety_fun:
  assumes "G \<in> set (mfuns (fst (run_safety L fnm rules M)))" and "body G \<noteq> []"
  obtains F pats ign where "F \<in> set (mfuns M)" "G = replace_in_fun (fst (instrument_fun L fnm pats ign F))"
    "pats = fst (load_ignorelist rules)"
    "ign \<longleftrightarrow> glob_match_any fnm (snd (load_ignorelist rules)) (source_file M)"
  using assms run_safety_mfuns [of L fnm rules M] by fastforce

lemma instrument_fun_fields:
  "fname (fst (instrument_fun L fnm pats ign F)) = fname F"
  "is_declaration (fst (instrument_fun L fnm pats ign F)) = is_declaration F"
  "no_instrument (fst (instrument_fun L fnm pats ign F)) = no_instrument F"
  by (simp_all add: instrument_fun_def redirect_allocs_def instrument_body_def split_beta Let_def)

lemma replace_in_fun_fields:
  "fname (replace_in_fun F) = fname F" "is_declaration (replace_in_fun F) = is_declaration F"
  "no_instrument (replace_in_fun F) = no_instrument F"
  by (simp_all add: replace_in_fun_def)

lemma replace_in_fun_insns: "j \<in> insns (replace_in_fun F) \<Longrightarrow> \<exists>i \<in> insns F. j = i\<lparr>op := replace_op (op i)\<rparr>"
  by (fastforce simp: insns_def replace_in_fun_def)

section \<open>The heap by its standard names\<close>

text \<open>
  What the calls of a program mean, by the names that the C and C++ standards and the C++ ABI give, and what the calls of
  the runtime mean, by \<^verbatim>\<open>redzone_rt.h\<close>; neither looks at the tables of the pass. \<open>heap_names\<close> are the allocation functions of
  C, \<^verbatim>\<open>posix_memalign\<close>, and every replaceable form of \<^verbatim>\<open>operator new\<close> and \<^verbatim>\<open>operator delete\<close> without a \<^verbatim>\<open>nothrow\<close> argument,
  generated from the parts of a mangled name.
\<close>

datatype 'v heap_op =
    Get 'v | Get_Zeroed 'v 'v | Resize 'v 'v | Get_Aligned 'v 'v | Get_Into 'v 'v 'v | Give_Back 'v

definition align_mark :: "bool \<Rightarrow> string" where
  "align_mark al = (if al then ''St11align_val_t'' else [])"

definition operator_new :: "bool \<Rightarrow> bool \<Rightarrow> string" where
  "operator_new arr al = ''_Zn'' @ (if arr then ''a'' else ''w'') @ ''m'' @ align_mark al"

definition operator_delete :: "bool \<Rightarrow> bool \<Rightarrow> bool \<Rightarrow> string" where
  "operator_delete arr sized al = ''_Zd'' @ (if arr then ''a'' else ''l'') @ ''Pv'' @ (if sized then ''m'' else []) @ align_mark al"

definition deletes :: "(bool \<times> bool) list \<Rightarrow> string list" where
  "deletes fs = concat (map (\<lambda>(sized, al). [operator_delete False sized al, operator_delete True sized al]) fs)"

definition heap_names :: "string list" where
  "heap_names =
     [''malloc'', ''calloc'', ''realloc'', ''free'', ''aligned_alloc'', ''posix_memalign'',
      operator_new False False, operator_new True False, operator_new False True, operator_new True True] @
     deletes [(False, False), (True, False), (False, True), (True, True)]"

definition standard_heap :: "string \<Rightarrow> 'v list \<Rightarrow> 'v heap_op option" where
  "standard_heap n a =
     (if n \<in> {''malloc'', operator_new False False, operator_new True False} then (case a of [k] \<Rightarrow> Some (Get k) | _ \<Rightarrow> None)
      else if n = ''calloc'' then (case a of [m, k] \<Rightarrow> Some (Get_Zeroed m k) | _ \<Rightarrow> None)
      else if n = ''realloc'' then (case a of [p, k] \<Rightarrow> Some (Resize p k) | _ \<Rightarrow> None)
      else if n = ''aligned_alloc'' then (case a of [al, k] \<Rightarrow> Some (Get_Aligned al k) | _ \<Rightarrow> None)
      else if n \<in> {operator_new False True, operator_new True True} then (case a of [k, al] \<Rightarrow> Some (Get_Aligned al k) | _ \<Rightarrow> None)
      else if n = ''posix_memalign'' then (case a of [p, al, k] \<Rightarrow> Some (Get_Into p al k) | _ \<Rightarrow> None)
      else if n \<in> set (''free'' # deletes [(False, False)]) then (case a of [p] \<Rightarrow> Some (Give_Back p) | _ \<Rightarrow> None)
      else if n \<in> set (deletes [(True, False), (False, True)]) then (case a of [p, x] \<Rightarrow> Some (Give_Back p) | _ \<Rightarrow> None)
      else if n \<in> set (deletes [(True, True)]) then (case a of [p, x, y] \<Rightarrow> Some (Give_Back p) | _ \<Rightarrow> None)
      else None)"

text \<open>An event: the operation, and for an allocation the name of its result and the source position.\<close>

type_synonym heap_event = "ir_val heap_op \<times> (ssa option \<times> ir_val \<times> ir_val) option"

definition heap_request :: "ir_insn \<Rightarrow> heap_event option" where
  "heap_request i =
     (case op i of
        I_Call (Direct n) a t \<Rightarrow>
          map_option (\<lambda>h. (h, case h of Give_Back p \<Rightarrow> None | _ \<Rightarrow> Some (res i, get_loc i))) (standard_heap n a)
      | _ \<Rightarrow> None)"

definition runtime_heap :: "string \<Rightarrow> 'v list \<Rightarrow> ('v heap_op \<times> ('v \<times> 'v) option) option" where
  "runtime_heap n a =
     (if n = ''__redzone_malloc'' then (case a of [k, f, l] \<Rightarrow> Some (Get k, Some (f, l)) | _ \<Rightarrow> None)
      else if n = ''__redzone_calloc'' then (case a of [m, k, f, l] \<Rightarrow> Some (Get_Zeroed m k, Some (f, l)) | _ \<Rightarrow> None)
      else if n = ''__redzone_realloc'' then (case a of [p, k, f, l] \<Rightarrow> Some (Resize p k, Some (f, l)) | _ \<Rightarrow> None)
      else if n = ''__redzone_aligned_alloc'' then (case a of [al, k, f, l] \<Rightarrow> Some (Get_Aligned al k, Some (f, l)) | _ \<Rightarrow> None)
      else if n = ''__redzone_posix_memalign'' then (case a of [p, al, k, f, l] \<Rightarrow> Some (Get_Into p al k, Some (f, l)) | _ \<Rightarrow> None)
      else if n = ''__redzone_free'' then (case a of [p] \<Rightarrow> Some (Give_Back p, None) | _ \<Rightarrow> None)
      else None)"

definition heap_event :: "ir_insn \<Rightarrow> heap_event option" where
  "heap_event i =
     (case op i of
        I_Call (Direct n) a t \<Rightarrow> map_option (\<lambda>(h, w). (h, map_option (\<lambda>fl. (res i, fl)) w)) (runtime_heap n a)
      | _ \<Rightarrow> None)"

text \<open>The other functions of the C library the checker knows, and their fortified forms.\<close>

definition checked_names :: "string list" where
  "checked_names =
     (let ns = [''memcpy'', ''memmove'', ''memset'', ''strcpy'', ''strcat'', ''strncpy'', ''strncat'', ''strlcpy'', ''strlcat'',
        ''snprintf'', ''sprintf''] in ns @ map (\<lambda>n. ''__'' @ n @ ''_chk'') ns)"

definition calls :: "string list \<Rightarrow> ir_insn \<Rightarrow> bool" where
  "calls ns i \<longleftrightarrow> (case op i of I_Call (Direct n) a t \<Rightarrow> n \<in> set ns | _ \<Rightarrow> False)"

lemmas operators = operator_new_def operator_delete_def align_mark_def deletes_def

lemma name_tables:
  "list_all (\<lambda>n. case map_of call_classes n of Some c \<Rightarrow> c \<in> alloc_classes | None \<Rightarrow> False) heap_names"
  "list_all (\<lambda>(n, c). c \<in> alloc_classes \<longrightarrow> n \<in> set heap_names) call_classes"
  "list_all (\<lambda>n. map_of call_classes n \<noteq> None) checked_names"
  by code_simp+

lemma heap_names_class: "n \<in> set heap_names \<longleftrightarrow> (\<exists>c \<in> alloc_classes. map_of call_classes n = Some c)"
  using name_tables(1,2) class_table by (fastforce simp: list_all_iff split: option.splits)

lemma checked_names_class: "n \<in> set checked_names \<Longrightarrow> map_of call_classes n \<noteq> None"
  using name_tables(3) by (simp add: list_all_iff)

lemma calls_class: "calls heap_names i \<longleftrightarrow> \<not> free_of_allocs i" "calls checked_names i \<Longrightarrow> call_class i \<noteq> None"
  using heap_names_class checked_names_class
  by (auto simp: calls_def free_of_allocs_def call_class_def split: ir_op.splits callee.splits)

section \<open>Same operations, same order\<close>

lemma heap_event_call [simp]:
  "op i = rz_call n a \<Longrightarrow> heap_event i = map_option (\<lambda>(h, w). (h, map_option (\<lambda>fl. (res i, fl)) w)) (runtime_heap n a)"
  by (simp add: heap_event_def rz_call_def)

lemma standard_heap_names: "standard_heap n a \<noteq> None \<Longrightarrow> n \<in> set heap_names"
  by (rule ccontr) (simp add: standard_heap_def heap_names_def deletes_def)

text \<open>The operation of a class of calls, by position.\<close>

fun class_heap :: "call_class \<Rightarrow> 'v list \<Rightarrow> 'v heap_op" where
  "class_heap C_calloc a = Get_Zeroed (a ! 0) (a ! 1)"
| "class_heap C_realloc a = Resize (a ! 0) (a ! 1)"
| "class_heap C_aligned_alloc a = Get_Aligned (a ! 0) (a ! 1)"
| "class_heap C_posix_memalign a = Get_Into (a ! 0) (a ! 1) (a ! 2)"
| "class_heap C_aligned_new a = Get_Aligned (a ! 1) (a ! 0)"
| "class_heap C_free a = Give_Back (a ! 0)"
| "class_heap C_delete a = Give_Back (a ! 0)"
| "class_heap c a = Get (a ! 0)"

lemma standard_heap_class:
  assumes "map_of call_classes n = Some c" and "c \<in> alloc_classes" and "standard_heap n a = Some h"
  shows "h = class_heap c a \<and> (c = C_free \<longrightarrow> length a = 1)"
proof -
  have "(n, c) \<in> set call_classes" using assms(1) by (rule class_table)
  with assms(2) have "(n, c) \<in> set (filter (\<lambda>(n, c). c \<in> alloc_classes) call_classes)" by simp
  also have "filter (\<lambda>(n, c). c \<in> alloc_classes) call_classes =
    [(''malloc'', C_malloc), (''calloc'', C_calloc), (''realloc'', C_realloc), (''free'', C_free),
     (''aligned_alloc'', C_aligned_alloc), (''posix_memalign'', C_posix_memalign),
     (''_Znwm'', C_new), (''_Znam'', C_new),
     (''_ZnwmSt11align_val_t'', C_aligned_new), (''_ZnamSt11align_val_t'', C_aligned_new),
     (''_ZdlPv'', C_delete), (''_ZdaPv'', C_delete), (''_ZdlPvm'', C_delete), (''_ZdaPvm'', C_delete),
     (''_ZdlPvSt11align_val_t'', C_delete), (''_ZdaPvSt11align_val_t'', C_delete),
     (''_ZdlPvmSt11align_val_t'', C_delete), (''_ZdaPvmSt11align_val_t'', C_delete)]"
    by code_simp
  finally show ?thesis
    using assms(3) unfolding list.set insert_iff empty_iff simp_thms prod.inject
    by (elim disjE conjE; hypsubst; simp add: standard_heap_def operators split: list.splits if_splits; auto)
qed

lemma redirect_alloc_event:
  assumes "heap_event i = None" and "calls heap_names i \<longrightarrow> heap_request i \<noteq> None"
  shows "heap_event (fst (redirect_alloc i)) = heap_request i"
proof (cases "calls heap_names i")
  case False
  then have "fst (redirect_alloc i) = i"
    using redirect_alloc_cases [of i] calls_class(1) [of i] rz_insn_class [of i] by (cases "call_class i") (auto simp: free_of_allocs_def redirect_alloc_def split_beta Let_def alloc_classes_def split: call_class.split)
  moreover have "heap_request i = None"
    using False standard_heap_names by (fastforce simp: heap_request_def calls_def split: ir_op.splits callee.splits)
  ultimately show ?thesis using assms(1) by simp
next
  case True
  then obtain n a t where o: "op i = I_Call (Direct n) a t" "n \<in> set heap_names" by (auto simp: calls_def split: ir_op.splits callee.splits)
  obtain h where h: "standard_heap n a = Some h" using assms(2) True o(1) by (auto simp: heap_request_def)
  obtain c where c: "map_of call_classes n = Some c" "c \<in> alloc_classes" using o(2) heap_names_class by blast
  note s = standard_heap_class [OF c h]
  have cc: "call_class i = Some c" using o(1) c(1) by (simp add: call_class_def)
  show ?thesis
    using c(2) s h unfolding alloc_classes_def
    by (cases c) (auto simp: redirect_alloc_def cc o(1) heap_request_def with_op_def emitted_def runtime_heap_def split_beta length_Suc_conv)
qed

lemma map_filter_append: "List.map_filter f (xs @ ys) = List.map_filter f xs @ List.map_filter f ys"
  by (simp add: List.map_filter_def)

lemma map_filter_concat: "List.map_filter f (concat xss) = concat (map (List.map_filter f) xss)"
  by (induction xss) (simp_all add: map_filter_append List.map_filter_simps)

lemma runtime_heap_name: "runtime_heap n a \<noteq> None \<Longrightarrow> rz_name n"
  by (auto simp: runtime_heap_def split: if_splits)

lemma runtime_heap_others [simp]:
  "runtime_heap ''__redzone_memcpy'' a = None" "runtime_heap ''__redzone_memmove'' a = None" "runtime_heap ''__redzone_memset'' a = None"
  "runtime_heap ''__redzone_strcpy'' a = None" "runtime_heap ''__redzone_strcat'' a = None" "runtime_heap ''__redzone_strncpy'' a = None"
  "runtime_heap ''__redzone_strncat'' a = None" "runtime_heap ''__redzone_strlcpy'' a = None" "runtime_heap ''__redzone_strlcat'' a = None"
  "runtime_heap ''__redzone_snprintf'' a = None" "runtime_heap ''__redzone_sprintf'' a = None"
  "runtime_heap ''__redzone_stack_enter'' a = None" "runtime_heap ''__redzone_stack_leave'' a = None"
  by (simp_all add: runtime_heap_def)

lemma class_no_event: "call_class i = Some c \<Longrightarrow> heap_event i = None"
proof -
  assume c: "call_class i = Some c"
  then obtain n a t where o: "op i = I_Call (Direct n) a t" "map_of call_classes n = Some c"
    by (auto simp: call_class_def split: ir_op.splits callee.splits)
  have "runtime_heap n a = None" using runtime_heap_name rz_name_class o(2) by fastforce
  then show ?thesis using o(1) by (simp add: heap_event_def)
qed

lemma redirect_memop_event: "heap_event (fst (redirect_memop i)) = heap_event i"
proof (cases "call_class i")
  case None
  then show ?thesis
    by (cases "op i") (simp_all add: redirect_memop_def split_beta Let_def heap_event_def emitted_def rz_call_def)
next
  case (Some c)
  then obtain n a t where o: "op i = I_Call (Direct n) a t"
    by (auto simp: call_class_def split: ir_op.splits callee.splits)
  show ?thesis
    using class_no_event [OF Some]
    by (cases c) (simp_all add: redirect_memop_def split_beta Let_def Some o with_op_def)
qed

lemma instrument_insn_events:
  "List.map_filter heap_event (fst (instrument_insn L slots (i, m))) = List.map_filter heap_event [i]"
proof (cases "wrapped_alloca i")
  case (Some s)
  then have "heap_event i = None" by (auto simp: wrapped_alloca_def heap_event_def split: ir_op.splits)
  then show ?thesis
    using Some by (cases s) (simp add: instrument_insn_def wrap_alloca_def emitted_def List.map_filter_simps heap_event_def rz_call_def)
next
  case None
  show ?thesis
  proof (cases "op i = I_Ret")
    case True
    have "List.map_filter heap_event (map (leave_call i) slots) = []"
      by (induction slots) (simp_all add: List.map_filter_simps leave_call_def emitted_def)
    then show ?thesis using None True by (simp add: instrument_insn_def map_filter_append)
  next
    case False
    show ?thesis
    proof (cases "access_of i")
      case None': None
      then show ?thesis using None False redirect_memop_event [of i]
        by (simp add: instrument_insn_def split_beta List.map_filter_simps)
    next
      case (Some a)
      have "heap_event (emitted i (I_Check p n w f l)) = None" for p n w f l by (simp add: heap_event_def emitted_def)
      then show ?thesis using None False Some
        by (cases a) (auto simp: instrument_insn_def emit_check_def split_beta Let_def List.map_filter_simps split: mark.split)
    qed
  qed
qed

lemma mark_block_length: "length (mark_block L F b c) = length b"
  by (induction b arbitrary: c) (simp_all split: option.split)

lemma instrument_body_events:
  "map (List.map_filter heap_event) (body (fst (instrument_body L F))) = map (List.map_filter heap_event) (body F)"
proof -
  have "List.map_filter heap_event (fst (emit_all (instrument_insn L slots) (zip b ms))) = List.map_filter heap_event b"
    if "length ms = length b" for slots b ms
    using that
  proof (induction ms b rule: list_induct2)
    case (Cons m ms i b)
    then show ?case using instrument_insn_events [of L slots i m]
      by (simp add: map_filter_append List.map_filter_simps split: option.splits)
  qed (simp add: List.map_filter_simps)
  then show ?thesis by (simp add: instrument_body_def Let_def mark_block_length)
qed

lemma redirect_allocs_events:
  assumes "\<forall>i \<in> insns F. heap_event i = None \<and> (calls heap_names i \<longrightarrow> heap_request i \<noteq> None)"
  shows "map (List.map_filter heap_event) (body (fst (redirect_allocs F))) = map (List.map_filter heap_request) (body F)"
proof -
  have "List.map_filter heap_event (map (fst \<circ> redirect_alloc) b) = List.map_filter heap_request b"
    if "\<forall>i \<in> set b. heap_event i = None \<and> (calls heap_names i \<longrightarrow> heap_request i \<noteq> None)" for b
    using that
  proof (induction b)
    case (Cons i b)
    then have "heap_event (fst (redirect_alloc i)) = heap_request i" by (intro redirect_alloc_event) simp_all
    then show ?case using Cons by (simp add: List.map_filter_simps split: option.split)
  qed (simp add: List.map_filter_simps)
  then show ?thesis using assms by (simp add: redirect_allocs_def emit_each_def Let_def insns_def)
qed

lemma instrument_fun_events:
  assumes "\<not> is_declaration F" and "\<not> starts_with ''__redzone'' (fname F)"
    and "\<forall>i \<in> insns F. heap_event i = None \<and> (calls heap_names i \<longrightarrow> heap_request i \<noteq> None)"
  shows "map (List.map_filter heap_event) (body (fst (instrument_fun L fnm pats ign F))) = map (List.map_filter heap_request) (body F)"
  using assms(1,2) redirect_allocs_events [OF assms(3)]
  by (simp add: instrument_fun_def split_beta Let_def instrument_body_events)

text \<open>The replacement of addresses, in the arguments of an event.\<close>

definition replaced_event :: "heap_event \<Rightarrow> heap_event" where
  "replaced_event e = (case e of (h, w) \<Rightarrow> (map_heap_op replace_val h, map_option (\<lambda>(r, f, l). (r, replace_val f, replace_val l)) w))"

lemma runtime_heap_map:
  "runtime_heap n (map f a) = map_option (\<lambda>(h, w). (map_heap_op f h, map_option (map_prod f f) w)) (runtime_heap n a)"
  by (simp add: runtime_heap_def split: list.split)

lemma replace_event:
  assumes "free_of_allocs i"
  shows "heap_event (i\<lparr>op := replace_op (op i)\<rparr>) = map_option replaced_event (heap_event i)"
proof (cases "op i")
  case (I_Call c a t)
  show ?thesis
  proof (cases c)
    case (Direct n)
    have "runtime_heap (replace_name n) b = runtime_heap n b" for b :: "ir_val list"
    proof (cases "map_of alloc_ptrs n")
      case (Some w)
      have "n \<noteq> ''free''" using assms calls_class(1) [of i] I_Call Direct by (auto simp: calls_def heap_names_def)
      then have "runtime_heap w b = None" "runtime_heap n b = None"
        using Some by (auto simp: alloc_ptrs_def runtime_heap_def split: if_splits)
      then show ?thesis using Some by (simp add: replace_name_def)
    qed (simp add: replace_name_def)
    then show ?thesis using I_Call Direct
      by (cases "runtime_heap n a") (auto simp: heap_event_def runtime_heap_map replaced_event_def option.map_comp comp_def split_beta map_prod_def intro!: option.map_cong)
  qed (use I_Call in \<open>simp add: heap_event_def\<close>)
qed (simp_all add: heap_event_def)

lemma replace_in_fun_events:
  assumes "\<forall>i \<in> insns F. free_of_allocs i"
  shows "map (List.map_filter heap_event) (body (replace_in_fun F)) = map (map replaced_event \<circ> List.map_filter heap_event) (body F)"
proof -
  have "List.map_filter heap_event (map (\<lambda>i. i\<lparr>op := replace_op (op i)\<rparr>) b) = map replaced_event (List.map_filter heap_event b)"
    if "\<forall>i \<in> set b. free_of_allocs i" for b
    using that by (induction b) (simp_all add: List.map_filter_simps replace_event split: option.split)
  then show ?thesis using assms by (simp add: replace_in_fun_def insns_def)
qed

text \<open>C38. After the pass every function of the program, even one that opted out of checking, works on the heap through the runtime:
  block by block its calls ask the runtime for exactly what the calls of the source asked the C and C++ allocators for, with
  the same sizes, alignments and pointers in the same order and the file and line of the call, and no call is left of the
  allocation functions of C, of \<^verbatim>\<open>posix_memalign\<close> or of the forms of \<^verbatim>\<open>operator new\<close> and \<^verbatim>\<open>operator delete\<close> that take no
  \<^verbatim>\<open>nothrow\<close> argument. A function that did not opt out calls none of the memory, string and formatting functions directly
  either. Calls are call instructions: an invoke is none, and keeps its callee.\<close>

theorem allocators_redirected:
  assumes "k < length (mfuns M)" and "F = mfuns M ! k" and "G = mfuns (fst (run_safety L fnm rules M)) ! k"
    and "\<not> is_declaration F" and "\<not> starts_with ''__redzone'' (fname F)"
    and "\<forall>i \<in> insns F. heap_event i = None \<and> (calls heap_names i \<longrightarrow> heap_request i \<noteq> None)"
  shows "map (List.map_filter heap_event) (body G) = map (map replaced_event \<circ> List.map_filter heap_request) (body F)
    \<and> (\<forall>i \<in> insns G. \<not> calls heap_names i)
    \<and> (\<not> skip_function fnm (fst (load_ignorelist rules)) (glob_match_any fnm (snd (load_ignorelist rules)) (source_file M)) F
        \<longrightarrow> (\<forall>i \<in> insns G. \<not> calls checked_names i))"
proof -
  let ?H = "fst (instrument_fun L fnm (fst (load_ignorelist rules)) (glob_match_any fnm (snd (load_ignorelist rules)) (source_file M)) F)"
  have G: "G = replace_in_fun ?H" using run_safety_nth [OF assms(1)] assms(2,3) by simp
  note c = instrument_fun_class [OF _ assms(4,5)]
  have f: "\<forall>i \<in> insns ?H. free_of_allocs i" using c(1) by blast
  have "map (List.map_filter heap_event) (body G) = map (map replaced_event) (map (List.map_filter heap_event) (body ?H))"
    unfolding G replace_in_fun_events [OF f] by simp
  then have e: "map (List.map_filter heap_event) (body G) = map (map replaced_event \<circ> List.map_filter heap_request) (body F)"
    unfolding instrument_fun_events [OF assms(4-6)] by simp
  have origin: "\<exists>j \<in> insns ?H. \<forall>k. call_class i = Some k \<longrightarrow> call_class j = Some k" if "i \<in> insns G" for i
    using replace_in_fun_insns replaced_class that unfolding G by blast
  have "\<not> calls heap_names i" if "i \<in> insns G" for i
    using origin [OF that] f unfolding calls_class(1) free_of_allocs_def by blast
  moreover have "\<not> calls checked_names i" if "i \<in> insns G"
    "\<not> skip_function fnm (fst (load_ignorelist rules)) (glob_match_any fnm (snd (load_ignorelist rules)) (source_file M)) F" for i
    using origin [OF that(1)] c(2) [OF _ that(2)] calls_class(2) [of i] by fastforce
  ultimately show ?thesis using e by blast
qed

definition demo_layout :: layout where
  "demo_layout = \<lparr>store_size = (\<lambda>t. case t of T_int n \<Rightarrow> of_nat (n div 8) | _ \<Rightarrow> 8),
     alloc_size = (\<lambda>t. case t of T_int n \<Rightarrow> of_nat (n div 8) | _ \<Rightarrow> 8), scalable = (\<lambda>t. False),
     base_of = (\<lambda>v. (v, 0))\<rparr>"

definition demo_insn :: "ir_op \<Rightarrow> ssa option \<Rightarrow> ir_insn" where
  "demo_insn x r = \<lparr>op = x, res = r, loc = Some (''a.c'', 3)\<rparr>"

definition demo_fun :: ir_fun where
  "demo_fun = \<lparr>fname = ''f'', is_declaration = False, no_instrument = True, body =
     [[demo_insn (I_Call (Direct ''malloc'') [V_Int T_i64 10] T_ptr) (Some (Id 1)),
       demo_insn (I_Call (Direct ''free'') [V_Reg (Id 1) T_ptr] T_void) None, demo_insn I_Ret None]]\<rparr>"

definition demo_module :: ir_module where
  "demo_module = \<lparr>source_file = ''a.c'', mglobals = [], mfuns = [demo_fun], registered = []\<rparr>"

theorem allocators_redirected_witness:
  "insns (mfuns (fst (run_safety demo_layout (=) None demo_module)) ! 0) \<subseteq> {i. \<not> calls heap_names i}
    \<and> map (List.map_filter heap_event) (body (mfuns (fst (run_safety demo_layout (=) None demo_module)) ! 0)) =
      [[(Get (V_Int T_i64 10), Some (Some (Id 1), V_Str ''a.c'', V_Int T_i32 3)), (Give_Back (V_Reg (Id 1) T_ptr), None)]]"
proof -
  have k: "0 < length (mfuns demo_module)" "mfuns demo_module ! 0 = demo_fun" by (simp_all add: demo_module_def)
  have d: "\<not> is_declaration demo_fun" "\<not> starts_with ''__redzone'' (fname demo_fun)" by (simp_all add: demo_fun_def starts_with_def)
  have c: "\<forall>i \<in> insns demo_fun. heap_event i = None \<and> (calls heap_names i \<longrightarrow> heap_request i \<noteq> None)"
    by (simp add: insns_def demo_fun_def demo_insn_def heap_event_def heap_request_def runtime_heap_def standard_heap_def calls_def
        operators heap_names_def)
  have r: "map (map replaced_event \<circ> List.map_filter heap_request) (body demo_fun) =
      [[(Get (V_Int T_i64 10), Some (Some (Id 1), V_Str ''a.c'', V_Int T_i32 3)), (Give_Back (V_Reg (Id 1) T_ptr), None)]]"
    by code_simp
  from allocators_redirected [OF k(1) k(2) [symmetric] refl d c, of demo_layout "(=)" None] show ?thesis unfolding r by blast
qed

section \<open>The emitted calls fit the runtime's signatures\<close>

definition conforms :: "ir_ty list \<Rightarrow> bool \<Rightarrow> ir_val list \<Rightarrow> bool" where
  "conforms ps va args \<longleftrightarrow>
     (if va then length ps \<le> length args else length args = length ps)
     \<and> list_all2 (\<lambda>p v. val_ty v = p) ps (take (length ps) args)"

text \<open>The call an instruction makes, the slow path of a check included.\<close>

fun call_of :: "ir_op \<Rightarrow> (string \<times> ir_val list \<times> ir_ty) option" where
  "call_of (I_Call (Direct n) args t) = Some (n, args, t)"
| "call_of (I_Check p n w f l) =
     Some (''__redzone_check'', [p, V_Int T_i64 (uint n), V_Int T_i32 (if w then 1 else 0), f, l], T_void)"
| "call_of x = None"

definition rt_typed :: "ir_op \<Rightarrow> bool" where
  "rt_typed x \<longleftrightarrow>
     (case call_of x of
        Some (n, args, t) \<Rightarrow>
          (case map_of runtime_sigs n of Some (r, ps, va) \<Rightarrow> t = r \<and> conforms ps va args | None \<Rightarrow> True)
      | None \<Rightarrow> True)"

text \<open>What the program's own calls of the library functions look like: \<open>None\<close> is a parameter of any type.\<close>

fun lib_sig :: "call_class \<Rightarrow> ir_ty option list" where
  "lib_sig C_malloc = [Some T_i64]"
| "lib_sig C_calloc = [Some T_i64, Some T_i64]"
| "lib_sig C_realloc = [Some T_ptr, Some T_i64]"
| "lib_sig C_free = [Some T_ptr]"
| "lib_sig C_aligned_alloc = [Some T_i64, Some T_i64]"
| "lib_sig C_posix_memalign = [Some T_ptr, Some T_i64, Some T_i64]"
| "lib_sig C_new = [Some T_i64]"
| "lib_sig C_aligned_new = [Some T_i64, Some T_i64]"
| "lib_sig C_delete = [Some T_ptr]"
| "lib_sig C_memcpy = [Some T_ptr, Some T_ptr, None]"
| "lib_sig C_memmove = [Some T_ptr, Some T_ptr, None]"
| "lib_sig C_memset = [Some T_ptr, None, None]"
| "lib_sig C_strcpy = [Some T_ptr, Some T_ptr]"
| "lib_sig C_strcat = [Some T_ptr, Some T_ptr]"
| "lib_sig C_strncpy = [Some T_ptr, Some T_ptr, None]"
| "lib_sig C_strncat = [Some T_ptr, Some T_ptr, None]"
| "lib_sig C_strlcpy = [Some T_ptr, Some T_ptr, None]"
| "lib_sig C_strlcat = [Some T_ptr, Some T_ptr, None]"
| "lib_sig C_snprintf = [Some T_ptr, None, Some T_ptr]"
| "lib_sig C_snprintf_chk = [Some T_ptr, None, None, None, Some T_ptr]"
| "lib_sig C_sprintf = [Some T_ptr, Some T_ptr]"
| "lib_sig C_sprintf_chk = [Some T_ptr, None, None, Some T_ptr]"

definition fits :: "ir_ty option list \<Rightarrow> ir_val list \<Rightarrow> bool" where
  "fits ps args \<longleftrightarrow> length ps \<le> length args
     \<and> list_all2 (\<lambda>p v. p = None \<or> p = Some (val_ty v)) ps (take (length ps) args)"

definition source_typed :: "ir_insn \<Rightarrow> bool" where
  "source_typed i \<longleftrightarrow> rt_typed (op i)
     \<and> (\<forall>c. call_class i = Some c \<longrightarrow> fits (lib_sig c) (call_args i)
          \<and> (c = C_free \<longrightarrow> length (call_args i) = 1))
     \<and> (case op i of
          I_Load p t at \<Rightarrow> val_ty p = T_ptr | I_Store p v at \<Rightarrow> val_ty p = T_ptr
        | I_Memcpy d s n \<Rightarrow> val_ty d = T_ptr \<and> val_ty s = T_ptr
        | I_Memmove d s n \<Rightarrow> val_ty d = T_ptr \<and> val_ty s = T_ptr
        | I_Memset d v n \<Rightarrow> val_ty d = T_ptr | _ \<Rightarrow> True)"

lemma fits_simps [simp]:
  "fits [] args"
  "fits (p # ps) args \<longleftrightarrow> (\<exists>v vs. args = v # vs \<and> (p = None \<or> p = Some (val_ty v)) \<and> fits ps vs)"
  by (cases args; auto simp: fits_def)+

lemma conforms_simps [simp]:
  "conforms [] va args \<longleftrightarrow> va \<or> args = []"
  "conforms (p # ps) va (v # vs) \<longleftrightarrow> val_ty v = p \<and> conforms ps va vs"
  by (cases va; auto simp: conforms_def)+

lemma rt_typed_call [simp]:
  "rt_typed (rz_call n args) \<longleftrightarrow>
    (case map_of runtime_sigs n of Some (r, ps, va) \<Rightarrow> conforms ps va args | None \<Rightarrow> True)"
  by (simp add: rt_typed_def rz_call_def sig_result_def split: option.split)

lemmas sigs = runtime_sigs_def

lemma redirect_alloc_typed:
  assumes "source_typed i"
  shows "rt_typed (op (fst (redirect_alloc i)))"
proof (cases "call_class i")
  case None
  then show ?thesis using assms by (simp add: redirect_alloc_def source_typed_def split_beta Let_def)
next
  case (Some c)
  with assms have f: "fits (lib_sig c) (call_args i)" "c = C_free \<longrightarrow> length (call_args i) = 1" "rt_typed (op i)"
    by (simp_all add: source_typed_def)
  from f show ?thesis
    by (cases c) (auto simp: redirect_alloc_def Some with_op_def emitted_def split_beta Let_def sigs length_Suc_conv
        simp del: call_args.simps)
qed

lemma redirect_memop_typed:
  assumes "source_typed i"
  shows "rt_typed (op (fst (redirect_memop i)))"
proof (cases "call_class i")
  case None
  have "rt_typed (op i)" using assms by (simp add: source_typed_def)
  then show ?thesis
    using assms None
    by (cases "op i") (simp_all add: redirect_memop_def source_typed_def emitted_def split_beta Let_def sigs)
next
  case (Some c)
  then obtain n a t where o: "op i = I_Call (Direct n) a t"
    by (auto simp: call_class_def split: ir_op.splits callee.splits)
  have f: "fits (lib_sig c) a" "rt_typed (op i)" using assms Some by (simp_all add: source_typed_def o)
  from f show ?thesis
    by (cases c) (auto simp: redirect_memop_def Some o with_op_def split_beta Let_def sigs)
qed

lemma redirected_source_typed:
  assumes "source_typed i"
  shows "source_typed (fst (redirect_alloc i))"
proof (cases "rz_insn (fst (redirect_alloc i))")
  case True
  then obtain n args where "op (fst (redirect_alloc i)) = rz_call n args" by (auto simp: rz_insn_def)
  then show ?thesis
    using redirect_alloc_typed [OF assms] rz_insn_class [OF True] by (simp add: source_typed_def rz_call_def)
next
  case False
  then show ?thesis using redirect_alloc_cases [of i] assms by auto
qed

lemma instrument_insn_typed:
  assumes "source_typed i" and "j \<in> set (fst (instrument_insn L slots (i, m)))"
  shows "rt_typed (op j)"
proof (cases "wrapped_alloca i")
  case (Some s)
  with assms show ?thesis
    by (auto simp: instrument_insn_def wrap_alloca_def emitted_def sigs rt_typed_def rz_call_def sig_result_def
        split: prod.splits)
next
  case None
  have t: "rt_typed (op i)" using assms by (simp add: source_typed_def)
  show ?thesis
  proof (cases "op i = I_Ret \<or> access_of i = None")
    case True
    with assms None t redirect_memop_typed [OF assms(1)] show ?thesis
      by (auto simp: instrument_insn_def leave_call_def emitted_def sigs split_beta split: if_splits)
  next
    case False
    then obtain p u w where a: "access_of i = Some (p, u, w)" by (metis not_Some_eq surj_pair)
    then have "val_ty p = T_ptr" using assms(1) by (auto simp: access_of_def source_typed_def split: ir_op.splits)
    with False a assms(2) None t show ?thesis
      by (auto simp: instrument_insn_def emit_check_def emitted_def split_beta Let_def rt_typed_def sigs
          split: mark.splits)
  qed
qed

text \<open>The pass keeps a well-typed program well typed: if every call of a library function has the
  arguments that function takes, then every call of the instrumented function to the runtime, those of
  the emitted checks included, has the number and the types of arguments and the result that the
  runtime's function is declared with; so have the calls of the constructor.\<close>

theorem emitted_calls_typed:
  assumes "\<forall>i \<in> insns F. source_typed i"
  shows "(\<forall>j \<in> insns (fst (instrument_fun L fnm pats ign F)). rt_typed (op j)) \<and> rt_typed (register_call r)"
proof
  have s: "source_typed i" if "i \<in> insns (fst (redirect_allocs F))" for i
    using redirect_allocs_insns [OF that] redirected_source_typed assms by blast
  show "\<forall>j \<in> insns (fst (instrument_fun L fnm pats ign F)). rt_typed (op j)"
  proof
    fix j assume j: "j \<in> insns (fst (instrument_fun L fnm pats ign F))"
    have b: "rt_typed (op j)" if "j \<in> insns (fst (instrument_body L (fst (redirect_allocs F))))"
      using instrument_body_insns [OF that] s instrument_insn_typed by blast
    have "source_typed j \<Longrightarrow> rt_typed (op j)" by (simp add: source_typed_def)
    then show "rt_typed (op j)"
      using j b s [of j] assms by (auto simp: instrument_fun_def split_beta Let_def split: if_splits)
  qed
  show "rt_typed (register_call r)" by (simp add: register_call_def sigs split: prod.split)
qed

theorem emitted_calls_typed_witness:
  "insns (fst (instrument_fun demo_layout (=) [] False demo_fun)) \<subseteq> {j. rt_typed (op j)}"
proof -
  have "\<forall>i \<in> insns demo_fun. source_typed i"
    by (simp add: insns_def demo_fun_def demo_insn_def source_typed_def rt_typed_def sigs call_class_def call_classes_def)
  from emitted_calls_typed [OF this] show ?thesis by blast
qed

end
