(* ===== verification/Pass_Redundant.thy ===== *)
theory Pass_Redundant
  imports Pass_Props
begin

text \<open>
  Redundant checks (\<^verbatim>\<open>checked\<close> in \<^verbatim>\<open>src/RedzonePass.cpp\<close>): a block is run with the kept checks only and
  with all of them, and the two runs end alike.
\<close>

section \<open>Running a block\<close>

text \<open>
  A block at run time: \<open>val\<close> gives the pointers their addresses, \<open>eff\<close> what each instruction itself
  does to the runtime's state. The inlined test goes first and the runtime is asked when it hits.
\<close>

definition loc_file :: "ir_insn \<Rightarrow> cstr" where
  "loc_file i = map_option fst (loc i)"

definition loc_line :: "ir_insn \<Rightarrow> int" where
  "loc_line i = (case loc i of Some (f, l) \<Rightarrow> l | None \<Rightarrow> 0)"

definition exec_check :: "sys \<Rightarrow> u64 \<Rightarrow> u64 \<Rightarrow> bool \<Rightarrow> cstr \<Rightarrow> int \<Rightarrow> rt \<Rightarrow> rt outcome" where
  "exec_check sys a n w f l s = (if inline_bad s a n then redzone_check sys a n w f l s else Done s)"

fun exec_block ::
  "sys \<Rightarrow> layout \<Rightarrow> (ir_val \<Rightarrow> u64) \<Rightarrow> (ir_insn \<Rightarrow> rt \<Rightarrow> rt outcome) \<Rightarrow> (ir_insn \<times> bool) list \<Rightarrow> rt \<Rightarrow> rt outcome"
where
  "exec_block sys L val eff [] s = Done s"
| "exec_block sys L val eff ((i, chk) # is) s =
     bindO (if chk then (case access_of i of
                Some (p, t, w) \<Rightarrow> exec_check sys (val p) (store_size L t) w (loc_file i) (loc_line i) s
              | None \<Rightarrow> Done s)
            else Done s)
       (\<lambda>s. bindO (eff i s) (\<lambda>s. exec_block sys L val eff is s))"

text \<open>The run with the checks the pass keeps, and the run that checks redundant accesses as well.\<close>

definition exec_kept ::
  "sys \<Rightarrow> layout \<Rightarrow> (ir_val \<Rightarrow> u64) \<Rightarrow> (ir_insn \<Rightarrow> rt \<Rightarrow> rt outcome) \<Rightarrow> ir_fun \<Rightarrow> ir_block \<Rightarrow> rt \<Rightarrow> rt outcome"
where
  "exec_kept sys L val eff F b s =
     exec_block sys L val eff (zip b (map (\<lambda>m. m = Keep) (mark_block L F b (\<lambda>p. 0)))) s"

definition exec_all ::
  "sys \<Rightarrow> layout \<Rightarrow> (ir_val \<Rightarrow> u64) \<Rightarrow> (ir_insn \<Rightarrow> rt \<Rightarrow> rt outcome) \<Rightarrow> ir_fun \<Rightarrow> ir_block \<Rightarrow> rt \<Rightarrow> rt outcome"
where
  "exec_all sys L val eff F b s =
     exec_block sys L val eff (zip b (map (\<lambda>i. \<not> safe_access L F i) b)) s"

text \<open>
  Where a block accesses one pointer with different sizes, these are at most 17 bytes and the only
  poison they can meet is that of recorded blocks.
\<close>

definition accesses :: "layout \<Rightarrow> ir_block \<Rightarrow> (ir_val \<times> u64) set" where
  "accesses L b = {a. \<exists>i \<in> set b. access_info L i = Some a}"

definition mixed_ok :: "layout \<Rightarrow> (ir_val \<Rightarrow> u64) \<Rightarrow> ir_block \<Rightarrow> rt \<Rightarrow> bool" where
  "mixed_ok L val b s \<longleftrightarrow> (\<forall>p m n. (p, m) \<in> accesses L b \<longrightarrow> (p, n) \<in> accesses L b \<longrightarrow> n < m \<longrightarrow>
     unat m \<le> 17 \<and> (\<forall>x. unat (val p) \<le> unat x \<longrightarrow> unat x < unat (val p) + unat m \<longrightarrow> poisoned s x \<longrightarrow>
       (\<exists>bl \<in> set (blocks s). in_block bl (unat x))))"

definition in_range :: "layout \<Rightarrow> (ir_val \<Rightarrow> u64) \<Rightarrow> ir_block \<Rightarrow> bool" where
  "in_range L val b \<longleftrightarrow> (\<forall>(p, n) \<in> accesses L b. 0 < unat n \<and> unat (val p) + unat n \<le> 140737488355328)"

definition tame :: "layout \<Rightarrow> (ir_val \<Rightarrow> u64) \<Rightarrow> ir_block \<Rightarrow> (ir_insn \<Rightarrow> rt \<Rightarrow> rt outcome) \<Rightarrow> bool" where
  "tame L val b eff \<longleftrightarrow> (\<forall>i s s'. heap_wf s \<longrightarrow> mixed_ok L val b s \<longrightarrow> eff i s = Done s' \<longrightarrow>
     heap_wf s' \<and> mixed_ok L val b s' \<and> (\<not> is_call i \<longrightarrow> shadow s' = shadow s))"

interpretation ic: access_check "exec_check sys" "\<lambda>a n. 0 < unat n \<and> unat a + unat n \<le> 140737488355328" clean_ends for sys
proof unfold_locales
  fix sys s and a n :: u64 and w f l
  assume wf: "heap_wf s" and r: "0 < unat n \<and> unat a + unat n \<le> 140737488355328"
  have b: "inline_bad s a n \<longleftrightarrow> \<not> clean_ends s a n" using inline_bad_iff [of n a s] r by (simp add: clean_ends_def)
  have "n \<noteq> 0" using r by auto
  then show "clean_ends s a n \<Longrightarrow> exec_check sys a n w f l s = Done s"
    "\<not> clean_ends s a n \<Longrightarrow> exec_check sys a n w f l s = Halt (Report (check_report s a n w f l))"
    using rc.stops [OF wf TrueI, of n a] by (simp_all add: exec_check_def b)
qed

lemma poisoned_shadow: "shadow s' = shadow s \<Longrightarrow> poisoned s' x = poisoned s x"
  by (simp add: poisoned_def shadow_val_def shadow_at_def)

text \<open>A passed check of a larger access covers a smaller one at the same pointer.\<close>

lemma larger_covers:
  assumes wf: "heap_wf s" and mx: "mixed_ok L val b s" and r: "in_range L val b"
    and m: "(p, m) \<in> accesses L b" and n: "(p, n) \<in> accesses L b" and nm: "n \<le> m"
    and cl: "clean_ends s (val p) m"
  shows "clean_ends s (val p) n"
proof (cases "n = m")
  case False
  let ?a = "val p" let ?x = "?a + n - 1"
  have lt: "n < m" using False nm by simp
  have rm: "0 < unat m" "unat ?a + unat m \<le> 140737488355328" and rn: "0 < unat n" "unat ?a + unat n \<le> 140737488355328"
    using r m n by (auto simp: in_range_def)
  have x: "unat ?x = unat ?a + unat n - 1" using rn by (intro last_byte) simp_all
  have un: "unat n < unat m" using lt by (simp add: word_less_nat_alt)
  have lo: "unat ?a \<le> unat ?x" and hi: "unat ?x < unat ?a + unat m" using x un rn by simp_all
  have m17: "unat m \<le> 17" and inb: "poisoned s ?x \<Longrightarrow> \<exists>bl \<in> set (blocks s). in_block bl (unat ?x)"
    using mx [unfolded mixed_ok_def, rule_format, OF m n lt] lo hi by blast+
  have h: "reserved s" "\<not> lock_held s" using heap_wfD [OF wf] by auto
  have ok: "redzone_check sys ?a m w f l s = Done s" for sys w f l
    using cl by (simp add: redzone_check_eq [OF h] clean_ends_def)
  have "\<not> poisoned s ?x"
  proof
    assume p: "poisoned s ?x"
    then obtain bl where bl: "bl \<in> set (blocks s)" "in_block bl (unat ?x)" using inb by blast
    have nw: "unat ?a + unat m \<le> 18446744073709551616" using rm by simp
    from check_no_skip [OF wf ok rm(1) m17 nw bl(1) lo hi bl(2)]
    have "\<not> freed bl \<and> in_user bl (unat ?x)" .
    then show False
      using poisoned_in_block [OF heap_wfD(5) [OF wf] bl(1) _ bl(2)] heap_wfD(6) [OF wf] bl(1) p by blast
  qed
  then show ?thesis using cl by (simp add: clean_ends_def)
qed (use cl in simp)

text \<open>What the walk knows: each remembered size was checked at that pointer, with clean ends.\<close>

definition known_clean :: "layout \<Rightarrow> (ir_val \<Rightarrow> u64) \<Rightarrow> ir_block \<Rightarrow> (ir_val \<Rightarrow> u64) \<Rightarrow> rt \<Rightarrow> bool" where
  "known_clean L val b checked s \<longleftrightarrow>
     (\<forall>p. checked p \<noteq> 0 \<longrightarrow> (p, checked p) \<in> accesses L b \<and> clean_ends s (val p) (checked p))"

lemma access_info_SomeD:
  "access_info L i = Some (p, n) \<Longrightarrow> \<exists>t w. access_of i = Some (p, t, w) \<and> n = store_size L t"
  by (auto simp: access_info_def split: option.splits if_splits)

lemma exec_marks:
  assumes r: "in_range L val b" and tm: "tame L val b eff"
    and sc: "\<forall>i \<in> set b. access_of i \<noteq> None \<longrightarrow> access_info L i \<noteq> None"
  shows "set is \<subseteq> set b \<Longrightarrow> heap_wf s \<Longrightarrow> mixed_ok L val b s \<Longrightarrow> known_clean L val b checked s \<Longrightarrow>
    exec_block sys L val eff (zip is (map (\<lambda>m. m = Keep) (mark_block L F is checked))) s =
    exec_block sys L val eff (zip is (map (\<lambda>i. \<not> safe_access L F i) is)) s"
proof (induction "is" arbitrary: s checked)
  case (Cons i "is")
  note wf = Cons.prems(2) and mx = Cons.prems(3) and kn = Cons.prems(4)
  let ?k = "\<lambda>c. exec_block sys L val eff (zip is (map (\<lambda>m. m = Keep) (mark_block L F is c)))"
  let ?all = "exec_block sys L val eff (zip is (map (\<lambda>i. \<not> safe_access L F i) is))"
  have IH: "heap_wf s' \<Longrightarrow> mixed_ok L val b s' \<Longrightarrow> known_clean L val b c s' \<Longrightarrow> ?k c s' = ?all s'" for c s'
    using Cons.IH Cons.prems(1) by simp
  have step: "bindO (eff i s) (?k c) = bindO (eff i s) ?all"
    if "is_call i \<longrightarrow> c = (\<lambda>p. 0)" "\<not> is_call i \<longrightarrow> known_clean L val b c s" for c
  proof (cases "eff i s")
    case (Done s')
    have t: "heap_wf s'" "mixed_ok L val b s'" "\<not> is_call i \<Longrightarrow> shadow s' = shadow s"
      using tm wf mx Done unfolding tame_def by blast+
    have "known_clean L val b c s'"
      using that t(3) poisoned_shadow [of s' s] by (cases "is_call i") (simp_all add: known_clean_def clean_ends_def)
    then show ?thesis using Done IH [OF t(1,2)] by simp
  qed simp
  have same: "\<not> is_call i" if "access_of i = Some x" for x
    using that by (auto simp: access_of_def is_call_def split: ir_op.splits)
  show ?case
  proof (cases "is_call i \<or> access_of i = None")
    case True
    then have a: "access_of i = None" using same by (cases "access_of i") auto
    then have "access_info L i = None" "\<not> safe_access L F i"
      by (simp_all add: access_info_def safe_access_def)
    then show ?thesis
      using step [of "if is_call i then (\<lambda>p. 0) else checked"] kn a by (cases "is_call i") simp_all
  next
    case False
    then obtain p n where ai: "access_info L i = Some (p, n)" using sc Cons.prems(1) by auto
    then obtain t w where a: "access_of i = Some (p, t, w)" "n = store_size L t" using access_info_SomeD by blast
    have mem: "(p, n) \<in> accesses L b" using ai Cons.prems(1) by (auto simp: accesses_def)
    then have rn: "0 < unat n" "unat (val p) + unat n \<le> 140737488355328" using r by (auto simp: in_range_def)
    let ?chk = "exec_check sys (val p) n w (loc_file i) (loc_line i) s"
    note ok = ic.passes [OF wf conjI [OF rn]] and halt = ic.stops [OF wf conjI [OF rn]]
    show ?thesis
    proof (cases "safe_access L F i")
      case True
      then show ?thesis using step [of checked] kn False ai by simp
    next
      case ns: False
      show ?thesis
      proof (cases "checked p \<ge> n \<and> checked p \<noteq> 0")
        case True
        then have "clean_ends s (val p) n"
          using larger_covers [OF wf mx r _ mem] kn by (auto simp: known_clean_def)
        then have "?chk = Done s" by (rule ok)
        then show ?thesis using step [of checked] True kn False ai ns a by simp
      next
        case nr: False
        have "n \<noteq> 0" using rn(1) by auto
        then have gt: "n > checked p" using nr by (metis not_less word_gt_0)
        show ?thesis
        proof (cases "clean_ends s (val p) n")
          case True
          then have "?chk = Done s" by (rule ok)
          moreover have "known_clean L val b (checked(p := n)) s"
            using kn mem True by (simp add: known_clean_def)
          ultimately show ?thesis using step [of "checked(p := n)"] nr gt False ai ns a by (auto dest: leD)
        next
          case bad: False
          obtain h where "?chk = Halt h" using halt [OF bad] by blast
          then show ?thesis using nr gt False ai ns a by (auto dest: leD)
        qed
      qed
    qed
  qed
qed simp

text \<open>C28. Leaving out the redundant checks changes nothing: in a block whose accesses lie below the shadow
  limit, the run with only the kept checks ends as the run that checks the redundant accesses too, with
  the same report if there is one, whatever the calls in the block do to the heap. Accesses of
  different sizes through one pointer must be at most 17 bytes and meet no other poison than that of
  heap blocks; with one size per pointer nothing is asked.\<close>

theorem redundant_checks_sound:
  assumes "heap_wf s" and "mixed_ok L val b s" and "in_range L val b" and "tame L val b eff"
    and "\<forall>i \<in> set b. access_of i \<noteq> None \<longrightarrow> access_info L i \<noteq> None"
  shows "exec_kept sys L val eff F b s = exec_all sys L val eff F b s"
  unfolding exec_kept_def exec_all_def
  by (rule exec_marks [OF assms(3-5) subset_refl assms(1,2)]) (simp add: known_clean_def)

text \<open>A block that reads one word twice, frees it and reads it again.\<close>

definition demo_block_code :: ir_block where
  "demo_block_code =
     [demo_insn (I_Load (V_Reg (Id 1) T_ptr) T_i64 False) (Some (Id 2)),
      demo_insn (I_Load (V_Reg (Id 1) T_ptr) T_i64 False) (Some (Id 3)),
      demo_insn (I_Call (Direct ''free'') [V_Reg (Id 1) T_ptr] T_void) None,
      demo_insn (I_Load (V_Reg (Id 1) T_ptr) T_i64 False) (Some (Id 4))]"

definition demo_eff :: "sys \<Rightarrow> ir_insn \<Rightarrow> rt \<Rightarrow> rt outcome" where
  "demo_eff sys i s = (if is_call i then redzone_free sys 4112 s else Done s)"

theorem redundant_checks_sound_witness:
  "exec_kept (demo_sys 0) demo_layout (\<lambda>p. 4112) (demo_eff (demo_sys 0)) demo_fun demo_block_code started
    = exec_all (demo_sys 0) demo_layout (\<lambda>p. 4112) (demo_eff (demo_sys 0)) demo_fun demo_block_code started
   \<and> map (\<lambda>m. m = Keep) (mark_block demo_layout demo_fun demo_block_code (\<lambda>p. 0)) = [True, False, True, True]"
proof -
  let ?b = demo_block_code
  have acc: "accesses demo_layout ?b = {(V_Reg (Id 1) T_ptr, 8)}"
    by (auto simp: accesses_def demo_block_code_def demo_insn_def access_info_def access_of_def demo_layout_def)
  have mx: "mixed_ok demo_layout (\<lambda>p. 4112) ?b s" for s by (simp add: mixed_ok_def acc)
  have r: "in_range demo_layout (\<lambda>p. 4112) ?b" by (simp add: in_range_def acc)
  have t: "tame demo_layout (\<lambda>p. 4112) ?b (demo_eff (demo_sys 0))"
    using free_good by (auto simp: tame_def demo_eff_def mx good_step_def split: if_splits)
  have sc: "\<forall>i \<in> set ?b. access_of i \<noteq> None \<longrightarrow> access_info demo_layout i \<noteq> None"
    by (simp add: demo_block_code_def demo_insn_def access_info_def access_of_def demo_layout_def)
  have "map (\<lambda>m. m = Keep) (mark_block demo_layout demo_fun ?b (\<lambda>p. 0)) = [True, False, True, True]"
    by (simp add: demo_block_code_def demo_insn_def is_call_def safe_access_def access_info_def access_of_def
        demo_layout_def provably_safe_alloca_def find_alloca_def demo_fun_def)
  with redundant_checks_sound [OF started_wf mx r t sc] show ?thesis by blast
qed

end
