(* ===== verification/Pass_Layout.thy ===== *)
theory Pass_Layout
  imports Pass_Redundant
begin

text \<open>
  The layout the pass gives to stack objects and globals, against what the runtime poisons for them:
  the red zones lie inside the enlarged object, the data is clean, and an access the pass proves to be
  inside a stack object cannot be reported.
\<close>

section \<open>Stack objects\<close>

lemma round8: "(n + 7) div 8 * 8 = n + (8 - n mod 8) mod 8" for n :: nat
proof -
  obtain q r where n: "n = 8 * q + r" "r < 8" by (metis mod_div_decomp mod_less_divisor mult.commute zero_less_numeral)
  have d: "(n + 7) div 8 = q + (r + 7) div 8" using div_mult_self4 [of 8 q "r + 7"] by (simp add: n(1) add.assoc)
  have m: "n mod 8 = r" using n by simp
  from n(2) consider "r = 0" | "0 < r" "(r + 7) div 8 = 1" by fastforce
  then show ?thesis unfolding d m using n by cases simp_all
qed

lemma unat_frame_size:
  assumes "unat sz + 39 < 18446744073709551616"
  shows "unat (frame_size sz) = 32 + (unat sz + 7) div 8 * 8"
proof -
  have "unat (sz + 7) = unat sz + 7" using assms by (simp add: unat_plus64)
  then have m: "unat ((sz + 7) AND NOT 7) = (unat sz + 7) div 8 * 8" by (simp only: unat_and_not7)
  have le: "(unat sz + 7) div 8 * 8 \<le> unat sz + 7" by simp
  have "unat (16 + ((sz + 7) AND NOT 7)) = 16 + (unat sz + 7) div 8 * 8"
    using m le assms by (subst unat_plus64) simp_all
  then show ?thesis unfolding frame_size_def kRedzone_def using m le assms by (subst unat_plus64) simp_all
qed

lemma in_objectD:
  assumes "in_object off obj sz" and "0 < unat sz"
  shows "unat (word_of_int off :: u64) + unat sz \<le> unat obj"
proof -
  let ?o = "word_of_int off :: u64"
  have "?o \<le> obj" "sz \<le> obj - ?o" using assms by (auto simp: in_object_def Let_def)
  then show ?thesis by (simp add: word_le_nat_alt unat_minus64)
qed

text \<open>C30. An access the pass leaves unchecked because it lies inside a stack object is never reported:
  once the function's entry code has set up the frame, the check of that access passes. And entering
  the frame changes no shadow outside the enlarged object the pass reserved for it.\<close>

theorem safe_access_in_frame:
  assumes safe: "provably_safe_alloca L F q sz" and base: "base_of L q = (bv, off)"
    and obj: "find_alloca F bv = Some (True, Some obj)"
    and wf: "heap_wf s" and ok: "slot_ok fb obj" and enter: "redzone_stack_enter sys fb obj s = Done s1"
    and sz: "0 < unat sz"
  shows "redzone_check sys' (fb + kRedzone + word_of_int off) sz w l n s1 = Done s1
    \<and> (shadow_val s1 x \<noteq> shadow_val s x \<longrightarrow>
        unat fb \<le> unat x \<and> unat x < unat fb + unat (frame_size obj))"
proof
  let ?o = "word_of_int off :: u64" let ?a = "fb + kRedzone + ?o"
  note h = heap_wfD [OF wf]
  have s1: "s1 = stack_frame s fb obj" using enter h(1) by (simp add: stack_enter_eq)
  have lim: "unat fb + unat obj + 32 \<le> 140737488355328" using ok by (simp add: slot_ok_def)
  have o: "unat ?o + unat sz \<le> unat obj"
    using safe base obj sz by (intro in_objectD) (simp_all add: provably_safe_alloca_def)
  have "unat (fb + 16) = unat fb + 16" using lim by (simp add: unat_plus64)
  then have a: "unat ?a = unat fb + 16 + unat ?o"
    unfolding kRedzone_def using lim o by (subst unat_plus64) simp_all
  have last: "unat (?a + sz - 1) = unat ?a + unat sz - 1" using sz a lim o by (intro last_byte) simp_all
  have r: "reserved s1" "\<not> lock_held s1" using h by (simp_all add: s1 stack_frame_def)
  have "\<not> poisoned s1 ?a" unfolding s1
    using a o sz by (subst stack_frame_poison [OF h(1) ok]) simp_all
  moreover have "\<not> poisoned s1 (?a + sz - 1)" unfolding s1
    using a o sz last by (subst stack_frame_poison [OF h(1) ok]) simp_all
  ultimately show "redzone_check sys' ?a sz w l n s1 = Done s1" by (simp add: redzone_check_eq [OF r])
  show "shadow_val s1 x \<noteq> shadow_val s x \<longrightarrow> unat fb \<le> unat x \<and> unat x < unat fb + unat (frame_size obj)"
  proof
    assume ch: "shadow_val s1 x \<noteq> shadow_val s x"
    then have c: "unat fb div 8 \<le> unat x div 8" "unat x div 8 < (unat fb + unat obj + 39) div 8"
      using stack_frame_outside [OF h(1) ok, of x] unfolding s1 by (metis not_less)+
    have m: "unat fb mod 8 = 0" by (rule slot_okD(1) [OF ok])
    then obtain k where k: "unat fb = 8 * k" by (rule mod8_0E)
    have lo: "unat fb \<le> unat x" using c(1) unfolding k by simp
    have "(unat fb + unat obj + 39) div 8 = k + 4 + (unat obj + 7) div 8"
      unfolding k by simp
    then have "unat x < 8 * (k + 4 + (unat obj + 7) div 8)" using c(2) by (simp add: div_less_iff_less_mult mult.commute)
    then show "unat fb \<le> unat x \<and> unat x < unat fb + unat (frame_size obj)"
      using lo lim by (simp add: unat_frame_size k)
  qed
qed

definition demo_frame_fun :: ir_fun where
  "demo_frame_fun = \<lparr>fname = ''g'', is_declaration = False, no_instrument = False, body =
     [[demo_insn (I_Alloca True (Some 8) 8) (Some (Id 1)),
       demo_insn (I_Load (V_Reg (Id 1) T_ptr) T_i32 False) (Some (Id 2)), demo_insn I_Ret None]]\<rparr>"

theorem safe_access_in_frame_witness:
  "redzone_check (demo_sys 0) (8192 + kRedzone + word_of_int 4) 4 False None 0 (stack_frame started 8192 8)
    = Done (stack_frame started 8192 8)"
proof -
  let ?L = "demo_layout\<lparr>base_of := (\<lambda>v. (v, 4))\<rparr>" let ?q = "V_Reg (Id 1) T_ptr"
  have f: "find_alloca demo_frame_fun ?q = Some (True, Some 8)"
    by (simp add: find_alloca_def demo_frame_fun_def demo_insn_def)
  have safe: "provably_safe_alloca ?L demo_frame_fun ?q 4"
    by (simp add: provably_safe_alloca_def f [unfolded One_nat_def] in_object_def)
  have base: "base_of ?L ?q = (?q, 4)" by simp
  have ok: "slot_ok 8192 8" by (simp add: slot_ok_def)
  have e: "redzone_stack_enter (demo_sys 0) 8192 8 started = Done (stack_frame started 8192 8)"
    by (rule stack_enter_eq) (rule heap_wfD(1) [OF started_wf])
  from safe_access_in_frame [OF safe base f started_wf ok e] show ?thesis by simp
qed

section \<open>Globals\<close>

text \<open>Size of a field, offset of the data field, and size of the wrapped object, laid out one after the
  other as the compiler does for byte arrays around 16-aligned data.\<close>

fun field_size :: "u64 \<Rightarrow> gfield \<Rightarrow> nat" where
  "field_size sz (Zone n) = unat n"
| "field_size sz Data = unat sz"

definition data_offset :: "u64 \<Rightarrow> ir_global \<Rightarrow> nat" where
  "data_offset sz g = sum_list (map (field_size sz) (take (data_field g) (gfields g)))"

definition object_size :: "u64 \<Rightarrow> ir_global \<Rightarrow> nat" where
  "object_size sz g = sum_list (map (field_size sz) (gfields g))"

lemma unat_pad: "unat ((8 - s mod 8) mod 8 :: u64) = (8 - unat s mod 8) mod 8"
proof -
  have "unat (s mod 8) = unat s mod 8" by (simp add: unat_mod)
  moreover from this have "unat (8 - s mod 8) = 8 - unat s mod 8" by (simp add: unat_minus64)
  ultimately show ?thesis by (simp add: unat_mod)
qed

lemma wrap_global_layout:
  "data_offset (alloc_size L (gtype g)) (wrap_global L g ext) = (if ext then 0 else 16)"
  "object_size (alloc_size L (gtype g)) (wrap_global L g ext) =
    (if ext then 0 else 16) + (unat (alloc_size L (gtype g)) + 7) div 8 * 8 + 16"
  "\<exists>al. galign (wrap_global L g ext) = Some al \<and> 16 \<le> al"
proof -
  let ?s = "alloc_size L (gtype g)"
  have p: "unat (16 + (8 - ?s mod 8) mod 8 :: u64) = 16 + (8 - unat ?s mod 8) mod 8"
    using unat_pad [of ?s] by (subst unat_plus64) simp_all
  show "data_offset ?s (wrap_global L g ext) = (if ext then 0 else 16)"
    by (simp add: wrap_global_def data_offset_def kRedzone_def Let_def)
  show "object_size ?s (wrap_global L g ext) = (if ext then 0 else 16) + (unat ?s + 7) div 8 * 8 + 16"
    using p round8 [of "unat ?s"] by (simp add: wrap_global_def object_size_def kRedzone_def Let_def)
  show "\<exists>al. galign (wrap_global L g ext) = Some al \<and> 16 \<le> al"
    by (simp add: wrap_global_def kRedzone_def Let_def)
qed

lemma chunks_within:
  assumes "(a :: nat) mod 8 = 0" and "a div 8 \<le> x div 8" and "x div 8 < (a + n + k * 8 + 7) div 8"
  shows "a \<le> x" and "x < a + k * 8 + (n + 7) div 8 * 8"
proof -
  obtain q where a: "a = 8 * q" using assms(1) by (rule mod8_0E)
  show "a \<le> x" using assms(2) unfolding a by simp
  have "(a + n + k * 8 + 7) div 8 = q + k + (n + 7) div 8"
  proof -
    have "a + n + k * 8 + 7 = 8 * (q + k) + (n + 7)" unfolding a by simp
    then show ?thesis by (simp only: div_mult_self4)
  qed
  then show "x < a + k * 8 + (n + 7) div 8 * 8"
    using assms(3) unfolding a by (simp add: div_less_iff_less_mult mult.commute)
qed

text \<open>The two layouts: red zones behind the data only, and on both sides.\<close>

lemma right_guard:
  assumes r: "reserved s" and m8: "unat adr mod 8 = 0" and l: "unat adr + unat sz + 16 \<le> 140737488355328"
  shows "shadow_val (global_right_frame s adr sz) x \<noteq> shadow_val s x \<Longrightarrow>
      unat adr \<le> unat x \<and> unat x < unat adr + 16 + (unat sz + 7) div 8 * 8"
    and "unat adr \<le> unat x \<Longrightarrow> unat x < unat adr + unat sz + 16 \<Longrightarrow>
      poisoned (global_right_frame s adr sz) x \<longleftrightarrow> unat adr + unat sz \<le> unat x"
proof -
  show "unat adr \<le> unat x \<and> unat x < unat adr + 16 + (unat sz + 7) div 8 * 8"
    if ch: "shadow_val (global_right_frame s adr sz) x \<noteq> shadow_val s x"
  proof -
    have e: "(unat adr + unat sz) div 8 = unat adr div 8 + unat sz div 8"
      using m8 by (elim mod8_0E) (simp add: div_mult_self4)
    have f: "unat adr div 8 + unat sz div 8 < (unat adr + unat sz + 23) div 8"
      using m8 by (elim mod8_0E) (simp add: div_less_iff_less_mult)
    have c: "unat adr div 8 \<le> unat x div 8" "unat x div 8 < (unat adr + unat sz + 23) div 8"
      using ch e f unfolding shadow_global_right [OF r m8 l] by (auto split: if_splits)
    have "unat adr + unat sz + 2 * 8 + 7 = unat adr + unat sz + 23" by simp
    with c(2) have "unat x div 8 < (unat adr + unat sz + 2 * 8 + 7) div 8" by (simp only:)
    from chunks_within [OF m8 c(1) this] show ?thesis by simp
  qed
  show "poisoned (global_right_frame s adr sz) x \<longleftrightarrow> unat adr + unat sz \<le> unat x"
    if "unat adr \<le> unat x" "unat x < unat adr + unat sz + 16"
    by (rule global_right_poison [OF r m8 l that])
qed

lemma full_guard:
  assumes r: "reserved s" and gok: "global_ok data sz" and d: "unat data = unat adr + 16" "data - 16 = adr"
    and m8: "unat adr mod 8 = 0"
  shows "shadow_val (global_frame s data sz) x \<noteq> shadow_val s x \<Longrightarrow>
      unat adr \<le> unat x \<and> unat x < unat adr + 32 + (unat sz + 7) div 8 * 8"
    and "unat adr \<le> unat x \<Longrightarrow> unat x < unat data + unat sz + 16 \<Longrightarrow>
      poisoned (global_frame s data sz) x \<longleftrightarrow> \<not> (unat data \<le> unat x \<and> unat x < unat data + unat sz)"
proof -
  show "unat adr \<le> unat x \<and> unat x < unat adr + 32 + (unat sz + 7) div 8 * 8"
    if ch: "shadow_val (global_frame s data sz) x \<noteq> shadow_val s x"
  proof -
    have "\<not> (unat x div 8 < unat adr div 8 \<or> (unat adr + unat sz + 39) div 8 \<le> unat x div 8)"
      using global_frame_outside [OF r gok, of x] ch unfolding d(2) by blast
    then have c: "unat adr div 8 \<le> unat x div 8" "unat x div 8 < (unat adr + unat sz + 39) div 8" by simp_all
    have "unat adr + unat sz + 4 * 8 + 7 = unat adr + unat sz + 39" by simp
    with c(2) have "unat x div 8 < (unat adr + unat sz + 4 * 8 + 7) div 8" by (simp only:)
    from chunks_within [OF m8 c(1) this] show ?thesis by simp
  qed
  show "poisoned (global_frame s data sz) x \<longleftrightarrow> \<not> (unat data \<le> unat x \<and> unat x < unat data + unat sz)"
    if "unat adr \<le> unat x" "unat x < unat data + unat sz + 16"
    by (rule global_frame_poison [OF r gok]) (use that d(1) in simp_all)
qed

text \<open>C37. The red zones of a wrapped global lie inside the object the pass made for it: registering the
  global at startup changes no shadow outside that object, leaves its data clean and poisons the zone
  behind the data and, for a global with internal linkage, the zone before it, whatever its size is.\<close>

theorem wrapped_global_guarded:
  assumes el: "eligible_global L g = Some ext" and wf: "heap_wf s"
    and al: "unat adr mod 16 = 0" and sz: "sz = alloc_size L (gtype g)"
    and lim: "unat adr + object_size sz (wrap_global L g ext) \<le> 140737488355328"
    and data: "data = adr + of_nat (data_offset sz (wrap_global L g ext))"
    and reg: "(if ext then redzone_global_register_right sys data sz s else redzone_global_register sys data sz s) = Done s1"
  shows "(shadow_val s1 x \<noteq> shadow_val s x \<longrightarrow>
        unat adr \<le> unat x \<and> unat x < unat adr + object_size sz (wrap_global L g ext))
    \<and> (unat adr \<le> unat x \<longrightarrow> unat x < unat data + unat sz + 16 \<longrightarrow>
        poisoned s1 x = (\<not> (unat data \<le> unat x \<and> unat x < unat data + unat sz)))"
proof -
  note h = heap_wfD [OF wf]
  note lay = wrap_global_layout [of L g ext, folded sz]
  have m8: "unat adr mod 8 = 0" using al by presburger
  have up: "unat sz \<le> (unat sz + 7) div 8 * 8" using round8 [of "unat sz"] by simp
  show ?thesis
  proof (cases ext)
    case True
    have d: "data = adr" using data lay(1) True by simp
    have l: "unat adr + unat sz + 16 \<le> 140737488355328" using lim up lay(2) True by simp
    have "s1 = global_right_frame s adr sz" using reg True h(1) by (simp add: global_register_right_eq d)
    then show ?thesis using right_guard [OF h(1) m8 l, of x] lay(2) True d by auto
  next
    case False
    have l: "unat adr + unat sz + 32 \<le> 140737488355328" using lim up lay(2) False by simp
    have d: "data = adr + 16" using data lay(1) False by simp
    then have ud: "unat data = unat adr + 16" using l by (simp add: unat_plus64)
    have gok: "global_ok data sz" unfolding global_ok_def ud using al l by presburger
    have da: "data - 16 = adr" by (simp add: d)
    have "s1 = global_frame s data sz" using reg False h(1) by (simp add: global_register_eq)
    then show ?thesis using full_guard [OF h(1) gok ud da m8, of x] lay(2) False by auto
  qed
qed

definition demo_global :: ir_global where
  "demo_global = \<lparr>gname = ''table'', glinkage = Local_Linkage, gdeclaration = False, gconstant = False,
     gthread_local = False, ginitializer = True, gsection = False, gcomdat = False,
     gexternally_initialized = False, gsized = True, gtype = T_int 40, galign = None, gfields = [Data],
     data_field = 0, ginit = []\<rparr>"

theorem wrapped_global_guarded_witness:
  "poisoned (global_frame started 8208 5) 8213 \<and> \<not> poisoned (global_frame started 8208 5) 8212
    \<and> poisoned (global_frame started 8208 5) 8207"
proof -
  let ?g = "wrap_global demo_layout demo_global False"
  have el: "eligible_global demo_layout demo_global = Some False"
    by (simp add: eligible_global_def demo_global_def demo_layout_def starts_with_def)
  have sz: "(5 :: u64) = alloc_size demo_layout (gtype demo_global)"
    by (simp add: demo_layout_def demo_global_def)
  note lay = wrap_global_layout [of demo_layout demo_global False, folded sz]
  have lim: "unat (8192 :: u64) + object_size 5 ?g \<le> 140737488355328" by (simp add: lay)
  have data: "(8208 :: u64) = 8192 + of_nat (data_offset 5 ?g)" by (simp add: lay)
  have reg: "(if False then redzone_global_register_right sys 8208 5 started
      else redzone_global_register sys 8208 5 started) = Done (global_frame started 8208 5)" for sys
    using heap_wfD(1) [OF started_wf] by (simp add: global_register_eq)
  note t = wrapped_global_guarded [OF el started_wf _ sz lim data reg]
  show ?thesis using t [of 8213] t [of 8212] t [of 8207] by simp
qed

end
