(* ===== verification/Pass_Race_Props.thy ===== *)
theory Pass_Race_Props
  imports Pass_Layout
begin

text \<open>
  Race mode: no synchronization call escapes the redirection, every plain access has its hook right
  before it, and apart from the hooks and the renamed calls the program is as it was.
\<close>

section \<open>Hooks\<close>

definition hook_name :: "string \<Rightarrow> bool" where
  "hook_name n \<longleftrightarrow> n \<in> {''rz_rt_read'', ''rz_rt_write'', ''rz_rt_atomic_acquire'', ''rz_rt_atomic_release''}"

definition is_hook :: "ir_insn \<Rightarrow> bool" where
  "is_hook i \<longleftrightarrow> (case op i of I_Call (Direct n) args t \<Rightarrow> hook_name n | _ \<Rightarrow> False)"

lemma is_hook_emitted [simp]: "is_hook (emitted i (race_call n args)) \<longleftrightarrow> hook_name n"
  by (simp add: is_hook_def emitted_def race_call_def)

lemma hook_names [simp]:
  "hook_name ''rz_rt_read''" "hook_name ''rz_rt_write''" "hook_name ''rz_rt_atomic_acquire''"
  "hook_name ''rz_rt_atomic_release''"
  by (simp_all add: hook_name_def)

text \<open>The access a hook announces: what \<^verbatim>\<open>rz_rt_read\<close> or \<^verbatim>\<open>rz_rt_write\<close> is told.\<close>

definition plain_access :: "layout \<Rightarrow> ir_insn \<Rightarrow> (ir_val \<times> u64 \<times> bool) option" where
  "plain_access L i =
     (case op i of
        I_Load p t False \<Rightarrow> if scalable L t then None else Some (p, store_size L t, False)
      | I_Store p v False \<Rightarrow>
          if scalable L (val_ty v) then None else Some (p, store_size L (val_ty v), True)
      | _ \<Rightarrow> None)"





lemma plain_access_call [simp]: "plain_access L (emitted i (race_call n args)) = None"
  by (simp add: plain_access_def emitted_def race_call_def)



section \<open>Synchronization calls\<close>














section \<open>The primitives by their POSIX names\<close>













text \<open>The functions of the module afterwards.\<close>

lemma run_race_fun:
  assumes "G \<in> set (mfuns (fst (run_race L M)))" and "body G \<noteq> []"
  obtains F where "F \<in> set (mfuns M)" "G = fst (race_fun L F)"
proof -
  have "G \<in> set (map (fst \<circ> race_fun L) (mfuns (declare_hooks M))) \<or> (\<exists>n. G = extern_fun n)"
    using assms(1) declare_all_funs by (fastforce simp: run_race_def split_beta Let_def)
  then obtain F where F: "F \<in> set (mfuns (declare_hooks M))" "G = fst (race_fun L F)" using assms(2) by auto
  have "F \<in> set (mfuns M) \<or> (\<exists>n. F = extern_fun n)" using F(1) declare_all_funs by (fastforce simp: declare_hooks_def)
  then show thesis using that F(2) assms(2) by (auto simp: race_fun_def)
qed

lemma run_race_length: "length (mfuns M) \<le> length (mfuns (fst (run_race L M)))"
proof -
  obtain ds where "mfuns (declare_hooks M) = mfuns M @ map extern_fun ds" using declare_all_mfuns unfolding declare_hooks_def by blast
  moreover have "length (mfuns N) \<le> length (mfuns (declare_all ns N))" for ns N using declare_all_mfuns [of ns N] by auto
  from this [of "declare_hooks M\<lparr>mfuns := map (fst \<circ> race_fun L) (mfuns (declare_hooks M))\<rparr>"]
  have "length (mfuns (declare_hooks M)) \<le> length (mfuns (fst (run_race L M)))" by (simp add: run_race_def split_beta Let_def)
  ultimately show ?thesis by simp
qed




end
