(* ===== verification/Pass_Abi.thy ===== *)
theory Pass_Abi
  imports Pass_Race_Props
begin

text \<open>
  The interface between the pass and the runtimes: the prototypes of \<^verbatim>\<open>runtime/redzone_rt.h\<close> and
  \<^verbatim>\<open>runtime/redzone_race_rt.h\<close>, how the compiler passes their parameters, and that the calls in an instrumented module
  are calls of the functions those headers declare.
\<close>

section \<open>C types\<close>

datatype c_ty =
    CVoid | CChar | CInt | CSize | CULong
  | CPtr c_ty | CConst c_ty | CVolatile c_ty
  | CNamed string
  | CFun c_ty "c_ty list"

record c_proto =
  c_result :: c_ty
  c_params :: "c_ty list"
  c_variadic :: bool

abbreviation "void_ptr \<equiv> CPtr CVoid"
abbreviation "const_ptr \<equiv> CPtr (CConst CVoid)"
abbreviation "text_ptr \<equiv> CPtr (CConst CChar)"
abbreviation "volatile_ptr \<equiv> CPtr (CConst (CVolatile CVoid))"

definition fn :: "c_ty \<Rightarrow> c_ty list \<Rightarrow> c_proto" where
  "fn r ps = \<lparr>c_result = r, c_params = ps, c_variadic = False\<rparr>"

definition fn_more :: "c_ty \<Rightarrow> c_ty list \<Rightarrow> c_proto" where
  "fn_more r ps = \<lparr>c_result = r, c_params = ps, c_variadic = True\<rparr>"

text \<open>
  The types in the intermediate code on the 64-bit platforms the pass is for. What a named type of the platform is, such as
  \<^verbatim>\<open>pthread_t\<close>, is a parameter.
\<close>

fun ir_of :: "(string \<Rightarrow> ir_ty) \<Rightarrow> c_ty \<Rightarrow> ir_ty" where
  "ir_of N CVoid = T_void"
| "ir_of N CChar = T_i8"
| "ir_of N CInt = T_i32"
| "ir_of N CSize = T_i64"
| "ir_of N CULong = T_i64"
| "ir_of N (CPtr t) = T_ptr"
| "ir_of N (CConst t) = ir_of N t"
| "ir_of N (CVolatile t) = ir_of N t"
| "ir_of N (CNamed n) = N n"
| "ir_of N (CFun r ps) = T_ptr"

definition lowered :: "(string \<Rightarrow> ir_ty) \<Rightarrow> c_proto \<Rightarrow> ir_ty \<times> ir_ty list \<times> bool" where
  "lowered N p = (ir_of N (c_result p), map (ir_of N) (c_params p), c_variadic p)"

section \<open>The headers\<close>

definition redzone_rt_h :: "(string \<times> c_proto) list" where
  "redzone_rt_h =
    [(''__redzone_malloc'', fn void_ptr [CSize, text_ptr, CInt]),
     (''__redzone_calloc'', fn void_ptr [CSize, CSize, text_ptr, CInt]),
     (''__redzone_realloc'', fn void_ptr [void_ptr, CSize, text_ptr, CInt]),
     (''__redzone_free'', fn CVoid [void_ptr]),
     (''__redzone_aligned_alloc'', fn void_ptr [CSize, CSize, text_ptr, CInt]),
     (''__redzone_malloc_plain'', fn void_ptr [CSize]),
     (''__redzone_calloc_plain'', fn void_ptr [CSize, CSize]),
     (''__redzone_realloc_plain'', fn void_ptr [void_ptr, CSize]),
     (''__redzone_posix_memalign'', fn CInt [CPtr void_ptr, CSize, CSize, text_ptr, CInt]),
     (''__redzone_check'', fn CVoid [const_ptr, CSize, CInt, text_ptr, CInt]),
     (''__redzone_memcpy'', fn void_ptr [void_ptr, const_ptr, CSize, text_ptr, CInt]),
     (''__redzone_memmove'', fn void_ptr [void_ptr, const_ptr, CSize, text_ptr, CInt]),
     (''__redzone_memset'', fn void_ptr [void_ptr, CInt, CSize, text_ptr, CInt]),
     (''__redzone_strcpy'', fn (CPtr CChar) [CPtr CChar, text_ptr, text_ptr, CInt]),
     (''__redzone_strcat'', fn (CPtr CChar) [CPtr CChar, text_ptr, text_ptr, CInt]),
     (''__redzone_strncpy'', fn (CPtr CChar) [CPtr CChar, text_ptr, CSize, text_ptr, CInt]),
     (''__redzone_strncat'', fn (CPtr CChar) [CPtr CChar, text_ptr, CSize, text_ptr, CInt]),
     (''__redzone_strlcpy'', fn CSize [CPtr CChar, text_ptr, CSize, text_ptr, CInt]),
     (''__redzone_strlcat'', fn CSize [CPtr CChar, text_ptr, CSize, text_ptr, CInt]),
     (''__redzone_snprintf'', fn_more CInt [CPtr CChar, CSize, text_ptr, CInt, text_ptr]),
     (''__redzone_sprintf'', fn_more CInt [CPtr CChar, text_ptr, CInt, text_ptr]),
     (''__redzone_stack_enter'', fn CVoid [void_ptr, CSize]),
     (''__redzone_stack_leave'', fn CVoid [void_ptr, CSize]),
     (''__redzone_global_register'', fn CVoid [void_ptr, CSize]),
     (''__redzone_global_register_right'', fn CVoid [void_ptr, CSize]),
     (''__redzone_owns'', fn CInt [const_ptr]),
     (''__redzone_maybe_owns'', fn CInt [const_ptr]),
     (''__redzone_usable_size'', fn CSize [const_ptr]),
     (''__redzone_in_runtime'', fn CInt []),
     (''__redzone_set_leak_report'', fn CVoid [CInt]),
     (''rz_sys_malloc'', fn void_ptr [CSize]),
     (''rz_sys_realloc'', fn void_ptr [void_ptr, CSize]),
     (''rz_sys_free'', fn CVoid [void_ptr])]"

definition redzone_race_rt_h :: "(string \<times> c_proto) list" where
  "redzone_race_rt_h =
    (let mutex = CPtr (CNamed ''pthread_mutex_t''); rwlock = CPtr (CNamed ''pthread_rwlock_t'');
         cond = CPtr (CNamed ''pthread_cond_t'') in
    [(''rz_rt_init'', fn CVoid []),
     (''rz_rt_pthread_create'', fn CInt [CPtr (CNamed ''pthread_t''), CPtr (CConst (CNamed ''pthread_attr_t'')),
        CPtr (CFun void_ptr [void_ptr]), void_ptr]),
     (''rz_rt_pthread_join'', fn CInt [CNamed ''pthread_t'', CPtr void_ptr]),
     (''rz_rt_mutex_lock'', fn CVoid [void_ptr]),
     (''rz_rt_mutex_unlock'', fn CVoid [void_ptr]),
     (''rz_rt_pthread_mutex_lock'', fn CInt [mutex]),
     (''rz_rt_pthread_mutex_unlock'', fn CInt [mutex]),
     (''rz_rt_pthread_mutex_trylock'', fn CInt [mutex]),
     (''rz_rt_pthread_rwlock_rdlock'', fn CInt [rwlock]),
     (''rz_rt_pthread_rwlock_wrlock'', fn CInt [rwlock]),
     (''rz_rt_pthread_rwlock_tryrdlock'', fn CInt [rwlock]),
     (''rz_rt_pthread_rwlock_trywrlock'', fn CInt [rwlock]),
     (''rz_rt_pthread_rwlock_unlock'', fn CInt [rwlock]),
     (''rz_rt_pthread_cond_wait'', fn CInt [cond, mutex]),
     (''rz_rt_pthread_cond_timedwait'', fn CInt [cond, mutex, CPtr (CConst (CNamed ''timespec''))]),
     (''rz_rt_atomic_acquire'', fn CVoid [volatile_ptr]),
     (''rz_rt_atomic_release'', fn CVoid [volatile_ptr]),
     (''rz_rt_read'', fn CVoid [volatile_ptr, CSize, text_ptr, CInt]),
     (''rz_rt_write'', fn CVoid [volatile_ptr, CSize, text_ptr, CInt]),
     (''rz_rt_race_count'', fn CULong [])])"

section \<open>The functions of the platform\<close>

text \<open>The prototypes in the C and POSIX standards, of the fortified forms and of the operators of C++.\<close>

definition libc_h :: "(string \<times> c_proto) list" where
  "libc_h =
    [(''malloc'', fn void_ptr [CSize]),
     (''calloc'', fn void_ptr [CSize, CSize]),
     (''realloc'', fn void_ptr [void_ptr, CSize]),
     (''free'', fn CVoid [void_ptr]),
     (''aligned_alloc'', fn void_ptr [CSize, CSize]),
     (''posix_memalign'', fn CInt [CPtr void_ptr, CSize, CSize]),
     (''memcpy'', fn void_ptr [void_ptr, const_ptr, CSize]),
     (''memmove'', fn void_ptr [void_ptr, const_ptr, CSize]),
     (''memset'', fn void_ptr [void_ptr, CInt, CSize]),
     (''strcpy'', fn (CPtr CChar) [CPtr CChar, text_ptr]),
     (''strcat'', fn (CPtr CChar) [CPtr CChar, text_ptr]),
     (''strncpy'', fn (CPtr CChar) [CPtr CChar, text_ptr, CSize]),
     (''strncat'', fn (CPtr CChar) [CPtr CChar, text_ptr, CSize]),
     (''strlcpy'', fn CSize [CPtr CChar, text_ptr, CSize]),
     (''strlcat'', fn CSize [CPtr CChar, text_ptr, CSize]),
     (''snprintf'', fn_more CInt [CPtr CChar, CSize, text_ptr]),
     (''sprintf'', fn_more CInt [CPtr CChar, text_ptr])]"

definition fortified_h :: "(string \<times> c_proto) list" where
  "fortified_h =
    [(''__memcpy_chk'', fn void_ptr [void_ptr, const_ptr, CSize, CSize]),
     (''__memmove_chk'', fn void_ptr [void_ptr, const_ptr, CSize, CSize]),
     (''__memset_chk'', fn void_ptr [void_ptr, CInt, CSize, CSize]),
     (''__strcpy_chk'', fn (CPtr CChar) [CPtr CChar, text_ptr, CSize]),
     (''__strcat_chk'', fn (CPtr CChar) [CPtr CChar, text_ptr, CSize]),
     (''__strncpy_chk'', fn (CPtr CChar) [CPtr CChar, text_ptr, CSize, CSize]),
     (''__strncat_chk'', fn (CPtr CChar) [CPtr CChar, text_ptr, CSize, CSize]),
     (''__strlcpy_chk'', fn CSize [CPtr CChar, text_ptr, CSize, CSize]),
     (''__strlcat_chk'', fn CSize [CPtr CChar, text_ptr, CSize, CSize]),
     (''__snprintf_chk'', fn_more CInt [CPtr CChar, CSize, CInt, CSize, text_ptr]),
     (''__sprintf_chk'', fn_more CInt [CPtr CChar, CInt, CSize, text_ptr])]"

definition operators_h :: "(string \<times> c_proto) list" where
  "operators_h =
    [(''_Znwm'', fn void_ptr [CSize]), (''_Znam'', fn void_ptr [CSize]),
     (''_ZnwmSt11align_val_t'', fn void_ptr [CSize, CSize]), (''_ZnamSt11align_val_t'', fn void_ptr [CSize, CSize]),
     (''_ZdlPv'', fn CVoid [void_ptr]), (''_ZdaPv'', fn CVoid [void_ptr]),
     (''_ZdlPvm'', fn CVoid [void_ptr, CSize]), (''_ZdaPvm'', fn CVoid [void_ptr, CSize]),
     (''_ZdlPvSt11align_val_t'', fn CVoid [void_ptr, CSize]), (''_ZdaPvSt11align_val_t'', fn CVoid [void_ptr, CSize]),
     (''_ZdlPvmSt11align_val_t'', fn CVoid [void_ptr, CSize, CSize]),
     (''_ZdaPvmSt11align_val_t'', fn CVoid [void_ptr, CSize, CSize])]"

definition pthread_h :: "(string \<times> c_proto) list" where
  "pthread_h =
    (let mutex = CPtr (CNamed ''pthread_mutex_t''); rwlock = CPtr (CNamed ''pthread_rwlock_t'');
         cond = CPtr (CNamed ''pthread_cond_t'') in
    [(''pthread_create'', fn CInt [CPtr (CNamed ''pthread_t''), CPtr (CConst (CNamed ''pthread_attr_t'')),
        CPtr (CFun void_ptr [void_ptr]), void_ptr]),
     (''pthread_join'', fn CInt [CNamed ''pthread_t'', CPtr void_ptr]),
     (''pthread_mutex_lock'', fn CInt [mutex]),
     (''pthread_mutex_unlock'', fn CInt [mutex]),
     (''pthread_mutex_trylock'', fn CInt [mutex]),
     (''pthread_rwlock_rdlock'', fn CInt [rwlock]),
     (''pthread_rwlock_wrlock'', fn CInt [rwlock]),
     (''pthread_rwlock_tryrdlock'', fn CInt [rwlock]),
     (''pthread_rwlock_trywrlock'', fn CInt [rwlock]),
     (''pthread_rwlock_unlock'', fn CInt [rwlock]),
     (''pthread_cond_wait'', fn CInt [cond, mutex]),
     (''pthread_cond_timedwait'', fn CInt [cond, mutex, CPtr (CConst (CNamed ''timespec''))])])"

section \<open>Calls that fit a prototype\<close>

definition calls_fit :: "(string \<Rightarrow> ir_ty) \<Rightarrow> (string \<Rightarrow> c_proto option) \<Rightarrow> ir_op \<Rightarrow> bool" where
  "calls_fit N H x \<longleftrightarrow>
     (case call_of x of
        Some (n, args, t) \<Rightarrow>
          (case H n of Some p \<Rightarrow> (case lowered N p of (r, ps, va) \<Rightarrow> t = r \<and> conforms ps va args) | None \<Rightarrow> True)
      | None \<Rightarrow> True)"

text \<open>
  A well-typed source program: its direct calls of the platform's functions have the types of their prototypes, whatever
  the assembler label of a thread function; so have calls of a runtime, of which it normally has none. Memory is
  accessed through pointers.
\<close>

definition platform :: "string \<Rightarrow> c_proto option" where
  "platform = map_of (libc_h @ fortified_h @ operators_h)"

definition through_pointers :: "ir_op \<Rightarrow> bool" where
  "through_pointers x \<longleftrightarrow>
     (case x of
        I_Load p t at \<Rightarrow> val_ty p = T_ptr | I_Store p v at \<Rightarrow> val_ty p = T_ptr
      | I_Rmw p \<Rightarrow> val_ty p = T_ptr | I_Cmpxchg p \<Rightarrow> val_ty p = T_ptr
      | I_Memcpy d s n \<Rightarrow> val_ty d = T_ptr \<and> val_ty s = T_ptr
      | I_Memmove d s n \<Rightarrow> val_ty d = T_ptr \<and> val_ty s = T_ptr
      | I_Memset d v n \<Rightarrow> val_ty d = T_ptr | _ \<Rightarrow> True)"

definition well_typed :: "(string \<Rightarrow> ir_ty) \<Rightarrow> ir_insn \<Rightarrow> bool" where
  "well_typed N i \<longleftrightarrow>
     calls_fit N platform (op i) \<and> calls_fit N (map_of pthread_h \<circ> plain_name) (op i)
     \<and> calls_fit N (map_of redzone_rt_h) (op i) \<and> calls_fit N (map_of redzone_race_rt_h) (op i)
     \<and> through_pointers (op i)"

section \<open>The declarations of the pass agree with the headers\<close>

lemma runtime_sigs_header:
  "list_all (\<lambda>(n, s). map_option (lowered N) (map_of redzone_rt_h n) = Some s) runtime_sigs"
  by (simp add: runtime_sigs_def redzone_rt_h_def lowered_def fn_def fn_more_def)

lemma sync_wrappers_header:
  "list_all (\<lambda>(n, w). map_of redzone_race_rt_h w = map_of pthread_h n \<and> map_of pthread_h n \<noteq> None) sync_redirs"
  by (simp add: sync_redirs_def redzone_race_rt_h_def pthread_h_def Let_def)

lemma plain_wrappers_header:
  "list_all (\<lambda>(n, w). map_of redzone_rt_h w = map_of libc_h n \<and> map_of libc_h n \<noteq> None) alloc_ptrs"
  by (simp add: alloc_ptrs_def redzone_rt_h_def libc_h_def)


text \<open>
  A wrapper takes what the function it stands for takes, and the place of the call: at the end, or before the format when
  more arguments may follow. \<open>target_of\<close> is the function the pass calls instead.
\<close>

definition located :: "c_proto \<Rightarrow> c_proto" where
  "located p =
     (if c_variadic p
      then p\<lparr>c_params := butlast (c_params p) @ [text_ptr, CInt, last (c_params p)]\<rparr>
      else p\<lparr>c_params := c_params p @ [text_ptr, CInt]\<rparr>)"

definition target_of :: "string \<Rightarrow> string" where
  "target_of n =
     (let i = \<lparr>op = I_Call (Direct n) (replicate 5 V_Null) T_ptr, res = None, loc = None\<rparr> in
      case op (fst (redirect_memop (fst (redirect_alloc i)))) of I_Call (Direct w) args t \<Rightarrow> w | _ \<Rightarrow> n)"

lemma wrappers_extend_library:
  "list_all (\<lambda>(n, p). if n = ''free'' then map_of redzone_rt_h (target_of n) = Some p
     else map_of redzone_rt_h (target_of n) = Some (located p)) libc_h"
  by code_simp

lemma runtime_header: "map_of runtime_sigs n = Some s \<Longrightarrow> \<exists>p. map_of redzone_rt_h n = Some p \<and> lowered N p = s"
  using runtime_sigs_header [of N] map_of_SomeD [of runtime_sigs n s] by (auto simp: list_all_iff)

lemma sync_header:
  assumes "sync_target n = Some w"
  shows "map_of redzone_race_rt_h w = map_of pthread_h (plain_name n)" "map_of pthread_h (plain_name n) \<noteq> None"
  using sync_wrappers_header map_of_SomeD [OF assms [unfolded sync_target_def]] by (auto simp: list_all_iff)

lemma plain_header:
  assumes "map_of alloc_ptrs n = Some w"
  shows "map_of redzone_rt_h w = platform n"
  using plain_wrappers_header map_of_SomeD [OF assms] by (force simp: list_all_iff platform_def)

text \<open>The prototype of a library function is at least as precise as what the pass relies on.\<close>

fun precise :: "ir_ty option list \<Rightarrow> ir_ty list \<Rightarrow> bool" where
  "precise [] qs = True"
| "precise (p # ps) [] = False"
| "precise (p # ps) (q # qs) = ((p = None \<or> p = Some q) \<and> precise ps qs)"

lemma library_precise:
  "list_all (\<lambda>(n, c). \<exists>p. platform n = Some p \<and> (case lowered N p of (r, ps, va) \<Rightarrow>
     precise (lib_sig c) ps \<and> (c = C_free \<longrightarrow> length ps = 1 \<and> \<not> va))) call_classes"
  by (simp add: call_classes_def platform_def libc_h_def fortified_h_def operators_h_def lowered_def fn_def fn_more_def)

lemma precise_fits: "precise ps qs \<Longrightarrow> conforms qs va args \<Longrightarrow> fits ps args"
proof (induction ps qs arbitrary: args rule: precise.induct)
  case (3 p ps q qs)
  then obtain v vs where "args = v # vs" by (cases args) (auto simp: conforms_def split: if_splits)
  with 3 show ?case by auto
qed simp_all

lemma conforms_length: "conforms ps False args \<Longrightarrow> length args = length ps"
  by (simp add: conforms_def)

lemma library_fits:
  assumes "calls_fit N platform (op i)" and "call_class i = Some c"
  shows "fits (lib_sig c) (call_args i) \<and> (c = C_free \<longrightarrow> length (call_args i) = 1)"
proof -
  obtain n a t where o: "op i = I_Call (Direct n) a t" "map_of call_classes n = Some c"
    using assms(2) by (auto simp: call_class_def split: ir_op.splits callee.splits)
  obtain p where p: "platform n = Some p" "case lowered N p of (r, ps, va) \<Rightarrow>
     precise (lib_sig c) ps \<and> (c = C_free \<longrightarrow> length ps = 1 \<and> \<not> va)"
    using library_precise [of N] map_of_SomeD [OF o(2)] by (auto simp: list_all_iff)
  then show ?thesis
    using assms(1) precise_fits conforms_length by (fastforce simp: calls_fit_def o split: prod.splits)
qed

lemma fit_rt_typed: "calls_fit N (map_of redzone_rt_h) x \<Longrightarrow> rt_typed x"
  using runtime_header [of _ _ N] by (fastforce simp: calls_fit_def rt_typed_def split: option.splits prod.splits)

lemma well_typed_source: "well_typed N i \<Longrightarrow> source_typed i"
  using library_fits [of N i] fit_rt_typed [of N "op i"]
  by (auto simp: well_typed_def through_pointers_def source_typed_def split: ir_op.splits)

section \<open>The emitted calls\<close>

text \<open>A call of a function the pass declared, the slow path of a check included.\<close>

definition declared :: "string \<Rightarrow> bool" where
  "declared n \<longleftrightarrow> n \<in> fst ` set runtime_sigs"

definition declared_call :: "ir_op \<Rightarrow> bool" where
  "declared_call x \<longleftrightarrow> (\<exists>n args t. call_of x = Some (n, args, t) \<and> declared n)"

lemma declared_names [simp]:
  "declared ''__redzone_check''" "declared ''__redzone_malloc''" "declared ''__redzone_free''" "declared
  ''__redzone_stack_enter''" "declared ''__redzone_stack_leave''" "declared ''__redzone_calloc''" "declared
  ''__redzone_realloc''" "declared ''__redzone_aligned_alloc''" "declared ''__redzone_posix_memalign''"
  "declared ''__redzone_memcpy''" "declared ''__redzone_memmove''" "declared ''__redzone_memset''" "declared
  ''__redzone_strcpy''" "declared ''__redzone_strcat''" "declared ''__redzone_strncpy''" "declared
  ''__redzone_strncat''" "declared ''__redzone_strlcpy''" "declared ''__redzone_strlcat''" "declared
  ''__redzone_snprintf''" "declared ''__redzone_sprintf''" "declared ''__redzone_global_register''" "declared
  ''__redzone_global_register_right''"
  by (simp_all add: declared_def runtime_sigs_def)

lemma declared_rz_call [simp]: "declared_call (rz_call n args) \<longleftrightarrow> declared n"
  by (simp add: declared_call_def rz_call_def)

lemma declared_check [simp]: "declared_call (I_Check p n w f l)"
  by (simp add: declared_call_def)

lemma op_ops [simp]: "op (with_op i x) = x" "op (emitted i x) = x"
  by (simp_all add: with_op_def emitted_def)

lemma declared_fit: "declared_call x \<Longrightarrow> rt_typed x \<Longrightarrow> calls_fit N (map_of redzone_rt_h) x"
proof -
  assume d: "declared_call x" and x: "rt_typed x"
  from d obtain n args t where c: "call_of x = Some (n, args, t)" "declared n" by (auto simp: declared_call_def)
  then have "map_of runtime_sigs n \<noteq> None" by (simp add: declared_def map_of_eq_None_iff)
  then obtain s where s: "map_of runtime_sigs n = Some s" by blast
  then show ?thesis using x c runtime_header [OF s, of N] by (cases s) (auto simp: calls_fit_def rt_typed_def)
qed

lemma redirect_alloc_declared: "fst (redirect_alloc i) = i \<or> declared_call (op (fst (redirect_alloc i)))"
proof (cases "call_class i")
  case (Some c)
  then show ?thesis by (cases c) (simp_all add: redirect_alloc_def split_beta Let_def)
qed (simp add: redirect_alloc_def split_beta Let_def)

lemma redirect_memop_declared: "fst (redirect_memop i) = i \<or> declared_call (op (fst (redirect_memop i)))"
proof (cases "call_class i")
  case None
  then show ?thesis by (cases "op i") (simp_all add: redirect_memop_def split_beta Let_def)
next
  case (Some c)
  then obtain n a t where o: "op i = I_Call (Direct n) a t" by (auto simp: call_class_def split: ir_op.splits callee.splits)
  show ?thesis using Some by (cases c) (simp_all add: redirect_memop_def o split_beta Let_def)
qed

lemma instrument_insn_declared:
  assumes "j \<in> set (fst (instrument_insn L slots (i, m)))"
  shows "j = i \<or> declared_call (op j) \<or> call_of (op j) = None"
  using assms redirect_memop_declared [of i]
  by (auto simp: instrument_insn_def wrap_alloca_def leave_call_def emit_check_def split_beta Let_def
      split: prod.splits option.splits if_splits mark.splits)

lemma instrument_fun_declared:
  assumes "j \<in> insns (fst (instrument_fun L fnm pats ign F))"
  shows "j \<in> insns F \<or> declared_call (op j) \<or> call_of (op j) = None"
proof -
  have a: "k \<in> insns F \<or> declared_call (op k)" if "k \<in> insns (fst (redirect_allocs F))" for k
    using redirect_allocs_insns [OF that] redirect_alloc_declared by metis
  have b: "k \<in> insns F \<or> declared_call (op k) \<or> call_of (op k) = None"
    if "k \<in> insns (fst (instrument_body L (fst (redirect_allocs F))))" for k
    using instrument_body_insns [OF that] instrument_insn_declared a by metis
  show ?thesis
    using assms a b by (auto simp: instrument_fun_def split_beta Let_def split: if_splits)
qed


section \<open>Addresses of the allocators\<close>

lemma replace_val_ty [simp]: "val_ty (replace_val v) = val_ty v"
  by (induction v) simp_all

lemma conforms_replace [simp]: "conforms ps va (map replace_val args) \<longleftrightarrow> conforms ps va args"
  by (simp add: conforms_def take_map list_all2_map2)

lemma replace_runtime_name: "declared n \<Longrightarrow> replace_name n = n"
  by (auto simp: declared_def runtime_sigs_def replace_name_def alloc_ptrs_def)

lemma replaced_call:
  "call_of (replace_op x) = map_option (\<lambda>(n, args, t). (replace_name n, map replace_val args, t)) (call_of x)"
proof (cases x)
  case (I_Call c args t)
  then show ?thesis by (cases c) simp_all
qed (simp_all add: replace_runtime_name)

lemma replaced_fit:
  assumes "calls_fit N (map_of redzone_rt_h) x" and "calls_fit N platform x"
  shows "calls_fit N (map_of redzone_rt_h) (replace_op x)"
proof (cases "call_of x")
  case (Some a)
  then obtain n args t where a: "call_of x = Some (n, args, t)" by (cases a) simp
  show ?thesis
  proof (cases "map_of alloc_ptrs n")
    case None
    then have "replace_name n = n" by (simp add: replace_name_def)
    then show ?thesis using assms(1) by (auto simp: calls_fit_def replaced_call a split: option.splits)
  next
    case (Some w)
    then have "replace_name n = w" by (simp add: replace_name_def)
    then show ?thesis using assms(2) plain_header [OF Some] by (auto simp: calls_fit_def replaced_call a split: option.splits)
  qed
qed (simp add: calls_fit_def replaced_call)

lemma runtime_not_platform: "list_all (\<lambda>(n, s). platform n = None) runtime_sigs"
  by (simp add: runtime_sigs_def platform_def libc_h_def fortified_h_def operators_h_def)

lemma declared_not_platform: "declared n \<Longrightarrow> platform n = None"
  using runtime_not_platform by (auto simp: declared_def list_all_iff)

lemma emitted_fit:
  assumes "\<forall>i \<in> insns F. well_typed N i" and "j \<in> insns (fst (instrument_fun L fnm pats ign F))"
  shows "calls_fit N (map_of redzone_rt_h) (op j) \<and> calls_fit N platform (op j)"
proof -
  have "rt_typed (op j)" using emitted_calls_typed [of F] well_typed_source assms by blast
  then have d: "calls_fit N (map_of redzone_rt_h) (op j)" if "declared_call (op j)" by (rule declared_fit [OF that])
  from instrument_fun_declared [OF assms(2)] show ?thesis
  proof (elim disjE)
    assume "j \<in> insns F"
    then show ?thesis using assms(1) by (auto simp: well_typed_def)
  next
    assume "declared_call (op j)"
    then show ?thesis using d declared_not_platform by (auto simp: declared_call_def calls_fit_def)
  qed (simp add: calls_fit_def)
qed

section \<open>Race mode\<close>

lemma hook_fit:
  "val_ty p = T_ptr \<Longrightarrow> calls_fit N (map_of redzone_race_rt_h)
     (race_call (if w then ''rz_rt_write'' else ''rz_rt_read'') [p, V_Int T_i64 n, fst (get_loc i), snd (get_loc i)])"
  "val_ty p = T_ptr \<Longrightarrow> calls_fit N (map_of redzone_race_rt_h) (race_call ''rz_rt_atomic_release'' [p])"
  "val_ty p = T_ptr \<Longrightarrow> calls_fit N (map_of redzone_race_rt_h) (race_call ''rz_rt_atomic_acquire'' [p])"
  by (simp_all add: calls_fit_def race_call_def redzone_race_rt_h_def lowered_def fn_def Let_def)

lemma hook_insn_fit:
  assumes "calls_fit N (map_of redzone_race_rt_h) (op i)" and "through_pointers (op i)" and "j \<in> set (fst (hook_insn L i))"
  shows "calls_fit N (map_of redzone_race_rt_h) (op j)"
proof -
  have e: "calls_fit N (map_of redzone_race_rt_h) (op k)"
    if "k \<in> set (fst (emit_access L i p t w))" "val_ty p = T_ptr" for k p t w
    using that hook_fit(1) [OF that(2)] by (auto simp: emit_access_def split_beta split: if_splits)
  have "j = i \<or> (\<exists>p t w. val_ty p = T_ptr \<and> j \<in> set (fst (emit_access L i p t w)))
      \<or> (\<exists>p. val_ty p = T_ptr \<and> (op j = race_call ''rz_rt_atomic_release'' [p] \<or> op j = race_call ''rz_rt_atomic_acquire'' [p]))"
    using assms(2,3) by (cases "op i")
      (auto simp: hook_insn_def atomic_of_def through_pointers_def split_beta split: bool.splits if_splits)
  then show ?thesis using assms(1) e hook_fit(2,3) by metis
qed

lemma redirect_sync_fit:
  assumes "well_typed N i"
  shows "calls_fit N (map_of redzone_race_rt_h) (op (fst (redirect_sync i))) \<and> through_pointers (op (fst (redirect_sync i)))"
proof (cases "\<exists>n args t w. op i = I_Call (Direct n) args t \<and> sync_target n = Some w")
  case True
  then obtain n args t w where o: "op i = I_Call (Direct n) args t" "sync_target n = Some w" by blast
  then show ?thesis
    using assms sync_header [OF o(2)] by (auto simp: redirect_sync_def well_typed_def calls_fit_def through_pointers_def)
next
  case False
  then have "fst (redirect_sync i) = i" by (auto simp: redirect_sync_def split: ir_op.split callee.split option.split)
  then show ?thesis using assms by (simp add: well_typed_def)
qed

lemma redirect_syncs_insns:
  "j \<in> insns (fst (redirect_syncs F)) \<Longrightarrow> \<exists>i \<in> insns F. j = fst (redirect_sync i)"
  by (fastforce simp: insns_def redirect_syncs_def Let_def)

lemma hook_body_insns:
  "j \<in> insns (fst (hook_body L F)) \<Longrightarrow> \<exists>i \<in> insns F. j \<in> set (fst (hook_insn L i))"
  by (fastforce simp: insns_def hook_body_def Let_def emit_all_set)

lemma race_fun_fit:
  assumes "\<forall>i \<in> insns F. well_typed N i" and "j \<in> insns (fst (race_fun L F))"
  shows "calls_fit N (map_of redzone_race_rt_h) (op j)"
proof -
  have r: "calls_fit N (map_of redzone_race_rt_h) (op k) \<and> through_pointers (op k)" if "k \<in> insns (fst (redirect_syncs F))" for k
    using redirect_syncs_insns [OF that] redirect_sync_fit assms(1) by blast
  have "calls_fit N (map_of redzone_race_rt_h) (op k)" if "k \<in> insns (fst (hook_body L (fst (redirect_syncs F))))" for k
    using hook_body_insns [OF that] hook_insn_fit r by blast
  then show ?thesis
    using assms r by (auto simp: race_fun_def split_beta Let_def well_typed_def split: if_splits)
qed

section \<open>The property\<close>

lemma register_fit: "calls_fit N (map_of redzone_rt_h) (register_call r)"
proof -
  have "rt_typed (register_call r)" by (simp add: register_call_def sigs split: prod.split)
  moreover have "declared_call (register_call r)" by (simp add: register_call_def split: prod.split)
  ultimately show ?thesis by (rule declared_fit [rotated])
qed

text \<open>C39. The headers and the pass agree. If the calls of a program fit the prototypes of the functions of the platform,
  then in the module that the pass makes of it every call of the memory checker, those of checks, stack slots, redirected
  allocators and replaced addresses and of the module constructor, fits the prototype in \<^verbatim>\<open>redzone_rt.h\<close>, and
  in race mode every call of the race runtime fits \<^verbatim>\<open>redzone_race_rt.h\<close>, the pthread calls under their new name included:
  as many arguments, of the types the C function takes, and its result.\<close>

theorem calls_match_headers:
  assumes "\<forall>F \<in> set (mfuns M). \<forall>i \<in> insns F. well_typed N i"
  shows "(\<forall>G \<in> set (mfuns (fst (run_safety L fnm rules M))). \<forall>j \<in> insns G. calls_fit N (map_of redzone_rt_h) (op j))
    \<and> (\<forall>r \<in> set (registered (fst (run_safety L fnm rules M))). calls_fit N (map_of redzone_rt_h) (register_call r))
    \<and> (\<forall>G \<in> set (mfuns (fst (run_race L M))). \<forall>j \<in> insns G. calls_fit N (map_of redzone_race_rt_h) (op j))"
proof (intro conjI ballI)
  fix G j assume G: "G \<in> set (mfuns (fst (run_safety L fnm rules M)))" and j: "j \<in> insns G"
  have "body G \<noteq> []" using j by (auto simp: insns_def)
  then obtain F pats ign where F: "F \<in> set (mfuns M)" "G = replace_in_fun (fst (instrument_fun L fnm pats ign F))"
    by (rule run_safety_fun [OF G]) blast
  obtain k where k: "k \<in> insns (fst (instrument_fun L fnm pats ign F))" "j = k\<lparr>op := replace_op (op k)\<rparr>"
    using replace_in_fun_insns j F(2) by blast
  show "calls_fit N (map_of redzone_rt_h) (op j)"
    using emitted_fit [OF _ k(1)] assms F(1) replaced_fit k(2) by simp
next
  fix G j assume G: "G \<in> set (mfuns (fst (run_race L M)))" and j: "j \<in> insns G"
  have "body G \<noteq> []" using j by (auto simp: insns_def)
  with G obtain F where "F \<in> set (mfuns M)" "G = fst (race_fun L F)" by (rule run_race_fun)
  then show "calls_fit N (map_of redzone_race_rt_h) (op j)" using race_fun_fit j assms by blast
qed (rule register_fit)

theorem calls_match_headers_witness:
  "insns (hd (mfuns (fst (run_safety demo_layout (=) None demo_module))))
     \<subseteq> {j. calls_fit (\<lambda>_. T_i64) (map_of redzone_rt_h) (op j)}
   \<and> insns (hd (mfuns (fst (run_race demo_layout demo_module))))
     \<subseteq> {j. calls_fit (\<lambda>_. T_i64) (map_of redzone_race_rt_h) (op j)}"
proof -
  have "\<forall>i \<in> insns demo_fun. well_typed (\<lambda>_. T_i64) i"
    by (simp add: insns_def demo_fun_def demo_insn_def well_typed_def calls_fit_def through_pointers_def platform_def libc_h_def
        fn_def lowered_def pthread_h_def plain_name_def redzone_rt_h_def redzone_race_rt_h_def Let_def)
  then have t: "\<forall>F \<in> set (mfuns demo_module). \<forall>i \<in> insns F. well_typed (\<lambda>_. T_i64) i" by (simp add: demo_module_def)
  have "mfuns (fst (run_safety demo_layout (=) None demo_module)) \<noteq> []"
    using run_safety_mfuns [of demo_layout "(=)" None demo_module] by (auto simp: demo_module_def)
  moreover have "mfuns (fst (run_race demo_layout demo_module)) \<noteq> []"
    using run_race_length [of demo_module demo_layout] by (auto simp: demo_module_def)
  ultimately show ?thesis
    using calls_match_headers [OF t, of demo_layout "(=)" None] hd_in_set by (metis (mono_tags, lifting) mem_Collect_eq subsetI)
qed

end
