(* ===== verification/Pass_Driver.thy ===== *)
theory Pass_Driver
  imports Pass_Race_Props RZ_Report
begin

text \<open>
  The pass as the compiler runs it (\<^verbatim>\<open>RedzonePass::run\<close>): the choice of the mode, the line it prints and what it
  tells the compiler about the module. Keeping all analyses is right only if nothing was changed, and the counts
  are those of the emitted code.
\<close>

section \<open>The two modes\<close>

text \<open>The counters are unsigned.\<close>

definition counted :: "stat \<Rightarrow> stat list \<Rightarrow> 32 word" where
  "counted x st = of_nat (length (filter (\<lambda>y. y = x) st))"

definition show_counted :: "stat \<Rightarrow> stat list \<Rightarrow> string" where
  "show_counted x st = show_int (uint (counted x st))"

definition safety_summary :: "stat list \<Rightarrow> string" where
  "safety_summary st =
     ''[redzone] instrumented '' @ show_counted Checks st @ '' access(es) (skipped '' @ show_counted Skipped_Safe st @
     '' safe + '' @ show_counted Skipped_Redundant st @ '' redundant); '' @ show_counted Stack_Vars st @ '' stack var(s); '' @
     show_counted Globals st @ '' global(s); redirected '' @ show_counted Mallocs st @ '' alloc / '' @ show_counted Frees st @
     '' free call(s) / '' @ show_counted Memops st @ '' mem op(s) / '' @ show_counted Alloc_Ptrs st @ '' alloc-ptr(s); '' @
     show_counted Opted_Out st @ '' opted-out fn(s)'' @ newline"

definition race_summary :: "stat list \<Rightarrow> string" where
  "race_summary st =
     ''[redzone-race] instrumented '' @ show_counted Race_Accesses st @ '' access(es) + '' @ show_counted Race_Atomics st @
     '' atomic op(s); redirected '' @ show_counted Race_Syncs st @ '' sync call(s)'' @ newline"

text \<open>
  The module, the line on stderr, and whether analyses are invalidated. \<open>race\<close> is the option \<^verbatim>\<open>-redzone-race\<close>.
\<close>

definition run_pass ::
  "bool \<Rightarrow> layout \<Rightarrow> (string \<Rightarrow> string \<Rightarrow> bool) \<Rightarrow> string list option \<Rightarrow> ir_module \<Rightarrow> ir_module \<times> string \<times> bool" where
  "run_pass race L fnmatch ignorelist M =
     (if race then (let (M', st) = run_race L M in (M', race_summary st, race_reports_changed st))
      else (let (M', st) = run_safety L fnmatch ignorelist M in (M', safety_summary st, reports_changed st)))"

definition pipeline_name :: "string \<Rightarrow> bool" where
  "pipeline_name n \<longleftrightarrow> n = ''redzone''"

section \<open>Nothing counted, nothing changed\<close>

abbreviation quiet :: "stat list \<Rightarrow> bool" where
  "quiet st \<equiv> \<not> reports_changed st"

lemma quiet_append [simp]:
  "quiet (xs @ ys) \<longleftrightarrow> quiet xs \<and> quiet ys" "quiet []"
  "quiet (x # xs) \<longleftrightarrow> x \<notin> {Checks, Mallocs, Frees, Stack_Vars, Globals, Memops, Alloc_Ptrs} \<and> quiet xs"
  by (auto simp: reports_changed_def)

lemma quiet_concat [simp]: "quiet (concat xss) \<longleftrightarrow> (\<forall>xs \<in> set xss. quiet xs)"
  by (induction xss) simp_all

lemma global_unchanged: "quiet (snd (instrument_global L g)) \<Longrightarrow> eligible_global L g = None"
  by (auto simp: instrument_global_def split: option.splits)

lemma alloc_unchanged: "quiet (snd (redirect_alloc i)) \<Longrightarrow> fst (redirect_alloc i) = i"
  by (cases "call_class i"; (cases "the (call_class i)")?) (simp_all add: redirect_alloc_def split_beta Let_def)

lemma memop_unchanged: "quiet (snd (redirect_memop i)) \<Longrightarrow> fst (redirect_memop i) = i"
proof (cases "call_class i")
  case None
  then show "quiet (snd (redirect_memop i)) \<Longrightarrow> ?thesis" by (cases "op i") (simp_all add: redirect_memop_def split_beta Let_def)
next
  case (Some c)
  then obtain n a t where o: "op i = I_Call (Direct n) a t" by (auto simp: call_class_def split: ir_op.splits callee.splits)
  show "quiet (snd (redirect_memop i)) \<Longrightarrow> ?thesis" using Some by (cases c) (simp_all add: redirect_memop_def o split_beta Let_def)
qed

lemma insn_unchanged:
  assumes "quiet (snd (instrument_insn L slots (i, m)))"
  shows "wrapped_alloca i = None \<and> (slots = [] \<longrightarrow> fst (instrument_insn L slots (i, m)) = [i])"
  using assms memop_unchanged [of i]
  by (auto simp: instrument_insn_def emit_check_def split_beta Let_def split: option.splits prod.splits if_splits mark.splits)

lemma block_unchanged:
  "length ms = length b \<Longrightarrow> quiet (snd (emit_all (instrument_insn L slots) (zip b ms))) \<Longrightarrow>
    (\<forall>i \<in> set b. wrapped_alloca i = None) \<and> (slots = [] \<longrightarrow> fst (emit_all (instrument_insn L slots) (zip b ms)) = b)"
proof (induction ms b rule: list_induct2)
  case (Cons m ms i b)
  then show ?case using insn_unchanged [of L slots i m] by simp
qed simp

lemma body_unchanged:
  assumes "quiet (snd (instrument_body L F))"
  shows "fst (instrument_body L F) = F"
proof -
  let ?f = "\<lambda>b. emit_all (instrument_insn L (wrapped_slots F)) (zip b (mark_block L F b (\<lambda>p. 0)))"
  have q: "quiet (snd (?f b))" if "b \<in> set (body F)" for b
    using assms that by (auto simp: instrument_body_def Let_def)
  note u = block_unchanged [OF mark_block_length q]
  have "wrapped_alloca i = None" if "i \<in> set (concat (body F))" for i using that u by auto
  then have "wrapped_slots F = []" by (simp add: wrapped_slots_def List.map_filter_def filter_empty_conv)
  then have "map (fst \<circ> ?f) (body F) = body F" using u by (intro map_idI) simp
  then show ?thesis by (simp add: instrument_body_def Let_def comp_def)
qed

lemma allocs_unchanged:
  assumes "quiet (snd (redirect_allocs F))"
  shows "fst (redirect_allocs F) = F"
proof -
  have "fst (emit_each redirect_alloc b) = b" if "b \<in> set (body F)" for b
    using assms that alloc_unchanged by (auto simp: redirect_allocs_def emit_each_def Let_def intro!: map_idI)
  then have "map (fst \<circ> emit_each redirect_alloc) (body F) = body F" by (intro map_idI) simp
  then show ?thesis by (simp add: redirect_allocs_def Let_def comp_def)
qed

lemma fun_unchanged: "quiet (snd (instrument_fun L fnm pats ign F)) \<Longrightarrow> fst (instrument_fun L fnm pats ign F) = F"
  using allocs_unchanged [of F] body_unchanged [of L F]
  by (auto simp: instrument_fun_def split_beta Let_def split: if_splits)

text \<open>A name nothing mentions is not replaced.\<close>

lemma unmentioned_name: "(\<And>k. k \<in> fst ` set alloc_ptrs \<Longrightarrow> n \<noteq> k) \<Longrightarrow> replace_name n = n"
proof -
  assume "\<And>k. k \<in> fst ` set alloc_ptrs \<Longrightarrow> n \<noteq> k"
  then have "map_of alloc_ptrs n = None" unfolding map_of_eq_None_iff by blast
  then show "replace_name n = n" by (simp add: replace_name_def)
qed

lemma unmentioned_val: "(\<And>k. k \<in> fst ` set alloc_ptrs \<Longrightarrow> \<not> val_mentions k v) \<Longrightarrow> replace_val v = v"
  by (induction v) (auto intro: unmentioned_name)

lemma unmentioned_op:
  assumes "\<And>k. k \<in> fst ` set alloc_ptrs \<Longrightarrow> \<not> op_mentions k x"
  shows "replace_op x = x"
proof -
  have c: "replace_callee c = c" if "\<And>k. k \<in> fst ` set alloc_ptrs \<Longrightarrow> \<not> callee_mentions k c" for c
    using that by (cases c) (auto intro: unmentioned_name unmentioned_val)
  show ?thesis
    using assms by (cases x) (auto intro!: unmentioned_val c map_idI simp: list_ex_iff)
qed

lemma unmentioned_fun:
  assumes "\<And>k. k \<in> fst ` set alloc_ptrs \<Longrightarrow> \<not> mentioned gs fs k"
  shows "F \<in> set fs \<Longrightarrow> replace_in_fun F = F" and "g \<in> set gs \<Longrightarrow> replace_in_global g = g"
proof -
  assume F: "F \<in> set fs"
  have "replace_op (op i) = op i" if "b \<in> set (body F)" "i \<in> set b" for b i
    by (rule unmentioned_op) (use assms F that in \<open>auto simp: mentioned_def list_ex_iff\<close>)
  then have "map (map (\<lambda>i. i\<lparr>op := replace_op (op i)\<rparr>)) (body F) = body F" by (intro map_idI) simp
  then show "replace_in_fun F = F" by (simp add: replace_in_fun_def)
next
  assume g: "g \<in> set gs"
  have "map replace_val (ginit g) = ginit g"
    by (intro map_idI unmentioned_val) (use assms g in \<open>auto simp: mentioned_def list_ex_iff\<close>)
  then show "replace_in_global g = g" by (simp add: replace_in_global_def)
qed

lemma safety_unchanged:
  assumes q: "quiet (snd (run_safety L fnm rules M0))" and r: "registered M0 = []"
  shows "fst (run_safety L fnm rules M0) = declare_runtime M0"
proof -
  define M where "M = declare_runtime M0"
  have reg0: "registered M = []" "source_file M = source_file M0" using r by (simp_all add: M_def)
  let ?f = "instrument_fun L fnm (fst (load_ignorelist rules)) (glob_match_any fnm (snd (load_ignorelist rules)) (source_file M))"
  let ?taken = "filter (\<lambda>(n, w). mentioned (map (fst \<circ> instrument_global L) (mglobals M)) (map (fst \<circ> ?f) (mfuns M)) n) alloc_ptrs"
  have s: "quiet (snd (emit_each (instrument_global L) (mglobals M)))" "quiet (snd (emit_each ?f (mfuns M)))"
    and tk: "quiet (map (\<lambda>p. Alloc_Ptrs) ?taken)"
    using q by (simp_all add: run_safety_def split_beta Let_def flip: M_def)
  have taken: "?taken = []"
  proof (rule ccontr)
    assume "?taken \<noteq> []"
    then obtain p ps where "?taken = p # ps" by (cases ?taken) simp_all
    then have "\<not> quiet (map (\<lambda>p. Alloc_Ptrs) ?taken)" by (simp only: list.map quiet_append(3)) simp
    then show False using tk by simp
  qed
  then have "\<forall>p \<in> set alloc_ptrs. \<not> mentioned (map (fst \<circ> instrument_global L) (mglobals M)) (map (fst \<circ> ?f) (mfuns M)) (fst p)"
    by (auto simp: filter_empty_conv)
  then have m: "\<not> mentioned (map (fst \<circ> instrument_global L) (mglobals M)) (map (fst \<circ> ?f) (mfuns M)) k"
    if "k \<in> fst ` set alloc_ptrs" for k
    using that by blast
  have e: "eligible_global L g = None" if "g \<in> set (mglobals M)" for g
    using s(1) that global_unchanged by (auto simp: emit_each_def)
  then have gl: "map (fst \<circ> instrument_global L) (mglobals M) = mglobals M"
    by (intro map_idI) (simp add: instrument_global_def)
  have reg: "register_globals L (mglobals M) = []" using e by (simp add: register_globals_def)
  have fu: "map (fst \<circ> ?f) (mfuns M) = mfuns M"
    using s(2) fun_unchanged by (intro map_idI) (auto simp: emit_each_def)
  note u = unmentioned_fun [OF m, unfolded gl fu]
  have f: "map replace_in_fun (map (fst \<circ> ?f) (mfuns M)) = mfuns M" unfolding fu using u by (auto intro!: map_idI)
  have g: "map replace_in_global (map (fst \<circ> instrument_global L) (mglobals M)) = mglobals M"
    unfolding gl using u by (auto intro!: map_idI)
  have "fst (run_safety L fnm rules M0) = M\<lparr>mglobals := map replace_in_global (map (fst \<circ> instrument_global L) (mglobals M)),
      mfuns := map replace_in_fun (map (fst \<circ> ?f) (mfuns M)), registered := register_globals L (mglobals M)\<rparr>"
    using taken by (simp add: run_safety_def split_beta Let_def flip: M_def)
  then show ?thesis using reg reg0 f g by (simp flip: M_def)
qed

section \<open>Race mode\<close>

lemma race_quiet_append [simp]:
  "\<not> race_reports_changed []"
  "race_reports_changed (xs @ ys) \<longleftrightarrow> race_reports_changed xs \<or> race_reports_changed ys"
  "race_reports_changed (x # xs) \<longleftrightarrow> x \<in> {Race_Accesses, Race_Atomics, Race_Syncs} \<or> race_reports_changed xs"
  by (auto simp: race_reports_changed_def)

lemma race_quiet_concat [simp]: "race_reports_changed (concat xss) \<longleftrightarrow> (\<exists>xs \<in> set xss. race_reports_changed xs)"
  by (induction xss) simp_all

lemma sync_unchanged: "\<not> race_reports_changed (snd (redirect_sync i)) \<Longrightarrow> fst (redirect_sync i) = i"
  by (auto simp: redirect_sync_def split: ir_op.splits callee.splits option.splits)

lemma hook_unchanged: "\<not> race_reports_changed (snd (hook_insn L i)) \<Longrightarrow> fst (hook_insn L i) = [i]"
  by (auto simp: hook_insn_def emit_access_def split_beta Let_def split: ir_op.splits bool.splits option.splits if_splits)

lemma hooks_unchanged: "\<not> race_reports_changed (snd (emit_all (hook_insn L) b)) \<Longrightarrow> fst (emit_all (hook_insn L) b) = b"
  by (induction b) (simp_all add: hook_unchanged)

lemma race_fun_unchanged:
  assumes "\<not> race_reports_changed (snd (race_fun L F))"
  shows "fst (race_fun L F) = F"
proof -
  have s: "fst (redirect_syncs F) = F" if "\<not> race_reports_changed (snd (redirect_syncs F))"
  proof -
    have "map (fst \<circ> emit_each redirect_sync) (body F) = body F"
      using that sync_unchanged by (auto simp: redirect_syncs_def emit_each_def Let_def intro!: map_idI)
    then show ?thesis by (simp add: redirect_syncs_def Let_def comp_def)
  qed
  have h: "fst (hook_body L F) = F" if "\<not> race_reports_changed (snd (hook_body L F))"
  proof -
    have "map (fst \<circ> emit_all (hook_insn L)) (body F) = body F"
      using that hooks_unchanged by (auto simp: hook_body_def Let_def intro!: map_idI)
    then show ?thesis by (simp add: hook_body_def Let_def comp_def)
  qed
  show ?thesis using assms s h by (auto simp: race_fun_def split_beta Let_def split: if_splits)
qed

lemma wrappers_quiet:
  assumes "\<not> race_reports_changed (snd (race_fun L F))"
  shows "wrappers_used F = []"
proof -
  have "wrapper_of i = None" if "\<not> race_reports_changed (snd (redirect_sync i))" for i
    using that by (auto simp: redirect_sync_def wrapper_of_def split: ir_op.splits callee.splits option.splits)
  then have "wrapper_of i = None" if "\<not> race_reports_changed (snd (redirect_syncs F))" "i \<in> set (concat (body F))" for i
    using that by (fastforce simp: redirect_syncs_def emit_each_def Let_def)
  then show ?thesis
    using assms by (auto simp: wrappers_used_def race_fun_def split_beta Let_def List.map_filter_def filter_empty_conv split: if_splits)
qed

lemma race_unchanged:
  assumes "\<not> race_reports_changed (snd (run_race L M0))"
  shows "fst (run_race L M0) = declare_hooks M0"
proof -
  define M where "M = declare_hooks M0"
  have q: "\<not> race_reports_changed (snd (race_fun L F))" if "F \<in> set (mfuns M)" for F
    using assms that by (auto simp: run_race_def emit_each_def Let_def M_def)
  have "map (fst \<circ> race_fun L) (mfuns M) = mfuns M" using q race_fun_unchanged by (intro map_idI) simp
  moreover have "wrappers_used F = []" if "F \<in> set (mfuns M)" for F using wrappers_quiet [OF q [OF that]] .
  then have "concat (map wrappers_used (mfuns M)) = []" by (simp only: concat_eq_Nil_conv) simp
  ultimately show ?thesis by (simp add: run_race_def split_beta Let_def del: concat_eq_Nil_conv flip: M_def)
qed

section \<open>The property\<close>

text \<open>What a run has declared when it is over, if nothing else.\<close>

definition only_declared :: "bool \<Rightarrow> ir_module \<Rightarrow> ir_module" where
  "only_declared race M =
     M\<lparr>mfuns := mfuns M @ map extern_fun (undeclared M (if race then race_hooks else map fst runtime_sigs)),
       mglobals := mglobals M @
         (if race \<or> ''__redzone_shadow_base'' \<in> gname ` set (mglobals M) then [] else [extern_global ''__redzone_shadow_base'' T_ptr])\<rparr>"

lemma declared_only: "declare_runtime M = only_declared False M" "declare_hooks M = only_declared True M"
proof -
  have "distinct (map fst runtime_sigs)" "distinct race_hooks" by code_simp+
  note d = this [THEN declare_all_distinct, of M]
  show "declare_runtime M = only_declared False M"
    by (simp add: declare_runtime_def d(1) get_or_insert_global_def only_declared_def)
  show "declare_hooks M = only_declared True M"
    by (simp add: declare_hooks_def d(2) only_declared_def)
qed

text \<open>C29. When the pass tells the compiler that it changed nothing, so that all analyses are kept, the code is as it was, in
  either mode: every function and every global of the module is the one of the source, no constructor was added and no
  address was replaced. The module is not always the same, though: what it did not have yet of the runtime's functions,
  and in memory-safety mode the base of the shadow, has been declared, in this order, at the end, and nothing else.\<close>

theorem preserved_unchanged:
  assumes "run_pass race L fnm rules M = (M', text, False)" and "registered M = []"
  shows "M' = only_declared race M"
  using assms safety_unchanged [of L fnm rules M] race_unchanged [of L M] declared_only
  by (auto simp: run_pass_def split_beta Let_def split: if_splits)

definition idle_module :: ir_module where
  "idle_module = \<lparr>source_file = ''a.c'', mglobals = [], mfuns = [\<lparr>fname = ''f'', is_declaration = False, no_instrument = False,
     body = [[demo_insn (I_Call (Direct ''puts'') [V_Str ''hi''] T_i32) (Some (Id 1)), demo_insn I_Ret None]]\<rparr>], registered = []\<rparr>"

lemma idle_quiet: "\<not> reports_changed (snd (run_safety demo_layout (=) None idle_module))"
  by code_simp

theorem preserved_unchanged_witness:
  "fst (run_pass False demo_layout (=) None idle_module) = only_declared False idle_module"
proof -
  have "run_pass False demo_layout (=) None idle_module
      = (fst (run_pass False demo_layout (=) None idle_module), fst (snd (run_pass False demo_layout (=) None idle_module)), False)"
    using idle_quiet by (simp add: run_pass_def split_beta Let_def)
  from preserved_unchanged [OF this] show ?thesis by (simp add: idle_module_def)
qed

text \<open>So \<^verbatim>\<open>PreservedAnalyses::all()\<close> is returned for a module that the run has added to.\<close>

lemma declared_although_preserved:
  "snd (snd (run_pass False demo_layout (=) None idle_module)) = False"
  "fst (run_pass False demo_layout (=) None idle_module) \<noteq> idle_module"
proof -
  show "snd (snd (run_pass False demo_layout (=) None idle_module)) = False"
    using idle_quiet by (simp add: run_pass_def split_beta Let_def)
  have "fst (run_safety demo_layout (=) None idle_module) = only_declared False idle_module"
    using safety_unchanged [of demo_layout "(=)" None idle_module] idle_quiet declared_only by (simp add: idle_module_def)
  moreover have "length (mglobals (only_declared False idle_module)) = 1" by (simp add: only_declared_def idle_module_def)
  ultimately show "fst (run_pass False demo_layout (=) None idle_module) \<noteq> idle_module"
    by (auto simp: run_pass_def split_beta Let_def idle_module_def)
qed

end
