(* ===== verification/Mem_Programs.thy ===== *)
theory Mem_Programs
  imports Pass_Redundant RZ_LeakProps RZ_Libc
begin

text \<open>
  Instrumented programs against the memory checker, from the start of the process to its end: the operations an
  instrumented C program is made of, the frame of a function, the process around \<^verbatim>\<open>main\<close>, and the rules that
  follow such a program call by call. What the system allocator answers in each state is a parameter.
\<close>

section \<open>Programs\<close>

type_synonym os = "rt \<Rightarrow> sys"

text \<open>
  A run of \<^verbatim>\<open>main\<close>: exit status, what was printed on stdout, and the state; nothing when a call does not return, which
  only the string functions can do.
\<close>

type_synonym run = "(int \<times> string \<times> rt) outcome option"

fun bindS :: "'a outcome option \<Rightarrow> ('a \<Rightarrow> 'b outcome option) \<Rightarrow> 'b outcome option" where
  "bindS (Some (Done x)) f = f x"
| "bindS (Some (Halt h)) f = Some (Halt h)"
| "bindS None f = None"

text \<open>\<open>p[i]\<close> of an array of elements of \<open>w\<close> bytes; loads and stores with their checks.\<close>

definition idx :: "u64 \<Rightarrow> nat \<Rightarrow> nat \<Rightarrow> u64" where
  "idx p w i = p + of_nat (w * i)"

definition word_at :: "memory \<Rightarrow> u64 \<Rightarrow> 'a::len word" where
  "word_at m a = of_nat (load_le (LENGTH('a) div 8) m a)"

definition put_word :: "u64 \<Rightarrow> 'a::len word \<Rightarrow> memory \<Rightarrow> memory" where
  "put_word a v m = store_le (LENGTH('a) div 8) m a (unat v)"

definition load_at :: "os \<Rightarrow> u64 \<Rightarrow> cstr \<Rightarrow> int \<Rightarrow> rt \<Rightarrow> ('a::len word \<times> rt) outcome" where
  "load_at os a f l s =
     bindO (exec_check (os s) a (of_nat (LENGTH('a) div 8)) False f l s) (\<lambda>s. Done (word_at (mem s) a, s))"

definition store_at :: "os \<Rightarrow> u64 \<Rightarrow> 'a::len word \<Rightarrow> cstr \<Rightarrow> int \<Rightarrow> rt \<Rightarrow> rt outcome" where
  "store_at os a v f l s =
     bindO (exec_check (os s) a (of_nat (LENGTH('a) div 8)) True f l s) (\<lambda>s. Done (set_mem s (put_word a v)))"

text \<open>\<open>for (i = k; n more times; i++)\<close>.\<close>

fun for_up :: "nat \<Rightarrow> nat \<Rightarrow> (nat \<Rightarrow> 's \<Rightarrow> 's outcome) \<Rightarrow> 's \<Rightarrow> 's outcome" where
  "for_up k 0 f s = Done s"
| "for_up k (Suc n) f s = bindO (f k s) (for_up (Suc k) n f)"

text \<open>Two loops the programs are full of: filling an array, and folding over one.\<close>

definition fill_array :: "os \<Rightarrow> u64 \<Rightarrow> nat \<Rightarrow> (nat \<Rightarrow> 'a::len word) \<Rightarrow> cstr \<Rightarrow> int \<Rightarrow> rt \<Rightarrow> rt outcome" where
  "fill_array os p n g f l s = for_up 0 n (\<lambda>i. store_at os (idx p (LENGTH('a) div 8) i) (g i) f l) s"

definition fold_array ::
  "os \<Rightarrow> u64 \<Rightarrow> nat \<Rightarrow> ('b \<Rightarrow> 'a::len word \<Rightarrow> 'b) \<Rightarrow> 'b \<Rightarrow> cstr \<Rightarrow> int \<Rightarrow> rt \<Rightarrow> ('b \<times> rt) outcome" where
  "fold_array os p n h x f l s = for_up 0 n (\<lambda>i (x, s).
     bindO (load_at os (idx p (LENGTH('a) div 8) i) f l s) (\<lambda>(v, s). Done (h x v, s))) (x, s)"

text \<open>The slots of a function's stack variables, in order: each is entered at the top and left before a return.\<close>

fun enter_slots :: "os \<Rightarrow> (u64 \<times> u64) list \<Rightarrow> rt \<Rightarrow> rt outcome" where
  "enter_slots os [] s = Done s"
| "enter_slots os ((base, usz) # fs) s = bindO (redzone_stack_enter (os s) base usz s) (enter_slots os fs)"

fun leave_slots :: "os \<Rightarrow> (u64 \<times> u64) list \<Rightarrow> rt \<Rightarrow> rt outcome" where
  "leave_slots os [] s = Done s"
| "leave_slots os ((base, usz) # fs) s = bindO (redzone_stack_leave (os s) base usz s) (leave_slots os fs)"

definition with_frame :: "os \<Rightarrow> (u64 \<times> u64) list \<Rightarrow> (rt \<Rightarrow> run) \<Rightarrow> rt \<Rightarrow> run" where
  "with_frame os fs prog s =
     bindS (Some (enter_slots os fs s)) (\<lambda>s.
     bindS (prog s) (\<lambda>(st, out, s).
     Some (bindO (leave_slots os fs s) (\<lambda>s. Done (st, out, s)))))"

text \<open>The constructor of a module registers its globals: data, size and whether the symbol is external.\<close>

fun global_ctor :: "os \<Rightarrow> (u64 \<times> u64 \<times> bool) list \<Rightarrow> rt \<Rightarrow> rt outcome" where
  "global_ctor os [] s = Done s"
| "global_ctor os ((data, sz, ext) # gs) s =
     bindO (if ext then redzone_global_register_right (os s) data sz s else redzone_global_register (os s) data sz s)
       (global_ctor os gs)"

section \<open>The process\<close>

text \<open>How a process ends: with a status, what it printed on stdout and on stderr, or aborted.\<close>

datatype process_end = Exited int string string | Aborted string | Failed

fun at_end :: "report_env \<Rightarrow> leak_env \<Rightarrow> (int \<times> string \<times> rt) outcome \<Rightarrow> process_end" where
  "at_end env le (Done (st, out, s)) =
     (case report_leaks env le s of
        Done (Return s) \<Rightarrow> Exited st out []
      | Done (Exit1 txt) \<Rightarrow> Exited 1 out txt
      | Halt (Report r) \<Rightarrow> Aborted (report_text env r)
      | Halt _ \<Rightarrow> Failed)"
| "at_end env le (Halt h) = (case h of Report r \<Rightarrow> Aborted (report_text env r) | _ \<Rightarrow> Failed)"

definition run_process ::
  "report_env \<Rightarrow> leak_env \<Rightarrow> os \<Rightarrow> memory \<Rightarrow> (u64 \<times> u64 \<times> bool) list \<Rightarrow> (rt \<Rightarrow> run) \<Rightarrow> process_end option" where
  "run_process env le os img gs main =
     (let s = init_rt\<lparr>mem := img\<rparr> in
      map_option (at_end env le)
        (bindS (Some (bindO (redzone_shadow_startup (os s) s) (global_ctor os gs))) main))"

text \<open>The verdict of \<^verbatim>\<open>scripts/test.sh\<close>: a clean exit, or a failing one with the named error on stderr.\<close>

fun verdict :: "string \<Rightarrow> process_end option \<Rightarrow> bool" where
  "verdict want (Some (Exited st out err)) =
     (if want = ''OK'' then st = 0 else st \<noteq> 0 \<and> contains (''==redzone ERROR: '' @ want) err)"
| "verdict want (Some (Aborted err)) = (want \<noteq> ''OK'' \<and> contains (''==redzone ERROR: '' @ want) err)"
| "verdict want (Some Failed) = False"
| "verdict want None = False"

section \<open>The allocator and the memory the program has besides the heap\<close>

text \<open>
  What \<^verbatim>\<open>malloc\<close> of the C library promises: blocks as in \<open>sys_ok\<close>, none of them over the regions the program
  holds outside the heap; and a machine that has room to give: some memory for a request of up to eight
  kilobytes as long as there are at most a million blocks of at most 64 kilobytes.
\<close>

definition allocator :: "(u64 \<times> u64) list \<Rightarrow> os \<Rightarrow> bool" where
  "allocator R os \<longleftrightarrow> (\<forall>s. sys_ok (os s) s \<and> (\<forall>n. sys_malloc (os s) n \<noteq> 0 \<longrightarrow>
     (\<forall>(p, k) \<in> set R. unat p + unat k \<le> unat (sys_malloc (os s) n)
        \<or> unat (sys_malloc (os s) n) + unat n \<le> unat p)))"

definition light :: "block list \<Rightarrow> bool" where
  "light bs \<longleftrightarrow> length bs \<le> 1000000 \<and> (\<forall>b \<in> set bs. unat (total_size b) \<le> 65536)"

definition roomy :: "os \<Rightarrow> bool" where
  "roomy os \<longleftrightarrow> (\<forall>s. sys_mmap_ok (os s) \<and> (light (blocks s) \<longrightarrow>
     sys_realloc_ok (os s) \<and> (\<forall>n. unat n \<le> 8192 \<longrightarrow> sys_malloc (os s) n \<noteq> 0)))"

definition regions_ok :: "(u64 \<times> u64) list \<Rightarrow> bool" where
  "regions_ok R \<longleftrightarrow> (\<forall>(p, n) \<in> set R. unat p mod 8 = 0 \<and> unat p + unat n \<le> 140737488355328)"

text \<open>The state in the middle of a program: the blocks, and the shadow of the regions outside the heap.\<close>

definition stands :: "(u64 \<times> u64) list \<Rightarrow> (u64 \<Rightarrow> i8) \<Rightarrow> block list \<Rightarrow> rt \<Rightarrow> bool" where
  "stands R sh bs s \<longleftrightarrow> heap_wf s \<and> leak_on s \<and> blocks s = bs \<and> light bs
     \<and> (\<forall>b \<in> set bs. \<forall>(p, n) \<in> set R. apart p n b)
     \<and> (\<forall>(p, n) \<in> set R. \<forall>x. unat p \<le> unat x \<longrightarrow> unat x < unat p + unat n \<longrightarrow> shadow_val s x = sh x)"

definition new_in :: "block \<Rightarrow> u64 \<Rightarrow> cstr \<Rightarrow> int \<Rightarrow> bool" where
  "new_in b sz f l \<longleftrightarrow> block_ok b \<and> user_size b = sz \<and> \<not> freed b \<and> alloc_file b = f \<and> alloc_line b = l"

lemma standsD:
  assumes "stands R sh bs s"
  shows "heap_wf s" "leak_on s" "blocks s = bs" "light bs" "b \<in> set bs \<Longrightarrow> (p, n) \<in> set R \<Longrightarrow> apart p n b"
    "(p, n) \<in> set R \<Longrightarrow> unat p \<le> unat x \<Longrightarrow> unat x < unat p + unat n \<Longrightarrow> shadow_val s x = sh x"
    "b \<in> set bs \<Longrightarrow> block_ok b"
  using assms heap_wfD(6) [of s] by (auto simp: stands_def)

lemma region_chunks:
  assumes "regions_ok R" and "(p, n) \<in> set R" and "apart p n b" and "block_ok b"
    and "unat p \<le> unat (x :: u64)" and "unat x < unat p + unat n"
  shows "\<not> in_chunks b (unat x div 8)"
proof
  assume c: "in_chunks b (unat x div 8)"
  have al: "unat p mod 8 = 0" using assms(1,2) by (auto simp: regions_ok_def)
  have "unat x div 8 < unat p div 8 \<or> (unat p + unat n + 7) div 8 \<le> unat x div 8"
    by (rule apart_chunks [OF assms(3) al assms(4) c])
  moreover have "unat p div 8 \<le> unat x div 8" using assms(5) by (rule div_le_mono)
  moreover have "unat x div 8 < (unat p + unat n + 7) div 8"
    using div_le_mono [of "unat x + 8" "unat p + unat n + 7" 8] assms(6) by simp
  ultimately show False by linarith
qed

lemma allocatorD:
  assumes "allocator R os"
  shows "sys_ok (os s) s"
    and "sys_malloc (os s) n \<noteq> 0 \<Longrightarrow> (p, k) \<in> set R \<Longrightarrow> unat p + unat k \<le> unat (sys_malloc (os s) n)
        \<or> unat (sys_malloc (os s) n) + unat n \<le> unat p"
  using assms unfolding allocator_def by blast+

section \<open>Allocation\<close>

text \<open>A state with one block more, and nothing else changed.\<close>

definition grown ::
  "(u64 \<times> u64) list \<Rightarrow> (u64 \<Rightarrow> i8) \<Rightarrow> block list \<Rightarrow> rt \<Rightarrow> u64 \<Rightarrow> cstr \<Rightarrow> int \<Rightarrow> block \<Rightarrow> rt \<Rightarrow> bool" where
  "grown R sh bs s sz f l b s' \<longleftrightarrow> new_in b sz f l \<and> stands R sh (bs @ [b]) s'
     \<and> (\<forall>x. \<not> in_block b (unat x) \<longrightarrow> mem s' x = mem s x)"

lemma stands_allocate:
  assumes st: "stands R sh bs s" and al: "allocator R os" and ro: "roomy os" and R: "regions_ok R"
    and k: "4 \<le> k" "k \<le> 6" and sz: "unat sz \<le> 8000" and n: "length bs < 1000000"
  shows "\<exists>b s'. rz_allocate (os s) sz (2 ^ k) f l s = Done (user_addr b, s')
    \<and> unat (user_addr b) mod 2 ^ k = 0 \<and> grown R sh bs s sz f l b s'"
proof -
  note d = standsD [OF st]
  note w = heap_wfD [OF d(1)]
  have k64: "k < 64" using k by simp
  have pw: "(2 :: nat) ^ k \<le> 2 ^ 6" using k(2) by (rule power_increasing) simp
  then have sl: "unat (alloc_slack (2 ^ k)) \<le> 64" by (simp add: unat_alloc_slack [OF k64])
  have g: "\<not> sz > SIZE_MAX - 2 * REDZONE_SIZE - alloc_slack (2 ^ k)"
    unfolding alloc_guard [OF k64] using sl sz by simp
  let ?n = "alloc_total sz (2 ^ k)" let ?base = "sys_malloc (os s) ?n"
  have tn: "unat ?n \<le> 8192" using unat_alloc_total [OF k64 g] sl sz by simp
  then have nz: "?base \<noteq> 0" and re: "sys_realloc_ok (os s)" using ro d(3,4) by (auto simp: roomy_def)
  have so: "unat ?base mod 16 = 0" "unat ?base + unat ?n \<le> 140737488355328" "\<forall>b \<in> set bs. apart ?base ?n b"
    using al nz d(3) by (auto simp: allocator_def sys_ok_def)
  let ?b = "new_block ?base sz (2 ^ k) f l" and ?s = "alloc_result ?base sz (2 ^ k) f l s"
  note own = alloc_result_block [OF w(1) k(1) k64 g so(1,2)]
  have bok: "block_ok ?b" by (rule new_block_ok [OF k(1) k64 g so(1,2)])
  have bs: "blocks ?s = bs @ [?b]" by (simp add: alloc_result_def d(3))
  have ap: "apart p m ?b" if "(p, m) \<in> set R" for p m
    using allocatorD(2) [OF al nz that] by (simp add: apart_def new_block_def)
  have "stands R sh (bs @ [?b]) ?s"
    unfolding stands_def
  proof (intro conjI)
    show "heap_wf ?s" by (rule alloc_result_wf [OF d(1) k(1) k64 g so(1,2)]) (use so(3) d(3) in simp)
    show "leak_on ?s" using d(2) by (simp add: alloc_result_def)
    show "light (bs @ [?b])" using d(4) n tn by (simp add: light_def new_block_def)
    show "\<forall>b \<in> set (bs @ [?b]). \<forall>(p, n) \<in> set R. apart p n b" using d(5) ap by auto
    show "\<forall>(p, n) \<in> set R. \<forall>x. unat p \<le> unat x \<longrightarrow> unat x < unat p + unat n \<longrightarrow> shadow_val ?s x = sh x"
      using own(2) region_chunks [OF R _ ap bok] d(6) by auto
  qed (rule bs)
  moreover have "rz_allocate (os s) sz (2 ^ k) f l s = Done (user_addr ?b, ?s)"
    using rz_allocate_eq [OF w(1,2), of "os s" sz "2 ^ k" f l] g nz re by (simp add: new_block_def)
  moreover have "new_in ?b sz f l" using bok by (simp add: new_in_def) (simp add: new_block_def)
  moreover have "unat (user_addr ?b) mod 2 ^ k = 0"
    using alloc_layout(1) [OF k(1) k64 so(1) g so(2)] by (simp add: new_block_def)
  moreover have "mem ?s x = mem s x" if "\<not> in_block ?b (unat x)" for x using own(5) that .
  ultimately show ?thesis by (intro exI [of _ ?b] exI [of _ ?s]) (simp add: grown_def)
qed

lemma stands_malloc:
  assumes "stands R sh bs s" and "allocator R os" and "roomy os" and "regions_ok R"
    and "unat sz \<le> 8000" and "length bs < 1000000"
  shows "\<exists>b s'. redzone_malloc (os s) sz f l s = Done (user_addr b, s') \<and> grown R sh bs s sz f l b s'"
proof -
  have e: "redzone_malloc sys sz f l s = rz_allocate sys sz (2 ^ 4) f l s" for sys
    by (simp add: redzone_malloc_def REDZONE_SIZE_def)
  show ?thesis unfolding e using stands_allocate [OF assms(1-4) _ _ assms(5,6), of 4 f l] by auto
qed

lemma is_pow2_pow: "k < 64 \<Longrightarrow> is_pow2 (2 ^ k)"
  by (auto simp: is_pow2_iff)

lemma stands_aligned_alloc:
  assumes "stands R sh bs s" and "allocator R os" and "roomy os" and "regions_ok R"
    and k: "4 \<le> k" "k \<le> 6" and "unat sz \<le> 8000" and "length bs < 1000000"
  shows "\<exists>b s'. redzone_aligned_alloc (os s) (2 ^ k) sz f l s = Done (user_addr b, s')
    \<and> unat (user_addr b) mod 2 ^ k = 0 \<and> grown R sh bs s sz f l b s'"
proof -
  have k64: "k < 64" using k by simp
  have "(2 :: nat) ^ 4 \<le> 2 ^ k" using k(1) by (rule power_increasing) simp
  then have "\<not> (2 :: u64) ^ k < REDZONE_SIZE" by (simp add: REDZONE_SIZE_def word_less_nat_alt unat_pow2 [OF k64])
  then have e: "redzone_aligned_alloc sys (2 ^ k) sz f l s = rz_allocate sys sz (2 ^ k) f l s" for sys
    by (simp add: redzone_aligned_alloc_def is_pow2_pow [OF k64])
  show ?thesis unfolding e by (rule stands_allocate [OF assms])
qed

section \<open>Release\<close>

text \<open>Changes of a state in the middle of a program.\<close>

lemma stands_freed:
  assumes st: "stands R sh bs s" and R: "regions_ok R" and i: "i < length bs"
  shows "stands R sh (bs[i := (bs ! i)\<lparr>freed := True\<rparr>]) (freed_result i s)"
proof -
  note d = standsD [OF st]
  have b: "bs ! i \<in> set bs" "block_ok (bs ! i)" using i d(7) by simp_all
  have sv: "shadow_val (freed_result i s) x = shadow_val s x" if "\<not> in_chunks (bs ! i) (unat x div 8)" for x
    using that user_chunks_in_block [OF b(2)]
    by (auto simp: shadow_val_freed [OF heap_wfD(1) [OF d(1)], of i, unfolded d(3), OF b(2)])
  have r: "\<forall>(p, n) \<in> set R. \<forall>x. unat p \<le> unat x \<longrightarrow> unat x < unat p + unat n \<longrightarrow> shadow_val (freed_result i s) x = sh x"
    using sv region_chunks [OF R _ d(5) [OF b(1)] b(2)] d(6) by auto
  have u: "b' \<in> set bs \<or> b' = (bs ! i)\<lparr>freed := True\<rparr>" if "b' \<in> set (bs[i := (bs ! i)\<lparr>freed := True\<rparr>])" for b'
    using that set_update_subset_insert [of bs i] by blast
  have "light (bs[i := (bs ! i)\<lparr>freed := True\<rparr>])" using d(4) b(1) by (auto simp: light_def dest!: u)
  moreover have "apart p n b'" if "b' \<in> set (bs[i := (bs ! i)\<lparr>freed := True\<rparr>])" "(p, n) \<in> set R" for b' p n
    using u [OF that(1)] d(5) [OF _ that(2)] d(5) [OF b(1) that(2)] by (auto simp: apart_def)
  ultimately show ?thesis
    using freed_result_wf [OF d(1)] i d(2,3) r by (auto simp: stands_def)
qed

lemma stands_mem:
  assumes st: "stands R sh bs s"
    and keep: "\<And>b x :: u64. b \<in> set bs \<Longrightarrow> in_block b (unat x) \<Longrightarrow> \<not> in_user b (unat x) \<Longrightarrow> m x = mem s x"
  shows "stands R sh bs (s\<lparr>mem := m\<rparr>)"
proof -
  note d = standsD [OF st]
  have "heap_wf (s\<lparr>mem := m\<rparr>)" by (rule heap_wf_mem [OF d(1)]) (use keep d(3) in auto)
  then show ?thesis using st by (simp add: stands_def)
qed

lemma user_in_block: "block_ok b \<Longrightarrow> in_block b (unat (user_addr b))"
  using block_okD(4,5) [of b] by (simp add: in_block_def)

lemma own_block:
  assumes "stands R sh bs s" and "i < length bs" and "in_block (bs ! i) (unat a)"
  shows "find_block a s = Some i"
  using assms standsD(1,3) [OF assms(1)] by (simp add: find_block_unique)

lemma stands_free:
  assumes st: "stands R sh bs s" and R: "regions_ok R" and i: "i < length bs" "\<not> freed (bs ! i)"
    and p: "p = user_addr (bs ! i)"
  shows "redzone_free sys p s = Done (freed_result i s)"
    and "stands R sh (bs[i := (bs ! i)\<lparr>freed := True\<rparr>]) (freed_result i s)"
proof -
  have b: "block_ok (bs ! i)" using standsD(7) [OF st] i by simp
  then have "p \<noteq> 0" using block_okD(3) [of "bs ! i"] p by auto
  then show "redzone_free sys p s = Done (freed_result i s)"
    using free_by_block [OF standsD(1) [OF st], of p sys] own_block [OF st i(1) user_in_block [OF b]] i p standsD(3) [OF st]
    by simp
  show "stands R sh (bs[i := (bs ! i)\<lparr>freed := True\<rparr>]) (freed_result i s)" by (rule stands_freed [OF st R i(1)])
qed

fun report_kind :: "report_call \<Rightarrow> string" where
  "report_kind (ReportFree k p) = k"
| "report_kind (ReportBlock k a sz w f l b) = k"
| "report_kind (ReportSimple k a sz w f l) = k"

definition reports :: "string \<Rightarrow> 'a outcome \<Rightarrow> bool" where
  "reports k m \<longleftrightarrow> (\<exists>r. m = Halt (Report r) \<and> report_kind r = k)"

lemma reports_bind: "reports k m \<Longrightarrow> reports k (bindO m g)"
  by (auto simp: reports_def)

lemma double_free_reported:
  assumes st: "stands R sh bs s" and i: "i < length bs" "freed (bs ! i)" and p: "p = user_addr (bs ! i)"
  shows "reports ''double-free'' (redzone_free sys p s)"
proof -
  have b: "block_ok (bs ! i)" using standsD(7) [OF st] i by simp
  then have "p \<noteq> 0" using block_okD(3) [of "bs ! i"] p by auto
  then show ?thesis
    using free_by_block [OF standsD(1) [OF st], of p sys] own_block [OF st i(1) user_in_block [OF b]] i p standsD(3) [OF st]
    by (simp add: reports_def)
qed

lemma invalid_free_reported:
  assumes st: "stands R sh bs s" and i: "i < length bs" and p: "in_block (bs ! i) (unat p)" "p \<noteq> user_addr (bs ! i)" "p \<noteq> 0"
  shows "reports ''invalid-free'' (redzone_free sys p s)"
  using free_by_block [OF standsD(1) [OF st] p(3), of sys] own_block [OF st i p(1)] p(2) standsD(3) [OF st]
  by (auto simp: reports_def)

section \<open>Accesses\<close>

lemma access_ends:
  assumes st: "stands R sh bs s" and i: "i < length bs" and n: "0 < n" "n < 18446744073709551616"
    and a: "in_block (bs ! i) (unat a)" "in_block (bs ! i) (unat a + n - 1)"
  shows "unat a + n \<le> 140737488355328"
    and "clean_ends s a (of_nat n) \<longleftrightarrow>
      \<not> freed (bs ! i) \<and> in_user (bs ! i) (unat a) \<and> in_user (bs ! i) (unat a + n - 1)"
proof -
  note d = standsD [OF st]
  have b: "bs ! i \<in> set (blocks s)" "block_ok (bs ! i)" using i d(3,7) by simp_all
  show lim: "unat a + n \<le> 140737488355328" using a(2) block_okD(6) [OF b(2)] n unfolding in_block_def by linarith
  have u: "unat (of_nat n :: u64) = n" using n(2) by (rule unat_nat64)
  have "unat (a + of_nat n - 1) = unat a + n - 1" using last_byte [of "of_nat n" a] u n lim by simp
  then show "clean_ends s a (of_nat n) \<longleftrightarrow>
      \<not> freed (bs ! i) \<and> in_user (bs ! i) (unat a) \<and> in_user (bs ! i) (unat a + n - 1)"
    using poisoned_in_block [OF heap_wfD(5) [OF d(1)] b, of a] poisoned_in_block [OF heap_wfD(5) [OF d(1)] b, of "a + of_nat n - 1"] a
    by (auto simp: clean_ends_def)
qed

definition bad_kind :: "block \<Rightarrow> string" where
  "bad_kind b = (if freed b then ''use-after-free'' else ''heap-buffer-overflow'')"

lemma block_report:
  "stands R sh bs s \<Longrightarrow> i < length bs \<Longrightarrow> in_block (bs ! i) (unat a) \<Longrightarrow>
    report_kind (check_report s a n w f l) = bad_kind (bs ! i)"
  using own_block standsD(3) by (simp add: check_report_def bad_kind_def)

lemma exec_check_block:
  assumes st: "stands R sh bs s" and i: "i < length bs" and n: "0 < n" "n < 18446744073709551616"
    and a: "in_block (bs ! i) (unat a)" "in_block (bs ! i) (unat a + n - 1)"
  shows "if \<not> freed (bs ! i) \<and> in_user (bs ! i) (unat a) \<and> in_user (bs ! i) (unat a + n - 1)
    then exec_check sys a (of_nat n) w f l s = Done s
    else reports (bad_kind (bs ! i)) (exec_check sys a (of_nat n) w f l s)"
proof -
  note e = access_ends [OF st i n a]
  have u: "unat (of_nat n :: u64) = n" using n(2) by (rule unat_nat64)
  have m: "0 < unat (of_nat n :: u64) \<and> unat a + unat (of_nat n :: u64) \<le> 140737488355328" using u n(1) e(1) by simp
  show ?thesis
    using ic.passes [OF standsD(1) [OF st] m, of sys w f l] ic.stops [OF standsD(1) [OF st] m, of sys w f l]
      e(2) block_report [OF st i a(1), of "of_nat n" w f l] by (auto simp: reports_def)
qed

lemma redzone_check_block:
  assumes st: "stands R sh bs s" and i: "i < length bs" and n: "0 < n" "n < 18446744073709551616"
    and a: "in_block (bs ! i) (unat a)" "in_block (bs ! i) (unat a + n - 1)"
  shows "if \<not> freed (bs ! i) \<and> in_user (bs ! i) (unat a) \<and> in_user (bs ! i) (unat a + n - 1)
    then redzone_check sys a (of_nat n) w f l s = Done s
    else reports (bad_kind (bs ! i)) (redzone_check sys a (of_nat n) w f l s)"
proof -
  have "(of_nat n :: u64) \<noteq> 0" using n unat_nat64 [OF n(2)] by fastforce
  then show ?thesis
    using rc.passes [OF standsD(1) [OF st] TrueI, of "of_nat n" a sys w f l] rc.stops [OF standsD(1) [OF st] TrueI, of "of_nat n" a sys w f l]
      access_ends(2) [OF st i n a] block_report [OF st i a(1), of "of_nat n" w f l] by (auto simp: reports_def)
qed

text \<open>The same by the offset from the start of the block: inside, and past the end or after the release.\<close>

lemma idx_0 [simp]: "idx p w 0 = p"
  by (simp add: idx_def)

lemma idx_offset:
  assumes "block_ok b" and "w * i \<le> 1048576"
  shows "unat (idx (user_addr b) w i) = unat (user_addr b) + w * i"
proof -
  have u: "unat (of_nat (w * i) :: u64) = w * i" by (rule unat_nat64) (use assms(2) in simp)
  have "unat (user_addr b) \<le> 140737488355328" using block_okD(5,6) [OF assms(1)] by linarith
  then have "unat (user_addr b) + unat (of_nat (w * i) :: u64) < 18446744073709551616" unfolding u using assms(2) by linarith
  then show ?thesis unfolding idx_def using u by (simp only: unat_plus64)
qed

lemma offset_span:
  assumes "block_ok b" and "unat a = unat (user_addr b) + k" and "0 < n"
  shows "k + n \<le> unat (user_size b) + 16 \<Longrightarrow> in_block b (unat a) \<and> in_block b (unat a + n - 1)"
    and "k + n \<le> unat (user_size b) \<Longrightarrow> in_user b (unat a) \<and> in_user b (unat a + n - 1)"
    and "unat (user_size b) < k + n \<Longrightarrow> \<not> in_user b (unat a + n - 1)"
  using assms block_okD(4,5) [OF assms(1)] unfolding in_block_def in_user_def by linarith+

lemma check_good:
  assumes st: "stands R sh bs s" and i: "i < length bs" "\<not> freed (bs ! i)"
    and a: "unat a = unat (user_addr (bs ! i)) + k" and n: "0 < n" "k + n \<le> unat (user_size (bs ! i))"
  shows "exec_check sys a (of_nat n) w f l s = Done s" and "redzone_check sys a (of_nat n) w f l s = Done s"
proof -
  have b: "block_ok (bs ! i)" using standsD(7) [OF st] i by simp
  note o = offset_span [OF b a n(1)]
  have n64: "n < 18446744073709551616" using n(2) unat_bound64 [of "user_size (bs ! i)"] by linarith
  have ib: "in_block (bs ! i) (unat a)" "in_block (bs ! i) (unat a + n - 1)" using o(1) n(2) by simp_all
  show "exec_check sys a (of_nat n) w f l s = Done s" "redzone_check sys a (of_nat n) w f l s = Done s"
    using exec_check_block [OF st i(1) n(1) n64 ib] redzone_check_block [OF st i(1) n(1) n64 ib] o(2) n(2) i(2) by simp_all
qed

lemma check_bad:
  assumes st: "stands R sh bs s" and i: "i < length bs"
    and a: "unat a = unat (user_addr (bs ! i)) + k" and n: "0 < n" "k + n \<le> unat (user_size (bs ! i)) + 16"
    and bad: "freed (bs ! i) \<or> unat (user_size (bs ! i)) < k + n"
  shows "reports (bad_kind (bs ! i)) (exec_check sys a (of_nat n) w f l s)"
    and "reports (bad_kind (bs ! i)) (redzone_check sys a (of_nat n) w f l s)"
proof -
  have b: "block_ok (bs ! i)" using standsD(7) [OF st] i by simp
  note o = offset_span [OF b a n(1)]
  have "unat (user_size (bs ! i)) + 16 \<le> 140737488355328" using block_okD(5,6) [OF b] by linarith
  then have n64: "n < 18446744073709551616" using n(2) by linarith
  have ib: "in_block (bs ! i) (unat a)" "in_block (bs ! i) (unat a + n - 1)" using o(1) n(2) by simp_all
  show "reports (bad_kind (bs ! i)) (exec_check sys a (of_nat n) w f l s)"
    "reports (bad_kind (bs ! i)) (redzone_check sys a (of_nat n) w f l s)"
    using exec_check_block [OF st i n(1) n64 ib] redzone_check_block [OF st i n(1) n64 ib] o(3) bad by (auto split: if_splits)
qed

text \<open>Before the start: the left red zone.\<close>

lemma check_below:
  assumes st: "stands R sh bs s" and i: "i < length bs"
    and a: "unat a + k = unat (user_addr (bs ! i))" "k \<le> 16" and n: "0 < n" "n \<le> k"
  shows "reports (bad_kind (bs ! i)) (exec_check sys a (of_nat n) w f l s)"
proof -
  have b: "block_ok (bs ! i)" using standsD(7) [OF st] i by simp
  note d = block_okD [OF b]
  have "in_block (bs ! i) (unat a)" "in_block (bs ! i) (unat a + n - 1)" "\<not> in_user (bs ! i) (unat a)"
    using a n d(4,5) unfolding in_block_def in_user_def by linarith+
  then show ?thesis using exec_check_block [OF st i n(1), of a sys w f l] n a(2) by auto
qed

end
