(* ===== verification/Mem_Arrays.thy ===== *)
theory Mem_Arrays
  imports Mem_Programs
begin

text \<open>
  Loads and stores of an instrumented program inside its live blocks, and the two loops over arrays: what they leave
  in memory and what they compute.
\<close>

section \<open>Loads, stores and loops\<close>

lemma span_user:
  assumes b: "block_ok b" and a: "unat a = unat (user_addr b) + k" and n: "k + n \<le> unat (user_size b)"
    and x: "in_span a n x"
  shows "in_user b (unat x)"
proof -
  have "unat a + n \<le> 18446744073709551616" using a n block_okD(5,6) [OF b] by linarith
  then show ?thesis using x a n by (simp add: in_span_nowrap in_user_def)
qed

lemma put_word_outside: "\<not> in_span a (LENGTH('a::len) div 8) x \<Longrightarrow> LENGTH('a) \<le> 64 \<Longrightarrow> put_word a (v :: 'a word) m x = m x"
  by (simp add: put_word_def store_le_outside)

lemma stands_user_write:
  assumes st: "stands R sh bs s" and i: "i < length bs"
    and a: "unat a = unat (user_addr (bs ! i)) + k" and n: "k + n \<le> unat (user_size (bs ! i))"
    and m: "\<And>x. \<not> in_span a n x \<Longrightarrow> m x = mem s x"
  shows "stands R sh bs (s\<lparr>mem := m\<rparr>)"
proof (rule stands_mem [OF st])
  fix b and x :: u64 assume b: "b \<in> set bs" and x: "in_block b (unat x)" "\<not> in_user b (unat x)"
  obtain j where j: "j < length bs" "b = bs ! j" using b by (auto simp: in_set_conv_nth)
  note d = standsD [OF st]
  have bok: "block_ok (bs ! i)" using d(7) i by simp
  have "\<not> in_span a n x"
  proof
    assume "in_span a n x"
    then have u: "in_user (bs ! i) (unat x)" by (rule span_user [OF bok a n])
    then have "i = j"
      using separate_unique [of bs i j "unat x"] d heap_wfD [OF d(1)] x(1) j i in_user_in_block [OF bok] by auto
    with u x(2) j show False by simp
  qed
  then show "m x = mem s x" by (rule m)
qed

section \<open>Outside the heap\<close>

lemma region_check:
  assumes st: "stands R sh bs s" and R: "regions_ok R" and p: "(p, m) \<in> set R" and n: "0 < n"
    and a: "unat p \<le> unat a" "unat a + n \<le> unat p + unat m"
  shows "exec_check sys a (of_nat n) w f l s =
      (if \<not> byte_bad (sh a) (unat a mod 8) \<and> \<not> byte_bad (sh (a + of_nat n - 1)) (unat (a + of_nat n - 1) mod 8) then Done s
       else Halt (Report (ReportSimple (region_kind (sh a) (sh (a + of_nat n - 1))) a (of_nat n) w f l)))"
    and "redzone_check sys a (of_nat n) w f l s = exec_check sys a (of_nat n) w f l s"
    and "unat (a + of_nat n - 1) = unat a + n - 1"
proof -
  note d = standsD [OF st]
  have lim: "unat a + n \<le> 140737488355328" using R p a(2) unfolding regions_ok_def by fastforce
  then have u: "unat (of_nat n :: u64) = n" by (intro unat_nat64) simp
  show lst: "unat (a + of_nat n - 1) = unat a + n - 1" using last_byte [of "of_nat n" a] u n lim by simp
  have sv: "shadow_val s x = sh x" if "unat p \<le> unat x" "unat x < unat p + unat m" for x
    using d(6) [OF p that] .
  have e: "shadow_val s a = sh a" "shadow_val s (a + of_nat n - 1) = sh (a + of_nat n - 1)"
    using a n lst by (intro sv; linarith)+
  have "\<not> in_block b (unat a)" if "b \<in> set bs" for b
    using apart_blocks [OF d(5) [OF that p], of "unat a"] a n by simp
  then have nb: "find_block a s = None" using d(3) by (simp add: find_block_none [OF d(1)])
  have m: "0 < unat (of_nat n :: u64) \<and> unat a + unat (of_nat n :: u64) \<le> 140737488355328" using u n lim by simp
  have z: "(of_nat n :: u64) \<noteq> 0" using u n by fastforce
  show "exec_check sys a (of_nat n) w f l s =
      (if \<not> byte_bad (sh a) (unat a mod 8) \<and> \<not> byte_bad (sh (a + of_nat n - 1)) (unat (a + of_nat n - 1) mod 8) then Done s
       else Halt (Report (ReportSimple (region_kind (sh a) (sh (a + of_nat n - 1))) a (of_nat n) w f l)))"
    using ic.passes [OF d(1) m, of sys w f l] ic.stops [OF d(1) m, of sys w f l]
    by (auto simp: clean_ends_def poisoned_def e check_report_def nb)
  show "redzone_check sys a (of_nat n) w f l s = exec_check sys a (of_nat n) w f l s"
    using ic.passes [OF d(1) m, of sys w f l] ic.stops [OF d(1) m, of sys w f l]
      rc.passes [OF d(1) TrueI, of "of_nat n" a sys w f l] rc.stops [OF d(1) TrueI, of "of_nat n" a sys w f l] z
    by (cases "clean_ends s a (of_nat n)") simp_all
qed

lemma region_write:
  assumes st: "stands R sh bs s" and R: "regions_ok R" and p: "(p, n) \<in> set R"
    and a: "unat p \<le> unat a" "unat a + k \<le> unat p + unat n" and m: "\<And>x. \<not> in_span a k x \<Longrightarrow> m x = mem s x"
  shows "stands R sh bs (s\<lparr>mem := m\<rparr>)"
proof (rule stands_mem [OF st])
  fix b and x :: u64 assume b: "b \<in> set bs" "in_block b (unat x)"
  have "unat a + k \<le> 18446744073709551616" using R p a(2) unfolding regions_ok_def by fastforce
  then have "\<not> in_span a k x"
    using apart_blocks [OF standsD(5) [OF st b(1) p], of "unat x"] b(2) a by (auto simp: in_span_nowrap)
  then show "m x = mem s x" by (rule m)
qed

text \<open>An access outside the heap that the shadow lets through, and one it stops.\<close>

definition open_at :: "(u64 \<times> u64) list \<Rightarrow> (u64 \<Rightarrow> i8) \<Rightarrow> u64 \<Rightarrow> nat \<Rightarrow> bool" where
  "open_at R sh a n \<longleftrightarrow> 0 < n \<and> (\<exists>(p, m) \<in> set R. unat p \<le> unat a \<and> unat a + n \<le> unat p + unat m)
     \<and> \<not> byte_bad (sh a) (unat a mod 8) \<and> \<not> byte_bad (sh (a + of_nat n - 1)) (unat (a + of_nat n - 1) mod 8)"

definition shut_at :: "string \<Rightarrow> (u64 \<times> u64) list \<Rightarrow> (u64 \<Rightarrow> i8) \<Rightarrow> u64 \<Rightarrow> nat \<Rightarrow> bool" where
  "shut_at kd R sh a n \<longleftrightarrow> 0 < n \<and> (\<exists>(p, m) \<in> set R. unat p \<le> unat a \<and> unat a + n \<le> unat p + unat m)
     \<and> (byte_bad (sh a) (unat a mod 8) \<or> byte_bad (sh (a + of_nat n - 1)) (unat (a + of_nat n - 1) mod 8))
     \<and> region_kind (sh a) (sh (a + of_nat n - 1)) = kd"

lemma open_check:
  assumes "stands R sh bs s" and "regions_ok R" and "open_at R sh a n"
  shows "exec_check sys a (of_nat n) w f l s = Done s" and "redzone_check sys a (of_nat n) w f l s = Done s"
proof -
  obtain p m where p: "(p, m) \<in> set R" "unat p \<le> unat a" "unat a + n \<le> unat p + unat m"
    using assms(3) by (auto simp: open_at_def)
  have n: "0 < n" using assms(3) by (simp add: open_at_def)
  note c = region_check [OF assms(1,2) p(1) n p(2,3)]
  show e: "exec_check sys a (of_nat n) w f l s = Done s" using c(1) assms(3) by (simp add: open_at_def)
  show "redzone_check sys a (of_nat n) w f l s = Done s" using c(2) e by simp
qed

lemma shut_check:
  assumes "stands R sh bs s" and "regions_ok R" and "shut_at kd R sh a n"
  shows "reports kd (exec_check sys a (of_nat n) w f l s)" and "reports kd (redzone_check sys a (of_nat n) w f l s)"
proof -
  obtain p m where p: "(p, m) \<in> set R" "unat p \<le> unat a" "unat a + n \<le> unat p + unat m"
    using assms(3) by (auto simp: shut_at_def)
  have n: "0 < n" using assms(3) by (simp add: shut_at_def)
  note c = region_check [OF assms(1,2) p(1) n p(2,3)]
  show e: "reports kd (exec_check sys a (of_nat n) w f l s)" using c(1) assms(3) by (auto simp: shut_at_def reports_def)
  show "reports kd (redzone_check sys a (of_nat n) w f l s)" using c(2) e by simp
qed

lemma region_end:
  fixes a :: u64
  assumes "regions_ok R" and "(p, m) \<in> set R" and "0 < n" and "unat a + n \<le> unat p + unat m"
  shows "unat (a + of_nat n - 1) = unat a + n - 1"
proof -
  have lim: "unat a + n \<le> 140737488355328" using assms(1,2,4) unfolding regions_ok_def by fastforce
  then have u: "unat (of_nat n :: u64) = n" by (intro unat_nat64) simp
  show ?thesis using last_byte [of "of_nat n" a] u assms(3) lim by simp
qed

text \<open>A span that every check lets through: open in the shadow, or inside a live block; and one that is reported.\<close>

definition usable :: "(u64 \<times> u64) list \<Rightarrow> (u64 \<Rightarrow> i8) \<Rightarrow> block list \<Rightarrow> u64 \<Rightarrow> nat \<Rightarrow> bool" where
  "usable R sh bs a n \<longleftrightarrow> open_at R sh a n \<or>
     0 < n \<and> (\<exists>i < length bs. \<not> freed (bs ! i) \<and> (\<exists>k. unat a = unat (user_addr (bs ! i)) + k \<and> k + n \<le> unat (user_size (bs ! i))))"

lemma usable_block:
  "i < length bs \<Longrightarrow> \<not> freed (bs ! i) \<Longrightarrow> unat a = unat (user_addr (bs ! i)) + k \<Longrightarrow> k + n \<le> unat (user_size (bs ! i)) \<Longrightarrow>
    0 < n \<Longrightarrow> usable R sh bs a n"
  by (auto simp: usable_def)

lemma usable_check:
  assumes "stands R sh bs s" and "regions_ok R" and "usable R sh bs a n"
  shows "exec_check sys a (of_nat n) w f l s = Done s" and "redzone_check sys a (of_nat n) w f l s = Done s"
  using assms(3) open_check [OF assms(1,2)] check_good [OF assms(1)] by (auto simp: usable_def)

lemma usable_write:
  assumes st: "stands R sh bs s" and R: "regions_ok R" and u: "usable R sh bs a n" and m: "\<And>x. \<not> in_span a n x \<Longrightarrow> m x = mem s x"
  shows "stands R sh bs (s\<lparr>mem := m\<rparr>)"
proof (cases "open_at R sh a n")
  case True
  then obtain p k where "(p, k) \<in> set R" "unat p \<le> unat a" "unat a + n \<le> unat p + unat k" by (auto simp: open_at_def)
  then show ?thesis using region_write [OF st R _ _ _ m] by blast
next
  case False
  then obtain i k where "i < length bs" "unat a = unat (user_addr (bs ! i)) + k" "k + n \<le> unat (user_size (bs ! i))"
    using u by (auto simp: usable_def)
  then show ?thesis by (rule stands_user_write [OF st _ _ _ m])
qed

lemma check_usable:
  assumes "stands R sh bs s" and "regions_ok R" and "usable R sh bs a (unat n)"
  shows "redzone_check sys a n w f l s = Done s"
  using usable_check(2) [OF assms, of sys w f l] by simp

lemma usable_store:
  fixes v :: "'a::len word"
  assumes st: "stands R sh bs s" and R: "regions_ok R" and u: "usable R sh bs a (LENGTH('a) div 8)" and n: "LENGTH('a) \<le> 64"
  shows "store_at os a v f l s = Done (set_mem s (put_word a v))" and "stands R sh bs (set_mem s (put_word a v))"
proof -
  show "store_at os a v f l s = Done (set_mem s (put_word a v))" using usable_check(1) [OF st R u] by (simp add: store_at_def)
  show "stands R sh bs (set_mem s (put_word a v))"
    unfolding set_mem_def by (rule usable_write [OF st R u]) (rule put_word_outside [OF _ n])
qed

lemma usable_load:
  assumes "stands R sh bs s" and "regions_ok R" and "usable R sh bs a (LENGTH('a::len) div 8)"
  shows "load_at os a f l s = Done (word_at (mem s) a :: 'a word, s)"
  using usable_check(1) [OF assms] by (simp add: load_at_def)

text \<open>Inside a block, by the offset from its start.\<close>

lemma store_good:
  fixes v :: "'a::len word"
  assumes st: "stands R sh bs s" and i: "i < length bs" "\<not> freed (bs ! i)"
    and a: "unat a = unat (user_addr (bs ! i)) + k" and n: "8 \<le> LENGTH('a)" "LENGTH('a) \<le> 64"
    and k: "k + LENGTH('a) div 8 \<le> unat (user_size (bs ! i))"
  shows "store_at os a v f l s = Done (set_mem s (put_word a v))"
    and "stands R sh bs (set_mem s (put_word a v))"
proof -
  have pos: "0 < LENGTH('a) div 8" using n(1) by (simp add: div_greater_zero_iff)
  show "store_at os a v f l s = Done (set_mem s (put_word a v))"
    using check_good(1) [OF st i a pos k] by (simp add: store_at_def)
  show "stands R sh bs (set_mem s (put_word a v))"
    unfolding set_mem_def by (rule stands_user_write [OF st i(1) a k]) (rule put_word_outside [OF _ n(2)])
qed

lemma load_good:
  assumes st: "stands R sh bs s" and i: "i < length bs" "\<not> freed (bs ! i)"
    and a: "unat a = unat (user_addr (bs ! i)) + k" and n: "8 \<le> LENGTH('a)"
    and k: "k + LENGTH('a::len) div 8 \<le> unat (user_size (bs ! i))"
  shows "load_at os a f l s = Done (word_at (mem s) a :: 'a word, s)"
proof -
  have pos: "0 < LENGTH('a) div 8" using n(1) by (simp add: div_greater_zero_iff)
  show ?thesis using check_good(1) [OF st i a pos k] by (simp add: load_at_def)
qed

lemma access_bad:
  assumes st: "stands R sh bs s" and i: "i < length bs"
    and a: "unat a = unat (user_addr (bs ! i)) + k" and n: "8 \<le> LENGTH('a::len)"
    and k: "k + LENGTH('a) div 8 \<le> unat (user_size (bs ! i)) + 16"
    and bad: "freed (bs ! i) \<or> unat (user_size (bs ! i)) < k + LENGTH('a) div 8"
  shows "reports (bad_kind (bs ! i)) (store_at os a (v :: 'a word) f l s)"
    and "reports (bad_kind (bs ! i)) (load_at os a f l s :: ('a word \<times> rt) outcome)"
proof -
  have pos: "0 < LENGTH('a) div 8" using n(1) by (simp add: div_greater_zero_iff)
  show "reports (bad_kind (bs ! i)) (store_at os a v f l s)"
    "reports (bad_kind (bs ! i)) (load_at os a f l s :: ('a word \<times> rt) outcome)"
    using check_bad(1) [OF st i a pos k bad] by (simp_all add: store_at_def load_at_def reports_bind)
qed

text \<open>Words in memory.\<close>

lemma word_at_put [simp]:
  fixes v :: "'a::len word"
  assumes "LENGTH('a) \<in> {8, 16, 32, 64}"
  shows "word_at (put_word a v m) a = v"
proof -
  have "load_le (LENGTH('a) div 8) (put_word a v m) a = unat v mod 256 ^ (LENGTH('a) div 8)"
    unfolding put_word_def by (rule load_store_le) (use assms in auto)
  also have "256 ^ (LENGTH('a) div 8) = (2 :: nat) ^ LENGTH('a)" using assms by auto
  also have "unat v mod 2 ^ LENGTH('a) = unat v" by (rule mod_less) (rule unsigned_less)
  finally show ?thesis by (simp add: word_at_def)
qed

lemma word_at_cong:
  "(\<And>x. in_span a (LENGTH('a::len) div 8) x \<Longrightarrow> m x = m' x) \<Longrightarrow> LENGTH('a) \<le> 64 \<Longrightarrow> (word_at m a :: 'a word) = word_at m' a"
  unfolding word_at_def by (subst load_le_cong [of _ a m m']) auto

text \<open>The array \<open>p\<close> holds \<open>g 0, \<dots>, g (n - 1)\<close>.\<close>

definition holds :: "memory \<Rightarrow> u64 \<Rightarrow> nat \<Rightarrow> (nat \<Rightarrow> 'a::len word) \<Rightarrow> bool" where
  "holds m p n g \<longleftrightarrow> (\<forall>i < n. word_at m (idx p (LENGTH('a) div 8) i) = g i)"

text \<open>An array inside the address space: its elements are where they should be, and apart.\<close>

definition array_at :: "u64 \<Rightarrow> nat \<Rightarrow> nat \<Rightarrow> bool" where
  "array_at p w n \<longleftrightarrow> unat p + n * w \<le> 140737488355328"

lemma elem_end: "i < n \<Longrightarrow> w * i + w \<le> n * w" for w i n :: nat
  using mult_le_mono1 [of "i + 1" n w] by (simp add: mult.commute)

lemma array_elem:
  assumes "array_at p w n" and "i < n"
  shows "unat (idx p w i) = unat p + w * i"
proof -
  have lim: "unat p + (w * i + w) \<le> 140737488355328" using assms(1) elem_end [OF assms(2), of w] by (simp add: array_at_def)
  then have u: "unat (of_nat (w * i) :: u64) = w * i" by (intro unat_nat64) linarith
  then show ?thesis unfolding idx_def using lim by (simp add: unat_plus64)
qed

lemma array_span:
  assumes "array_at p w n" and "i < n"
  shows "in_span (idx p w i) w x \<longleftrightarrow> unat p + w * i \<le> unat x \<and> unat x < unat p + w * i + w"
proof -
  note e = array_elem [OF assms]
  have "unat (idx p w i) + w \<le> 18446744073709551616"
    using assms(1) elem_end [OF assms(2), of w] unfolding e array_at_def by linarith
  then show ?thesis by (simp only: in_span_nowrap e)
qed

lemma array_apart:
  assumes "array_at p w n" and ik: "i < k" "k < n" and x: "in_span (idx p w i) w x"
  shows "\<not> in_span (idx p w k) w x"
  using x elem_end [OF ik(1), of w] unfolding array_span [OF assms(1) less_trans [OF ik]] array_span [OF assms(1) ik(2)]
  by (simp add: mult.commute)

lemma array_put:
  fixes g :: "nat \<Rightarrow> 'a::len word"
  assumes p: "array_at p (LENGTH('a) div 8) n" and w: "LENGTH('a) \<in> {8, 16, 32, 64}" and k: "k < n" and h: "holds m p k g"
  shows "holds (put_word (idx p (LENGTH('a) div 8) k) (g k) m) p (Suc k) g"
  unfolding holds_def
proof (intro allI impI)
  fix i assume i: "i < Suc k"
  let ?a = "\<lambda>i. idx p (LENGTH('a) div 8) i" let ?m = "put_word (?a k) (g k) m"
  have w8: "LENGTH('a) \<le> 64" using w by auto
  show "word_at ?m (?a i) = g i"
  proof (cases "i = k")
    case False
    then have ik: "i < k" using i by simp
    have "word_at ?m (?a i) = (word_at m (?a i) :: 'a word)"
      by (intro word_at_cong [OF _ w8] put_word_outside [OF _ w8] array_apart [OF p ik k])
    then show ?thesis using h ik by (simp add: holds_def)
  qed (use w in simp)
qed

lemma block_array: "block_ok b \<Longrightarrow> n * w \<le> unat (user_size b) \<Longrightarrow> array_at (user_addr b) w n"
  using block_okD(5,6) [of b] by (simp add: array_at_def)

lemma element:
  assumes b: "block_ok b" and n: "n * w \<le> unat (user_size b)" and i: "i < n"
  shows "unat (idx (user_addr b) w i) = unat (user_addr b) + w * i" and "w * i + w \<le> unat (user_size b)"
  using array_elem [OF block_array [OF b n] i] elem_end [OF i, of w] n by simp_all

lemma holds_cong:
  fixes g :: "nat \<Rightarrow> 'a::len word"
  assumes b: "block_ok b" and n: "n * (LENGTH('a) div 8) \<le> unat (user_size b)" "LENGTH('a) \<le> 64"
    and h: "holds m (user_addr b) n g" and e: "\<And>x. in_user b (unat x) \<Longrightarrow> m' x = m x"
  shows "holds m' (user_addr b) n g"
  unfolding holds_def
proof (intro allI impI)
  fix i assume i: "i < n"
  let ?a = "idx (user_addr b) (LENGTH('a) div 8) i"
  have "word_at m' ?a = (word_at m ?a :: 'a word)"
    by (intro word_at_cong [OF _ n(2)] e) (rule span_user [OF b element [OF b n(1) i]])
  then show "word_at m' ?a = g i" using h i by (simp add: holds_def)
qed

text \<open>An array of usable elements: filling it and folding over it.\<close>

definition usable_array :: "(u64 \<times> u64) list \<Rightarrow> (u64 \<Rightarrow> i8) \<Rightarrow> block list \<Rightarrow> u64 \<Rightarrow> nat \<Rightarrow> nat \<Rightarrow> bool" where
  "usable_array R sh bs p w n \<longleftrightarrow> array_at p w n \<and> (\<forall>i < n. usable R sh bs (idx p w i) w)"

definition stored ::
  "(u64 \<times> u64) list \<Rightarrow> (u64 \<Rightarrow> i8) \<Rightarrow> block list \<Rightarrow> rt \<Rightarrow> u64 \<Rightarrow> nat \<Rightarrow> nat \<Rightarrow> (nat \<Rightarrow> 'a::len word) \<Rightarrow> memory \<Rightarrow> bool" where
  "stored R sh bs s p n k g m \<longleftrightarrow> stands R sh bs (s\<lparr>mem := m\<rparr>) \<and> holds m p k g
     \<and> (\<forall>x. \<not> (unat p \<le> unat x \<and> unat x < unat p + n * (LENGTH('a) div 8)) \<longrightarrow> m x = mem s x)"

lemma stored_step:
  fixes g :: "nat \<Rightarrow> 'a::len word"
  assumes R: "regions_ok R" and u: "usable_array R sh bs p (LENGTH('a) div 8) n" and w: "LENGTH('a) \<in> {8, 16, 32, 64}"
    and k: "k < n" and f: "stored R sh bs s p n k g m"
  defines "a \<equiv> idx p (LENGTH('a) div 8) k"
  shows "store_at os a (g k) f l (s\<lparr>mem := m\<rparr>) = Done (s\<lparr>mem := put_word a (g k) m\<rparr>)"
    and "stored R sh bs s p n (Suc k) g (put_word a (g k) m)"
proof -
  have w8: "LENGTH('a) \<le> 64" using w by auto
  have st: "stands R sh bs (s\<lparr>mem := m\<rparr>)" using f by (simp add: stored_def)
  have ar: "array_at p (LENGTH('a) div 8) n" and ua: "usable R sh bs a (LENGTH('a) div 8)" using u k by (simp_all add: usable_array_def a_def)
  note us = usable_store [OF st R ua w8, where v = "g k"]
  show "store_at os a (g k) f l (s\<lparr>mem := m\<rparr>) = Done (s\<lparr>mem := put_word a (g k) m\<rparr>)"
    using us(1) by (simp add: set_mem_def)
  have "put_word a (g k) m x = mem s x" if x: "\<not> (unat p \<le> unat x \<and> unat x < unat p + n * (LENGTH('a) div 8))" for x
  proof -
    have "\<not> in_span a (LENGTH('a) div 8) x" using x elem_end [OF k, of "LENGTH('a) div 8"] unfolding a_def array_span [OF ar k] by linarith
    then show ?thesis using put_word_outside [OF _ w8] f x by (simp add: stored_def)
  qed
  then show "stored R sh bs s p n (Suc k) g (put_word a (g k) m)"
    using array_put [OF ar w k] us(2) f by (simp add: stored_def set_mem_def a_def)
qed

lemma usable_fill:
  fixes g :: "nat \<Rightarrow> 'a::len word"
  assumes st: "stands R sh bs s" and R: "regions_ok R" and u: "usable_array R sh bs p (LENGTH('a) div 8) n" and w: "LENGTH('a) \<in> {8, 16, 32, 64}"
  shows "\<exists>m. fill_array os p n g f l s = Done (s\<lparr>mem := m\<rparr>) \<and> stored R sh bs s p n n g m"
proof -
  let ?a = "\<lambda>i. idx p (LENGTH('a) div 8) i"
  have "\<exists>m. for_up k d (\<lambda>i. store_at os (?a i) (g i) f l) (s\<lparr>mem := m0\<rparr>) = Done (s\<lparr>mem := m\<rparr>) \<and> stored R sh bs s p n n g m"
    if "k + d = n" "stored R sh bs s p n k g m0" for k d m0
    using that
  proof (induction d arbitrary: k m0)
    case (Suc d)
    have k: "k < n" "Suc k + d = n" using Suc.prems(1) by simp_all
    note ss = stored_step [OF R u w k(1) Suc.prems(2)]
    from Suc.IH [OF k(2) ss(2)] show ?case using ss(1) by simp
  qed auto
  from this [of 0 n "mem s"] show ?thesis using st by (simp add: fill_array_def stored_def holds_def)
qed

lemma usable_fold:
  fixes g :: "nat \<Rightarrow> 'a::len word"
  assumes st: "stands R sh bs s" and R: "regions_ok R" and u: "usable_array R sh bs p (LENGTH('a) div 8) n" and h: "holds (mem s) p n g"
  shows "fold_array os p n r x f l s = Done (foldl r x (map g [0..<n]), s)"
proof -
  let ?a = "\<lambda>i. idx p (LENGTH('a) div 8) i"
  have ld: "load_at os (?a i) f l s = Done (g i, s)" if "i < n" for i
    using usable_load [OF st R, where 'a = 'a, of "?a i" os f l] u h that by (simp add: usable_array_def holds_def)
  have "for_up k d (\<lambda>i (x, s). bindO (load_at os (?a i) f l s) (\<lambda>(v, s). Done (r x v, s))) (y, s)
      = Done (foldl r y (map g [k..<n]), s)" if "k + d = n" for k d y
    using that
  proof (induction d arbitrary: k y)
    case (Suc d)
    have k: "k < n" "Suc k + d = n" using Suc.prems by simp_all
    then have "[k..<n] = k # [Suc k..<n]" by (simp add: upt_conv_Cons)
    then show ?case using Suc.IH [OF k(2)] ld [OF k(1)] by simp
  qed simp
  from this [of 0 n x] show ?thesis by (simp add: fold_array_def)
qed

text \<open>The same inside a block.\<close>

lemma block_usable:
  "stands R sh bs s \<Longrightarrow> j < length bs \<Longrightarrow> \<not> freed (bs ! j) \<Longrightarrow> n * w \<le> unat (user_size (bs ! j)) \<Longrightarrow> 0 < w \<Longrightarrow>
    usable_array R sh bs (user_addr (bs ! j)) w n"
  using standsD(7) [of R sh bs s "bs ! j"] element [of "bs ! j" n w] block_array [of "bs ! j" n w]
  by (auto simp: usable_array_def usable_def)

lemma fill_good:
  fixes g :: "nat \<Rightarrow> 'a::len word"
  assumes st: "stands R sh bs s" and j: "j < length bs" "\<not> freed (bs ! j)" and p: "p = user_addr (bs ! j)"
    and w: "LENGTH('a) \<in> {8, 16, 32, 64}" and n: "n * (LENGTH('a) div 8) \<le> unat (user_size (bs ! j))" and R: "regions_ok R"
  shows "\<exists>m. fill_array os p n g f l s = Done (s\<lparr>mem := m\<rparr>) \<and> stored R sh bs s p n n g m"
  using usable_fill [OF st R block_usable [OF st j n] w] w p by auto

lemma stored_outside:
  fixes g :: "nat \<Rightarrow> 'a::len word"
  assumes "stored R sh bs s (user_addr b) n k g m" and "n * (LENGTH('a) div 8) \<le> unat (user_size b)" and "\<not> in_user b (unat x)"
  shows "m x = mem s x"
  using assms by (auto simp: stored_def in_user_def)

lemma fold_good:
  fixes g :: "nat \<Rightarrow> 'a::len word"
  assumes st: "stands R sh bs s" and j: "j < length bs" "\<not> freed (bs ! j)" and p: "p = user_addr (bs ! j)"
    and w: "8 \<le> LENGTH('a)" and n: "n * (LENGTH('a) div 8) \<le> unat (user_size (bs ! j))"
    and h: "holds (mem s) p n g" and R: "regions_ok R"
  shows "fold_array os p n r x f l s = Done (foldl r x (map g [0..<n]), s)"
proof -
  have "0 < LENGTH('a) div 8" using w by (simp add: div_greater_zero_iff)
  from usable_fold [OF st R block_usable [OF st j n this] h [unfolded p]] show ?thesis unfolding p .
qed

lemma not_in_user: "block_ok b \<Longrightarrow> \<not> in_block b x \<Longrightarrow> \<not> in_user b x"
  using in_user_in_block by blast

text \<open>An array in another block is left alone by writes inside a block, and by an allocation.\<close>

lemma user_elsewhere:
  assumes st: "stands R sh bs s" and i: "i < length bs" and j: "j < length bs" "i \<noteq> j" and x: "in_user (bs ! i) (unat x)"
  shows "\<not> in_block (bs ! j) (unat x)"
proof
  assume b: "in_block (bs ! j) (unat x)"
  note d = standsD [OF st]
  have "in_block (bs ! i) (unat x)" using in_user_in_block [OF _ x] d(7) i by simp
  then show False using separate_unique [of bs i j "unat x"] d(3,7) heap_wfD(3) [OF d(1)] b i j by auto
qed

lemma holds_other:
  fixes g :: "nat \<Rightarrow> 'a::len word"
  assumes st: "stands R sh bs s" and i: "i < length bs" and j: "j < length bs" "i \<noteq> j" and p: "p = user_addr (bs ! i)"
    and n: "n * (LENGTH('a) div 8) \<le> unat (user_size (bs ! i))" "LENGTH('a) \<le> 64"
    and h: "holds m p n g" and e: "\<And>x. \<not> in_block (bs ! j) (unat x) \<Longrightarrow> m' x = m x"
  shows "holds m' p n g"
  unfolding p
proof (rule holds_cong [OF _ n h [unfolded p]])
  show "block_ok (bs ! i)" using standsD(7) [OF st] i by simp
  show "m' x = m x" if "in_user (bs ! i) (unat x)" for x by (rule e [OF user_elsewhere [OF st i j that]])
qed

lemma holds_other_filled:
  fixes g :: "nat \<Rightarrow> 'a::len word"
  assumes st: "stands R sh bs s" and i: "i < length bs" and j: "j < length bs" "i \<noteq> j" and p: "p = user_addr (bs ! i)"
    and n: "n * (LENGTH('a) div 8) \<le> unat (user_size (bs ! i))" "LENGTH('a) \<le> 64"
    and h: "holds m p n g" and e: "\<And>x. \<not> in_user (bs ! j) (unat x) \<Longrightarrow> m' x = m x"
  shows "holds m' p n g"
proof (rule holds_other [OF st i j p n h])
  fix x :: u64 assume x: "\<not> in_block (bs ! j) (unat x)"
  have "block_ok (bs ! j)" using standsD(7) [OF st] j(1) by simp
  then show "m' x = m x" using x in_user_in_block by (intro e) blast
qed

lemma holds_0 [simp]: "holds m p 0 g"
  by (simp add: holds_def)

text \<open>A copied array.\<close>

lemma load_le_moved: "(\<And>j. j < n \<Longrightarrow> m' (b + of_nat j) = m (a + of_nat j)) \<Longrightarrow> load_le n m' b = load_le n m a"
proof (induction n arbitrary: a b)
  case (Suc n)
  have "load_le n m' (b + 1) = load_le n m (a + 1)"
    by (rule Suc.IH) (use Suc.prems [of "Suc j" for j] in \<open>simp add: add.assoc\<close>)
  then show ?case using Suc.prems [of 0] by simp
qed simp

lemma holds_moved:
  fixes g :: "nat \<Rightarrow> 'a::len word"
  assumes h: "holds m p n g" and e: "\<And>j. j < n * (LENGTH('a) div 8) \<Longrightarrow> m' (q + of_nat j) = m (p + of_nat j)"
  shows "holds m' q n g"
  unfolding holds_def
proof (intro allI impI)
  fix i assume i: "i < n"
  let ?w = "LENGTH('a) div 8"
  have "load_le ?w m' (idx q ?w i) = load_le ?w m (idx p ?w i)"
  proof (rule load_le_moved)
    fix j assume j: "j < ?w"
    have "?w * i + j < ?w * i + ?w" using j by simp
    also have "?w * i + ?w = (i + 1) * ?w" by simp
    also have "\<dots> \<le> n * ?w" using i by (intro mult_le_mono1) simp
    finally show "m' (idx q ?w i + of_nat j) = m (idx p ?w i + of_nat j)"
      using e [of "?w * i + j"] by (simp add: idx_def add.assoc)
  qed
  then have "word_at m' (idx q ?w i) = (word_at m (idx p ?w i) :: 'a word)" by (simp add: word_at_def)
  then show "word_at m' (idx q ?w i) = g i" using h i by (simp add: holds_def)
qed

text \<open>A counting loop with an accumulator keeps what every round keeps.\<close>

lemma for_up_rule:
  assumes "\<And>i x s. k \<le> i \<Longrightarrow> i < k + n \<Longrightarrow> I s \<Longrightarrow> \<exists>s'. f i (x, s) = Done (h i x, s') \<and> I s'" and "I s"
  shows "\<exists>s'. for_up k n f (x, s) = Done (fold h [k..<k + n] x, s') \<and> I s'"
  using assms
proof (induction n arbitrary: k x s)
  case (Suc n)
  obtain s1 where s1: "f k (x, s) = Done (h k x, s1)" "I s1" using Suc.prems(1) [of k s x] Suc.prems(2) by auto
  have "[k..<k + Suc n] = k # [Suc k..<Suc k + n]" by (simp add: upt_conv_Cons)
  moreover obtain s' where "for_up (Suc k) n f (h k x, s1) = Done (fold h [Suc k..<Suc k + n] (h k x), s')" "I s'"
    using Suc.IH [of "Suc k" s1 "h k x"] Suc.prems(1) s1(2) by auto
  ultimately show ?case using s1(1) by auto
qed auto

lemma for_up_inv:
  assumes "\<And>i s. k \<le> i \<Longrightarrow> i < k + n \<Longrightarrow> I i s \<Longrightarrow> \<exists>s'. f i s = Done s' \<and> I (Suc i) s'" and "I k s"
  shows "\<exists>s'. for_up k n f s = Done s' \<and> I (k + n) s'"
  using assms
proof (induction n arbitrary: k s)
  case (Suc n)
  obtain s1 where s1: "f k s = Done s1" "I (Suc k) s1" using Suc.prems(1) [of k s] Suc.prems(2) by auto
  then show ?case using Suc.IH [of "Suc k" s1] Suc.prems(1) by auto
qed auto

end
