(* ===== verification/Mem_Process.thy ===== *)
theory Mem_Process
  imports Mem_Arrays
begin

text \<open>
  The process around a program: globals with_globals by the constructor, the frame of a function, the exit handler and
  the verdict on the whole run.
\<close>

section \<open>Regions outside the heap\<close>

lemma stands_shadow:
  assumes st: "stands R sh bs s" and s': "heap_wf s'" "blocks s' = bs" "leak_on s' = leak_on s"
  shows "stands R (shadow_val s') bs s'"
  using st s' by (simp add: stands_def)

lemma stack_enter_stands:
  assumes st: "stands R sh bs s" and ok: "slot_ok p k" and r: "(p, k + 32) \<in> set R"
  shows "redzone_stack_enter sys p k s = Done (stack_frame s p k)"
    and "stands R (shadow_val (stack_frame s p k)) bs (stack_frame s p k)"
proof -
  note d = standsD [OF st]
  show "redzone_stack_enter sys p k s = Done (stack_frame s p k)" by (rule stack_enter_eq [OF heap_wfD(1) [OF d(1)]])
  have "slot_apart p k s" using d(3,5) r by (simp add: slot_apart_def)
  from stack_enter_wf [OF d(1) ok this] show "stands R (shadow_val (stack_frame s p k)) bs (stack_frame s p k)"
    by (rule stands_shadow [OF st]) (use d(3) in \<open>simp_all add: stack_frame_def\<close>)
qed

lemma stack_leave_stands:
  assumes st: "stands R sh bs s" and ok: "slot_ok p k" and r: "(p, k + 32) \<in> set R"
  shows "redzone_stack_leave sys p k s = Done (fill s p (k + 32) 0)"
    and "stands R (shadow_val (fill s p (k + 32) 0)) bs (fill s p (k + 32) 0)"
proof -
  note d = standsD [OF st]
  show "redzone_stack_leave sys p k s = Done (fill s p (k + 32) 0)" by (rule stack_leave_eq [OF heap_wfD(1) [OF d(1)]])
  have "slot_apart p k s" using d(3,5) r by (simp add: slot_apart_def)
  from stack_leave_wf [OF d(1) ok this] show "stands R (shadow_val (fill s p (k + 32) 0)) bs (fill s p (k + 32) 0)"
    by (rule stands_shadow [OF st]) (use d(3) in simp_all)
qed

text \<open>The slots of a frame: inside the regions, and apart from one another.\<close>

definition frame_in :: "(u64 \<times> u64) list \<Rightarrow> (u64 \<times> u64) list \<Rightarrow> bool" where
  "frame_in R fs \<longleftrightarrow> (\<forall>(p, k) \<in> set fs. slot_ok p k \<and> (p, k + 32) \<in> set R)
     \<and> sorted_wrt (\<lambda>(p, k) (q, j). unat p + unat k + 32 \<le> unat q \<or> unat q + unat j + 32 \<le> unat p) fs"

fun entered :: "(u64 \<times> u64) list \<Rightarrow> rt \<Rightarrow> rt" where
  "entered [] s = s"
| "entered ((p, k) # fs) s = entered fs (stack_frame s p k)"

lemma entered_mem [simp]: "mem (entered fs s) = mem s"
  by (induction fs s rule: entered.induct) (simp_all add: stack_frame_def)

lemma enter_slots_stands:
  assumes "stands R sh bs s" and "\<forall>(p, k) \<in> set fs. slot_ok p k \<and> (p, k + 32) \<in> set R"
  shows "enter_slots os fs s = Done (entered fs s) \<and> stands R (shadow_val (entered fs s)) bs (entered fs s)"
  using assms
proof (induction os fs s arbitrary: sh rule: enter_slots.induct)
  case (1 os s)
  then show ?case by (simp add: stands_def)
next
  case (2 os p k fs s)
  have ok: "slot_ok p k" "(p, k + 32) \<in> set R" using 2(3) by simp_all
  note e = stack_enter_stands [OF 2(2) ok]
  show ?case using 2(1) [OF e(2)] 2(3) e(1) by simp
qed

lemma leave_slots_stands:
  assumes "stands R sh bs s" and "\<forall>(p, k) \<in> set fs. slot_ok p k \<and> (p, k + 32) \<in> set R"
  shows "\<exists>s' sh'. leave_slots os fs s = Done s' \<and> stands R sh' bs s' \<and> mem s' = mem s"
  using assms
proof (induction os fs s arbitrary: sh rule: leave_slots.induct)
  case (2 os p k fs s)
  have ok: "slot_ok p k" "(p, k + 32) \<in> set R" using 2(3) by simp_all
  note e = stack_leave_stands [OF 2(2) ok]
  show ?case using 2(1) [OF e(2)] 2(3) e(1) by auto
qed auto

text \<open>What the shadow says in a slot of the frame, once all are entered.\<close>

lemma region_outside:
  assumes al: "unat p mod 8 = 0" "unat q mod 8 = 0"
    and ap: "unat p + n \<le> unat q \<or> unat q + m \<le> unat p"
    and x: "unat p \<le> unat x" "unat x < unat p + n"
  shows "unat x div 8 < unat q div 8 \<or> (unat q + m + 7) div 8 \<le> unat x div 8"
proof -
  obtain i where i: "unat q = 8 * i" using al(2) by (rule mod8_0E)
  from ap show ?thesis
  proof
    assume "unat p + n \<le> unat q"
    then have "unat x < 8 * i" using x i by linarith
    then show ?thesis using i by (simp add: below_chunk)
  next
    assume "unat q + m \<le> unat p"
    from chunks_before [OF al(1) this] div_le_mono [OF x(1), of 8] show ?thesis by linarith
  qed
qed

lemma slot_shadow_kept:
  assumes "reserved s" and al: "unat p mod 8 = 0" and ok: "slot_ok q j"
    and ap: "unat p + n \<le> unat q \<or> unat q + unat j + 32 \<le> unat p"
    and x: "unat p \<le> unat x" "unat x < unat p + n"
  shows "shadow_val (stack_frame s q j) x = shadow_val s x"
  by (rule stack_frame_outside [OF assms(1) ok])
    (use region_outside [OF al slot_okD(1) [OF ok], of n "unat j + 32" x] ap x in \<open>simp add: add.assoc\<close>)

lemma entered_kept:
  assumes "reserved s" and "unat p mod 8 = 0" and "\<forall>(q, j) \<in> set fs. slot_ok q j \<and>
      (unat p + n \<le> unat q \<or> unat q + unat j + 32 \<le> unat p)"
    and "unat p \<le> unat x" and "unat x < unat p + n"
  shows "shadow_val (entered fs s) x = shadow_val s x"
  using assms
proof (induction fs s rule: entered.induct)
  case (2 q j fs s)
  have "reserved (stack_frame s q j)" using 2(2) by (simp add: stack_frame_def)
  moreover have "shadow_val (stack_frame s q j) x = shadow_val s x"
    by (rule slot_shadow_kept [OF 2(2,3) _ _ 2(5,6)]) (use 2(4) in auto)
  ultimately show ?case using 2 by simp
qed simp

lemma entered_reserved [simp]: "reserved (entered fs s) = reserved s"
  by (induction fs s rule: entered.induct) (simp_all add: stack_frame_def)

lemma entered_append: "entered (fs @ gs) s = entered gs (entered fs s)"
  by (induction fs s rule: entered.induct) simp_all

text \<open>A slot whose object is guarded in the shadow \<open>sh\<close>: exactly its bytes are addressable, and whole red-zone chunks
  have the stack's code.\<close>

definition slot_guarded :: "(u64 \<Rightarrow> i8) \<Rightarrow> u64 \<Rightarrow> u64 \<Rightarrow> bool" where
  "slot_guarded sh p k \<longleftrightarrow> (\<forall>x. unat p \<le> unat x \<longrightarrow> unat x < unat p + unat k + 32 \<longrightarrow>
     (byte_bad (sh x) (unat x mod 8) \<longleftrightarrow> \<not> (unat p + 16 \<le> unat x \<and> unat x < unat p + 16 + unat k))
     \<and> (sh x = STACK_RZ \<longleftrightarrow> full_zone p k x) \<and> (sint (sh x) < 0 \<longleftrightarrow> full_zone p k x))"

lemma frame_guarded:
  assumes "reserved s" and f: "frame_in R fs" and p: "(p, k) \<in> set fs"
  shows "slot_guarded (shadow_val (entered fs s)) p k"
proof -
  obtain fs1 fs2 where fs: "fs = fs1 @ (p, k) # fs2" using p by (auto simp: in_set_conv_decomp)
  have ok: "slot_ok p k" and rest: "\<forall>(q, j) \<in> set fs2. slot_ok q j \<and>
      (unat p + unat k + 32 \<le> unat q \<or> unat q + unat j + 32 \<le> unat p)"
    using f by (auto simp: frame_in_def fs sorted_wrt_append)
  let ?s = "stack_frame (entered fs1 s) p k"
  have r: "reserved (entered fs1 s)" "reserved ?s" using assms(1) by (simp_all add: stack_frame_def)
  have k: "shadow_val (entered fs s) x = shadow_val ?s x" if "unat p \<le> unat x" "unat x < unat p + unat k + 32" for x
    using entered_kept [OF r(2) slot_okD(1) [OF ok], of fs2 "unat k + 32" x] rest that
    by (simp add: fs entered_append add.assoc)
  show ?thesis
    unfolding slot_guarded_def
    using k stack_frame_poison [OF r(1) ok, unfolded poisoned_def] stack_frame_codes [OF r(1) ok] by simp
qed

section \<open>Globals\<close>

type_synonym global = "u64 \<times> u64 \<times> bool"

fun global_region :: "global \<Rightarrow> u64 \<times> u64" where
  "global_region (data, sz, ext) = (if ext then (data, sz + 16) else (data - 16, sz + 32))"

fun global_good :: "global \<Rightarrow> bool" where
  "global_good (data, sz, ext) \<longleftrightarrow>
     (if ext then unat data mod 8 = 0 \<and> unat data + unat sz + 16 \<le> 140737488355328 else global_ok data sz)"

fun with_globals :: "global list \<Rightarrow> rt \<Rightarrow> rt" where
  "with_globals [] s = s"
| "with_globals ((data, sz, ext) # gs) s =
     with_globals gs (if ext then global_right_frame s data sz else global_frame s data sz)"

lemma frame_fields [simp]:
  "reserved (global_frame s data sz) = reserved s" "reserved (global_right_frame s data sz) = reserved s"
  "lock_held (global_frame s data sz) = lock_held s" "lock_held (global_right_frame s data sz) = lock_held s"
  "blocks (global_frame s data sz) = blocks s" "blocks (global_right_frame s data sz) = blocks s"
  "leak_on (global_frame s data sz) = leak_on s" "leak_on (global_right_frame s data sz) = leak_on s"
  "mem (global_frame s data sz) = mem s" "mem (global_right_frame s data sz) = mem s"
  by (simp_all add: global_frame_def global_right_frame_def)

lemma with_globals_fields [simp]:
  "reserved (with_globals gs s) = reserved s" "lock_held (with_globals gs s) = lock_held s"
  "blocks (with_globals gs s) = blocks s" "leak_on (with_globals gs s) = leak_on s" "mem (with_globals gs s) = mem s"
  by (induction gs s rule: with_globals.induct) simp_all

lemma register_globals_eq: "reserved s \<Longrightarrow> global_ctor os gs s = Done (with_globals gs s)"
  by (induction os gs s rule: global_ctor.induct)
    (simp_all add: global_register_eq global_register_right_eq)

lemma global_region_nat:
  assumes "global_good (data, sz, ext)" and "global_region (data, sz, ext) = (p, n)"
  shows "unat p mod 8 = 0" and "unat p = (if ext then unat data else unat data - 16)"
    and "unat n = (if ext then unat sz + 16 else unat sz + 32)"
    and "unat p + unat n = unat data + unat sz + 16"
proof -
  show u: "unat n = (if ext then unat sz + 16 else unat sz + 32)"
    using assms by (auto simp: global_ok_def unat_plus64 split: if_splits)
  show v: "unat p = (if ext then unat data else unat data - 16)"
    using assms by (auto simp: global_ok_def unat_minus64 split: if_splits)
  show "unat p + unat n = unat data + unat sz + 16" using assms u v by (auto simp: global_ok_def split: if_splits)
  show "unat p mod 8 = 0"
  proof (cases ext)
    case False
    then have "slot_ok (data - 16) sz" using assms(1) global_slot(1) by simp
    then show ?thesis using slot_okD(1) assms(2) False by auto
  qed (use assms in auto)
qed

lemma with_globals_step_kept:
  assumes r: "reserved s" and g: "global_good (data, sz, ext)" and reg: "global_region (data, sz, ext) = (q, m)"
    and al: "unat p mod 8 = 0" and ap: "unat p + n \<le> unat q \<or> unat q + unat m \<le> unat p"
    and x: "unat p \<le> unat x" "unat x < unat p + n"
  shows "shadow_val (if ext then global_right_frame s data sz else global_frame s data sz) x = shadow_val s x"
proof -
  note u = global_region_nat [OF g reg]
  note out = region_outside [OF al u(1) ap x]
  show ?thesis
  proof (cases ext)
    case True
    then have d: "unat data mod 8 = 0" "unat data + unat sz + 16 \<le> 140737488355328" using g by simp_all
    have qm: "unat q = unat data" "unat data + unat m + 7 = unat data + unat sz + 23" using u(2,3) reg True by auto
    have o: "unat x div 8 < unat data div 8 \<or> (unat data + unat sz + 23) div 8 \<le> unat x div 8"
      using out by (simp only: qm)
    obtain i where i: "unat data = 8 * i" using d(1) by (rule mod8_0E)
    then have e: "(unat data + unat sz) div 8 = unat data div 8 + unat sz div 8" by (simp add: div_mult_self4)
    have last: "unat sz mod 8 \<noteq> 0 \<longrightarrow> unat data div 8 + unat sz div 8 < (unat data + unat sz + 23) div 8"
      using chunk_last [OF d(1), of "unat sz" "unat data + unat sz + 16"] by (simp only: add.assoc) simp
    have "(unat data + unat sz) div 8 \<le> (unat data + unat sz + 23) div 8" by (rule div_le_mono) simp
    then have "shadow_val (global_right_frame s data sz) x = shadow_val s x"
      using o last unfolding shadow_global_right [OF r d] e by auto
    then show ?thesis using True by simp
  next
    case False
    then have d: "global_ok data sz" using g by simp
    have "unat (data - 16) + unat sz + 39 = unat data + unat sz + 23" using global_slot(4) [OF d] by simp
    then have "unat x div 8 < unat (data - 16) div 8 \<or> (unat (data - 16) + unat sz + 39) div 8 \<le> unat x div 8"
      using out u(4) reg False by auto
    then show ?thesis using global_frame_outside [OF r d] False by simp
  qed
qed

lemma with_globals_kept:
  assumes "reserved s" and "\<forall>g \<in> set gs. global_good g" and "unat p mod 8 = 0"
    and "\<forall>g \<in> set gs. case global_region g of (q, m) \<Rightarrow> unat p + n \<le> unat q \<or> unat q + unat m \<le> unat p"
    and "unat p \<le> unat x" and "unat x < unat p + n"
  shows "shadow_val (with_globals gs s) x = shadow_val s x"
  using assms
proof (induction gs s rule: with_globals.induct)
  case (2 data sz ext gs s)
  obtain q m where qm: "global_region (data, sz, ext) = (q, m)" by (cases "global_region (data, sz, ext)")
  let ?s = "if ext then global_right_frame s data sz else global_frame s data sz"
  have "shadow_val ?s x = shadow_val s x"
    by (rule with_globals_step_kept [OF 2(2) _ qm 2(4) _ 2(6,7)]) (use 2(3,5) qm in \<open>auto split: prod.splits\<close>)
  moreover have "shadow_val (with_globals gs ?s) x = shadow_val ?s x"
    by (rule 2(1)) (use 2(2-7) in auto)
  ultimately show ?case by simp
qed simp

text \<open>A global whose data is guarded in the shadow \<open>sh\<close>; its size is a multiple of eight here.\<close>

definition global_guarded :: "(u64 \<Rightarrow> i8) \<Rightarrow> u64 \<Rightarrow> u64 \<Rightarrow> bool" where
  "global_guarded sh data sz \<longleftrightarrow> (\<forall>x. unat data \<le> unat x \<longrightarrow> unat x < unat data + unat sz + 16 \<longrightarrow>
     (byte_bad (sh x) (unat x mod 8) \<longleftrightarrow> unat data + unat sz \<le> unat x)
     \<and> (unat data + unat sz \<le> unat x \<longrightarrow> sh x = GLOBAL_RZ))"

lemma with_globals_step_guarded:
  assumes r: "reserved s" and g: "global_good (data, sz, ext)" and m: "unat sz mod 8 = 0"
  shows "global_guarded (shadow_val (if ext then global_right_frame s data sz else global_frame s data sz)) data sz"
  unfolding global_guarded_def
proof (intro allI impI)
  fix x :: u64 assume x: "unat data \<le> unat x" "unat x < unat data + unat sz + 16"
  let ?s = "if ext then global_right_frame s data sz else global_frame s data sz"
  have al: "unat data mod 8 = 0"
  proof (cases ext)
    case False
    then have "unat data mod 16 = 0" using g by (simp add: global_ok_def)
    then show ?thesis by presburger
  qed (use g in simp)
  obtain i where i: "unat data = 8 * i" using al by (rule mod8_0E)
  obtain j where j: "unat sz = 8 * j" using m by (rule mod8_0E)
  have hi: "unat x div 8 < (unat data + unat sz + 23) div 8"
    using div_le_mono [of "unat x + 8" "unat data + unat sz + 23" 8] x(2) by simp
  have lo: "unat data + unat sz \<le> unat x \<Longrightarrow> unat data div 8 + unat sz div 8 \<le> unat x div 8"
    using div_le_mono [of "unat data + unat sz" "unat x" 8] i j by simp
  show "(byte_bad (shadow_val ?s x) (unat x mod 8) \<longleftrightarrow> unat data + unat sz \<le> unat x)
      \<and> (unat data + unat sz \<le> unat x \<longrightarrow> shadow_val ?s x = GLOBAL_RZ)"
  proof (cases ext)
    case True
    then have d: "unat data mod 8 = 0" "unat data + unat sz + 16 \<le> 140737488355328" using g by simp_all
    have "(unat data + unat sz) div 8 = unat data div 8 + unat sz div 8" using i by (simp add: div_mult_self4)
    then show ?thesis
      using True global_right_poison [OF r d x] lo hi m by (auto simp: shadow_global_right [OF r d] poisoned_def)
  next
    case False
    then have d: "global_ok data sz" using g by simp
    note sl = global_slot [OF d] note q = slot_okD [OF sl(1)]
    have lim: "unat (data - 16) + unat (sz + 32) + 7 = unat data + unat sz + 23" using sl(4) q(4) by simp
    have base: "unat (data - 16) div 8 \<le> unat x div 8" using x(1) sl(3) by (intro div_le_mono) simp
    have "shadow_val (global_frame s data sz) x = GLOBAL_RZ" if "unat data + unat sz \<le> unat x"
      unfolding global_frame_def so.load_guarded [OF r al q(5) q(6,7) [unfolded sl(2)] q(8), unfolded lim] using that lo hi base m by auto
    then show ?thesis using False global_frame_poison [OF r d, of x] x by (simp add: poisoned_def not_less)
  qed
qed

lemma with_globals_append: "with_globals (gs @ hs) s = with_globals hs (with_globals gs s)"
  by (induction gs s rule: with_globals.induct) simp_all

text \<open>Globals and frame side by side: everything the program holds outside the heap, pairwise apart.\<close>

definition layout_ok :: "(u64 \<times> u64) list \<Rightarrow> global list \<Rightarrow> (u64 \<times> u64) list \<Rightarrow> bool" where
  "layout_ok R gs fs \<longleftrightarrow> regions_ok R \<and> frame_in R fs \<and> (\<forall>g \<in> set gs. global_good g \<and> global_region g \<in> set R)
     \<and> sorted_wrt (\<lambda>g h. case (global_region g, global_region h) of
         ((p, n), (q, m)) \<Rightarrow> unat p + unat n \<le> unat q \<or> unat q + unat m \<le> unat p) gs
     \<and> (\<forall>g \<in> set gs. \<forall>(q, j) \<in> set fs. case global_region g of (p, n) \<Rightarrow>
         unat p + unat n \<le> unat q \<or> unat q + unat j + 32 \<le> unat p)"

lemma globals_guarded:
  assumes r: "reserved s" and L: "layout_ok R gs fs" and g: "(data, sz, ext) \<in> set gs" and m: "unat sz mod 8 = 0"
  shows "global_guarded (shadow_val (entered fs (with_globals gs s))) data sz"
proof -
  obtain g1 g2 where gs: "gs = g1 @ (data, sz, ext) # g2" using g by (auto simp: in_set_conv_decomp)
  obtain p n where pn: "global_region (data, sz, ext) = (p, n)" by (cases "global_region (data, sz, ext)")
  have good: "global_good (data, sz, ext)" using L g by (auto simp: layout_ok_def)
  note u = global_region_nat [OF good pn]
  let ?f = "if ext then global_right_frame (with_globals g1 s) data sz else global_frame (with_globals g1 s) data sz"
  have r1: "reserved (with_globals g1 s)" "reserved ?f" "reserved (with_globals gs s)" using r by simp_all
  have k: "shadow_val (entered fs (with_globals gs s)) x = shadow_val ?f x"
    if x: "unat data \<le> unat x" "unat x < unat data + unat sz + 16" for x
  proof -
    have px: "unat p \<le> unat x" "unat x < unat p + unat n" using x u(2,4) by (auto split: if_splits)
    have "shadow_val (entered fs (with_globals gs s)) x = shadow_val (with_globals gs s) x"
      by (rule entered_kept [OF r1(3) u(1) _ px]) (use L g pn in \<open>fastforce simp: layout_ok_def frame_in_def\<close>)
    also have "\<dots> = shadow_val (with_globals g2 ?f) x" by (simp add: gs with_globals_append)
    also have "\<dots> = shadow_val ?f x"
      by (rule with_globals_kept [OF r1(2) _ u(1) _ px])
        (use L pn in \<open>auto simp: layout_ok_def gs sorted_wrt_append split: prod.splits\<close>)
    finally show ?thesis .
  qed
  show ?thesis
    using with_globals_step_guarded [OF r1(1) good m] k unfolding global_guarded_def by simp
qed

section \<open>Accesses to the frame and the globals\<close>

text \<open>Inside a guarded object of the frame or a global, and just past it.\<close>

lemma slot_access:
  assumes R: "regions_ok R" and p: "slot_ok p k" "(p, k + 32) \<in> set R" and g: "slot_guarded sh p k"
    and n: "0 < n" and a: "unat a = unat p + 16 + i" "i + n \<le> unat k + 16"
  shows "i + n \<le> unat k \<Longrightarrow> open_at R sh a n"
    and "unat k mod 8 = 0 \<Longrightarrow> unat k < i + n \<Longrightarrow> shut_at ''stack-buffer-overflow'' R sh a n"
proof -
  have u: "unat (k + 32) = unat k + 32" using slot_okD(4) [OF p(1)] .
  have rg: "unat p \<le> unat a" "unat a + n \<le> unat p + unat (k + 32)" using a u by simp_all
  note e = region_end [OF R p(2) n rg(2)]
  have inR: "\<exists>(p, m) \<in> set R. unat p \<le> unat a \<and> unat a + n \<le> unat p + unat m" by (rule bexI [OF _ p(2)]) (use rg in simp)
  have x: "unat p \<le> unat a" "unat a < unat p + unat k + 32" using a n by simp_all
  have y: "unat p \<le> unat (a + of_nat n - 1)" "unat (a + of_nat n - 1) < unat p + unat k + 32" unfolding e using a n by simp_all
  note gx = g [unfolded slot_guarded_def, rule_format, OF x] and gy = g [unfolded slot_guarded_def, rule_format, OF y]
  show "open_at R sh a n" if "i + n \<le> unat k"
    unfolding open_at_def using that gx gy a n inR by (simp add: e)
  show "shut_at ''stack-buffer-overflow'' R sh a n" if al: "unat k mod 8 = 0" and over: "unat k < i + n"
  proof -
    have "(unat k + 7) div 8 * 8 = unat k" using al by presburger
    then have "full_zone p k (a + of_nat n - 1)"
      using over a n by (simp add: full_zone_def e)
    then have z: "sh (a + of_nat n - 1) = STACK_RZ" "byte_bad (sh (a + of_nat n - 1)) (unat (a + of_nat n - 1) mod 8)"
      using gy over a n by (simp_all add: e)
    have "sint (sh a) < 0 \<Longrightarrow> sh a = STACK_RZ" using gx by blast
    then have "region_kind (sh a) (sh (a + of_nat n - 1)) = ''stack-buffer-overflow''"
      using z(1) by (auto simp: region_kind_def Let_def poison_codes)
    then show ?thesis using z(2) n inR by (simp add: shut_at_def)
  qed
qed

lemma region_kind_global: "region_kind GLOBAL_RZ y = ''global-buffer-overflow''"
  by (simp add: region_kind_def Let_def poison_codes)

lemma global_access:
  assumes R: "regions_ok R" and good: "global_good (data, sz, ext)"
    and p: "global_region (data, sz, ext) \<in> set R" and g: "global_guarded sh data sz"
    and n: "0 < n" and a: "unat a = unat data + i" "i + n \<le> unat sz + 16"
  shows "i + n \<le> unat sz \<Longrightarrow> open_at R sh a n"
    and "unat sz \<le> i \<Longrightarrow> shut_at ''global-buffer-overflow'' R sh a n"
proof -
  obtain q m where q: "global_region (data, sz, ext) = (q, m)" by (cases "global_region (data, sz, ext)")
  note u = global_region_nat [OF good q]
  have rg: "unat q \<le> unat a" "unat a + n \<le> unat q + unat m" using a u(2,4) by (auto split: if_splits)
  note e = region_end [OF R p [unfolded q] n rg(2)]
  have inR: "\<exists>(p, m) \<in> set R. unat p \<le> unat a \<and> unat a + n \<le> unat p + unat m" by (rule bexI [OF _ p [unfolded q]]) (use rg in simp)
  have x: "unat data \<le> unat a" "unat a < unat data + unat sz + 16" using a n by simp_all
  have y: "unat data \<le> unat (a + of_nat n - 1)" "unat (a + of_nat n - 1) < unat data + unat sz + 16" unfolding e using a n by simp_all
  note gx = g [unfolded global_guarded_def, rule_format, OF x] and gy = g [unfolded global_guarded_def, rule_format, OF y]
  show "open_at R sh a n" if "i + n \<le> unat sz"
    unfolding open_at_def using that gx gy a n inR by (simp add: e)
  show "shut_at ''global-buffer-overflow'' R sh a n" if "unat sz \<le> i"
    using that gx a n inR by (simp add: shut_at_def region_kind_global)
qed

section \<open>From the start to the verdict\<close>

definition loaded :: "memory \<Rightarrow> rt" where
  "loaded m = started\<lparr>mem := m\<rparr>"

lemma loaded_fields [simp]:
  "mem (loaded m) = m" "blocks (loaded m) = []" "reserved (loaded m)" "\<not> lock_held (loaded m)" "leak_on (loaded m)"
  "shadow_val (loaded m) x = 0"
  by (simp_all add: loaded_def started_def init_rt_def reserved_def shadow_val_def shadow_at_def)

lemma empty_heap_wf: "blocks s = [] \<Longrightarrow> reserved s \<Longrightarrow> \<not> lock_held s \<Longrightarrow> heap_wf s"
  by (simp add: heap_wf_def separate_def headers_ok_def shadow_ok_def)

lemma with_globals_stands: "stands R (shadow_val (with_globals gs (loaded m))) [] (with_globals gs (loaded m))"
  by (simp add: stands_def light_def empty_heap_wf)

text \<open>The plain environment of \<^verbatim>\<open>scripts/test.sh\<close>: text on a stderr that is no terminal, no suppressions.\<close>

definition plain_env :: "report_env \<Rightarrow> leak_env \<Rightarrow> bool" where
  "plain_env env le \<longleftrightarrow> rz_format env = FMT_TEXT \<and> \<not> rz_color_on env \<and> supp_file le = None"

lemma contains_header:
  "\<not> rz_color_on env \<Longrightarrow> contains (''==redzone ERROR: '' @ k) (error_header env k @ rest)"
proof -
  assume "\<not> rz_color_on env"
  then have "error_header env k @ rest = [] @ (''==redzone ERROR: '' @ k) @ rest" by (simp add: error_header_def col_def)
  then show ?thesis unfolding contains_iff by blast
qed

lemma report_text_kind:
  "plain_env env le \<Longrightarrow> \<exists>rest. report_text env r = error_header env (report_kind r) @ rest"
  by (cases r) (auto simp: plain_env_def report_free_error_def report_block_def report_simple_def access_lines_def)

lemma startup_loaded:
  assumes "roomy os"
  shows "run_process env le os m gs main = map_option (at_end env le) (main (with_globals gs (loaded m)))"
proof -
  have "redzone_shadow_startup (os s) (init_rt\<lparr>mem := m\<rparr>) = Done (loaded m)" for s
    using assms by (simp add: roomy_def redzone_shadow_startup_def shadow_init_def loaded_def started_def init_rt_def)
  then show ?thesis by (simp add: run_process_def Let_def register_globals_eq)
qed

lemma process_reports:
  assumes "roomy os" and "plain_env env le" and "main (with_globals gs (loaded m)) = Some o'" and "reports k o'" and "k \<noteq> ''OK''"
  shows "verdict k (run_process env le os m gs main)"
proof -
  obtain r where r: "o' = Halt (Report r)" "report_kind r = k" using assms(4) by (auto simp: reports_def)
  obtain rest where "report_text env r = error_header env k @ rest" using report_text_kind [OF assms(2)] r(2) by blast
  moreover have "\<not> rz_color_on env" using assms(2) by (simp add: plain_env_def)
  ultimately show ?thesis
    using contains_header [of env k rest] assms(3,5) r(1) by (simp add: startup_loaded [OF assms(1)])
qed

lemma process_exits:
  assumes "roomy os" and "main (with_globals gs (loaded m)) = Some (Done (st, out, s'))" and st: "stands R sh bs s'" and "\<forall>b \<in> set bs. freed b"
  shows "run_process env le os m gs main = Some (Exited st out [])"
proof -
  note d = standsD [OF st]
  have "filter (is_unsuppressed_leak (load_suppressions le)) (blocks s') = []"
    using assms(4) d(3) by (simp add: filter_empty_conv is_unsuppressed_leak_def)
  then have "report_leaks env le s' = Done (Return s')"
    using report_leaks_eq [OF heap_wfD(2) [OF d(1)] d(2), of le env] by simp
  then show ?thesis using assms(2) by (simp add: startup_loaded [OF assms(1)])
qed

lemma process_leaks:
  assumes "roomy os" and pe: "plain_env env le" and "main (with_globals gs (loaded m)) = Some (Done (st, out, s'))"
    and st: "stands R sh bs s'" and b: "b \<in> set bs" "\<not> freed b"
  shows "verdict ''memory-leak'' (run_process env le os m gs main)"
proof -
  note d = standsD [OF st]
  let ?leaks = "filter (is_unsuppressed_leak (load_suppressions le)) (blocks s')"
  have "load_suppressions le = []" using pe by (simp add: plain_env_def load_suppressions_def)
  then have "b \<in> set ?leaks" using b d(3) by (simp add: is_unsuppressed_leak_def leak_suppressed_def split: option.split)
  then have ne: "?leaks \<noteq> []" by (metis empty_iff list.set(1))
  have "length bs \<le> 1000000" using d(4) by (simp add: light_def)
  with length_filter_le [of "is_unsuppressed_leak (load_suppressions le)" bs] have "length ?leaks \<le> 1000000" unfolding d(3) by (rule le_trans)
  then have "length ?leaks < 18446744073709551616" by simp
  from report_leaks_eq [OF heap_wfD(2) [OF d(1)] d(2) this, of env] ne pe obtain rest
    where "report_leaks env le s' = Done (Exit1 (error_header env ''memory-leak'' @ rest))"
    by (simp add: plain_env_def)
  moreover have "\<not> rz_color_on env" using pe by (simp add: plain_env_def)
  ultimately show ?thesis
    using assms(3) contains_header [of env "''memory-leak''" rest] by (simp add: startup_loaded [OF assms(1)])
qed

text \<open>The frame around a body.\<close>

lemma frame_reports:
  assumes st: "stands R sh bs s" and f: "frame_in R fs"
    and b: "\<And>s' sh'. stands R sh' bs s' \<Longrightarrow> s' = entered fs s \<Longrightarrow> sh' = shadow_val s' \<Longrightarrow> \<exists>o'. prog s' = Some o' \<and> reports k o'"
  shows "\<exists>o'. with_frame os fs prog s = Some o' \<and> reports k o'"
proof -
  have fo: "\<forall>(p, k) \<in> set fs. slot_ok p k \<and> (p, k + 32) \<in> set R" using f by (simp add: frame_in_def)
  note e = enter_slots_stands [OF st fo, of os]
  then obtain o' where "prog (entered fs s) = Some o'" "reports k o'" using b by blast
  then show ?thesis using e by (auto simp: with_frame_def reports_def)
qed

lemma frame_done:
  assumes st: "stands R sh bs s" and f: "frame_in R fs"
    and b: "\<And>s' sh'. stands R sh' bs s' \<Longrightarrow> s' = entered fs s \<Longrightarrow> sh' = shadow_val s' \<Longrightarrow>
      \<exists>t sh2 bs'. prog s' = Some (Done (x, out, t)) \<and> stands R sh2 bs' t \<and> Q bs'"
  shows "\<exists>t sh2 bs'. with_frame os fs prog s = Some (Done (x, out, t)) \<and> stands R sh2 bs' t \<and> Q bs'"
proof -
  have fo: "\<forall>(p, k) \<in> set fs. slot_ok p k \<and> (p, k + 32) \<in> set R" using f by (simp add: frame_in_def)
  note e = enter_slots_stands [OF st fo, of os]
  obtain t sh2 bs' where t: "prog (entered fs s) = Some (Done (x, out, t))" "stands R sh2 bs' t" "Q bs'"
    using b e by blast
  from leave_slots_stands [OF t(2) fo, of os] obtain s' sh' where "leave_slots os fs t = Done s'" "stands R sh' bs' s'" by blast
  then show ?thesis using t(1,3) e by (intro exI [of _ s'] exI [of _ sh'] exI [of _ bs']) (simp add: with_frame_def)
qed

text \<open>How the body of \<^verbatim>\<open>main\<close> may end: with a status and an output, in a state whose blocks satisfy \<open>Q\<close>.\<close>

definition ends :: "(u64 \<times> u64) list \<Rightarrow> int \<Rightarrow> string \<Rightarrow> (block list \<Rightarrow> bool) \<Rightarrow> (int \<times> string \<times> rt) outcome \<Rightarrow> bool" where
  "ends R st out Q o' \<longleftrightarrow> (\<exists>t sh bs. o' = Done (st, out, t) \<and> stands R sh bs t \<and> Q bs)"

lemma ends_Done: "stands R sh bs t \<Longrightarrow> Q bs \<Longrightarrow> ends R st out Q (Done (st, out, t))"
  by (auto simp: ends_def)

section \<open>A program on a host\<close>

text \<open>
  What the verdicts rely on: the allocator's contract, room, a layout of the stack frame and the globals, and the
  plain environment. The rules follow a program one call at a time; \<open>P\<close> is what is to be shown of the rest of it.
\<close>

locale host =
  fixes os :: os and R :: "(u64 \<times> u64) list" and gs :: "global list" and fs :: "(u64 \<times> u64) list"
    and env :: report_env and le :: leak_env
  assumes alloc: "allocator R os" and room: "roomy os" and layout: "layout_ok R gs fs" and plain: "plain_env env le"
begin

lemma regions: "regions_ok R" and frame: "frame_in R fs"
  using layout by (simp_all add: layout_ok_def)

lemma run_reports:
  assumes "k \<noteq> ''OK''"
    and "\<And>s sh. stands R sh [] s \<Longrightarrow> s = entered fs (with_globals gs (loaded m)) \<Longrightarrow> sh = shadow_val s \<Longrightarrow>
      \<exists>o'. prog s = Some o' \<and> reports k o'"
  shows "verdict k (run_process env le os m gs (with_frame os fs prog))"
proof -
  have "\<exists>o'. with_frame os fs prog (with_globals gs (loaded m)) = Some o' \<and> reports k o'"
    by (rule frame_reports [OF with_globals_stands frame]) (use assms(2) in blast)
  then show ?thesis using process_reports [OF room plain _ _ assms(1)] by blast
qed

lemma run_ends:
  assumes "\<And>s sh. stands R sh [] s \<Longrightarrow> s = entered fs (with_globals gs (loaded m)) \<Longrightarrow> sh = shadow_val s \<Longrightarrow>
      \<exists>o'. prog s = Some o' \<and> ends R st out Q o'"
  shows "\<exists>t sh2 bs'. with_frame os fs prog (with_globals gs (loaded m)) = Some (Done (st, out, t)) \<and> stands R sh2 bs' t \<and> Q bs'"
  by (rule frame_done [OF with_globals_stands frame]) (use assms in \<open>fastforce simp: ends_def\<close>)

lemma run_exits:
  assumes "\<And>s sh. stands R sh [] s \<Longrightarrow> s = entered fs (with_globals gs (loaded m)) \<Longrightarrow> sh = shadow_val s \<Longrightarrow>
      \<exists>o'. prog s = Some o' \<and> ends R st out (list_all freed) o'"
  shows "run_process env le os m gs (with_frame os fs prog) = Some (Exited st out [])"
  using run_ends [of m prog st out "list_all freed", OF assms] process_exits [OF room] by (fastforce simp: list_all_iff)

lemma run_leaks:
  assumes "\<And>s sh. stands R sh [] s \<Longrightarrow> s = entered fs (with_globals gs (loaded m)) \<Longrightarrow> sh = shadow_val s \<Longrightarrow>
      \<exists>o'. prog s = Some o' \<and> ends R st out (list_ex (\<lambda>b. \<not> freed b)) o'"
  shows "verdict ''memory-leak'' (run_process env le os m gs (with_frame os fs prog))"
  using run_ends [of m prog st out "list_ex (\<lambda>b. \<not> freed b)", OF assms] process_leaks [OF room plain] by (fastforce simp: list_ex_iff)

lemma malloc_step:
  assumes "stands R sh bs s" and "unat sz \<le> 8000" and "length bs < 1000000"
    and "\<And>b s'. (\<And>x. \<not> in_block b (unat x) \<Longrightarrow> mem s' x = mem s x) \<Longrightarrow> stands R sh (bs @ [b]) s' \<Longrightarrow> block_ok b \<Longrightarrow> user_size b = sz \<Longrightarrow> \<not> freed b \<Longrightarrow>
      user_addr b \<noteq> 0 \<Longrightarrow> P (K (user_addr b, s'))"
  shows "P (bindO (redzone_malloc (os s) sz f l s) K)"
proof -
  obtain b s' where b: "redzone_malloc (os s) sz f l s = Done (user_addr b, s')" "grown R sh bs s sz f l b s'"
    using stands_malloc [OF assms(1) alloc room regions assms(2,3)] by blast
  then have g: "stands R sh (bs @ [b]) s'" "block_ok b" "user_size b = sz" "\<not> freed b" by (simp_all add: grown_def new_in_def)
  then have "user_addr b \<noteq> 0" using block_okD(3) [of b] by auto
  have "\<not> in_block b (unat x) \<Longrightarrow> mem s' x = mem s x" for x using b(2) by (simp add: grown_def)
  from assms(4) [OF this g \<open>user_addr b \<noteq> 0\<close>] show ?thesis by (simp add: b(1))
qed

lemma aligned_step:
  assumes "stands R sh bs s" and "4 \<le> k" and "k \<le> 6" and "unat sz \<le> 8000" and "length bs < 1000000" and al: "al = 2 ^ k"
    and "\<And>b s'. (\<And>x. \<not> in_block b (unat x) \<Longrightarrow> mem s' x = mem s x) \<Longrightarrow> stands R sh (bs @ [b]) s' \<Longrightarrow> block_ok b \<Longrightarrow> user_size b = sz \<Longrightarrow> \<not> freed b \<Longrightarrow>
      user_addr b \<noteq> 0 \<Longrightarrow> unat (user_addr b) mod 2 ^ k = 0 \<Longrightarrow> P (K (user_addr b, s'))"
  shows "P (bindO (redzone_aligned_alloc (os s) al sz f l s) K)"
proof -
  obtain b s' where b: "redzone_aligned_alloc (os s) (2 ^ k) sz f l s = Done (user_addr b, s')" "grown R sh bs s sz f l b s'"
    "unat (user_addr b) mod 2 ^ k = 0"
    using stands_aligned_alloc [OF assms(1) alloc room regions assms(2-5), where f = f and l = l] by (elim exE conjE) (rule that)
  then have g: "stands R sh (bs @ [b]) s'" "block_ok b" "user_size b = sz" "\<not> freed b" by (simp_all add: grown_def new_in_def)
  then have "user_addr b \<noteq> 0" using block_okD(3) [of b] by auto
  have "\<not> in_block b (unat x) \<Longrightarrow> mem s' x = mem s x" for x using b(2) by (simp add: grown_def)
  from assms(7) [OF this g \<open>user_addr b \<noteq> 0\<close> b(3)] show ?thesis by (simp add: b(1) al)
qed

lemma free_step:
  assumes "stands R sh bs s" and "i < length bs" and "\<not> freed (bs ! i)" and "p = user_addr (bs ! i)"
    and "\<And>s'. stands R sh (bs[i := (bs ! i)\<lparr>freed := True\<rparr>]) s' \<Longrightarrow> mem s' = mem s \<Longrightarrow> P (K s')"
  shows "P (bindO (redzone_free sys p s) K)"
proof -
  note f = stands_free [OF assms(1) regions assms(2-4)]
  from assms(5) [OF f(2)] show ?thesis by (simp add: f(1))
qed

lemma fill_step:
  fixes g :: "nat \<Rightarrow> 'a::len word"
  assumes st: "stands R sh bs s" and j: "j < length bs" "\<not> freed (bs ! j)" and p: "p = user_addr (bs ! j)"
    and w: "LENGTH('a) \<in> {8, 16, 32, 64}"
    and n: "n * (LENGTH('a) div 8) \<le> unat (user_size (bs ! j))"
    and rest: "\<And>m. stands R sh bs (s\<lparr>mem := m\<rparr>) \<Longrightarrow> holds m p n g \<Longrightarrow>
      (\<And>x. \<not> in_user (bs ! j) (unat x) \<Longrightarrow> m x = mem s x) \<Longrightarrow> P (K (s\<lparr>mem := m\<rparr>))"
  shows "P (bindO (fill_array os p n g f l s) K)"
proof -
  obtain m where m: "fill_array os p n g f l s = Done (s\<lparr>mem := m\<rparr>)" "stored R sh bs s p n n g m"
    using fill_good [OF st j p w n regions] by blast
  have "P (K (s\<lparr>mem := m\<rparr>))" by (rule rest) (use m(2) stored_outside [OF m(2) [unfolded p] n] in \<open>simp_all add: stored_def\<close>)
  then show ?thesis by (simp add: m(1))
qed

lemma store_step:
  fixes v :: "'a::len word"
  assumes st: "stands R sh bs s" and i: "i < length bs" "\<not> freed (bs ! i)"
    and a: "unat a = unat (user_addr (bs ! i)) + k" and n: "8 \<le> LENGTH('a)" "LENGTH('a) \<le> 64"
    and k: "k + LENGTH('a) div 8 \<le> unat (user_size (bs ! i))"
    and rest: "stands R sh bs (set_mem s (put_word a v)) \<Longrightarrow> P (K (set_mem s (put_word a v)))"
  shows "P (bindO (store_at os a v f l s) K)"
  using store_good [OF st i a n k] rest by simp

lemma fold_step:
  fixes g :: "nat \<Rightarrow> 'a::len word"
  assumes "stands R sh bs s" and "j < length bs" and "\<not> freed (bs ! j)" and "p = user_addr (bs ! j)" and "8 \<le> LENGTH('a)"
    and "n * (LENGTH('a) div 8) \<le> unat (user_size (bs ! j))"
    and "holds (mem s) p n g" and "P (K (foldl r x (map g [0..<n]), s))"
  shows "P (bindO (fold_array os p n r x f l s) K)"
  using fold_good [OF assms(1-7) regions, where os = os and r = r and x = x and f = f and l = l] assms(8) by simp

lemma load_step:
  assumes "stands R sh bs s" and "i < length bs" and "\<not> freed (bs ! i)"
    and "unat a = unat (user_addr (bs ! i)) + k" and "8 \<le> LENGTH('a)"
    and "k + LENGTH('a::len) div 8 \<le> unat (user_size (bs ! i))" and "P (K (word_at (mem s) a :: 'a word, s))"
  shows "P (bindO (load_at os a f l s) K)"
  using load_good [OF assms(1-6), where os = os and f = f and l = l] assms(7) by simp

lemma access_reported:
  assumes "stands R sh bs s" and "i < length bs" and "unat a = unat (user_addr (bs ! i)) + k"
    and "8 \<le> LENGTH('a::len)" and "k + LENGTH('a) div 8 \<le> unat (user_size (bs ! i)) + 16"
    and "freed (bs ! i) \<or> unat (user_size (bs ! i)) < k + LENGTH('a) div 8"
    and e: "kd = (if freed (bs ! i) then ''use-after-free'' else ''heap-buffer-overflow'')"
  shows "reports kd (bindO (store_at os a (v :: 'a word) f l s) K)"
    and "reports kd (bindO (load_at os a f l s :: ('a word \<times> rt) outcome) K')"
  using access_bad [OF assms(1-6)] unfolding e bad_kind_def by (auto intro: reports_bind)

lemma store_below:
  assumes st: "stands R sh bs s" and i: "i < length bs" and p: "p = user_addr (bs ! i)" and v: "LENGTH('a::len) = 32"
    and e: "kd = (if freed (bs ! i) then ''use-after-free'' else ''heap-buffer-overflow'')"
  shows "reports kd (bindO (store_at os (p - 4) (v :: 'a word) f l s) K)"
proof -
  have "16 \<le> unat (user_addr (bs ! i))" using block_okD(3) standsD(7) [OF st] i by simp
  then have a: "unat (p - 4) + 4 = unat (user_addr (bs ! i))" by (simp add: p unat_minus64)
  show ?thesis
    using check_below [OF st i a, of 4] by (simp add: store_at_def v e bad_kind_def reports_bind)
qed

lemma calloc_step:
  assumes "stands R sh bs s" and "unat (n * sz) \<le> 8000" and "length bs < 1000000" and g: "\<not> (sz \<noteq> 0 \<and> n > SIZE_MAX div sz)"
    and rest: "\<And>b s'. stands R sh (bs @ [b]) s' \<Longrightarrow> block_ok b \<Longrightarrow> user_size b = n * sz \<Longrightarrow> \<not> freed b \<Longrightarrow>
      user_addr b \<noteq> 0 \<Longrightarrow> P (K (user_addr b, s'))"
  shows "P (bindO (redzone_calloc (os s) n sz f l s) K)"
proof -
  have e: "redzone_calloc (os s) n sz f l s = bindO (redzone_malloc (os s) (n * sz) f l s) (\<lambda>(p, s).
      if p \<noteq> 0 then Done (p, s\<lparr>mem := mem_set p 0 (n * sz) (mem s)\<rparr>) else Done (p, s))"
    unfolding redzone_calloc_def Let_def using g by (simp only: if_False)
  show ?thesis
    unfolding e bindO_assoc
  proof (rule malloc_step [OF assms(1-3)])
    fix b s' assume st: "stands R sh (bs @ [b]) s'" and b: "block_ok b" "user_size b = n * sz" "\<not> freed b" "user_addr b \<noteq> 0"
    have "stands R sh (bs @ [b]) (s'\<lparr>mem := mem_set (user_addr b) 0 (n * sz) (mem s')\<rparr>)"
      by (rule stands_user_write [OF st, of "length bs" "user_addr b" 0 "unat (n * sz)"]) (simp_all add: b(2) mem_set_def)
    from rest [OF this b] b(4)
    show "P (bindO (case (user_addr b, s') of (p, s) \<Rightarrow>
        if p \<noteq> 0 then Done (p, s\<lparr>mem := mem_set p 0 (n * sz) (mem s)\<rparr>) else Done (p, s)) K)" by simp
  qed
qed

lemma store_next:
  fixes g :: "nat \<Rightarrow> 'a::len word"
  assumes st: "stands R sh bs s" and j: "j < length bs" "\<not> freed (bs ! j)" and p: "p = user_addr (bs ! j)"
    and w: "LENGTH('a) \<in> {8, 16, 32, 64}" and h: "holds (mem s) p k g" and v: "v = g k" and a: "a = idx p (LENGTH('a) div 8) k" "k' = Suc k"
    and n: "k' * (LENGTH('a) div 8) \<le> unat (user_size (bs ! j))"
    and rest: "\<And>s'. stands R sh bs s' \<Longrightarrow> holds (mem s') p k' g \<Longrightarrow>
      (\<And>x. \<not> in_user (bs ! j) (unat x) \<Longrightarrow> mem s' x = mem s x) \<Longrightarrow> P (K s')"
  shows "P (bindO (store_at os a v f l s) K)"
proof -
  have "stored R sh bs s p k' k g (mem s)" using st h by (simp add: stored_def)
  note ss = stored_step [OF regions block_usable [OF st j n] w _ this [unfolded p], folded p]
  have w0: "0 < LENGTH('a) div 8" "k < k'" using w a(2) by auto
  have m: "stored R sh bs s p k' k' g (put_word a v (mem s))" using ss(2) [OF w0] a v by simp
  have "P (K (s\<lparr>mem := put_word a v (mem s)\<rparr>))"
    by (rule rest) (use m stored_outside [OF m [unfolded p] n] in \<open>simp_all add: stored_def\<close>)
  then show ?thesis using ss(1) [OF w0] v a by simp
qed

lemma load_elem:
  fixes g :: "nat \<Rightarrow> 'a::len word"
  assumes st: "stands R sh bs s" and j: "j < length bs" "\<not> freed (bs ! j)" and p: "p = user_addr (bs ! j)" and w: "8 \<le> LENGTH('a)"
    and h: "holds (mem s) p n g" and k: "k < n" "a = idx p (LENGTH('a) div 8) k"
    and n: "n * (LENGTH('a) div 8) \<le> unat (user_size (bs ! j))"
    and rest: "P (K (g k, s))"
  shows "P (bindO (load_at os a f l s) K)"
proof -
  have b: "block_ok (bs ! j)" using standsD(7) [OF st] j by simp
  have "word_at (mem s) a = g k" using h k by (simp add: holds_def)
  with load_good [OF st j element(1) [OF b n k(1)] w element(2) [OF b n k(1)], of os f l] rest k(2) p show ?thesis by simp
qed

lemma realloc_step:
  assumes st: "stands R sh bs s" and i: "i < length bs" "\<not> freed (bs ! i)" and p: "p = user_addr (bs ! i)"
    and sz: "unat sz \<le> 8000" "sz \<noteq> 0" and n: "length bs < 1000000"
    and rest: "\<And>b s'. stands R sh ((bs @ [b])[i := (bs ! i)\<lparr>freed := True\<rparr>]) s' \<Longrightarrow> block_ok b \<Longrightarrow> user_size b = sz \<Longrightarrow>
      \<not> freed b \<Longrightarrow> user_addr b \<noteq> 0 \<Longrightarrow>
      (\<And>k. k < unat (user_size (bs ! i)) \<Longrightarrow> k < unat sz \<Longrightarrow> mem s' (user_addr b + of_nat k) = mem s (p + of_nat k)) \<Longrightarrow>
      P (K (user_addr b, s'))"
  shows "P (bindO (redzone_realloc (os s) p sz f l s) K)"
proof -
  note d = standsD [OF st]
  obtain b s1 where m: "redzone_malloc (os s) sz f l s = Done (user_addr b, s1)" "grown R sh bs s sz f l b s1"
    using stands_malloc [OF st alloc room regions sz(1) n] by blast
  then have g: "stands R sh (bs @ [b]) s1" "block_ok b" "user_size b = sz" "\<not> freed b" by (simp_all add: grown_def new_in_def)
  then have nz: "user_addr b \<noteq> 0" using block_okD(3) [of b] by auto
  have fk: "fresh s sz 16 f l (user_addr b) s1 \<and> kept s s1"
    by (rule redzone_malloc_cases [OF d(1) allocatorD(1) [OF alloc], of sz f l]) (use m(1) nz in auto)
  let ?n = "min (user_size (bs ! i)) sz" and ?s = "freed_result i (moved (user_addr b) p (min (user_size (bs ! i)) sz) s1)"
  have li: "i < length (blocks s)" "user_addr (blocks s ! i) = p" "\<not> freed (blocks s ! i)" using i p d(3) by simp_all
  note rl = realloc_live [OF d(1) li sz(2) m(1) conjunct1 [OF fk] conjunct2 [OF fk], unfolded d(3)]
  have "stands R sh (bs @ [b]) (s1\<lparr>mem := mem_move (user_addr b) p ?n (mem s1)\<rparr>)"
  proof (rule stands_user_write [OF g(1), of "length bs" "user_addr b" 0 "unat ?n"])
    show "0 + unat ?n \<le> unat (user_size ((bs @ [b]) ! length bs))" using g(3) by (simp add: min_def word_le_nat_alt)
  qed (simp_all add: mem_outside)
  then have "stands R sh ((bs @ [b])[i := ((bs @ [b]) ! i)\<lparr>freed := True\<rparr>]) ?s"
    unfolding moved_def by (rule stands_freed [OF _ regions]) (use i in simp)
  then have st': "stands R sh ((bs @ [b])[i := (bs ! i)\<lparr>freed := True\<rparr>]) ?s" using i(1) by (simp add: nth_append)
  from rest [OF st' g(2-4) nz rl(3)] show ?thesis by (simp add: rl(1))
qed

end

lemma idx_inside:
  assumes "block_ok b" and "w * i \<le> 1048576" and "0 < w * i" and "w * i \<le> unat (user_size b)"
  shows "in_block b (unat (idx (user_addr b) w i)) \<and> idx (user_addr b) w i \<noteq> user_addr b \<and> idx (user_addr b) w i \<noteq> 0"
proof -
  have u: "unat (idx (user_addr b) w i) = unat (user_addr b) + w * i" by (rule idx_offset [OF assms(1,2)])
  have "in_block b (unat (idx (user_addr b) w i))"
    unfolding u using block_okD(4,5) [OF assms(1)] assms(4) unfolding in_block_def by linarith
  moreover have "unat (idx (user_addr b) w i) \<noteq> unat (user_addr b)" "unat (idx (user_addr b) w i) \<noteq> 0" using u assms(3) by simp_all
  ultimately show ?thesis by auto
qed

end
