(* ===== verification/Mem_Regions.thy ===== *)
theory Mem_Regions
  imports Mem_Process
begin

text \<open>
  Rules for programs that work outside the heap or through the C library: loads and stores of stack variables and
  globals, the bulk wrappers, and the string functions on literals.
\<close>

section \<open>Loads and stores outside the heap\<close>

context host
begin

lemma region_store_step:
  fixes v :: "'a::len word"
  assumes st: "stands R sh bs s" and u: "usable R sh bs a w" and w: "w = LENGTH('a) div 8" and n: "LENGTH('a) \<le> 64"
    and rest: "stands R sh bs (set_mem s (put_word a v)) \<Longrightarrow> P (K (set_mem s (put_word a v)))"
  shows "P (bindO (store_at os a v f l s) K)"
  using usable_store [OF st regions u [unfolded w] n] rest by simp

lemma region_load_step:
  assumes "stands R sh bs s" and "usable R sh bs a w" and w: "w = LENGTH('a::len) div 8" and "P (K (word_at (mem s) a :: 'a word, s))"
  shows "P (bindO (load_at os a f l s) K)"
  using usable_load [OF assms(1) regions assms(2) [unfolded w], of os f l] assms(4) by simp

lemma region_fill_step:
  fixes g :: "nat \<Rightarrow> 'a::len word"
  assumes st: "stands R sh bs s" and u: "usable_array R sh bs p k n" and k: "k = LENGTH('a) div 8" and w: "LENGTH('a) \<in> {8, 16, 32, 64}"
    and rest: "\<And>m. stands R sh bs (s\<lparr>mem := m\<rparr>) \<Longrightarrow> holds m p n g \<Longrightarrow>
      (\<And>x. \<not> (unat p \<le> unat x \<and> unat x < unat p + n * k) \<Longrightarrow> m x = mem s x) \<Longrightarrow> P (K (s\<lparr>mem := m\<rparr>))"
  shows "P (bindO (fill_array os p n g f l s) K)"
proof -
  obtain m where m: "fill_array os p n g f l s = Done (s\<lparr>mem := m\<rparr>)" "stored R sh bs s p n n g m"
    using usable_fill [OF st regions u [unfolded k] w] by blast
  have "P (K (s\<lparr>mem := m\<rparr>))" by (rule rest) (use m(2) in \<open>simp_all add: stored_def k\<close>)
  then show ?thesis by (simp add: m(1))
qed

lemma region_reported:
  assumes "stands R sh bs s" and "shut_at kd R sh a w" and w: "w = LENGTH('a::len) div 8"
  shows "reports kd (bindO (store_at os a (v :: 'a word) f l s) K)"
    and "reports kd (bindO (load_at os a f l s :: ('a word \<times> rt) outcome) K')"
  using shut_check(1) [OF assms(1) regions assms(2)] unfolding w store_at_def load_at_def by (blast intro: reports_bind)+

text \<open>An array on the frame, by the slot that holds it, and an array that is a global.\<close>

lemma slot_in_frame: "(p, k) \<in> set fs \<Longrightarrow> slot_ok p k \<and> (p, k + 32) \<in> set R"
  using frame by (auto simp: frame_in_def)

lemma idx_region:
  assumes "unat p + w * i + w \<le> 140737488355328"
  shows "unat (idx p w i) = unat p + w * i"
proof -
  have "unat p + Suc i * w \<le> 140737488355328" using assms by (simp add: algebra_simps)
  then show ?thesis by (intro array_elem [of p w "Suc i"]) (simp_all add: array_at_def)
qed

lemma slot_base: "slot_ok p k \<Longrightarrow> unat (p + 16) = unat p + 16"
  by (rule slot_okD(3))

lemma slot_usable:
  assumes "(p, k) \<in> set fs" and "slot_guarded sh p k" and "unat a = unat p + 16 + i" and "0 < n" and "i + n \<le> unat k"
  shows "usable R sh bs a n"
  using slot_access(1) [OF regions _ _ assms(2,4,3)] slot_in_frame [OF assms(1)] assms(5) by (simp add: usable_def)

lemma slot_array:
  assumes s: "(p, k) \<in> set fs" and g: "slot_guarded sh p k" and w: "0 < w" and n: "n * w \<le> unat k"
  shows "usable_array R sh bs (p + 16) w n"
  unfolding usable_array_def
proof (intro conjI allI impI)
  note ok = conjunct1 [OF slot_in_frame [OF s]]
  have b: "unat (p + 16) = unat p + 16" "unat p + unat k + 32 \<le> 140737488355328"
    using slot_okD(3) [OF ok] ok by (simp_all add: slot_ok_def)
  then show ar: "array_at (p + 16) w n" using n by (simp add: array_at_def)
  show "usable R sh bs (idx (p + 16) w i) w" if "i < n" for i
    by (rule slot_usable [OF s g _ w, of _ "w * i"]) (use array_elem [OF ar that] elem_end [OF that, of w] n b in simp_all)
qed

lemma slot_shut:
  assumes s: "(p, k) \<in> set fs" and g: "slot_guarded sh p k" and m: "unat k mod 8 = 0"
    and i: "unat k < w * i + w" "w * i + w \<le> unat k + 16" "0 < w"
  shows "shut_at ''stack-buffer-overflow'' R sh (idx (p + 16) w i) w"
proof -
  note ok = slot_in_frame [OF s]
  have b: "unat (p + 16) = unat p + 16" "unat p + unat k + 32 \<le> 140737488355328"
    using slot_okD(3) [OF conjunct1 [OF ok]] ok by (simp_all add: slot_ok_def)
  then have "unat (idx (p + 16) w i) = unat p + 16 + w * i" using i by (simp add: idx_region)
  then show ?thesis by (intro slot_access(2) [OF regions _ _ g i(3) _ i(2)]) (use ok m i(1) in simp_all)
qed

lemma global_in: "(data, sz, ext) \<in> set gs \<Longrightarrow> global_good (data, sz, ext) \<and> global_region (data, sz, ext) \<in> set R"
  using layout by (auto simp: layout_ok_def)

lemma global_end: "(data, sz, ext) \<in> set gs \<Longrightarrow> unat data + unat sz + 16 \<le> 140737488355328"
  using global_in [of data sz ext] by (cases ext) (simp_all add: global_ok_def)

lemma global_array:
  assumes s: "(data, sz, ext) \<in> set gs" and g: "global_guarded sh data sz" and w: "0 < w" and n: "n * w \<le> unat sz"
  shows "usable_array R sh bs data w n"
  unfolding usable_array_def
proof (intro conjI allI impI)
  show ar: "array_at data w n" using n global_end [OF s] by (simp add: array_at_def)
  show "usable R sh bs (idx data w i) w" if i: "i < n" for i
  proof -
    have "w * i + w \<le> unat sz" using elem_end [OF i, of w] n by linarith
    with global_access(1) [OF regions conjunct1 [OF global_in [OF s]] conjunct2 [OF global_in [OF s]] g w array_elem [OF ar i]]
    show ?thesis by (simp add: usable_def)
  qed
qed

lemma global_shut:
  assumes s: "(data, sz, ext) \<in> set gs" and g: "global_guarded sh data sz"
    and i: "unat sz \<le> w * i" "w * i + w \<le> unat sz + 16" "0 < w"
  shows "shut_at ''global-buffer-overflow'' R sh (idx data w i) w"
proof -
  have "unat (idx data w i) = unat data + w * i" using i(2) global_end [OF s] by (intro idx_region) linarith
  with i show ?thesis
    by (intro global_access(2) [OF regions conjunct1 [OF global_in [OF s]] conjunct2 [OF global_in [OF s]] g i(3)])
qed

section \<open>Bulk memory\<close>

lemma slot_span:
  "(p, k) \<in> set fs \<Longrightarrow> slot_guarded sh p k \<Longrightarrow> 0 < n \<Longrightarrow> n \<le> unat k \<Longrightarrow> usable R sh bs (p + 16) n"
  using slot_usable [of p k sh "p + 16" 0 n bs] slot_okD(3) [OF conjunct1 [OF slot_in_frame]] by simp

lemma memset_step:
  assumes st: "stands R sh bs s" and u: "usable R sh bs a (unat n)"
    and rest: "stands R sh bs (set_mem s (mem_set a (ucast c) n)) \<Longrightarrow> P (K (a, set_mem s (mem_set a (ucast c) n)))"
  shows "P (bindO (redzone_memset sys a c n f l s) K)"
proof -
  have "stands R sh bs (set_mem s (mem_set a (ucast c) n))"
    unfolding set_mem_def by (rule usable_write [OF st regions u]) (simp add: mem_outside)
  from rest [OF this] show ?thesis by (simp add: redzone_memset_def check_usable [OF st regions u])
qed

lemma memcpy_step:
  assumes st: "stands R sh bs s" and u: "usable R sh bs a (unat n)" "usable R sh bs b (unat n)"
    and rest: "stands R sh bs (set_mem s (mem_move a b n)) \<Longrightarrow> P (K (a, set_mem s (mem_move a b n)))"
  shows "P (bindO (redzone_memcpy sys a b n f l s) K)"
proof -
  have "stands R sh bs (set_mem s (mem_move a b n))"
    unfolding set_mem_def by (rule usable_write [OF st regions u(1)]) (simp add: mem_outside)
  from rest [OF this] show ?thesis
    by (simp add: redzone_memcpy_def check_usable [OF st regions u(1)] check_usable [OF st regions u(2)])
qed

text \<open>A range that starts in a live block and runs into its right red zone.\<close>

lemma check_over:
  assumes st: "stands R sh bs s" and i: "i < length bs" "\<not> freed (bs ! i)" and a: "a = user_addr (bs ! i)"
    and n: "unat (user_size (bs ! i)) < unat n" "unat n \<le> unat (user_size (bs ! i)) + 16"
  shows "reports ''heap-buffer-overflow'' (redzone_check sys a n w f l s)"
  using check_bad(2) [OF st i(1), of a 0 "unat n" sys w f l] n i(2) a by (simp add: bad_kind_def)

lemma bulk_over:
  assumes "stands R sh bs s" and "i < length bs" and "\<not> freed (bs ! i)" and "a = user_addr (bs ! i)"
    and "unat (user_size (bs ! i)) < unat n" and "unat n \<le> unat (user_size (bs ! i)) + 16"
  shows "reports ''heap-buffer-overflow'' (bindO (redzone_memset sys a c n f l s) K)"
    and "reports ''heap-buffer-overflow'' (bindO (redzone_memcpy sys a b n f l s) K)"
  using check_over [OF assms] unfolding redzone_memset_def redzone_memcpy_def by (blast intro: reports_bind)+

end

end
