(* ===== verification/Mem_Heap_Examples.thy ===== *)
theory Mem_Heap_Examples
  imports Mem_Process
begin

text \<open>
  The memory-mode programs under \<^verbatim>\<open>examples\<close> that work on the heap, as the pass leaves them: the allocations,
  releases and checked accesses of \<^verbatim>\<open>main\<close> in order, in a frame of stack slots that the compiler chooses. Accesses to
  the variables of the frame itself are provably safe and carry no check; what \<^verbatim>\<open>printf\<close> prints is the text on stdout.
  The verdicts are those of \<^verbatim>\<open>scripts/test.sh\<close>.
\<close>

section \<open>The programs\<close>

type_synonym main_end = "(int \<times> string \<times> rt) outcome"

definition valid_c :: "os \<Rightarrow> rt \<Rightarrow> main_end" where
  "valid_c os s =
     bindO (redzone_malloc (os s) 16 (Some ''valid.c'') 7 s) (\<lambda>(buf, s).
     if buf = 0 then Done (1, [], s) else
     bindO (fill_array os buf 4 (\<lambda>i. of_nat (i * i) :: 32 word) (Some ''valid.c'') 13 s) (\<lambda>s.
     bindO (fold_array os buf 4 (+) (0 :: 32 word) (Some ''valid.c'') 15 s) (\<lambda>(sum, s).
     bindO (redzone_free (os s) buf s) (\<lambda>s.
     Done (0, ''sum = '' @ show_int (sint sum) @ newline, s)))))"

definition big_valid_c :: "os \<Rightarrow> rt \<Rightarrow> main_end" where
  "big_valid_c os s =
     bindO (redzone_malloc (os s) 4000 (Some ''big_valid.c'') 9 s) (\<lambda>(buf, s).
     if buf = 0 then Done (1, [], s) else
     bindO (fill_array os buf 1000 (\<lambda>i. of_nat i :: 32 word) (Some ''big_valid.c'') 14 s) (\<lambda>s.
     bindO (fold_array os buf 1000 (\<lambda>sum v. sum + (scast (v :: 32 word) :: 64 word)) 0 (Some ''big_valid.c'') 18 s) (\<lambda>(sum, s).
     bindO (redzone_free (os s) buf s) (\<lambda>s.
     Done (0, ''sum = '' @ show_int (sint sum) @ newline, s)))))"

definition two_allocs_valid_c :: "os \<Rightarrow> rt \<Rightarrow> main_end" where
  "two_allocs_valid_c os s =
     bindO (redzone_malloc (os s) 16 (Some ''two_allocs_valid.c'') 8 s) (\<lambda>(a, s).
     bindO (redzone_malloc (os s) 24 (Some ''two_allocs_valid.c'') 9 s) (\<lambda>(b, s).
     if a = 0 \<or> b = 0 then Done (1, [], s) else
     bindO (fill_array os a 4 (\<lambda>i. of_nat (i + 1) :: 32 word) (Some ''two_allocs_valid.c'') 14 s) (\<lambda>s.
     bindO (fill_array os b 6 (\<lambda>i. of_nat ((i + 1) * 10) :: 32 word) (Some ''two_allocs_valid.c'') 16 s) (\<lambda>s.
     bindO (fold_array os a 4 (+) (0 :: 32 word) (Some ''two_allocs_valid.c'') 20 s) (\<lambda>(sum, s).
     bindO (fold_array os b 6 (+) sum (Some ''two_allocs_valid.c'') 22 s) (\<lambda>(sum, s).
     bindO (redzone_free (os s) a s) (\<lambda>s.
     bindO (redzone_free (os s) b s) (\<lambda>s.
     Done (0, ''sum = '' @ show_int (sint sum) @ newline, s)))))))))"

definition heap_overflow_c :: "os \<Rightarrow> rt \<Rightarrow> main_end" where
  "heap_overflow_c os s =
     bindO (redzone_malloc (os s) 16 (Some ''heap_overflow.c'') 7 s) (\<lambda>(buf, s).
     if buf = 0 then Done (1, [], s) else
     bindO (fill_array os buf 4 (\<lambda>i. of_nat i :: 32 word) (Some ''heap_overflow.c'') 12 s) (\<lambda>s.
     bindO (store_at os (idx buf 4 4) (99 :: 32 word) (Some ''heap_overflow.c'') 14 s) (\<lambda>s.
     bindO (load_at os (idx buf 4 4) (Some ''heap_overflow.c'') 16 s) (\<lambda>(x :: 32 word, s).
     bindO (redzone_free (os s) buf s) (\<lambda>s.
     Done (0, show_int (sint x) @ newline, s))))))"

definition off_by_one_read_c :: "os \<Rightarrow> rt \<Rightarrow> main_end" where
  "off_by_one_read_c os s =
     bindO (redzone_malloc (os s) 20 (Some ''off_by_one_read.c'') 8 s) (\<lambda>(buf, s).
     if buf = 0 then Done (1, [], s) else
     bindO (fill_array os buf 5 (\<lambda>i. of_nat (i + 1) :: 32 word) (Some ''off_by_one_read.c'') 13 s) (\<lambda>s.
     bindO (load_at os (idx buf 4 5) (Some ''off_by_one_read.c'') 15 s) (\<lambda>(x :: 32 word, s).
     bindO (redzone_free (os s) buf s) (\<lambda>s.
     Done (0, show_int (sint x) @ newline, s)))))"

definition underflow_write_c :: "os \<Rightarrow> rt \<Rightarrow> main_end" where
  "underflow_write_c os s =
     bindO (redzone_malloc (os s) 16 (Some ''underflow_write.c'') 8 s) (\<lambda>(buf, s).
     if buf = 0 then Done (1, [], s) else
     bindO (store_at os (buf - 4) (7 :: 32 word) (Some ''underflow_write.c'') 12 s) (\<lambda>s.
     bindO (load_at os (idx buf 4 0) (Some ''underflow_write.c'') 14 s) (\<lambda>(x :: 32 word, s).
     bindO (redzone_free (os s) buf s) (\<lambda>s.
     Done (0, show_int (sint x) @ newline, s)))))"

definition use_after_free_c :: "os \<Rightarrow> rt \<Rightarrow> main_end" where
  "use_after_free_c os s =
     bindO (redzone_malloc (os s) 16 (Some ''use_after_free.c'') 7 s) (\<lambda>(buf, s).
     if buf = 0 then Done (1, [], s) else
     bindO (store_at os (idx buf 4 0) (42 :: 32 word) (Some ''use_after_free.c'') 11 s) (\<lambda>s.
     bindO (redzone_free (os s) buf s) (\<lambda>s.
     bindO (load_at os (idx buf 4 0) (Some ''use_after_free.c'') 14 s) (\<lambda>(x :: 32 word, s).
     Done (0, show_int (sint x) @ newline, s)))))"

definition use_after_free_write_c :: "os \<Rightarrow> rt \<Rightarrow> main_end" where
  "use_after_free_write_c os s =
     bindO (redzone_malloc (os s) 16 (Some ''use_after_free_write.c'') 8 s) (\<lambda>(buf, s).
     if buf = 0 then Done (1, [], s) else
     bindO (store_at os (idx buf 4 0) (1 :: 32 word) (Some ''use_after_free_write.c'') 12 s) (\<lambda>s.
     bindO (redzone_free (os s) buf s) (\<lambda>s.
     bindO (store_at os (idx buf 4 2) (99 :: 32 word) (Some ''use_after_free_write.c'') 15 s) (\<lambda>s.
     Done (0, [], s)))))"

definition double_free_c :: "os \<Rightarrow> rt \<Rightarrow> main_end" where
  "double_free_c os s =
     bindO (redzone_malloc (os s) 32 (Some ''double_free.c'') 8 s) (\<lambda>(buf, s).
     if buf = 0 then Done (1, [], s) else
     bindO (fill_array os buf 8 (\<lambda>i. of_nat i :: 32 word) (Some ''double_free.c'') 13 s) (\<lambda>s.
     bindO (redzone_free (os s) buf s) (\<lambda>s.
     bindO (redzone_free (os s) buf s) (\<lambda>s.
     Done (0, [], s)))))"

definition invalid_free_c :: "os \<Rightarrow> rt \<Rightarrow> main_end" where
  "invalid_free_c os s =
     bindO (redzone_malloc (os s) 16 (Some ''invalid_free.c'') 9 s) (\<lambda>(buf, s).
     if buf = 0 then Done (1, [], s) else
     bindO (fill_array os buf 4 (\<lambda>i. of_nat i :: 32 word) (Some ''invalid_free.c'') 14 s) (\<lambda>s.
     bindO (redzone_free (os s) (idx buf 4 1) s) (\<lambda>s.
     Done (0, [], s))))"

definition memory_leak_c :: "os \<Rightarrow> rt \<Rightarrow> main_end" where
  "memory_leak_c os s =
     bindO (redzone_malloc (os s) 32 (Some ''memory_leak.c'') 8 s) (\<lambda>(buf, s).
     if buf = 0 then Done (1, [], s) else
     bindO (fill_array os buf 8 (\<lambda>i. of_nat i :: 32 word) (Some ''memory_leak.c'') 13 s) (\<lambda>s.
     Done (0, ''done'' @ newline, s)))"

text \<open>The loop that leaves \<^verbatim>\<open>main\<close> when an allocation fails.\<close>

fun leak_rounds :: "os \<Rightarrow> nat \<Rightarrow> nat \<Rightarrow> rt \<Rightarrow> main_end" where
  "leak_rounds os i 0 s = Done (0, [], s)"
| "leak_rounds os i (Suc n) s =
     bindO (redzone_malloc (os s) 32 (Some ''multi_leak.c'') 8 s) (\<lambda>(p, s).
     if p = 0 then Done (1, [], s) else
     bindO (store_at os (idx p 4 0) (of_nat i :: 32 word) (Some ''multi_leak.c'') 11 s) (leak_rounds os (Suc i) n))"

definition multi_leak_c :: "os \<Rightarrow> rt \<Rightarrow> main_end" where
  "multi_leak_c os s = leak_rounds os 0 5 s"

definition calloc_overflow_c :: "os \<Rightarrow> rt \<Rightarrow> main_end" where
  "calloc_overflow_c os s =
     bindO (redzone_calloc (os s) 4 4 (Some ''calloc_overflow.c'') 8 s) (\<lambda>(buf, s).
     if buf = 0 then Done (1, [], s) else
     bindO (store_at os (idx buf 4 4) (7 :: 32 word) (Some ''calloc_overflow.c'') 12 s) (\<lambda>s.
     bindO (load_at os (idx buf 4 0) (Some ''calloc_overflow.c'') 14 s) (\<lambda>(x :: 32 word, s).
     bindO (redzone_free (os s) buf s) (\<lambda>s.
     Done (0, show_int (sint x) @ newline, s)))))"

definition realloc_grow_c :: "os \<Rightarrow> rt \<Rightarrow> main_end" where
  "realloc_grow_c os s =
     bindO (redzone_malloc (os s) 8 (Some ''realloc_grow.c'') 8 s) (\<lambda>(buf, s).
     if buf = 0 then Done (1, [], s) else
     bindO (store_at os (idx buf 4 0) (1 :: 32 word) (Some ''realloc_grow.c'') 11 s) (\<lambda>s.
     bindO (store_at os (idx buf 4 1) (2 :: 32 word) (Some ''realloc_grow.c'') 12 s) (\<lambda>s.
     bindO (redzone_realloc (os s) buf 16 (Some ''realloc_grow.c'') 14 s) (\<lambda>(buf, s).
     if buf = 0 then Done (1, [], s) else
     bindO (store_at os (idx buf 4 2) (3 :: 32 word) (Some ''realloc_grow.c'') 17 s) (\<lambda>s.
     bindO (store_at os (idx buf 4 3) (4 :: 32 word) (Some ''realloc_grow.c'') 18 s) (\<lambda>s.
     bindO (fold_array os buf 4 (+) (0 :: 32 word) (Some ''realloc_grow.c'') 20 s) (\<lambda>(sum, s).
     bindO (redzone_free (os s) buf s) (\<lambda>s.
     Done (0, ''sum = '' @ show_int (sint sum) @ newline, s)))))))))"

definition indirect_malloc_c :: "os \<Rightarrow> rt \<Rightarrow> main_end" where
  "indirect_malloc_c os s =
     bindO (redzone_malloc_plain (os s) 8 s) (\<lambda>(p, s).
     bindO (store_at os (idx p 1 12) (88 :: 8 word) (Some ''indirect_malloc.c'') 11 s) (\<lambda>s.
     bindO (redzone_free (os s) p s) (\<lambda>s.
     Done (0, [], s))))"

definition aligned_overflow_c :: "os \<Rightarrow> rt \<Rightarrow> main_end" where
  "aligned_overflow_c os s =
     bindO (redzone_aligned_alloc (os s) 64 16 (Some ''aligned_overflow.c'') 7 s) (\<lambda>(a, s).
     if a = 0 then Done (1, [], s) else
     bindO (fill_array os a 4 (\<lambda>i. of_nat i :: 32 word) (Some ''aligned_overflow.c'') 12 s) (\<lambda>s.
     bindO (store_at os (idx a 4 4) (99 :: 32 word) (Some ''aligned_overflow.c'') 14 s) (\<lambda>s.
     bindO (redzone_free (os s) a s) (\<lambda>s.
     Done (0, [], s)))))"

definition cpp_new_overflow :: "os \<Rightarrow> rt \<Rightarrow> main_end" where
  "cpp_new_overflow os s =
     bindO (redzone_malloc (os s) 16 (Some ''cpp_new_overflow.cpp'') 6 s) (\<lambda>(a, s).
     bindO (fill_array os a 4 (\<lambda>i. of_nat i :: 32 word) (Some ''cpp_new_overflow.cpp'') 9 s) (\<lambda>s.
     bindO (store_at os (idx a 4 4) (99 :: 32 word) (Some ''cpp_new_overflow.cpp'') 11 s) (\<lambda>s.
     bindO (load_at os (idx a 4 4) (Some ''cpp_new_overflow.cpp'') 13 s) (\<lambda>(x :: 32 word, s).
     bindO (redzone_free (os s) a s) (\<lambda>s.
     Done (0, show_int (sint x) @ newline, s))))))"

definition cpp_new_valid :: "os \<Rightarrow> rt \<Rightarrow> main_end" where
  "cpp_new_valid os s =
     bindO (redzone_malloc (os s) 32 (Some ''cpp_new_valid.cpp'') 8 s) (\<lambda>(a, s).
     bindO (fill_array os a 8 (\<lambda>i. of_nat (i * i) :: 32 word) (Some ''cpp_new_valid.cpp'') 10 s) (\<lambda>s.
     bindO (redzone_malloc (os s) 4 (Some ''cpp_new_valid.cpp'') 12 s) (\<lambda>(x, s).
     bindO (store_at os x (42 :: 32 word) (Some ''cpp_new_valid.cpp'') 13 s) (\<lambda>s.
     bindO (load_at os x (Some ''cpp_new_valid.cpp'') 15 s) (\<lambda>(v :: 32 word, s).
     bindO (fold_array os a 8 (\<lambda>sum v. sum + (scast (v :: 32 word) :: 64 word)) (scast v) (Some ''cpp_new_valid.cpp'') 17 s) (\<lambda>(sum, s).
     bindO (redzone_free (os s) x s) (\<lambda>s.
     bindO (redzone_free (os s) a s) (\<lambda>s.
     Done (0, show_int (sint sum) @ newline, s)))))))))"

definition cpp_delete_uaf :: "os \<Rightarrow> rt \<Rightarrow> main_end" where
  "cpp_delete_uaf os s =
     bindO (redzone_malloc (os s) 4 (Some ''cpp_delete_uaf.cpp'') 7 s) (\<lambda>(p, s).
     bindO (store_at os p (7 :: 32 word) (Some ''cpp_delete_uaf.cpp'') 7 s) (\<lambda>s.
     bindO (redzone_free (os s) p s) (\<lambda>s.
     bindO (load_at os p (Some ''cpp_delete_uaf.cpp'') 11 s) (\<lambda>(v :: 32 word, s).
     Done (0, show_int (sint v) @ newline, s)))))"

definition cpp_aligned_new_overflow :: "os \<Rightarrow> rt \<Rightarrow> main_end" where
  "cpp_aligned_new_overflow os s =
     bindO (redzone_aligned_alloc (os s) 64 64 (Some ''cpp_aligned_new_overflow.cpp'') 11 s) (\<lambda>(b, s).
     bindO (fill_array os b 64 (\<lambda>i. of_nat i :: 8 word) (Some ''cpp_aligned_new_overflow.cpp'') 13 s) (\<lambda>s.
     bindO (store_at os (idx b 1 64) (99 :: 8 word) (Some ''cpp_aligned_new_overflow.cpp'') 15 s) (\<lambda>s.
     bindO (load_at os (idx b 1 64) (Some ''cpp_aligned_new_overflow.cpp'') 17 s) (\<lambda>(x :: 8 word, s).
     bindO (redzone_free (os s) b s) (\<lambda>s.
     Done (0, show_int (sint x) @ newline, s))))))"

text \<open>The nested loop over the second array, which writes each element and reads it back.\<close>

definition cpp_rows :: "os \<Rightarrow> u64 \<Rightarrow> 64 word \<times> rt \<Rightarrow> (64 word \<times> rt) outcome" where
  "cpp_rows os a = for_up 0 3 (\<lambda>k. for_up 0 64 (\<lambda>i (sum, s).
       bindO (store_at os (idx a 1 (64 * k + i)) (of_nat (i + k) :: 8 word) (Some ''cpp_aligned_new_valid.cpp'') 29 s) (\<lambda>s.
       bindO (load_at os (idx a 1 (64 * k + i)) (Some ''cpp_aligned_new_valid.cpp'') 30 s) (\<lambda>(v, s).
       Done (sum + scast (v :: 8 word), s)))))"

definition cpp_aligned_new_valid :: "os \<Rightarrow> rt \<Rightarrow> main_end" where
  "cpp_aligned_new_valid os s =
     bindO (redzone_aligned_alloc (os s) 64 64 (Some ''cpp_aligned_new_valid.cpp'') 14 s) (\<lambda>(b, s).
     if b AND 63 \<noteq> 0 then Done (2, [], s) else
     bindO (fill_array os b 64 (\<lambda>i. of_nat i :: 8 word) (Some ''cpp_aligned_new_valid.cpp'') 18 s) (\<lambda>s.
     bindO (redzone_aligned_alloc (os s) 64 192 (Some ''cpp_aligned_new_valid.cpp'') 20 s) (\<lambda>(a, s).
     if a AND 63 \<noteq> 0 then Done (3, [], s) else
     bindO (fold_array os b 64 (\<lambda>sum v. sum + (scast (v :: 8 word) :: 64 word)) 0 (Some ''cpp_aligned_new_valid.cpp'') 26 s) (\<lambda>(sum, s).
     bindO (cpp_rows os a (sum, s)) (\<lambda>(sum, s).
     bindO (redzone_free (os s) a s) (\<lambda>s.
     bindO (redzone_free (os s) b s) (\<lambda>s.
     Done (0, show_int (sint sum) @ newline, s))))))))"

text \<open>The demonstration programs of the build-system integrations.\<close>

definition cmake_demo :: "os \<Rightarrow> rt \<Rightarrow> main_end" where
  "cmake_demo os s =
     bindO (redzone_malloc (os s) 16 (Some ''main.c'') 7 s) (\<lambda>(buf, s).
     if buf = 0 then Done (1, [], s) else
     bindO (fill_array os buf 4 (\<lambda>i. of_nat i :: 32 word) (Some ''main.c'') 12 s) (\<lambda>s.
     bindO (store_at os (idx buf 4 4) (99 :: 32 word) (Some ''main.c'') 14 s) (\<lambda>s.
     bindO (load_at os (idx buf 4 4) (Some ''main.c'') 16 s) (\<lambda>(x :: 32 word, s).
     bindO (redzone_free (os s) buf s) (\<lambda>s.
     Done (0, show_int (sint x) @ newline, s))))))"

definition make_demo :: "os \<Rightarrow> rt \<Rightarrow> main_end" where
  "make_demo os s =
     bindO (redzone_malloc (os s) 16 (Some ''main.c'') 14 s) (\<lambda>(buf, s).
     if buf = 0 then Done (1, [], s) else
     bindO (fill_array os buf 4 (\<lambda>i. of_nat i :: 32 word) (Some ''main.c'') 19 s) (\<lambda>s.
     bindO (store_at os (idx buf 4 4) (99 :: 32 word) (Some ''main.c'') 21 s) (\<lambda>s.
     bindO (load_at os (idx buf 4 4) (Some ''main.c'') 23 s) (\<lambda>(x :: 32 word, s).
     bindO (redzone_free (os s) buf s) (\<lambda>s.
     Done (0, show_int (sint x) @ newline, s))))))"

section \<open>Their verdicts\<close>

text \<open>The body of \<^verbatim>\<open>main\<close> in its frame.\<close>

definition in_main :: "os \<Rightarrow> (u64 \<times> u64) list \<Rightarrow> (os \<Rightarrow> rt \<Rightarrow> main_end) \<Rightarrow> rt \<Rightarrow> run" where
  "in_main os fs prog = with_frame os fs (\<lambda>s. Some (prog os s))"

text \<open>What the sums print.\<close>

lemma ends_Done2: "stands R sh bs t \<Longrightarrow> Q bs \<Longrightarrow> out = out' \<Longrightarrow> ends R st out Q (Done (st, out', t))"
  by (auto simp: ends_def)

lemma upt_numeral: "[0..<numeral k] = [0..<pred_numeral k] @ [pred_numeral k]"
  by (simp add: numeral_eq_Suc)

lemma digits:
  "digit_char 0 = CHR ''0''" "digit_char 1 = CHR ''1''" "digit_char 2 = CHR ''2''" "digit_char 3 = CHR ''3''" "digit_char 4 = CHR ''4''"
  "digit_char 5 = CHR ''5''" "digit_char 6 = CHR ''6''" "digit_char 7 = CHR ''7''" "digit_char 8 = CHR ''8''" "digit_char 9 = CHR ''9''"
  by code_simp+

lemmas printed = show_int_def show_base.simps digits digits(2) [unfolded One_nat_def]

lemma big_sum: "foldl (\<lambda>sum v. sum + (scast (v :: 32 word) :: 64 word)) 0 (map word_of_nat [0..<1000]) = 499500"
proof -
  have s: "(scast (word_of_nat i :: 32 word) :: 64 word) = of_nat i" if "i < 1000" for i
  proof -
    have "sint (word_of_nat i :: 32 word) = int i" using that by (simp add: signed_of_nat signed_take_bit_int_eq_self)
    then show ?thesis by (simp add: scast_eq)
  qed
  have "foldl (\<lambda>sum v. sum + (scast (v :: 32 word) :: 64 word)) 0 (map word_of_nat [0..<n]) = of_nat (n * (n - 1) div 2)"
    if "n \<le> 1000" for n
    using that
  proof (induction n)
    case (Suc n)
    have "Suc n * (Suc n - 1) div 2 = n * (n - 1) div 2 + n" by (cases n) (simp_all add: algebra_simps)
    then show ?case using Suc s by simp
  qed simp
  from this [of 1000] show ?thesis by simp
qed

text \<open>The two sums of the aligned example, kept folded.\<close>

definition bytes_total :: "64 word" where
  "bytes_total = foldl (\<lambda>sum v. sum + scast (v :: 8 word)) 0 (map of_nat [0..<64])"

definition rows_total :: "64 word \<Rightarrow> 64 word" where
  "rows_total = fold (\<lambda>k. fold (\<lambda>i sum. sum + scast (of_nat (i + k) :: 8 word)) [0..<64]) [0..<3]"

lemma aligned_sum: "rows_total bytes_total = 8256"
  by code_simp

lemma aligned_and: "unat (a :: u64) mod 64 = 0 \<Longrightarrow> a AND 63 = 0"
  using unat_and_mask [of 6 a] by (simp add: word_unat_eq_iff)

context host
begin

lemma rounds_step:
  assumes st: "stands R sh bs s" and j: "j < length bs" "\<not> freed (bs ! j)" and p: "p = user_addr (bs ! j)"
    and n: "192 \<le> unat (user_size (bs ! j))"
    and rest: "\<And>s'. stands R sh bs s' \<Longrightarrow>
      P (K (rows_total x, s'))"
  shows "P (bindO (cpp_rows os p (x, s)) K)"
proof -
  have b: "block_ok (bs ! j)" using standsD(7) [OF st] j by simp
  have "\<exists>s'. cpp_rows os p (x, s) =
     Done (fold (\<lambda>k. fold (\<lambda>i sum. sum + scast (of_nat (i + k) :: 8 word)) [0..<0 + 64]) [0..<0 + 3] x, s') \<and> stands R sh bs s'"
    unfolding cpp_rows_def
  proof (rule for_up_rule [where I = "stands R sh bs"], rule for_up_rule [where I = "stands R sh bs"])
    fix k i :: nat and s and sum :: "64 word" assume i: "k < 0 + 3" "i < 0 + 64" and s: "stands R sh bs s"
    have a: "unat (idx p 1 (64 * k + i)) = unat (user_addr (bs ! j)) + (64 * k + i)"
      using idx_offset [OF b, of 1 "64 * k + i"] i p by simp
    have k: "64 * k + i + LENGTH(8) div 8 \<le> unat (user_size (bs ! j))" using i n by simp
    note sg = store_good [OF s j a _ _ k, where v = "of_nat (i + k)"]
    show "\<exists>s'. (case (sum, s) of (sum, s) \<Rightarrow>
       bindO (store_at os (idx p 1 (64 * k + i)) (of_nat (i + k) :: 8 word) (Some ''cpp_aligned_new_valid.cpp'') 29 s) (\<lambda>s.
       bindO (load_at os (idx p 1 (64 * k + i)) (Some ''cpp_aligned_new_valid.cpp'') 30 s) (\<lambda>(v, s).
       Done (sum + scast (v :: 8 word), s)))) = Done (sum + scast (of_nat (i + k) :: 8 word), s') \<and> stands R sh bs s'"
      using sg load_good [OF sg(2) j a _ k] by (simp add: set_mem_def)
  qed (use st in simp_all)
  then obtain s' where "cpp_rows os p (x, s) = Done (rows_total x, s')" "stands R sh bs s'"
    by (auto simp: rows_total_def)
  then show ?thesis using rest by simp
qed

lemma bytes_step:
  assumes "stands R sh bs s" and "j < length bs" and "\<not> freed (bs ! j)" and "p = user_addr (bs ! j)"
    and "64 \<le> unat (user_size (bs ! j))" and "holds (mem s) p 64 (of_nat :: nat \<Rightarrow> 8 word)" and "P (K (bytes_total, s))"
  shows "P (bindO (fold_array os p 64 (\<lambda>sum v. sum + (scast (v :: 8 word) :: 64 word)) 0 f l s) K)"
  by (rule fold_step [where g = of_nat, OF assms(1-4)]) (use assms(5-7) in \<open>simp_all only: bytes_total_def [symmetric], simp_all\<close>)

text \<open>Four elements filled and a fifth one written.\<close>

lemma fifth_of_four:
  "stands R sh [] s \<Longrightarrow> reports ''heap-buffer-overflow'' (bindO (redzone_malloc (os s) 16 f l1 s) (\<lambda>(buf, s).
     if buf = 0 then Done (1, [], s) else
     bindO (fill_array os buf 4 (\<lambda>i. of_nat i :: 32 word) f l2 s) (\<lambda>s.
     bindO (store_at os (idx buf 4 4) (99 :: 32 word) f l3 s) (K buf))) :: main_end)"
  apply (rule malloc_step [where P = "reports _"], assumption, simp_all)
  apply (rule fill_step [where j = 0 and P = "reports _"], assumption, simp_all)
  apply (rule access_reported [where i = 0 and k = 16], assumption, simp_all add: idx_offset)
  done

lemma heap_overflow:
  assumes "stands R sh [] s"
  shows "reports ''heap-buffer-overflow'' (heap_overflow_c os s)"
    and "reports ''heap-buffer-overflow'' (cmake_demo os s)" and "reports ''heap-buffer-overflow'' (make_demo os s)"
  unfolding heap_overflow_c_def cmake_demo_def make_demo_def by (rule fifth_of_four [OF assms])+

lemma off_by_one_read: "stands R sh [] s \<Longrightarrow> reports ''heap-buffer-overflow'' (off_by_one_read_c os s)"
  unfolding off_by_one_read_c_def
  apply (rule malloc_step [where P = "reports _"], assumption, simp_all)
  apply (rule fill_step [where j = 0 and P = "reports _"], assumption, simp_all)
  apply (rule access_reported [where i = 0 and k = 20], assumption, simp_all add: idx_offset)
  done

lemma use_after_free: "stands R sh [] s \<Longrightarrow> reports ''use-after-free'' (use_after_free_c os s)"
  unfolding use_after_free_c_def
  apply (rule malloc_step [where P = "reports _"], assumption, simp_all)
  apply (rule store_step [where i = 0 and k = 0 and P = "reports _"], assumption, simp_all add: idx_offset)
  apply (rule free_step [where i = 0 and P = "reports _"], assumption, simp_all)
  apply (rule access_reported [where i = 0 and k = 0], assumption, simp_all add: idx_offset)
  done

lemma underflow_write: "stands R sh [] s \<Longrightarrow> reports ''heap-buffer-overflow'' (underflow_write_c os s)"
  unfolding underflow_write_c_def
  apply (rule malloc_step [where P = "reports _"], assumption, simp_all)
  apply (rule store_below [where i = 0], assumption, simp_all)
  done

lemma use_after_free_write: "stands R sh [] s \<Longrightarrow> reports ''use-after-free'' (use_after_free_write_c os s)"
  unfolding use_after_free_write_c_def
  apply (rule malloc_step [where P = "reports _"], assumption, simp_all)
  apply (rule store_step [where i = 0 and k = 0 and P = "reports _"], assumption, simp_all add: idx_offset)
  apply (rule free_step [where i = 0 and P = "reports _"], assumption, simp_all)
  apply (rule access_reported [where i = 0 and k = 8], assumption, simp_all add: idx_offset)
  done

lemma double_free: "stands R sh [] s \<Longrightarrow> reports ''double-free'' (double_free_c os s)"
  unfolding double_free_c_def
  apply (rule malloc_step [where P = "reports _"], assumption, simp_all)
  apply (rule fill_step [where j = 0 and P = "reports _"], assumption, simp_all)
  apply (rule free_step [where i = 0 and P = "reports _"], assumption, simp_all)
  apply (rule reports_bind, rule double_free_reported [where i = 0], assumption, simp_all)
  done

lemma invalid_free: "stands R sh [] s \<Longrightarrow> reports ''invalid-free'' (invalid_free_c os s)"
  unfolding invalid_free_c_def
  apply (rule malloc_step [where P = "reports _"], assumption, simp_all)
  apply (rule fill_step [where j = 0 and P = "reports _"], assumption, simp_all)
  apply (rule reports_bind, rule invalid_free_reported [where i = 0], assumption, simp_all add: idx_inside)
  done

lemma calloc_overflow_run: "stands R sh [] s \<Longrightarrow> reports ''heap-buffer-overflow'' (calloc_overflow_c os s)"
  unfolding calloc_overflow_c_def
  apply (rule calloc_step [where P = "reports _"], assumption, simp_all add: SIZE_MAX_def)
  apply (rule access_reported [where i = 0 and k = 16], assumption, simp_all add: idx_offset)
  done

lemma indirect_malloc: "stands R sh [] s \<Longrightarrow> reports ''heap-buffer-overflow'' (indirect_malloc_c os s)"
  unfolding indirect_malloc_c_def redzone_malloc_plain_def
  apply (rule malloc_step [where P = "reports _"], assumption, simp_all)
  apply (rule access_reported [where i = 0 and k = 12], assumption, simp_all add: idx_offset)
  done

lemma aligned_overflow: "stands R sh [] s \<Longrightarrow> reports ''heap-buffer-overflow'' (aligned_overflow_c os s)"
  unfolding aligned_overflow_c_def
  apply (rule aligned_step [where k = 6 and P = "reports _"], assumption, simp_all)
  apply (rule fill_step [where j = 0 and P = "reports _"], assumption, simp_all)
  apply (rule access_reported [where i = 0 and k = 16], assumption, simp_all add: idx_offset)
  done

lemma cpp_new_overflow: "stands R sh [] s \<Longrightarrow> reports ''heap-buffer-overflow'' (cpp_new_overflow os s)"
  unfolding cpp_new_overflow_def
  apply (rule malloc_step [where P = "reports _"], assumption, simp_all)
  apply (rule fill_step [where j = 0 and P = "reports _"], assumption, simp_all)
  apply (rule access_reported [where i = 0 and k = 16], assumption, simp_all add: idx_offset)
  done

lemma cpp_delete_uaf: "stands R sh [] s \<Longrightarrow> reports ''use-after-free'' (cpp_delete_uaf os s)"
  unfolding cpp_delete_uaf_def
  apply (rule malloc_step [where P = "reports _"], assumption, simp_all)
  apply (rule store_step [where i = 0 and k = 0 and P = "reports _"], assumption, simp_all)
  apply (rule free_step [where i = 0 and P = "reports _"], assumption, simp_all)
  apply (rule access_reported [where i = 0 and k = 0], assumption, simp_all)
  done

lemma cpp_aligned_new_overflow: "stands R sh [] s \<Longrightarrow> reports ''heap-buffer-overflow'' (cpp_aligned_new_overflow os s)"
  unfolding cpp_aligned_new_overflow_def
  apply (rule aligned_step [where k = 6 and P = "reports _"], assumption, simp_all)
  apply (rule fill_step [where j = 0 and P = "reports _"], assumption, simp_all)
  apply (rule access_reported [where i = 0 and k = 64], assumption, simp_all add: idx_offset)
  done

lemma memory_leak: "stands R sh [] s \<Longrightarrow> ends R 0 (''done'' @ newline) (list_ex (\<lambda>b. \<not> freed b)) (memory_leak_c os s)"
  unfolding memory_leak_c_def
  apply (rule malloc_step [where P = "ends _ _ _ _"], assumption, simp_all)
  apply (rule fill_step [where j = 0 and P = "ends _ _ _ _"], assumption, simp_all)
  apply (rule ends_Done, assumption, simp_all)
  done

lemma leak_rounds:
  "stands R sh bs s \<Longrightarrow> length bs + n \<le> 64 \<Longrightarrow> list_ex (\<lambda>b. \<not> freed b) bs \<or> 0 < n \<Longrightarrow>
    ends R 0 [] (list_ex (\<lambda>b. \<not> freed b)) (leak_rounds os i n s)"
proof (induction n arbitrary: i bs s)
  case 0
  then show ?case by (auto intro: ends_Done)
next
  case (Suc n)
  show ?case
    unfolding leak_rounds.simps
    apply (rule malloc_step [OF Suc.prems(1), where P = "ends _ _ _ _"])
    using Suc.prems(2) apply simp_all
    apply (rule store_step [where i = "length bs" and k = 0 and P = "ends _ _ _ _"], assumption, simp_all add: idx_offset)
    apply (rule Suc.IH, assumption)
    using Suc.prems(2) apply simp_all
    done
qed

lemma multi_leak: "stands R sh [] s \<Longrightarrow> ends R 0 [] (list_ex (\<lambda>b. \<not> freed b)) (multi_leak_c os s)"
  unfolding multi_leak_c_def by (rule leak_rounds, assumption) simp_all

lemma valid: "stands R sh [] s \<Longrightarrow> ends R 0 (''sum = 14'' @ newline) (list_all freed) (valid_c os s)"
  unfolding valid_c_def
  apply (rule malloc_step [where P = "ends _ _ _ _"], assumption, simp_all)
  apply (rule fill_step [where j = 0 and P = "ends _ _ _ _"], assumption, simp_all)
  apply (rule fold_step [where j = 0 and P = "ends _ _ _ _"], assumption, simp_all)
  apply (rule free_step [where i = 0 and P = "ends _ _ _ _"], assumption, simp_all)
  apply (rule ends_Done2, assumption, simp_all add: upt_numeral printed)
  done

lemma big_valid: "stands R sh [] s \<Longrightarrow> ends R 0 (''sum = 499500'' @ newline) (list_all freed) (big_valid_c os s)"
  unfolding big_valid_c_def
  apply (rule malloc_step [where P = "ends _ _ _ _"], assumption, simp_all)
  apply (rule fill_step [where j = 0 and P = "ends _ _ _ _"], assumption, simp_all)
  apply (rule fold_step [where j = 0 and P = "ends _ _ _ _"], assumption, simp_all)
  apply (rule free_step [where i = 0 and P = "ends _ _ _ _"], assumption, simp_all)
  apply (rule ends_Done2, assumption, simp_all add: big_sum printed)
  done

lemma two_allocs_valid: "stands R sh [] s \<Longrightarrow> ends R 0 (''sum = 220'' @ newline) (list_all freed) (two_allocs_valid_c os s)"
  unfolding two_allocs_valid_c_def
  apply (rule malloc_step [where P = "ends _ _ _ _"], assumption, simp_all)
  apply (rule malloc_step [where P = "ends _ _ _ _"], assumption, simp_all)
  apply (rule fill_step [where j = 0 and P = "ends _ _ _ _"], assumption, simp_all)
  apply (rule fill_step [where j = 1 and P = "ends _ _ _ _"], assumption, simp_all)
  apply (rule fold_step [where j = 0 and g = "\<lambda>i. 1 + of_nat i" and P = "ends _ _ _ _"], assumption, simp_all)
   apply (rule holds_other_filled [where i = 0 and j = 1 and bs = "[_, _]"], assumption, ((simp; fail) | assumption)+)
  apply (rule fold_step [where j = 1 and P = "ends _ _ _ _"], assumption, simp_all)
  apply (rule free_step [where i = 0 and P = "ends _ _ _ _"], assumption, simp_all)
  apply (rule free_step [where i = 1 and P = "ends _ _ _ _"], assumption, simp_all)
  apply (rule ends_Done2, assumption, simp_all add: upt_numeral printed)
  done

lemma realloc_grow: "stands R sh [] s \<Longrightarrow> ends R 0 (''sum = 10'' @ newline) (list_all freed) (realloc_grow_c os s)"
  unfolding realloc_grow_c_def
  apply (rule malloc_step [where P = "ends _ _ _ _"], assumption, simp_all)
  apply (rule store_next [where k = 0 and k' = 1 and j = 0 and g = "\<lambda>i. of_nat i + 1 :: 32 word" and P = "ends _ _ _ _"], assumption, simp_all)
  apply (rule store_next [where k = 1 and k' = 2 and j = 0 and g = "\<lambda>i. of_nat i + 1 :: 32 word" and P = "ends _ _ _ _"], assumption, simp_all)
  apply (rule realloc_step [where i = 0 and P = "ends _ _ _ _"], assumption, simp_all)
  apply (rule store_next [where k = 2 and k' = 3 and j = 1 and g = "\<lambda>i. of_nat i + 1 :: 32 word" and P = "ends _ _ _ _"], assumption, simp_all)
   apply (rule holds_moved, assumption, simp)
  apply (rule store_next [where k = 3 and k' = 4 and j = 1 and g = "\<lambda>i. of_nat i + 1 :: 32 word" and P = "ends _ _ _ _"], assumption, simp_all)
  apply (rule fold_step [where j = 1 and g = "\<lambda>i. of_nat i + 1 :: 32 word" and P = "ends _ _ _ _"], assumption, simp_all)
  apply (rule free_step [where i = 1 and P = "ends _ _ _ _"], assumption, simp_all)
  apply (rule ends_Done2, assumption, simp_all add: upt_numeral printed)
  done

lemma cpp_new_valid: "stands R sh [] s \<Longrightarrow> ends R 0 (''182'' @ newline) (list_all freed) (cpp_new_valid os s)"
  unfolding cpp_new_valid_def
  apply (rule malloc_step [where P = "ends _ _ _ _"], assumption, simp_all)
  apply (rule fill_step [where j = 0 and P = "ends _ _ _ _"], assumption, simp_all)
  apply (rule malloc_step [where P = "ends _ _ _ _"], assumption, simp_all)
  apply (rule store_next [where k = 0 and k' = 1 and j = 1 and g = "\<lambda>_. 42" and P = "ends _ _ _ _"], assumption, simp_all)
  apply (rule load_elem [where j = 1 and k = 0 and n = 1 and g = "\<lambda>_. 42" and P = "ends _ _ _ _"], assumption, simp_all)
  apply (rule fold_step [where j = 0 and g = "\<lambda>i. of_nat i * of_nat i" and P = "ends _ _ _ _"], assumption, simp_all)
   apply (rule holds_other [where i = 0 and j = 1 and bs = "[_, _]"], assumption, ((simp add: not_in_user; fail) | assumption)+)
  apply (rule free_step [where i = 1 and P = "ends _ _ _ _"], assumption, simp_all)
  apply (rule free_step [where i = 0 and P = "ends _ _ _ _"], assumption, simp_all)
  apply (rule ends_Done2, assumption, simp_all add: upt_numeral printed)
  done

lemma cpp_aligned_new_valid:
  "stands R sh [] s \<Longrightarrow> ends R 0 (''8256'' @ newline) (list_all freed) (cpp_aligned_new_valid os s)"
  unfolding cpp_aligned_new_valid_def
  apply (rule aligned_step [where k = 6 and P = "ends _ _ _ _"], assumption, simp_all add: aligned_and)
  apply (rule fill_step [where j = 0 and P = "ends _ _ _ _"], assumption, simp_all)
  apply (rule aligned_step [where k = 6 and P = "ends _ _ _ _"], assumption, simp_all add: aligned_and)
  apply (rule bytes_step [where j = 0 and P = "ends _ _ _ _"], assumption, simp_all)
   apply (rule holds_other [where i = 0 and j = 1 and bs = "[_, _]"], assumption, ((simp; fail) | assumption)+)
  apply (rule rounds_step [where j = 1 and P = "ends _ _ _ _"], assumption, simp_all add: aligned_sum)
  apply (rule free_step [where i = 1 and P = "ends _ _ _ _"], assumption, simp_all)
  apply (rule free_step [where i = 0 and P = "ends _ _ _ _"], assumption, simp_all)
  apply (rule ends_Done2, assumption, simp_all add: printed)
  done

end

end
