(* ===== verification/Mem_Region_Examples.thy ===== *)
theory Mem_Region_Examples
  imports Mem_Regions Mem_Heap_Examples
begin

text \<open>
  The memory-mode programs under \<^verbatim>\<open>examples\<close> that go past a stack array or a global, copy with \<^verbatim>\<open>memcpy\<close> and
  \<^verbatim>\<open>memset\<close>, or run part of their work in another function or thread. An array on the frame is given by its
  address; \<open>put_word\<close> and \<open>word_at\<close> alone are accesses whose check the pass left out, because the access is
  inside a variable of the frame or follows a check of the same pointer.
\<close>

section \<open>The programs\<close>

definition stack_overflow_c :: "u64 \<Rightarrow> os \<Rightarrow> rt \<Rightarrow> main_end" where
  "stack_overflow_c a os s =
     bindO (fill_array os a 4 (\<lambda>i. of_nat i :: 32 word) (Some ''stack_overflow.c'') 11 s) (\<lambda>s.
     bindO (store_at os (idx a 4 4) (99 :: 32 word) (Some ''stack_overflow.c'') 13 s) (\<lambda>s.
     bindO (load_at os (idx a 4 4) (Some ''stack_overflow.c'') 15 s) (\<lambda>(x :: 32 word, s).
     Done (0, show_int (sint x) @ newline, s))))"

definition stack_inbounds_then_oob_c :: "u64 \<Rightarrow> os \<Rightarrow> rt \<Rightarrow> main_end" where
  "stack_inbounds_then_oob_c a os s =
     (let s = set_mem s (put_word (idx a 4 0) (0 :: 32 word));
          s = set_mem s (put_word (idx a 4 1) (1 :: 32 word));
          s = set_mem s (put_word (idx a 4 2) (2 :: 32 word));
          s = set_mem s (put_word (idx a 4 3) (3 :: 32 word)) in
      bindO (store_at os (idx a 4 4) (99 :: 32 word) (Some ''stack_inbounds_then_oob.c'') 17 s) (\<lambda>s.
      let x = word_at (mem s) (idx a 4 3) :: 32 word in
      bindO (load_at os (idx a 4 4) (Some ''stack_inbounds_then_oob.c'') 19 s) (\<lambda>(y :: 32 word, s).
      Done (0, show_int (sint (x + y)) @ newline, s))))"

text \<open>\<open>g[i] += 1\<close> and \<open>total += data[i]\<close>: the loads are checked, the store to the same pointer is not checked again.\<close>

definition bump :: "os \<Rightarrow> u64 \<Rightarrow> cstr \<Rightarrow> int \<Rightarrow> rt \<Rightarrow> rt outcome" where
  "bump os g f l s = for_up 0 4 (\<lambda>i s.
     bindO (load_at os (idx g 4 i) f l s) (\<lambda>(v :: 32 word, s).
     Done (set_mem s (put_word (idx g 4 i) (v + 1))))) s"

definition global_overflow_c :: "u64 \<Rightarrow> os \<Rightarrow> rt \<Rightarrow> main_end" where
  "global_overflow_c g os s =
     bindO (bump os g (Some ''global_overflow.c'') 10 s) (\<lambda>s.
     bindO (store_at os (idx g 4 4) (99 :: 32 word) (Some ''global_overflow.c'') 12 s) (\<lambda>s.
     let x = word_at (mem s) (idx g 4 4) :: 32 word in
     Done (0, show_int (sint x) @ newline, s)))"

definition extern_global_overflow_c :: "u64 \<Rightarrow> os \<Rightarrow> rt \<Rightarrow> main_end" where
  "extern_global_overflow_c g os s =
     bindO (bump os g (Some ''extern_global_overflow.c'') 12 s) (\<lambda>s.
     bindO (store_at os (idx g 4 4) (99 :: 32 word) (Some ''extern_global_overflow.c'') 14 s) (\<lambda>s.
     let x = word_at (mem s) (idx g 4 4) :: 32 word in
     Done (0, show_int (sint x) @ newline, s)))"

definition add_up :: "os \<Rightarrow> u64 \<Rightarrow> u64 \<Rightarrow> rt \<Rightarrow> rt outcome" where
  "add_up os tot data s = for_up 0 8 (\<lambda>i s.
     bindO (load_at os (idx data 4 i) (Some ''extern_global_valid.c'') 13 s) (\<lambda>(v :: 32 word, s).
     bindO (load_at os tot (Some ''extern_global_valid.c'') 13 s) (\<lambda>(t :: 64 word, s).
     Done (set_mem s (put_word tot (t + scast v)))))) s"

definition extern_global_valid_c :: "u64 \<Rightarrow> u64 \<Rightarrow> os \<Rightarrow> rt \<Rightarrow> main_end" where
  "extern_global_valid_c tot data os s =
     bindO (fill_array os data 8 (\<lambda>i. of_nat (i * i) :: 32 word) (Some ''extern_global_valid.c'') 11 s) (\<lambda>s.
     bindO (add_up os tot data s) (\<lambda>s.
     bindO (load_at os tot (Some ''extern_global_valid.c'') 15 s) (\<lambda>(t :: 64 word, s).
     Done (0, show_int (sint t) @ newline, s))))"

definition memcpy_overflow_c :: "u64 \<Rightarrow> os \<Rightarrow> rt \<Rightarrow> main_end" where
  "memcpy_overflow_c src os s =
     bindO (redzone_malloc (os s) 8 (Some ''memcpy_overflow.c'') 9 s) (\<lambda>(p, s).
     bindO (redzone_memset (os s) src 0 16 (Some ''memcpy_overflow.c'') 10 s) (\<lambda>(_, s).
     bindO (redzone_memcpy (os s) p src 16 (Some ''memcpy_overflow.c'') 12 s) (\<lambda>(_, s).
     bindO (redzone_free (os s) p s) (\<lambda>s.
     Done (0, [], s)))))"

definition memcpy_valid_c :: "u64 \<Rightarrow> os \<Rightarrow> rt \<Rightarrow> main_end" where
  "memcpy_valid_c src os s =
     bindO (redzone_malloc (os s) 16 (Some ''memcpy_valid.c'') 7 s) (\<lambda>(p, s).
     bindO (redzone_memset (os s) src 0 16 (Some ''memcpy_valid.c'') 8 s) (\<lambda>(_, s).
     bindO (redzone_memcpy (os s) p src 16 (Some ''memcpy_valid.c'') 10 s) (\<lambda>(_, s).
     bindO (redzone_memset (os s) p 0 16 (Some ''memcpy_valid.c'') 11 s) (\<lambda>(_, s).
     bindO (redzone_free (os s) p s) (\<lambda>s.
     Done (0, [], s))))))"

definition memset_overflow_c :: "os \<Rightarrow> rt \<Rightarrow> main_end" where
  "memset_overflow_c os s =
     bindO (redzone_malloc (os s) 8 (Some ''memset_overflow.c'') 7 s) (\<lambda>(p, s).
     bindO (redzone_memset (os s) p 0 16 (Some ''memset_overflow.c'') 9 s) (\<lambda>(_, s).
     bindO (redzone_free (os s) p s) (\<lambda>s.
     Done (0, [], s))))"

text \<open>\<open>q\<close> is the variable \<^verbatim>\<open>posix_memalign\<close> fills, \<open>v\<close> what \<^verbatim>\<open>main\<close> reads back from it.\<close>

definition aligned_valid_c :: "u64 \<Rightarrow> os \<Rightarrow> rt \<Rightarrow> main_end" where
  "aligned_valid_c q os s =
     bindO (redzone_aligned_alloc (os s) 64 64 (Some ''aligned_valid.c'') 9 s) (\<lambda>(p, s).
     if p = 0 then Done (1, [], s) else
     if p AND 63 \<noteq> 0 then Done (2, [], s) else
     bindO (fill_array os p 16 (\<lambda>i. of_nat i :: 32 word) (Some ''aligned_valid.c'') 15 s) (\<lambda>s.
     let s = set_mem s (put_word q (0 :: 64 word)) in
     bindO (redzone_posix_memalign (os s) q 32 64 (Some ''aligned_valid.c'') 18 s) (\<lambda>(r, s).
     if r \<noteq> 0 then Done (3, [], s) else
     let v = word_at (mem s) q in
     if v AND 31 \<noteq> 0 then Done (4, [], s) else
     bindO (fill_array os v 64 (\<lambda>i. of_nat i :: 8 word) (Some ''aligned_valid.c'') 24 s) (\<lambda>s.
     bindO (fold_array os p 16 (\<lambda>sum v. sum + (scast (v :: 32 word) :: 64 word)) 0 (Some ''aligned_valid.c'') 28 s) (\<lambda>(sum, s).
     bindO (fold_array os v 64 (\<lambda>sum v. sum + (ucast (v :: 8 word) :: 64 word)) sum (Some ''aligned_valid.c'') 30 s) (\<lambda>(sum, s).
     bindO (redzone_free (os s) p s) (\<lambda>s.
     bindO (redzone_free (os s) v s) (\<lambda>s.
     Done (0, show_int (sint sum) @ newline, s)))))))))"

text \<open>\<open>fs2\<close> is the frame of \<^verbatim>\<open>sum_array\<close>.\<close>

definition sum_array :: "os \<Rightarrow> (u64 \<times> u64) list \<Rightarrow> u64 \<Rightarrow> nat \<Rightarrow> rt \<Rightarrow> (32 word \<times> rt) outcome" where
  "sum_array os fs2 a n s =
     bindO (enter_slots os fs2 s) (\<lambda>s.
     bindO (fold_array os a n (+) (0 :: 32 word) (Some ''sample.c'') 13 s) (\<lambda>(r, s).
     bindO (leave_slots os fs2 s) (\<lambda>s.
     Done (r, s))))"

definition sample_c :: "(u64 \<times> u64) list \<Rightarrow> os \<Rightarrow> rt \<Rightarrow> main_end" where
  "sample_c fs2 os s =
     bindO (redzone_malloc (os s) 16 (Some ''sample.c'') 18 s) (\<lambda>(buf, s).
     if buf = 0 then Done (1, [], s) else
     bindO (fill_array os buf 4 (\<lambda>i. of_nat (i * i) :: 32 word) (Some ''sample.c'') 23 s) (\<lambda>s.
     bindO (sum_array os fs2 buf 4 s) (\<lambda>(total, s).
     bindO (redzone_free (os s) buf s) (\<lambda>s.
     Done (0, ''total = '' @ show_int (sint total) @ newline, s)))))"

text \<open>The thread runs while \<^verbatim>\<open>main\<close> waits for it; \<open>rc\<close> is what \<^verbatim>\<open>pthread_create\<close> returned.\<close>

definition overflow_worker :: "os \<Rightarrow> (u64 \<times> u64) list \<Rightarrow> rt \<Rightarrow> rt outcome" where
  "overflow_worker os fs2 s =
     bindO (enter_slots os fs2 s) (\<lambda>s.
     bindO (redzone_malloc (os s) 16 (Some ''threaded_overflow.c'') 9 s) (\<lambda>(a, s).
     if a = 0 then leave_slots os fs2 s else
     bindO (fill_array os a 4 (\<lambda>i. of_nat i :: 32 word) (Some ''threaded_overflow.c'') 13 s) (\<lambda>s.
     bindO (store_at os (idx a 4 4) (99 :: 32 word) (Some ''threaded_overflow.c'') 14 s) (\<lambda>s.
     bindO (redzone_free (os s) a s) (\<lambda>s.
     leave_slots os fs2 s)))))"

definition threaded_overflow_c :: "int \<Rightarrow> (u64 \<times> u64) list \<Rightarrow> os \<Rightarrow> rt \<Rightarrow> main_end" where
  "threaded_overflow_c rc fs2 os s =
     (if rc \<noteq> 0 then Done (1, [], s) else
      bindO (overflow_worker os fs2 s) (\<lambda>s. Done (0, [], s)))"

section \<open>Their verdicts\<close>

context host
begin

lemma stack_overflow:
  assumes st: "stands R sh [] s" and p: "(p, 16) \<in> set fs" "slot_guarded sh p 16"
  shows "reports ''stack-buffer-overflow'' (stack_overflow_c (p + 16) os s)"
  unfolding stack_overflow_c_def
  apply (rule region_fill_step [where P = "reports _", OF st slot_array [OF p]], simp_all)
  apply (rule region_reported, assumption, rule slot_shut [OF p], simp_all)
  done

lemma frame_store:
  assumes "stands R sh bs s" and "(p, k) \<in> set fs" and "slot_guarded sh p k" and "Suc i * w \<le> unat k"
    and "LENGTH('a::len) \<in> {8, 16, 32, 64}" and w: "w = LENGTH('a) div 8"
  shows "stands R sh bs (set_mem s (put_word (idx (p + 16) w i) (v :: 'a word)))"
proof -
  have l: "0 < w" "LENGTH('a) \<le> 64" using assms(5) w by auto
  have "usable R sh bs (idx (p + 16) w i) w"
    using slot_array [OF assms(2,3) l(1) assms(4)] by (simp add: usable_array_def)
  then show ?thesis unfolding w by (rule usable_store(2) [OF assms(1) regions _ l(2)])
qed

lemma stack_inbounds_then_oob:
  assumes st: "stands R sh [] s" and p: "(p, 16) \<in> set fs" "slot_guarded sh p 16"
  shows "reports ''stack-buffer-overflow'' (stack_inbounds_then_oob_c (p + 16) os s)"
  unfolding stack_inbounds_then_oob_c_def Let_def
  apply (rule region_reported)
    apply (rule frame_store [OF _ p], rule frame_store [OF _ p], rule frame_store [OF _ p], rule frame_store [OF st p], simp_all)
  apply (rule slot_shut [OF p], simp_all)
  done

lemma bump_done:
  assumes st: "stands R sh bs s" and g: "(g, 16, ext) \<in> set gs" "global_guarded sh g 16"
  shows "\<exists>s'. bump os g f l s = Done s' \<and> stands R sh bs s'"
  unfolding bump_def
proof (rule for_up_inv [where I = "\<lambda>_. stands R sh bs"])
  fix i :: nat and s assume i: "i < 0 + 4" and s: "stands R sh bs s"
  have u: "usable R sh bs (idx g 4 i) (LENGTH(32) div 8)" using global_array [OF g, of 4 4] i by (simp add: usable_array_def)
  show "\<exists>s'. bindO (load_at os (idx g 4 i) f l s) (\<lambda>(v :: 32 word, s). Done (set_mem s (put_word (idx g 4 i) (v + 1)))) = Done s'
      \<and> stands R sh bs s'"
    using usable_load [OF s regions u, of os f l] usable_store(2) [OF s regions u] by simp
qed (rule st)

lemma global_overflow:
  assumes st: "stands R sh [] s" and g: "(g, 16, ext) \<in> set gs" "global_guarded sh g 16"
  shows "reports ''global-buffer-overflow'' (global_overflow_c g os s)"
    and "reports ''global-buffer-overflow'' (extern_global_overflow_c g os s)"
proof -
  have past: "shut_at ''global-buffer-overflow'' R sh (idx g 4 4) 4" by (rule global_shut [OF g]) simp_all
  have "reports ''global-buffer-overflow'' (bindO (bump os g f l s) (\<lambda>s. bindO (store_at os (idx g 4 4) (99 :: 32 word) f l' s) K))"
    for f l l' and K :: "rt \<Rightarrow> main_end"
  proof -
    obtain s' where s': "bump os g f l s = Done s'" "stands R sh [] s'" using bump_done [OF st g] by blast
    show ?thesis using region_reported(1) [OF s'(2) past, where 'a = 32] by (simp add: s'(1))
  qed
  then show "reports ''global-buffer-overflow'' (global_overflow_c g os s)"
    and "reports ''global-buffer-overflow'' (extern_global_overflow_c g os s)"
    unfolding global_overflow_c_def extern_global_overflow_c_def Let_def by blast+
qed

text \<open>The loop over \<open>data\<close>: \<open>total\<close> is the sum of the elements so far, and \<open>data\<close> stays as it is.\<close>

definition summed :: "block list \<Rightarrow> u64 \<Rightarrow> u64 \<Rightarrow> (u64 \<Rightarrow> i8) \<Rightarrow> (nat \<Rightarrow> 32 word) \<Rightarrow> nat \<Rightarrow> rt \<Rightarrow> bool" where
  "summed bs tot data sh g i s \<longleftrightarrow> stands R sh bs s \<and> holds (mem s) data 8 g \<and> word_at (mem s) tot = (\<Sum>j < i. scast (g j) :: 64 word)"

lemma two_globals:
  assumes G: "gs = [(tot, 8, True), (data, 32, True)]"
  shows "unat tot + 24 \<le> unat data \<or> unat data + 48 \<le> unat tot" and "unat tot + 24 \<le> 140737488355328" and "array_at data 4 8"
proof -
  have m: "(tot, 8, True) \<in> set gs" "(data, 32, True) \<in> set gs" using G by simp_all
  show ends: "unat tot + 24 \<le> 140737488355328" "array_at data 4 8"
    using global_end [OF m(1)] global_end [OF m(2)] by (simp_all add: array_at_def)
  show "unat tot + 24 \<le> unat data \<or> unat data + 48 \<le> unat tot"
    using layout G global_end [OF m(1)] global_end [OF m(2)] by (auto simp: layout_ok_def unat_plus64)
qed

lemma outside_data:
  assumes "gs = [(tot, 8, True), (data, 32, True)]" and "i < 8" and "in_span (idx data 4 i) 4 x"
  shows "\<not> in_span tot 8 x"
proof -
  note tg = two_globals [OF assms(1)]
  have "unat data \<le> unat x \<and> unat x < unat data + 32"
    using assms(3) array_span [OF tg(3) assms(2), of x] elem_end [OF assms(2), of 4] by simp
  then show ?thesis using tg(1,2) by (auto simp: in_span_nowrap)
qed

lemma add_up_done:
  assumes G: "gs = [(tot, 8, True), (data, 32, True)]" and g: "global_guarded sh tot 8" "global_guarded sh data 32"
    and s: "summed bs tot data sh h 0 s"
  shows "\<exists>s'. add_up os tot data s = Done s' \<and> summed bs tot data sh h 8 s'"
  unfolding add_up_def
proof (rule for_up_inv [where k = 0 and n = 8 and I = "summed bs tot data sh h", unfolded add_0])
  fix i s assume i: "i < (8 :: nat)" and I: "summed bs tot data sh h i s"
  have s: "stands R sh bs s" using I by (simp add: summed_def)
  have m: "(tot, 8, True) \<in> set gs" "(data, 32, True) \<in> set gs" using G by simp_all
  have tu: "usable R sh bs tot (LENGTH(64) div 8)" using global_array [OF m(1) g(1), of 8 1] by (simp add: usable_array_def)
  have du: "usable R sh bs (idx data 4 i) (LENGTH(32) div 8)"
    using global_array [OF m(2) g(2), of 4 8] i by (simp add: usable_array_def)
  let ?t = "set_mem s (put_word tot ((\<Sum>j < i. scast (h j)) + scast (h i) :: 64 word))"
  have keep: "word_at (mem ?t) (idx data 4 j) = (word_at (mem s) (idx data 4 j) :: 32 word)" if "j < 8" for j
    by (intro word_at_cong) (use outside_data [OF G that] in \<open>simp_all add: set_mem_def put_word_outside\<close>)
  have "summed bs tot data sh h (Suc i) ?t"
    unfolding summed_def
  proof (intro conjI)
    show "stands R sh bs ?t" by (rule usable_store(2) [OF s regions tu]) simp
    show "holds (mem ?t) data 8 h" using I keep by (simp add: holds_def summed_def)
  qed (simp add: set_mem_def)
  moreover have "word_at (mem s) (idx data 4 i) = h i" "word_at (mem s) tot = (\<Sum>j < i. scast (h j) :: 64 word)"
    using I i by (simp_all add: summed_def holds_def)
  ultimately show "\<exists>s'. bindO (load_at os (idx data 4 i) (Some ''extern_global_valid.c'') 13 s) (\<lambda>(v :: 32 word, s).
     bindO (load_at os tot (Some ''extern_global_valid.c'') 13 s) (\<lambda>(t :: 64 word, s).
     Done (set_mem s (put_word tot (t + scast v))))) = Done s' \<and> summed bs tot data sh h (Suc i) s'"
    using usable_load [OF s regions du] usable_load [OF s regions tu] by simp
qed (rule s)

lemma squares_sum: "(\<Sum>j < 8. scast (of_nat (j * j) :: 32 word) :: 64 word) = 140"
  by (simp add: lessThan_nat_numeral lessThan_Suc)

lemma extern_global_valid:
  assumes st: "stands R sh [] s" and G: "gs = [(tot, 8, True), (data, 32, True)]" and g: "global_guarded sh tot 8" "global_guarded sh data 32"
    and z: "word_at (mem s) tot = (0 :: 64 word)"
  shows "ends R 0 (''140'' @ newline) (list_all freed) (extern_global_valid_c tot data os s)"
proof -
  note tg = two_globals [OF G]
  have m: "(tot, 8, True) \<in> set gs" "(data, 32, True) \<in> set gs" using G by simp_all
  note du = global_array [OF m(2) g(2), of 4 8]
  have tu: "usable R sh bs tot 8" for bs using global_array [OF m(1) g(1), of 8 1] by (simp add: usable_array_def)
  show ?thesis
    unfolding extern_global_valid_c_def
  proof (rule region_fill_step [where P = "ends _ _ _ _", OF st du])
    fix m assume m: "stands R sh [] (s\<lparr>mem := m\<rparr>)" "holds m data 8 (\<lambda>i. of_nat (i * i) :: 32 word)" and
      o: "\<And>x. \<not> (unat data \<le> unat x \<and> unat x < unat data + 8 * 4) \<Longrightarrow> m x = mem s x"
    have "word_at m tot = (word_at (mem s) tot :: 64 word)"
      by (intro word_at_cong o) (use tg(1,2) in \<open>auto simp: in_span_nowrap\<close>)
    then have "summed [] tot data sh (\<lambda>i. of_nat (i * i)) 0 (s\<lparr>mem := m\<rparr>)" using m z by (simp add: summed_def)
    from add_up_done [OF G g this] obtain s' where s': "add_up os tot data (s\<lparr>mem := m\<rparr>) = Done s'"
      "summed [] tot data sh (\<lambda>i. of_nat (i * i)) 8 s'" by blast
    then have "stands R sh [] s'" "word_at (mem s') tot = (140 :: 64 word)" unfolding summed_def squares_sum by simp_all
    then show "ends R 0 (''140'' @ newline) (list_all freed) (bindO (add_up os tot data (s\<lparr>mem := m\<rparr>)) (\<lambda>s.
      bindO (load_at os tot (Some ''extern_global_valid.c'') 15 s) (\<lambda>(t :: 64 word, s).
      Done (0, show_int (sint t) @ newline, s))))"
      unfolding s'(1) by (auto intro!: region_load_step [where P = "ends _ _ _ _"] tu ends_Done2 simp: printed)
  qed simp_all
qed

lemma memset_overflow: "stands R sh [] s \<Longrightarrow> reports ''heap-buffer-overflow'' (memset_overflow_c os s)"
  unfolding memset_overflow_c_def
  apply (rule malloc_step [where P = "reports _"], assumption, simp_all)
  apply (rule bulk_over [where i = 0], assumption, simp_all)
  done

lemma memcpy_overflow:
  assumes st: "stands R sh [] s" and p: "(p, 16) \<in> set fs" "slot_guarded sh p 16"
  shows "reports ''heap-buffer-overflow'' (memcpy_overflow_c (p + 16) os s)"
  unfolding memcpy_overflow_c_def
  apply (rule malloc_step [where P = "reports _", OF st], simp_all)
  apply (rule memset_step [where P = "reports _"], assumption, rule slot_span [OF p], simp_all)
  apply (rule bulk_over [where i = 0], assumption, simp_all)
  done

lemma memcpy_valid:
  assumes st: "stands R sh [] s" and p: "(p, 16) \<in> set fs" "slot_guarded sh p 16"
  shows "ends R 0 [] (list_all freed) (memcpy_valid_c (p + 16) os s)"
  unfolding memcpy_valid_c_def
  apply (rule malloc_step [where P = "ends _ _ _ _", OF st], simp_all)
  apply (rule memset_step [where P = "ends _ _ _ _"], assumption, rule slot_span [OF p], simp_all)
  apply (rule memcpy_step [where P = "ends _ _ _ _"], assumption, rule usable_block [where i = 0 and k = 0], simp_all)
   apply (rule slot_span [OF p], simp_all)
  apply (rule memset_step [where P = "ends _ _ _ _"], assumption, rule usable_block [where i = 0 and k = 0], simp_all)
  apply (rule free_step [where i = 0 and P = "ends _ _ _ _"], assumption, simp_all)
  apply (rule ends_Done2, assumption, simp_all)
  done

text \<open>A callee's frame.\<close>

lemma enter_step:
  assumes "stands R sh bs s" and "frame_in R fs2"
    and "\<And>s' sh'. stands R sh' bs s' \<Longrightarrow> mem s' = mem s \<Longrightarrow> P (K s')"
  shows "P (bindO (enter_slots os fs2 s) K)"
proof -
  have "enter_slots os fs2 s = Done (entered fs2 s)" "stands R (shadow_val (entered fs2 s)) bs (entered fs2 s)"
    using enter_slots_stands [OF assms(1), of fs2 os] assms(2) by (simp_all add: frame_in_def)
  then show ?thesis using assms(3) by simp
qed

lemma leave_step:
  assumes "stands R sh bs s" and "frame_in R fs2"
    and "\<And>s' sh'. stands R sh' bs s' \<Longrightarrow> mem s' = mem s \<Longrightarrow> P (K s')"
  shows "P (bindO (leave_slots os fs2 s) K)"
proof -
  obtain s' sh' where "leave_slots os fs2 s = Done s'" "stands R sh' bs s'" "mem s' = mem s"
    using leave_slots_stands [OF assms(1), of fs2 os] assms(2) by (auto simp: frame_in_def)
  then show ?thesis using assms(3) by simp
qed

lemma sample:
  assumes "stands R sh [] s" and f: "frame_in R fs2"
  shows "ends R 0 (''total = 14'' @ newline) (list_all freed) (sample_c fs2 os s)"
  unfolding sample_c_def sum_array_def
  apply (rule malloc_step [where P = "ends _ _ _ _", OF assms(1)], simp_all)
  apply (rule fill_step [where j = 0 and P = "ends _ _ _ _"], assumption, simp_all add: bindO_assoc)
  apply (rule enter_step [where P = "ends _ _ _ _", OF _ f], assumption)
  apply (rule fold_step [where j = 0 and g = "\<lambda>i. of_nat i * of_nat i" and P = "ends _ _ _ _"], assumption, simp_all add: bindO_assoc)
  apply (rule leave_step [where P = "ends _ _ _ _", OF _ f], assumption, simp_all)
  apply (rule free_step [where i = 0 and P = "ends _ _ _ _"], assumption, simp_all)
  apply (rule ends_Done2, assumption, simp_all add: upt_numeral printed)
  done

lemma threaded_overflow:
  assumes "stands R sh [] s" and f: "frame_in R fs2"
  shows "reports ''heap-buffer-overflow'' (threaded_overflow_c 0 fs2 os s)"
  unfolding threaded_overflow_c_def overflow_worker_def
  apply (simp add: bindO_assoc)
  apply (rule enter_step [where P = "reports _", OF assms(1) f])
  apply (rule malloc_step [where P = "reports _"], assumption, simp_all add: bindO_assoc)
  apply (rule fill_step [where j = 0 and P = "reports _"], assumption, simp_all)
  apply (rule access_reported [where i = 0 and k = 16], assumption, simp_all add: idx_offset)
  done

text \<open>A variable of the frame against the blocks.\<close>

lemma user_not_slot:
  assumes st: "stands R sh bs s" and p: "(p, k) \<in> set fs" and i: "i < length bs" and x: "in_user (bs ! i) (unat x)" and n: "n \<le> unat k"
  shows "\<not> in_span (p + 16) n x"
proof -
  note ok = slot_in_frame [OF p]
  have b: "bs ! i \<in> set bs" "block_ok (bs ! i)" using i standsD(7) [OF st] by simp_all
  have u: "unat (p + 16) = unat p + 16" "unat (k + 32) = unat k + 32" "unat p + unat k + 32 \<le> 140737488355328"
    using slot_okD(3,4) [OF conjunct1 [OF ok]] ok by (simp_all add: slot_ok_def)
  have "in_block (bs ! i) (unat x)" by (rule in_user_in_block [OF b(2) x])
  with apart_blocks [OF standsD(5) [OF st b(1) conjunct2 [OF ok]], of "unat x"] u
  have "\<not> (unat p \<le> unat x \<and> unat x < unat p + unat k + 32)" by auto
  then show ?thesis using u n by (simp add: in_span_nowrap) linarith
qed

lemma memalign_step:
  assumes st: "stands R sh bs s" and q: "(p, 8) \<in> set fs" "slot_guarded sh p 8" and k: "4 \<le> k" "k \<le> 6" "al = 2 ^ k"
    and sz: "unat sz \<le> 8000" and n: "length bs < 1000000"
    and rest: "\<And>b s'. stands R sh (bs @ [b]) s' \<Longrightarrow> block_ok b \<Longrightarrow> user_size b = sz \<Longrightarrow> \<not> freed b \<Longrightarrow>
      unat (user_addr b) mod 2 ^ k = 0 \<Longrightarrow> word_at (mem s') (p + 16) = user_addr b \<Longrightarrow>
      (\<And>x. \<not> in_block b (unat x) \<Longrightarrow> \<not> in_span (p + 16) 8 x \<Longrightarrow> mem s' x = mem s x) \<Longrightarrow> P (K (0, s'))"
  shows "P (bindO (redzone_posix_memalign (os s) (p + 16) al sz f l s) K)"
proof -
  have k64: "k < 64" using k by simp
  have "(2 :: nat) ^ 4 \<le> 2 ^ k" using k(1) by (rule power_increasing) simp
  then have g: "\<not> (2 :: u64) ^ k < REDZONE_SIZE" by (simp add: REDZONE_SIZE_def word_less_nat_alt unat_pow2 [OF k64])
  obtain b s' where b: "rz_allocate (os s) sz (2 ^ k) f l s = Done (user_addr b, s')" "unat (user_addr b) mod 2 ^ k = 0"
    "grown R sh bs s sz f l b s'"
    using stands_allocate [OF st alloc room regions k(1,2) sz n, where f = f and l = l] by (elim exE conjE) (rule that)
  then have n: "stands R sh (bs @ [b]) s'" "block_ok b" "user_size b = sz" "\<not> freed b" by (simp_all add: grown_def new_in_def)
  have nz: "user_addr b \<noteq> 0" using block_okD(3) [OF n(2)] by auto
  have pz: "p + 16 \<noteq> 0" using slot_okD(3) [OF conjunct1 [OF slot_in_frame [OF q(1)]]] by auto
  have "k = 4 \<or> k = 5 \<or> k = 6" using k(1,2) by linarith
  then have m: "(2 :: u64) ^ k mod SIZEOF_VOIDP = 0" by (auto simp: SIZEOF_VOIDP_def)
  let ?t = "s'\<lparr>mem := store64 (mem s') (p + 16) (user_addr b)\<rparr>"
  have e: "redzone_posix_memalign (os s) (p + 16) al sz f l s = Done (0, ?t)"
    using b(1) nz g pz m is_pow2_pow [OF k64] by (simp add: redzone_posix_memalign_def k(3))
  have pw: "store64 m a v = put_word a v m" for m a v by (simp add: store64_def put_word_def)
  have "usable R sh (bs @ [b]) (p + 16) (LENGTH(64) div 8)" using slot_span [OF q, of 8] by simp
  from usable_store(2) [OF n(1) regions this] have "stands R sh (bs @ [b]) ?t" by (simp add: set_mem_def pw)
  from rest [OF this n(2-4) b(2)] b(3) show ?thesis unfolding e by (simp add: pw grown_def put_word_outside)
qed

lemma aligned_and31: "unat (a :: u64) mod 32 = 0 \<Longrightarrow> a AND 31 = 0"
  using unat_and_mask [of 5 a] by (simp add: word_unat_eq_iff)

lemma holds_beside:
  fixes g :: "nat \<Rightarrow> 'a::len word" and v :: u64
  assumes st: "stands R sh [b, b'] s" and p: "(p, k) \<in> set fs" "8 \<le> unat k" and h: "holds m (user_addr b) n g"
    and n: "n * (LENGTH('a) div 8) \<le> unat (user_size b)" "LENGTH('a) \<le> 64"
    and e: "\<And>x. \<not> in_user b' (unat x) \<Longrightarrow> m2 x = m1 x"
      "\<And>x. \<not> in_block b' (unat x) \<Longrightarrow> \<not> in_span (p + 16) 8 x \<Longrightarrow> m1 x = put_word (p + 16) v m x"
  shows "holds m2 (user_addr b) n g"
proof (rule holds_cong [OF _ n h])
  show ok: "block_ok b" using standsD(7) [OF st] by simp
  fix x :: u64 assume x: "in_user b (unat x)"
  have "\<not> in_block b' (unat x)" using user_elsewhere [OF st, of 0 1 x] x by simp
  moreover have "\<not> in_span (p + 16) 8 x" using user_not_slot [OF st p(1), of 0 x 8] x p(2) by simp
  moreover have "\<not> in_user b' (unat x)" using calculation(1) not_in_user standsD(7) [OF st] by simp
  ultimately show "m2 x = m x" using e by (simp add: put_word_outside)
qed

lemma aligned_valid_sum:
  "foldl (\<lambda>sum v. sum + (ucast (v :: 8 word) :: 64 word)) (foldl (\<lambda>sum v. sum + scast (v :: 32 word)) 0 (map word_of_nat [0..<16]))
    (map word_of_nat [0..<64]) = 2136"
  by code_simp

lemma aligned_valid:
  assumes st: "stands R sh [] s" and q: "(p, 8) \<in> set fs" "slot_guarded sh p 8"
  shows "ends R 0 (''2136'' @ newline) (list_all freed) (aligned_valid_c (p + 16) os s)"
  unfolding aligned_valid_c_def Let_def
  apply (rule aligned_step [where k = 6 and P = "ends _ _ _ _", OF st], simp_all add: aligned_and)
  apply (rule fill_step [where j = 0 and P = "ends _ _ _ _"], assumption, simp_all)
  apply (rule memalign_step [where k = 5 and P = "ends _ _ _ _", OF _ q])
  apply (rule frame_store [where i = 0 and w = 8, unfolded idx_0, OF _ q], assumption, simp_all add: aligned_and31)
  apply (rule fill_step [where j = 1 and P = "ends _ _ _ _"], assumption, simp_all)
  apply (rule fold_step [where j = 0 and g = of_nat and P = "ends _ _ _ _"], assumption, simp_all del: upt_rec_numeral)
   apply (rule holds_beside [OF _ q(1)], assumption, simp, assumption, simp, simp, assumption, simp add: set_mem_def)
  apply (rule fold_step [where j = 1 and g = of_nat and P = "ends _ _ _ _"], assumption, simp_all del: upt_rec_numeral)
  apply (rule free_step [where i = 0 and P = "ends _ _ _ _"], assumption, simp_all del: upt_rec_numeral)
  apply (rule free_step [where i = 1 and P = "ends _ _ _ _"], assumption, simp_all del: upt_rec_numeral)
  apply (rule ends_Done2, assumption, simp_all del: upt_rec_numeral add: aligned_valid_sum printed)
  done

end

end
