(* ===== verification/Mem_Strings.thy ===== *)
theory Mem_Strings
  imports Mem_Regions
begin

text \<open>
  Strings in memory and the string functions on them: what a call leaves in memory when its source is a string
  literal, and the rules for programs that work on literals and heap buffers.
\<close>

section \<open>Strings in memory\<close>

definition chars :: "string \<Rightarrow> 8 word list" where
  "chars t = map of_char t"

definition string_at :: "memory \<Rightarrow> u64 \<Rightarrow> string \<Rightarrow> bool" where
  "string_at m p t \<longleftrightarrow> (\<forall>i < length t. m (p + of_nat i) = chars t ! i) \<and> m (p + of_nat (length t)) = 0 \<and> 0 \<notin> set (chars t)"

definition put_text :: "u64 \<Rightarrow> string \<Rightarrow> memory \<Rightarrow> memory" where
  "put_text d t = mem_write d (chars t @ [0])"

lemma length_chars [simp]: "length (chars t) = length t"
  by (simp add: chars_def)

lemma chars_append: "chars (t @ u) = chars t @ chars u"
  by (simp add: chars_def)

lemma chars_nonzero: "0 \<notin> set (chars t) \<Longrightarrow> i < length t \<Longrightarrow> chars t ! i \<noteq> 0"
  by (metis length_chars nth_mem)

lemma string_at_Cons: "string_at m p (c # t) \<longleftrightarrow> m p = of_char c \<and> (of_char c :: 8 word) \<noteq> 0 \<and> string_at m (p + 1) t"
proof -
  have "(\<forall>i < length (c # t). m (p + of_nat i) = chars (c # t) ! i) \<longleftrightarrow>
      m p = of_char c \<and> (\<forall>i < length t. m (p + 1 + of_nat i) = chars t ! i)"
    by (auto simp: chars_def less_Suc_eq_0_disj add.assoc)
  then show ?thesis by (auto simp: string_at_def chars_def add.assoc)
qed

lemma strlen_string: "string_at m p t \<Longrightarrow> c_strlen m p = Some (length t)"
proof (induction t arbitrary: p)
  case Nil
  then show ?case by (subst c_strlen.simps) (simp add: string_at_def)
next
  case (Cons c t)
  then show ?case by (subst c_strlen.simps) (simp add: string_at_Cons)
qed

lemma strnlen_string: "string_at m p t \<Longrightarrow> c_strnlen m p n = min n (length t)"
proof (induction t arbitrary: p n)
  case Nil
  then show ?case by (cases n) (simp_all add: string_at_def)
next
  case (Cons c t)
  then show ?case by (cases n) (simp_all add: string_at_Cons)
qed

lemma string_byte:
  assumes "string_at m p t" and "k \<le> length t"
  shows "m (p + of_nat k) = (chars t @ [0]) ! k"
  using assms by (cases "k = length t") (auto simp: string_at_def nth_append)

lemma put_text_at: "put_text d t m x = (if in_span d (Suc (length t)) x then (chars t @ [0]) ! unat (x - d) else m x)"
  by (simp add: put_text_def mem_write_def)

lemma put_text_outside: "\<not> in_span d (Suc (length t)) x \<Longrightarrow> put_text d t m x = m x"
  by (simp add: put_text_at)

text \<open>Every copy of a whole literal is one write of its characters and a NUL.\<close>

lemma copied:
  assumes s: "string_at m p t" and k: "in_span d k x" "k \<le> Suc (length t)"
  shows "m (p + (x - d)) = (chars t @ [0]) ! unat (x - d)"
  using string_byte [OF s, of "unat (x - d)"] k by (simp add: in_span_def)

lemma at_offset: "k < 18446744073709551616 \<Longrightarrow> unat (x - d) = k \<longleftrightarrow> x = d + of_nat k" for x d :: u64
proof
  assume k: "unat (x - d) = k"
  have "x - d = of_nat (unat (x - d))" by simp
  then have "x - d = of_nat k" unfolding k .
  then show "x = d + of_nat k" by (simp add: algebra_simps)
qed (simp add: unat_nat64)

lemma strcpy_text:
  assumes s: "string_at m p t" and l: "length t < 140737488355328"
  shows "c_strcpy d p (of_nat (length t)) m = put_text d t m"
proof -
  have u: "unat (of_nat (Suc (length t)) :: u64) = Suc (length t)" by (rule unat_nat64) (use l in simp)
  then have "unat (of_nat (length t) + 1 :: u64) = Suc (length t)" by (simp add: add.commute)
  then show ?thesis using copied [OF s] by (auto simp: fun_eq_iff c_strcpy_def mem_move_def put_text_at)
qed

lemma strncat_text:
  assumes s: "string_at m p t" and l: "length t < 140737488355328"
  shows "c_strncat d p (of_nat (length t)) m = put_text d t m"
proof
  fix x
  let ?n = "length t"
  have n: "unat (of_nat ?n :: u64) = ?n" using l by (simp add: unat_nat64)
  have e: "in_span (d + of_nat ?n) 1 x \<longleftrightarrow> unat (x - d) = ?n"
    using at_offset [of ?n x d] l by (auto simp: in_span_def unat_eq_0 eq_diff_eq algebra_simps)
  show "c_strncat d p (of_nat ?n) m x = put_text d t m x"
  proof (cases "in_span d ?n x")
    case True
    then have "unat (x - d) < ?n" by (simp add: in_span_def)
    then show ?thesis using copied [OF s True] e True
      by (simp add: c_strncat_def mem_set_def mem_move_def n put_text_at in_span_def)
  next
    case False
    then have "in_span d (Suc ?n) x \<longleftrightarrow> unat (x - d) = ?n" by (auto simp: in_span_def)
    then show ?thesis using e False by (simp add: c_strncat_def mem_set_def mem_move_def n put_text_at nth_append)
  qed
qed

lemma strncpy_text:
  assumes s: "string_at m p t" and l: "length t < 140737488355328"
  shows "c_strncpy d p (of_nat (length t)) (of_nat (length t) + 1) m = put_text d t m"
  using strncat_text [OF assms, of d] by (simp add: c_strncpy_def c_strncat_def)

lemma strlcpy_text:
  assumes s: "string_at m p t" and l: "length t < 140737488355328" and n: "length t < unat n"
  shows "c_strlcpy d p (of_nat (length t)) n m = put_text d t m"
proof -
  have "of_nat (length t) < n" "n \<noteq> 0" using n l by (auto simp: word_less_nat_alt unat_nat64)
  then show ?thesis using strncat_text [OF s l, of d] by (simp add: c_strlcpy_def)
qed

lemma string_put:
  assumes t: "0 \<notin> set (chars t)" and l: "length t < 140737488355328"
  shows "string_at (put_text d t m) d t"
proof -
  have u: "unat (of_nat i :: u64) = i" if "i \<le> length t" for i using that l by (simp add: unat_nat64)
  then show ?thesis using t by (auto simp: string_at_def put_text_at in_span_def nth_append)
qed

lemma string_append:
  assumes s: "string_at m d t" and u: "0 \<notin> set (chars u)" and l: "length t + length u < 140737488355328"
  shows "string_at (put_text (d + of_nat (length t)) u m) d (t @ u)"
proof -
  let ?e = "d + of_nat (length t)" let ?m = "put_text ?e u m"
  have su: "string_at ?m ?e u" by (rule string_put [OF u]) (use l in simp)
  have "?m (d + of_nat i) = chars t ! i" if i: "i < length t" for i
  proof -
    have "\<not> in_span ?e (Suc (length u)) (d + of_nat i)"
    proof
      let ?j = "unat (d + of_nat i - ?e)"
      assume "in_span ?e (Suc (length u)) (d + of_nat i)"
      then have j: "?j \<le> length u" by (simp add: in_span_def)
      then have "d + of_nat i = ?e + of_nat ?j" using at_offset [of ?j "d + of_nat i" ?e] l by simp
      then have "(of_nat i :: u64) = of_nat (length t + ?j)" by simp
      then have "unat (of_nat i :: u64) = unat (of_nat (length t + ?j) :: u64)" by (rule arg_cong)
      then have "i = length t + ?j" using i j l by (simp only: unat_nat64)
      then show False using i by simp
    qed
    then show ?thesis using s i by (simp add: put_text_outside string_at_def)
  qed
  moreover have "?m (d + of_nat i) = chars u ! (i - length t)" if "length t \<le> i" "i < length t + length u" for i
    using su that by (auto simp: string_at_def le_iff_add algebra_simps)
  ultimately have "?m (d + of_nat i) = chars (t @ u) ! i" if "i < length (t @ u)" for i
    using that by (cases "i < length t") (simp_all add: chars_append nth_append)
  moreover have "?m (d + of_nat (length (t @ u))) = 0" using su by (simp add: string_at_def algebra_simps)
  ultimately show ?thesis using s u by (simp add: string_at_def chars_append)
qed

lemma string_kept:
  assumes s: "string_at m p t" and e: "\<And>x. in_span p (Suc (length t)) x \<Longrightarrow> m' x = m x" and l: "length t < 140737488355328"
  shows "string_at m' p t"
proof -
  have "in_span p (Suc (length t)) (p + of_nat i)" if "i \<le> length t" for i
    using that l unat_nat64 [of i] by (simp add: in_span_def)
  then show ?thesis using s e by (simp add: string_at_def)
qed

section \<open>A host with string literals\<close>

text \<open>
  The literals are in a read-only region, which the pass leaves without red zones; \<open>lits\<close> says where each one is.
  \<open>prints fc t\<close> is what the C library promises of a format whose arguments are literals: it expands to \<open>t\<close>.
\<close>

definition texts :: "(u64 \<times> string) list \<Rightarrow> memory \<Rightarrow> bool" where
  "texts lits m \<longleftrightarrow> (\<forall>(p, t) \<in> set lits. string_at m p t)"

definition prints :: "(u64 \<times> string) list \<Rightarrow> fmt_call \<Rightarrow> string \<Rightarrow> bool" where
  "prints lits fc t \<longleftrightarrow> (\<forall>m. texts lits m \<longrightarrow> expansion fc m = Some (chars t))"

definition has_text ::
  "(u64 \<times> u64) list \<Rightarrow> u64 \<times> u64 \<Rightarrow> (u64 \<times> string) list \<Rightarrow> (u64 \<Rightarrow> i8) \<Rightarrow> block list \<Rightarrow> rt \<Rightarrow> bool" where
  "has_text R r lits sh bs s \<longleftrightarrow> stands R sh bs s \<and> texts lits (mem s)
     \<and> (\<forall>x. unat (fst r) \<le> unat x \<longrightarrow> unat x < unat (fst r) + unat (snd r) \<longrightarrow> sh x = 0)"

definition literals_ok ::
  "(u64 \<times> u64) list \<Rightarrow> global list \<Rightarrow> (u64 \<times> u64) list \<Rightarrow> u64 \<times> u64 \<Rightarrow> (u64 \<times> string) list \<Rightarrow> bool" where
  "literals_ok R gs fs r lits \<longleftrightarrow> r \<in> set R
     \<and> (\<forall>(p, k) \<in> set fs. unat (fst r) + unat (snd r) \<le> unat p \<or> unat p + unat k + 32 \<le> unat (fst r))
     \<and> (\<forall>g \<in> set gs. case global_region g of (q, m) \<Rightarrow>
          unat (fst r) + unat (snd r) \<le> unat q \<or> unat q + unat m \<le> unat (fst r))
     \<and> (\<forall>(p, t) \<in> set lits. unat (fst r) \<le> unat p \<and> unat p + length t + 1 \<le> unat (fst r) + unat (snd r))"

locale host_text = host os R gs fs env le
  for os :: os and R :: "(u64 \<times> u64) list" and gs :: "global list" and fs :: "(u64 \<times> u64) list"
    and env :: report_env and le :: leak_env +
  fixes ro :: u64 and rn :: u64 and lits :: "(u64 \<times> string) list"
  assumes literals: "literals_ok R gs fs (ro, rn) lits"
begin

lemma ro_region: "(ro, rn) \<in> set R"
  and ro_frame: "(p, k) \<in> set fs \<Longrightarrow> unat ro + unat rn \<le> unat p \<or> unat p + unat k + 32 \<le> unat ro"
  and ro_globals: "g \<in> set gs \<Longrightarrow> global_region g = (q, m) \<Longrightarrow> unat ro + unat rn \<le> unat q \<or> unat q + unat m \<le> unat ro"
  and lits_in: "(p, t) \<in> set lits \<Longrightarrow> unat ro \<le> unat p \<and> unat p + length t + 1 \<le> unat ro + unat rn"
  using literals unfolding literals_ok_def by (simp_all, fastforce+)

lemma ro_end: "unat ro + unat rn \<le> 140737488355328" and ro_aligned: "unat ro mod 8 = 0"
  using regions ro_region by (auto simp: regions_ok_def)

lemma lit_short: "(p, t) \<in> set lits \<Longrightarrow> length t < 140737488355328"
  using lits_in [of p t] ro_end by simp

text \<open>At the top of \<^verbatim>\<open>main\<close>.\<close>

lemma has_text_start:
  assumes "stands R sh [] s" and s: "s = entered fs (with_globals gs (loaded m))" and sh: "sh = shadow_val s" and "texts lits m"
  shows "has_text R (ro, rn) lits sh [] s"
proof -
  have "shadow_val s x = 0" if x: "unat ro \<le> unat x" "unat x < unat ro + unat rn" for x
  proof -
    have "shadow_val s x = shadow_val (with_globals gs (loaded m)) x"
      unfolding s by (rule entered_kept [OF _ ro_aligned _ x]) (use ro_frame slot_in_frame in auto)
    also have "\<dots> = shadow_val (loaded m) x"
      by (rule with_globals_kept [OF _ _ ro_aligned _ x]) (use ro_globals layout in \<open>auto simp: layout_ok_def split: prod.splits\<close>)
    finally show ?thesis by simp
  qed
  then show ?thesis using assms by (simp add: has_text_def)
qed

lemma ro_usable:
  assumes T: "has_text R (ro, rn) lits sh bs s" and in_ro: "unat ro \<le> unat p" "unat p + n \<le> unat ro + unat rn" and n: "0 < n"
  shows "usable R sh bs p n"
proof -
  note e = region_end [OF regions ro_region n in_ro(2)]
  have z: "sh x = 0" if "unat ro \<le> unat x" "unat x < unat ro + unat rn" for x using T that by (simp add: has_text_def)
  have "sh p = 0" by (rule z) (use in_ro n in simp_all)
  moreover have "sh (p + of_nat n - 1) = 0" by (rule z) (use in_ro n e in simp_all)
  moreover have "\<exists>(q, m) \<in> set R. unat q \<le> unat p \<and> unat p + n \<le> unat q + unat m"
    by (rule bexI [OF _ ro_region]) (use in_ro in simp)
  ultimately show ?thesis using n by (simp add: usable_def open_at_def)
qed

lemma lit_usable:
  assumes "has_text R (ro, rn) lits sh bs s" and "(p, t) \<in> set lits" and "0 < n" and "n \<le> length t + 1"
  shows "usable R sh bs p n"
  using ro_usable [OF assms(1) _ _ assms(3), of p] lits_in [OF assms(2)] assms(4) by simp

lemma lit_string: "has_text R (ro, rn) lits sh bs s \<Longrightarrow> (p, t) \<in> set lits \<Longrightarrow> string_at (mem s) p t"
  by (auto simp: has_text_def texts_def)

text \<open>The literals stay as they are when memory changes inside a block only.\<close>

lemma texts_kept:
  assumes st: "stands R sh bs s" and b: "b \<in> set bs" and t: "texts lits m" and e: "\<And>x. \<not> in_block b (unat x) \<Longrightarrow> m' x = m x"
  shows "texts lits m'"
  unfolding texts_def
proof (clarify)
  fix p t assume p: "(p, t) \<in> set lits"
  show "string_at m' p t"
  proof (rule string_kept)
    show "string_at m p t" using p \<open>texts lits m\<close> by (auto simp: texts_def)
    fix x assume x: "in_span p (Suc (length t)) x"
    have "unat p \<le> unat x \<and> unat x < unat p + Suc (length t)"
      using x lits_in [OF p] ro_end by (subst (asm) in_span_nowrap) simp_all
    then have "\<not> in_block b (unat x)"
      using apart_blocks [OF standsD(5) [OF st b ro_region], of "unat x"] lits_in [OF p] by simp
    then show "m' x = m x" by (rule e)
  qed (rule lit_short [OF p])
qed

lemma text_malloc_step:
  assumes T: "has_text R (ro, rn) lits sh bs s" and "unat sz \<le> 8000" and "length bs < 1000000"
    and rest: "\<And>b s'. has_text R (ro, rn) lits sh (bs @ [b]) s' \<Longrightarrow> block_ok b \<Longrightarrow> user_size b = sz \<Longrightarrow> \<not> freed b \<Longrightarrow> user_addr b \<noteq> 0 \<Longrightarrow>
      P (K (user_addr b, s'))"
  shows "P (bindS (Some (redzone_malloc (os s) sz f l s)) K)"
proof -
  have st: "stands R sh bs s" using T by (simp add: has_text_def)
  obtain b s' where b: "redzone_malloc (os s) sz f l s = Done (user_addr b, s')" "grown R sh bs s sz f l b s'"
    using stands_malloc [OF st alloc room regions assms(2,3)] by blast
  then have g: "stands R sh (bs @ [b]) s'" "block_ok b" "user_size b = sz" "\<not> freed b"
    and o: "\<And>x. \<not> in_block b (unat x) \<Longrightarrow> mem s' x = mem s x" by (simp_all add: grown_def new_in_def)
  have "texts lits (mem s')" by (rule texts_kept [OF g(1) _ _ o]) (use T in \<open>simp_all add: has_text_def\<close>)
  then have "has_text R (ro, rn) lits sh (bs @ [b]) s'" using T g(1) by (simp add: has_text_def)
  moreover have "user_addr b \<noteq> 0" using block_okD(3) [OF g(2)] by auto
  ultimately show ?thesis using rest g by (simp add: b(1))
qed

text \<open>A write inside a block.\<close>

lemma text_write:
  assumes T: "has_text R (ro, rn) lits sh bs s" and i: "i < length bs" "\<not> freed (bs ! i)"
    and a: "unat a = unat (user_addr (bs ! i)) + k" and n: "k + n \<le> unat (user_size (bs ! i))"
    and m: "\<And>x. \<not> in_span a n x \<Longrightarrow> m x = mem s x"
  shows "has_text R (ro, rn) lits sh bs (s\<lparr>mem := m\<rparr>)"
proof -
  have st: "stands R sh bs s" using T by (simp add: has_text_def)
  have b: "bs ! i \<in> set bs" "block_ok (bs ! i)" using i standsD(7) [OF st] by simp_all
  have "stands R sh bs (s\<lparr>mem := m\<rparr>)" by (rule stands_user_write [OF st i(1) a n m])
  moreover have "texts lits m"
    by (rule texts_kept [OF st b(1), where m = "mem s"], use T in \<open>simp add: has_text_def\<close>, rule m)
      (use span_user [OF b(2) a n] in_user_in_block [OF b(2)] in blast)
  ultimately show ?thesis using T by (simp add: has_text_def)
qed

section \<open>The string functions\<close>

lemma check_at: "stands R sh bs s \<Longrightarrow> usable R sh bs a k \<Longrightarrow> n = of_nat k \<Longrightarrow> redzone_check sys a n w f l s = Done s"
  using usable_check(2) [OF _ regions] by simp

lemma check_past:
  assumes st: "stands R sh bs s" and i: "i < length bs" "\<not> freed (bs ! i)" and a: "a = user_addr (bs ! i)" and n: "n = of_nat k"
    and k: "unat (user_size (bs ! i)) < k" "k \<le> unat (user_size (bs ! i)) + 16"
  shows "reports ''heap-buffer-overflow'' (redzone_check sys a n w f l s)"
  using check_bad(2) [OF st i(1), of a 0 k sys w f l] k i(2) a n by (simp add: bad_kind_def)

lemma check_lit:
  assumes T: "has_text R (ro, rn) lits sh bs s" and p: "(p, t) \<in> set lits" and k: "k \<le> length t + 1" and n: "n = of_nat k"
  shows "redzone_check sys p n w f l s = Done s"
proof (cases "k = 0")
  case True
  then show ?thesis using n by (simp add: redzone_check_def)
next
  case False
  then show ?thesis using check_at [OF _ lit_usable [OF T p _ k] n] T by (simp add: has_text_def)
qed

text \<open>The buffer at the start of block \<open>i\<close>, and what a string function leaves there.\<close>

definition buffer :: "(u64 \<Rightarrow> i8) \<Rightarrow> block list \<Rightarrow> rt \<Rightarrow> nat \<Rightarrow> u64 \<Rightarrow> bool" where
  "buffer sh bs s i d \<longleftrightarrow> has_text R (ro, rn) lits sh bs s \<and> i < length bs \<and> \<not> freed (bs ! i) \<and> d = user_addr (bs ! i)"

lemma bufferD:
  assumes "buffer sh bs s i d"
  shows "has_text R (ro, rn) lits sh bs s" "i < length bs" "\<not> freed (bs ! i)" "d = user_addr (bs ! i)" "stands R sh bs s"
  using assms by (simp_all add: buffer_def has_text_def)

lemma buffer_check:
  assumes B: "buffer sh bs s i d" and a: "a = d + of_nat j" and k: "j + k \<le> unat (user_size (bs ! i))" and n: "n = of_nat k"
  shows "redzone_check sys a n w f l s = Done s"
proof (cases "k = 0")
  case True
  then show ?thesis using n by (simp add: redzone_check_def)
next
  case False
  note b = bufferD [OF B]
  have "block_ok (bs ! i)" using standsD(7) [OF b(5)] b(2) by simp
  then have "unat (idx (user_addr (bs ! i)) 1 j) = unat (user_addr (bs ! i)) + 1 * j"
    using array_elem [OF block_array [of _ "j + 1" 1], of "bs ! i" j] k False by simp
  then have "unat a = unat (user_addr (bs ! i)) + j" by (simp add: a b(4) idx_def)
  then show ?thesis by (intro check_at [OF b(5) usable_block [OF b(2,3) _ k] n]) (use False in simp_all)
qed

lemma buffer_put:
  assumes B: "buffer sh bs s i d" and a: "a = d + of_nat j" and k: "j + length t + 1 \<le> unat (user_size (bs ! i))"
  shows "buffer sh bs (set_mem s (put_text a t)) i d"
proof -
  note b = bufferD [OF B]
  have "block_ok (bs ! i)" using standsD(7) [OF b(5)] b(2) by simp
  then have "unat (idx (user_addr (bs ! i)) 1 j) = unat (user_addr (bs ! i)) + 1 * j"
    using array_elem [OF block_array [of _ "j + 1" 1], of "bs ! i" j] k by simp
  then have "unat a = unat (user_addr (bs ! i)) + j" by (simp add: a b(4) idx_def)
  then have "has_text R (ro, rn) lits sh bs (set_mem s (put_text a t))"
    unfolding set_mem_def
    by (rule text_write [OF b(1-3), where a = a and k = j and n = "Suc (length t)"], simp, use k in simp) (erule put_text_outside)
  then show ?thesis using b by (simp add: buffer_def)
qed

lemma strcpy_step:
  assumes B: "buffer sh bs s i d" and p: "(p, t) \<in> set lits" and n: "length t + 1 \<le> unat (user_size (bs ! i))"
    and rest: "\<And>s'. buffer sh bs s' i d \<Longrightarrow> string_at (mem s') d t \<Longrightarrow> P (K (d, s'))"
  shows "P (bindS (redzone_strcpy (os s) d p f l s) K)"
proof -
  note b = bufferD [OF B] and S = lit_string [OF bufferD(1) [OF B] p]
  have e: "redzone_strcpy (os s) d p f l s = Some (Done (d, set_mem s (put_text d t)))"
    using strlen_string [OF S] check_lit [OF b(1) p, of "length t + 1"] buffer_check [OF B, of d 0 "length t + 1"] n
      strcpy_text [OF S lit_short [OF p]]
    by (simp add: redzone_strcpy_def strlen_of_def Let_def set_mem_def add.commute)
  have "string_at (put_text d t (mem s)) d t" by (rule string_put) (use S lit_short [OF p] in \<open>simp_all add: string_at_def\<close>)
  moreover have "buffer sh bs (set_mem s (put_text d t)) i d" by (rule buffer_put [OF B, of d 0]) (use n in simp_all)
  ultimately show ?thesis using rest by (simp add: e set_mem_def)
qed

lemma string_literal: "has_text R (ro, rn) lits sh bs s \<Longrightarrow> (p, t) \<in> set lits \<Longrightarrow> 0 \<notin> set (chars t)"
  using lit_string by (simp add: string_at_def)

lemma strcat_step:
  assumes B: "buffer sh bs s i d" and p: "(p, t) \<in> set lits" and u: "string_at (mem s) d u"
    and n: "length u + length t + 1 \<le> unat (user_size (bs ! i))"
    and rest: "\<And>s'. buffer sh bs s' i d \<Longrightarrow> string_at (mem s') d (u @ t) \<Longrightarrow> P (K (d, s'))"
  shows "P (bindS (redzone_strcat (os s) d p f l s) K)"
proof -
  note b = bufferD [OF B] and S = lit_string [OF bufferD(1) [OF B] p]
  let ?d = "d + of_nat (length u)"
  have e: "redzone_strcat (os s) d p f l s = Some (Done (d, set_mem s (put_text ?d t)))"
    using strlen_string [OF S] strlen_string [OF u] check_lit [OF b(1) p, of "length t + 1"]
      buffer_check [OF B, of d 0 "length u + length t + 1"] n strcpy_text [OF S lit_short [OF p]]
    by (simp add: redzone_strcat_def strlen_of_def Let_def set_mem_def add_ac)
  have "block_ok (bs ! i)" using standsD(7) [OF b(5)] b(2) by simp
  then have "length u + length t < 140737488355328" using n block_okD(5,6) [of "bs ! i"] by linarith
  then have "string_at (put_text ?d t (mem s)) d (u @ t)" by (rule string_append [OF u string_literal [OF b(1) p]])
  moreover have "buffer sh bs (set_mem s (put_text ?d t)) i d" by (rule buffer_put [OF B refl n])
  ultimately show ?thesis using rest by (simp add: e set_mem_def)
qed

lemma strncpy_step:
  assumes B: "buffer sh bs s i d" and p: "(p, t) \<in> set lits" and n: "n = of_nat (length t + 1)" "length t + 1 \<le> unat (user_size (bs ! i))"
    and rest: "\<And>s'. buffer sh bs s' i d \<Longrightarrow> string_at (mem s') d t \<Longrightarrow> P (K (d, s'))"
  shows "P (bindS (Some (redzone_strncpy (os s) d p n f l s)) K)"
proof -
  note b = bufferD [OF B] and S = lit_string [OF bufferD(1) [OF B] p]
  have u: "unat n = length t + 1" "of_nat (length t) < n"
    using lit_short [OF p] unat_nat64 [of "length t + 1"] unat_nat64 [of "length t"] n(1) by (simp_all add: word_less_nat_alt)
  have sl: "strnlen_of s p n = of_nat (length t)" unfolding strnlen_of_def u(1) strnlen_string [OF S] by simp
  have e: "redzone_strncpy (os s) d p n f l s = Done (d, set_mem s (put_text d t))"
    using sl u(2) check_lit [OF b(1) p, of "length t + 1" "of_nat (length t) + 1"] buffer_check [OF B, of d 0 "length t + 1" n] n
      strncpy_text [OF S lit_short [OF p]]
    by (simp add: redzone_strncpy_def Let_def set_mem_def add.commute)
  have "string_at (put_text d t (mem s)) d t" by (rule string_put [OF string_literal [OF b(1) p] lit_short [OF p]])
  moreover have "buffer sh bs (set_mem s (put_text d t)) i d" by (rule buffer_put [OF B, of d 0]) (use n in simp_all)
  ultimately show ?thesis using rest by (simp add: e set_mem_def)
qed

lemma strncat_step:
  assumes B: "buffer sh bs s i d" and p: "(p, t) \<in> set lits" and u: "string_at (mem s) d u"
    and n: "n = of_nat (length t)" "length u + length t + 1 \<le> unat (user_size (bs ! i))"
    and rest: "\<And>s'. buffer sh bs s' i d \<Longrightarrow> string_at (mem s') d (u @ t) \<Longrightarrow> P (K (d, s'))"
  shows "P (bindS (redzone_strncat (os s) d p n f l s) K)"
proof -
  note b = bufferD [OF B] and S = lit_string [OF bufferD(1) [OF B] p]
  let ?d = "d + of_nat (length u)"
  have un: "unat n = length t" using lit_short [OF p] n(1) by (simp add: unat_nat64)
  have e: "redzone_strncat (os s) d p n f l s = Some (Done (d, set_mem s (put_text ?d t)))"
    using strnlen_string [OF S] un strlen_string [OF u] check_lit [OF b(1) p, of "length t"]
      buffer_check [OF B, of d 0 "length u + length t + 1"] n(2) strncat_text [OF S lit_short [OF p]]
    by (simp add: redzone_strncat_def strlen_of_def strnlen_of_def Let_def set_mem_def add_ac)
  have "block_ok (bs ! i)" using standsD(7) [OF b(5)] b(2) by simp
  then have "length u + length t < 140737488355328" using n(2) block_okD(5,6) [of "bs ! i"] by linarith
  then have "string_at (put_text ?d t (mem s)) d (u @ t)" by (rule string_append [OF u string_literal [OF b(1) p]])
  moreover have "buffer sh bs (set_mem s (put_text ?d t)) i d" by (rule buffer_put [OF B refl n(2)])
  ultimately show ?thesis using rest by (simp add: e set_mem_def)
qed

lemma wrote_min:
  assumes "k < unat (n :: u64)"
  shows "n \<noteq> 0" and "of_nat k + 1 \<le> n"
proof -
  have "Suc k < 18446744073709551616" using assms unat_bound64 [of n] by linarith
  then have "unat (of_nat (Suc k) :: u64) = Suc k" by (rule unat_nat64)
  then have "unat (of_nat k + 1 :: u64) = Suc k" by (simp add: add.commute)
  then show "of_nat k + 1 \<le> n" "n \<noteq> 0" using assms by (auto simp: word_le_nat_alt)
qed

lemma strlcpy_step:
  assumes B: "buffer sh bs s i d" and p: "(p, t) \<in> set lits" and n: "length t < unat n" "length t + 1 \<le> unat (user_size (bs ! i))"
    and rest: "\<And>s'. buffer sh bs s' i d \<Longrightarrow> string_at (mem s') d t \<Longrightarrow> P (K (of_nat (length t), s'))"
  shows "P (bindS (redzone_strlcpy (os s) d p n f l s) K)"
proof -
  note b = bufferD [OF B] and S = lit_string [OF bufferD(1) [OF B] p]
  have e: "redzone_strlcpy (os s) d p n f l s = Some (Done (of_nat (length t), set_mem s (put_text d t)))"
    using strlen_string [OF S] wrote_min [OF n(1)] check_lit [OF b(1) p, of "length t + 1" "of_nat (length t) + 1"]
      buffer_check [OF B, of d 0 "length t + 1" "of_nat (length t) + 1"] n(2) strlcpy_text [OF S lit_short [OF p] n(1)]
    by (simp add: redzone_strlcpy_def strlen_of_def Let_def set_mem_def)
  have "string_at (put_text d t (mem s)) d t" by (rule string_put [OF string_literal [OF b(1) p] lit_short [OF p]])
  moreover have "buffer sh bs (set_mem s (put_text d t)) i d" by (rule buffer_put [OF B, of d 0]) (use n in simp_all)
  ultimately show ?thesis using rest by (simp add: e set_mem_def)
qed

lemma strlcat_step:
  assumes B: "buffer sh bs s i d" and p: "(p, t) \<in> set lits" and u: "string_at (mem s) d u"
    and n: "length u + length t < unat n" "length u + length t + 1 \<le> unat (user_size (bs ! i))"
    and rest: "\<And>s'. buffer sh bs s' i d \<Longrightarrow> string_at (mem s') d (u @ t) \<Longrightarrow> P (K (of_nat (length u + length t), s'))"
  shows "P (bindS (redzone_strlcat (os s) d p n f l s) K)"
proof -
  note b = bufferD [OF B] and S = lit_string [OF bufferD(1) [OF B] p]
  let ?d = "d + of_nat (length u)"
  have uu: "unat (of_nat (length u) :: u64) = length u" using n(1) unat_bound64 [of n] by (intro unat_nat64) linarith
  have lt: "of_nat (length u) < n" using n(1) by (simp add: word_less_nat_alt uu)
  then have av: "unat (n - of_nat (length u)) = unat n - length u" by (simp add: unat_sub less_imp_le uu)
  have m: "min (unat n) (length u) = length u" "length t < unat (n - of_nat (length u))" using n(1) av by simp_all
  have e: "redzone_strlcat (os s) d p n f l s = Some (Done (of_nat (length u + length t), set_mem s (put_text ?d t)))"
    using strlen_string [OF S] strnlen_string [OF u] lt m wrote_min [OF m(2)]
      check_lit [OF b(1) p, of "length t + 1" "of_nat (length t) + 1"]
      buffer_check [OF B, of ?d "length u" "length t + 1" "of_nat (length t) + 1"] n(2) strlcpy_text [OF S lit_short [OF p] m(2)]
    by (simp add: redzone_strlcat_def strlen_of_def strnlen_of_def Let_def set_mem_def)
  have "length u + length t < 140737488355328"
    using n(2) block_okD(5,6) [of "bs ! i"] standsD(7) [OF b(5)] b(2) by fastforce
  then have "string_at (put_text ?d t (mem s)) d (u @ t)" by (rule string_append [OF u string_literal [OF b(1) p]])
  moreover have "buffer sh bs (set_mem s (put_text ?d t)) i d" by (rule buffer_put [OF B refl n(2)])
  ultimately show ?thesis using rest by (simp add: e set_mem_def)
qed

section \<open>Past the end of the buffer\<close>

lemma reportsS: "reports k x \<Longrightarrow> \<exists>o'. bindS (Some x) K = Some o' \<and> reports k o'"
  by (auto simp: reports_def)

lemma buffer_past:
  assumes "buffer sh bs s i d" and "n = of_nat k" and "unat (user_size (bs ! i)) < k" and "k \<le> unat (user_size (bs ! i)) + 16"
  shows "reports ''heap-buffer-overflow'' (bindO (redzone_check sys d n w f l s) K)"
  using check_past [OF bufferD(5,2,3,4) [OF assms(1)] assms(2-4)] by (rule reports_bind)

lemma strcpy_over:
  assumes B: "buffer sh bs s i d" and p: "(p, t) \<in> set lits"
    and n: "unat (user_size (bs ! i)) < length t + 1" "length t + 1 \<le> unat (user_size (bs ! i)) + 16"
  shows "\<exists>o'. bindS (redzone_strcpy (os s) d p f l s) K = Some o' \<and> reports ''heap-buffer-overflow'' o'"
proof -
  note b = bufferD [OF B] and S = lit_string [OF bufferD(1) [OF B] p]
  have "redzone_strcpy (os s) d p f l s = Some (bindO (redzone_check (os s) d (of_nat (length t + 1)) True f l s) (\<lambda>s.
      Done (d, set_mem s (c_strcpy d p (of_nat (length t))))))"
    using strlen_string [OF S] check_lit [OF b(1) p, of "length t + 1"]
    by (simp add: redzone_strcpy_def strlen_of_def Let_def add.commute)
  then show ?thesis using reportsS [OF buffer_past [OF B refl n]] by metis
qed

lemma strcat_over:
  assumes B: "buffer sh bs s i d" and p: "(p, t) \<in> set lits" and u: "string_at (mem s) d u"
    and n: "unat (user_size (bs ! i)) < length u + length t + 1" "length u + length t + 1 \<le> unat (user_size (bs ! i)) + 16"
  shows "\<exists>o'. bindS (redzone_strcat (os s) d p f l s) K = Some o' \<and> reports ''heap-buffer-overflow'' o'"
proof -
  note b = bufferD [OF B] and S = lit_string [OF bufferD(1) [OF B] p]
  have "redzone_strcat (os s) d p f l s = Some (bindO (redzone_check (os s) d (of_nat (length u + length t + 1)) True f l s) (\<lambda>s.
      Done (d, set_mem s (c_strcpy (d + of_nat (length u)) p (of_nat (length t))))))"
    using strlen_string [OF S] strlen_string [OF u] check_lit [OF b(1) p, of "length t + 1"]
    by (simp add: redzone_strcat_def strlen_of_def Let_def add_ac)
  then show ?thesis using reportsS [OF buffer_past [OF B refl n]] by metis
qed

lemma strncpy_over:
  assumes B: "buffer sh bs s i d" and n: "unat (user_size (bs ! i)) < unat n" "unat n \<le> unat (user_size (bs ! i)) + 16"
  shows "\<exists>o'. bindS (Some (redzone_strncpy (os s) d p n f l s)) K = Some o' \<and> reports ''heap-buffer-overflow'' o'"
  unfolding redzone_strncpy_def by (rule reportsS [OF buffer_past [OF B _ n]]) simp

lemma strlcpy_over:
  assumes B: "buffer sh bs s i d" and p: "(p, t) \<in> set lits" and k: "length t < unat n"
    and n: "unat (user_size (bs ! i)) < length t + 1" "length t + 1 \<le> unat (user_size (bs ! i)) + 16"
  shows "\<exists>o'. bindS (redzone_strlcpy (os s) d p n f l s) K = Some o' \<and> reports ''heap-buffer-overflow'' o'"
proof -
  note b = bufferD [OF B] and S = lit_string [OF bufferD(1) [OF B] p]
  have "redzone_strlcpy (os s) d p n f l s = Some (bindO (redzone_check (os s) d (of_nat (length t + 1)) True f l s) (\<lambda>s.
      Done (of_nat (length t), set_mem s (c_strlcpy d p (of_nat (length t)) n))))"
    using strlen_string [OF S] wrote_min [OF k] check_lit [OF b(1) p, of "length t + 1" "of_nat (length t) + 1"]
    by (simp add: redzone_strlcpy_def strlen_of_def Let_def add.commute skip_check)
  then show ?thesis using reportsS [OF buffer_past [OF B refl n]] by metis
qed

section \<open>Formatted output and the release of the buffer\<close>

lemma prints_length:
  assumes "has_text R (ro, rn) lits sh bs s" and "prints lits fc t" and "length t \<le> 2147483647"
  shows "fst (c_vsnprintf fc 0 0 (mem s)) = int (length t)" and "fmt_room fc (mem s) = length t + 1"
  using assms by (simp_all add: has_text_def prints_def c_vsnprintf_def fmt_room_def)

lemma text_free_step:
  assumes B: "buffer sh bs s i d"
    and rest: "\<And>s'. stands R sh (bs[i := (bs ! i)\<lparr>freed := True\<rparr>]) s' \<Longrightarrow> P (K s')"
  shows "P (bindS (Some (redzone_free sys d s)) K)"
  using stands_free [OF bufferD(5) [OF B] regions bufferD(2-4) [OF B]] rest by simp

lemma formatted:
  assumes B: "buffer sh bs s i d" and t: "prints lits fc t" "length t \<le> 2147483647" and n: "length t + 1 \<le> unat (user_size (bs ! i))"
  shows "buffer sh bs (s\<lparr>mem := snd (c_vsnprintf fc d n (mem s))\<rparr>) i d"
proof -
  note b = bufferD [OF B]
  have "has_text R (ro, rn) lits sh bs (s\<lparr>mem := snd (c_vsnprintf fc d n (mem s))\<rparr>)"
  proof (rule text_write [OF b(1-3), where a = d and k = 0 and n = "length t + 1"])
    fix x assume "\<not> in_span d (length t + 1) x"
    then have "\<not> in_span d (min (fmt_room fc (mem s)) (unat n)) x"
      unfolding prints_length(2) [OF b(1) t] by (auto simp: in_span_def)
    then show "snd (c_vsnprintf fc d n (mem s)) x = mem s x" by (rule vsnprintf_outside)
  qed (use b(4) n in simp_all)
  then show ?thesis using b by (simp add: buffer_def)
qed

lemma snprintf_step:
  assumes B: "buffer sh bs s i d" and t: "prints lits fc t" "length t \<le> 2147483647" and n: "length t < unat n" "length t + 1 \<le> unat (user_size (bs ! i))"
    and rest: "\<And>r s'. buffer sh bs s' i d \<Longrightarrow> P (K (r, s'))"
  shows "P (bindS (Some (redzone_snprintf (os s) d n f l fc s)) K)"
proof -
  note b = bufferD [OF B]
  have "redzone_snprintf (os s) d n f l fc s = Done (fst (c_vsnprintf fc d n (mem s)), s\<lparr>mem := snd (c_vsnprintf fc d n (mem s))\<rparr>)"
    using wrote_min [OF n(1)] buffer_check [OF B, of d 0 "length t + 1" "of_nat (length t) + 1"] n(2)
    by (simp add: redzone_snprintf_def prints_length(1) [OF b(1) t] split_beta skip_check)
  then show ?thesis using rest [OF formatted [OF B t n(2)]] by simp
qed

lemma sprintf_step:
  assumes B: "buffer sh bs s i d" and t: "prints lits fc t" "length t \<le> 2147483647" and n: "length t + 1 \<le> unat (user_size (bs ! i))"
    and rest: "\<And>r s'. buffer sh bs s' i d \<Longrightarrow> P (K (r, s'))"
  shows "P (bindS (Some (redzone_sprintf (os s) d f l fc s)) K)"
proof -
  note b = bufferD [OF B]
  have "redzone_sprintf (os s) d f l fc s = Done (fst (c_vsnprintf fc d SIZE_MAX (mem s)), s\<lparr>mem := snd (c_vsnprintf fc d SIZE_MAX (mem s))\<rparr>)"
    using buffer_check [OF B, of d 0 "length t + 1" "of_nat (length t) + 1"] n
    by (simp add: redzone_sprintf_def prints_length(1) [OF b(1) t] split_beta)
  then show ?thesis using rest [OF formatted [OF B t n]] by simp
qed

lemma snprintf_over:
  assumes B: "buffer sh bs s i d" and t: "prints lits fc t" "length t \<le> 2147483647" and k: "length t < unat n"
    and n: "unat (user_size (bs ! i)) < length t + 1" "length t + 1 \<le> unat (user_size (bs ! i)) + 16"
  shows "\<exists>o'. bindS (Some (redzone_snprintf (os s) d n f l fc s)) K = Some o' \<and> reports ''heap-buffer-overflow'' o'"
proof (rule reportsS)
  show "reports ''heap-buffer-overflow'' (redzone_snprintf (os s) d n f l fc s)"
    using wrote_min [OF k] buffer_past [OF B _ n, of "of_nat (length t) + 1"]
    by (simp add: redzone_snprintf_def prints_length(1) [OF bufferD(1) [OF B] t] skip_check)
qed

lemma sprintf_over:
  assumes B: "buffer sh bs s i d" and t: "prints lits fc t" "length t \<le> 2147483647"
    and n: "unat (user_size (bs ! i)) < length t + 1" "length t + 1 \<le> unat (user_size (bs ! i)) + 16"
  shows "\<exists>o'. bindS (Some (redzone_sprintf (os s) d f l fc s)) K = Some o' \<and> reports ''heap-buffer-overflow'' o'"
proof (rule reportsS)
  show "reports ''heap-buffer-overflow'' (redzone_sprintf (os s) d f l fc s)"
    using buffer_past [OF B _ n, of "of_nat (length t) + 1"]
    by (simp add: redzone_sprintf_def prints_length(1) [OF bufferD(1) [OF B] t])
qed

end

end
