(* ===== verification/Mem_String_Examples.thy ===== *)
theory Mem_String_Examples
  imports Mem_Strings Mem_Heap_Examples
begin

text \<open>
  The memory-mode programs under \<^verbatim>\<open>examples\<close> that write a heap buffer with the string functions or formatted
  output. The literals are given by their addresses; \<open>fc\<close> is the format with its arguments.
\<close>

section \<open>The programs\<close>

definition strcpy_overflow_c :: "u64 \<Rightarrow> os \<Rightarrow> rt \<Rightarrow> run" where
  "strcpy_overflow_c hello os s =
     bindS (Some (redzone_malloc (os s) 4 (Some ''strcpy_overflow.c'') 8 s)) (\<lambda>(p, s).
     bindS (redzone_strcpy (os s) p hello (Some ''strcpy_overflow.c'') 9 s) (\<lambda>(_, s).
     bindS (Some (redzone_free (os s) p s)) (\<lambda>s.
     Some (Done (0, [], s)))))"

definition strcat_overflow_c :: "u64 \<Rightarrow> u64 \<Rightarrow> os \<Rightarrow> rt \<Rightarrow> run" where
  "strcat_overflow_c ab cde os s =
     bindS (Some (redzone_malloc (os s) 4 (Some ''strcat_overflow.c'') 7 s)) (\<lambda>(p, s).
     bindS (redzone_strcpy (os s) p ab (Some ''strcat_overflow.c'') 8 s) (\<lambda>(_, s).
     bindS (redzone_strcat (os s) p cde (Some ''strcat_overflow.c'') 9 s) (\<lambda>(_, s).
     bindS (Some (redzone_free (os s) p s)) (\<lambda>s.
     Some (Done (0, [], s))))))"

definition strncpy_overflow_c :: "u64 \<Rightarrow> os \<Rightarrow> rt \<Rightarrow> run" where
  "strncpy_overflow_c lit os s =
     bindS (Some (redzone_malloc (os s) 4 (Some ''strncpy_overflow.c'') 7 s)) (\<lambda>(p, s).
     bindS (Some (redzone_strncpy (os s) p lit 8 (Some ''strncpy_overflow.c'') 8 s)) (\<lambda>(_, s).
     bindS (Some (redzone_free (os s) p s)) (\<lambda>s.
     Some (Done (0, [], s)))))"

definition strlcpy_overflow_c :: "u64 \<Rightarrow> os \<Rightarrow> rt \<Rightarrow> run" where
  "strlcpy_overflow_c hello os s =
     bindS (Some (redzone_malloc (os s) 4 (Some ''strlcpy_overflow.c'') 8 s)) (\<lambda>(p, s).
     bindS (redzone_strlcpy (os s) p hello 8 (Some ''strlcpy_overflow.c'') 9 s) (\<lambda>(_, s).
     bindS (Some (redzone_free (os s) p s)) (\<lambda>s.
     Some (Done (0, [], s)))))"

definition str_valid_c :: "u64 \<Rightarrow> u64 \<Rightarrow> u64 \<Rightarrow> u64 \<Rightarrow> u64 \<Rightarrow> u64 \<Rightarrow> os \<Rightarrow> rt \<Rightarrow> run" where
  "str_valid_c hi there abc xy lm no os s =
     bindS (Some (redzone_malloc (os s) 16 (Some ''str_valid.c'') 7 s)) (\<lambda>(p, s).
     bindS (redzone_strcpy (os s) p hi (Some ''str_valid.c'') 8 s) (\<lambda>(_, s).
     bindS (redzone_strcat (os s) p there (Some ''str_valid.c'') 9 s) (\<lambda>(_, s).
     bindS (Some (redzone_strncpy (os s) p abc 4 (Some ''str_valid.c'') 10 s)) (\<lambda>(_, s).
     bindS (redzone_strncat (os s) p xy 2 (Some ''str_valid.c'') 11 s) (\<lambda>(_, s).
     bindS (redzone_strlcpy (os s) p lm 16 (Some ''str_valid.c'') 12 s) (\<lambda>(_, s).
     bindS (redzone_strlcat (os s) p no 16 (Some ''str_valid.c'') 13 s) (\<lambda>(_, s).
     bindS (Some (redzone_free (os s) p s)) (\<lambda>s.
     Some (Done (0, [], s))))))))))"

definition sprintf_overflow_c :: "fmt_call \<Rightarrow> os \<Rightarrow> rt \<Rightarrow> run" where
  "sprintf_overflow_c fc os s =
     bindS (Some (redzone_malloc (os s) 4 (Some ''sprintf_overflow.c'') 8 s)) (\<lambda>(p, s).
     bindS (Some (redzone_sprintf (os s) p (Some ''sprintf_overflow.c'') 9 fc s)) (\<lambda>(_, s).
     bindS (Some (redzone_free (os s) p s)) (\<lambda>s.
     Some (Done (0, [], s)))))"

definition snprintf_overflow_c :: "fmt_call \<Rightarrow> os \<Rightarrow> rt \<Rightarrow> run" where
  "snprintf_overflow_c fc os s =
     bindS (Some (redzone_malloc (os s) 4 (Some ''snprintf_overflow.c'') 7 s)) (\<lambda>(p, s).
     bindS (Some (redzone_snprintf (os s) p 8 (Some ''snprintf_overflow.c'') 8 fc s)) (\<lambda>(_, s).
     bindS (Some (redzone_free (os s) p s)) (\<lambda>s.
     Some (Done (0, [], s)))))"

definition printf_valid_c :: "fmt_call \<Rightarrow> fmt_call \<Rightarrow> os \<Rightarrow> rt \<Rightarrow> run" where
  "printf_valid_c fc1 fc2 os s =
     bindS (Some (redzone_malloc (os s) 16 (Some ''printf_valid.c'') 7 s)) (\<lambda>(p, s).
     bindS (Some (redzone_snprintf (os s) p 16 (Some ''printf_valid.c'') 8 fc1 s)) (\<lambda>(_, s).
     bindS (Some (redzone_sprintf (os s) p (Some ''printf_valid.c'') 9 fc2 s)) (\<lambda>(_, s).
     bindS (Some (redzone_free (os s) p s)) (\<lambda>s.
     Some (Done (0, [], s))))))"

section \<open>Their verdicts\<close>

definition reportsR :: "string \<Rightarrow> run \<Rightarrow> bool" where
  "reportsR k r \<longleftrightarrow> (\<exists>o'. r = Some o' \<and> reports k o')"

definition endsR :: "(u64 \<times> u64) list \<Rightarrow> run \<Rightarrow> bool" where
  "endsR R r \<longleftrightarrow> (\<exists>o'. r = Some o' \<and> ends R 0 [] (list_all freed) o')"

lemma endsR_Done: "stands R sh bs s \<Longrightarrow> list_all freed bs \<Longrightarrow> endsR R (Some (Done (0, [], s)))"
  by (auto simp: endsR_def ends_def)

context host_text
begin

lemma first_block: "has_text R (ro, rn) lits sh [b] s \<Longrightarrow> \<not> freed b \<Longrightarrow> buffer sh [b] s 0 (user_addr b)"
  by (simp add: buffer_def)

lemma strcpy_overflow:
  assumes "has_text R (ro, rn) lits sh [] s" and "(hello, ''hello'') \<in> set lits"
  shows "reportsR ''heap-buffer-overflow'' (strcpy_overflow_c hello os s)"
  unfolding strcpy_overflow_c_def
  apply (rule text_malloc_step [where P = "reportsR _", OF assms(1)], simp_all)
  apply (unfold reportsR_def, rule strcpy_over [OF first_block assms(2)], assumption, simp_all)
  done

lemma strcat_overflow:
  assumes "has_text R (ro, rn) lits sh [] s" and "(ab, ''ab'') \<in> set lits" and "(cde, ''cde'') \<in> set lits"
  shows "reportsR ''heap-buffer-overflow'' (strcat_overflow_c ab cde os s)"
  unfolding strcat_overflow_c_def
  apply (rule text_malloc_step [where P = "reportsR _", OF assms(1)], simp_all)
  apply (rule strcpy_step [where P = "reportsR _", OF first_block assms(2)], assumption, simp_all)
  apply (unfold reportsR_def, rule strcat_over [OF _ assms(3)], assumption+, simp_all)
  done

lemma strncpy_overflow:
  assumes "has_text R (ro, rn) lits sh [] s"
  shows "reportsR ''heap-buffer-overflow'' (strncpy_overflow_c lit os s)"
  unfolding strncpy_overflow_c_def
  apply (rule text_malloc_step [where P = "reportsR _", OF assms(1)], simp_all)
  apply (unfold reportsR_def, rule strncpy_over [OF first_block], assumption, simp_all)
  done

lemma strlcpy_overflow:
  assumes "has_text R (ro, rn) lits sh [] s" and "(hello, ''hello'') \<in> set lits"
  shows "reportsR ''heap-buffer-overflow'' (strlcpy_overflow_c hello os s)"
  unfolding strlcpy_overflow_c_def
  apply (rule text_malloc_step [where P = "reportsR _", OF assms(1)], simp_all)
  apply (unfold reportsR_def, rule strlcpy_over [OF first_block assms(2)], assumption, simp_all)
  done

lemma sprintf_overflow:
  assumes "has_text R (ro, rn) lits sh [] s" and "prints lits fc ''hello''"
  shows "reportsR ''heap-buffer-overflow'' (sprintf_overflow_c fc os s)"
    and "reportsR ''heap-buffer-overflow'' (snprintf_overflow_c fc os s)"
  unfolding sprintf_overflow_c_def snprintf_overflow_c_def
   apply (rule text_malloc_step [where P = "reportsR _", OF assms(1)], simp_all)
   apply (unfold reportsR_def, rule sprintf_over [OF first_block assms(2)], assumption, simp_all)
  apply (rule text_malloc_step [where P = "\<lambda>r. \<exists>o'. r = Some o' \<and> reports _ o'", OF assms(1)], simp_all)
  apply (rule snprintf_over [OF first_block assms(2)], assumption, simp_all)
  done

lemma str_valid:
  assumes "has_text R (ro, rn) lits sh [] s" and lit: "(hi, ''hi'') \<in> set lits" "(there, ''there'') \<in> set lits"
    "(abc, ''abc'') \<in> set lits" "(xy, ''xy'') \<in> set lits" "(lm, ''lm'') \<in> set lits" "(no, ''no'') \<in> set lits"
  shows "endsR R (str_valid_c hi there abc xy lm no os s)"
  unfolding str_valid_c_def
  apply (rule text_malloc_step [where P = "endsR R", OF assms(1)], simp_all)
  apply (rule strcpy_step [where P = "endsR R", OF first_block lit(1)], assumption, simp_all)
  apply (rule strcat_step [where P = "endsR R", OF _ lit(2)], assumption+, simp_all)
  apply (rule strncpy_step [where P = "endsR R", OF _ lit(3)], assumption, simp_all)
  apply (rule strncat_step [where P = "endsR R", OF _ lit(4)], assumption+, simp_all)
  apply (rule strlcpy_step [where P = "endsR R", OF _ lit(5)], assumption, simp_all)
  apply (rule strlcat_step [where P = "endsR R", OF _ lit(6)], assumption+, simp_all)
  apply (rule text_free_step [where P = "endsR R"], assumption, simp_all)
  apply (rule endsR_Done, assumption, simp)
  done

lemma printf_valid:
  assumes "has_text R (ro, rn) lits sh [] s" and p: "prints lits fc1 ''ab-7''" "prints lits fc2 ''12345''"
  shows "endsR R (printf_valid_c fc1 fc2 os s)"
  unfolding printf_valid_c_def
  apply (rule text_malloc_step [where P = "endsR R", OF assms(1)], simp_all)
  apply (rule snprintf_step [where P = "endsR R", OF first_block p(1)], assumption, simp_all)
  apply (rule sprintf_step [where P = "endsR R", OF _ p(2)], assumption, simp_all)
  apply (rule text_free_step [where P = "endsR R"], assumption, simp_all)
  apply (rule endsR_Done, assumption, simp)
  done

end

end
