(* ===== verification/Mem_Host.thy ===== *)
theory Mem_Host
  imports Mem_Region_Examples Mem_String_Examples
begin

text \<open>
  A host the programs can run on: a first-fit allocator over slots of a megabyte, which keeps away from every block
  ever given out and from the regions of the program, and always finds room for a light heap; a frame, two globals and
  a region of literals side by side. It is what the locales of the programs are interpreted on.
\<close>

section \<open>First fit\<close>

fun clash :: "nat \<times> nat \<Rightarrow> nat \<Rightarrow> bool" where
  "clash (p, n) k \<longleftrightarrow> 1048576 * k < p + n \<and> p < 1048576 * k + 1048576"

definition ranges :: "(u64 \<times> u64) list \<Rightarrow> block list \<Rightarrow> (nat \<times> nat) list" where
  "ranges R bs = map (\<lambda>(p, n). (unat p, unat n)) R @ map (\<lambda>b. (unat (real_base b), unat (total_size b))) bs"

text \<open>The first slot below \<open>N\<close> that is free; two million slots are enough for a million blocks.\<close>

definition fit :: "nat \<Rightarrow> (nat \<times> nat) list \<Rightarrow> nat option" where
  "fit N rs = find (\<lambda>k. list_all (\<lambda>r. \<not> clash r k) rs) [1..<N]"

definition first_fit :: "(u64 \<times> u64) list \<Rightarrow> os" where
  "first_fit R s =
     \<lparr>sys_malloc = (\<lambda>n. if 65536 < unat n then 0 else
        case fit 2000300 (ranges R (blocks s)) of None \<Rightarrow> 0 | Some k \<Rightarrow> of_nat (1048576 * k)),
      sys_realloc_ok = True, sys_mmap_ok = True\<rparr>"

lemma fit_Some:
  assumes "fit N rs = Some k" and "N \<le> 100000000"
  shows "1 \<le> k" and "k < N" and "r \<in> set rs \<Longrightarrow> \<not> clash r k" and "unat (of_nat (1048576 * k) :: u64) = 1048576 * k"
proof -
  obtain i where i: "i < length [1..<N]" "list_all (\<lambda>r. \<not> clash r k) rs" "k = [1..<N] ! i"
    using assms(1) unfolding fit_def find_Some_iff by blast
  then show b: "1 \<le> k" "k < N" by simp_all
  show "r \<in> set rs \<Longrightarrow> \<not> clash r k" using i(2) by (simp add: list_all_iff)
  show "unat (of_nat (1048576 * k) :: u64) = 1048576 * k" by (rule unat_nat64) (use b(2) assms(2) in linarith)
qed

lemma first_fit_slot:
  assumes "sys_malloc (first_fit R s) n \<noteq> 0"
  obtains k where "unat (sys_malloc (first_fit R s) n) = 1048576 * k" and "k < 2000300" and "unat n \<le> 65536"
    and "\<And>r. r \<in> set (ranges R (blocks s)) \<Longrightarrow> \<not> clash r k"
proof -
  have n: "unat n \<le> 65536" using assms by (simp add: first_fit_def split: if_splits)
  obtain k where k: "fit 2000300 (ranges R (blocks s)) = Some k"
    using assms by (cases "fit 2000300 (ranges R (blocks s))") (simp_all add: first_fit_def split: if_splits)
  have m: "(2000300 :: nat) \<le> 100000000" by simp
  note f = fit_Some [OF k m]
  have "sys_malloc (first_fit R s) n = of_nat (1048576 * k)" using k n by (simp add: first_fit_def)
  then have "unat (sys_malloc (first_fit R s) n) = 1048576 * k" using f(4) by (simp only:)
  then show thesis by (rule that) (use f n in simp_all)
qed

lemma first_fit_allocator: "allocator R (first_fit R)"
  unfolding allocator_def sys_ok_def
proof (intro allI conjI impI ballI)
  fix s n assume nz: "sys_malloc (first_fit R s) n \<noteq> 0"
  obtain k where k: "unat (sys_malloc (first_fit R s) n) = 1048576 * k" "k < 2000300" "unat n \<le> 65536"
    and c: "\<And>r. r \<in> set (ranges R (blocks s)) \<Longrightarrow> \<not> clash r k" using first_fit_slot [OF nz] by blast
  have "1048576 * k = 16 * (65536 * k)" by simp
  then show "unat (sys_malloc (first_fit R s) n) mod 16 = 0" unfolding k(1) by (simp only: mod_mult_self1_is_0)
  show "unat (sys_malloc (first_fit R s) n) + unat n \<le> 140737488355328" using k by linarith
  show "apart (sys_malloc (first_fit R s) n) n b" if "b \<in> set (blocks s)" for b
  proof -
    have "\<not> clash (unat (real_base b), unat (total_size b)) k" by (rule c) (use that in \<open>simp add: ranges_def\<close>)
    then show ?thesis unfolding apart_def k(1) clash.simps using k(3) by linarith
  qed
  show "case r of (p, j) \<Rightarrow> unat p + unat j \<le> unat (sys_malloc (first_fit R s) n) \<or> unat (sys_malloc (first_fit R s) n) + unat n \<le> unat p"
    if "r \<in> set R" for r
  proof -
    obtain p j where r: "r = (p, j)" by (cases r)
    have "\<not> clash (unat p, unat j) k" by (rule c) (use that r in \<open>force simp: ranges_def\<close>)
    then show ?thesis unfolding r prod.case k(1) clash.simps using k(3) by linarith
  qed
qed

text \<open>Each range of at most 64 kilobytes clashes with at most two slots, so a few ranges leave a slot free.\<close>

lemma clash_two:
  assumes "clash (p, n) k" and "n \<le> 65536"
  shows "k = p div 1048576 \<or> k = Suc (p div 1048576)"
proof -
  define q r where "q = p div 1048576" and "r = p mod 1048576"
  then have q: "p = 1048576 * q + r" "r < 1048576" by simp_all
  have "\<not> k < q" "\<not> Suc q < k" using assms q(2) unfolding q(1) clash.simps by linarith+
  then show ?thesis unfolding q_def by linarith
qed

lemma slot_left:
  assumes small: "\<And>r. r \<in> set rs \<Longrightarrow> snd r \<le> 65536" and few: "2 * length rs + 1 < N"
  shows "fit N rs \<noteq> None"
proof
  assume "fit N rs = None"
  then have all: "\<exists>r \<in> set rs. clash r k" if "k \<in> {1..<N}" for k
    using that by (auto simp: fit_def find_None_iff list_all_iff)
  let ?hit = "map (\<lambda>r. fst r div 1048576) rs @ map (\<lambda>r. Suc (fst r div 1048576)) rs"
  have "{1..<N} \<subseteq> set ?hit"
  proof
    fix k :: nat assume "k \<in> {1..<N}"
    then obtain r where r: "r \<in> set rs" "clash r k" using all by blast
    then have "k = fst r div 1048576 \<or> k = Suc (fst r div 1048576)" using clash_two [of "fst r" "snd r" k] small by simp
    with r(1) show "k \<in> set ?hit" by auto
  qed
  then have "card {1..<N} \<le> card (set ?hit)" by (intro card_mono) simp_all
  also have "\<dots> \<le> length ?hit" by (rule card_length)
  finally show False using few by simp
qed

lemma first_fit_roomy:
  assumes few: "length R < 85" and small: "\<And>p n. (p, n) \<in> set R \<Longrightarrow> unat n \<le> 65536"
  shows "roomy (first_fit R)"
proof -
  have "sys_malloc (first_fit R s) n \<noteq> 0" if s: "light (blocks s)" and n: "unat n \<le> 8192" for s n
  proof -
    have "fit 2000300 (ranges R (blocks s)) \<noteq> None"
      by (rule slot_left) (use few small s in \<open>auto simp: ranges_def light_def\<close>)
    then obtain k where k: "fit 2000300 (ranges R (blocks s)) = Some k" by blast
    have m: "(2000300 :: nat) \<le> 100000000" by simp
  note f = fit_Some [OF k m]
    have "(of_nat (1048576 * k) :: u64) \<noteq> 0"
    proof
      assume "(of_nat (1048576 * k) :: u64) = 0"
      then have "unat (of_nat (1048576 * k) :: u64) = 0" by (simp only: unat_0)
      then show False using f(1,4) by linarith
    qed
    moreover have "sys_malloc (first_fit R s) n = of_nat (1048576 * k)" using k n by (simp add: first_fit_def)
    ultimately show ?thesis by (simp only: not_False_eq_True)
  qed
  then show ?thesis by (simp add: roomy_def first_fit_def)
qed

end
