(* ===== verification/Mem_Cases.thy ===== *)
theory Mem_Cases
  imports Mem_Host
begin

text \<open>
  The outcomes of the memory-mode programs, from the start of the process to its end, as the table of
  \<^verbatim>\<open>scripts/test.sh\<close> wants them: on every allocator that keeps the contract of \<^verbatim>\<open>malloc\<close> and has room, with every
  layout of the frame, the globals and the literals.
\<close>

section \<open>The tables\<close>

type_synonym heap_case = "(os \<Rightarrow> rt \<Rightarrow> main_end) \<times> string"

definition error_cases :: "heap_case list" where
  "error_cases =
    [(heap_overflow_c, ''heap-buffer-overflow''), (off_by_one_read_c, ''heap-buffer-overflow''),
     (underflow_write_c, ''heap-buffer-overflow''), (use_after_free_c, ''use-after-free''),
     (use_after_free_write_c, ''use-after-free''), (double_free_c, ''double-free''), (invalid_free_c, ''invalid-free''),
     (calloc_overflow_c, ''heap-buffer-overflow''), (indirect_malloc_c, ''heap-buffer-overflow''),
     (memset_overflow_c, ''heap-buffer-overflow''), (aligned_overflow_c, ''heap-buffer-overflow''),
     (cpp_new_overflow, ''heap-buffer-overflow''), (cpp_delete_uaf, ''use-after-free''),
     (cpp_aligned_new_overflow, ''heap-buffer-overflow''), (cmake_demo, ''heap-buffer-overflow''), (make_demo, ''heap-buffer-overflow'')]"

definition leak_cases :: "(os \<Rightarrow> rt \<Rightarrow> main_end) list" where
  "leak_cases = [memory_leak_c, multi_leak_c]"

text \<open>What each clean program prints.\<close>

definition clean_cases :: "heap_case list" where
  "clean_cases =
    [(valid_c, ''sum = 14'' @ newline), (big_valid_c, ''sum = 499500'' @ newline), (two_allocs_valid_c, ''sum = 220'' @ newline),
     (realloc_grow_c, ''sum = 10'' @ newline), (cpp_new_valid, ''182'' @ newline), (cpp_aligned_new_valid, ''8256'' @ newline)]"

definition in_run :: "os \<Rightarrow> (u64 \<times> u64) list \<Rightarrow> (os \<Rightarrow> rt \<Rightarrow> run) \<Rightarrow> rt \<Rightarrow> run" where
  "in_run os fs prog = with_frame os fs (prog os)"

context host
begin

lemma main_reports:
  assumes "k \<noteq> ''OK''" and "\<And>s sh. stands R sh [] s \<Longrightarrow> s = entered fs (with_globals gs (loaded m)) \<Longrightarrow> sh = shadow_val s \<Longrightarrow> reports k (prog os s)"
  shows "verdict k (run_process env le os m gs (in_main os fs prog))"
  unfolding in_main_def by (rule run_reports [OF assms(1)]) (use assms(2) in blast)

lemma main_exits:
  assumes "\<And>s sh. stands R sh [] s \<Longrightarrow> s = entered fs (with_globals gs (loaded m)) \<Longrightarrow> sh = shadow_val s \<Longrightarrow>
    ends R st out (list_all freed) (prog os s)"
  shows "run_process env le os m gs (in_main os fs prog) = Some (Exited st out [])"
  unfolding in_main_def by (rule run_exits) (use assms in blast)

lemma main_leaks:
  assumes "\<And>s sh. stands R sh [] s \<Longrightarrow> ends R st out (list_ex (\<lambda>b. \<not> freed b)) (prog os s)"
  shows "verdict ''memory-leak'' (run_process env le os m gs (in_main os fs prog))"
  unfolding in_main_def by (rule run_leaks) (use assms in blast)

lemmas bodies_reported = heap_overflow off_by_one_read underflow_write use_after_free use_after_free_write double_free
  invalid_free calloc_overflow_run indirect_malloc memset_overflow aligned_overflow cpp_new_overflow cpp_delete_uaf cpp_aligned_new_overflow

lemma error_cases: "list_all (\<lambda>(prog, kd). verdict kd (run_process env le os m gs (in_main os fs prog))) error_cases"
  unfolding error_cases_def list.pred_inject prod.case
  by (intro conjI main_reports TrueI; (rule bodies_reported, assumption)?) simp_all

lemma leak_cases: "list_all (\<lambda>prog. verdict ''memory-leak'' (run_process env le os m gs (in_main os fs prog))) leak_cases"
  unfolding leak_cases_def list.pred_inject
  by (intro conjI main_leaks TrueI; ((rule memory_leak multi_leak, assumption) | simp))

lemma clean_cases: "list_all (\<lambda>(prog, out). run_process env le os m gs (in_main os fs prog) = Some (Exited 0 out [])) clean_cases"
  unfolding clean_cases_def list.pred_inject prod.case
  by (intro conjI main_exits TrueI;
    ((rule valid big_valid two_allocs_valid realloc_grow cpp_new_valid cpp_aligned_new_valid, assumption) | simp))

lemma slot_at_start:
  "s = entered fs (with_globals gs (loaded m)) \<Longrightarrow> sh = shadow_val s \<Longrightarrow> (p, k) \<in> set fs \<Longrightarrow> slot_guarded sh p k"
  using frame_guarded [OF _ frame, of "with_globals gs (loaded m)"] by simp

lemma global_at_start:
  "s = entered fs (with_globals gs (loaded m)) \<Longrightarrow> sh = shadow_val s \<Longrightarrow> (data, sz, ext) \<in> set gs \<Longrightarrow> unat sz mod 8 = 0 \<Longrightarrow> global_guarded sh data sz"
  using globals_guarded [OF _ layout, of "loaded m"] by simp

lemma frame_cases:
  assumes p: "(p, 16) \<in> set fs" and q: "(q, 8) \<in> set fs" and f: "frame_in R fs2"
  shows "verdict ''stack-buffer-overflow'' (run_process env le os m gs (in_main os fs (stack_overflow_c (p + 16))))"
    and "verdict ''stack-buffer-overflow'' (run_process env le os m gs (in_main os fs (stack_inbounds_then_oob_c (p + 16))))"
    and "verdict ''heap-buffer-overflow'' (run_process env le os m gs (in_main os fs (memcpy_overflow_c (p + 16))))"
    and "verdict ''heap-buffer-overflow'' (run_process env le os m gs (in_main os fs (threaded_overflow_c 0 fs2)))"
    and "run_process env le os m gs (in_main os fs (memcpy_valid_c (p + 16))) = Some (Exited 0 [] [])"
    and "run_process env le os m gs (in_main os fs (aligned_valid_c (q + 16))) = Some (Exited 0 (''2136'' @ newline) [])"
    and "run_process env le os m gs (in_main os fs (sample_c fs2)) = Some (Exited 0 (''total = 14'' @ newline) [])"
  by ((intro main_reports main_exits stack_overflow stack_inbounds_then_oob memcpy_overflow threaded_overflow memcpy_valid
    aligned_valid sample p q f; (rule slot_at_start [OF _ _ p] slot_at_start [OF _ _ q])?; (assumption | simp))+)

lemma global_case:
  assumes "(g, 16, ext) \<in> set gs"
  shows "verdict ''global-buffer-overflow'' (run_process env le os m gs (in_main os fs (global_overflow_c g)))"
    and "verdict ''global-buffer-overflow'' (run_process env le os m gs (in_main os fs (extern_global_overflow_c g)))"
  by (rule main_reports, simp, rule global_overflow [OF _ assms], assumption, rule global_at_start [OF _ _ assms], assumption+, simp)+

lemma global_valid_case:
  assumes "gs = [(tot, 8, True), (data, 32, True)]" and "word_at m tot = (0 :: 64 word)"
  shows "run_process env le os m gs (in_main os fs (extern_global_valid_c tot data)) = Some (Exited 0 (''140'' @ newline) [])"
  by (rule main_exits, rule extern_global_valid [OF _ assms(1)], assumption, rule global_at_start, assumption+, simp add: assms(1), simp,
    rule global_at_start, assumption+) (simp_all add: assms)

end

context host_text
begin

lemma text_reports:
  assumes "k \<noteq> ''OK''" and t: "texts lits m" and p: "\<And>s sh. has_text R (ro, rn) lits sh [] s \<Longrightarrow> reportsR k (prog os s)"
  shows "verdict k (run_process env le os m gs (in_run os fs prog))"
  unfolding in_run_def
proof (rule run_reports [OF assms(1)])
  fix s sh assume s: "stands R sh [] s" "s = entered fs (with_globals gs (loaded m))" "sh = shadow_val s"
  from p [OF has_text_start [OF s t]] show "\<exists>o'. prog os s = Some o' \<and> reports k o'" by (simp add: reportsR_def)
qed

lemma text_exits:
  assumes t: "texts lits m" and p: "\<And>s sh. has_text R (ro, rn) lits sh [] s \<Longrightarrow> endsR R (prog os s)"
  shows "run_process env le os m gs (in_run os fs prog) = Some (Exited 0 [] [])"
  unfolding in_run_def
proof (rule run_exits)
  fix s sh assume s: "stands R sh [] s" "s = entered fs (with_globals gs (loaded m))" "sh = shadow_val s"
  from p [OF has_text_start [OF s t]] show "\<exists>o'. prog os s = Some o' \<and> ends R 0 [] (list_all freed) o'" by (simp add: endsR_def)
qed

lemma text_cases:
  assumes t: "texts lits m" and l: "{(hello, ''hello''), (ab, ''ab''), (cde, ''cde''), (hi, ''hi''), (there, ''there''), (abc, ''abc''),
      (xy, ''xy''), (lm, ''lm''), (no, ''no'')} \<subseteq> set lits"
    and f: "prints lits fh ''hello''" "prints lits f1 ''ab-7''" "prints lits f2 ''12345''"
  shows "verdict ''heap-buffer-overflow'' (run_process env le os m gs (in_run os fs (strcpy_overflow_c hello)))"
    and "verdict ''heap-buffer-overflow'' (run_process env le os m gs (in_run os fs (strcat_overflow_c ab cde)))"
    and "verdict ''heap-buffer-overflow'' (run_process env le os m gs (in_run os fs (strncpy_overflow_c x)))"
    and "verdict ''heap-buffer-overflow'' (run_process env le os m gs (in_run os fs (strlcpy_overflow_c hello)))"
    and "verdict ''heap-buffer-overflow'' (run_process env le os m gs (in_run os fs (sprintf_overflow_c fh)))"
    and "verdict ''heap-buffer-overflow'' (run_process env le os m gs (in_run os fs (snprintf_overflow_c fh)))"
    and "run_process env le os m gs (in_run os fs (str_valid_c hi there abc xy lm no)) = Some (Exited 0 [] [])"
    and "run_process env le os m gs (in_run os fs (printf_valid_c f1 f2)) = Some (Exited 0 [] [])"
  by ((intro text_reports text_exits strcpy_overflow strcat_overflow strncpy_overflow strlcpy_overflow sprintf_overflow
    str_valid printf_valid t f; (assumption | use l in simp))+)

end

section \<open>A host\<close>

text \<open>Two variables on the frame and a callee's one, the globals of the three programs, and a page of literals.\<close>

definition demo_frame :: "(u64 \<times> u64) list" where
  "demo_frame = [(4096, 16), (8192, 8)]"

definition callee_frame :: "(u64 \<times> u64) list" where
  "callee_frame = [(12288, 16)]"

definition demo_regions :: "(u64 \<times> u64) list" where
  "demo_regions = [(4096, 48), (8192, 40), (12288, 48), (16384, 48), (20480, 32), (20480, 24), (24576, 48), (28672, 4096)]"

definition demo_lits :: "(u64 \<times> string) list" where
  "demo_lits = [(28672, ''hello''), (28680, ''ab''), (28688, ''cde''), (28696, ''hi''), (28704, ''there''), (28712, ''abc''),
     (28720, ''xy''), (28728, ''lm''), (28736, ''no'')]"

text \<open>Eight bytes for each literal.\<close>

definition demo_image :: memory where
  "demo_image x =
     (let i = unat (x - 28672); t = map snd demo_lits in
      if i div 8 < length t \<and> i mod 8 < length (t ! (i div 8)) then of_char (t ! (i div 8) ! (i mod 8)) else 0)"

text \<open>No suppressions.\<close>

definition bare_leak_env :: leak_env where
  "bare_leak_env = demo_leak_env\<lparr>supp_file := None\<rparr>"

definition demo_format :: "string \<Rightarrow> fmt_call" where
  "demo_format t = \<lparr>expansion = (\<lambda>_. Some (chars t)), vs_limit = (\<lambda>_. True)\<rparr>"

lemma demo_os: "allocator demo_regions (first_fit demo_regions)" "roomy (first_fit demo_regions)"
  by (rule first_fit_allocator, rule first_fit_roomy) (auto simp: demo_regions_def)

lemma demo_layout:
  "layout_ok demo_regions [] demo_frame" "layout_ok demo_regions [(16400, 16, False)] demo_frame"
  "layout_ok demo_regions [(20480, 16, True)] demo_frame"
  "layout_ok demo_regions [(20480, 8, True), (24576, 32, True)] demo_frame"
  by (simp_all add: layout_ok_def regions_ok_def frame_in_def slot_ok_def global_ok_def demo_regions_def demo_frame_def)

lemma demo_callee: "frame_in demo_regions callee_frame"
  by (simp add: frame_in_def slot_ok_def callee_frame_def demo_regions_def)

lemma demo_literals: "literals_ok demo_regions [] demo_frame (28672, 4096) demo_lits"
  by (simp add: literals_ok_def demo_regions_def demo_frame_def demo_lits_def)

lemma demo_plain: "plain_env plain_report_env bare_leak_env"
  by (simp add: plain_env_def plain_report_env_def bare_leak_env_def rz_format_def rz_color_on_def)

lemma string_at_Nil: "string_at m p [] \<longleftrightarrow> m p = 0"
  by (simp add: string_at_def chars_def)

lemma demo_texts: "texts demo_lits demo_image"
  by (simp add: texts_def demo_lits_def string_at_Cons string_at_Nil demo_image_def Let_def)

lemma demo_prints: "prints lits (demo_format t) t"
  by (simp add: prints_def demo_format_def)

interpretation dh: host "first_fit demo_regions" demo_regions "[]" demo_frame plain_report_env bare_leak_env
  by unfold_locales (rule demo_os demo_layout demo_plain)+

interpretation dt: host_text "first_fit demo_regions" demo_regions "[]" demo_frame plain_report_env bare_leak_env 28672 4096 demo_lits
  by unfold_locales (rule demo_literals)

section \<open>The properties\<close>

text \<open>C31. Every example with a heap bug, the demonstrations of the integrations among them, is stopped with the report its test wants: from the start of the process the
  run ends, never with a clean exit, and stderr has the header of the named error. Programs that only forget to free
  run to their end and fail with the leak report. This holds for every allocator that keeps the contract of
  \<^verbatim>\<open>malloc\<close>, every frame layout and every initial memory.\<close>

theorem heap_bugs_reported:
  assumes "allocator R os" and "roomy os" and "layout_ok R [] fs" and "plain_env env le"
  shows "list_all (\<lambda>(prog, kd). verdict kd (run_process env le os m [] (in_main os fs prog))) error_cases
    \<and> list_all (\<lambda>prog. verdict ''memory-leak'' (run_process env le os m [] (in_main os fs prog))) leak_cases"
  using host.error_cases [OF host.intro [OF assms]] host.leak_cases [OF host.intro [OF assms]] by blast

theorem heap_bugs_reported_witness:
  "verdict ''use-after-free'' (run_process plain_report_env bare_leak_env (first_fit demo_regions) (\<lambda>_. 0) []
     (in_main (first_fit demo_regions) demo_frame use_after_free_c))"
  using heap_bugs_reported [OF demo_os demo_layout(1) demo_plain, of "\<lambda>_. 0"] by (simp add: error_cases_def)

text \<open>C32. The clean heap examples run to their end on every such host: status 0, exactly the sums their authors computed
  on stdout, and nothing on stderr; no check reports, no allocation fails and no block is left over.\<close>

theorem clean_programs_exit:
  assumes "allocator R os" and "roomy os" and "layout_ok R [] fs" and "plain_env env le"
  shows "list_all (\<lambda>(prog, out). run_process env le os m [] (in_main os fs prog) = Some (Exited 0 out [])) clean_cases"
  using host.clean_cases [OF host.intro [OF assms]] .

theorem clean_programs_exit_witness:
  "run_process plain_report_env bare_leak_env (first_fit demo_regions) (\<lambda>_. 0) []
     (in_main (first_fit demo_regions) demo_frame big_valid_c) = Some (Exited 0 (''sum = 499500'' @ newline) [])"
  using clean_programs_exit [OF demo_os demo_layout(1) demo_plain, of "\<lambda>_. 0"] by (simp add: clean_cases_def)

text \<open>C33. Programs that use their frame: an array overrun is reported as a stack error, also next to stores whose checks
  the pass left out; a \<^verbatim>\<open>memcpy\<close> from the frame past a heap block and an overflow in a thread are reported; the valid
  copies, the aligned allocations and the call of another function end cleanly with the right output.\<close>

theorem frame_programs:
  assumes "allocator R os" and "roomy os" and "layout_ok R [] fs" and "plain_env env le"
    and "(a, 16) \<in> set fs" and "(q, 8) \<in> set fs" and "frame_in R fs2"
  shows "verdict ''stack-buffer-overflow'' (run_process env le os m [] (in_main os fs (stack_overflow_c (a + 16))))
    \<and> verdict ''stack-buffer-overflow'' (run_process env le os m [] (in_main os fs (stack_inbounds_then_oob_c (a + 16))))
    \<and> verdict ''heap-buffer-overflow'' (run_process env le os m [] (in_main os fs (memcpy_overflow_c (a + 16))))
    \<and> verdict ''heap-buffer-overflow'' (run_process env le os m [] (in_main os fs (threaded_overflow_c 0 fs2)))
    \<and> run_process env le os m [] (in_main os fs (memcpy_valid_c (a + 16))) = Some (Exited 0 [] [])
    \<and> run_process env le os m [] (in_main os fs (aligned_valid_c (q + 16))) = Some (Exited 0 (''2136'' @ newline) [])
    \<and> run_process env le os m [] (in_main os fs (sample_c fs2)) = Some (Exited 0 (''total = 14'' @ newline) [])"
  using host.frame_cases [OF host.intro [OF assms(1-4)] assms(5-7)] by blast

theorem frame_programs_witness:
  "verdict ''stack-buffer-overflow'' (run_process plain_report_env bare_leak_env (first_fit demo_regions) (\<lambda>_. 0) []
     (in_main (first_fit demo_regions) demo_frame (stack_overflow_c 4112)))"
  using frame_programs [OF demo_os demo_layout(1) demo_plain _ _ demo_callee, of 4096 8192 "\<lambda>_. 0"] by (simp add: demo_frame_def)

text \<open>C34. Programs with globals: going past the array is reported as a global error, for an internal array with red
  zones on both sides and for an external one with a trailing zone only; the valid program over two external globals
  prints the sum of the squares.\<close>

theorem global_programs:
  assumes "allocator R os" and "roomy os" and "plain_env env le"
    and "layout_ok R [(g, 16, False)] fs" and "layout_ok R [(h, 16, True)] fs"
    and "layout_ok R [(tot, 8, True), (data, 32, True)] fs" and "word_at m tot = (0 :: 64 word)"
  shows "verdict ''global-buffer-overflow'' (run_process env le os m [(g, 16, False)] (in_main os fs (global_overflow_c g)))
    \<and> verdict ''global-buffer-overflow'' (run_process env le os m [(h, 16, True)] (in_main os fs (extern_global_overflow_c h)))
    \<and> run_process env le os m [(tot, 8, True), (data, 32, True)] (in_main os fs (extern_global_valid_c tot data))
      = Some (Exited 0 (''140'' @ newline) [])"
  using host.global_case(1) [OF host.intro [OF assms(1,2,4,3)], of g False] host.global_case(2) [OF host.intro [OF assms(1,2,5,3)], of h True]
    host.global_valid_case [OF host.intro [OF assms(1,2,6,3)] refl assms(7)] by simp

theorem global_programs_witness:
  "verdict ''global-buffer-overflow'' (run_process plain_report_env bare_leak_env (first_fit demo_regions) (\<lambda>_. 0) [(16400, 16, False)]
     (in_main (first_fit demo_regions) demo_frame (global_overflow_c 16400)))"
proof -
  have "word_at (\<lambda>_. 0) 20480 = (0 :: 64 word)" by code_simp
  from global_programs [OF demo_os demo_plain demo_layout(2-4) this] show ?thesis by blast
qed

text \<open>C35. Programs over the string functions: every overflowing copy, append and format into a heap buffer is reported
  before it writes, however the function bounds it; the valid sequences of copies, appends and formats, whose lengths
  the wrappers measure from what the earlier calls wrote, run to a clean end. Every call returns. The literals are
  where the linker put them, and the formats expand as C promises.\<close>

theorem string_programs:
  assumes "allocator R os" and "roomy os" and "layout_ok R [] fs" and "plain_env env le"
    and "literals_ok R [] fs r lits" and "texts lits m"
    and "{(hello, ''hello''), (ab, ''ab''), (cde, ''cde''), (hi, ''hi''), (there, ''there''), (abc, ''abc''),
      (xy, ''xy''), (lm, ''lm''), (no, ''no'')} \<subseteq> set lits"
    and "prints lits fh ''hello''" and "prints lits f1 ''ab-7''" and "prints lits f2 ''12345''"
  shows "verdict ''heap-buffer-overflow'' (run_process env le os m [] (in_run os fs (strcpy_overflow_c hello)))
    \<and> verdict ''heap-buffer-overflow'' (run_process env le os m [] (in_run os fs (strcat_overflow_c ab cde)))
    \<and> verdict ''heap-buffer-overflow'' (run_process env le os m [] (in_run os fs (strncpy_overflow_c x)))
    \<and> verdict ''heap-buffer-overflow'' (run_process env le os m [] (in_run os fs (strlcpy_overflow_c hello)))
    \<and> verdict ''heap-buffer-overflow'' (run_process env le os m [] (in_run os fs (sprintf_overflow_c fh)))
    \<and> verdict ''heap-buffer-overflow'' (run_process env le os m [] (in_run os fs (snprintf_overflow_c fh)))
    \<and> run_process env le os m [] (in_run os fs (str_valid_c hi there abc xy lm no)) = Some (Exited 0 [] [])
    \<and> run_process env le os m [] (in_run os fs (printf_valid_c f1 f2)) = Some (Exited 0 [] [])"
proof -
  obtain ro rn where r: "r = (ro, rn)" by (cases r)
  have "host_text os R [] fs env le ro rn lits"
    by (intro host_text.intro host.intro host_text_axioms.intro assms(1-5) assms(5) [unfolded r])
  from host_text.text_cases [OF this assms(6-10)] show ?thesis by blast
qed

theorem string_programs_witness:
  "run_process plain_report_env bare_leak_env (first_fit demo_regions) demo_image []
     (in_run (first_fit demo_regions) demo_frame (str_valid_c 28696 28704 28712 28720 28728 28736)) = Some (Exited 0 [] [])"
proof -
  have l: "{(28672, ''hello''), (28680, ''ab''), (28688, ''cde''), (28696, ''hi''), (28704, ''there''), (28712, ''abc''),
      (28720, ''xy''), (28728, ''lm''), (28736, ''no'')} \<subseteq> set demo_lits" by (simp add: demo_lits_def)
  show ?thesis
    using string_programs [OF demo_os demo_layout(1) demo_plain demo_literals demo_texts l demo_prints demo_prints demo_prints] by blast
qed

end
