(* ===== verification/Mem_Bench.thy ===== *)
theory Mem_Bench
  imports Mem_Cases
begin

text \<open>
  The benchmarks under \<^verbatim>\<open>bench\<close> in memory mode: data-dependent
  loads whose indices the checker cannot know, many allocations, and a long computation. The number of rounds comes
  from the command line; \<open>atoi\<close> is a parameter.
\<close>

section \<open>The programs\<close>

text \<open>\<open>argc > 1 ? atoi(argv[1]) : d\<close>.\<close>

definition iters_arg :: "os \<Rightarrow> (memory \<Rightarrow> u64 \<Rightarrow> int) \<Rightarrow> int \<Rightarrow> u64 \<Rightarrow> int \<Rightarrow> cstr \<Rightarrow> int \<Rightarrow> rt \<Rightarrow> (int \<times> rt) outcome" where
  "iters_arg os atoi argc argv d f l s =
     (if 1 < argc then bindO (load_at os (idx argv 8 1) f l s) (\<lambda>(p, s). Done (atoi (mem s) p, s)) else Done (d, s))"

text \<open>\<open>sum += a[a[i]]\<close>.\<close>

definition gather_at :: "os \<Rightarrow> u64 \<Rightarrow> cstr \<Rightarrow> int \<Rightarrow> nat \<Rightarrow> 64 word \<times> rt \<Rightarrow> (64 word \<times> rt) outcome" where
  "gather_at os a f l i = (\<lambda>(tot, s).
     bindO (load_at os (idx a 4 i) f l s) (\<lambda>(v :: 32 word, s).
     bindO (load_at os (a + 4 * scast v) f l s) (\<lambda>(w :: 32 word, s).
     Done (tot + scast w, s))))"

text \<open>The rounds of the two benchmarks that allocate in each: \<open>k\<close> rounds from round \<open>it\<close> on, on an array of \<open>n\<close>
  elements filled with \<open>g it\<close>; no sum when an allocation fails, which ends \<^verbatim>\<open>main\<close>. \<open>l\<close> is the line of the allocation.\<close>

fun bench_rounds ::
  "os \<Rightarrow> cstr \<Rightarrow> int \<Rightarrow> nat \<Rightarrow> (nat \<Rightarrow> nat \<Rightarrow> 32 word) \<Rightarrow> nat \<Rightarrow> nat \<Rightarrow> 64 word \<Rightarrow> rt \<Rightarrow> (64 word option \<times> rt) outcome" where
  "bench_rounds os f l n g it 0 tot s = Done (Some tot, s)"
| "bench_rounds os f l n g it (Suc k) tot s =
     bindO (redzone_malloc (os s) (of_nat n * 4) f l s) (\<lambda>(a, s).
     if a = 0 then Done (None, s) else
     bindO (fill_array os a n (g it) f (l + 5) s) (\<lambda>s.
     bindO (for_up 0 n (gather_at os a f (l + 8)) (tot, s)) (\<lambda>(tot, s).
     bindO (redzone_free (os s) a s) (\<lambda>s.
     bench_rounds os f l n g (Suc it) k tot s))))"

definition gather_elem :: "nat \<Rightarrow> nat \<Rightarrow> 32 word" where
  "gather_elem it i = (of_nat i * 1103515245 + of_nat it) mod 2000"

definition churn_elem :: "nat \<Rightarrow> nat \<Rightarrow> 32 word" where
  "churn_elem it i = (of_nat i * 2654435761 + of_nat it) mod 16"

definition gather_c :: "(memory \<Rightarrow> u64 \<Rightarrow> int) \<Rightarrow> int \<Rightarrow> u64 \<Rightarrow> u64 \<Rightarrow> os \<Rightarrow> rt \<Rightarrow> main_end" where
  "gather_c atoi argc argv sink os s =
     bindO (iters_arg os atoi argc argv 4000 (Some ''gather.c'') 19 s) (\<lambda>(iters, s).
     bindO (bench_rounds os (Some ''gather.c'') 24 2000 gather_elem 0 (nat iters) 0 s) (\<lambda>(r, s).
     case r of None \<Rightarrow> Done (1, [], s) | Some tot \<Rightarrow>
     bindO (store_at os sink tot (Some ''gather.c'') 36 s) (\<lambda>s.
     Done (0, show_int (sint (word_at (mem s) sink :: 64 word)) @ newline, s))))"

definition alloc_churn_c :: "(memory \<Rightarrow> u64 \<Rightarrow> int) \<Rightarrow> int \<Rightarrow> u64 \<Rightarrow> u64 \<Rightarrow> os \<Rightarrow> rt \<Rightarrow> main_end" where
  "alloc_churn_c atoi argc argv sink os s =
     bindO (iters_arg os atoi argc argv 200000 (Some ''alloc_churn.c'') 15 s) (\<lambda>(iters, s).
     bindO (bench_rounds os (Some ''alloc_churn.c'') 21 16 churn_elem 0 (nat iters) 0 s) (\<lambda>(r, s).
     case r of None \<Rightarrow> Done (1, [], s) | Some tot \<Rightarrow>
     bindO (store_at os sink tot (Some ''alloc_churn.c'') 33 s) (\<lambda>s.
     Done (0, show_int (sint (word_at (mem s) sink :: 64 word)) @ newline, s))))"

text \<open>The mixing in registers, and one round of \<^verbatim>\<open>compute.c\<close> with its two loads.\<close>

definition mix :: "nat \<Rightarrow> nat \<Rightarrow> 64 word \<Rightarrow> 64 word" where
  "mix it j acc =
     (let acc = xor acc (scast (of_nat j + of_nat it :: 32 word));
          acc = acc * 1099511628211;
          acc = xor acc (drop_bit 23 acc) in
      acc + push_bit 7 acc)"

definition mixed :: "nat \<Rightarrow> 64 word \<Rightarrow> 64 word" where
  "mixed it acc = fold (mix it) [0..<20000] acc"

definition compute_round :: "os \<Rightarrow> u64 \<Rightarrow> nat \<Rightarrow> 64 word \<times> rt \<Rightarrow> (64 word \<times> rt) outcome" where
  "compute_round os a it = (\<lambda>(acc, s).
     (let acc = mixed it acc; i = scast (ucast (acc mod 64) :: 32 word) :: 64 word in
      bindO (load_at os (a + 4 * i) (Some ''compute.c'') 38 s) (\<lambda>(v :: 32 word, s).
      bindO (load_at os (a + 4 * ucast (v mod 64)) (Some ''compute.c'') 38 s) (\<lambda>(w :: 32 word, s).
      Done (acc + ucast w, s)))))"

definition compute_elem :: "nat \<Rightarrow> 32 word" where
  "compute_elem i = of_nat i * 2246822519 + 1"

definition compute_c :: "(memory \<Rightarrow> u64 \<Rightarrow> int) \<Rightarrow> int \<Rightarrow> u64 \<Rightarrow> u64 \<Rightarrow> os \<Rightarrow> rt \<Rightarrow> main_end" where
  "compute_c atoi argc argv sink os s =
     bindO (iters_arg os atoi argc argv 4000 (Some ''compute.c'') 15 s) (\<lambda>(iters, s).
     bindO (redzone_malloc (os s) 256 (Some ''compute.c'') 20 s) (\<lambda>(a, s).
     if a = 0 then Done (1, [], s) else
     bindO (fill_array os a 64 compute_elem (Some ''compute.c'') 24 s) (\<lambda>s.
     bindO (for_up 0 (nat iters) (compute_round os a) (1469598103934665603, s)) (\<lambda>(acc, s).
     bindO (store_at os sink acc (Some ''compute.c'') 41 s) (\<lambda>s.
     let out = show_int (sint (word_at (mem s) sink :: 64 word)) @ newline in
     bindO (redzone_free (os s) a s) (\<lambda>s.
     Done (0, out, s)))))))"

section \<open>What they compute\<close>

text \<open>The same without memory.\<close>

definition gather_sum :: "nat \<Rightarrow> (nat \<Rightarrow> nat \<Rightarrow> 32 word) \<Rightarrow> nat \<Rightarrow> 64 word \<Rightarrow> 64 word" where
  "gather_sum n g it = fold (\<lambda>i tot. tot + scast (g it (unat (g it i)))) [0..<n]"

definition compute_acc :: "nat \<Rightarrow> 64 word" where
  "compute_acc n = fold (\<lambda>it acc. let acc = mixed it acc in
     acc + ucast (compute_elem (unat (compute_elem (unat (acc mod 64)) mod 64)))) [0..<n] 1469598103934665603"

lemma small_scast: "unat (v :: 32 word) < 2147483648 \<Longrightarrow> (scast v :: 64 word) = of_nat (unat v)"
proof -
  assume "unat v < 2147483648"
  then have "uint v < 2147483648" by (metis int_nat_eq nat_uint_eq of_nat_less_iff of_nat_numeral uint_ge_0)
  then have "sint v = int (unat v)" using order.trans [OF _ uint_ge_0 [of v], of "- 2147483648"] by (simp add: sint_uint signed_take_bit_int_eq_self_iff)
  then show ?thesis by (simp add: scast_eq)
qed

lemma idx_word: "idx a 4 k = a + 4 * of_nat k"
  by (simp add: idx_def)

lemma holds_load:
  fixes g :: "nat \<Rightarrow> 'a::len word"
  assumes st: "stands R sh bs s" and R: "regions_ok R" and u: "usable_array R sh bs p (LENGTH('a) div 8) n"
    and h: "holds (mem s) p n g" and i: "i < n"
  shows "load_at os (idx p (LENGTH('a) div 8) i) f l s = Done (g i, s)"
  using usable_load [OF st R, where 'a = 'a, of "idx p (LENGTH('a) div 8) i" os f l] u h i by (simp add: usable_array_def holds_def)

lemma gather_good:
  assumes st: "stands R sh bs s" and R: "regions_ok R" and u: "usable_array R sh bs a 4 n"
    and h: "holds (mem s) a n (g it)" and n: "n \<le> 2000" and g: "\<And>i. i < n \<Longrightarrow> unat (g it i) < n"
  shows "for_up 0 n (gather_at os a f l) (tot, s) = Done (gather_sum n g it tot, s)"
proof -
  have ld: "load_at os (idx a 4 i) f l s = Done (g it i, s)" if "i < n" for i
    using holds_load [OF st R _ h that, of os f l] u by simp
  have "\<exists>s'. for_up 0 n (gather_at os a f l) (tot, s) = Done (fold (\<lambda>i tot. tot + scast (g it (unat (g it i)))) [0..<0 + n] tot, s') \<and> s' = s"
  proof (rule for_up_rule [where I = "\<lambda>s'. s' = s"])
    fix i tot s' assume i: "i < 0 + n" and s': "s' = s"
    have i': "i < n" using i by simp
    have "a + 4 * scast (g it i) = idx a 4 (unat (g it i))"
      using small_scast [of "g it i"] g [OF i'] n by (simp add: idx_word)
    then show "\<exists>s''. gather_at os a f l i (tot, s') = Done (tot + scast (g it (unat (g it i))), s'') \<and> s'' = s"
      using ld [OF i'] ld [OF g [OF i']] by (simp add: gather_at_def s')
  qed simp
  then show ?thesis by (simp add: gather_sum_def)
qed

lemma gather_elem_less: "i < 2000 \<Longrightarrow> unat (gather_elem it i) < 2000"
  by (simp add: gather_elem_def unat_mod_distrib)

lemma churn_elem_less: "i < 16 \<Longrightarrow> unat (churn_elem it i) < 16"
  by (simp add: churn_elem_def unat_mod_distrib)

lemma compute_good:
  assumes st: "stands R sh bs s" and R: "regions_ok R" and u: "usable_array R sh bs a 4 64"
    and h: "holds (mem s) a 64 compute_elem"
  shows "for_up 0 n (compute_round os a) (1469598103934665603, s) = Done (compute_acc n, s)"
proof -
  have ld: "load_at os (idx a 4 i) f l s = Done (compute_elem i, s)" if "i < 64" for i f l
    using holds_load [OF st R _ h that, of os f l] u by simp
  let ?h = "\<lambda>it acc. let acc = mixed it acc in acc + ucast (compute_elem (unat (compute_elem (unat (acc mod 64)) mod 64)))"
  have "\<exists>s'. for_up 0 n (compute_round os a) (1469598103934665603, s) = Done (fold ?h [0..<0 + n] 1469598103934665603, s') \<and> s' = s"
  proof (rule for_up_rule [where I = "\<lambda>s'. s' = s"])
    fix it acc s' assume s': "s' = s"
    let ?acc = "mixed it acc"
    let ?i = "unat (?acc mod 64)"
    have i: "?i < 64" by (simp add: unat_mod_distrib)
    have "unat (ucast (?acc mod 64) :: 32 word) = ?i" using i by (simp add: unsigned_ucast_eq take_bit_nat_eq_self)
    then have a1: "a + 4 * scast (ucast (?acc mod 64) :: 32 word) = idx a 4 ?i"
      using small_scast [of "ucast (?acc mod 64)"] i by (simp add: idx_word)
    let ?v = "compute_elem ?i"
    have j: "unat (?v mod 64) < 64" by (simp add: unat_mod_distrib)
    have a2: "a + 4 * ucast (?v mod 64) = idx a 4 (unat (?v mod 64))" by (simp only: idx_word) simp
    show "\<exists>s''. compute_round os a it (acc, s') = Done (?h it acc, s'') \<and> s'' = s"
      unfolding compute_round_def prod.case Let_def a1 s' by (simp add: ld [OF i] a2 ld [OF j])
  qed simp
  then show ?thesis by (simp add: compute_acc_def)
qed

context host
begin

lemma rounds_good:
  assumes n: "n \<le> 2000" and g: "\<And>it i. i < n \<Longrightarrow> unat (g it i) < n"
  shows "stands R sh bs s \<Longrightarrow> length bs + k \<le> 1000000 \<Longrightarrow> list_all freed bs \<Longrightarrow>
    \<exists>s' bs'. bench_rounds os f l n g it k tot s = Done (Some (fold (gather_sum n g) [it..<it + k] tot), s')
      \<and> stands R sh bs' s' \<and> list_all freed bs'"
proof (induction k arbitrary: it tot bs s)
  case (Suc k)
  let ?P = "\<lambda>o'. \<exists>s' bs'. o' = Done (Some (fold (gather_sum n g) [it..<it + Suc k] tot), s') \<and> stands R sh bs' s' \<and> list_all freed bs'"
  have "unat (of_nat (n * 4) :: u64) = n * 4" by (rule unat_nat64) (use n in simp)
  then have sz: "unat (of_nat n * 4 :: u64) = n * 4" by simp
  show ?case
    unfolding bench_rounds.simps
  proof (rule malloc_step [where P = ?P, OF Suc.prems(1)])
    fix b s1 assume b: "stands R sh (bs @ [b]) s1" "user_size b = of_nat n * 4" "\<not> freed b" "user_addr b \<noteq> 0"
    have j: "length bs < length (bs @ [b])" "\<not> freed ((bs @ [b]) ! length bs)" "user_addr b = user_addr ((bs @ [b]) ! length bs)"
      "n * (LENGTH(32) div 8) \<le> unat (user_size ((bs @ [b]) ! length bs))" using b(2,3) sz by simp_all
    have "?P (bindO (fill_array os (user_addr b) n (g it) f (l + 5) s1) (\<lambda>s.
       bindO (for_up 0 n (gather_at os (user_addr b) f (l + 8)) (tot, s)) (\<lambda>(tot, s).
       bindO (redzone_free (os s) (user_addr b) s) (\<lambda>s. bench_rounds os f l n g (Suc it) k tot s))))"
    proof (rule fill_step [where P = ?P, OF b(1) j(1-3) _ j(4)])
      fix m assume m: "stands R sh (bs @ [b]) (s1\<lparr>mem := m\<rparr>)" "holds m (user_addr b) n (g it)"
      have u: "usable_array R sh (bs @ [b]) (user_addr b) 4 n" using block_usable [OF m(1) j(1,2), of n 4] j(4) by simp
      have gg: "for_up 0 n (gather_at os (user_addr b) f (l + 8)) (tot, s1\<lparr>mem := m\<rparr>) = Done (gather_sum n g it tot, s1\<lparr>mem := m\<rparr>)"
        by (rule gather_good [OF m(1) regions u _ n g]) (use m(2) in simp_all)
      have "?P (bindO (redzone_free (os (s1\<lparr>mem := m\<rparr>)) (user_addr b) (s1\<lparr>mem := m\<rparr>)) (\<lambda>s. bench_rounds os f l n g (Suc it) k (gather_sum n g it tot) s))"
      proof (rule free_step [where P = ?P, OF m(1) j(1-3)])
        fix s2 assume s2: "stands R sh ((bs @ [b])[length bs := ((bs @ [b]) ! length bs)\<lparr>freed := True\<rparr>]) s2"
        have "list_all freed ((bs @ [b])[length bs := ((bs @ [b]) ! length bs)\<lparr>freed := True\<rparr>])" using Suc.prems(3) by simp
        from Suc.IH [OF s2 _ this, of "Suc it" "gather_sum n g it tot"] Suc.prems(2)
        obtain s' bs' where "bench_rounds os f l n g (Suc it) k (gather_sum n g it tot) s2
            = Done (Some (fold (gather_sum n g) [Suc it..<Suc it + k] (gather_sum n g it tot)), s')"
          "stands R sh bs' s'" "list_all freed bs'" by auto
        moreover have "[it..<it + Suc k] = it # [Suc it..<Suc it + k]" by (simp add: upt_conv_Cons del: upt_Suc)
        ultimately show "?P (bench_rounds os f l n g (Suc it) k (gather_sum n g it tot) s2)" by (auto simp del: upt_Suc)
      qed
      then show "?P (bindO (for_up 0 n (gather_at os (user_addr b) f (l + 8)) (tot, s1\<lparr>mem := m\<rparr>)) (\<lambda>(tot, s).
         bindO (redzone_free (os s) (user_addr b) s) (\<lambda>s. bench_rounds os f l n g (Suc it) k tot s)))" by (simp add: gg)
    qed simp
    then show "?P (case (user_addr b, s1) of (a, s) \<Rightarrow> if a = 0 then Done (None, s) else
       bindO (fill_array os a n (g it) f (l + 5) s) (\<lambda>s.
       bindO (for_up 0 n (gather_at os a f (l + 8)) (tot, s)) (\<lambda>(tot, s).
       bindO (redzone_free (os s) a s) (\<lambda>s. bench_rounds os f l n g (Suc it) k tot s))))" using b(4) by simp
  qed (use sz n Suc.prems(2) in simp_all)
qed auto

end

section \<open>Their runs\<close>

text \<open>The rounds asked for, and what is printed after them.\<close>

definition rounds_asked :: "(memory \<Rightarrow> u64 \<Rightarrow> int) \<Rightarrow> int \<Rightarrow> u64 \<Rightarrow> int \<Rightarrow> memory \<Rightarrow> nat" where
  "rounds_asked atoi argc argv d m = nat (if 1 < argc then atoi m (word_at m (idx argv 8 1)) else d)"

definition printed_long :: "64 word \<Rightarrow> string" where
  "printed_long v = show_int (sint v) @ newline"

context host_text
begin

lemma arg_usable:
  assumes "has_text R (ro, rn) lits sh bs s" and "16 \<le> unat rn"
  shows "usable R sh bs (idx ro 8 1) 8"
proof -
  have "unat ro + 8 * 1 + 8 \<le> 140737488355328" using assms(2) ro_end by simp
  then have "unat (idx ro 8 1) = unat ro + 8" using idx_region [of ro 8 1] by simp
  then show ?thesis using assms(2) by (intro ro_usable [OF assms(1)]) simp_all
qed

lemma iters_step:
  assumes t: "has_text R (ro, rn) lits sh bs s" and n: "16 \<le> unat rn"
    and P: "\<And>i. nat i = rounds_asked atoi argc ro d (mem s) \<Longrightarrow> P (K (i, s))"
  shows "P (bindO (iters_arg os atoi argc ro d f l s) K)"
proof -
  have st: "stands R sh bs s" using t by (simp add: has_text_def)
  have "load_at os (idx ro 8 1) f l s = Done (word_at (mem s) (idx ro 8 1) :: 64 word, s)"
    using usable_load [OF st regions, where 'a = 64] arg_usable [OF t n] by simp
  then show ?thesis by (simp add: iters_arg_def P rounds_asked_def)
qed

lemma sink_usable: "(sink, 8, True) \<in> set gs \<Longrightarrow> global_guarded sh sink 8 \<Longrightarrow> usable R sh bs sink 8"
  using global_array [of sink 8 True sh 8 1 bs] by (simp add: usable_array_def idx_def)

lemma rounds_run:
  assumes t: "has_text R (ro, rn) lits sh [] s" "16 \<le> unat rn" and k: "(sink, 8, True) \<in> set gs" "global_guarded sh sink 8"
    and r: "rounds_asked atoi argc ro d (mem s) \<le> 1000000" and n: "n \<le> 2000" and g: "\<And>it i. i < n \<Longrightarrow> unat (g it i) < n"
  shows "ends R 0 (printed_long (fold (gather_sum n g) [0..<rounds_asked atoi argc ro d (mem s)] 0)) (list_all freed)
    (bindO (iters_arg os atoi argc ro d f l1 s) (\<lambda>(iters, s).
     bindO (bench_rounds os f l2 n g 0 (nat iters) 0 s) (\<lambda>(r, s).
     case r of None \<Rightarrow> Done (1, [], s) | Some tot \<Rightarrow>
     bindO (store_at os sink tot f l3 s) (\<lambda>s.
     Done (0, show_int (sint (word_at (mem s) sink :: 64 word)) @ newline, s)))))"
proof (rule iters_step [where P = "ends _ _ _ _", OF t])
  fix i assume i: "nat i = rounds_asked atoi argc ro d (mem s)"
  have st: "stands R sh [] s" using t(1) by (simp add: has_text_def)
  let ?v = "fold (gather_sum n g) [0..<rounds_asked atoi argc ro d (mem s)] 0"
  obtain s' bs' where s': "bench_rounds os f l2 n g 0 (nat i) 0 s = Done (Some ?v, s')" "stands R sh bs' s'" "list_all freed bs'"
    using rounds_good [where g = g and n = n and k = "nat i" and f = f and l = l2 and it = 0 and tot = 0, OF n g st] r i by auto
  show "ends R 0 (printed_long ?v) (list_all freed) (case (i, s) of (iters, s) \<Rightarrow>
     bindO (bench_rounds os f l2 n g 0 (nat iters) 0 s) (\<lambda>(r, s).
     case r of None \<Rightarrow> Done (1, [], s) | Some tot \<Rightarrow>
     bindO (store_at os sink tot f l3 s) (\<lambda>s.
     Done (0, show_int (sint (word_at (mem s) sink :: 64 word)) @ newline, s))))"
    unfolding prod.case s'(1) bindO.simps option.case
    by (rule region_store_step [where P = "ends _ _ _ _", OF s'(2) sink_usable [OF k]])
      (auto intro!: ends_Done2 s'(3) simp: set_mem_def printed_long_def)
qed

lemma gather_run:
  assumes "has_text R (ro, rn) lits sh [] s" and "16 \<le> unat rn" and "(sink, 8, True) \<in> set gs" and "global_guarded sh sink 8"
  shows "rounds_asked atoi argc ro 4000 (mem s) \<le> 1000000 \<Longrightarrow>
      ends R 0 (printed_long (fold (gather_sum 2000 gather_elem) [0..<rounds_asked atoi argc ro 4000 (mem s)] 0)) (list_all freed)
        (gather_c atoi argc ro sink os s)"
    and "rounds_asked atoi argc ro 200000 (mem s) \<le> 1000000 \<Longrightarrow>
      ends R 0 (printed_long (fold (gather_sum 16 churn_elem) [0..<rounds_asked atoi argc ro 200000 (mem s)] 0)) (list_all freed)
        (alloc_churn_c atoi argc ro sink os s)"
  unfolding gather_c_def alloc_churn_c_def
  by (rule rounds_run [OF assms], assumption, simp, erule gather_elem_less churn_elem_less)+

lemma compute_run:
  assumes t: "has_text R (ro, rn) lits sh [] s" "16 \<le> unat rn" and k: "(sink, 8, True) \<in> set gs" "global_guarded sh sink 8"
  shows "ends R 0 (printed_long (compute_acc (rounds_asked atoi argc ro 4000 (mem s)))) (list_all freed) (compute_c atoi argc ro sink os s)"
  unfolding compute_c_def
proof (rule iters_step [where P = "ends _ _ _ _", OF t])
  fix i assume i: "nat i = rounds_asked atoi argc ro 4000 (mem s)"
  have st: "stands R sh [] s" using t(1) by (simp add: has_text_def)
  let ?n = "rounds_asked atoi argc ro 4000 (mem s)" and ?P = "ends R 0 (printed_long (compute_acc (rounds_asked atoi argc ro 4000 (mem s)))) (list_all freed)"
  have tail: "?P (bindO (for_up 0 ?n (compute_round os (user_addr b)) (1469598103934665603, s2)) (\<lambda>(acc, s).
      bindO (store_at os sink acc (Some ''compute.c'') 41 s) (\<lambda>s.
      let out = show_int (sint (word_at (mem s) sink :: 64 word)) @ newline in
      bindO (redzone_free (os s) (user_addr b) s) (\<lambda>s. Done (0, out, s)))))"
    if s2: "stands R sh [b] s2" "user_size b = 256" "\<not> freed b" "holds (mem s2) (user_addr b) 64 compute_elem" for b s2
  proof -
    have u: "usable_array R sh [b] (user_addr b) 4 64" using block_usable [OF s2(1), of 0 64 4] s2(2,3) by simp
    show ?thesis
      unfolding compute_good [OF s2(1) regions u s2(4)] bindO.simps prod.case Let_def
    proof (rule region_store_step [where P = ?P, OF s2(1) sink_usable [OF k]])
      assume "stands R sh [b] (set_mem s2 (put_word sink (compute_acc ?n)))"
      then show "?P (bindO (redzone_free (os (set_mem s2 (put_word sink (compute_acc ?n)))) (user_addr b) (set_mem s2 (put_word sink (compute_acc ?n))))
        (\<lambda>s. Done (0, show_int (sint (word_at (mem (set_mem s2 (put_word sink (compute_acc ?n)))) sink :: 64 word)) @ newline, s)))"
        by (rule free_step [where P = ?P and i = 0])
          (use s2(3) in \<open>auto intro!: ends_Done2 simp: set_mem_def printed_long_def\<close>)
    qed simp_all
  qed
  show "?P (case (i, s) of (iters, s) \<Rightarrow>
     bindO (redzone_malloc (os s) 256 (Some ''compute.c'') 20 s) (\<lambda>(a, s).
     if a = 0 then Done (1, [], s) else
     bindO (fill_array os a 64 compute_elem (Some ''compute.c'') 24 s) (\<lambda>s.
     bindO (for_up 0 (nat iters) (compute_round os a) (1469598103934665603, s)) (\<lambda>(acc, s).
     bindO (store_at os sink acc (Some ''compute.c'') 41 s) (\<lambda>s.
     let out = show_int (sint (word_at (mem s) sink :: 64 word)) @ newline in
     bindO (redzone_free (os s) a s) (\<lambda>s.
     Done (0, out, s)))))))"
    unfolding prod.case i
  proof (rule malloc_step [where P = ?P, OF st])
    fix b s1 assume b: "stands R sh ([] @ [b]) s1" "user_size b = 256" "\<not> freed b" "user_addr b \<noteq> 0"
    have s1: "stands R sh [b] s1" using b(1) by simp
    show "?P (case (user_addr b, s1) of (a, s) \<Rightarrow> if a = 0 then Done (1, [], s) else
     bindO (fill_array os a 64 compute_elem (Some ''compute.c'') 24 s) (\<lambda>s.
     bindO (for_up 0 ?n (compute_round os a) (1469598103934665603, s)) (\<lambda>(acc, s).
     bindO (store_at os sink acc (Some ''compute.c'') 41 s) (\<lambda>s.
     let out = show_int (sint (word_at (mem s) sink :: 64 word)) @ newline in
     bindO (redzone_free (os s) a s) (\<lambda>s.
     Done (0, out, s))))))"
      unfolding prod.case if_not_P [OF b(4)]
      by (rule fill_step [where P = ?P and j = 0, OF s1]) (use b(2,3) tail [unfolded Let_def] in \<open>simp_all add: Let_def\<close>)
  qed simp_all
qed

end

section \<open>The property\<close>

text \<open>C36. The benchmarks report nothing and compute what they would without the checker: with at most a million rounds asked for
  on the command line, as with the number they go for by themselves, the two that allocate in every round end with status 0 and
  print the sum of the data-dependent gather, and the one that computes in registers does so for every number of rounds. No
  index loaded from memory leaves its array, and every block is freed.\<close>

theorem bench_programs:
  assumes "allocator R os" and "roomy os" and "plain_env env le"
    and "layout_ok R [(sink, 8, True)] fs" and "literals_ok R [(sink, 8, True)] fs (argv, an) []" and "16 \<le> unat an"
    and "1 < argc \<Longrightarrow> atoi m (word_at m (idx argv 8 1)) \<le> 1000000"
  shows "run_process env le os m [(sink, 8, True)] (in_main os fs (gather_c atoi argc argv sink))
      = Some (Exited 0 (printed_long (fold (gather_sum 2000 gather_elem) [0..<rounds_asked atoi argc argv 4000 m] 0)) [])
    \<and> run_process env le os m [(sink, 8, True)] (in_main os fs (alloc_churn_c atoi argc argv sink))
      = Some (Exited 0 (printed_long (fold (gather_sum 16 churn_elem) [0..<rounds_asked atoi argc argv 200000 m] 0)) [])
    \<and> run_process env le os m [(sink, 8, True)] (in_main os fs (compute_c atoi k argv sink))
      = Some (Exited 0 (printed_long (compute_acc (rounds_asked atoi k argv 4000 m))) [])"
proof -
  have h: "host os R [(sink, 8, True)] fs env le" by (rule host.intro [OF assms(1,2,4,3)])
  have ht: "host_text os R [(sink, 8, True)] fs env le argv an []" by (intro host_text.intro host_text_axioms.intro h assms(5))
  have r: "rounds_asked atoi argc argv 4000 m \<le> 1000000" "rounds_asked atoi argc argv 200000 m \<le> 1000000"
    using assms(7) by (auto simp: rounds_asked_def)
  have run: "ends R 0 (printed_long (fold (gather_sum 2000 gather_elem) [0..<rounds_asked atoi argc argv 4000 m] 0)) (list_all freed)
        (gather_c atoi argc argv sink os s)
      \<and> ends R 0 (printed_long (fold (gather_sum 16 churn_elem) [0..<rounds_asked atoi argc argv 200000 m] 0)) (list_all freed)
        (alloc_churn_c atoi argc argv sink os s)
      \<and> ends R 0 (printed_long (compute_acc (rounds_asked atoi k argv 4000 m))) (list_all freed) (compute_c atoi k argv sink os s)"
    if s: "stands R sh [] s" "s = entered fs (with_globals [(sink, 8, True)] (loaded m))" "sh = shadow_val s" for s sh
  proof -
    have k: "(sink, 8, True) \<in> set [(sink, 8, True)]" by simp
    have g: "global_guarded sh sink 8" by (rule host.global_at_start [OF h s(2,3) k]) simp
    have t: "has_text R (argv, an) [] sh [] s" by (rule host_text.has_text_start [OF ht s]) (simp add: texts_def)
    have m: "mem s = m" using s(2) by simp
    show ?thesis
      using host_text.gather_run [OF ht t assms(6) k g, of atoi argc, unfolded m] r
        host_text.compute_run [OF ht t assms(6) k g, of atoi k, unfolded m] by blast
  qed
  then show ?thesis by (intro conjI host.main_exits [OF h]) blast+
qed

theorem bench_programs_witness:
  "run_process plain_report_env bare_leak_env (first_fit demo_regions) (\<lambda>_. 0) [(20480, 8, True)]
     (in_main (first_fit demo_regions) demo_frame (gather_c (\<lambda>_ _. 0) 1 28672 20480))
   = Some (Exited 0 (printed_long (fold (gather_sum 2000 gather_elem) [0..<rounds_asked (\<lambda>_ _. 0) 1 28672 4000 (\<lambda>_. 0)] 0)) [])"
proof -
  have l: "layout_ok demo_regions [(20480, 8, True)] demo_frame" "literals_ok demo_regions [(20480, 8, True)] demo_frame (28672, 4096) []"
    by (simp_all add: layout_ok_def literals_ok_def regions_ok_def frame_in_def slot_ok_def global_ok_def demo_regions_def demo_frame_def)
  have "16 \<le> unat (4096 :: u64)" by simp
  from bench_programs [OF demo_os demo_plain l this, of 1 "\<lambda>_ _. 0" "\<lambda>_. 0"] show ?thesis by simp
qed

end
