(* ===== verification/Mem_Threads.thy ===== *)
theory Mem_Threads
  imports Mem_Bench
begin

text \<open>
  \<^verbatim>\<open>threaded_valid.c\<close>: eight threads that allocate, fill, add up and free blocks at the same time, in any order of
  their calls, while the first thread creates and joins them. A run follows a schedule. No schedule makes the checker report, every
  fair one ends, and the sum printed is the one that the threads compute one after the other.
\<close>

section \<open>The program\<close>

text \<open>Where a worker is in its round \<open>it\<close>, with \<open>acc\<close> so far and its block at \<open>a\<close>.\<close>

datatype pc =
    Entering
  | Allocating nat "64 word"
  | Filling nat "64 word" u64 nat
  | Adding nat "64 word" u64 nat
  | Releasing nat "64 word" u64
  | Leaving "64 word"
  | Ended "64 word"

text \<open>\<open>n = 4 + ((seed + it) & 7)\<close>, and \<open>a[i] = i + it\<close>.\<close>

definition elems :: "nat \<Rightarrow> nat \<Rightarrow> nat" where
  "elems seed it = 4 + unat ((of_nat seed + of_nat it :: 32 word) AND 7)"

definition elem_val :: "nat \<Rightarrow> nat \<Rightarrow> 32 word" where
  "elem_val it i = of_nat i + of_nat it"

abbreviation "tv \<equiv> Some ''threaded_valid.c''"

fun worker_step :: "os \<Rightarrow> (u64 \<times> u64) list \<Rightarrow> nat \<Rightarrow> pc \<Rightarrow> rt \<Rightarrow> (pc \<times> rt) outcome" where
  "worker_step os fs t Entering s = bindO (enter_slots os fs s) (\<lambda>s. Done (Allocating 0 0, s))"
| "worker_step os fs t (Allocating it acc) s =
     (if it < 10000
      then bindO (redzone_malloc (os s) (of_nat (elems t it) * 4) tv 19 s) (\<lambda>(a, s).
        if a = 0 then Done (Leaving 1, s) else Done (Filling it acc a 0, s))
      else Done (Leaving acc, s))"
| "worker_step os fs t (Filling it acc a i) s =
     (if i < elems t it
      then bindO (store_at os (idx a 4 i) (elem_val it i) tv 23 s) (\<lambda>s. Done (Filling it acc a (Suc i), s))
      else Done (Adding it acc a 0, s))"
| "worker_step os fs t (Adding it acc a i) s =
     (if i < elems t it
      then bindO (load_at os (idx a 4 i) tv 25 s) (\<lambda>(v :: 32 word, s). Done (Adding it (acc + scast v) a (Suc i), s))
      else Done (Releasing it acc a, s))"
| "worker_step os fs t (Releasing it acc a) s = bindO (redzone_free (os s) a s) (\<lambda>s. Done (Allocating (Suc it) acc, s))"
| "worker_step os fs t (Leaving r) s = bindO (leave_slots os fs s) (\<lambda>s. Done (Ended r, s))"
| "worker_step os fs t (Ended r) s = Done (Ended r, s)"

datatype main_pc = Creating nat | Joining nat "64 word" | Returned int string

record conf =
  pcs :: "nat \<Rightarrow> pc"
  mpc :: main_pc
  rts :: rt

text \<open>
  The first thread: \<open>th\<close> is the array of handles, \<open>rv\<close> the result of a join, \<open>rc k\<close> and \<open>hdl k\<close> what \<^verbatim>\<open>pthread_create\<close>
  answers and the handle it stores. A join waits until the thread has ended, and stores its result.
\<close>

definition main_step :: "os \<Rightarrow> (nat \<Rightarrow> int) \<Rightarrow> (nat \<Rightarrow> 64 word) \<Rightarrow> u64 \<Rightarrow> u64 \<Rightarrow> conf \<Rightarrow> conf outcome" where
  "main_step os rc hdl th rv c =
     (case mpc c of
        Creating k \<Rightarrow>
          if k < 8
          then if rc k \<noteq> 0 then Done (c\<lparr>mpc := Returned 1 []\<rparr>)
            else Done (c\<lparr>mpc := Creating (Suc k), rts := set_mem (rts c) (put_word (idx th 8 k) (hdl k))\<rparr>)
          else Done (c\<lparr>mpc := Joining 0 0\<rparr>)
      | Joining k tot \<Rightarrow>
          if k < 8
          then (case pcs c k of
              Ended v \<Rightarrow>
                bindO (load_at os (idx th 8 k) tv 39 (rts c)) (\<lambda>(h :: 64 word, s).
                let s = set_mem s (put_word rv v) in
                bindO (load_at os rv tv 40 s) (\<lambda>(r :: 64 word, s).
                Done (c\<lparr>mpc := Joining (Suc k) (tot + r), rts := s\<rparr>)))
            | _ \<Rightarrow> Done c)
          else Done (c\<lparr>mpc := Returned 0 (show_int (sint tot) @ newline)\<rparr>)
      | Returned st out \<Rightarrow> Done c)"

text \<open>One entry of a schedule: a worker that has been created, or the first thread for any other number. The process is over when
  \<^verbatim>\<open>main\<close> has returned.\<close>

definition created :: "main_pc \<Rightarrow> nat \<Rightarrow> bool" where
  "created m w \<longleftrightarrow> (case m of Creating k \<Rightarrow> w < k | Joining k tot \<Rightarrow> True | Returned st out \<Rightarrow> False)"

definition conf_step ::
  "os \<Rightarrow> (nat \<Rightarrow> (u64 \<times> u64) list) \<Rightarrow> (nat \<Rightarrow> int) \<Rightarrow> (nat \<Rightarrow> 64 word) \<Rightarrow> u64 \<Rightarrow> u64 \<Rightarrow> nat \<Rightarrow> conf \<Rightarrow> conf outcome" where
  "conf_step os fr rc hdl th rv w c =
     (if w < 8
      then if created (mpc c) w
        then bindO (worker_step os (fr w) w (pcs c w) (rts c)) (\<lambda>(p, s). Done (c\<lparr>pcs := (pcs c)(w := p), rts := s\<rparr>))
        else Done c
      else main_step os rc hdl th rv c)"

fun run_conf ::
  "os \<Rightarrow> (nat \<Rightarrow> (u64 \<times> u64) list) \<Rightarrow> (nat \<Rightarrow> int) \<Rightarrow> (nat \<Rightarrow> 64 word) \<Rightarrow> u64 \<Rightarrow> u64 \<Rightarrow> nat list \<Rightarrow> conf \<Rightarrow> conf outcome" where
  "run_conf os fr rc hdl th rv [] c = Done c"
| "run_conf os fr rc hdl th rv (w # ws) c = bindO (conf_step os fr rc hdl th rv w c) (run_conf os fr rc hdl th rv ws)"

definition threaded_valid_c ::
  "(nat \<Rightarrow> (u64 \<times> u64) list) \<Rightarrow> (nat \<Rightarrow> int) \<Rightarrow> (nat \<Rightarrow> 64 word) \<Rightarrow> u64 \<Rightarrow> u64 \<Rightarrow> nat list \<Rightarrow> os \<Rightarrow> rt \<Rightarrow> run" where
  "threaded_valid_c fr rc hdl th rv sched os s =
     (case run_conf os fr rc hdl th rv sched \<lparr>pcs = (\<lambda>_. Entering), mpc = Creating 0, rts = s\<rparr> of
        Done c \<Rightarrow> (case mpc c of Returned st out \<Rightarrow> Some (Done (st, out, rts c)) | _ \<Rightarrow> None)
      | Halt h \<Rightarrow> Some (Halt h))"

section \<open>What the threads compute\<close>

definition round_acc :: "nat \<Rightarrow> nat \<Rightarrow> 64 word \<Rightarrow> 64 word" where
  "round_acc it n acc = fold (\<lambda>i acc. acc + scast (elem_val it i)) [0..<n] acc"

definition worker_acc :: "nat \<Rightarrow> nat \<Rightarrow> 64 word" where
  "worker_acc t n = fold (\<lambda>it. round_acc it (elems t it)) [0..<n] 0"

definition joined_acc :: "nat \<Rightarrow> 64 word" where
  "joined_acc k = fold (\<lambda>t tot. tot + worker_acc t 10000) [0..<k] 0"

lemma round_acc_simps [simp]:
  "round_acc it 0 acc = acc" "round_acc it (Suc n) acc = round_acc it n acc + scast (elem_val it n)"
  by (simp_all add: round_acc_def)

lemma worker_acc_simps [simp]:
  "worker_acc t 0 = 0" "worker_acc t (Suc n) = round_acc n (elems t n) (worker_acc t n)"
  by (simp_all add: worker_acc_def)

lemma joined_acc_simps [simp]: "joined_acc 0 = 0" "joined_acc (Suc k) = joined_acc k + worker_acc k 10000"
  by (simp_all add: joined_acc_def)

lemma elems_bound: "4 \<le> elems t it" "elems t it \<le> 11"
proof -
  have "(of_nat t + of_nat it :: 32 word) AND 7 \<le> 7" by (rule word_and_le1)
  then show "4 \<le> elems t it" "elems t it \<le> 11" by (simp_all add: elems_def word_le_nat_alt)
qed

section \<open>The invariant\<close>

fun holds_block :: "pc \<Rightarrow> bool" where
  "holds_block (Filling it acc a i) = True"
| "holds_block (Adding it acc a i) = True"
| "holds_block (Releasing it acc a) = True"
| "holds_block p = False"

text \<open>Blocks allocated so far by a thread.\<close>

fun rounds_begun :: "pc \<Rightarrow> nat" where
  "rounds_begun Entering = 0"
| "rounds_begun (Allocating it acc) = it"
| "rounds_begun (Filling it acc a i) = Suc it"
| "rounds_begun (Adding it acc a i) = Suc it"
| "rounds_begun (Releasing it acc a) = Suc it"
| "rounds_begun p = 10000"

definition owns :: "block list \<Rightarrow> nat \<Rightarrow> u64 \<Rightarrow> nat \<Rightarrow> bool" where
  "owns bs j a n \<longleftrightarrow> j < length bs \<and> \<not> freed (bs ! j) \<and> a = user_addr (bs ! j) \<and> unat (user_size (bs ! j)) = n * 4"

text \<open>Thread \<open>t\<close> with block number \<open>j\<close>.\<close>

fun pc_ok :: "block list \<Rightarrow> memory \<Rightarrow> nat \<Rightarrow> nat \<Rightarrow> pc \<Rightarrow> bool" where
  "pc_ok bs m t j Entering \<longleftrightarrow> True"
| "pc_ok bs m t j (Allocating it acc) \<longleftrightarrow> it \<le> 10000 \<and> acc = worker_acc t it"
| "pc_ok bs m t j (Filling it acc a i) \<longleftrightarrow> it < 10000 \<and> acc = worker_acc t it \<and> owns bs j a (elems t it)
     \<and> i \<le> elems t it \<and> holds m a i (elem_val it)"
| "pc_ok bs m t j (Adding it acc a i) \<longleftrightarrow> it < 10000 \<and> acc = round_acc it i (worker_acc t it) \<and> owns bs j a (elems t it)
     \<and> i \<le> elems t it \<and> holds m a (elems t it) (elem_val it)"
| "pc_ok bs m t j (Releasing it acc a) \<longleftrightarrow> it < 10000 \<and> acc = worker_acc t (Suc it) \<and> owns bs j a (elems t it)"
| "pc_ok bs m t j (Leaving r) \<longleftrightarrow> r = worker_acc t 10000"
| "pc_ok bs m t j (Ended r) \<longleftrightarrow> r = worker_acc t 10000"

lemma pc_ok_begun: "pc_ok bs m t j p \<Longrightarrow> rounds_begun p \<le> 10000"
  by (cases p) simp_all

text \<open>A thread is not disturbed by what leaves its block alone.\<close>

lemma pc_ok_kept:
  assumes ok: "pc_ok bs m t j p"
    and k: "holds_block p \<Longrightarrow> j < length bs \<Longrightarrow> j < length bs' \<and> bs' ! j = bs ! j \<and> block_ok (bs ! j) \<and>
      (\<forall>x. in_user (bs ! j) (unat x) \<longrightarrow> m' x = m x)"
  shows "pc_ok bs' m' t j p"
proof -
  have h: "holds m' a i g" if "owns bs j a n" "holds_block p" "holds m a i g" "i \<le> n" for a i n and g :: "nat \<Rightarrow> 32 word"
  proof -
    have o: "j < length bs" "a = user_addr (bs ! j)" "i * 4 \<le> unat (user_size (bs ! j))" using that(1,4) by (auto simp: owns_def)
    have kk: "block_ok (bs ! j)" "\<And>x. in_user (bs ! j) (unat x) \<Longrightarrow> m' x = m x" using k [OF that(2) o(1)] by auto
    show ?thesis unfolding o(2) by (rule holds_cong [OF kk(1) _ _ that(3) [unfolded o(2)] kk(2)]) (use o(3) in simp_all)
  qed
  have w: "owns bs' j a n" if "owns bs j a n" "holds_block p" for a n using k [OF that(2)] that(1) by (auto simp: owns_def)
  show ?thesis using ok h w by (cases p) auto
qed

section \<open>Frames of other threads\<close>

definition far :: "(u64 \<times> u64) list \<Rightarrow> u64 \<Rightarrow> u64 \<Rightarrow> bool" where
  "far fs p k \<longleftrightarrow> (\<forall>(q, j) \<in> set fs. unat p + unat k + 32 \<le> unat q \<or> unat q + unat j + 32 \<le> unat p)"

lemma slot_guarded_cong:
  assumes "slot_guarded sh p k" and "\<And>x. unat p \<le> unat x \<Longrightarrow> unat x < unat p + (unat k + 32) \<Longrightarrow> sh' x = sh x"
  shows "slot_guarded sh' p k"
  using assms unfolding slot_guarded_def by (simp add: add.assoc)

lemma stands_cong:
  "stands R sh bs s \<Longrightarrow> (\<And>p n x. (p, n) \<in> set R \<Longrightarrow> unat p \<le> unat x \<Longrightarrow> unat x < unat p + unat n \<Longrightarrow> sh' x = sh x) \<Longrightarrow> stands R sh' bs s"
  unfolding stands_def by fastforce

lemma enter_far:
  assumes st: "stands R sh bs s" and f: "\<forall>(q, j) \<in> set fs. slot_ok q j \<and> (q, j + 32) \<in> set R"
  shows "\<exists>s' sh'. enter_slots os fs s = Done s' \<and> stands R sh' bs s' \<and> mem s' = mem s
    \<and> (\<forall>p k. slot_ok p k \<and> (p, k + 32) \<in> set R \<and> far fs p k \<and> slot_guarded sh p k \<longrightarrow> slot_guarded sh' p k)"
proof (intro exI conjI allI impI)
  note e = enter_slots_stands [OF st f, of os]
  then show "enter_slots os fs s = Done (entered fs s)" "stands R (shadow_val (entered fs s)) bs (entered fs s)" by simp_all
  fix p k assume p: "slot_ok p k \<and> (p, k + 32) \<in> set R \<and> far fs p k \<and> slot_guarded sh p k"
  have r: "reserved s" using heap_wfD(1) [OF standsD(1) [OF st]] .
  have u: "unat (k + 32) = unat k + 32" using slot_okD(4) p by blast
  show "slot_guarded (shadow_val (entered fs s)) p k"
  proof (rule slot_guarded_cong)
    show "slot_guarded sh p k" using p by simp
    fix x :: u64 assume x: "unat p \<le> unat x" "unat x < unat p + (unat k + 32)"
    have "shadow_val (entered fs s) x = shadow_val s x"
      by (rule entered_kept [OF r _ _ x]) (use p f slot_okD(1) in \<open>fastforce simp: far_def add.assoc\<close>)+
    also have "\<dots> = sh x" using standsD(6) [OF st, of p "k + 32" x] p x u by simp
    finally show "shadow_val (entered fs s) x = sh x" .
  qed
qed simp

lemma leave_far:
  assumes "stands R sh bs s" and "\<forall>(q, j) \<in> set fs. slot_ok q j \<and> (q, j + 32) \<in> set R"
  shows "\<exists>s' sh'. leave_slots os fs s = Done s' \<and> stands R sh' bs s' \<and> mem s' = mem s
    \<and> (\<forall>p k. slot_ok p k \<and> (p, k + 32) \<in> set R \<and> far fs p k \<and> slot_guarded sh p k \<longrightarrow> slot_guarded sh' p k)"
  using assms
proof (induction fs arbitrary: s sh)
  case (Cons a fs)
  obtain q j where a: "a = (q, j)" by (cases a)
  have ok: "slot_ok q j" "(q, j + 32) \<in> set R" and rest: "\<forall>(q, j) \<in> set fs. slot_ok q j \<and> (q, j + 32) \<in> set R" using Cons(3) a by auto
  note e = stack_leave_stands [OF Cons(2) ok]
  have r: "reserved s" using heap_wfD(1) [OF standsD(1) [OF Cons(2)]] .
  have g: "slot_guarded (shadow_val (fill s q (j + 32) 0)) p k"
    if p: "slot_ok p k" "(p, k + 32) \<in> set R" "far (a # fs) p k" "slot_guarded sh p k" for p k
  proof (rule slot_guarded_cong [OF p(4)])
    fix x :: u64 assume x: "unat p \<le> unat x" "unat x < unat p + (unat k + 32)"
    have ap: "unat p + (unat k + 32) \<le> unat q \<or> unat q + (unat j + 32) \<le> unat p" using p(3) a by (auto simp: far_def)
    have "shadow_val (fill s q (j + 32) 0) x = shadow_val s x"
      using region_outside [OF slot_okD(1) [OF p(1)] slot_okD(1) [OF ok(1)] ap x] unfolding stack_leave_val [OF r ok(1)] by (auto simp: add.assoc)
    also have "\<dots> = sh x" using standsD(6) [OF Cons(2) p(2), of x] x slot_okD(4) [OF p(1)] by simp
    finally show "shadow_val (fill s q (j + 32) 0) x = sh x" .
  qed
  obtain s' sh' where s': "leave_slots os fs (fill s q (j + 32) 0) = Done s'" "stands R sh' bs s'" "mem s' = mem s"
    and k: "\<And>p k. slot_ok p k \<and> (p, k + 32) \<in> set R \<and> far fs p k \<and> slot_guarded (shadow_val (fill s q (j + 32) 0)) p k \<Longrightarrow> slot_guarded sh' p k"
    using Cons.IH [OF e(2) rest] by auto
  have "slot_guarded sh' p k" if "slot_ok p k \<and> (p, k + 32) \<in> set R \<and> far (a # fs) p k \<and> slot_guarded sh p k" for p k
    using k g that by (simp add: far_def)
  then show ?case using s' e(1) a by (intro exI [of _ s'] exI [of _ sh']) simp
qed auto

section \<open>Steps of a thread\<close>

text \<open>All threads at once: \<open>own\<close> gives the block each of them works on.\<close>

definition working :: "memory \<Rightarrow> block list \<Rightarrow> (nat \<Rightarrow> nat) \<Rightarrow> (nat \<Rightarrow> pc) \<Rightarrow> bool" where
  "working m bs own ps \<longleftrightarrow> (\<forall>t < 8. pc_ok bs m t (own t) (ps t))
     \<and> (\<forall>t < 8. \<forall>u < 8. t \<noteq> u \<longrightarrow> holds_block (ps t) \<longrightarrow> holds_block (ps u) \<longrightarrow> own t \<noteq> own u)
     \<and> (\<forall>j < length bs. \<not> freed (bs ! j) \<longrightarrow> (\<exists>t < 8. holds_block (ps t) \<and> own t = j))
     \<and> length bs \<le> (\<Sum>t < 8. rounds_begun (ps t))"

lemma working_few:
  assumes "working m bs own ps"
  shows "length bs < 1000000"
proof -
  have "(\<Sum>t < 8. rounds_begun (ps t)) \<le> (\<Sum>t < (8 :: nat). 10000)"
    by (rule sum_mono) (use assms pc_ok_begun in \<open>auto simp: working_def\<close>)
  then have "length bs \<le> 80000" using assms by (simp add: working_def)
  then show ?thesis by simp
qed

lemma begun_update:
  fixes ps :: "nat \<Rightarrow> pc"
  assumes "t < 8"
  shows "(\<Sum>u < 8. rounds_begun ((ps(t := p)) u)) + rounds_begun (ps t) = (\<Sum>u < 8. rounds_begun (ps u)) + rounds_begun p"
proof -
  have r: "(\<Sum>u < 8. f u) = f t + (\<Sum>u \<in> {..<8} - {t}. f u)" for f :: "nat \<Rightarrow> nat"
    by (rule sum.remove) (use assms in simp_all)
  have "(\<Sum>u \<in> {..<8} - {t}. rounds_begun ((ps(t := p)) u)) = (\<Sum>u \<in> {..<8} - {t}. rounds_begun (ps u))" by (rule sum.cong) auto
  then show ?thesis unfolding r [of "\<lambda>u. rounds_begun ((ps(t := p)) u)"] r [of "\<lambda>u. rounds_begun (ps u)"] by simp
qed

text \<open>A step of thread \<open>t\<close> that keeps every block of the others: enough to show about it.\<close>

lemma working_step:
  assumes w: "working m bs own ps" and t: "t < 8" and st: "stands R sh bs s"
    and p: "pc_ok bs' m' t (own t) p" and le: "rounds_begun (ps t) \<le> rounds_begun p"
    and len: "length bs' = length bs"
    and others: "\<And>u j. u < 8 \<Longrightarrow> u \<noteq> t \<Longrightarrow> holds_block (ps u) \<Longrightarrow> j = own u \<Longrightarrow> j < length bs \<Longrightarrow> (holds_block (ps t) \<Longrightarrow> j \<noteq> own t) \<Longrightarrow>
      bs' ! j = bs ! j \<and> (\<forall>x. in_user (bs ! j) (unat x) \<longrightarrow> m' x = m x)"
    and free: "\<And>j. j < length bs \<Longrightarrow> \<not> freed (bs' ! j) \<Longrightarrow> \<not> freed (bs ! j) \<and> (holds_block (ps t) \<and> j = own t \<longrightarrow> holds_block p)"
    and hb: "holds_block p \<Longrightarrow> holds_block (ps t)"
  shows "working m' bs' own (ps(t := p))"
proof -
  have w1: "\<And>u. u < 8 \<Longrightarrow> pc_ok bs m u (own u) (ps u)"
    and w2: "\<And>u v. u < 8 \<Longrightarrow> v < 8 \<Longrightarrow> u \<noteq> v \<Longrightarrow> holds_block (ps u) \<Longrightarrow> holds_block (ps v) \<Longrightarrow> own u \<noteq> own v"
    and w3: "\<And>j. j < length bs \<Longrightarrow> \<not> freed (bs ! j) \<Longrightarrow> \<exists>u < 8. holds_block (ps u) \<and> own u = j"
    and w4: "length bs \<le> (\<Sum>t < 8. rounds_begun (ps t))" using w unfolding working_def by blast+
  have k: "pc_ok bs' m' u (own u) (ps u)" if u: "u < 8" "u \<noteq> t" for u
  proof (rule pc_ok_kept [OF w1 [OF u(1)]])
    assume h: "holds_block (ps u)" "own u < length bs"
    have "block_ok (bs ! own u)" using standsD(7) [OF st] h(2) by simp
    then show "own u < length bs' \<and> bs' ! own u = bs ! own u \<and> block_ok (bs ! own u) \<and> (\<forall>x. in_user (bs ! own u) (unat x) \<longrightarrow> m' x = m x)"
      using others [OF u h(1) refl h(2)] w2 [OF u(1) t u(2) h(1)] h(2) len by simp
  qed
  show ?thesis
    unfolding working_def
  proof (intro conjI allI impI)
    show "pc_ok bs' m' u (own u) ((ps(t := p)) u)" if "u < 8" for u using k that p by simp
    show "own u \<noteq> own v" if "u < 8" "v < 8" "u \<noteq> v" "holds_block ((ps(t := p)) u)" "holds_block ((ps(t := p)) v)" for u v
      using w2 [OF that(1-3)] that(4,5) hb by (auto split: if_splits)
    show "\<exists>u < 8. holds_block ((ps(t := p)) u) \<and> own u = j" if "j < length bs'" "\<not> freed (bs' ! j)" for j
    proof -
      have j: "j < length bs" using that(1) len by simp
      note f = free [OF j that(2)]
      obtain u where "u < 8" "holds_block (ps u)" "own u = j" using w3 [OF j] f by blast
      then show ?thesis using f by (intro exI [of _ u]) auto
    qed
    show "length bs' \<le> (\<Sum>u < 8. rounds_begun ((ps(t := p)) u))" using begun_update [OF t, of ps p] w4 le len by linarith
  qed
qed

text \<open>The allocation of a new block by thread \<open>t\<close>.\<close>

lemma working_grown:
  assumes w: "working m bs own ps" and t: "t < 8" and st: "stands R sh (bs @ [b]) s"
    and p: "pc_ok (bs @ [b]) m' t (length bs) p" "holds_block p" and e: "\<not> holds_block (ps t)" "Suc (rounds_begun (ps t)) \<le> rounds_begun p"
    and m: "\<And>x. \<not> in_block b (unat x) \<Longrightarrow> m' x = m x"
  shows "working m' (bs @ [b]) (own(t := length bs)) (ps(t := p))"
proof -
  have w1: "\<And>u. u < 8 \<Longrightarrow> pc_ok bs m u (own u) (ps u)"
    and w2: "\<And>u v. u < 8 \<Longrightarrow> v < 8 \<Longrightarrow> u \<noteq> v \<Longrightarrow> holds_block (ps u) \<Longrightarrow> holds_block (ps v) \<Longrightarrow> own u \<noteq> own v"
    and w3: "\<And>j. j < length bs \<Longrightarrow> \<not> freed (bs ! j) \<Longrightarrow> \<exists>u < 8. holds_block (ps u) \<and> own u = j"
    and w4: "length bs \<le> (\<Sum>t < 8. rounds_begun (ps t))" using w unfolding working_def by blast+
  have k: "pc_ok (bs @ [b]) m' u (own u) (ps u)" if u: "u < 8" for u
  proof (rule pc_ok_kept [OF w1 [OF u]])
    assume h: "own u < length bs"
    have "block_ok (bs ! own u)" using standsD(7) [OF st] h by (simp add: nth_append)
    moreover have "m' x = m x" if "in_user (bs ! own u) (unat x)" for x
      using user_elsewhere [OF st, of "own u" "length bs" x] that h m by (simp add: nth_append)
    ultimately show "own u < length (bs @ [b]) \<and> (bs @ [b]) ! own u = bs ! own u \<and> block_ok (bs ! own u)
        \<and> (\<forall>x. in_user (bs ! own u) (unat x) \<longrightarrow> m' x = m x)" using h by (simp add: nth_append)
  qed
  have in_bs: "own u < length bs" if "u < 8" "holds_block (ps u)" for u
    using w1 [OF that(1)] that(2) by (cases "ps u") (auto simp: owns_def)
  show ?thesis
    unfolding working_def
  proof (intro conjI allI impI)
    show "pc_ok (bs @ [b]) m' u ((own(t := length bs)) u) ((ps(t := p)) u)" if "u < 8" for u using k that p by simp
    show "(own(t := length bs)) u \<noteq> (own(t := length bs)) v"
      if "u < 8" "v < 8" "u \<noteq> v" "holds_block ((ps(t := p)) u)" "holds_block ((ps(t := p)) v)" for u v
      using w2 [OF that(1-3)] that in_bs [of u] in_bs [of v] by (auto split: if_splits)
    show "\<exists>u < 8. holds_block ((ps(t := p)) u) \<and> (own(t := length bs)) u = j" if "j < length (bs @ [b])" "\<not> freed ((bs @ [b]) ! j)" for j
    proof (cases "j = length bs")
      case True
      then show ?thesis using t p by (intro exI [of _ t]) simp
    next
      case False
      then have j: "j < length bs" "\<not> freed (bs ! j)" using that by (auto simp: nth_append)
      obtain u where "u < 8" "holds_block (ps u)" "own u = j" using w3 [OF j] by blast
      then show ?thesis using e(1) by (intro exI [of _ u]) auto
    qed
    show "length (bs @ [b]) \<le> (\<Sum>u < 8. rounds_begun ((ps(t := p)) u))" using begun_update [OF t, of ps p] w4 e(2) by simp
  qed
qed

text \<open>The state in the middle of a run: nothing wrong with the heap, the slots of \<^verbatim>\<open>main\<close> guarded, and the threads at work.\<close>

definition calm :: "(u64 \<times> u64) list \<Rightarrow> u64 \<Rightarrow> u64 \<Rightarrow> rt \<Rightarrow> (nat \<Rightarrow> pc) \<Rightarrow> bool" where
  "calm R p q s ps \<longleftrightarrow> (\<exists>sh bs own. stands R sh bs s \<and> slot_guarded sh p 64 \<and> slot_guarded sh q 8 \<and> working (mem s) bs own ps)"

lemma calmI: "stands R sh bs s \<Longrightarrow> slot_guarded sh p 64 \<Longrightarrow> slot_guarded sh q 8 \<Longrightarrow> working (mem s) bs own ps \<Longrightarrow> calm R p q s ps"
  by (auto simp: calm_def)

text \<open>Calls that a thread still has to make, at most.\<close>

fun work_left :: "pc \<Rightarrow> nat" where
  "work_left Entering = 300004"
| "work_left (Allocating it acc) = (10000 - it) * 30 + 3"
| "work_left (Filling it acc a i) = (9999 - it) * 30 + 30 - i"
| "work_left (Adding it acc a i) = (9999 - it) * 30 + 17 - i"
| "work_left (Releasing it acc a) = (9999 - it) * 30 + 4"
| "work_left (Leaving r) = 1"
| "work_left (Ended r) = 0"

fun ended :: "pc \<Rightarrow> bool" where
  "ended (Ended r) = True"
| "ended p = False"

lemma slot_idx:
  assumes "slot_ok b k" and "8 * i + 8 \<le> unat k"
  shows "unat (idx (b + 16) 8 i) = unat b + 16 + 8 * i"
proof -
  have l: "unat b + unat k + 32 \<le> 140737488355328" using assms(1) by (simp add: slot_ok_def)
  have u: "unat (of_nat (8 * i) :: u64) = 8 * i" by (rule unat_nat64) (use l assms(2) in linarith)
  have v: "unat (b + 16) = unat b + 16" using l by (simp add: unat_plus64)
  show ?thesis unfolding idx_def using u v l assms(2) by (simp add: unat_plus64)
qed

locale crew = host os R gs fs env le
  for os R gs fs env le +
  fixes fr :: "nat \<Rightarrow> (u64 \<times> u64) list" and p q :: u64
  assumes main_slots: "(p, 64) \<in> set fs" "(q, 8) \<in> set fs"
    and frames: "t < 8 \<Longrightarrow> \<forall>(b, k) \<in> set (fr t). slot_ok b k \<and> (b, k + 32) \<in> set R"
    and apart_frames: "t < 8 \<Longrightarrow> far (fr t) p 64 \<and> far (fr t) q 8"
begin

lemma slots_ok: "slot_ok p 64" "(p, 64 + 32) \<in> set R" "slot_ok q 8" "(q, 8 + 32) \<in> set R"
  using frame main_slots by (auto simp: frame_in_def)

text \<open>What a call of a thread does: it goes on, keeps the state, and has less to do.\<close>

definition steps_on :: "(nat \<Rightarrow> pc) \<Rightarrow> nat \<Rightarrow> (pc \<times> rt) outcome \<Rightarrow> bool" where
  "steps_on ps t o' \<longleftrightarrow> (\<exists>pc' s'. o' = Done (pc', s') \<and> calm R p q s' (ps(t := pc')) \<and> work_left pc' < work_left (ps t))"

lemma steps_onI: "calm R p q s' (ps(t := pc')) \<Longrightarrow> work_left pc' < work_left (ps t) \<Longrightarrow> steps_on ps t (Done (pc', s'))"
  by (auto simp: steps_on_def)

lemma move_on:
  assumes w: "working (mem s) bs own ps" and t: "t < 8" and st: "stands R sh bs s"
    and st': "stands R sh' bs s'" "slot_guarded sh' p 64" "slot_guarded sh' q 8" "mem s' = mem s"
    and p: "pc_ok bs (mem s) t (own t) pc'" "rounds_begun (ps t) \<le> rounds_begun pc'" "holds_block pc' = holds_block (ps t)"
    and l: "work_left pc' < work_left (ps t)"
  shows "steps_on ps t (Done (pc', s'))"
proof (rule steps_onI)
  show "work_left pc' < work_left (ps t)" by (rule l)
  have "working (mem s') bs own (ps(t := pc'))"
    unfolding st'(4) by (rule working_step [OF w t st p(1,2)]) (use p(3) in auto)
  then show "calm R p q s' (ps(t := pc'))" by (rule calmI [OF st'(1-3)])
qed

lemma thread_step:
  assumes c: "calm R p q s ps" and t: "t < 8" and e: "\<not> ended (ps t)"
  shows "steps_on ps t (worker_step os (fr t) t (ps t) s)"
proof -
  obtain sh bs own where st: "stands R sh bs s" and g: "slot_guarded sh p 64" "slot_guarded sh q 8" and w: "working (mem s) bs own ps"
    using c by (auto simp: calm_def)
  have ok: "pc_ok bs (mem s) t (own t) (ps t)" using w t by (simp add: working_def)
  note mv = move_on [OF w t st st g refl]
  show ?thesis
  proof (cases "ps t")
    case Entering
    obtain s' sh' where s': "enter_slots os (fr t) s = Done s'" "stands R sh' bs s'" "mem s' = mem s"
      and k: "\<And>p k. slot_ok p k \<and> (p, k + 32) \<in> set R \<and> far (fr t) p k \<and> slot_guarded sh p k \<Longrightarrow> slot_guarded sh' p k"
      using enter_far [OF st frames [OF t], of os] by blast
    have "slot_guarded sh' p 64" "slot_guarded sh' q 8" using k slots_ok apart_frames [OF t] g by auto
    then show ?thesis using s' Entering by (simp add: move_on [OF w t st s'(2) _ _ s'(3)])
  next
    case (Allocating it acc)
    show ?thesis
    proof (cases "it < 10000")
      case False
      then show ?thesis using ok Allocating mv by simp
    next
      case True
      note el = elems_bound [of t it]
      have u: "unat (of_nat (elems t it) * 4 :: u64) = elems t it * 4"
      proof -
        have "(of_nat (elems t it) * 4 :: u64) = of_nat (elems t it * 4)" by simp
        then show ?thesis using unat_nat64 [of "elems t it * 4"] el(2) by (simp only:)
      qed
      have "steps_on ps t (bindO (redzone_malloc (os s) (of_nat (elems t it) * 4) tv 19 s) (\<lambda>(a, s).
        if a = 0 then Done (Leaving 1, s) else Done (Filling it acc a 0, s)))"
      proof (rule malloc_step [where P = "steps_on ps t", OF st _ working_few [OF w]])
        show "unat (of_nat (elems t it) * 4 :: u64) \<le> 8000" unfolding u using el(2) by simp
        fix b s' assume m: "\<And>x. \<not> in_block b (unat x) \<Longrightarrow> mem s' x = mem s x" and b: "stands R sh (bs @ [b]) s'" "block_ok b"
          "user_size b = of_nat (elems t it) * 4" "\<not> freed b" "user_addr b \<noteq> 0"
        let ?p = "Filling it acc (user_addr b) 0"
        have "working (mem s') (bs @ [b]) (own(t := length bs)) (ps(t := ?p))"
          by (rule working_grown [OF w t b(1) _ _ _ _ m]) (use ok Allocating True b(3,4) u in \<open>simp_all add: owns_def\<close>)
        from calmI [OF b(1) g this] have "steps_on ps t (Done (?p, s'))"
          by (rule steps_onI) (use Allocating True in simp)
        then show "steps_on ps t (case (user_addr b, s') of (a, s) \<Rightarrow> if a = 0 then Done (Leaving 1, s) else Done (Filling it acc a 0, s))"
          using b(5) by simp
      qed
      then show ?thesis using True Allocating by simp
    qed
  next
    case (Filling it acc a i)
    show ?thesis
    proof (cases "i < elems t it")
      case False
      have "steps_on ps t (Done (Adding it acc a 0, s))"
        by (rule mv) (use False ok Filling elems_bound [of t it] in auto)
      then show ?thesis using False Filling by simp
    next
      case True
      have j: "own t < length bs" "\<not> freed (bs ! own t)" and a: "a = user_addr (bs ! own t)" and n: "unat (user_size (bs ! own t)) = elems t it * 4"
        and h: "holds (mem s) a i (elem_val it)" using ok Filling by (auto simp: owns_def)
      have "steps_on ps t (bindO (store_at os (idx a 4 i) (elem_val it i) tv 23 s) (\<lambda>s. Done (Filling it acc a (Suc i), s)))"
      proof (rule store_next [where P = "steps_on ps t" and k' = "Suc i", OF st j a _ h refl])
        fix s' assume s': "stands R sh bs s'" "holds (mem s') a (Suc i) (elem_val it)"
          "\<And>x. \<not> in_user (bs ! own t) (unat x) \<Longrightarrow> mem s' x = mem s x"
        have b: "block_ok (bs ! own t)" using standsD(7) [OF st] j(1) by simp
        have "working (mem s') bs own (ps(t := Filling it acc a (Suc i)))"
        proof (rule working_step [OF w t st])
          fix u j' assume u: "u < 8" "u \<noteq> t" "holds_block (ps u)" "j' = own u" "j' < length bs" "holds_block (ps t) \<Longrightarrow> j' \<noteq> own t"
          then have nj: "j' \<noteq> own t" using Filling by simp
          have "\<not> in_user (bs ! own t) (unat x)" if "in_user (bs ! j') (unat x)" for x :: u64
            using user_elsewhere [OF st u(5) j(1) nj that] not_in_user [OF b] by blast
          then show "bs ! j' = bs ! j' \<and> (\<forall>x. in_user (bs ! j') (unat x) \<longrightarrow> mem s' x = mem s x)" using s'(3) by blast
        qed (use ok Filling True s'(2) in simp_all)
        from calmI [OF s'(1) g this] show "steps_on ps t (Done (Filling it acc a (Suc i), s'))"
          by (rule steps_onI) (use Filling True elems_bound [of t it] in simp)
      qed (use n True in simp_all)
      then show ?thesis using True Filling by simp
    qed
  next
    case (Adding it acc a i)
    show ?thesis
    proof (cases "i < elems t it")
      case False
      then have "i = elems t it" using ok Adding by simp
      then have "steps_on ps t (Done (Releasing it acc a, s))"
        by (intro mv) (use ok Adding elems_bound [of t it] in auto)
      then show ?thesis using False Adding by simp
    next
      case True
      have j: "own t < length bs" "\<not> freed (bs ! own t)" and a: "a = user_addr (bs ! own t)" and n: "unat (user_size (bs ! own t)) = elems t it * 4"
        and h: "holds (mem s) a (elems t it) (elem_val it)" using ok Adding by (auto simp: owns_def)
      have "steps_on ps t (bindO (load_at os (idx a 4 i) tv 25 s) (\<lambda>(v :: 32 word, s). Done (Adding it (acc + scast v) a (Suc i), s)))"
        by (rule load_elem [where P = "steps_on ps t", OF st j a _ h True]) (use n ok Adding True elems_bound [of t it] in \<open>simp_all add: mv\<close>)
      then show ?thesis using True Adding by simp
    qed
  next
    case (Releasing it acc a)
    have j: "own t < length bs" "\<not> freed (bs ! own t)" and a: "a = user_addr (bs ! own t)" using ok Releasing by (auto simp: owns_def)
    have "steps_on ps t (bindO (redzone_free (os s) a s) (\<lambda>s. Done (Allocating (Suc it) acc, s)))"
    proof (rule free_step [where P = "steps_on ps t", OF st j a])
      fix s' assume s': "stands R sh (bs[own t := (bs ! own t)\<lparr>freed := True\<rparr>]) s'" "mem s' = mem s"
      have "working (mem s') (bs[own t := (bs ! own t)\<lparr>freed := True\<rparr>]) own (ps(t := Allocating (Suc it) acc))"
        by (rule working_step [OF w t st]) (use ok Releasing s'(2) in \<open>auto simp: nth_list_update split: if_splits\<close>)
      from calmI [OF s'(1) g this] show "steps_on ps t (Done (Allocating (Suc it) acc, s'))"
        by (rule steps_onI) (use ok Releasing in simp)
    qed
    then show ?thesis using Releasing by simp
  next
    case (Leaving r)
    obtain s' sh' where s': "leave_slots os (fr t) s = Done s'" "stands R sh' bs s'" "mem s' = mem s"
      and k: "\<And>p k. slot_ok p k \<and> (p, k + 32) \<in> set R \<and> far (fr t) p k \<and> slot_guarded sh p k \<Longrightarrow> slot_guarded sh' p k"
      using leave_far [OF st frames [OF t], of os] by blast
    have "slot_guarded sh' p 64" "slot_guarded sh' q 8" using k slots_ok apart_frames [OF t] g by auto
    then show ?thesis using s' ok Leaving by (simp add: move_on [OF w t st s'(2) _ _ s'(3)])
  next
    case (Ended r)
    then show ?thesis using e by simp
  qed
qed

end

section \<open>Steps of the first thread\<close>

fun main_ok :: "main_pc \<Rightarrow> (nat \<Rightarrow> pc) \<Rightarrow> bool" where
  "main_ok (Creating k) ps \<longleftrightarrow> k \<le> 8"
| "main_ok (Joining k tot) ps \<longleftrightarrow> k \<le> 8 \<and> tot = joined_acc k \<and> (\<forall>t < k. ended (ps t))"
| "main_ok (Returned st out) ps \<longleftrightarrow> st = 0 \<and> out = printed_long (joined_acc 8) \<and> (\<forall>t < 8. ended (ps t))"

fun main_left :: "main_pc \<Rightarrow> nat" where
  "main_left (Creating k) = 20 - k"
| "main_left (Joining k tot) = 9 - k"
| "main_left (Returned st out) = 0"

definition conf_left :: "conf \<Rightarrow> nat" where
  "conf_left c = (\<Sum>t < 8. work_left (pcs c t)) + main_left (mpc c)"

text \<open>An entry of the schedule that finds something to do.\<close>

definition active :: "nat \<Rightarrow> conf \<Rightarrow> bool" where
  "active w c \<longleftrightarrow>
     (if w < 8 then created (mpc c) w \<and> \<not> ended (pcs c w)
      else case mpc c of Creating k \<Rightarrow> True | Joining k tot \<Rightarrow> k < 8 \<longrightarrow> ended (pcs c k) | Returned st out \<Rightarrow> False)"

definition returned :: "conf \<Rightarrow> bool" where
  "returned c \<longleftrightarrow> (case mpc c of Returned st out \<Rightarrow> True | _ \<Rightarrow> False)"

lemma someone_active: "\<not> returned c \<Longrightarrow> main_ok (mpc c) (pcs c) \<Longrightarrow> \<exists>w \<le> 8. active w c"
proof (cases "mpc c")
  case (Joining k tot)
  show ?thesis
  proof (cases "k < 8 \<and> \<not> ended (pcs c k)")
    case True
    then show ?thesis using Joining by (intro exI [of _ k]) (simp add: active_def created_def)
  next
    case False
    then show ?thesis using Joining by (intro exI [of _ 8]) (auto simp: active_def)
  qed
qed (auto simp: active_def returned_def intro!: exI [of _ 8])

lemma working_cong:
  assumes w: "working m bs own ps" and st: "stands R sh bs s"
    and m: "\<And>b x :: u64. b \<in> set bs \<Longrightarrow> in_block b (unat x) \<Longrightarrow> m' x = m x"
  shows "working m' bs own ps"
proof -
  have "pc_ok bs m' t (own t) (ps t)" if "pc_ok bs m t (own t) (ps t)" for t
  proof (rule pc_ok_kept [OF that])
    assume j: "own t < length bs"
    have b: "block_ok (bs ! own t)" using standsD(7) [OF st] j by simp
    show "own t < length bs \<and> bs ! own t = bs ! own t \<and> block_ok (bs ! own t) \<and> (\<forall>x. in_user (bs ! own t) (unat x) \<longrightarrow> m' x = m x)"
      using j b m [of "bs ! own t"] in_user_in_block [OF b] by simp
  qed
  then show ?thesis using w by (simp add: working_def)
qed

context crew
begin

text \<open>A word inside a slot of \<^verbatim>\<open>main\<close>: written from outside the program, and read by it.\<close>

lemma slot_write:
  assumes c: "calm R p q s ps" and b: "slot_ok b k" "(b, k + 32) \<in> set R" and i: "8 * i + 8 \<le> unat k"
  shows "calm R p q (set_mem s (put_word (idx (b + 16) 8 i) (v :: 64 word))) ps"
proof -
  obtain sh bs own where st: "stands R sh bs s" and g: "slot_guarded sh p 64" "slot_guarded sh q 8" and w: "working (mem s) bs own ps"
    using c by (auto simp: calm_def)
  note a = slot_idx [OF b(1) i]
  let ?a = "idx (b + 16) 8 i" and ?m = "put_word (idx (b + 16) 8 i) v (mem s)"
  have r: "unat b \<le> unat ?a" "unat ?a + 8 \<le> unat b + unat (k + 32)" using a i slot_okD(4) [OF b(1)] by simp_all
  have m: "?m x = mem s x" if "\<not> in_span ?a 8 x" for x using put_word_outside [where 'a = 64, of ?a x] that by simp
  have st': "stands R sh bs (set_mem s (put_word ?a v))"
    unfolding set_mem_def by (rule region_write [OF st regions b(2) r m])
  have lim: "unat ?a + 8 \<le> 18446744073709551616" using regions b(2) r(2) unfolding regions_ok_def by fastforce
  have "working ?m bs own ps"
  proof (rule working_cong [OF w st])
    fix b' and x :: u64 assume b': "b' \<in> set bs" "in_block b' (unat x)"
    have "\<not> in_span ?a 8 x"
      using apart_blocks [OF standsD(5) [OF st b'(1) b(2)], of "unat x"] b'(2) r lim by (auto simp: in_span_nowrap)
    then show "?m x = mem s x" by (rule m)
  qed
  then show ?thesis using calmI [OF st' g, of own ps] by (simp add: set_mem_def)
qed

lemma slot_read:
  assumes c: "calm R p q s ps" and b: "(b, k :: u64) = (p, 64) \<or> (b, k) = (q, 8)" and i: "8 * i + 8 \<le> unat k"
  shows "load_at os (idx (b + 16) 8 i) f l s = Done (word_at (mem s) (idx (b + 16) 8 i) :: 64 word, s)"
proof -
  obtain sh bs own where st: "stands R sh bs s" and g: "slot_guarded sh p 64" "slot_guarded sh q 8"
    using c by (auto simp: calm_def)
  have ok: "slot_ok b k" "(b, k + 32) \<in> set R" "slot_guarded sh b k" using b slots_ok g by auto
  have "open_at R sh (idx (b + 16) 8 i) 8"
    by (rule slot_access(1) [OF regions ok, where i = "8 * i"]) (use slot_idx [OF ok(1) i] i in simp_all)
  then have "usable R sh bs (idx (b + 16) 8 i) 8" by (simp add: usable_def)
  from usable_load [OF st regions, where 'a = 64] this show ?thesis by simp
qed

text \<open>One entry of the schedule: nothing is reported, the state is kept, and there is less to do unless nothing changed.\<close>

definition conf_good :: "conf \<Rightarrow> bool" where
  "conf_good c \<longleftrightarrow> calm R p q (rts c) (pcs c) \<and> main_ok (mpc c) (pcs c)"

definition goes_on :: "nat \<Rightarrow> conf \<Rightarrow> conf outcome \<Rightarrow> bool" where
  "goes_on w c o' \<longleftrightarrow> (\<exists>c'. o' = Done c' \<and> conf_good c' \<and> (if active w c then conf_left c' < conf_left c else c' = c))"

lemma main_goes_on:
  assumes g: "conf_good c" and rc: "\<forall>k < 8. rc k = 0" and w: "\<not> w < 8"
  shows "goes_on w c (main_step os rc hdl (p + 16) (q + 16) c)"
proof -
  have c: "calm R p q (rts c) (pcs c)" and m: "main_ok (mpc c) (pcs c)" using g by (simp_all add: conf_good_def)
  show ?thesis
  proof (cases "mpc c")
    case (Creating k)
    show ?thesis
    proof (cases "k < 8")
      case True
      have "calm R p q (set_mem (rts c) (put_word (idx (p + 16) 8 k) (hdl k))) (pcs c)"
        by (rule slot_write [OF c slots_ok(1,2)]) (use True in simp)
      then show ?thesis using Creating True rc w by (simp add: goes_on_def main_step_def conf_good_def active_def conf_left_def)
    next
      case False
      then show ?thesis using Creating c m w by (simp add: goes_on_def main_step_def conf_good_def active_def conf_left_def)
    qed
  next
    case (Joining k tot)
    show ?thesis
    proof (cases "k < 8")
      case True
      show ?thesis
      proof (cases "pcs c k")
        case (Ended v)
        have v: "v = worker_acc k 10000" using c True Ended by (auto simp: calm_def working_def)
        let ?s = "set_mem (rts c) (put_word (q + 16) v)"
        have s: "calm R p q ?s (pcs c)" using slot_write [OF c slots_ok(3,4), of 0 v] by simp
        have r1: "load_at os (idx (p + 16) 8 k) tv 39 (rts c) = Done (word_at (mem (rts c)) (idx (p + 16) 8 k) :: 64 word, rts c)"
          by (rule slot_read [OF c, where k = 64]) (use True in simp_all)
        have r2: "load_at os (q + 16) tv 40 ?s = Done (v, ?s)"
          using slot_read [OF s, where k = 8 and b = q and i = 0] by (simp add: set_mem_def)
        have "main_step os rc hdl (p + 16) (q + 16) c = Done (c\<lparr>mpc := Joining (Suc k) (tot + v), rts := ?s\<rparr>)"
          using Joining True Ended r1 r2 by (simp add: main_step_def Let_def)
        then show ?thesis using Joining True Ended s m v w
          by (auto simp: goes_on_def conf_good_def active_def conf_left_def less_Suc_eq)
      qed (use Joining True g w in \<open>simp_all add: goes_on_def main_step_def active_def\<close>)
    next
      case False
      then have k8: "k = 8" using m Joining by simp
      then show ?thesis using Joining c m w
        by (simp add: goes_on_def main_step_def conf_good_def active_def conf_left_def printed_long_def)
    qed
  next
    case (Returned st out)
    then show ?thesis using g w by (simp add: goes_on_def main_step_def active_def)
  qed
qed

lemma worker_goes_on:
  assumes g: "conf_good c" and w: "w < 8" and cr: "created (mpc c) w"
  shows "goes_on w c (bindO (worker_step os (fr w) w (pcs c w) (rts c)) (\<lambda>(pc', s). Done (c\<lparr>pcs := (pcs c)(w := pc'), rts := s\<rparr>)))"
proof (cases "ended (pcs c w)")
  case True
  then obtain r where r: "pcs c w = Ended r" by (cases "pcs c w") simp_all
  then have "c\<lparr>pcs := (pcs c)(w := Ended r), rts := rts c\<rparr> = c" by (simp add: fun_upd_idem)
  then show ?thesis using r g w by (simp add: goes_on_def active_def)
next
  case False
  have c: "calm R p q (rts c) (pcs c)" and m: "main_ok (mpc c) (pcs c)" using g by (simp_all add: conf_good_def)
  obtain pc' s' where s': "worker_step os (fr w) w (pcs c w) (rts c) = Done (pc', s')" "calm R p q s' ((pcs c)(w := pc'))"
    "work_left pc' < work_left (pcs c w)" using thread_step [OF c w False] by (auto simp: steps_on_def)
  let ?c = "c\<lparr>pcs := (pcs c)(w := pc'), rts := s'\<rparr>"
  have "main_ok (mpc c) ((pcs c)(w := pc'))" using m cr False by (cases "mpc c") (auto simp: created_def)
  moreover have "(\<Sum>t < 8. work_left (((pcs c)(w := pc')) t)) < (\<Sum>t < 8. work_left (pcs c t))"
    by (rule sum_strict_mono_ex1) (use s'(3) w in auto)
  ultimately show ?thesis using s' w cr False by (simp add: goes_on_def conf_good_def active_def conf_left_def)
qed

lemma step_goes_on:
  assumes "conf_good c" and "\<forall>k < 8. rc k = 0"
  shows "goes_on w c (conf_step os fr rc hdl (p + 16) (q + 16) w c)"
  using assms main_goes_on [OF assms] worker_goes_on [OF assms(1)]
  by (cases "w < 8 \<and> \<not> created (mpc c) w") (simp_all add: conf_step_def goes_on_def active_def)

text \<open>A whole schedule, and one in which everybody has had a turn.\<close>

lemma run_good:
  assumes rc: "\<forall>k < 8. rc k = 0" and g: "conf_good c"
  shows "\<exists>c'. run_conf os fr rc hdl (p + 16) (q + 16) ws c = Done c' \<and> conf_good c'
    \<and> (conf_left c' < conf_left c \<or> c' = c \<and> (\<forall>w \<in> set ws. \<not> active w c))"
  using g
proof (induction ws arbitrary: c)
  case (Cons w ws)
  obtain c1 where c1: "conf_step os fr rc hdl (p + 16) (q + 16) w c = Done c1" "conf_good c1"
    "if active w c then conf_left c1 < conf_left c else c1 = c"
    using step_goes_on [OF Cons.prems rc] by (auto simp: goes_on_def)
  then show ?case using Cons.IH [OF c1(2)] by (fastforce split: if_splits)
qed simp

lemma round_good:
  assumes "\<forall>k < 8. rc k = 0" and "conf_good c" and "{..8} \<subseteq> set ws"
  shows "\<exists>c'. run_conf os fr rc hdl (p + 16) (q + 16) ws c = Done c' \<and> conf_good c' \<and> (returned c \<and> c' = c \<or> conf_left c' < conf_left c)"
proof -
  obtain c' where c': "run_conf os fr rc hdl (p + 16) (q + 16) ws c = Done c'" "conf_good c'"
    "conf_left c' < conf_left c \<or> c' = c \<and> (\<forall>w \<in> set ws. \<not> active w c)" using run_good [OF assms(1,2)] by blast
  moreover have "\<exists>w \<in> set ws. active w c" if "\<not> returned c"
    using someone_active [OF that] assms(2,3) by (auto simp: conf_good_def)
  ultimately show ?thesis by (auto intro!: exI [of _ c'])
qed

lemma run_append:
  "run_conf os fr rc hdl a b (us @ vs) c = bindO (run_conf os fr rc hdl a b us c) (run_conf os fr rc hdl a b vs)"
proof (induction us arbitrary: c)
  case (Cons u us)
  then have "run_conf os fr rc hdl a b (us @ vs) = (\<lambda>c. bindO (run_conf os fr rc hdl a b us c) (run_conf os fr rc hdl a b vs))" by (rule ext)
  then show ?case by (simp add: bindO_assoc)
qed simp

lemma rounds_return:
  assumes rc: "\<forall>k < 8. rc k = 0" and "conf_good c" and "\<forall>ws \<in> set wss. {..8} \<subseteq> set ws" and "conf_left c < length wss"
  shows "\<exists>c'. run_conf os fr rc hdl (p + 16) (q + 16) (concat wss) c = Done c' \<and> conf_good c' \<and> returned c'"
  using assms(2-)
proof (induction wss arbitrary: c)
  case (Cons ws wss)
  obtain c1 where c1: "run_conf os fr rc hdl (p + 16) (q + 16) ws c = Done c1" "conf_good c1" "returned c \<and> c1 = c \<or> conf_left c1 < conf_left c"
    using round_good [OF rc Cons.prems(1), where ws = ws and hdl = hdl] Cons.prems(2) by auto
  show ?case
  proof (cases "returned c1")
    case False
    then have "conf_left c1 < length wss" using c1(3) Cons.prems(3) by auto
    then show ?thesis using Cons.IH [OF c1(2)] Cons.prems(2) c1(1) by (simp add: run_append)
  next
    case True
    then have "run_conf os fr rc hdl (p + 16) (q + 16) us c1 = Done c1" for us
      by (induction us) (auto simp: conf_step_def main_step_def created_def returned_def split: main_pc.splits)
    then show ?thesis using c1(1,2) True by (simp add: run_append)
  qed
qed simp

lemma start_good:
  assumes "stands R sh [] s" and "slot_guarded sh p 64" and "slot_guarded sh q 8"
  shows "conf_good \<lparr>pcs = (\<lambda>_. Entering), mpc = Creating 0, rts = s\<rparr>"
  using calmI [OF assms, of "\<lambda>_. 0" "\<lambda>_. Entering"] by (simp add: conf_good_def working_def)

lemma start_left: "conf_left \<lparr>pcs = (\<lambda>_. Entering), mpc = Creating 0, rts = s\<rparr> = 2400052"
  by (simp add: conf_left_def)

text \<open>\<^verbatim>\<open>main\<close> as a whole.\<close>

lemma schedule_runs:
  assumes rc: "\<forall>k < 8. rc k = 0" and s: "stands R sh [] s" "slot_guarded sh p 64" "slot_guarded sh q 8"
  shows "threaded_valid_c fr rc hdl (p + 16) (q + 16) sched os s = None
      \<or> (\<exists>o'. threaded_valid_c fr rc hdl (p + 16) (q + 16) sched os s = Some o' \<and> ends R 0 (printed_long (joined_acc 8)) (list_all freed) o')"
    and "sched = concat wss \<Longrightarrow> \<forall>ws \<in> set wss. {..8} \<subseteq> set ws \<Longrightarrow> 2500000 \<le> length wss \<Longrightarrow>
      threaded_valid_c fr rc hdl (p + 16) (q + 16) sched os s \<noteq> None"
proof -
  let ?c = "\<lparr>pcs = (\<lambda>_. Entering), mpc = Creating 0, rts = s\<rparr>"
  have g: "conf_good ?c" by (rule start_good [OF s])
  obtain c' where c': "run_conf os fr rc hdl (p + 16) (q + 16) sched ?c = Done c'" "conf_good c'" using run_good [OF rc g] by blast
  show "threaded_valid_c fr rc hdl (p + 16) (q + 16) sched os s = None
      \<or> (\<exists>o'. threaded_valid_c fr rc hdl (p + 16) (q + 16) sched os s = Some o' \<and> ends R 0 (printed_long (joined_acc 8)) (list_all freed) o')"
  proof (cases "mpc c'")
    case (Returned st out)
    obtain sh' bs own where st': "stands R sh' bs (rts c')" and w: "working (mem (rts c')) bs own (pcs c')"
      using c'(2) by (auto simp: conf_good_def calm_def)
    have m: "st = 0" "out = printed_long (joined_acc 8)" "\<forall>t < 8. ended (pcs c' t)" using c'(2) Returned by (simp_all add: conf_good_def)
    have "\<not> holds_block (pcs c' t)" if "t < 8" for t using m(3) that by (cases "pcs c' t") fastforce+
    then have "list_all freed bs" using w unfolding working_def list_all_length by blast
    then show ?thesis using st' m c'(1) Returned by (auto simp: threaded_valid_c_def ends_def)
  qed (simp_all add: threaded_valid_c_def c'(1))
  show "threaded_valid_c fr rc hdl (p + 16) (q + 16) sched os s \<noteq> None"
    if "sched = concat wss" "\<forall>ws \<in> set wss. {..8} \<subseteq> set ws" "2500000 \<le> length wss"
  proof -
    have "conf_left ?c < length wss" unfolding start_left using that(3) by simp
    from rounds_return [OF rc g that(2) this, of hdl] c'(1) that(1) have "returned c'" by auto
    then show ?thesis by (auto simp: threaded_valid_c_def c'(1) returned_def split: main_pc.splits)
  qed
qed

end

section \<open>The sum\<close>

lemma scast_elem: "it < 10000 \<Longrightarrow> i < 11 \<Longrightarrow> (scast (elem_val it i) :: 64 word) = of_nat (i + it)"
proof -
  assume b: "it < 10000" "i < 11"
  have n: "i + it < 2147483648" using b by simp
  have "sint (of_nat (i + it) :: 32 word) = int (i + it)"
    using signed_take_bit_int_eq_self [of 31 "int (i + it)"] n by (simp add: signed_of_nat del: of_nat_add)
  then show ?thesis by (simp add: elem_val_def scast_eq flip: of_nat_add)
qed

lemma round_acc_sum:
  "it < 10000 \<Longrightarrow> n \<le> 11 \<Longrightarrow> round_acc it n acc = acc + of_nat (\<Sum>i < n. i + it)"
  by (induction n) (simp_all add: scast_elem add.assoc)

lemma worker_acc_sum: "n \<le> 10000 \<Longrightarrow> worker_acc t n = of_nat (\<Sum>it < n. \<Sum>i < elems t it. i + it)"
  by (induction n) (simp_all add: round_acc_sum elems_bound)

lemma elems_mod: "t < 8 \<Longrightarrow> it < 10000 \<Longrightarrow> elems t it = 4 + (t + it) mod 8"
proof -
  assume b: "t < 8" "it < 10000"
  have u: "unat (of_nat t + of_nat it :: 32 word) = t + it"
    using b by (simp add: unsigned_of_nat take_bit_nat_eq_self flip: of_nat_add)
  have "(of_nat t + of_nat it :: 32 word) AND 7 = take_bit 3 (of_nat t + of_nat it)"
    by (simp add: take_bit_eq_mask mask_eq_exp_minus_1)
  then have "unat ((of_nat t + of_nat it :: 32 word) AND 7) = unat (of_nat t + of_nat it :: 32 word) mod 2 ^ 3"
    by (simp only: unsigned_take_bit_eq) (simp only: take_bit_eq_mod)
  then show ?thesis by (simp add: elems_def u)
qed


text \<open>Each round of the eight threads goes through all of the eight lengths.\<close>

lemma all_lengths: "(\<Sum>t < 8. f ((t + it) mod 8)) = (\<Sum>r < 8. f r)" for f :: "nat \<Rightarrow> nat"
proof -
  have s: "(\<Sum>t < 8. g t) = g 0 + g 1 + g 2 + g 3 + g 4 + g 5 + g 6 + g 7" for g :: "nat \<Rightarrow> nat"
    by (simp add: eval_nat_numeral)
  define r where "r = it mod 8"
  have "f ((t + it) mod 8) = f ((t + r) mod 8)" for t by (simp add: r_def mod_add_right_eq)
  then have "(\<Sum>t < 8. f ((t + it) mod 8)) = (\<Sum>t < 8. f ((t + r) mod 8))" by simp
  moreover have "r = 0 \<or> r = 1 \<or> r = 2 \<or> r = 3 \<or> r = 4 \<or> r = 5 \<or> r = 6 \<or> r = 7"
    unfolding r_def by linarith
  then have "(\<Sum>t < 8. f ((t + r) mod 8)) = (\<Sum>r < 8. f r)"
    unfolding s by (elim disjE) (simp_all flip: numeral_2_eq_2)
  ultimately show ?thesis by simp
qed

lemma round_sum:
  assumes "it < 10000"
  shows "(\<Sum>t < 8. \<Sum>i < elems t it. i + it) = 60 * it + 216"
proof -
  have "(\<Sum>t < 8. \<Sum>i < elems t it. i + it) = (\<Sum>t < 8. \<Sum>i < 4 + (t + it) mod 8. i + it)"
    by (rule sum.cong) (use assms elems_mod in simp_all)
  also have "\<dots> = (\<Sum>r < 8. \<Sum>i < 4 + r. i + it)" by (rule all_lengths [of "\<lambda>r. \<Sum>i < 4 + r. i + it"])
  also have "\<dots> = 60 * it + 216" by (simp add: numeral_eq_Suc)
  finally show ?thesis .
qed

lemma joined_sum: "joined_acc 8 = 3001860000"
proof -
  have j: "joined_acc k = of_nat (\<Sum>t < k. \<Sum>it < 10000. \<Sum>i < elems t it. i + it)" for k
    by (induction k) (simp_all add: worker_acc_sum)
  have "(\<Sum>t < 8. \<Sum>it < 10000. \<Sum>i < elems t it. i + it) = (\<Sum>it < 10000. \<Sum>t < 8. \<Sum>i < elems t it. i + it)"
    by (rule sum.swap)
  also have "\<dots> = (\<Sum>it < 10000. 60 * it + 216)" by (rule sum.cong) (use round_sum in simp_all)
  also have "\<dots> = 3001860000"
  proof -
    have "(\<Sum>it < n. 60 * it + 216) + 30 * n = 30 * n * n + 216 * n" for n :: nat by (induction n) (simp_all add: algebra_simps)
    from this [of 10000] show ?thesis by simp
  qed
  finally show ?thesis using j [of 8] by simp
qed

lemma joined_printed: "printed_long (joined_acc 8) = ''3001860000'' @ newline"
  by (simp add: printed_long_def joined_sum printed)


section \<open>The property\<close>

context host
begin

lemma run_pending:
  "prog os (entered fs (with_globals gs (loaded m))) = None \<Longrightarrow> run_process env le os m gs (in_run os fs prog) = None"
  using enter_slots_stands [OF with_globals_stands [of R gs m], of fs os] frame
  by (simp add: startup_loaded [OF room] in_run_def with_frame_def frame_in_def)

end

text \<open>The stress test for the checker's locking, eight threads that allocate, fill, add up and free ten thousand blocks each while the
  first thread creates and joins them, runs clean in every order of the calls: no schedule makes the checker report, and a process that has come to
  its end has printed the sum and exited with status 0, every block freed. It does end: two and a half million rounds in each of which every
  thread gets a turn are enough, in whatever order.\<close>

theorem threaded_runs:
  assumes "allocator R os" and "roomy os" and "layout_ok R [] fs" and "plain_env env le"
    and "(p, 64) \<in> set fs" and "(q, 8) \<in> set fs"
    and "\<And>t. t < 8 \<Longrightarrow> far (fr t) p 64 \<and> far (fr t) q 8 \<and> (\<forall>(b, k) \<in> set (fr t). slot_ok b k \<and> (b, k + 32) \<in> set R)"
    and "\<And>k. k < 8 \<Longrightarrow> rc k = 0"
  shows "run_process env le os m [] (in_run os fs (threaded_valid_c fr rc hdl (p + 16) (q + 16) sched))
      \<in> {None, Some (Exited 0 (''3001860000'' @ newline) [])}
    \<and> (2500000 \<le> length wss \<longrightarrow> (\<forall>ws \<in> set wss. {..8} \<subseteq> set ws) \<longrightarrow>
        run_process env le os m [] (in_run os fs (threaded_valid_c fr rc hdl (p + 16) (q + 16) (concat wss)))
          = Some (Exited 0 (''3001860000'' @ newline) []))"
proof -
  define proc where "proc us = run_process env le os m [] (in_run os fs (threaded_valid_c fr rc hdl (p + 16) (q + 16) us))" for us
  have h: "host os R [] fs env le" by (rule host.intro [OF assms(1-4)])
  have c: "crew os R [] fs env le fr p q" by (intro crew.intro crew_axioms.intro h) (use assms(5-7) in blast)+
  have rc: "\<forall>k < 8. rc k = 0" using assms(8) by simp
  have main: "proc us \<in> {None, Some (Exited 0 (''3001860000'' @ newline) [])}
      \<and> (us = concat wss \<longrightarrow> 2500000 \<le> length wss \<longrightarrow> (\<forall>ws \<in> set wss. {..8} \<subseteq> set ws) \<longrightarrow> proc us \<noteq> None)" for us
  proof -
    let ?prog = "threaded_valid_c fr rc hdl (p + 16) (q + 16) us" and ?s = "entered fs (with_globals [] (loaded m))"
    have st: "stands R (shadow_val ?s) [] ?s"
      using enter_slots_stands [OF with_globals_stands [of R "[]" m], of fs os] assms(3) by (simp add: layout_ok_def frame_in_def)
    note sg = host.slot_at_start [OF h refl refl assms(5), of m] host.slot_at_start [OF h refl refl assms(6), of m]
    note r = crew.schedule_runs [OF c rc st sg, where hdl = hdl and sched = us]
    show ?thesis
    proof (cases "?prog os ?s")
      case None
      then show ?thesis using host.run_pending [OF h, where prog = ?prog and m = m, OF None] r(2) unfolding proc_def by blast
    next
      case (Some o')
      then have e: "ends R 0 (''3001860000'' @ newline) (list_all freed) o'" using r(1) by (simp add: joined_printed)
      have "proc us = Some (Exited 0 (''3001860000'' @ newline) [])"
        unfolding proc_def in_run_def by (rule host.run_exits [OF h]) (use Some e in blast)
      moreover from this have "proc us \<noteq> None" by (simp only: option.distinct not_False_eq_True)
      ultimately show ?thesis by blast
    qed
  qed
  show ?thesis using main [of sched] main [of "concat wss"] unfolding proc_def by blast
qed

text \<open>A host for it: two variables in \<^verbatim>\<open>main\<close>, one in each thread, and everybody in turn.\<close>

definition crew_frame :: "(u64 \<times> u64) list" where
  "crew_frame = [(4096, 64), (8192, 8)]"

definition thread_frame :: "nat \<Rightarrow> (u64 \<times> u64) list" where
  "thread_frame t = [(65536 + 4096 * of_nat t, 8)]"

definition crew_regions :: "(u64 \<times> u64) list" where
  "crew_regions = [(4096, 96), (8192, 40)] @ map (\<lambda>t. (65536 + 4096 * of_nat t, 40)) [0..<8]"

lemma crew_os: "allocator crew_regions (first_fit crew_regions)" "roomy (first_fit crew_regions)"
  by (rule first_fit_allocator, rule first_fit_roomy) (auto simp: crew_regions_def)

lemma crew_layout: "layout_ok crew_regions [] crew_frame"
  by (simp add: layout_ok_def regions_ok_def frame_in_def slot_ok_def crew_regions_def crew_frame_def upt_numeral)

lemma below_8: "t < 8 \<Longrightarrow> t = 0 \<or> t = 1 \<or> t = 2 \<or> t = 3 \<or> t = 4 \<or> t = 5 \<or> t = 6 \<or> t = (7 :: nat)"
  by linarith

lemma crew_threads:
  assumes "t < 8"
  shows "far (thread_frame t) 4096 64 \<and> far (thread_frame t) 8192 8
    \<and> (\<forall>(b, k) \<in> set (thread_frame t). slot_ok b k \<and> (b, k + 32) \<in> set crew_regions)"
  using below_8 [OF assms] by (elim disjE) (simp_all add: far_def slot_ok_def thread_frame_def crew_regions_def upt_numeral)

interpretation dc: crew "first_fit crew_regions" crew_regions "[]" crew_frame plain_report_env bare_leak_env thread_frame 4096 8192
  by unfold_locales (use crew_os crew_layout demo_plain crew_threads in \<open>auto simp: crew_frame_def\<close>)

theorem threaded_runs_witness:
  "run_process plain_report_env bare_leak_env (first_fit crew_regions) (\<lambda>_. 0) []
     (in_run (first_fit crew_regions) crew_frame
       (threaded_valid_c thread_frame (\<lambda>_. 0) of_nat 4112 8208 (concat (replicate 2500000 [0, 1, 2, 3, 4, 5, 6, 7, 8]))))
   = Some (Exited 0 (''3001860000'' @ newline) [])"
proof -
  have s: "{..8} \<subseteq> set [0, 1, 2, 3, 4, 5, 6, 7, 8 :: nat]" by auto
  have f: "(4096, 64) \<in> set crew_frame" "(8192, 8) \<in> set crew_frame" by (simp_all add: crew_frame_def)
  have e: "(4096 :: u64) + 16 = 4112" "(8192 :: u64) + 16 = 8208" by simp_all
  have r: "ws = [0, 1, 2, 3, 4, 5, 6, 7, 8]" if "ws \<in> set (replicate 2500000 [0, 1, 2, 3, 4, 5, 6, 7, 8 :: nat])" for ws
    using that unfolding in_set_replicate by blast
  have w: "\<forall>ws \<in> set (replicate 2500000 [0, 1, 2, 3, 4, 5, 6, 7, 8 :: nat]). {..8} \<subseteq> set ws" using r s by blast
  have l: "2500000 \<le> length (replicate 2500000 [0, 1, 2, 3, 4, 5, 6, 7, 8 :: nat])" by (simp only: length_replicate order_refl)
  define wss :: "nat list list" where "wss = replicate 2500000 [0, 1, 2, 3, 4, 5, 6, 7, 8]"
  have "2500000 \<le> length wss" "\<forall>ws \<in> set wss. {..8} \<subseteq> set ws" using l w unfolding wss_def by blast+
  then have "run_process plain_report_env bare_leak_env (first_fit crew_regions) (\<lambda>_. 0) []
     (in_run (first_fit crew_regions) crew_frame
       (threaded_valid_c thread_frame (\<lambda>_. 0) of_nat (4096 + 16) (8192 + 16) (concat wss)))
      = Some (Exited 0 (''3001860000'' @ newline) [])"
    using threaded_runs [where fr = thread_frame and rc = "\<lambda>_. 0" and hdl = of_nat and m = "\<lambda>_. 0",
      OF crew_os crew_layout demo_plain f crew_threads refl, where wss = wss] by blast
  then show ?thesis unfolding e wss_def .
qed

end
