(* ===== verification/Spec2Isabelle.thy ===== *)
theory Spec2Isabelle
  imports RZ_Libc RZ_Interpose RZ_Threads Race_Bench Pass_Abi Pass_Driver Mem_Threads
begin

text \<open>
  Verification development for redzone, a memory-safety and data-race checker for C and C++. A compiler
  pass (\<^verbatim>\<open>src/RedzonePass.cpp\<close>) rewrites a program so that it calls one of two runtimes: the memory
  checker (\<^verbatim>\<open>runtime/redzone_rt.c\<close>) or the race detector (\<^verbatim>\<open>runtime/redzone_race.c\<close>, the engine, and
  \<^verbatim>\<open>runtime/redzone_race_rt.c\<close>, the wrappers). A third library routes the allocations of a whole process
  to the memory checker (\<^verbatim>\<open>runtime/redzone_interpose.c\<close>).

  How the parts meet. The memory checker keeps an allocation table, a shadow byte for every eight bytes
  of address space, and in front of each block a header that names its table slot; allocation, release,
  the guarded stack and global regions and the access check all read and write these three. The pass
  decides which accesses are checked, lays out the guarded regions and redirects the allocators and the
  bulk functions. The race detector gives each thread and each lock a vector clock and each word a few
  cells that remember accesses; an access is a race when its clock does not cover a conflicting cell. Its
  runtime finds the clocks by \<^verbatim>\<open>pthread_t\<close> and by lock address and is called by the hooks of the pass.

  The memory checker.
  \<^item> \<open>RZ_Prelude\<close>: words read as numbers (\<open>unat_ops\<close>), byte spans, little-endian memory.
  \<^item> \<open>RZ_State\<close>: the state \<open>rt\<close> (\<^verbatim>\<open>g_blocks\<close>, the shadow, the application's memory, the table lock),
    the outcome of a call (\<open>Halt\<close> with the report, or a failure of the system) and the lock.
  \<^item> \<open>RZ_Shadow\<close>: \<^verbatim>\<open>shadow_init\<close> to \<^verbatim>\<open>byte_poisoned\<close>; the locale \<open>shadow_ops\<close> is what the other components
    rely on, interpreted on the two fills of the code.
  \<^item> \<open>RZ_Table\<close>: recording and finding blocks, the back reference, the queries of the interposer.
  \<^item> \<open>RZ_Alloc\<close>, \<open>RZ_Region\<close>, \<open>RZ_Check\<close>: the allocators and \<^verbatim>\<open>free\<close>, stack slots and globals,
    \<^verbatim>\<open>__redzone_check\<close> with the test the pass inlines.
  \<^item> \<open>RZ_Heap\<close>: the invariant \<open>heap_wf\<close> (table, headers and shadow agree) and the locale
    \<open>back_reference\<close>; \<open>RZ_HeapOps\<close>: every allocator branch by branch; \<open>RZ_Machine\<close>: the step relation
    \<open>heap_step\<close> of an instrumented program and its reachable states; \<open>RZ_HeapProps\<close>: the properties.
  \<^item> \<open>RZ_Threads\<close>: allocation, release and checks of several threads interleaved: the table changes in one step
    under the lock, the shadow and the header byte by byte after it (\<open>conc_step\<close>); what each thread
    sees of a block and how the writes under way come to an end.
  \<^item> \<open>RZ_Libc\<close>: \<^verbatim>\<open>__redzone_memcpy\<close> to \<^verbatim>\<open>__redzone_sprintf\<close>. \<open>written\<close> and \<open>reads\<close> say what a call touches;
    \<open>bulk_shape\<close> shows that every wrapper is two checks and a write inside the first range.
  \<^item> \<open>RZ_Report\<close>: the reports (\<^verbatim>\<open>report\<close>, \<^verbatim>\<open>report_simple\<close>, \<^verbatim>\<open>report_free_error\<close>) as text, JSON or SARIF;
    \<open>RZ_Json\<close>: JSON values, a reader for them, and the findings as values that the reader gets back.
  \<^item> \<open>RZ_Leak\<close>: suppressions and the leak report at exit; \<open>RZ_LeakProps\<close>: its verdict on a run.
  \<^item> \<open>RZ_Interpose\<close>: the interposed functions, the registered zone, re-entrant calls. The system's \<^verbatim>\<open>realloc\<close> is a
    partial function, as it promises nothing for a pointer that it did not allocate; \<open>reentrant_block\<close> shows that
    a redzone block can get there.

  The race detector.
  \<^item> \<open>Race_Clock\<close>, \<open>Race_Shadow\<close>, \<open>Race_Engine\<close>: clocks and cells, the open-addressing table with its probe
    loop, threads, locks and accesses, with the locales \<open>clock_order\<close> and \<open>word_map\<close> between them.
  \<^item> \<open>Race_Trace\<close>: the engine driven by a trace of events, and happens-before on the trace;
    \<open>Race_Order\<close>: a cell the clock covers is ordered before the access, and the reports are sound;
    \<open>Race_Complete\<close>: knowledge travels only along the recorded synchronization, so the clocks decide
    happens-before exactly.
  \<^item> \<open>Race_Runtime\<close>: registries, wrappers, report cap, exit hook (\<^verbatim>\<open>redzone_race_rt.c\<close>,
    \<^verbatim>\<open>redzone_race_main.c\<close>); \<open>Race_Refine\<close>: each runtime call is a sequence of engine events;
    \<open>Race_Props\<close>: the properties.
  \<^item> \<open>Race_Programs\<close>: threads as sequences of the operations the runtime is told of, and all their interleavings
    (\<open>exec_reach\<close>). A discipline is a check of the code (locale \<open>discipline\<close>); code that keeps to a lock, hands a word
    over through a flag or keeps it to one thread is never reported. \<open>Race_Unsynced\<close>: writers that nothing
    orders are always reported. \<open>Race_Examples\<close>: the race-mode programs under \<^verbatim>\<open>examples\<close> and their verdicts;
    \<open>Race_Bench\<close>: words that are frozen before the threads exist, and the benchmarks under \<^verbatim>\<open>bench/race\<close>.

  The pass.
  \<^item> \<open>Pass_IR\<close>: the intermediate code as far as the pass looks at it. What the compiler computes about types
    and pointers is a parameter (\<open>layout\<close>), and so is \<^verbatim>\<open>fnmatch\<close>.
    \<open>get_or_insert_function\<close> and \<open>get_or_insert_global\<close> add a declaration that the module does not have yet.
  \<^item> \<open>Pass_Safety\<close>, \<open>Pass_Race\<close>: \<open>run_safety\<close> and \<open>run_race\<close>, stage by stage as in the two \<^verbatim>\<open>run\<close> functions, from the
    declarations of the runtime (\<open>declare_runtime\<close>, \<open>declare_hooks\<close>) on.
  \<^item> \<open>Pass_Props\<close>: the heap operations of the instrumented code are those of the source, emitted calls typed as
    declared; \<open>Pass_Redundant\<close>: leaving out redundant checks changes no run; \<open>Pass_Layout\<close>: the enlarged stack
    objects and globals hold their red zones; \<open>Pass_Race_Props\<close>: race mode announces every access and redirects
    the calls that order threads. The names that the specifications of both use are those of C, C++ and POSIX, spelled
    out apart from the tables of the pass (\<open>heap_names\<close>, \<open>checked_names\<close>, \<open>ordering_calls\<close>).
  \<^item> \<open>Pass_Abi\<close>: the prototypes of \<^verbatim>\<open>redzone_rt.h\<close> and \<^verbatim>\<open>redzone_race_rt.h\<close>, and that the calls of an instrumented module
    fit them. The C types are lowered as on the 64-bit platforms; a named type such as \<^verbatim>\<open>pthread_t\<close> is a parameter.
  \<^item> \<open>Pass_Driver\<close>: the choice of the mode, the line the pass prints, and that it keeps the analyses of unchanged code
    only: the run may still have declared the runtime in the module (\<open>declared_although_preserved\<close>).

  Instrumented programs, from the start of the process to its end.
  \<^item> \<open>Mem_Programs\<close>: the operations such a program is made of (\<open>load_at\<close>, \<open>store_at\<close>, the frame of a function, the
    constructor of a module, \<open>run_process\<close> with the leak report at exit and \<open>verdict\<close>, the test of \<^verbatim>\<open>scripts/test.sh\<close>) and the
    relation \<open>stands\<close>: the heap invariant with the other regions of the program beside the heap.
  \<^item> \<open>Mem_Arrays\<close>, \<open>Mem_Process\<close>, \<open>Mem_Regions\<close>, \<open>Mem_Strings\<close>: what a program may do next, one rule for each call it makes,
    on arrays, frames, globals, bulk operations and strings. The locale \<open>host\<close> is the platform (allocator, frame layout,
    environment); \<open>host_text\<close> extends it by the string literals.
  \<^item> \<open>Mem_Heap_Examples\<close>, \<open>Mem_Region_Examples\<close>, \<open>Mem_String_Examples\<close>: the programs under \<^verbatim>\<open>examples\<close>, each with the run it has on
    every host; \<open>Mem_Host\<close>: a first-fit allocator that keeps the contract; \<open>Mem_Cases\<close>: a host on it, and the verdicts;
    \<open>Mem_Bench\<close>: the programs under \<^verbatim>\<open>bench\<close>, with what they compute; \<open>Mem_Threads\<close>: \<^verbatim>\<open>threaded_valid.c\<close>, whose threads are
    interleaved by a schedule, with the locale \<open>crew\<close>; every schedule runs clean, and every fair one to the end.

  Bounds. Addresses are 64-bit words that wrap as in C; the shadow covers the addresses below
  \<^verbatim>\<open>SHADOW_LIMIT\<close>, and the layout properties ask for objects below it. An access of at most 17 bytes cannot
  step over a red zone of 16, which is where that number comes from, in \<open>heap_step\<close> too. A bulk operation tests its
  two ends only, so the step \<open>Bulk\<close> of that relation asks for one that leaves the guard bytes alone
  (\<open>span_clear\<close>); \<open>bulk_overrun_missed\<close> shows what happens otherwise. Thread numbers are unbounded integers, where C has an \<^verbatim>\<open>int\<close>.
  A program that creates more threads than an \<^verbatim>\<open>int\<close> can count is outside the model. String lengths are read by a partial
  function, so an unterminated string is a call that does not return; \<open>short_strings\<close> keeps the lengths
  within the address space. The reader of JSON has the length of the text as fuel, which
  \<open>weight_le\<close> shows to be enough. The table of words has a power of two of buckets and its probe loop visits
  each once. Threads run one step at a time on a sequentially consistent memory; in the memory checker a step is one
  locked section or one byte, and the internal mutexes of the race runtime are taken to make each of its
  operations atomic.

  The allocator of a host has room for a request of up to 8000 bytes while the heap holds at most a million
  blocks of at most 64 kilobytes, freed ones included, which is more than any of the programs asks for.

  Parameters. What the system allocator, \<^verbatim>\<open>mmap\<close>, \<^verbatim>\<open>pthread\<close> functions, \<^verbatim>\<open>backtrace\<close>, the external symbolizer and
  the format expansion of \<^verbatim>\<open>vsnprintf\<close> answer; the environment variables; \<^verbatim>\<open>%p\<close>; file contents.

  Not modelled. \<^verbatim>\<open>rz_sys_malloc\<close>, \<^verbatim>\<open>rz_sys_realloc\<close> and \<^verbatim>\<open>rz_sys_free\<close> only choose a platform function. The
  registration of the pass with the compiler is a call of the compiler library. \<^verbatim>\<open>realloc\<close> in \<open>RZ_Threads\<close> is the allocation
  and the release it is made of. Overlapping arguments of \<^verbatim>\<open>memcpy\<close> and the string functions are undefined in C
  and copied here as \<^verbatim>\<open>memmove\<close> does. In \<open>Mem_Threads\<close> a call of the runtime is one step; how its parts mix with other
  threads is the subject of \<open>RZ_Threads\<close>. An invoke is not redirected by the pass, nor are the forms of \<^verbatim>\<open>operator new\<close> with
  a \<^verbatim>\<open>nothrow\<close> argument. A race report is kept as a record of what is printed. Tests and scripts hold no logic of the checker.
\<close>

end
